(* ===== verification/Norn_Prelude.thy ===== *)
theory Norn_Prelude
  imports Main "HOL-Library.Word" "HOL-Library.Multiset"
begin

unbundle bit_operations_syntax

text \<open>
  Shared vocabulary of the development: the machine types of the C sources, the
  byte order helpers every wire format uses, linear search over a fixed table of
  slots, and the swap-with-last removal several tables share.

  \<^item> \<open>byte\<close>, \<open>u16\<close>, \<open>u32\<close>, \<open>u64\<close> are the fixed width C integers, kept at
    their width, so \<open>+\<close> and \<open>-\<close> wrap as they do in C.
  \<^item> A C buffer with its length is one \<open>byte list\<close>; the length argument of the
    C function is the length of the list.
  \<^item> \<open>find_idx\<close> is the loop that scans an array for the first match and leaves
    the index; \<open>slot_map\<close> reads such a table as a finite map.
  \<^item> \<open>swap_remove\<close> is the removal that overwrites the slot with the last one.

  The locale \<open>slot_table\<close> is the contract of a table of slots with a used flag;
  every key-value table of the program interprets it.
\<close>

section \<open>Machine types\<close>

type_synonym byte = "8 word"
type_synonym u16 = "16 word"
type_synonym u32 = "32 word"
type_synonym u64 = "64 word"

type_synonym bytes = "byte list"

named_theorems codec_simps \<open>round trips of the fixed width encoders\<close>
named_theorems slot_simps \<open>facts about tables of slots\<close>

section \<open>Byte order\<close>

text \<open>The shift and mask encoders of the sources, most significant byte first.\<close>

definition be16 :: "u16 \<Rightarrow> bytes" where
  "be16 v = [ucast (drop_bit 8 v), ucast v]"

definition un_be16 :: "bytes \<Rightarrow> u16" where
  "un_be16 p = (push_bit 8 (ucast (p ! 0)) OR ucast (p ! 1))"

definition be32 :: "u32 \<Rightarrow> bytes" where
  "be32 v = [ucast (drop_bit 24 v), ucast (drop_bit 16 v), ucast (drop_bit 8 v), ucast v]"

definition un_be32 :: "bytes \<Rightarrow> u32" where
  "un_be32 p = (push_bit 24 (ucast (p ! 0)) OR push_bit 16 (ucast (p ! 1)) OR
                push_bit 8 (ucast (p ! 2)) OR ucast (p ! 3))"

definition be64 :: "u64 \<Rightarrow> bytes" where
  "be64 v = map (\<lambda>i. ucast (drop_bit (56 - 8 * i) v)) [0..<8]"

definition un_be64 :: "bytes \<Rightarrow> u64" where
  "un_be64 p = fold (\<lambda>i v. push_bit 8 v OR ucast (p ! i)) [0..<8] 0"

lemma length_be16 [simp]: "length (be16 v) = 2"
  by (simp add: be16_def)

lemma length_be32 [simp]: "length (be32 v) = 4"
  by (simp add: be32_def)

lemma length_be64 [simp]: "length (be64 v) = 8"
  by (simp add: be64_def)

lemma un_be16_be16 [simp, codec_simps]: "un_be16 (be16 v @ xs) = v"
  by (rule bit_word_eqI) (auto simp: un_be16_def be16_def bit_simps)

lemma be16_un_be16: "be16 (un_be16 (a # b # xs)) = [a, b]"
  by (auto simp: be16_def un_be16_def bit_eq_iff bit_simps dest: bit_imp_le_length)

lemma un_be32_be32 [simp, codec_simps]: "un_be32 (be32 v @ xs) = v"
proof (rule bit_word_eqI)
  fix n assume "n < LENGTH(32)"
  then consider "n < 8" | "8 \<le> n" "n < 16" | "16 \<le> n" "n < 24" | "24 \<le> n" "n < 32"
    by fastforce
  then show "bit (un_be32 (be32 v @ xs)) n = bit v n"
    by cases (auto simp: un_be32_def be32_def bit_simps)
qed

lemma upt_0_8: "[0..<8] = [0, 1, 2, 3, 4, 5, 6, 7]"
  by (simp add: upt_rec)

lemma bit_byte_of_u64:
  "bit (push_bit k (ucast (ucast (drop_bit k v) :: byte) :: u64)) n =
     (k \<le> n \<and> n < k + 8 \<and> n < 64 \<and> bit v n)"
  "bit (ucast (ucast v :: byte) :: u64) n = (n < 8 \<and> bit v n)"
  for v :: u64
  by (auto simp: bit_simps dest: bit_imp_le_length)

lemma un_be64_be64 [simp, codec_simps]: "un_be64 (be64 v @ xs) = v"
proof (rule bit_word_eqI)
  fix n assume "n < LENGTH(64)"
  then have "n < 64" by simp
  then consider "n < 8" | "8 \<le> n" "n < 16" | "16 \<le> n" "n < 24" | "24 \<le> n" "n < 32"
    | "32 \<le> n" "n < 40" | "40 \<le> n" "n < 48" | "48 \<le> n" "n < 56" | "56 \<le> n" "n < 64"
    by linarith
  then show "bit (un_be64 (be64 v @ xs)) n = bit v n"
    by cases (simp_all add: un_be64_def be64_def upt_0_8 bit_or_iff bit_byte_of_u64)
qed

lemma unat_of_nat_u16 [simp]: "n < 65536 \<Longrightarrow> unat (word_of_nat n :: u16) = n"
  by (simp add: unat_of_nat take_bit_nat_eq_self)

lemma unat_of_nat_u64: "n < 2 ^ 64 \<Longrightarrow> unat (word_of_nat n :: u64) = n"
  by (simp add: unat_of_nat take_bit_nat_eq_self)

lemma unat_Suc_less: "unat a < unat b \<Longrightarrow> unat (a + 1) = Suc (unat a)" for a b :: "'w::len word"
proof -
  assume "unat a < unat b"
  then have "a \<noteq> - 1" by (metis not_le word_le_nat_alt word_order.extremum)
  then have "a + 1 \<noteq> 0" by (simp add: add_eq_0_iff2)
  then show ?thesis using unatSuc [of a] by (simp add: add.commute)
qed

lemma unat_pred_less: "0 < unat b \<Longrightarrow> unat (b - 1) < unat b" for b :: "'w::len word"
  by (simp add: unat_gt_0 unat_minus_one)

section \<open>Linear search\<close>

text \<open>\<open>for (i = 0; i < n; i++) if (P (&a[i])) return i;\<close> and the not-found case.\<close>

fun find_idx :: "('a \<Rightarrow> bool) \<Rightarrow> 'a list \<Rightarrow> nat option" where
  "find_idx P [] = None"
| "find_idx P (x # xs) = (if P x then Some 0 else map_option Suc (find_idx P xs))"

lemma find_idx_None_iff [simp, slot_simps]:
  "find_idx P xs = None \<longleftrightarrow> (\<forall>x \<in> set xs. \<not> P x)"
  by (induction xs) auto

lemma find_idx_SomeD:
  "find_idx P xs = Some i \<Longrightarrow> i < length xs \<and> P (xs ! i) \<and> (\<forall>j < i. \<not> P (xs ! j))"
proof (induction xs arbitrary: i)
  case (Cons x xs)
  show ?case
  proof (cases "P x")
    case False
    with Cons.prems obtain k where "i = Suc k" "find_idx P xs = Some k" by auto
    with Cons.IH [of k] False show ?thesis by (auto simp: less_Suc_eq_0_disj)
  qed (use Cons.prems in auto)
qed simp

lemma find_idx_less: "find_idx P xs = Some i \<Longrightarrow> i < length xs"
  using find_idx_SomeD by blast

lemma find_idx_holds: "find_idx P xs = Some i \<Longrightarrow> P (xs ! i)"
  using find_idx_SomeD by blast

lemma find_idx_in_set: "find_idx P xs = Some i \<Longrightarrow> xs ! i \<in> set xs"
  by (simp add: find_idx_less)

lemma find_idx_exists: "x \<in> set xs \<Longrightarrow> P x \<Longrightarrow> \<exists>i. find_idx P xs = Some i"
  by (cases "find_idx P xs") auto

lemma find_idx_cong:
  "(\<And>x. x \<in> set xs \<Longrightarrow> P x = Q x) \<Longrightarrow> find_idx P xs = find_idx Q xs"
  by (induction xs) auto

lemma find_idx_distinct:
  "distinct (map f xs) \<Longrightarrow> i < length xs \<Longrightarrow> find_idx (\<lambda>x. f x = f (xs ! i)) xs = Some i"
proof (induction xs arbitrary: i)
  case (Cons x xs)
  show ?case
  proof (cases i)
    case (Suc j)
    then have "f (xs ! j) \<in> f ` set xs" using Cons.prems(2) by (intro imageI nth_mem) simp
    then have "f x \<noteq> f (xs ! j)" using Cons.prems(1) by auto
    with Cons Suc show ?thesis by simp
  qed simp
qed simp

lemma set_update_subset: "set (xs[i := x]) \<subseteq> insert x (set xs)"
  by (rule set_update_subset_insert)

section \<open>Removal by swapping with the last element\<close>

text \<open>\<open>a[i] = a[n - 1]; n--;\<close>\<close>

definition swap_remove :: "nat \<Rightarrow> 'a list \<Rightarrow> 'a list" where
  "swap_remove i xs = butlast (xs[i := last xs])"

lemma length_swap_remove [simp]: "length (swap_remove i xs) = length xs - 1"
  by (simp add: swap_remove_def)

lemma swap_remove_snoc:
  "swap_remove i (ys @ [y]) = (if i < length ys then ys[i := y] else ys)"
  by (auto simp: swap_remove_def list_update_append split: nat.split)

lemma map_swap_remove: "i < length xs \<Longrightarrow> map f (swap_remove i xs) = swap_remove i (map f xs)"
  by (cases xs rule: rev_cases) (auto simp: swap_remove_snoc map_update)

lemma mset_swap_remove:
  assumes "i < length xs"
  shows "mset (swap_remove i xs) = mset xs - {#xs ! i#}"
  using assms
  by (cases xs rule: rev_cases)
    (auto simp: swap_remove_snoc nth_append mset_update add_mset_commute not_less le_Suc_eq less_Suc_eq)

lemma set_swap_remove_subset: "i < length xs \<Longrightarrow> set (swap_remove i xs) \<subseteq> set xs"
  using mset_swap_remove [of i xs] by (metis in_diffD set_mset_mset subsetI)

lemma distinct_map_swap_remove:
  assumes "distinct (map f xs)" and "i < length xs"
  shows "distinct (map f (swap_remove i xs))" (is ?D)
    and "f ` set (swap_remove i xs) = f ` set xs - {f (xs ! i)}" (is ?S)
proof -
  obtain ys y where xs: "xs = ys @ [y]" using assms(2) by (cases xs rule: rev_cases) auto
  have d: "distinct (map f ys)" and y: "f y \<notin> f ` set ys" using assms(1) by (auto simp: xs)
  have "?D \<and> ?S"
  proof (cases "i < length ys")
    case True
    have "f ` set (ys[i := y]) = insert (f y) (f ` set ys - {f (ys ! i)})"
      using set_update_distinct [OF d, of i "f y"] True by (simp add: map_update flip: set_map)
    moreover have "f (ys ! i) \<noteq> f y" using y True by (metis imageI nth_mem)
    ultimately show ?thesis
      using True d y by (auto simp: xs swap_remove_snoc map_update distinct_list_update nth_append)
  next
    case False
    with assms(2) d y show ?thesis by (auto simp: xs swap_remove_snoc nth_append)
  qed
  then show ?D and ?S by auto
qed

section \<open>Tables of slots\<close>

text \<open>
  A table is an array of slots, each with a used flag, a key and a value. The first
  used slot with a key gives the key's value, so the table stands for a map.
\<close>

definition slot_map :: "('e \<Rightarrow> bool) \<Rightarrow> ('e \<Rightarrow> 'k) \<Rightarrow> ('e \<Rightarrow> 'v) \<Rightarrow> 'e list \<Rightarrow> 'k \<Rightarrow> 'v option" where
  "slot_map used key val es k =
     (case find_idx (\<lambda>e. used e \<and> key e = k) es of None \<Rightarrow> None | Some i \<Rightarrow> Some (val (es ! i)))"

definition slots_distinct :: "('e \<Rightarrow> bool) \<Rightarrow> ('e \<Rightarrow> 'k) \<Rightarrow> 'e list \<Rightarrow> bool" where
  "slots_distinct used key es = distinct (map key (filter used es))"

lemma slot_map_Nil [simp]: "slot_map used key val [] = (\<lambda>_. None)"
  by (rule ext) (simp add: slot_map_def)

lemma slot_map_Cons [simp]:
  "slot_map used key val (e # es) =
     (if used e then (slot_map used key val es)(key e \<mapsto> val e) else slot_map used key val es)"
  by (rule ext) (simp add: slot_map_def fun_upd_apply del: find_idx_None_iff split: option.split)

lemma slots_distinct_Nil [simp]: "slots_distinct used key []"
  by (simp add: slots_distinct_def)

lemma slots_distinct_Cons [simp]:
  "slots_distinct used key (e # es) \<longleftrightarrow>
     slots_distinct used key es \<and> (used e \<longrightarrow> (\<forall>e' \<in> set es. used e' \<longrightarrow> key e' \<noteq> key e))"
proof -
  have "key e \<notin> key ` {x \<in> set es. used x} \<longleftrightarrow> (\<forall>e' \<in> set es. used e' \<longrightarrow> key e' \<noteq> key e)"
    unfolding image_iff by (metis (mono_tags, lifting) mem_Collect_eq)
  then show ?thesis by (auto simp: slots_distinct_def)
qed

lemma slot_map_None_iff: "slot_map used key val es k = None \<longleftrightarrow> (\<forall>e \<in> set es. used e \<longrightarrow> key e \<noteq> k)"
  by (induction es) auto

lemma dom_slot_map: "dom (slot_map used key val es) = key ` set (filter used es)"
proof (rule set_eqI)
  show "k \<in> dom (slot_map used key val es) \<longleftrightarrow> k \<in> key ` set (filter used es)" for k
    using slot_map_None_iff [of used key val es k] by (auto simp: dom_def)
qed

lemma slot_map_of_used:
  assumes "slots_distinct used key es" and "e \<in> set es" and "used e"
  shows "slot_map used key val es (key e) = Some (val e)"
  using assms by (induction es) (auto simp: fun_upd_apply)

lemma slot_map_SomeD:
  "slot_map used key val es k = Some v \<Longrightarrow> \<exists>e \<in> set es. used e \<and> key e = k \<and> val e = v"
  by (induction es) (auto split: if_splits)

lemma slot_map_filter: "slot_map used key val (filter used es) = slot_map used key val es"
  by (induction es) auto

lemma card_dom_slot_map:
  assumes "slots_distinct used key es"
  shows "card (dom (slot_map used key val es)) = length (filter used es)"
  using assms distinct_card [of "map key (filter used es)"]
  by (simp add: slots_distinct_def dom_slot_map)

text \<open>
  The contract of the slot operations: \<open>fill\<close> writes key and value and marks the
  slot used, \<open>set_val\<close> overwrites the value of a used slot, \<open>clear\<close> frees it.
\<close>

locale slot_table =
  fixes used :: "'e \<Rightarrow> bool" and key :: "'e \<Rightarrow> 'k" and val :: "'e \<Rightarrow> 'v"
    and fill :: "'k \<Rightarrow> 'v \<Rightarrow> 'e \<Rightarrow> 'e" and set_val :: "'v \<Rightarrow> 'e \<Rightarrow> 'e" and clear :: "'e \<Rightarrow> 'e"
  assumes used_fill: "used (fill k v e)" and key_fill: "key (fill k v e) = k"
    and val_fill: "val (fill k v e) = v"
    and used_set_val: "used (set_val v e) = used e" and key_set_val: "key (set_val v e) = key e"
    and val_set_val: "val (set_val v e) = v"
    and used_clear: "\<not> used (clear e)"
begin

lemmas slot_laws = used_fill key_fill val_fill used_set_val key_set_val val_set_val used_clear

lemma map_overwrite:
  "find_idx (\<lambda>e. used e \<and> key e = k) es = Some i \<Longrightarrow>
     slot_map used key val (es[i := set_val v (es ! i)]) = (slot_map used key val es)(k \<mapsto> v)"
  by (induction es arbitrary: i)
    (auto simp: slot_laws fun_upd_twist split: if_splits)

lemma distinct_overwrite:
  "i < length es \<Longrightarrow> slots_distinct used key es \<Longrightarrow>
     slots_distinct used key (es[i := set_val v (es ! i)])"
proof (induction es arbitrary: i)
  case (Cons e es)
  then show ?case
    by (cases i) (auto simp: slot_laws dest!: set_update_subset [THEN subsetD] intro: nth_mem)
qed simp

lemma map_insert_free:
  "i < length es \<Longrightarrow> \<not> used (es ! i) \<Longrightarrow> slot_map used key val es k = None \<Longrightarrow>
     slot_map used key val (es[i := fill k v (es ! i)]) = (slot_map used key val es)(k \<mapsto> v)"
proof (induction es arbitrary: i)
  case (Cons e es)
  then show ?case
    by (cases i) (auto simp: slot_laws fun_upd_twist split: if_splits)
qed simp

lemma distinct_insert_free:
  "i < length es \<Longrightarrow> \<not> used (es ! i) \<Longrightarrow> slot_map used key val es k = None \<Longrightarrow>
     slots_distinct used key es \<Longrightarrow> slots_distinct used key (es[i := fill k v (es ! i)])"
proof (induction es arbitrary: i)
  case (Cons e es)
  then show ?case
    by (cases i)
      (auto simp: slot_laws slot_map_None_iff split: if_splits
         dest!: set_update_subset [THEN subsetD])
qed simp

lemma map_clear:
  "find_idx (\<lambda>e. used e \<and> key e = k) es = Some i \<Longrightarrow> slots_distinct used key es \<Longrightarrow>
     slot_map used key val (es[i := clear (es ! i)]) = (slot_map used key val es)(k := None)"
proof (induction es arbitrary: i)
  case (Cons e es)
  then show ?case
    by (auto simp: slot_laws slot_map_None_iff fun_upd_idem_iff fun_upd_twist split: if_splits)
qed simp

lemma distinct_clear:
  "i < length es \<Longrightarrow> slots_distinct used key es \<Longrightarrow> slots_distinct used key (es[i := clear (es ! i)])"
proof (induction es arbitrary: i)
  case (Cons e es)
  then show ?case
    by (cases i) (auto simp: slot_laws dest!: set_update_subset [THEN subsetD])
qed simp

lemma count_insert_free:
  "i < length es \<Longrightarrow> \<not> used (es ! i) \<Longrightarrow>
     length (filter used (es[i := fill k v (es ! i)])) = Suc (length (filter used es))"
proof (induction es arbitrary: i)
  case (Cons e es)
  then show ?case by (cases i) (auto simp: slot_laws)
qed simp

lemma count_overwrite:
  "i < length es \<Longrightarrow> length (filter used (es[i := set_val v (es ! i)])) = length (filter used es)"
proof (induction es arbitrary: i)
  case (Cons e es)
  then show ?case by (cases i) (auto simp: slot_laws)
qed simp

lemma count_clear:
  "i < length es \<Longrightarrow> used (es ! i) \<Longrightarrow>
     Suc (length (filter used (es[i := clear (es ! i)]))) = length (filter used es)"
proof (induction es arbitrary: i)
  case (Cons e es)
  then show ?case by (cases i) (auto simp: slot_laws)
qed simp

end

end
