(* ===== verification/Norn_Kvstore.thy ===== *)
theory Norn_Kvstore
  imports Norn_Prelude
begin

text \<open>
  The replicated key-value state machine, \<open>src/libnorn/norn_kvstore.c\<close>.

  A buffer with its length is a byte list, so \<open>klen == n && memcmp\<close> is equality of
  lists. The entry table is a list whose length is \<open>cap\<close>; the arrays \<open>key\<close> and
  \<open>val\<close> of an entry hold the bytes in use. A watch callback with its user data is a
  number, and an operation returns the calls it makes to the watches, in order. An
  operation that fills an output buffer returns \<open>None\<close> where the code returns -1.

  The specification is a map from keys to values with a bound on its size
  (\<open>kv_spec\<close>); the table refines it, on every command a proposer can encode, and
  rejects every other byte string.
\<close>

section \<open>State\<close>

record kv_entry =
  ke_key :: bytes
  ke_val :: bytes
  ke_used :: bool

record kv_watch =
  kw_prefix :: bytes
  kw_fn :: nat

record norn_kv =
  kv_entries :: "kv_entry list"
  kv_count :: int
  kv_watches :: "kv_watch list"

datatype norn_kv_event = NORN_KV_EV_PUT | NORN_KV_EV_DEL

type_synonym kv_call = "nat \<times> norn_kv_event \<times> bytes \<times> bytes"

definition NORN_KV_MAX_KEY :: nat where "NORN_KV_MAX_KEY = 128"
definition NORN_KV_MAX_VAL :: nat where "NORN_KV_MAX_VAL = 256"
definition KV_MAX_WATCH :: nat where "KV_MAX_WATCH = 16"
definition NORN_KV_PUT :: byte where "NORN_KV_PUT = 1"
definition NORN_KV_DEL :: byte where "NORN_KV_DEL = 2"
definition NORN_KV_CAS :: byte where "NORN_KV_CAS = 3"

lemmas kv_consts = NORN_KV_MAX_KEY_def NORN_KV_MAX_VAL_def KV_MAX_WATCH_def
  NORN_KV_PUT_def NORN_KV_DEL_def NORN_KV_CAS_def

section \<open>Helpers\<close>

definition kv_match :: "bytes \<Rightarrow> kv_entry \<Rightarrow> bool" where
  "kv_match key e \<longleftrightarrow> ke_used e \<and> ke_key e = key"

definition kv_find :: "norn_kv \<Rightarrow> bytes \<Rightarrow> nat option" where
  "kv_find kv key = find_idx (kv_match key) (kv_entries kv)"

definition alloc_slot :: "norn_kv \<Rightarrow> nat option" where
  "alloc_slot kv = find_idx (\<lambda>e. \<not> ke_used e) (kv_entries kv)"

definition starts_with :: "bytes \<Rightarrow> bytes \<Rightarrow> bool" where
  "starts_with p key \<longleftrightarrow> length p \<le> length key \<and> take (length p) key = p"

definition fire :: "norn_kv \<Rightarrow> norn_kv_event \<Rightarrow> bytes \<Rightarrow> bytes \<Rightarrow> kv_call list" where
  "fire kv ev key val =
     map (\<lambda>w. (kw_fn w, ev, key, val)) (filter (\<lambda>w. starts_with (kw_prefix w) key) (kv_watches kv))"

definition entry_fill :: "bytes \<Rightarrow> bytes \<Rightarrow> kv_entry \<Rightarrow> kv_entry" where
  "entry_fill key val e = e\<lparr>ke_key := key, ke_val := val, ke_used := True\<rparr>"

definition entry_set_val :: "bytes \<Rightarrow> kv_entry \<Rightarrow> kv_entry" where
  "entry_set_val val e = e\<lparr>ke_val := val\<rparr>"

definition entry_clear :: "kv_entry \<Rightarrow> kv_entry" where
  "entry_clear e = e\<lparr>ke_used := False\<rparr>"

definition set_entry :: "nat \<Rightarrow> (kv_entry \<Rightarrow> kv_entry) \<Rightarrow> norn_kv \<Rightarrow> norn_kv" where
  "set_entry i f kv = kv\<lparr>kv_entries := (kv_entries kv)[i := f (kv_entries kv ! i)]\<rparr>"

definition store_put :: "norn_kv \<Rightarrow> bytes \<Rightarrow> bytes \<Rightarrow> int \<times> kv_call list \<times> norn_kv" where
  "store_put kv key val =
     (case kv_find kv key of
        Some i \<Rightarrow> (1, fire kv NORN_KV_EV_PUT key val, set_entry i (entry_set_val val) kv)
      | None \<Rightarrow>
          (case alloc_slot kv of
             None \<Rightarrow> (-1, [], kv)
           | Some i \<Rightarrow> (1, fire kv NORN_KV_EV_PUT key val,
               (set_entry i (entry_fill key val) kv)\<lparr>kv_count := kv_count kv + 1\<rparr>)))"

definition store_del :: "norn_kv \<Rightarrow> bytes \<Rightarrow> int \<times> kv_call list \<times> norn_kv" where
  "store_del kv key =
     (case kv_find kv key of
        None \<Rightarrow> (0, [], kv)
      | Some i \<Rightarrow> (1, fire kv NORN_KV_EV_DEL key [],
          (set_entry i entry_clear kv)\<lparr>kv_count := kv_count kv - 1\<rparr>))"

section \<open>Encoding\<close>

definition put_u16 :: "nat \<Rightarrow> bytes" where
  "put_u16 v = be16 (word_of_nat v)"

definition get_u16 :: "bytes \<Rightarrow> nat" where
  "get_u16 p = unat (un_be16 p)"

definition norn_kv_encode_put :: "nat \<Rightarrow> bytes \<Rightarrow> bytes \<Rightarrow> bytes option" where
  "norn_kv_encode_put cap key val =
     (if key = [] \<or> length key > NORN_KV_MAX_KEY \<or> length val > NORN_KV_MAX_VAL then None
      else if cap < 1 + 2 + length key + 2 + length val then None
      else Some ([NORN_KV_PUT] @ put_u16 (length key) @ key @ put_u16 (length val) @ val))"

definition norn_kv_encode_del :: "nat \<Rightarrow> bytes \<Rightarrow> bytes option" where
  "norn_kv_encode_del cap key =
     (if key = [] \<or> length key > NORN_KV_MAX_KEY then None
      else if cap < 1 + 2 + length key then None
      else Some ([NORN_KV_DEL] @ put_u16 (length key) @ key))"

definition norn_kv_encode_cas :: "nat \<Rightarrow> bytes \<Rightarrow> bytes \<Rightarrow> bytes \<Rightarrow> bytes option" where
  "norn_kv_encode_cas cap key expect val =
     (if key = [] \<or> length key > NORN_KV_MAX_KEY then None
      else if length expect > NORN_KV_MAX_VAL \<or> length val > NORN_KV_MAX_VAL then None
      else if cap < 1 + 2 + length key + 2 + length expect + 2 + length val then None
      else Some ([NORN_KV_CAS] @ put_u16 (length key) @ key @
                 put_u16 (length expect) @ expect @ put_u16 (length val) @ val))"

section \<open>Applying a committed command\<close>

definition apply_put :: "norn_kv \<Rightarrow> bytes \<Rightarrow> bytes \<Rightarrow> int \<times> kv_call list \<times> norn_kv" where
  "apply_put kv key rest =
     (if length rest < 2 then (-1, [], kv)
      else let vlen = get_u16 rest in
        if vlen > NORN_KV_MAX_VAL \<or> 2 + vlen \<noteq> length rest then (-1, [], kv)
        else store_put kv key (drop 2 rest))"

definition current_val :: "norn_kv \<Rightarrow> bytes \<Rightarrow> bytes" where
  "current_val kv key = (case kv_find kv key of None \<Rightarrow> [] | Some i \<Rightarrow> ke_val (kv_entries kv ! i))"

definition apply_cas :: "norn_kv \<Rightarrow> bytes \<Rightarrow> bytes \<Rightarrow> int \<times> kv_call list \<times> norn_kv" where
  "apply_cas kv key rest =
     (if length rest < 2 then (-1, [], kv)
      else let elen = get_u16 rest in
        if elen > NORN_KV_MAX_VAL \<or> 2 + elen + 2 > length rest then (-1, [], kv)
        else let expect = take elen (drop 2 rest);
                 vlen = get_u16 (drop (2 + elen) rest) in
          if vlen > NORN_KV_MAX_VAL \<or> 2 + elen + 2 + vlen \<noteq> length rest then (-1, [], kv)
          else if current_val kv key \<noteq> expect then (0, [], kv)
          else store_put kv key (drop (2 + elen + 2) rest))"

text \<open>The byte string after the key is \<open>rest\<close>; the three cases of the switch read it.\<close>

definition norn_kv_apply :: "norn_kv \<Rightarrow> bytes \<Rightarrow> int \<times> kv_call list \<times> norn_kv" where
  "norn_kv_apply kv cmd =
     (if length cmd < 3 then (-1, [], kv)
      else let op = cmd ! 0; klen = get_u16 (drop 1 cmd) in
        if klen = 0 \<or> klen > NORN_KV_MAX_KEY \<or> 3 + klen > length cmd then (-1, [], kv)
        else let key = take klen (drop 3 cmd); rest = drop (3 + klen) cmd in
          if op = NORN_KV_PUT then apply_put kv key rest
          else if op = NORN_KV_DEL then (if rest \<noteq> [] then (-1, [], kv) else store_del kv key)
          else if op = NORN_KV_CAS then apply_cas kv key rest
          else (-1, [], kv))"

section \<open>Reads, watches, snapshots\<close>

definition norn_kv_get :: "norn_kv \<Rightarrow> bytes \<Rightarrow> nat \<Rightarrow> bytes option" where
  "norn_kv_get kv key cap =
     (if key = [] then None
      else case kv_find kv key of
        None \<Rightarrow> None
      | Some i \<Rightarrow> (let v = ke_val (kv_entries kv ! i) in if length v > cap then None else Some v))"

definition norn_kv_count :: "norn_kv \<Rightarrow> int" where
  "norn_kv_count kv = kv_count kv"

text \<open>The visited pairs, in order; the code returns their number.\<close>

definition norn_kv_foreach :: "norn_kv \<Rightarrow> bytes \<Rightarrow> (bytes \<times> bytes) list option" where
  "norn_kv_foreach kv prefix =
     (if length prefix > NORN_KV_MAX_KEY then None
      else Some (map (\<lambda>e. (ke_key e, ke_val e))
             (filter (\<lambda>e. ke_used e \<and> starts_with prefix (ke_key e)) (kv_entries kv))))"

definition norn_kv_watch :: "norn_kv \<Rightarrow> bytes \<Rightarrow> nat \<Rightarrow> int \<times> norn_kv" where
  "norn_kv_watch kv prefix fn =
     (if length prefix > NORN_KV_MAX_KEY then (-1, kv)
      else if length (kv_watches kv) \<ge> KV_MAX_WATCH then (-1, kv)
      else (0, kv\<lparr>kv_watches := kv_watches kv @ [\<lparr>kw_prefix = prefix, kw_fn = fn\<rparr>]\<rparr>))"

definition snap_entry :: "kv_entry \<Rightarrow> bytes" where
  "snap_entry e = put_u16 (length (ke_key e)) @ ke_key e @ put_u16 (length (ke_val e)) @ ke_val e"

fun snapshot_loop :: "nat \<Rightarrow> bytes \<Rightarrow> kv_entry list \<Rightarrow> bytes option" where
  "snapshot_loop cap out [] = Some out"
| "snapshot_loop cap out (e # es) =
     (if \<not> ke_used e then snapshot_loop cap out es
      else if length out + (2 + length (ke_key e) + 2 + length (ke_val e)) > cap then None
      else snapshot_loop cap (out @ snap_entry e) es)"

definition norn_kv_snapshot :: "norn_kv \<Rightarrow> nat \<Rightarrow> bytes option" where
  "norn_kv_snapshot kv cap = snapshot_loop cap [] (kv_entries kv)"

function restore_loop :: "norn_kv \<Rightarrow> bytes \<Rightarrow> int \<times> norn_kv" where
  "restore_loop kv buf =
     (if buf = [] then (0, kv)
      else if length buf < 2 then (-1, kv)
      else let klen = get_u16 buf in
        if klen = 0 \<or> klen > NORN_KV_MAX_KEY \<or> 2 + klen + 2 > length buf then (-1, kv)
        else let key = take klen (drop 2 buf); vlen = get_u16 (drop (2 + klen) buf) in
          if vlen > NORN_KV_MAX_VAL \<or> 4 + klen + vlen > length buf then (-1, kv)
          else case alloc_slot kv of
            None \<Rightarrow> (-1, kv)
          | Some i \<Rightarrow>
              restore_loop
                ((set_entry i (entry_fill key (take vlen (drop (4 + klen) buf))) kv)
                   \<lparr>kv_count := kv_count kv + 1\<rparr>)
                (drop (4 + klen + vlen) buf))"
  by pat_completeness auto
termination by (relation "measure (\<lambda>(kv, buf). length buf)") auto

definition norn_kv_restore :: "norn_kv \<Rightarrow> bytes \<Rightarrow> int \<times> norn_kv" where
  "norn_kv_restore kv buf =
     restore_loop (kv\<lparr>kv_entries := map entry_clear (kv_entries kv), kv_count := 0\<rparr>) buf"

definition norn_kv_new :: "int \<Rightarrow> norn_kv option" where
  "norn_kv_new max_entries =
     (if max_entries \<le> 0 then None
      else Some \<lparr>kv_entries = replicate (nat max_entries) \<lparr>ke_key = [], ke_val = [], ke_used = False\<rparr>,
                 kv_count = 0, kv_watches = []\<rparr>)"

declare restore_loop.simps [simp del]

section \<open>Specification: a bounded map\<close>

datatype kv_cmd = Put bytes bytes | Del bytes | Cas bytes bytes bytes

fun kv_encode :: "kv_cmd \<Rightarrow> bytes" where
  "kv_encode (Put k v) = NORN_KV_PUT # put_u16 (length k) @ k @ put_u16 (length v) @ v"
| "kv_encode (Del k) = NORN_KV_DEL # put_u16 (length k) @ k"
| "kv_encode (Cas k e v) =
     NORN_KV_CAS # put_u16 (length k) @ k @ put_u16 (length e) @ e @ put_u16 (length v) @ v"

definition key_ok :: "bytes \<Rightarrow> bool" where
  "key_ok k \<longleftrightarrow> k \<noteq> [] \<and> length k \<le> NORN_KV_MAX_KEY"

definition val_ok :: "bytes \<Rightarrow> bool" where
  "val_ok v \<longleftrightarrow> length v \<le> NORN_KV_MAX_VAL"

fun kv_cmd_ok :: "kv_cmd \<Rightarrow> bool" where
  "kv_cmd_ok (Put k v) \<longleftrightarrow> key_ok k \<and> val_ok v"
| "kv_cmd_ok (Del k) \<longleftrightarrow> key_ok k"
| "kv_cmd_ok (Cas k e v) \<longleftrightarrow> key_ok k \<and> val_ok e \<and> val_ok v"

definition spec_put :: "nat \<Rightarrow> (bytes \<rightharpoonup> bytes) \<Rightarrow> bytes \<Rightarrow> bytes \<Rightarrow> int \<times> (bytes \<rightharpoonup> bytes)" where
  "spec_put cap m k v = (if k \<in> dom m \<or> card (dom m) < cap then (1, m(k \<mapsto> v)) else (-1, m))"

fun kv_spec :: "nat \<Rightarrow> (bytes \<rightharpoonup> bytes) \<Rightarrow> kv_cmd \<Rightarrow> int \<times> (bytes \<rightharpoonup> bytes)" where
  "kv_spec cap m (Put k v) = spec_put cap m k v"
| "kv_spec cap m (Del k) = (if k \<in> dom m then (1, m(k := None)) else (0, m))"
| "kv_spec cap m (Cas k e v) =
     (if (case m k of None \<Rightarrow> [] | Some x \<Rightarrow> x) = e then spec_put cap m k v else (0, m))"

text \<open>The watches a command that took effect notifies.\<close>

fun spec_calls :: "norn_kv \<Rightarrow> kv_cmd \<Rightarrow> kv_call list" where
  "spec_calls kv (Put k v) = fire kv NORN_KV_EV_PUT k v"
| "spec_calls kv (Del k) = fire kv NORN_KV_EV_DEL k []"
| "spec_calls kv (Cas k e v) = fire kv NORN_KV_EV_PUT k v"

definition kv_map :: "norn_kv \<Rightarrow> bytes \<rightharpoonup> bytes" where
  "kv_map kv = slot_map ke_used ke_key ke_val (kv_entries kv)"

definition kv_cap :: "norn_kv \<Rightarrow> nat" where
  "kv_cap kv = length (kv_entries kv)"

definition kv_wf :: "norn_kv \<Rightarrow> bool" where
  "kv_wf kv \<longleftrightarrow>
     slots_distinct ke_used ke_key (kv_entries kv) \<and>
     kv_count kv = int (length (filter ke_used (kv_entries kv))) \<and>
     (\<forall>e \<in> set (kv_entries kv). ke_used e \<longrightarrow> key_ok (ke_key e) \<and> val_ok (ke_val e)) \<and>
     length (kv_watches kv) \<le> KV_MAX_WATCH"

interpretation kvt: slot_table ke_used ke_key ke_val entry_fill entry_set_val entry_clear
  by unfold_locales (simp_all add: entry_fill_def entry_set_val_def entry_clear_def)

section \<open>The table operations refine the map\<close>

lemma kv_find_eq: "kv_find kv key = find_idx (\<lambda>e. ke_used e \<and> ke_key e = key) (kv_entries kv)"
  by (simp add: kv_find_def kv_match_def [abs_def])

lemma kv_find_map:
  "kv_find kv key = None \<Longrightarrow> kv_map kv key = None"
  "kv_find kv key = Some i \<Longrightarrow> kv_map kv key = Some (ke_val (kv_entries kv ! i))"
  by (simp_all add: kv_find_eq kv_map_def slot_map_def del: find_idx_None_iff)

lemma kv_find_Some_iff: "(\<exists>i. kv_find kv key = Some i) \<longleftrightarrow> key \<in> dom (kv_map kv)"
  by (cases "kv_find kv key") (auto dest: kv_find_map)

lemma current_val_map: "current_val kv key = (case kv_map kv key of None \<Rightarrow> [] | Some x \<Rightarrow> x)"
  by (cases "kv_find kv key") (auto simp: current_val_def dest: kv_find_map)

lemma card_dom_kv_map:
  "slots_distinct ke_used ke_key (kv_entries kv) \<Longrightarrow>
     card (dom (kv_map kv)) = length (filter ke_used (kv_entries kv))"
  by (simp add: kv_map_def card_dom_slot_map)

lemma alloc_slot_None_iff:
  "alloc_slot kv = None \<longleftrightarrow> length (filter ke_used (kv_entries kv)) = kv_cap kv"
proof -
  have "(length (filter ke_used es) = length es) = (\<forall>e \<in> set es. ke_used e)" for es :: "kv_entry list"
    by (induction es) (auto, metis Suc_n_not_le_n length_filter_le)
  then show ?thesis by (simp add: alloc_slot_def kv_cap_def)
qed

lemma alloc_slot_SomeD: "alloc_slot kv = Some i \<Longrightarrow> i < kv_cap kv \<and> \<not> ke_used (kv_entries kv ! i)"
  by (auto simp: alloc_slot_def kv_cap_def dest: find_idx_SomeD)

lemma alloc_slot_card:
  assumes "slots_distinct ke_used ke_key (kv_entries kv)"
  shows "(alloc_slot kv = None) \<longleftrightarrow> \<not> card (dom (kv_map kv)) < kv_cap kv"
  unfolding alloc_slot_None_iff card_dom_kv_map [OF assms] kv_cap_def
  using length_filter_le [of ke_used "kv_entries kv"] by linarith

lemma kv_cap_set_entry [simp]: "kv_cap (set_entry i f kv) = kv_cap kv"
  by (simp add: kv_cap_def set_entry_def)

lemma kv_watches_set_entry [simp]: "kv_watches (set_entry i f kv) = kv_watches kv"
  by (simp add: set_entry_def)

lemma kv_cap_count [simp]: "kv_cap (kv\<lparr>kv_count := c\<rparr>) = kv_cap kv"
  by (simp add: kv_cap_def)

lemma kv_map_count [simp]: "kv_map (kv\<lparr>kv_count := c\<rparr>) = kv_map kv"
  by (simp add: kv_map_def)

lemma set_entry_keep_count: "set_entry i f kv = (set_entry i f kv)\<lparr>kv_count := kv_count kv\<rparr>"
  by (simp add: set_entry_def)

lemma entries_ok_update:
  assumes "\<forall>e \<in> set es. ke_used e \<longrightarrow> P e" and "ke_used x \<longrightarrow> P x"
  shows "\<forall>e \<in> set (es[i := x]). ke_used e \<longrightarrow> P e"
  using assms set_update_subset [of es i x] by blast

lemma kv_wf_set_entry:
  assumes "kv_wf kv"
    and "ke_used (f (kv_entries kv ! i)) \<longrightarrow>
           key_ok (ke_key (f (kv_entries kv ! i))) \<and> val_ok (ke_val (f (kv_entries kv ! i)))"
    and "slots_distinct ke_used ke_key ((kv_entries kv)[i := f (kv_entries kv ! i)])"
    and "c = int (length (filter ke_used ((kv_entries kv)[i := f (kv_entries kv ! i)])))"
  shows "kv_wf ((set_entry i f kv)\<lparr>kv_count := c\<rparr>)"
proof -
  have "\<forall>e \<in> set ((kv_entries kv)[i := f (kv_entries kv ! i)]).
      ke_used e \<longrightarrow> key_ok (ke_key e) \<and> val_ok (ke_val e)"
    by (rule entries_ok_update) (use assms(1,2) in \<open>simp_all add: kv_wf_def\<close>)
  then show ?thesis using assms by (simp add: kv_wf_def set_entry_def)
qed

lemma kv_overwrite:
  assumes "kv_find kv k = Some i" and "kv_wf kv" and "val_ok v"
  shows "kv_map (set_entry i (entry_set_val v) kv) = (kv_map kv)(k \<mapsto> v)"
    and "kv_wf (set_entry i (entry_set_val v) kv)"
proof -
  have i: "i < length (kv_entries kv)" and u: "ke_used (kv_entries kv ! i)"
    using assms(1) by (auto simp: kv_find_eq dest: find_idx_SomeD)
  show "kv_map (set_entry i (entry_set_val v) kv) = (kv_map kv)(k \<mapsto> v)"
    using assms(1) by (simp add: kv_map_def set_entry_def kv_find_eq kvt.map_overwrite)
  show "kv_wf (set_entry i (entry_set_val v) kv)"
  proof (subst set_entry_keep_count, rule kv_wf_set_entry [OF assms(2)])
    have "key_ok (ke_key (kv_entries kv ! i))" using assms(2) i u by (simp add: kv_wf_def)
    then show "ke_used (entry_set_val v (kv_entries kv ! i)) \<longrightarrow>
        key_ok (ke_key (entry_set_val v (kv_entries kv ! i))) \<and>
        val_ok (ke_val (entry_set_val v (kv_entries kv ! i)))"
      using assms(3) by (simp add: entry_set_val_def)
  qed (use assms(2) i in \<open>simp_all add: kv_wf_def kvt.distinct_overwrite kvt.count_overwrite\<close>)
qed

lemma kv_fill:
  assumes "alloc_slot kv = Some i" and "kv_map kv k = None"
  shows "kv_map (set_entry i (entry_fill k v) kv) = (kv_map kv)(k \<mapsto> v)"
    and "kv_wf kv \<Longrightarrow> key_ok k \<Longrightarrow> val_ok v \<Longrightarrow>
           kv_wf ((set_entry i (entry_fill k v) kv)\<lparr>kv_count := kv_count kv + 1\<rparr>)"
proof -
  have i: "i < length (kv_entries kv)" and u: "\<not> ke_used (kv_entries kv ! i)"
    using alloc_slot_SomeD [OF assms(1)] by (simp_all add: kv_cap_def)
  have m: "slot_map ke_used ke_key ke_val (kv_entries kv) k = None"
    using assms(2) by (simp add: kv_map_def)
  show "kv_map (set_entry i (entry_fill k v) kv) = (kv_map kv)(k \<mapsto> v)"
    by (simp add: kv_map_def set_entry_def kvt.map_insert_free [OF i u m])
  assume wf: "kv_wf kv" and "key_ok k" "val_ok v"
  then show "kv_wf ((set_entry i (entry_fill k v) kv)\<lparr>kv_count := kv_count kv + 1\<rparr>)"
    by (intro kv_wf_set_entry)
      (simp_all add: kv_wf_def kvt.distinct_insert_free [OF i u m] kvt.count_insert_free [OF i u] kvt.slot_laws)
qed

lemma kv_clear:
  assumes "kv_find kv k = Some i" and "kv_wf kv"
  shows "kv_map (set_entry i entry_clear kv) = (kv_map kv)(k := None)"
    and "kv_wf ((set_entry i entry_clear kv)\<lparr>kv_count := kv_count kv - 1\<rparr>)"
proof -
  have i: "i < length (kv_entries kv)" and u: "ke_used (kv_entries kv ! i)"
    using assms(1) by (auto simp: kv_find_eq dest: find_idx_SomeD)
  show "kv_map (set_entry i entry_clear kv) = (kv_map kv)(k := None)"
    using assms by (simp add: kv_map_def set_entry_def kv_find_eq kv_wf_def kvt.map_clear)
  show "kv_wf ((set_entry i entry_clear kv)\<lparr>kv_count := kv_count kv - 1\<rparr>)"
    using assms(2) kvt.count_clear [OF i u]
    by (intro kv_wf_set_entry) (simp_all add: kv_wf_def kvt.distinct_clear [OF i] kvt.slot_laws)
qed

lemma store_put_refines:
  assumes "store_put kv k v = (rc, calls, kv')" and "kv_wf kv" and "key_ok k" and "val_ok v"
  shows "(rc, kv_map kv') = spec_put (kv_cap kv) (kv_map kv) k v"
    and "calls = (if rc = 1 then fire kv NORN_KV_EV_PUT k v else [])"
    and "kv_wf kv'" and "kv_cap kv' = kv_cap kv" and "kv_watches kv' = kv_watches kv"
proof -
  have d: "slots_distinct ke_used ke_key (kv_entries kv)" using assms(2) by (simp add: kv_wf_def)
  have all: "(rc, kv_map kv') = spec_put (kv_cap kv) (kv_map kv) k v \<and>
      calls = (if rc = 1 then fire kv NORN_KV_EV_PUT k v else []) \<and>
      kv_wf kv' \<and> kv_cap kv' = kv_cap kv \<and> kv_watches kv' = kv_watches kv"
  proof (cases "kv_find kv k")
    case (Some i)
    moreover have "k \<in> dom (kv_map kv)" using kv_find_map(2) [OF Some] by blast
    ultimately show ?thesis
      using assms kv_overwrite [OF Some assms(2,4)] by (auto simp: store_put_def spec_put_def)
  next
    case None
    note m = kv_find_map(1) [OF None]
    show ?thesis
    proof (cases "alloc_slot kv")
      case None
      with \<open>kv_find kv k = None\<close> m assms(1,2) alloc_slot_card [OF d] show ?thesis
        by (auto simp: store_put_def spec_put_def)
    next
      case (Some i)
      with \<open>kv_find kv k = None\<close> m assms(1) alloc_slot_card [OF d] kv_fill(1) [OF Some m]
        kv_fill(2) [OF Some m assms(2-4)]
      show ?thesis by (auto simp: store_put_def spec_put_def)
    qed
  qed
  then show "(rc, kv_map kv') = spec_put (kv_cap kv) (kv_map kv) k v"
    "calls = (if rc = 1 then fire kv NORN_KV_EV_PUT k v else [])"
    "kv_wf kv'" "kv_cap kv' = kv_cap kv" "kv_watches kv' = kv_watches kv" by blast+
qed

lemma store_del_refines:
  assumes "store_del kv k = (rc, calls, kv')" and "kv_wf kv"
  shows "(rc, kv_map kv') = (if k \<in> dom (kv_map kv) then (1, (kv_map kv)(k := None)) else (0, kv_map kv))"
    and "calls = (if rc = 1 then fire kv NORN_KV_EV_DEL k [] else [])"
    and "kv_wf kv'" and "kv_cap kv' = kv_cap kv" and "kv_watches kv' = kv_watches kv"
proof -
  have "(rc, kv_map kv') = (if k \<in> dom (kv_map kv) then (1, (kv_map kv)(k := None)) else (0, kv_map kv)) \<and>
      calls = (if rc = 1 then fire kv NORN_KV_EV_DEL k [] else []) \<and>
      kv_wf kv' \<and> kv_cap kv' = kv_cap kv \<and> kv_watches kv' = kv_watches kv"
  proof (cases "kv_find kv k")
    case (Some i)
    with assms(1) kv_clear [OF Some assms(2)] kv_find_map(2) [OF Some] show ?thesis
      by (auto simp: store_del_def)
  next
    case None
    with assms kv_find_map(1) [OF None] show ?thesis by (auto simp: store_del_def)
  qed
  then show "(rc, kv_map kv') = (if k \<in> dom (kv_map kv) then (1, (kv_map kv)(k := None)) else (0, kv_map kv))"
    "calls = (if rc = 1 then fire kv NORN_KV_EV_DEL k [] else [])"
    "kv_wf kv'" "kv_cap kv' = kv_cap kv" "kv_watches kv' = kv_watches kv" by blast+
qed

section \<open>The command codec\<close>

lemma length_put_u16 [simp]: "length (put_u16 n) = 2"
  by (simp add: put_u16_def)

lemma get_u16_put_u16 [codec_simps]: "n < 65536 \<Longrightarrow> get_u16 (put_u16 n @ xs) = n"
  by (simp add: get_u16_def put_u16_def)

lemma put_u16_get_u16:
  assumes "2 \<le> length p" shows "put_u16 (get_u16 p) = take 2 p"
proof -
  obtain a b xs where "p = a # b # xs"
    using assms by (cases p; cases "tl p") auto
  then show ?thesis by (simp add: put_u16_def get_u16_def be16_un_be16)
qed

lemma key_ok_len: "key_ok k \<Longrightarrow> length k < 65536" "val_ok v \<Longrightarrow> length v < 65536"
  by (simp_all add: key_ok_def val_ok_def kv_consts)

lemma apply_frame:
  assumes "key_ok k"
  shows "norn_kv_apply kv (op # put_u16 (length k) @ k @ rest) =
    (if op = NORN_KV_PUT then apply_put kv k rest
     else if op = NORN_KV_DEL then (if rest \<noteq> [] then (-1, [], kv) else store_del kv k)
     else if op = NORN_KV_CAS then apply_cas kv k rest
     else (-1, [], kv))"
  using assms key_ok_len(1) [OF assms]
  by (simp add: norn_kv_apply_def get_u16_put_u16 key_ok_def numeral_3_eq_3)

lemma apply_put_frame: "val_ok v \<Longrightarrow> apply_put kv k (put_u16 (length v) @ v) = store_put kv k v"
  by (simp add: apply_put_def get_u16_put_u16 key_ok_len(2) val_ok_def)

lemma apply_cas_frame:
  "val_ok e \<Longrightarrow> val_ok v \<Longrightarrow>
     apply_cas kv k (put_u16 (length e) @ e @ put_u16 (length v) @ v) =
     (if current_val kv k \<noteq> e then (0, [], kv) else store_put kv k v)"
  by (simp add: apply_cas_def get_u16_put_u16 key_ok_len(2) val_ok_def)

lemma put_neq [simp]: "NORN_KV_DEL \<noteq> NORN_KV_PUT" "NORN_KV_CAS \<noteq> NORN_KV_PUT" "NORN_KV_CAS \<noteq> NORN_KV_DEL"
  by (simp_all add: kv_consts)

lemma apply_encoded:
  assumes "kv_cmd_ok c"
  shows "norn_kv_apply kv (kv_encode c) =
    (case c of Put k v \<Rightarrow> store_put kv k v
     | Del k \<Rightarrow> store_del kv k
     | Cas k e v \<Rightarrow> (if current_val kv k \<noteq> e then (0, [], kv) else store_put kv k v))"
  using assms apply_frame [of _ kv NORN_KV_DEL "[]"]
  by (cases c) (simp_all add: apply_frame apply_put_frame apply_cas_frame)

lemma frame_split:
  assumes "2 + get_u16 p \<le> length p"
  obtains k r where "p = put_u16 (length k) @ k @ r" and "length k = get_u16 p"
    and "k = take (get_u16 p) (drop 2 p)" and "r = drop (2 + get_u16 p) p"
proof -
  let ?k = "take (get_u16 p) (drop 2 p)"
  have k: "length ?k = get_u16 p" using assms by simp
  have "p = take 2 p @ ?k @ drop (2 + get_u16 p) p"
    using append_take_drop_id [of 2 p] append_take_drop_id [of "get_u16 p" "drop 2 p"]
    by (simp add: add.commute)
  then show ?thesis using that [of ?k "drop (2 + get_u16 p) p"] k put_u16_get_u16 [of p] assms by simp
qed

lemma apply_put_accepts:
  "apply_put kv k rest = (-1, [], kv) \<or> (\<exists>v. val_ok v \<and> rest = put_u16 (length v) @ v)"
proof (cases "length rest < 2 \<or> get_u16 rest > NORN_KV_MAX_VAL \<or> 2 + get_u16 rest \<noteq> length rest")
  case True
  then show ?thesis by (auto simp: apply_put_def)
next
  case False
  then have "2 + get_u16 rest \<le> length rest" by simp
  then obtain v r where v: "rest = put_u16 (length v) @ v @ r" "length v = get_u16 rest"
    "r = drop (2 + get_u16 rest) rest" by (rule frame_split)
  have "val_ok v" using v(2) False by (simp add: val_ok_def)
  moreover have "r = []" using v(3) False by simp
  ultimately show ?thesis using v(1) by (intro disjI2 exI [of _ v]) simp
qed

lemma apply_cas_accepts:
  "apply_cas kv k rest = (-1, [], kv) \<or>
     (\<exists>e v. val_ok e \<and> val_ok v \<and> rest = put_u16 (length e) @ e @ put_u16 (length v) @ v)"
proof (cases "length rest < 2 \<or> get_u16 rest > NORN_KV_MAX_VAL \<or> 2 + get_u16 rest + 2 > length rest")
  case True
  then show ?thesis by (auto simp: apply_cas_def)
next
  case False
  then have "2 + get_u16 rest \<le> length rest" by simp
  then obtain e r where e: "rest = put_u16 (length e) @ e @ r" "length e = get_u16 rest"
    "e = take (get_u16 rest) (drop 2 rest)" "r = drop (2 + get_u16 rest) rest" by (rule frame_split)
  have r: "length r = length rest - (2 + get_u16 rest)" by (simp add: e(4))
  show ?thesis
  proof (cases "get_u16 r > NORN_KV_MAX_VAL \<or> 2 + get_u16 r \<noteq> length r")
    case True
    then have "apply_cas kv k rest = (-1, [], kv)"
      using False r unfolding apply_cas_def Let_def e(4) [symmetric] by auto
    then show ?thesis ..
  next
    case no: False
    then have "2 + get_u16 r \<le> length r" by simp
    then obtain v r' where v: "r = put_u16 (length v) @ v @ r'" "length v = get_u16 r"
      "r' = drop (2 + get_u16 r) r" by (rule frame_split)
    have "val_ok v" "val_ok e" using v(2) e(2) no False by (simp_all add: val_ok_def)
    moreover have "r' = []" using v(3) no by simp
    ultimately show ?thesis using e(1) v(1) by (intro disjI2 exI [of _ e] exI [of _ v]) simp
  qed
qed

text \<open>Every byte string that is not the encoding of a well-formed command is rejected.\<close>

lemma apply_accepts:
  "norn_kv_apply kv cmd = (-1, [], kv) \<or> (\<exists>c. kv_cmd_ok c \<and> cmd = kv_encode c)"
proof (cases "length cmd < 3 \<or> get_u16 (drop 1 cmd) = 0 \<or> get_u16 (drop 1 cmd) > NORN_KV_MAX_KEY \<or>
    3 + get_u16 (drop 1 cmd) > length cmd")
  case True
  then show ?thesis by (auto simp: norn_kv_apply_def)
next
  case False
  then obtain op p where cmd: "cmd = op # p" by (cases cmd) auto
  have "2 + get_u16 p \<le> length p" using False by (simp add: cmd)
  then obtain k r where k: "p = put_u16 (length k) @ k @ r" "length k = get_u16 p" by (rule frame_split)
  have ok: "key_ok k" using False k(2) by (auto simp: cmd key_ok_def)
  note f = apply_frame [OF ok, of kv op r, folded k(1), folded cmd]
  consider "op = NORN_KV_PUT" | "op = NORN_KV_DEL" | "op = NORN_KV_CAS"
    | "op \<notin> {NORN_KV_PUT, NORN_KV_DEL, NORN_KV_CAS}" by auto
  then show ?thesis
  proof cases
    case 1
    from apply_put_accepts [of kv k r] show ?thesis
    proof (elim disjE exE conjE)
      fix v assume "val_ok v" "r = put_u16 (length v) @ v"
      with 1 ok show ?thesis by (intro disjI2 exI [of _ "Put k v"]) (simp add: cmd k(1))
    qed (use f 1 in simp)
  next
    case 2
    show ?thesis
    proof (cases "r = []")
      case True
      with 2 ok show ?thesis by (intro disjI2 exI [of _ "Del k"]) (simp add: cmd k(1))
    qed (use f 2 in simp)
  next
    case 3
    from apply_cas_accepts [of kv k r] show ?thesis
    proof (elim disjE exE conjE)
      fix e v assume "val_ok e" "val_ok v" "r = put_u16 (length e) @ e @ put_u16 (length v) @ v"
      with 3 ok show ?thesis by (intro disjI2 exI [of _ "Cas k e v"]) (simp add: cmd k(1))
    qed (use f 3 in simp)
  qed (use f in simp)
qed

lemma apply_ok_step:
  assumes "norn_kv_apply kv (kv_encode c) = (rc, calls, kv')" and "kv_cmd_ok c" and "kv_wf kv"
  shows "(rc, kv_map kv') = kv_spec (kv_cap kv) (kv_map kv) c"
    and "calls = (if rc = 1 then spec_calls kv c else [])"
    and "kv_wf kv'" and "kv_cap kv' = kv_cap kv" and "kv_watches kv' = kv_watches kv"
proof -
  have "(rc, kv_map kv') = kv_spec (kv_cap kv) (kv_map kv) c \<and>
      calls = (if rc = 1 then spec_calls kv c else []) \<and>
      kv_wf kv' \<and> kv_cap kv' = kv_cap kv \<and> kv_watches kv' = kv_watches kv"
  proof (cases c)
    case (Put k v)
    with assms show ?thesis using store_put_refines [of kv k v rc calls kv']
      by (simp only: apply_encoded kv_cmd.case kv_cmd_ok.simps kv_spec.simps spec_calls.simps)
  next
    case (Del k)
    with assms show ?thesis using store_del_refines [of kv k rc calls kv']
      by (simp only: apply_encoded kv_cmd.case kv_cmd_ok.simps kv_spec.simps spec_calls.simps)
  next
    case (Cas k e v)
    have eq: "(if current_val kv k \<noteq> e then (0, [], kv) else store_put kv k v) = (rc, calls, kv')"
      using assms(1) apply_encoded [OF assms(2), of kv] unfolding Cas by (simp only: kv_cmd.case)
    show ?thesis
    proof (cases "current_val kv k = e")
      case True
      then have "store_put kv k v = (rc, calls, kv')" using eq by simp
      with Cas assms(2,3) True store_put_refines [of kv k v rc calls kv'] show ?thesis
        by (simp add: current_val_map)
    next
      case False
      with Cas eq assms(3) show ?thesis by (auto simp: current_val_map)
    qed
  qed
  then show "(rc, kv_map kv') = kv_spec (kv_cap kv) (kv_map kv) c"
    "calls = (if rc = 1 then spec_calls kv c else [])"
    "kv_wf kv'" "kv_cap kv' = kv_cap kv" "kv_watches kv' = kv_watches kv" by blast+
qed

lemma apply_wf:
  assumes "norn_kv_apply kv cmd = (rc, calls, kv')" and "kv_wf kv"
  shows "kv_wf kv'" and "kv_cap kv' = kv_cap kv"
proof -
  have "kv_wf kv' \<and> kv_cap kv' = kv_cap kv"
    using apply_accepts [of kv cmd]
  proof (elim disjE exE conjE)
    fix c assume "kv_cmd_ok c" "cmd = kv_encode c"
    with assms apply_ok_step(3,4) show ?thesis by blast
  qed (use assms in simp)
  then show "kv_wf kv'" "kv_cap kv' = kv_cap kv" by blast+
qed

section \<open>Snapshots\<close>

lemma snapshot_loop_Some:
  "snapshot_loop cap out es = Some buf \<Longrightarrow> buf = out @ concat (map snap_entry (filter ke_used es))"
  by (induction es arbitrary: out) (fastforce split: if_splits)+

lemma snapshot_loop_fits:
  "length out + length (concat (map snap_entry (filter ke_used es))) \<le> cap \<Longrightarrow>
     snapshot_loop cap out es = Some (out @ concat (map snap_entry (filter ke_used es)))"
  by (induction es arbitrary: out) (auto simp: snap_entry_def)

lemma snapshot_loop_too_small:
  "length out + length (concat (map snap_entry (filter ke_used es))) > cap \<Longrightarrow> length out \<le> cap \<Longrightarrow>
     snapshot_loop cap out es = None"
  by (induction es arbitrary: out) (auto simp: snap_entry_def)

lemma restore_one:
  assumes "key_ok (ke_key e)" and "val_ok (ke_val e)" and "alloc_slot kv = Some i"
  shows "restore_loop kv (snap_entry e @ rest) =
    restore_loop ((set_entry i (entry_fill (ke_key e) (ke_val e)) kv)\<lparr>kv_count := kv_count kv + 1\<rparr>) rest"
proof -
  let ?k = "ke_key e" and ?v = "ke_val e"
  let ?buf = "put_u16 (length ?k) @ ?k @ put_u16 (length ?v) @ ?v @ rest"
  have g: "get_u16 ?buf = length ?k" "get_u16 (put_u16 (length ?v) @ ?v @ rest) = length ?v"
    using assms(1,2) by (simp_all add: get_u16_put_u16 key_ok_len)
  have n: "?buf \<noteq> []" using assms(1) by (auto simp: key_ok_def)
  show ?thesis
    using assms n by (subst restore_loop.simps) (simp add: snap_entry_def g Let_def key_ok_def val_ok_def)
qed

lemma restore_entries:
  assumes "kv_wf kv" and "\<forall>e \<in> set es. ke_used e \<and> key_ok (ke_key e) \<and> val_ok (ke_val e)"
    and "slots_distinct ke_used ke_key es" and "dom (kv_map kv) \<inter> ke_key ` set es = {}"
    and "card (dom (kv_map kv)) + length es \<le> kv_cap kv"
  shows "\<exists>kv'. restore_loop kv (concat (map snap_entry es)) = (0, kv') \<and> kv_wf kv' \<and>
    kv_cap kv' = kv_cap kv \<and> kv_map kv' = kv_map kv ++ slot_map ke_used ke_key ke_val es"
  using assms
proof (induction es arbitrary: kv)
  case Nil
  then show ?case by (simp add: restore_loop.simps map_add_def)
next
  case (Cons e es)
  have d: "slots_distinct ke_used ke_key (kv_entries kv)" using Cons.prems(1) by (simp add: kv_wf_def)
  from Cons.prems(5) alloc_slot_card [OF d] obtain i where i: "alloc_slot kv = Some i" by auto
  have m: "kv_map kv (ke_key e) = None" using Cons.prems(4) by auto
  have ok: "ke_used e" "key_ok (ke_key e)" "val_ok (ke_val e)" using Cons.prems(2) by auto
  let ?kv = "(set_entry i (entry_fill (ke_key e) (ke_val e)) kv)\<lparr>kv_count := kv_count kv + 1\<rparr>"
  have map: "kv_map ?kv = (kv_map kv)(ke_key e \<mapsto> ke_val e)" by (simp add: kv_fill(1) [OF i m])
  have fin: "finite (dom (kv_map kv))" by (simp add: kv_map_def dom_slot_map)
  have fresh: "ke_key e \<notin> ke_key ` set es" using Cons.prems(2,3) by auto
  have "\<exists>kv'. restore_loop ?kv (concat (map snap_entry es)) = (0, kv') \<and> kv_wf kv' \<and>
      kv_cap kv' = kv_cap ?kv \<and> kv_map kv' = kv_map ?kv ++ slot_map ke_used ke_key ke_val es"
  proof (rule Cons.IH)
    show "kv_wf ?kv" by (rule kv_fill(2) [OF i m Cons.prems(1) ok(2,3)])
    show "dom (kv_map ?kv) \<inter> ke_key ` set es = {}" unfolding map using Cons.prems(4) fresh by auto
    show "card (dom (kv_map ?kv)) + length es \<le> kv_cap ?kv"
      unfolding map using Cons.prems(5) m fin by (simp add: domIff)
  qed (use Cons.prems(2,3) in simp_all)
  moreover have "kv_map ?kv ++ slot_map ke_used ke_key ke_val es =
      kv_map kv ++ slot_map ke_used ke_key ke_val (e # es)"
  proof -
    have "ke_key e \<notin> dom (slot_map ke_used ke_key ke_val es)"
      using fresh by (auto simp: dom_slot_map)
    then show ?thesis unfolding map using ok(1) by (simp add: map_add_upd_left)
  qed
  ultimately show ?case using restore_one [OF ok(2,3) i] by simp
qed

lemma kv_clear_all:
  assumes "length (kv_watches kv) \<le> KV_MAX_WATCH"
  defines "kv0 \<equiv> kv\<lparr>kv_entries := map entry_clear (kv_entries kv), kv_count := 0\<rparr>"
  shows "kv_wf kv0" and "kv_map kv0 = Map.empty" and "kv_cap kv0 = kv_cap kv"
proof -
  have "filter ke_used (map entry_clear es) = []" for es by (induction es) (auto simp: kvt.slot_laws)
  moreover have "slot_map ke_used ke_key ke_val (map entry_clear es) = Map.empty" for es
    by (induction es) (auto simp: kvt.slot_laws)
  ultimately show "kv_wf kv0" "kv_map kv0 = Map.empty" "kv_cap kv0 = kv_cap kv"
    using assms(1) by (auto simp: kv0_def kv_wf_def kv_map_def kv_cap_def slots_distinct_def kvt.slot_laws)
qed

section \<open>Replicas\<close>

text \<open>Applying a sequence of committed commands, with the return code of each.\<close>

fun kv_run :: "norn_kv \<Rightarrow> bytes list \<Rightarrow> int list \<times> norn_kv" where
  "kv_run kv [] = ([], kv)"
| "kv_run kv (cmd # cmds) =
     (let (rc, _, kv') = norn_kv_apply kv cmd; (rcs, kv'') = kv_run kv' cmds in (rc # rcs, kv''))"

lemma apply_agree:
  assumes "kv_wf a" and "kv_wf b" and "kv_cap a = kv_cap b" and "kv_map a = kv_map b"
    and "norn_kv_apply a cmd = (ra, ca, a')" and "norn_kv_apply b cmd = (rb, cb, b')"
  shows "ra = rb" and "kv_map a' = kv_map b'"
proof -
  have "ra = rb \<and> kv_map a' = kv_map b'"
  proof (cases "\<exists>c. kv_cmd_ok c \<and> cmd = kv_encode c")
    case True
    then obtain c where "kv_cmd_ok c" "cmd = kv_encode c" by blast
    with assms have "(ra, kv_map a') = kv_spec (kv_cap a) (kv_map a) c"
      "(rb, kv_map b') = kv_spec (kv_cap b) (kv_map b) c"
      using apply_ok_step(1) by blast+
    with assms(3,4) show ?thesis by (metis prod.inject)
  next
    case False
    with apply_accepts [of a cmd] apply_accepts [of b cmd] assms show ?thesis by auto
  qed
  then show "ra = rb" "kv_map a' = kv_map b'" by blast+
qed

lemma kv_get_map:
  assumes "k \<noteq> []"
  shows "norn_kv_get kv k cap =
    (case kv_map kv k of None \<Rightarrow> None | Some v \<Rightarrow> if length v > cap then None else Some v)"
  using assms by (cases "kv_find kv k") (auto simp: norn_kv_get_def Let_def dest: kv_find_map)

section \<open>Properties\<close>

definition kv_demo :: norn_kv where
  "kv_demo = \<lparr>kv_entries = [\<lparr>ke_key = [7], ke_val = [1, 2], ke_used = True\<rparr>,
                           \<lparr>ke_key = [], ke_val = [], ke_used = False\<rparr>],
              kv_count = 1, kv_watches = [\<lparr>kw_prefix = [7], kw_fn = 0\<rparr>]\<rparr>"

lemma kv_demo_wf: "kv_wf kv_demo"
  by (simp add: kv_demo_def kv_wf_def slots_distinct_def key_ok_def val_ok_def kv_consts)

lemma kv_demo_map: "kv_map kv_demo = [[7] \<mapsto> [1, 2]]" "kv_cap kv_demo = 2"
  by (simp_all add: kv_demo_def kv_map_def kv_cap_def)

text \<open>
  C3: Applying an encoded, well-formed command to a well-formed store refines the
  specification: the return code and the new contents are those of the bounded map,
  and exactly the watches whose prefix matches the key are notified, once each and
  only when the command took effect.
\<close>

theorem kv_apply_refines:
  assumes "kv_wf kv" and "kv_cmd_ok c" and "norn_kv_apply kv (kv_encode c) = (rc, calls, kv')"
  shows "(rc, kv_map kv') = kv_spec (kv_cap kv) (kv_map kv) c \<and>
    calls = (if rc = 1 then spec_calls kv c else [])"
  using apply_ok_step(1,2) [OF assms(3,2,1)] by blast

theorem kv_apply_refines_witness:
  "\<exists>kv'. norn_kv_apply kv_demo (kv_encode (Cas [7] [1, 2] [9])) = (1, [(0, NORN_KV_EV_PUT, [7], [9])], kv') \<and>
     kv_map kv' = [[7] \<mapsto> [9]]"
proof -
  obtain rc calls kv' where e: "norn_kv_apply kv_demo (kv_encode (Cas [7] [1, 2] [9])) = (rc, calls, kv')"
    by (rule prod_cases3)
  have ok: "kv_cmd_ok (Cas [7] [1, 2] [9])" by (simp add: key_ok_def val_ok_def kv_consts)
  show ?thesis
    using kv_apply_refines [OF kv_demo_wf ok e] e
    by (auto simp: kv_demo_map spec_put_def) (simp add: kv_demo_def fire_def starts_with_def)
qed

text \<open>
  Whatever bytes are committed, applying them keeps the store well formed (distinct
  keys, bounded keys and values, \<open>count\<close> the number of used slots) and its capacity,
  and bytes that no proposer encodes are refused with -1, leave the store unchanged
  and notify nobody.
\<close>

theorem kv_apply_any_bytes:
  assumes "kv_wf kv" and "norn_kv_apply kv cmd = (rc, calls, kv')"
  shows "kv_wf kv' \<and> kv_cap kv' = kv_cap kv \<and>
    ((\<exists>c. kv_cmd_ok c \<and> cmd = kv_encode c) \<or> rc = -1 \<and> calls = [] \<and> kv' = kv)"
  using apply_wf [OF assms(2,1)] apply_accepts [of kv cmd] assms(2) by auto

theorem kv_apply_any_bytes_witness:
  "kv_wf kv_demo \<and> norn_kv_apply kv_demo [1, 0, 9, 7] = (-1, [], kv_demo) \<and>
     (\<exists>kv'. norn_kv_apply kv_demo [2, 0, 1, 7] = (1, [(0, NORN_KV_EV_DEL, [7], [])], kv') \<and> kv_wf kv')"
proof -
  obtain rc calls kv' where e: "norn_kv_apply kv_demo [2, 0, 1, 7] = (rc, calls, kv')"
    by (rule prod_cases3)
  have "norn_kv_apply kv_demo [1, 0, 9, 7] = (-1, [], kv_demo)" by code_simp
  moreover have "fst (norn_kv_apply kv_demo [2, 0, 1, 7]) = 1"
    "fst (snd (norn_kv_apply kv_demo [2, 0, 1, 7])) = [(0, NORN_KV_EV_DEL, [7], [])]" by code_simp+
  ultimately show ?thesis using kv_apply_any_bytes [OF kv_demo_wf e] kv_demo_wf e by simp
qed

text \<open>
  Replicas that hold the same contents (in any slot order, and with different
  watches) and have the same capacity return the same code for every committed command
  and hold the same contents after any sequence of them.
\<close>

theorem kv_replicas_agree:
  assumes "kv_wf a" and "kv_wf b" and "kv_cap a = kv_cap b" and "kv_map a = kv_map b"
    and "kv_run a cmds = (ra, a')" and "kv_run b cmds = (rb, b')"
  shows "ra = rb \<and> kv_map a' = kv_map b'"
  using assms
proof (induction cmds arbitrary: a b ra rb)
  case (Cons cmd cmds)
  obtain r1 c1 a1 where a1: "norn_kv_apply a cmd = (r1, c1, a1)" by (rule prod_cases3)
  obtain r2 c2 b1 where b1: "norn_kv_apply b cmd = (r2, c2, b1)" by (rule prod_cases3)
  obtain s1 a2 where a2: "kv_run a1 cmds = (s1, a2)" by (rule prod.exhaust)
  obtain s2 b2 where b2: "kv_run b1 cmds = (s2, b2)" by (rule prod.exhaust)
  have same: "r1 = r2" "kv_map a1 = kv_map b1" using apply_agree [OF Cons.prems(1-4) a1 b1] by auto
  have "s1 = s2 \<and> kv_map a2 = kv_map b2"
    using Cons.IH [of a1 b1 s1 s2] apply_wf [OF a1 Cons.prems(1)] apply_wf [OF b1 Cons.prems(2)]
      same(2) a2 b2 Cons.prems(3,5,6) a1 b1 by (auto simp: Let_def)
  then show ?case using same Cons.prems(5,6) a1 b1 a2 b2 by (auto simp: Let_def)
qed simp

definition kv_demo' :: norn_kv where
  "kv_demo' = \<lparr>kv_entries = rev (kv_entries kv_demo), kv_count = 1, kv_watches = []\<rparr>"

theorem kv_replicas_agree_witness:
  "kv_demo \<noteq> kv_demo' \<and>
     fst (kv_run kv_demo [kv_encode (Put [8] [1]), kv_encode (Put [9] [1])]) = [1, -1] \<and>
     fst (kv_run kv_demo' [kv_encode (Put [8] [1]), kv_encode (Put [9] [1])]) = [1, -1]"
proof -
  let ?cs = "[kv_encode (Put [8] [1]), kv_encode (Put [9] [1])]"
  have b: "kv_wf kv_demo'" "kv_cap kv_demo = kv_cap kv_demo'" "kv_map kv_demo = kv_map kv_demo'"
    by (simp_all add: kv_demo'_def kv_demo_def kv_wf_def kv_cap_def kv_map_def slots_distinct_def
        key_ok_def val_ok_def kv_consts)
  have "fst (kv_run kv_demo ?cs) = [1, -1]" by code_simp
  moreover have "kv_demo \<noteq> kv_demo'" by (simp add: kv_demo_def kv_demo'_def)
  moreover have "fst (kv_run kv_demo ?cs) = fst (kv_run kv_demo' ?cs)"
    using kv_replicas_agree [OF kv_demo_wf b(1-3), of ?cs] by (metis prod.collapse)
  ultimately show ?thesis by simp
qed

text \<open>
  C11: A snapshot of a well-formed store restores into any store with enough slots:
  the restore succeeds, and contents and count are those of the store the snapshot was
  taken of, whatever the target held before.
\<close>

theorem kv_snapshot_restore:
  assumes "kv_wf kv" and "norn_kv_snapshot kv cap = Some buf"
    and "kv_wf target" and "norn_kv_count kv \<le> int (kv_cap target)"
  shows "\<exists>kv'. norn_kv_restore target buf = (0, kv') \<and> kv_wf kv' \<and> kv_map kv' = kv_map kv \<and>
    norn_kv_count kv' = norn_kv_count kv"
proof -
  let ?es = "filter ke_used (kv_entries kv)"
  let ?t = "target\<lparr>kv_entries := map entry_clear (kv_entries target), kv_count := 0\<rparr>"
  have t: "kv_wf ?t" "kv_map ?t = Map.empty" "kv_cap ?t = kv_cap target"
    using kv_clear_all [of target] assms(3) by (simp_all add: kv_wf_def)
  have "\<exists>kv'. restore_loop ?t (concat (map snap_entry ?es)) = (0, kv') \<and> kv_wf kv' \<and>
      kv_cap kv' = kv_cap ?t \<and> kv_map kv' = kv_map ?t ++ slot_map ke_used ke_key ke_val ?es"
    by (rule restore_entries)
      (use assms(1,4) t in \<open>auto simp: kv_wf_def slots_distinct_def norn_kv_count_def\<close>)
  then obtain kv' where kv': "norn_kv_restore target buf = (0, kv')" "kv_wf kv'" "kv_map kv' = kv_map kv"
    using assms(2) t
    by (auto simp: norn_kv_snapshot_def norn_kv_restore_def slot_map_filter kv_map_def
        dest: snapshot_loop_Some)
  have "kv_count x = int (card (dom (kv_map x)))" if "kv_wf x" for x
    using that by (simp add: kv_wf_def card_dom_kv_map)
  with kv' assms(1) show ?thesis by (auto simp: norn_kv_count_def)
qed

theorem kv_snapshot_restore_witness:
  "norn_kv_snapshot kv_demo 7 = Some [0, 1, 7, 0, 2, 1, 2] \<and>
     (\<exists>kv'. norn_kv_restore kv_demo' [0, 1, 7, 0, 2, 1, 2] = (0, kv') \<and> kv_map kv' = [[7] \<mapsto> [1, 2]])"
proof -
  have s: "norn_kv_snapshot kv_demo 7 = Some [0, 1, 7, 0, 2, 1, 2]" by code_simp
  have "kv_wf kv_demo'" "norn_kv_count kv_demo \<le> int (kv_cap kv_demo')"
    by (simp_all add: kv_demo'_def kv_demo_def kv_wf_def kv_cap_def slots_distinct_def
        key_ok_def val_ok_def kv_consts norn_kv_count_def)
  from kv_snapshot_restore [OF kv_demo_wf s this] s show ?thesis by (auto simp: kv_demo_map)
qed

text \<open>
  What a proposer encodes with \<open>norn_kv_encode_put\<close> and a replica applies with
  success is read back: \<open>norn_kv_get\<close> returns the new value for that key (if the
  output buffer holds it) and is unchanged for every other key.
\<close>

theorem kv_put_then_get:
  assumes "kv_wf kv" and "norn_kv_encode_put cap k v = Some cmd"
    and "norn_kv_apply kv cmd = (1, calls, kv')"
  shows "norn_kv_get kv' k' n =
    (if k' = k then (if length v \<le> n then Some v else None) else norn_kv_get kv k' n)"
proof -
  have ok: "kv_cmd_ok (Put k v)" and cmd: "cmd = kv_encode (Put k v)"
    using assms(2) by (auto simp: norn_kv_encode_put_def key_ok_def val_ok_def split: if_splits)
  have "kv_map kv' = (kv_map kv)(k \<mapsto> v)"
    using apply_ok_step(1) [OF assms(3) [unfolded cmd] ok assms(1)]
    by (auto simp: spec_put_def split: if_splits)
  moreover have "k \<noteq> []" using ok by (simp add: key_ok_def)
  ultimately show ?thesis
    by (cases "k' = []") (auto simp: kv_get_map norn_kv_get_def [of _ "[]"] split: option.split)
qed

theorem kv_put_then_get_witness:
  "norn_kv_encode_put 7 [8] [4] = Some [1, 0, 1, 8, 0, 1, 4] \<and>
     (let kv' = snd (snd (norn_kv_apply kv_demo [1, 0, 1, 8, 0, 1, 4])) in
       norn_kv_get kv' [8] 10 = Some [4] \<and> norn_kv_get kv' [7] 10 = Some [1, 2])"
proof -
  have e: "norn_kv_encode_put 7 [8] [4] = Some [1, 0, 1, 8, 0, 1, 4]" by code_simp
  obtain rc calls kv' where a: "norn_kv_apply kv_demo [1, 0, 1, 8, 0, 1, 4] = (rc, calls, kv')"
    by (rule prod_cases3)
  have "fst (norn_kv_apply kv_demo [1, 0, 1, 8, 0, 1, 4]) = 1" by code_simp
  then have a1: "norn_kv_apply kv_demo [1, 0, 1, 8, 0, 1, 4] = (1, calls, kv')" using a by simp
  have "norn_kv_get kv_demo [7] 10 = Some [1, 2]" by code_simp
  then show ?thesis
    using kv_put_then_get [OF kv_demo_wf e a1, of "[8]" 10] kv_put_then_get [OF kv_demo_wf e a1, of "[7]" 10]
      e a1 by simp
qed

end
