(* ===== verification/Norn_Raft.thy ===== *)
theory Norn_Raft
  imports Norn_Prelude
begin

text \<open>
  The Raft consensus core, \<open>src/libnorn/norn_raft.c\<close>.

  A node is a record; the log is the list of the first \<open>log_len\<close> slots of the array
  \<open>log\<close>, the members are the first \<open>n_members\<close> slots of \<open>members\<close>. Terms, node ids,
  log indices and times are 64 bit words, the configuration is in 32 bit words, as in
  the code. An operation returns the new node and the calls to the \<open>raft_io_t\<close>
  callbacks it makes, in order. \<open>r_fault\<close> records undefined behaviour of the code:
  the dereference of a failed \<open>find_member(r, r->self)\<close> and the remainder by zero in
  \<open>election_timeout\<close>; what the model does after it has no meaning, and the absence of
  faults is proved.
\<close>

section \<open>Data\<close>

datatype raft_role = RAFT_FOLLOWER | RAFT_CANDIDATE | RAFT_LEADER

datatype raft_member_role = RAFT_VOTER | RAFT_LEARNER

definition RAFT_MAX_NODES :: nat where "RAFT_MAX_NODES = 16"
definition RAFT_MAX_LOG :: nat where "RAFT_MAX_LOG = 512"
definition RAFT_ENTRY_MAX :: nat where "RAFT_ENTRY_MAX = 512"
definition RAFT_MAX_BATCH :: nat where "RAFT_MAX_BATCH = 8"
definition RAFT_NO_NODE :: u64 where "RAFT_NO_NODE = 0"
definition RAFT_ENTRY_NORMAL :: byte where "RAFT_ENTRY_NORMAL = 0"
definition RAFT_ENTRY_NOOP :: byte where "RAFT_ENTRY_NOOP = 1"

lemmas raft_consts = RAFT_MAX_NODES_def RAFT_MAX_LOG_def RAFT_ENTRY_MAX_def RAFT_MAX_BATCH_def
  RAFT_NO_NODE_def RAFT_ENTRY_NORMAL_def RAFT_ENTRY_NOOP_def

record raft_entry =
  re_term :: u64
  re_index :: u64
  re_type :: byte
  re_data :: bytes

datatype raft_msg_type =
  RAFT_MSG_REQUEST_VOTE | RAFT_MSG_REQUEST_VOTE_RESP | RAFT_MSG_APPEND | RAFT_MSG_APPEND_RESP

record raft_msg =
  m_type :: raft_msg_type
  m_term :: u64
  m_pre_vote :: int
  m_candidate_id :: u64
  m_last_log_index :: u64
  m_last_log_term :: u64
  m_vote_granted :: int
  m_leader_id :: u64
  m_prev_log_index :: u64
  m_prev_log_term :: u64
  m_entries :: "raft_entry list"
  m_leader_commit :: u64
  m_success :: int
  m_match_index :: u64

text \<open>\<open>memset(&m, 0, sizeof m); m.type = t;\<close>\<close>

definition msg_zero :: "raft_msg_type \<Rightarrow> raft_msg" where
  "msg_zero t = \<lparr>m_type = t, m_term = 0, m_pre_vote = 0, m_candidate_id = 0, m_last_log_index = 0,
     m_last_log_term = 0, m_vote_granted = 0, m_leader_id = 0, m_prev_log_index = 0,
     m_prev_log_term = 0, m_entries = [], m_leader_commit = 0, m_success = 0, m_match_index = 0\<rparr>"

record raft_config =
  election_base_ms :: u32
  election_spread_ms :: u32
  heartbeat_ms :: u32

record member =
  mb_id :: u64
  mb_role :: raft_member_role
  mb_eligible :: bool
  mb_next_index :: u64
  mb_match_index :: u64
  mb_vote_granted :: bool

record raft =
  r_self :: u64
  r_io_send :: bool
  r_io_apply :: bool
  r_cfg :: raft_config
  r_term :: u64
  r_voted_for :: u64
  r_log :: "raft_entry list"
  r_role :: raft_role
  r_leader :: u64
  r_commit :: u64
  r_applied :: u64
  r_now :: u64
  r_election_elapsed :: u64
  r_heartbeat_elapsed :: u64
  r_in_pre_vote :: int
  r_members :: "member list"
  r_fault :: bool

datatype raft_effect = Send u64 raft_msg | Apply raft_entry

type_synonym raft_out = "raft \<times> raft_effect list"

text \<open>Sequencing of two parts of an operation, with the effects in order.\<close>

definition andthen :: "raft_out \<Rightarrow> (raft \<Rightarrow> raft_out) \<Rightarrow> raft_out" where
  "andthen x f = (case x of (r, es) \<Rightarrow> case f r of (r', es') \<Rightarrow> (r', es @ es'))"

section \<open>Small helpers\<close>

definition find_member :: "raft \<Rightarrow> u64 \<Rightarrow> nat option" where
  "find_member r nid = find_idx (\<lambda>m. mb_id m = nid) (r_members r)"

definition set_member :: "raft \<Rightarrow> nat \<Rightarrow> (member \<Rightarrow> member) \<Rightarrow> raft" where
  "set_member r i f = r\<lparr>r_members := (r_members r)[i := f (r_members r ! i)]\<rparr>"

text \<open>\<open>find_member(r, r->self)->field = value\<close>\<close>

definition set_self :: "(member \<Rightarrow> member) \<Rightarrow> raft \<Rightarrow> raft" where
  "set_self f r = (case find_member r (r_self r) of
     None \<Rightarrow> r\<lparr>r_fault := True\<rparr> | Some i \<Rightarrow> set_member r i f)"

definition is_voter :: "member \<Rightarrow> bool" where
  "is_voter m \<longleftrightarrow> mb_role m = RAFT_VOTER"

definition count_voters :: "raft \<Rightarrow> nat" where
  "count_voters r = length (filter is_voter (r_members r))"

definition quorum :: "raft \<Rightarrow> nat" where
  "quorum r = count_voters r div 2 + 1"

definition self_is_eligible_voter :: "raft \<Rightarrow> bool" where
  "self_is_eligible_voter r = (case find_member r (r_self r) of
     None \<Rightarrow> False | Some i \<Rightarrow> is_voter (r_members r ! i) \<and> mb_eligible (r_members r ! i))"

definition last_log_index :: "raft \<Rightarrow> u64" where
  "last_log_index r = word_of_nat (length (r_log r))"

definition last_log_term :: "raft \<Rightarrow> u64" where
  "last_log_term r = (if r_log r \<noteq> [] then re_term (r_log r ! (length (r_log r) - 1)) else 0)"

definition term_at :: "raft \<Rightarrow> u64 \<Rightarrow> u64" where
  "term_at r i = (if i = 0 \<or> i > last_log_index r then 0 else re_term (r_log r ! unat (i - 1)))"

definition election_timeout :: "raft \<Rightarrow> u32" where
  "election_timeout r =
     election_base_ms (r_cfg r) + ucast (r_self r mod ucast (election_spread_ms (r_cfg r) + 1))"

definition log_ok :: "raft \<Rightarrow> u64 \<Rightarrow> u64 \<Rightarrow> bool" where
  "log_ok r cand_last_idx cand_last_term =
     (let my_term = last_log_term r in
      if cand_last_term \<noteq> my_term then cand_last_term > my_term
      else cand_last_idx \<ge> last_log_index r)"

definition reset_votes :: "raft \<Rightarrow> raft" where
  "reset_votes r = r\<lparr>r_members := map (\<lambda>m. m\<lparr>mb_vote_granted := False\<rparr>) (r_members r)\<rparr>"

section \<open>Role transitions and replication\<close>

definition become_follower :: "raft \<Rightarrow> u64 \<Rightarrow> u64 \<Rightarrow> raft" where
  "become_follower r tm ldr =
     (let r1 = r\<lparr>r_role := RAFT_FOLLOWER\<rparr>;
          r2 = (if tm > r_term r1 then r1\<lparr>r_term := tm, r_voted_for := RAFT_NO_NODE\<rparr> else r1)
      in r2\<lparr>r_leader := ldr, r_in_pre_vote := 0, r_election_elapsed := 0\<rparr>)"

definition send_to :: "raft \<Rightarrow> u64 \<Rightarrow> raft_msg \<Rightarrow> raft_effect list" where
  "send_to r dest m = (if r_io_send r then [Send dest m] else [])"

definition broadcast_vote :: "raft \<Rightarrow> int \<Rightarrow> u64 \<Rightarrow> raft_effect list" where
  "broadcast_vote r pre_vote tm =
     (let m = (msg_zero RAFT_MSG_REQUEST_VOTE)
            \<lparr>m_term := tm, m_pre_vote := pre_vote, m_candidate_id := r_self r,
             m_last_log_index := last_log_index r, m_last_log_term := last_log_term r\<rparr>
      in concat (map (\<lambda>mm. if mb_id mm = r_self r \<or> \<not> is_voter mm then [] else send_to r (mb_id mm) m)
           (r_members r)))"

text \<open>The loop that counts the entries of a batch.\<close>

definition batch_len :: "raft \<Rightarrow> u64 \<Rightarrow> nat" where
  "batch_len r start =
     length (takeWhile (\<lambda>n. start - 1 + word_of_nat n < last_log_index r) [0..<RAFT_MAX_BATCH])"

definition send_append :: "raft \<Rightarrow> member \<Rightarrow> raft_effect list" where
  "send_append r m =
     (let prev = mb_next_index m - 1;
          n = (if mb_next_index m \<le> last_log_index r then batch_len r (mb_next_index m) else 0)
      in send_to r (mb_id m) ((msg_zero RAFT_MSG_APPEND)
           \<lparr>m_term := r_term r, m_leader_id := r_self r, m_prev_log_index := prev,
            m_prev_log_term := term_at r prev, m_leader_commit := r_commit r,
            m_entries := take n (drop (unat (mb_next_index m - 1)) (r_log r))\<rparr>))"

definition broadcast_append :: "raft \<Rightarrow> raft_effect list" where
  "broadcast_append r =
     concat (map (\<lambda>m. if mb_id m = r_self r then [] else send_append r m) (r_members r))"

text \<open>\<open>e = &r->log[r->log_len]; ...; r->log_len++; find_member(r, r->self)->match_index = ...\<close>\<close>

definition append_own :: "byte \<Rightarrow> bytes \<Rightarrow> raft \<Rightarrow> raft" where
  "append_own ty dat r =
     (let e = \<lparr>re_term = r_term r, re_index = last_log_index r + 1, re_type = ty, re_data = dat\<rparr>;
          r1 = r\<lparr>r_log := r_log r @ [e]\<rparr>
      in set_self (\<lambda>m. m\<lparr>mb_match_index := last_log_index r1\<rparr>) r1)"

definition become_leader :: "raft \<Rightarrow> raft_out" where
  "become_leader r =
     (let r1 = r\<lparr>r_role := RAFT_LEADER, r_leader := r_self r, r_in_pre_vote := 0,
               r_heartbeat_elapsed := 0\<rparr>;
          next_i = last_log_index r1 + 1;
          r2 = r1\<lparr>r_members := map (\<lambda>m. m\<lparr>mb_next_index := next_i, mb_match_index := 0\<rparr>) (r_members r1)\<rparr>;
          r3 = set_self (\<lambda>m. m\<lparr>mb_match_index := last_log_index r2\<rparr>) r2;
          r4 = (if length (r_log r3) < RAFT_MAX_LOG then append_own RAFT_ENTRY_NOOP [] r3 else r3)
      in (r4, broadcast_append r4))"

definition start_election :: "raft \<Rightarrow> raft_out" where
  "start_election r =
     (if \<not> self_is_eligible_voter r then (r\<lparr>r_election_elapsed := 0\<rparr>, [])
      else
        let r1 = reset_votes (r\<lparr>r_role := RAFT_CANDIDATE, r_leader := RAFT_NO_NODE,
                               r_election_elapsed := 0\<rparr>);
            r2 = set_self (\<lambda>m. m\<lparr>mb_vote_granted := True\<rparr>) r1
        in if count_voters r2 = 1
           then become_leader (r2\<lparr>r_in_pre_vote := 0, r_term := r_term r2 + 1, r_voted_for := r_self r2\<rparr>)
           else let r3 = r2\<lparr>r_in_pre_vote := 1\<rparr> in (r3, broadcast_vote r3 1 (r_term r3 + 1)))"

function apply_committed :: "raft \<Rightarrow> raft_out" where
  "apply_committed r =
     (if r_applied r < r_commit r then
        let r1 = r\<lparr>r_applied := r_applied r + 1\<rparr>;
            e = r_log r1 ! unat (r_applied r1 - 1)
        in case apply_committed r1 of (r', es) \<Rightarrow>
             (r', (if re_type e = RAFT_ENTRY_NORMAL \<and> r_io_apply r1 then [Apply e] else []) @ es)
      else (r, []))"
  by pat_completeness auto
termination
  by (relation "measure (\<lambda>r. unat (r_commit r) - unat (r_applied r))")
    (auto simp: word_less_nat_alt unat_Suc_less)

declare apply_committed.simps [simp del]

text \<open>The voters that have replicated the entry at \<open>idx\<close>.\<close>

definition replicated_votes :: "raft \<Rightarrow> u64 \<Rightarrow> nat" where
  "replicated_votes r idx = length (filter (\<lambda>m. is_voter m \<and> mb_match_index m \<ge> idx) (r_members r))"

function advance_loop :: "raft \<Rightarrow> u64 \<Rightarrow> raft" where
  "advance_loop r idx =
     (if idx > r_commit r then
        if term_at r idx \<noteq> r_term r then r
        else if replicated_votes r idx \<ge> quorum r then r\<lparr>r_commit := idx\<rparr>
        else advance_loop r (idx - 1)
      else r)"
  by pat_completeness auto
termination
  by (relation "measure (\<lambda>(r, idx). unat idx)") (auto simp: word_less_nat_alt unat_pred_less)

declare advance_loop.simps [simp del]

definition advance_commit :: "raft \<Rightarrow> raft_out" where
  "advance_commit r = apply_committed (advance_loop r (last_log_index r))"

section \<open>Message handlers\<close>

definition handle_request_vote :: "raft \<Rightarrow> raft_msg \<Rightarrow> raft_out" where
  "handle_request_vote r m =
     (let r1 = (if m_pre_vote m = 0 \<and> m_term m > r_term r
                then become_follower r (m_term m) RAFT_NO_NODE else r);
          resp = (msg_zero RAFT_MSG_REQUEST_VOTE_RESP)\<lparr>m_pre_vote := m_pre_vote m, m_term := r_term r1\<rparr>;
          up_to_date = log_ok r1 (m_last_log_index m) (m_last_log_term m)
      in if m_pre_vote m \<noteq> 0 then
           let grant = (m_term m > r_term r1 \<and> up_to_date \<and>
                        r_election_elapsed r1 \<ge> ucast (election_base_ms (r_cfg r1)))
           in (r1, send_to r1 (m_candidate_id m) (resp\<lparr>m_vote_granted := of_bool grant\<rparr>))
         else
           let can_vote = (r_voted_for r1 = RAFT_NO_NODE \<or> r_voted_for r1 = m_candidate_id m);
               grant = (m_term m \<ge> r_term r1 \<and> can_vote \<and> up_to_date);
               r2 = (if grant then r1\<lparr>r_voted_for := m_candidate_id m, r_election_elapsed := 0\<rparr> else r1)
           in (r2, send_to r2 (m_candidate_id m) (resp\<lparr>m_vote_granted := of_bool grant\<rparr>)))"

definition count_grants :: "raft \<Rightarrow> nat" where
  "count_grants r = length (filter (\<lambda>m. is_voter m \<and> mb_vote_granted m) (r_members r))"

definition handle_request_vote_resp :: "raft \<Rightarrow> raft_msg \<Rightarrow> raft_out" where
  "handle_request_vote_resp r m =
     (if m_pre_vote m = 0 \<and> m_term m > r_term r then (become_follower r (m_term m) RAFT_NO_NODE, [])
      else if r_role r \<noteq> RAFT_CANDIDATE then (r, [])
      else if m_pre_vote m \<noteq> r_in_pre_vote r then (r, [])
      else if m_vote_granted m = 0 then (r, [])
      else if count_grants r < quorum r then (r, [])
      else if r_in_pre_vote r \<noteq> 0 then
        let r1 = reset_votes (r\<lparr>r_in_pre_vote := 0, r_term := r_term r + 1, r_voted_for := r_self r\<rparr>);
            r2 = (set_self (\<lambda>m. m\<lparr>mb_vote_granted := True\<rparr>) r1)\<lparr>r_election_elapsed := 0\<rparr>
        in (r2, broadcast_vote r2 0 (r_term r2))
      else become_leader r)"

text \<open>One iteration per entry; \<open>idx\<close> is \<open>prev_log_index + 1 + i\<close>.\<close>

definition write_entry :: "raft \<Rightarrow> u64 \<Rightarrow> raft_entry \<Rightarrow> raft" where
  "write_entry r idx e =
     (if unat (idx - 1) < RAFT_MAX_LOG
      then r\<lparr>r_log := take (unat (idx - 1)) (r_log r) @ [e\<lparr>re_index := idx\<rparr>]\<rparr> else r)"

fun append_loop :: "raft \<Rightarrow> u64 \<Rightarrow> raft_entry list \<Rightarrow> raft" where
  "append_loop r idx [] = r"
| "append_loop r idx (e # es) =
     (if idx \<le> last_log_index r then
        if term_at r idx \<noteq> re_term e
        then append_loop (write_entry (r\<lparr>r_log := take (unat (idx - 1)) (r_log r)\<rparr>) idx e) (idx + 1) es
        else append_loop r (idx + 1) es
      else append_loop (write_entry r idx e) (idx + 1) es)"

text \<open>The sender is the leader of its term, which is ours or a newer one.\<close>

definition accept_leader :: "raft \<Rightarrow> raft_msg \<Rightarrow> raft" where
  "accept_leader r m = (become_follower r (m_term m) (m_leader_id m))
     \<lparr>r_term := m_term m, r_leader := m_leader_id m, r_election_elapsed := 0\<rparr>"

definition handle_append :: "raft \<Rightarrow> raft_msg \<Rightarrow> raft_out" where
  "handle_append r m =
     (let resp = msg_zero RAFT_MSG_APPEND_RESP in
      if m_term m < r_term r then (r, send_to r (m_leader_id m) (resp\<lparr>m_term := r_term r, m_success := 0\<rparr>))
      else
        let r1 = accept_leader r m;
            resp1 = resp\<lparr>m_term := r_term r1\<rparr>
        in if m_prev_log_index m > last_log_index r1 \<or> term_at r1 (m_prev_log_index m) \<noteq> m_prev_log_term m
           then (r1, send_to r1 (m_leader_id m) (resp1\<lparr>m_success := 0, m_match_index := 0\<rparr>))
           else
             let r2 = append_loop r1 (m_prev_log_index m + 1) (m_entries m);
                 ack = resp1\<lparr>m_success := 1,
                         m_match_index := m_prev_log_index m + word_of_nat (length (m_entries m))\<rparr>
             in andthen
                  (if m_leader_commit m > r_commit r2
                   then apply_committed (r2\<lparr>r_commit := min (m_leader_commit m) (last_log_index r2)\<rparr>)
                   else (r2, []))
                  (\<lambda>r3. (r3, send_to r3 (m_leader_id m) ack)))"

definition handle_append_resp :: "raft \<Rightarrow> u64 \<Rightarrow> raft_msg \<Rightarrow> raft_out" where
  "handle_append_resp r from m =
     (if m_term m > r_term r then (become_follower r (m_term m) RAFT_NO_NODE, [])
      else if r_role r \<noteq> RAFT_LEADER then (r, [])
      else case find_member r from of
        None \<Rightarrow> (r, [])
      | Some i \<Rightarrow>
          if m_success m \<noteq> 0 then
            let r1 = set_member r i (\<lambda>mm. if m_match_index m > mb_match_index mm
                                         then mm\<lparr>mb_match_index := m_match_index m\<rparr> else mm);
                r2 = set_member r1 i (\<lambda>mm. mm\<lparr>mb_next_index := mb_match_index mm + 1\<rparr>)
            in advance_commit r2
          else if mb_next_index (r_members r ! i) > 1 then
            let r1 = set_member r i (\<lambda>mm. mm\<lparr>mb_next_index := mb_next_index mm - 1\<rparr>)
            in (r1, send_append r1 (r_members r1 ! i))
          else (r, []))"

section \<open>Public operations\<close>

definition raft_new :: "u64 \<Rightarrow> bool \<Rightarrow> bool \<Rightarrow> raft_config option \<Rightarrow> raft option" where
  "raft_new self io_send io_apply cfg =
     (if self = RAFT_NO_NODE then None
      else
        let c = (case cfg of None \<Rightarrow> \<lparr>election_base_ms = 0, election_spread_ms = 0, heartbeat_ms = 0\<rparr>
                           | Some c \<Rightarrow> c);
            c1 = (if election_base_ms c = 0 then c\<lparr>election_base_ms := 150\<rparr> else c);
            c2 = (if election_spread_ms c1 = 0 then c1\<lparr>election_spread_ms := 150\<rparr> else c1);
            c3 = (if heartbeat_ms c2 = 0 then c2\<lparr>heartbeat_ms := 50\<rparr> else c2)
        in Some \<lparr>r_self = self, r_io_send = io_send, r_io_apply = io_apply, r_cfg = c3, r_term = 0,
             r_voted_for = RAFT_NO_NODE, r_log = [], r_role = RAFT_FOLLOWER, r_leader = 0,
             r_commit = 0, r_applied = 0, r_now = 0, r_election_elapsed = 0,
             r_heartbeat_elapsed = 0, r_in_pre_vote = 0, r_members = [], r_fault = False\<rparr>)"

definition raft_add_member :: "raft \<Rightarrow> u64 \<Rightarrow> raft_member_role \<Rightarrow> bool \<Rightarrow> int \<times> raft" where
  "raft_add_member r nid role eligible =
     (if nid = RAFT_NO_NODE \<or> length (r_members r) \<ge> RAFT_MAX_NODES then (-1, r)
      else if find_member r nid \<noteq> None then (-1, r)
      else (0, r\<lparr>r_members := r_members r @
             [\<lparr>mb_id = nid, mb_role = role, mb_eligible = eligible,
               mb_next_index = last_log_index r + 1, mb_match_index = 0, mb_vote_granted = False\<rparr>]\<rparr>))"

definition raft_remove_member :: "raft \<Rightarrow> u64 \<Rightarrow> int \<times> raft" where
  "raft_remove_member r nid =
     (case find_member r nid of
        None \<Rightarrow> (-1, r)
      | Some i \<Rightarrow> (0, r\<lparr>r_members := swap_remove i (r_members r)\<rparr>))"

definition raft_promote :: "raft \<Rightarrow> u64 \<Rightarrow> int \<times> raft" where
  "raft_promote r nid =
     (case find_member r nid of
        None \<Rightarrow> (-1, r)
      | Some i \<Rightarrow> if mb_role (r_members r ! i) \<noteq> RAFT_LEARNER then (-1, r)
          else (0, set_member r i (\<lambda>m. m\<lparr>mb_role := RAFT_VOTER, mb_eligible := True\<rparr>)))"

definition raft_set_eligible :: "raft \<Rightarrow> u64 \<Rightarrow> bool \<Rightarrow> int \<times> raft" where
  "raft_set_eligible r nid eligible =
     (case find_member r nid of
        None \<Rightarrow> (-1, r)
      | Some i \<Rightarrow> (0, set_member r i (\<lambda>m. m\<lparr>mb_eligible := eligible\<rparr>)))"

definition raft_propose :: "raft \<Rightarrow> bytes \<Rightarrow> u64 \<times> raft_out" where
  "raft_propose r dat =
     (if r_role r \<noteq> RAFT_LEADER \<or> length dat > RAFT_ENTRY_MAX then (0, r, [])
      else if length (r_log r) \<ge> RAFT_MAX_LOG then (0, r, [])
      else
        let r1 = append_own RAFT_ENTRY_NORMAL dat r
        in (last_log_index r + 1, andthen (r1, broadcast_append r1) advance_commit))"

definition raft_recv :: "raft \<Rightarrow> u64 \<Rightarrow> raft_msg \<Rightarrow> raft_out" where
  "raft_recv r from m =
     (case m_type m of
        RAFT_MSG_REQUEST_VOTE \<Rightarrow> handle_request_vote r m
      | RAFT_MSG_REQUEST_VOTE_RESP \<Rightarrow>
          let r1 = (case find_member r from of
                      None \<Rightarrow> r
                    | Some i \<Rightarrow> if m_vote_granted m \<noteq> 0
                        then set_member r i (\<lambda>mm. mm\<lparr>mb_vote_granted := True\<rparr>) else r)
          in handle_request_vote_resp r1 m
      | RAFT_MSG_APPEND \<Rightarrow> handle_append r m
      | RAFT_MSG_APPEND_RESP \<Rightarrow> handle_append_resp r from m)"

definition raft_tick :: "raft \<Rightarrow> u64 \<Rightarrow> raft_out" where
  "raft_tick r now_ms =
     (let dt = (if now_ms > r_now r then now_ms - r_now r else 0);
          r1 = r\<lparr>r_now := now_ms, r_election_elapsed := r_election_elapsed r + dt,
                 r_heartbeat_elapsed := r_heartbeat_elapsed r + dt\<rparr>
      in if r_role r1 = RAFT_LEADER then
           let r2 = r1\<lparr>r_election_elapsed := 0\<rparr>
           in if r_heartbeat_elapsed r2 \<ge> ucast (heartbeat_ms (r_cfg r2))
              then let r3 = r2\<lparr>r_heartbeat_elapsed := 0\<rparr> in (r3, broadcast_append r3)
              else (r2, [])
         else
           let r2 = r1\<lparr>r_fault := (r_fault r1 \<or> election_spread_ms (r_cfg r1) + 1 = 0)\<rparr>
           in andthen
                (if r_election_elapsed r2 \<ge> ucast (election_timeout r2) then start_election r2 else (r2, []))
                apply_committed)"

definition raft_is_voter :: "raft \<Rightarrow> u64 \<Rightarrow> bool" where
  "raft_is_voter r nid = (case find_member r nid of None \<Rightarrow> False | Some i \<Rightarrow> is_voter (r_members r ! i))"

section \<open>What the helpers leave alone\<close>

lemma set_member_frame [simp]:
  "r_self (set_member r i f) = r_self r"
  "r_io_send (set_member r i f) = r_io_send r"
  "r_io_apply (set_member r i f) = r_io_apply r"
  "r_cfg (set_member r i f) = r_cfg r"
  "r_term (set_member r i f) = r_term r"
  "r_voted_for (set_member r i f) = r_voted_for r"
  "r_log (set_member r i f) = r_log r"
  "r_role (set_member r i f) = r_role r"
  "r_leader (set_member r i f) = r_leader r"
  "r_commit (set_member r i f) = r_commit r"
  "r_applied (set_member r i f) = r_applied r"
  "r_now (set_member r i f) = r_now r"
  "r_election_elapsed (set_member r i f) = r_election_elapsed r"
  "r_heartbeat_elapsed (set_member r i f) = r_heartbeat_elapsed r"
  "r_in_pre_vote (set_member r i f) = r_in_pre_vote r"
  "r_fault (set_member r i f) = r_fault r"
  by (simp_all add: set_member_def)

lemma set_self_frame [simp]:
  "r_self (set_self f r) = r_self r"
  "r_io_send (set_self f r) = r_io_send r"
  "r_io_apply (set_self f r) = r_io_apply r"
  "r_cfg (set_self f r) = r_cfg r"
  "r_term (set_self f r) = r_term r"
  "r_voted_for (set_self f r) = r_voted_for r"
  "r_log (set_self f r) = r_log r"
  "r_role (set_self f r) = r_role r"
  "r_leader (set_self f r) = r_leader r"
  "r_commit (set_self f r) = r_commit r"
  "r_applied (set_self f r) = r_applied r"
  "r_now (set_self f r) = r_now r"
  "r_election_elapsed (set_self f r) = r_election_elapsed r"
  "r_heartbeat_elapsed (set_self f r) = r_heartbeat_elapsed r"
  "r_in_pre_vote (set_self f r) = r_in_pre_vote r"
  by (simp_all add: set_self_def split: option.split)

lemma reset_votes_frame [simp]:
  "r_self (reset_votes r) = r_self r"
  "r_io_send (reset_votes r) = r_io_send r"
  "r_io_apply (reset_votes r) = r_io_apply r"
  "r_cfg (reset_votes r) = r_cfg r"
  "r_term (reset_votes r) = r_term r"
  "r_voted_for (reset_votes r) = r_voted_for r"
  "r_log (reset_votes r) = r_log r"
  "r_role (reset_votes r) = r_role r"
  "r_leader (reset_votes r) = r_leader r"
  "r_commit (reset_votes r) = r_commit r"
  "r_applied (reset_votes r) = r_applied r"
  "r_now (reset_votes r) = r_now r"
  "r_election_elapsed (reset_votes r) = r_election_elapsed r"
  "r_heartbeat_elapsed (reset_votes r) = r_heartbeat_elapsed r"
  "r_in_pre_vote (reset_votes r) = r_in_pre_vote r"
  "r_fault (reset_votes r) = r_fault r"
  by (simp_all add: reset_votes_def)

lemma become_follower_frame [simp]:
  "r_self (become_follower r tm ldr) = r_self r"
  "r_io_send (become_follower r tm ldr) = r_io_send r"
  "r_io_apply (become_follower r tm ldr) = r_io_apply r"
  "r_cfg (become_follower r tm ldr) = r_cfg r"
  "r_log (become_follower r tm ldr) = r_log r"
  "r_commit (become_follower r tm ldr) = r_commit r"
  "r_applied (become_follower r tm ldr) = r_applied r"
  "r_now (become_follower r tm ldr) = r_now r"
  "r_heartbeat_elapsed (become_follower r tm ldr) = r_heartbeat_elapsed r"
  "r_members (become_follower r tm ldr) = r_members r"
  "r_fault (become_follower r tm ldr) = r_fault r"
  by (simp_all add: become_follower_def Let_def)

lemma accept_leader_frame [simp]:
  "r_self (accept_leader r m) = r_self r"
  "r_io_send (accept_leader r m) = r_io_send r"
  "r_io_apply (accept_leader r m) = r_io_apply r"
  "r_cfg (accept_leader r m) = r_cfg r"
  "r_log (accept_leader r m) = r_log r"
  "r_commit (accept_leader r m) = r_commit r"
  "r_applied (accept_leader r m) = r_applied r"
  "r_now (accept_leader r m) = r_now r"
  "r_heartbeat_elapsed (accept_leader r m) = r_heartbeat_elapsed r"
  "r_members (accept_leader r m) = r_members r"
  "r_fault (accept_leader r m) = r_fault r"
  by (simp_all add: accept_leader_def)

lemma append_own_frame [simp]:
  "r_self (append_own ty dat r) = r_self r"
  "r_io_send (append_own ty dat r) = r_io_send r"
  "r_io_apply (append_own ty dat r) = r_io_apply r"
  "r_cfg (append_own ty dat r) = r_cfg r"
  "r_term (append_own ty dat r) = r_term r"
  "r_voted_for (append_own ty dat r) = r_voted_for r"
  "r_role (append_own ty dat r) = r_role r"
  "r_leader (append_own ty dat r) = r_leader r"
  "r_commit (append_own ty dat r) = r_commit r"
  "r_applied (append_own ty dat r) = r_applied r"
  "r_now (append_own ty dat r) = r_now r"
  "r_election_elapsed (append_own ty dat r) = r_election_elapsed r"
  "r_heartbeat_elapsed (append_own ty dat r) = r_heartbeat_elapsed r"
  "r_in_pre_vote (append_own ty dat r) = r_in_pre_vote r"
  by (simp_all add: append_own_def Let_def)

lemma become_leader_frame [simp]:
  "r_self (fst (become_leader r)) = r_self r"
  "r_io_send (fst (become_leader r)) = r_io_send r"
  "r_io_apply (fst (become_leader r)) = r_io_apply r"
  "r_cfg (fst (become_leader r)) = r_cfg r"
  "r_term (fst (become_leader r)) = r_term r"
  "r_voted_for (fst (become_leader r)) = r_voted_for r"
  "r_commit (fst (become_leader r)) = r_commit r"
  "r_applied (fst (become_leader r)) = r_applied r"
  "r_now (fst (become_leader r)) = r_now r"
  "r_election_elapsed (fst (become_leader r)) = r_election_elapsed r"
  by (simp_all add: become_leader_def Let_def)

lemma write_entry_frame [simp]:
  "r_self (write_entry r idx e) = r_self r"
  "r_io_send (write_entry r idx e) = r_io_send r"
  "r_io_apply (write_entry r idx e) = r_io_apply r"
  "r_cfg (write_entry r idx e) = r_cfg r"
  "r_term (write_entry r idx e) = r_term r"
  "r_voted_for (write_entry r idx e) = r_voted_for r"
  "r_role (write_entry r idx e) = r_role r"
  "r_leader (write_entry r idx e) = r_leader r"
  "r_commit (write_entry r idx e) = r_commit r"
  "r_applied (write_entry r idx e) = r_applied r"
  "r_now (write_entry r idx e) = r_now r"
  "r_election_elapsed (write_entry r idx e) = r_election_elapsed r"
  "r_heartbeat_elapsed (write_entry r idx e) = r_heartbeat_elapsed r"
  "r_in_pre_vote (write_entry r idx e) = r_in_pre_vote r"
  "r_members (write_entry r idx e) = r_members r"
  "r_fault (write_entry r idx e) = r_fault r"
  by (simp_all add: write_entry_def)

lemma append_loop_only_log: "\<exists>l. append_loop r idx es = r\<lparr>r_log := l\<rparr>"
proof (induction r idx es rule: append_loop.induct)
  case (1 r idx)
  show ?case by (rule exI [of _ "r_log r"]) simp
next
  case (2 r idx e es)
  have w: "\<exists>l. write_entry r' idx e = r'\<lparr>r_log := l\<rparr>" for r'
  proof (cases "unat (idx - 1) < RAFT_MAX_LOG")
    case False
    then show ?thesis by (intro exI [of _ "r_log r'"]) (simp add: write_entry_def)
  qed (auto simp: write_entry_def)
  obtain l1 where l1: "write_entry r idx e = r\<lparr>r_log := l1\<rparr>" using w by blast
  obtain l2 where "write_entry (r\<lparr>r_log := take (unat (idx - 1)) (r_log r)\<rparr>) idx e =
      r\<lparr>r_log := take (unat (idx - 1)) (r_log r)\<rparr>\<lparr>r_log := l2\<rparr>" using w by blast
  then have l2: "write_entry (r\<lparr>r_log := take (unat (idx - 1)) (r_log r)\<rparr>) idx e = r\<lparr>r_log := l2\<rparr>" by simp
  consider "idx \<le> last_log_index r" "term_at r idx \<noteq> re_term e"
    | "idx \<le> last_log_index r" "\<not> term_at r idx \<noteq> re_term e" | "\<not> idx \<le> last_log_index r" by blast
  then show ?case
  proof cases
    case 1
    with 2(1) [OF 1] l2 show ?thesis by simp
  next
    case 3
    with 2(3) [OF 3] l1 show ?thesis by simp
  qed (use 2(2) in simp)
qed

lemma append_loop_frame [simp]:
  "r_self (append_loop r idx es) = r_self r"
  "r_io_send (append_loop r idx es) = r_io_send r"
  "r_io_apply (append_loop r idx es) = r_io_apply r"
  "r_cfg (append_loop r idx es) = r_cfg r"
  "r_term (append_loop r idx es) = r_term r"
  "r_voted_for (append_loop r idx es) = r_voted_for r"
  "r_role (append_loop r idx es) = r_role r"
  "r_leader (append_loop r idx es) = r_leader r"
  "r_commit (append_loop r idx es) = r_commit r"
  "r_applied (append_loop r idx es) = r_applied r"
  "r_now (append_loop r idx es) = r_now r"
  "r_election_elapsed (append_loop r idx es) = r_election_elapsed r"
  "r_heartbeat_elapsed (append_loop r idx es) = r_heartbeat_elapsed r"
  "r_in_pre_vote (append_loop r idx es) = r_in_pre_vote r"
  "r_members (append_loop r idx es) = r_members r"
  "r_fault (append_loop r idx es) = r_fault r"
  using append_loop_only_log [of r idx es] by auto

section \<open>The loops in closed form\<close>

abbreviation normal :: "raft_entry \<Rightarrow> bool" where
  "normal e \<equiv> re_type e = RAFT_ENTRY_NORMAL"

lemma apply_committed_closed:
  "apply_committed r = (r\<lparr>r_applied := max (r_applied r) (r_commit r)\<rparr>,
     if r_io_apply r
     then map Apply (filter normal (map ((!) (r_log r)) [unat (r_applied r)..<unat (r_commit r)])) else [])"
proof (induction r rule: apply_committed.induct)
  case (1 r)
  show ?case
  proof (cases "r_applied r < r_commit r")
    case False
    then have "max (r_applied r) (r_commit r) = r_applied r"
      and "unat (r_commit r) \<le> unat (r_applied r)"
      by (simp_all add: not_less max_absorb1 word_le_nat_alt)
    with False show ?thesis by (subst apply_committed.simps) simp
  next
    case True
    let ?r1 = "r\<lparr>r_applied := r_applied r + 1\<rparr>"
    have u: "unat (r_applied r + 1) = Suc (unat (r_applied r))"
      using True by (intro unat_Suc_less) (simp add: word_less_nat_alt)
    have "max (r_applied r + 1) (r_commit r) = max (r_applied r) (r_commit r)"
      using True u by (simp add: max_def word_less_nat_alt word_le_nat_alt)
    moreover have "[unat (r_applied r)..<unat (r_commit r)] =
        unat (r_applied r) # [Suc (unat (r_applied r))..<unat (r_commit r)]"
      using True by (simp add: upt_conv_Cons word_less_nat_alt)
    moreover note 1 [OF True refl refl]
    ultimately show ?thesis
      using True u by (subst apply_committed.simps) simp
  qed
qed

lemma apply_committed_frame [simp]:
  "r_self (fst (apply_committed r)) = r_self r" "r_term (fst (apply_committed r)) = r_term r"
  "r_voted_for (fst (apply_committed r)) = r_voted_for r" "r_log (fst (apply_committed r)) = r_log r"
  "r_role (fst (apply_committed r)) = r_role r" "r_commit (fst (apply_committed r)) = r_commit r"
  "r_members (fst (apply_committed r)) = r_members r" "r_fault (fst (apply_committed r)) = r_fault r"
  "r_in_pre_vote (fst (apply_committed r)) = r_in_pre_vote r" "r_cfg (fst (apply_committed r)) = r_cfg r"
  "r_io_apply (fst (apply_committed r)) = r_io_apply r"
  "r_applied (fst (apply_committed r)) = max (r_applied r) (r_commit r)"
  by (simp_all add: apply_committed_closed)

text \<open>
  The commit rule: \<open>c\<close> is the highest index up to \<open>idx\<close>, in a run of entries of the
  current term that ends at \<open>idx\<close>, that a quorum of voters has replicated.
\<close>

definition commit_point :: "raft \<Rightarrow> u64 \<Rightarrow> u64 \<Rightarrow> bool" where
  "commit_point r idx c \<longleftrightarrow> r_commit r < c \<and> c \<le> idx \<and> term_at r c = r_term r \<and>
     quorum r \<le> replicated_votes r c \<and>
     (\<forall>i. c < i \<and> i \<le> idx \<longrightarrow> term_at r i = r_term r \<and> replicated_votes r i < quorum r)"

lemma word_le_pred: "x < idx \<Longrightarrow> i \<le> idx - 1 \<longleftrightarrow> i < idx" for idx :: "'w::len word"
proof -
  assume "x < idx"
  then have "0 < unat idx" by (simp add: word_less_nat_alt)
  then have "unat (idx - 1) = unat idx - 1" by (simp add: unat_gt_0 unat_minus_one)
  with \<open>0 < unat idx\<close> show ?thesis by (auto simp: word_le_nat_alt word_less_nat_alt)
qed

lemma advance_loop_spec:
  "advance_loop r idx = r \<or> (\<exists>c. commit_point r idx c \<and> advance_loop r idx = r\<lparr>r_commit := c\<rparr>)"
proof (induction r idx rule: advance_loop.induct)
  case (1 r idx)
  consider "\<not> idx > r_commit r \<or> term_at r idx \<noteq> r_term r"
    | "idx > r_commit r" "term_at r idx = r_term r" "quorum r \<le> replicated_votes r idx"
    | "idx > r_commit r" "term_at r idx = r_term r" "\<not> quorum r \<le> replicated_votes r idx" by blast
  then show ?case
  proof cases
    case 1
    then have "advance_loop r idx = r" by (subst advance_loop.simps) auto
    then show ?thesis ..
  next
    case 2
    then have "advance_loop r idx = r\<lparr>r_commit := idx\<rparr>" by (subst advance_loop.simps) auto
    moreover have "commit_point r idx idx" using 2 by (auto simp: commit_point_def)
    ultimately show ?thesis by blast
  next
    case 3
    then have step: "advance_loop r idx = advance_loop r (idx - 1)" by (subst advance_loop.simps) auto
    have "commit_point r idx c" if "commit_point r (idx - 1) c" for c
      using that 3 unfolding commit_point_def word_le_pred [OF 3(1)]
      by (metis not_le order.strict_iff_order)
    with 1 3 show ?thesis unfolding step by blast
  qed
qed

lemma advance_loop_frame [simp]:
  "r_self (advance_loop r idx) = r_self r"
  "r_io_send (advance_loop r idx) = r_io_send r"
  "r_io_apply (advance_loop r idx) = r_io_apply r"
  "r_cfg (advance_loop r idx) = r_cfg r"
  "r_term (advance_loop r idx) = r_term r"
  "r_voted_for (advance_loop r idx) = r_voted_for r"
  "r_log (advance_loop r idx) = r_log r"
  "r_role (advance_loop r idx) = r_role r"
  "r_leader (advance_loop r idx) = r_leader r"
  "r_applied (advance_loop r idx) = r_applied r"
  "r_now (advance_loop r idx) = r_now r"
  "r_election_elapsed (advance_loop r idx) = r_election_elapsed r"
  "r_heartbeat_elapsed (advance_loop r idx) = r_heartbeat_elapsed r"
  "r_in_pre_vote (advance_loop r idx) = r_in_pre_vote r"
  "r_members (advance_loop r idx) = r_members r"
  "r_fault (advance_loop r idx) = r_fault r"
  using advance_loop_spec [of r idx] by auto

end
