(* ===== verification/Norn_Raft_Log.thy ===== *)
theory Norn_Raft_Log
  imports Norn_Raft
begin

text \<open>
  The replicated log: its shape, and what an AppendEntries message does to it. The loop
  of \<open>handle_append\<close> is equal to \<open>merge_log\<close>, a function on lists and natural numbers.
\<close>

section \<open>Well-formed logs and messages\<close>

text \<open>The entry at position \<open>i\<close> has index \<open>i + 1\<close>, and log and entries fit their arrays.\<close>

definition log_wf :: "raft_entry list \<Rightarrow> bool" where
  "log_wf l \<longleftrightarrow> length l \<le> RAFT_MAX_LOG \<and> (\<forall>i < length l. re_index (l ! i) = word_of_nat (Suc i)) \<and>
     (\<forall>e \<in> set l. length (re_data e) \<le> RAFT_ENTRY_MAX)"

definition msg_wf :: "raft_msg \<Rightarrow> bool" where
  "msg_wf m \<longleftrightarrow> length (m_entries m) < 2 ^ 32 \<and> (\<forall>e \<in> set (m_entries m). length (re_data e) \<le> RAFT_ENTRY_MAX)"

lemma log_wf_Nil [simp]: "log_wf []"
  by (simp add: log_wf_def)

lemma log_wf_take: "log_wf l \<Longrightarrow> log_wf (take n l)"
  by (auto simp: log_wf_def dest: in_set_takeD)

lemma log_wf_snoc:
  "log_wf l \<Longrightarrow> length l < RAFT_MAX_LOG \<Longrightarrow> re_index e = word_of_nat (Suc (length l)) \<Longrightarrow>
     length (re_data e) \<le> RAFT_ENTRY_MAX \<Longrightarrow> log_wf (l @ [e])"
  by (auto simp: log_wf_def nth_append less_Suc_eq)

lemma log_wf_len: "log_wf l \<Longrightarrow> length l \<le> 512"
  by (simp add: log_wf_def RAFT_MAX_LOG_def)

lemma unat_last_log_index: "log_wf (r_log r) \<Longrightarrow> unat (last_log_index r) = length (r_log r)"
  using log_wf_len [of "r_log r"] by (simp add: last_log_index_def unat_of_nat_u64)

lemma unat_Suc_pos: "n < 512 \<Longrightarrow> unat (1 + word_of_nat n :: u64) = Suc n"
  using unat_of_nat_u64 [of "Suc n"] by simp

lemma term_at_nth:
  assumes "log_wf (r_log r)" and "p < length (r_log r)"
  shows "term_at r (word_of_nat (Suc p)) = re_term (r_log r ! p)"
proof -
  have p: "p < 512" using log_wf_len [OF assms(1)] assms(2) by simp
  have "unat (1 + word_of_nat p - 1 :: u64) = p" using p by (simp add: unat_of_nat_u64)
  moreover have "1 + word_of_nat p \<noteq> (0 :: u64)" using unat_Suc_pos [OF p] by auto
  moreover have "\<not> 1 + word_of_nat p > last_log_index r"
    using unat_Suc_pos [OF p] assms by (simp add: word_less_nat_alt unat_last_log_index)
  ultimately show ?thesis by (simp add: term_at_def)
qed

section \<open>Merging entries into a log\<close>

fun merge_log :: "nat \<Rightarrow> raft_entry list \<Rightarrow> raft_entry list \<Rightarrow> raft_entry list" where
  "merge_log p l [] = l"
| "merge_log p l (e # es) =
     (if p < length l \<and> re_term (l ! p) = re_term e then merge_log (Suc p) l es
      else if p < RAFT_MAX_LOG
      then merge_log (Suc p) (take p l @ [e\<lparr>re_index := word_of_nat (Suc p)\<rparr>]) es
      else merge_log (Suc p) l es)"

lemma merge_log_full: "log_wf l \<Longrightarrow> RAFT_MAX_LOG \<le> p \<Longrightarrow> merge_log p l es = l"
  by (induction es arbitrary: p) (auto simp: log_wf_def)

lemma merge_log_wf:
  assumes "log_wf l" and "p \<le> length l" and "\<forall>e \<in> set es. length (re_data e) \<le> RAFT_ENTRY_MAX"
  shows "log_wf (merge_log p l es)"
  using assms
proof (induction p l es rule: merge_log.induct)
  case (2 p l e es)
  consider "p < length l" "re_term (l ! p) = re_term e"
    | "\<not> (p < length l \<and> re_term (l ! p) = re_term e)" "p < RAFT_MAX_LOG"
    | "\<not> p < RAFT_MAX_LOG" by blast
  then show ?case
  proof cases
    case 1
    with 2 show ?thesis by simp
  next
    case 2
    have "log_wf (take p l @ [e\<lparr>re_index := word_of_nat (Suc p)\<rparr>])"
      using "2.prems" 2 by (intro log_wf_snoc log_wf_take) simp_all
    then have "log_wf (merge_log (Suc p) (take p l @ [e\<lparr>re_index := word_of_nat (Suc p)\<rparr>]) es)"
      using "2.IH"(2) [OF 2] "2.prems" by simp
    with 2 show ?thesis by auto
  next
    case 3
    with "2.prems" merge_log_full [of l "Suc p" es] show ?thesis by (auto simp: log_wf_def)
  qed
qed simp

lemma merge_log_prefix:
  "log_wf l \<Longrightarrow> p \<le> length l \<Longrightarrow> take p (merge_log p l es) = take p l"
proof -
  have "k \<le> p \<Longrightarrow> k \<le> length l \<Longrightarrow> take k (merge_log p l es) = take k l" for k
    by (induction p l es rule: merge_log.induct) auto
  then show "p \<le> length l \<Longrightarrow> take p (merge_log p l es) = take p l" by blast
qed

lemma merge_log_keeps:
  assumes "k < p" and "k < length l"
  shows "k < length (merge_log p l es) \<and> merge_log p l es ! k = l ! k"
  using assms by (induction p l es rule: merge_log.induct) (auto simp: nth_append)

lemma merge_log_terms:
  assumes "p \<le> length l" and "i < length es" and "p + i < RAFT_MAX_LOG"
  shows "p + i < length (merge_log p l es) \<and> re_term (merge_log p l es ! (p + i)) = re_term (es ! i)"
  using assms
proof (induction p l es arbitrary: i rule: merge_log.induct)
  case (2 p l e es)
  show ?case
  proof (cases "p < length l \<and> re_term (l ! p) = re_term e")
    case True
    then show ?thesis
    proof (cases i)
      case 0
      with True merge_log_keeps [of p "Suc p" l es] show ?thesis by auto
    next
      case (Suc j)
      with True "2.IH"(1) [OF True, of j] "2.prems" show ?thesis by auto
    qed
  next
    case False
    let ?l = "take p l @ [e\<lparr>re_index := word_of_nat (Suc p)\<rparr>]"
    have p: "p < RAFT_MAX_LOG" using "2.prems"(3) by simp
    show ?thesis
    proof (cases i)
      case 0
      have "p < length (merge_log (Suc p) ?l es) \<and> merge_log (Suc p) ?l es ! p = ?l ! p"
        using "2.prems"(1) by (intro merge_log_keeps) simp_all
      with 0 p False "2.prems"(1) show ?thesis by (auto simp: nth_append)
    next
      case (Suc j)
      have "Suc p + j < length (merge_log (Suc p) ?l es) \<and>
          re_term (merge_log (Suc p) ?l es ! (Suc p + j)) = re_term (es ! j)"
        using "2.IH"(2) [OF False p, of j] "2.prems" Suc by simp
      with Suc p False show ?thesis by auto
    qed
  qed
qed simp

text \<open>
  Entries the log already has are skipped, so a message that is delivered again, or late,
  never shortens the log.
\<close>

lemma merge_log_no_conflict:
  assumes "\<forall>i < length es. p + i < length l \<longrightarrow> re_term (l ! (p + i)) = re_term (es ! i)"
    and "p \<le> length l"
  shows "\<exists>t. merge_log p l es = l @ t"
  using assms
proof (induction p l es rule: merge_log.induct)
  case (2 p l e es)
  show ?case
  proof (cases "p < length l")
    case True
    then have same: "re_term (l ! p) = re_term e" using "2.prems"(1) by force
    have "\<forall>i < length es. Suc p + i < length l \<longrightarrow> re_term (l ! (Suc p + i)) = re_term (es ! i)"
      using "2.prems"(1) by (metis Suc_less_eq add_Suc_shift length_Cons nth_Cons_Suc)
    with "2.IH"(1) True same show ?thesis by simp
  next
    case False
    then have p: "p = length l" using "2.prems"(2) by simp
    show ?thesis
    proof (cases "p < RAFT_MAX_LOG")
      case True
      have "\<exists>t. merge_log (Suc p) (take p l @ [e\<lparr>re_index := word_of_nat (Suc p)\<rparr>]) es =
          (take p l @ [e\<lparr>re_index := word_of_nat (Suc p)\<rparr>]) @ t"
        using "2.IH"(2) [OF _ True] False p by simp
      with True False p show ?thesis by auto
    next
      case False
      have "merge_log q l es = l" if "q \<ge> p" for q
        using that False p by (induction es arbitrary: q) auto
      with False p show ?thesis by auto
    qed
  qed
qed simp

lemma merge_log_idem:
  assumes "p \<le> length l" and "p + length es \<le> RAFT_MAX_LOG"
  shows "merge_log p (merge_log p l es) es = merge_log p l es"
proof -
  let ?l = "merge_log p l es"
  have t: "\<forall>i < length es. p + i < length ?l \<and> re_term (?l ! (p + i)) = re_term (es ! i)"
    using merge_log_terms [OF assms(1)] assms(2) by simp
  have "merge_log q l' es' = l'"
    if "\<forall>i < length es'. q + i < length l' \<and> re_term (l' ! (q + i)) = re_term (es' ! i)" for q l' es'
    using that
  proof (induction es' arbitrary: q)
    case (Cons e es')
    have "\<forall>i < length es'. Suc q + i < length l' \<and> re_term (l' ! (Suc q + i)) = re_term (es' ! i)"
      using Cons.prems by (metis Suc_less_eq add_Suc_shift length_Cons nth_Cons_Suc)
    then have "merge_log (Suc q) l' es' = l'" by (rule Cons.IH)
    moreover have "q < length l' \<and> re_term (l' ! q) = re_term e"
      using Cons.prems [rule_format, of 0] by simp
    ultimately show ?case by simp
  qed simp
  with t show ?thesis by blast
qed

section \<open>The loop of \<open>handle_append\<close>\<close>

lemma append_loop_full:
  assumes "length (r_log r) = RAFT_MAX_LOG" and "RAFT_MAX_LOG \<le> p" and "p + length es < 2 ^ 64"
  shows "append_loop r (word_of_nat (Suc p)) es = r"
  using assms(2,3)
proof (induction es arbitrary: p)
  case (Cons e es)
  have u: "unat (word_of_nat (Suc p) :: u64) = Suc p" using Cons.prems(2) by (intro unat_of_nat_u64) simp
  have v: "unat (word_of_nat p :: u64) = p" using Cons.prems(2) by (intro unat_of_nat_u64) simp
  have "\<not> word_of_nat (Suc p) \<le> last_log_index r"
    using u Cons.prems(1) assms(1)
    by (simp only: word_le_nat_alt) (simp add: last_log_index_def unat_of_nat_u64 RAFT_MAX_LOG_def)
  moreover have "write_entry r (word_of_nat (Suc p)) e = r"
    using v Cons.prems(1) by (simp add: write_entry_def)
  moreover have "append_loop r (word_of_nat (Suc (Suc p))) es = r"
    using Cons.IH [of "Suc p"] Cons.prems by simp
  ultimately show ?case by (simp add: add.commute add.left_commute)
qed simp

lemma append_loop_merge:
  assumes "log_wf (r_log r)" and "p \<le> length (r_log r)"
    and "\<forall>e \<in> set es. length (re_data e) \<le> RAFT_ENTRY_MAX" and "p + length es < 2 ^ 64"
  shows "append_loop r (word_of_nat (Suc p)) es = r\<lparr>r_log := merge_log p (r_log r) es\<rparr>"
  using assms
proof (induction es arbitrary: p r)
  case (Cons e es)
  let ?i = "word_of_nat (Suc p) :: u64"
  have next_i: "?i + 1 = word_of_nat (Suc (Suc p))" by simp
  have len: "length (r_log r) \<le> 512" using Cons.prems(1) by (rule log_wf_len)
  have u: "unat ?i = Suc p" using len Cons.prems(2) by (intro unat_of_nat_u64) simp
  have v: "unat (?i - 1) = p" using len Cons.prems(2) by (simp add: unat_of_nat_u64)
  have le: "?i \<le> last_log_index r \<longleftrightarrow> p < length (r_log r)"
    unfolding word_le_nat_alt u unat_last_log_index [OF Cons.prems(1)] by auto
  let ?e = "e\<lparr>re_index := ?i\<rparr>"
  have w: "write_entry (r\<lparr>r_log := take p (r_log r)\<rparr>) ?i e = r\<lparr>r_log := take p (r_log r) @ [?e]\<rparr>"
    if "p < RAFT_MAX_LOG" unfolding write_entry_def v using that by simp
  show ?case
  proof (cases "p < length (r_log r) \<and> re_term (r_log r ! p) = re_term e")
    case True
    have "append_loop r ?i (e # es) = append_loop r (word_of_nat (Suc (Suc p))) es"
      using True le term_at_nth [OF Cons.prems(1)] next_i by (simp del: of_nat_Suc)
    also have "\<dots> = r\<lparr>r_log := merge_log (Suc p) (r_log r) es\<rparr>"
      using True Cons.prems by (intro Cons.IH) auto
    finally show ?thesis using True by simp
  next
    case False
    show ?thesis
    proof (cases "p < RAFT_MAX_LOG")
      case p: True
      let ?r = "r\<lparr>r_log := take p (r_log r) @ [?e]\<rparr>"
      have "append_loop r ?i (e # es) = append_loop ?r (word_of_nat (Suc (Suc p))) es"
      proof (cases "p < length (r_log r)")
        case True
        then have "term_at r ?i \<noteq> re_term e" using False term_at_nth [OF Cons.prems(1) True] by simp
        with True le w [OF p] show ?thesis unfolding append_loop.simps v next_i by simp
      next
        case no: False
        then have "write_entry r ?i e = ?r"
          unfolding write_entry_def v using p Cons.prems(2) by simp
        with no le show ?thesis unfolding append_loop.simps next_i by simp
      qed
      also have "\<dots> = ?r\<lparr>r_log := merge_log (Suc p) (r_log ?r) es\<rparr>"
      proof (rule Cons.IH)
        show "log_wf (r_log ?r)"
          using Cons.prems(1-3) p by (simp add: log_wf_snoc log_wf_take del: of_nat_Suc)
      qed (use Cons.prems in \<open>simp_all del: of_nat_Suc\<close>)
      finally show ?thesis using False p by auto
    next
      case p: False
      then have full: "length (r_log r) = RAFT_MAX_LOG" "p = RAFT_MAX_LOG"
        using Cons.prems(1,2) by (auto simp: log_wf_def)
      have "append_loop r ?i (e # es) = r"
        using append_loop_full [OF full(1), of p "e # es"] full Cons.prems(4) by simp
      moreover have "merge_log p (r_log r) (e # es) = r_log r"
        using full by (intro merge_log_full [OF Cons.prems(1)]) simp
      ultimately show ?thesis by simp
    qed
  qed
qed simp

end
