(* ===== verification/Norn_Raft_Safety.thy ===== *)
theory Norn_Raft_Safety
  imports Norn_Raft_Log
begin

text \<open>
  What one node guarantees whatever the others send: the operations of the public
  interface as one step function, the invariant, votes and terms, the log of a leader,
  the commit rule and the order in which entries are applied.
\<close>

section \<open>The operations of a node\<close>

datatype raft_op =
  Op_recv u64 raft_msg | Op_tick u64 | Op_propose bytes | Op_add u64 raft_member_role bool
| Op_remove u64 | Op_promote u64 | Op_set_eligible u64 bool

fun raft_do :: "raft \<Rightarrow> raft_op \<Rightarrow> raft_out" where
  "raft_do r (Op_recv from m) = raft_recv r from m"
| "raft_do r (Op_tick t) = raft_tick r t"
| "raft_do r (Op_propose d) = snd (raft_propose r d)"
| "raft_do r (Op_add i role el) = (snd (raft_add_member r i role el), [])"
| "raft_do r (Op_remove i) = (snd (raft_remove_member r i), [])"
| "raft_do r (Op_promote i) = (snd (raft_promote r i), [])"
| "raft_do r (Op_set_eligible i el) = (snd (raft_set_eligible r i el), [])"

fun raft_run :: "raft \<Rightarrow> raft_op list \<Rightarrow> raft_out" where
  "raft_run r [] = (r, [])"
| "raft_run r (op # ops) = andthen (raft_do r op) (\<lambda>r'. raft_run r' ops)"

fun op_wf :: "raft_op \<Rightarrow> bool" where
  "op_wf (Op_recv from m) = msg_wf m"
| "op_wf _ = True"

definition mids :: "raft \<Rightarrow> u64 list" where
  "mids r = map mb_id (r_members r)"

definition raft_wf :: "raft \<Rightarrow> bool" where
  "raft_wf r \<longleftrightarrow> log_wf (r_log r) \<and> r_commit r \<le> r_applied r \<and>
     distinct (mids r) \<and> 0 \<notin> set (mids r) \<and> length (mids r) \<le> RAFT_MAX_NODES"

text \<open>The calls to the \<open>apply\<close> callback, and the votes granted, among the effects.\<close>

fun applies :: "raft_effect list \<Rightarrow> raft_entry list" where
  "applies [] = []"
| "applies (Apply e # es) = e # applies es"
| "applies (Send d m # es) = applies es"

fun grants :: "raft_effect list \<Rightarrow> (u64 \<times> u64) list" where
  "grants [] = []"
| "grants (Apply e # es) = grants es"
| "grants (Send d m # es) =
     (if m_type m = RAFT_MSG_REQUEST_VOTE_RESP \<and> m_pre_vote m = 0 \<and> m_vote_granted m \<noteq> 0
      then (m_term m, d) # grants es else grants es)"

section \<open>Effects of the helpers\<close>

lemma andthen_simps [simp]:
  "fst (andthen x f) = fst (f (fst x))" "snd (andthen x f) = snd x @ snd (f (fst x))"
  by (simp_all add: andthen_def split: prod.split)

lemma applies_append [simp]: "applies (xs @ ys) = applies xs @ applies ys"
  by (induction xs rule: applies.induct) simp_all

lemma grants_append [simp]: "grants (xs @ ys) = grants xs @ grants ys"
  by (induction xs rule: grants.induct) simp_all

lemma effects_concat:
  "(\<And>x. x \<in> set xs \<Longrightarrow> applies (f x) = []) \<Longrightarrow> applies (concat (map f xs)) = []"
  "(\<And>x. x \<in> set xs \<Longrightarrow> grants (f x) = []) \<Longrightarrow> grants (concat (map f xs)) = []"
  by (induction xs) simp_all

lemma effects_send [simp]:
  "applies (send_to r d m) = []"
  "grants (send_to r d m) =
     (if r_io_send r \<and> m_type m = RAFT_MSG_REQUEST_VOTE_RESP \<and> m_pre_vote m = 0 \<and> m_vote_granted m \<noteq> 0
      then [(m_term m, d)] else [])"
  by (simp_all add: send_to_def)

lemma effects_broadcast [simp]:
  "applies (broadcast_vote r p t) = []" "grants (broadcast_vote r p t) = []"
  "applies (send_append r mm) = []" "grants (send_append r mm) = []"
  "applies (broadcast_append r) = []" "grants (broadcast_append r) = []"
  by (auto simp: broadcast_vote_def broadcast_append_def send_append_def Let_def msg_zero_def intro!: effects_concat)

lemma effects_apply [simp]:
  "grants (snd (apply_committed r)) = []"
  "applies (snd (apply_committed r)) =
     (if r_io_apply r then filter normal (map ((!) (r_log r)) [unat (r_applied r)..<unat (r_commit r)]) else [])"
proof -
  have "grants (map Apply es) = []" "applies (map Apply es) = es" for es by (induction es) simp_all
  then show "grants (snd (apply_committed r)) = []"
    "applies (snd (apply_committed r)) =
       (if r_io_apply r then filter normal (map ((!) (r_log r)) [unat (r_applied r)..<unat (r_commit r)]) else [])"
    by (simp_all add: apply_committed_closed)
qed

lemma effects_become_leader [simp]:
  "applies (snd (become_leader r)) = []" "grants (snd (become_leader r)) = []"
  by (simp_all add: become_leader_def Let_def)

section \<open>The state after the helpers\<close>

lemma mids_upd [simp]:
  "mids (r\<lparr>r_role := a\<rparr>) = mids r" "mids (r\<lparr>r_leader := b\<rparr>) = mids r" "mids (r\<lparr>r_term := t\<rparr>) = mids r"
  "mids (r\<lparr>r_voted_for := b\<rparr>) = mids r" "mids (r\<lparr>r_log := l\<rparr>) = mids r" "mids (r\<lparr>r_commit := t\<rparr>) = mids r"
  "mids (r\<lparr>r_applied := t\<rparr>) = mids r" "mids (r\<lparr>r_now := t\<rparr>) = mids r"
  "mids (r\<lparr>r_election_elapsed := t\<rparr>) = mids r" "mids (r\<lparr>r_heartbeat_elapsed := t\<rparr>) = mids r"
  "mids (r\<lparr>r_in_pre_vote := p\<rparr>) = mids r" "mids (r\<lparr>r_fault := x\<rparr>) = mids r"
  by (simp_all add: mids_def)

lemma mids_set_member:
  assumes "\<And>m. mb_id (f m) = mb_id m" shows "mids (set_member r i f) = mids r"
proof -
  have "map mb_id (ms[i := f (ms ! i)]) = map mb_id ms" for ms
    by (cases "i < length ms") (auto simp: map_update assms list_update_same_conv list_update_beyond)
  then show ?thesis by (simp add: mids_def set_member_def)
qed

lemma mids_set_self: "(\<And>m. mb_id (f m) = mb_id m) \<Longrightarrow> mids (set_self f r) = mids r"
  by (simp add: set_self_def mids_set_member split: option.split)

lemma mids_helpers [simp]:
  "mids (reset_votes r) = mids r" "mids (become_follower r t l) = mids r"
  "mids (append_own ty d r) = mids r" "mids (fst (become_leader r)) = mids r"
  "mids (fst (apply_committed r)) = mids r" "mids (advance_loop r idx) = mids r"
  "mids (append_loop r idx es) = mids r"
      apply (simp add: reset_votes_def mids_def comp_def)
     apply (simp add: mids_def)
    apply (simp add: append_own_def Let_def mids_set_self)
   apply (simp add: become_leader_def Let_def append_own_def mids_set_self)
   apply (simp add: mids_def comp_def)
  apply (simp_all add: mids_def)
  done

lemma find_member_self_iff: "find_member r i = None \<longleftrightarrow> i \<notin> set (mids r)"
  by (auto simp: find_member_def mids_def)

lemma set_self_fault: "r_self r \<in> set (mids r) \<Longrightarrow> r_fault (set_self f r) = r_fault r"
  using find_member_self_iff [of r "r_self r"] by (auto simp: set_self_def split: option.split)

lemma append_own_log [simp]:
  "r_log (append_own ty d r) =
     r_log r @ [\<lparr>re_term = r_term r, re_index = last_log_index r + 1, re_type = ty, re_data = d\<rparr>]"
  by (simp add: append_own_def Let_def)

lemma become_leader_simps [simp]:
  "r_role (fst (become_leader r)) = RAFT_LEADER" "r_in_pre_vote (fst (become_leader r)) = 0"
  "r_log (fst (become_leader r)) =
     (if length (r_log r) < RAFT_MAX_LOG
      then r_log r @ [\<lparr>re_term = r_term r, re_index = last_log_index r + 1, re_type = RAFT_ENTRY_NOOP, re_data = []\<rparr>]
      else r_log r)"
  by (simp_all add: become_leader_def Let_def last_log_index_def)

lemma become_follower_simps [simp]:
  "r_role (become_follower r t l) = RAFT_FOLLOWER" "r_in_pre_vote (become_follower r t l) = 0"
  "r_term (become_follower r t l) = max t (r_term r)"
  "r_voted_for (become_follower r t l) = (if t > r_term r then RAFT_NO_NODE else r_voted_for r)"
  by (auto simp: become_follower_def Let_def max_def)

section \<open>Terms and votes\<close>

definition vote_step :: "raft \<Rightarrow> raft_out \<Rightarrow> bool" where
  "vote_step r x \<longleftrightarrow> r_term r \<le> r_term (fst x) \<and>
     (r_term (fst x) = r_term r \<and> r_voted_for r \<noteq> RAFT_NO_NODE \<longrightarrow> r_voted_for (fst x) = r_voted_for r) \<and>
     (\<forall>(t, c) \<in> set (grants (snd x)). t = r_term (fst x) \<and> c = r_voted_for (fst x))"

lemma word_le_Suc: "t \<noteq> - 1 \<Longrightarrow> t < t + 1" for t :: "'w::len word"
proof -
  assume "t \<noteq> - 1"
  then have "t < - 1" by (simp add: order.not_eq_order_implies_strict)
  then have "unat (t + 1) = Suc (unat t)" by (intro unat_Suc_less) (simp add: word_less_nat_alt)
  then show ?thesis by (simp add: word_less_nat_alt)
qed

lemma advance_commit_votes [simp]:
  "r_term (fst (advance_commit r)) = r_term r" "r_voted_for (fst (advance_commit r)) = r_voted_for r"
  "r_role (fst (advance_commit r)) = r_role r" "r_self (fst (advance_commit r)) = r_self r"
  "r_in_pre_vote (fst (advance_commit r)) = r_in_pre_vote r" "r_log (fst (advance_commit r)) = r_log r"
  "mids (fst (advance_commit r)) = mids r" "r_fault (fst (advance_commit r)) = r_fault r"
  "r_members (fst (advance_commit r)) = r_members r" "r_cfg (fst (advance_commit r)) = r_cfg r"
  "r_io_apply (fst (advance_commit r)) = r_io_apply r"
  "grants (snd (advance_commit r)) = []"
  by (simp_all add: advance_commit_def)

lemma request_vote_votes: "vote_step r (handle_request_vote r m)"
  by (auto simp: vote_step_def handle_request_vote_def Let_def msg_zero_def RAFT_NO_NODE_def)

lemma vote_resp_votes:
  "r_term r \<noteq> - 1 \<Longrightarrow> vote_step r (handle_request_vote_resp r m)"
  using word_le_Suc [of "r_term r"]
  by (auto simp: vote_step_def handle_request_vote_resp_def Let_def)

lemma accept_leader_simps [simp]:
  "r_role (accept_leader r m) = RAFT_FOLLOWER" "r_in_pre_vote (accept_leader r m) = 0"
  "r_term (accept_leader r m) = m_term m" "mids (accept_leader r m) = mids r"
  "r_voted_for (accept_leader r m) = (if m_term m > r_term r then RAFT_NO_NODE else r_voted_for r)"
  "last_log_index (accept_leader r m) = last_log_index r" "term_at (accept_leader r m) i = term_at r i"
  by (simp_all add: accept_leader_def term_at_def last_log_index_def)

lemma handle_append_cases:
  obtains (stale) d a where "m_term m < r_term r" and "handle_append r m = (r, send_to r d a)"
      and "m_type a = RAFT_MSG_APPEND_RESP"
  | (mismatch) d a where "\<not> m_term m < r_term r"
      and "m_prev_log_index m > last_log_index r \<or> term_at r (m_prev_log_index m) \<noteq> m_prev_log_term m"
      and "handle_append r m = (accept_leader r m, send_to (accept_leader r m) d a)"
      and "m_type a = RAFT_MSG_APPEND_RESP"
  | (accept) c r2 d a where "\<not> m_term m < r_term r"
      and "m_prev_log_index m \<le> last_log_index r" and "term_at r (m_prev_log_index m) = m_prev_log_term m"
      and "r2 = append_loop (accept_leader r m) (m_prev_log_index m + 1) (m_entries m)"
      and "fst (handle_append r m) = fst (apply_committed (r2\<lparr>r_commit := c\<rparr>)) \<and>
           m_leader_commit m > r_commit r \<and> c = min (m_leader_commit m) (last_log_index r2) \<and>
           snd (handle_append r m) = snd (apply_committed (r2\<lparr>r_commit := c\<rparr>)) @
             send_to (fst (apply_committed (r2\<lparr>r_commit := c\<rparr>))) d a \<or>
           handle_append r m = (r2, send_to r2 d a) \<and> \<not> m_leader_commit m > r_commit r"
      and "m_type a = RAFT_MSG_APPEND_RESP" and "m_success a = 1"
      and "m_match_index a = m_prev_log_index m + word_of_nat (length (m_entries m))"
proof (cases "m_term m < r_term r")
  case True
  then show thesis
    by (intro stale [of "m_leader_id m" "(msg_zero RAFT_MSG_APPEND_RESP)\<lparr>m_term := r_term r, m_success := 0\<rparr>"])
      (simp_all add: handle_append_def msg_zero_def)
next
  case False
  show thesis
  proof (cases "m_prev_log_index m > last_log_index r \<or> term_at r (m_prev_log_index m) \<noteq> m_prev_log_term m")
    case True
    with False show thesis by (intro mismatch) (auto simp: handle_append_def Let_def msg_zero_def)
  next
    case match: False
    let ?r2 = "append_loop (accept_leader r m) (m_prev_log_index m + 1) (m_entries m)"
    let ?a = "(msg_zero RAFT_MSG_APPEND_RESP)\<lparr>m_term := m_term m, m_success := 1,
        m_match_index := m_prev_log_index m + word_of_nat (length (m_entries m))\<rparr>"
    show thesis
      by (rule accept [OF False, of ?r2 "min (m_leader_commit m) (last_log_index ?r2)" "m_leader_id m" ?a])
        (use False match in \<open>auto simp: handle_append_def Let_def msg_zero_def andthen_def split: prod.split\<close>)
  qed
qed

lemma append_votes: "vote_step r (handle_append r m)"
proof (cases rule: handle_append_cases [where r = r and m = m])
  case (accept c r2 d a)
  from this(5) show ?thesis
  proof (elim disjE conjE)
    assume "fst (handle_append r m) = fst (apply_committed (r2\<lparr>r_commit := c\<rparr>))"
      "snd (handle_append r m) = snd (apply_committed (r2\<lparr>r_commit := c\<rparr>)) @
         send_to (fst (apply_committed (r2\<lparr>r_commit := c\<rparr>))) d a"
    with accept(1,4,6) show ?thesis by (auto simp: vote_step_def)
  qed (use accept(1,4,6) in \<open>auto simp: vote_step_def\<close>)
qed (auto simp: vote_step_def)

lemma append_resp_votes: "vote_step r (handle_append_resp r from m)"
  by (auto simp: vote_step_def handle_append_resp_def Let_def split: option.split)

lemma start_election_votes: "r_term r \<noteq> - 1 \<Longrightarrow> vote_step r (start_election r)"
  using word_le_Suc [of "r_term r"] by (auto simp: vote_step_def start_election_def Let_def)

lemma recv_votes: "r_term r \<noteq> - 1 \<Longrightarrow> vote_step r (raft_recv r from m)"
  using vote_resp_votes [of "set_member r i f" m for i f] vote_resp_votes [of r m]
    request_vote_votes [of r m] append_votes [of r m] append_resp_votes [of r "from" m]
  by (auto simp: raft_recv_def Let_def vote_step_def split: raft_msg_type.split option.split)

text \<open>\<open>raft_tick\<close> first moves the clock, which changes only the timers.\<close>

definition timed :: "u64 \<Rightarrow> u64 \<Rightarrow> u64 \<Rightarrow> bool \<Rightarrow> raft \<Rightarrow> raft" where
  "timed n ee he f r = r\<lparr>r_now := n, r_election_elapsed := ee, r_heartbeat_elapsed := he, r_fault := f\<rparr>"

lemma timed_frame [simp]:
  "r_self (timed n ee he f r) = r_self r"
  "r_io_send (timed n ee he f r) = r_io_send r"
  "r_io_apply (timed n ee he f r) = r_io_apply r"
  "r_cfg (timed n ee he f r) = r_cfg r"
  "r_term (timed n ee he f r) = r_term r"
  "r_voted_for (timed n ee he f r) = r_voted_for r"
  "r_log (timed n ee he f r) = r_log r"
  "r_role (timed n ee he f r) = r_role r"
  "r_leader (timed n ee he f r) = r_leader r"
  "r_commit (timed n ee he f r) = r_commit r"
  "r_applied (timed n ee he f r) = r_applied r"
  "r_in_pre_vote (timed n ee he f r) = r_in_pre_vote r"
  "r_members (timed n ee he f r) = r_members r"
  "mids (timed n ee he f r) = mids r"
  "r_fault (timed n ee he f r) = f"
  by (simp_all add: timed_def)

lemma tick_cases:
  obtains (lead) n ee he es where "r_role r = RAFT_LEADER" and "raft_tick r t = (timed n ee he (r_fault r) r, es)"
      and "applies es = []" and "grants es = []"
  | (quiet) n ee he f where "r_role r \<noteq> RAFT_LEADER" and "raft_tick r t = apply_committed (timed n ee he f r)"
      and "f = (r_fault r \<or> election_spread_ms (r_cfg r) + 1 = 0)"
  | (elect) n ee he f where "r_role r \<noteq> RAFT_LEADER"
      and "raft_tick r t = andthen (start_election (timed n ee he f r)) apply_committed"
      and "f = (r_fault r \<or> election_spread_ms (r_cfg r) + 1 = 0)"
proof -
  let ?dt = "if t > r_now r then t - r_now r else 0"
  let ?ee = "r_election_elapsed r + ?dt" and ?he = "r_heartbeat_elapsed r + ?dt"
  let ?f = "r_fault r \<or> election_spread_ms (r_cfg r) + 1 = 0"
  have andthen_pure: "andthen (x, []) g = g x" for x g by (simp add: andthen_def split: prod.split)
  have eq: "r\<lparr>r_now := t, r_election_elapsed := e, r_heartbeat_elapsed := h\<rparr> = timed t e h (r_fault r) r" for e h
    by (simp add: timed_def)
  show thesis
  proof (cases "r_role r = RAFT_LEADER")
    case True
    show thesis
    proof (cases "?he \<ge> ucast (heartbeat_ms (r_cfg r))")
      case he: True
      show thesis
        by (rule lead [OF True, of t 0 0 "broadcast_append (timed t 0 0 (r_fault r) r)"])
          (use True he in \<open>simp_all add: raft_tick_def Let_def timed_def\<close>)
    next
      case he: False
      show thesis
        by (rule lead [OF True, of t 0 ?he "[]"]) (use True he in \<open>simp_all add: raft_tick_def Let_def timed_def\<close>)
    qed
  next
    case False
    show thesis
    proof (cases "?ee \<ge> ucast (election_timeout (timed t ?ee ?he ?f r))")
      case True
      show thesis
        by (rule elect [OF False, of t ?ee ?he]) (use False True in \<open>simp_all add: raft_tick_def Let_def timed_def\<close>)
    next
      case ee: False
      show thesis
        by (rule quiet [OF False, of t ?ee ?he])
          (use False ee in \<open>simp_all add: raft_tick_def Let_def timed_def andthen_pure\<close>)
    qed
  qed
qed

lemma tick_votes: "r_term r \<noteq> - 1 \<Longrightarrow> vote_step r (raft_tick r t)"
proof -
  assume t: "r_term r \<noteq> - 1"
  show ?thesis
  proof (cases rule: tick_cases [where r = r and t = t])
    case (elect n ee he f)
    then show ?thesis using start_election_votes [of "timed n ee he f r"] t by (auto simp: vote_step_def)
  qed (auto simp: vote_step_def)
qed

lemma membership_frame [simp]:
  "r_term (snd (raft_add_member r i role el)) = r_term r"
  "r_voted_for (snd (raft_add_member r i role el)) = r_voted_for r"
  "r_log (snd (raft_add_member r i role el)) = r_log r"
  "r_role (snd (raft_add_member r i role el)) = r_role r"
  "r_self (snd (raft_add_member r i role el)) = r_self r"
  "r_commit (snd (raft_add_member r i role el)) = r_commit r"
  "r_applied (snd (raft_add_member r i role el)) = r_applied r"
  "r_fault (snd (raft_add_member r i role el)) = r_fault r"
  "r_term (snd (raft_remove_member r i)) = r_term r"
  "r_voted_for (snd (raft_remove_member r i)) = r_voted_for r"
  "r_log (snd (raft_remove_member r i)) = r_log r"
  "r_role (snd (raft_remove_member r i)) = r_role r"
  "r_self (snd (raft_remove_member r i)) = r_self r"
  "r_commit (snd (raft_remove_member r i)) = r_commit r"
  "r_applied (snd (raft_remove_member r i)) = r_applied r"
  "r_fault (snd (raft_remove_member r i)) = r_fault r"
  "r_term (snd (raft_promote r i)) = r_term r"
  "r_voted_for (snd (raft_promote r i)) = r_voted_for r"
  "r_log (snd (raft_promote r i)) = r_log r"
  "r_role (snd (raft_promote r i)) = r_role r"
  "r_self (snd (raft_promote r i)) = r_self r"
  "r_commit (snd (raft_promote r i)) = r_commit r"
  "r_applied (snd (raft_promote r i)) = r_applied r"
  "r_fault (snd (raft_promote r i)) = r_fault r"
  "r_term (snd (raft_set_eligible r i el)) = r_term r"
  "r_voted_for (snd (raft_set_eligible r i el)) = r_voted_for r"
  "r_log (snd (raft_set_eligible r i el)) = r_log r"
  "r_role (snd (raft_set_eligible r i el)) = r_role r"
  "r_self (snd (raft_set_eligible r i el)) = r_self r"
  "r_commit (snd (raft_set_eligible r i el)) = r_commit r"
  "r_applied (snd (raft_set_eligible r i el)) = r_applied r"
  "r_fault (snd (raft_set_eligible r i el)) = r_fault r"
  by (simp_all add: raft_add_member_def raft_remove_member_def raft_promote_def raft_set_eligible_def
      split: option.split)

lemma membership_cfg [simp]:
  "r_in_pre_vote (snd (raft_add_member r i role el)) = r_in_pre_vote r"
  "r_cfg (snd (raft_add_member r i role el)) = r_cfg r"
  "r_io_apply (snd (raft_add_member r i role el)) = r_io_apply r"
  "r_in_pre_vote (snd (raft_remove_member r i)) = r_in_pre_vote r"
  "r_cfg (snd (raft_remove_member r i)) = r_cfg r"
  "r_io_apply (snd (raft_remove_member r i)) = r_io_apply r"
  "r_in_pre_vote (snd (raft_promote r i)) = r_in_pre_vote r"
  "r_cfg (snd (raft_promote r i)) = r_cfg r"
  "r_io_apply (snd (raft_promote r i)) = r_io_apply r"
  "r_in_pre_vote (snd (raft_set_eligible r i el)) = r_in_pre_vote r"
  "r_cfg (snd (raft_set_eligible r i el)) = r_cfg r"
  "r_io_apply (snd (raft_set_eligible r i el)) = r_io_apply r"
  by (simp_all add: raft_add_member_def raft_remove_member_def raft_promote_def raft_set_eligible_def
      split: option.split)

lemma do_votes: "r_term r \<noteq> - 1 \<Longrightarrow> vote_step r (raft_do r op)"
  using recv_votes tick_votes
  by (cases op) (auto simp: vote_step_def raft_propose_def Let_def)

text \<open>A node's term grows by at most one per operation, or to the term of a message.\<close>

fun op_term :: "raft_op \<Rightarrow> nat" where
  "op_term (Op_recv from m) = unat (m_term m)"
| "op_term _ = 0"

lemma unat_Suc_le: "unat (t + 1) \<le> Suc (unat t)" for t :: "'w::len word"
proof (cases "t = - 1")
  case False
  then have "t < - 1" by (simp add: order.not_eq_order_implies_strict)
  then show ?thesis using unat_Suc_less [of t "- 1"] by (simp add: word_less_nat_alt)
qed simp

lemma unat_max: "unat (max a b) = max (unat a) (unat b)"
  by (simp add: max_def word_le_nat_alt)

lemma start_election_term: "unat (r_term (fst (start_election r))) \<le> Suc (unat (r_term r))"
  by (simp add: start_election_def Let_def unat_Suc_le)

lemma handlers_term:
  "unat (r_term (fst (handle_request_vote r m))) \<le> max (unat (r_term r)) (unat (m_term m))"
  "unat (r_term (fst (handle_request_vote_resp r m))) \<le> max (Suc (unat (r_term r))) (unat (m_term m))"
  "unat (r_term (fst (handle_append r m))) \<le> max (unat (r_term r)) (unat (m_term m))"
  "unat (r_term (fst (handle_append_resp r from m))) \<le> max (unat (r_term r)) (unat (m_term m))"
  using unat_Suc_le [of "r_term r"]
  by (auto simp: handle_request_vote_def handle_request_vote_resp_def handle_append_def
      handle_append_resp_def Let_def unat_max le_max_iff_disj split: option.split)

lemma do_term: "unat (r_term (fst (raft_do r op))) \<le> max (Suc (unat (r_term r))) (op_term op)"
proof (cases op)
  case (Op_recv "from" m)
  have "unat (r_term (fst (raft_recv r from m))) \<le> max (Suc (unat (r_term r))) (unat (m_term m))"
    using handlers_term(1-3) [of r m] handlers_term(4) [of r "from" m]
      handlers_term(2) [of "set_member r i f" m for i f]
    by (auto simp: raft_recv_def Let_def le_max_iff_disj split: raft_msg_type.split option.split)
  with Op_recv show ?thesis by simp
next
  case (Op_tick t)
  then show ?thesis
  proof (cases rule: tick_cases [where r = r and t = t])
    case (elect n ee he f)
    then show ?thesis using start_election_term [of "timed n ee he f r"] Op_tick by simp
  qed (simp_all add: Op_tick)
qed (auto simp: raft_propose_def Let_def)

definition terms_bounded :: "raft \<Rightarrow> raft_op list \<Rightarrow> bool" where
  "terms_bounded r ops \<longleftrightarrow> unat (r_term r) + length ops < 2 ^ 64 - 1 \<and>
     (\<forall>op \<in> set ops. op_term op + length ops < 2 ^ 64 - 1)"

lemma terms_bounded_Cons:
  assumes "terms_bounded r (op # ops)"
  shows "r_term r \<noteq> - 1" and "terms_bounded (fst (raft_do r op)) ops"
proof -
  have "unat (- 1 :: u64) = 2 ^ 64 - 1" by (simp add: unsigned_minus_1_eq_mask mask_eq_exp_minus_1)
  then show "r_term r \<noteq> - 1" using assms by (auto simp: terms_bounded_def)
  show "terms_bounded (fst (raft_do r op)) ops"
    using assms do_term [of r op] by (auto simp: terms_bounded_def)
qed

lemma run_votes:
  assumes "terms_bounded r ops" and "(t, c) \<in> set (grants (snd (raft_run r ops)))"
  shows "r_term r \<le> t" and "t = r_term r \<Longrightarrow> r_voted_for r \<noteq> RAFT_NO_NODE \<Longrightarrow> c = r_voted_for r"
proof -
  have "r_term r \<le> t \<and> (t = r_term r \<longrightarrow> r_voted_for r \<noteq> RAFT_NO_NODE \<longrightarrow> c = r_voted_for r)"
    using assms
  proof (induction ops arbitrary: r)
    case (Cons op ops)
    note b = terms_bounded_Cons [OF Cons.prems(1)]
    let ?r = "fst (raft_do r op)"
    have v: "r_term r \<le> r_term ?r"
      "r_term ?r = r_term r \<Longrightarrow> r_voted_for r \<noteq> RAFT_NO_NODE \<Longrightarrow> r_voted_for ?r = r_voted_for r"
      "(t, c) \<in> set (grants (snd (raft_do r op))) \<Longrightarrow> t = r_term ?r \<and> c = r_voted_for ?r"
      using do_votes [OF b(1), of op] by (auto simp: vote_step_def)
    consider "(t, c) \<in> set (grants (snd (raft_do r op)))" | "(t, c) \<in> set (grants (snd (raft_run ?r ops)))"
      using Cons.prems(2) by auto
    then show ?case
    proof cases
      case 1
      then show ?thesis using v by auto
    next
      case 2
      from Cons.IH [OF b(2) this] v(1,2) show ?thesis by (metis order.trans order.antisym)
    qed
  qed simp
  then show "r_term r \<le> t" "t = r_term r \<Longrightarrow> r_voted_for r \<noteq> RAFT_NO_NODE \<Longrightarrow> c = r_voted_for r"
    by blast+
qed

lemma run_one_vote:
  assumes "terms_bounded r ops" and "(t, c) \<in> set (grants (snd (raft_run r ops)))"
    and "(t, c') \<in> set (grants (snd (raft_run r ops)))" and "c \<noteq> RAFT_NO_NODE" and "c' \<noteq> RAFT_NO_NODE"
  shows "c = c'"
  using assms(1-3)
proof (induction ops arbitrary: r)
  case (Cons op ops)
  note b = terms_bounded_Cons [OF Cons.prems(1)]
  let ?r = "fst (raft_do r op)" and ?V = "\<lambda>c. (t, c) \<in> set (grants (snd (raft_do r op)))"
  let ?W = "\<lambda>c. (t, c) \<in> set (grants (snd (raft_run (fst (raft_do r op)) ops)))"
  have v: "t = r_term ?r \<and> x = r_voted_for ?r" if "?V x" for x
    using do_votes [OF b(1), of op] that by (auto simp: vote_step_def)
  have w: "x = r_voted_for ?r" if "?W x" "t = r_term ?r" "r_voted_for ?r \<noteq> RAFT_NO_NODE" for x
    using run_votes(2) [OF b(2) that] .
  have "?V c \<or> ?W c" "?V c' \<or> ?W c'" using Cons.prems(2,3) by auto
  then show ?case
  proof (elim disjE)
    assume "?W c" "?W c'"
    then show ?thesis by (rule Cons.IH [OF b(2)])
  next
    assume "?V c" "?W c'"
    with v [of c] w [of c'] assms(4) show ?thesis by simp
  next
    assume "?W c" "?V c'"
    with v [of c'] w [of c] assms(5) show ?thesis by simp
  qed (use v [of c] v [of c'] in simp)
qed simp

section \<open>The invariant\<close>

lemma unat_last_next: "log_wf (r_log r) \<Longrightarrow> last_log_index r + 1 = word_of_nat (Suc (length (r_log r)))"
  by (simp add: last_log_index_def)

lemma log_wf_own:
  assumes "log_wf (r_log r)" and "length (r_log r) < RAFT_MAX_LOG" and "length d \<le> RAFT_ENTRY_MAX"
  shows "log_wf (r_log r @ [\<lparr>re_term = r_term r, re_index = last_log_index r + 1, re_type = ty, re_data = d\<rparr>])"
  using assms by (intro log_wf_snoc) (simp_all add: last_log_index_def)

text \<open>The log an AppendEntries message leaves.\<close>

lemma handle_append_log:
  assumes "log_wf (r_log r)" and "msg_wf m"
  shows "r_log (fst (handle_append r m)) =
    (if m_term m < r_term r \<or> unat (m_prev_log_index m) > length (r_log r) \<or>
        term_at r (m_prev_log_index m) \<noteq> m_prev_log_term m
     then r_log r else merge_log (unat (m_prev_log_index m)) (r_log r) (m_entries m))"
proof -
  let ?p = "unat (m_prev_log_index m)"
  have gt: "m_prev_log_index m > last_log_index r \<longleftrightarrow> ?p > length (r_log r)"
    by (simp add: word_less_nat_alt unat_last_log_index [OF assms(1)])
  have "r_log (append_loop (accept_leader r m) (m_prev_log_index m + 1) (m_entries m)) =
      merge_log ?p (r_log r) (m_entries m)" if "?p \<le> length (r_log r)"
    using append_loop_merge [of "accept_leader r m" ?p "m_entries m"] assms that log_wf_len [OF assms(1)]
    by (simp add: msg_wf_def add.commute)
  then show ?thesis by (auto simp: handle_append_def Let_def gt)
qed

lemma handle_append_log_wf:
  "log_wf (r_log r) \<Longrightarrow> msg_wf m \<Longrightarrow> log_wf (r_log (fst (handle_append r m)))"
  using merge_log_wf [of "r_log r" "unat (m_prev_log_index m)" "m_entries m"]
  by (auto simp: handle_append_log msg_wf_def)

lemma start_election_log:
  assumes "log_wf (r_log r)"
  shows "log_wf (r_log (fst (start_election r)))" and "\<exists>t. r_log (fst (start_election r)) = r_log r @ t"
  using log_wf_own [OF assms, of "[]" RAFT_ENTRY_NOOP] log_wf_own [of "r\<lparr>r_term := r_term r + 1\<rparr>" "[]" RAFT_ENTRY_NOOP] assms
  by (auto simp: start_election_def Let_def last_log_index_def)

lemma start_election_frame [simp]:
  "mids (fst (start_election r)) = mids r" "r_self (fst (start_election r)) = r_self r"
  "r_cfg (fst (start_election r)) = r_cfg r" "r_io_apply (fst (start_election r)) = r_io_apply r"
  "r_commit (fst (start_election r)) = r_commit r" "r_applied (fst (start_election r)) = r_applied r"
  "applies (snd (start_election r)) = []"
  by (simp_all add: start_election_def Let_def mids_set_self)

lemma vote_resp_frame [simp]:
  "mids (fst (handle_request_vote_resp r m)) = mids r" "r_self (fst (handle_request_vote_resp r m)) = r_self r"
  "r_cfg (fst (handle_request_vote_resp r m)) = r_cfg r" "r_io_apply (fst (handle_request_vote_resp r m)) = r_io_apply r"
  "r_commit (fst (handle_request_vote_resp r m)) = r_commit r"
  "r_applied (fst (handle_request_vote_resp r m)) = r_applied r"
  "applies (snd (handle_request_vote_resp r m)) = []"
  by (simp_all add: handle_request_vote_resp_def Let_def mids_set_self)

lemma vote_resp_log:
  assumes "log_wf (r_log r)"
  shows "log_wf (r_log (fst (handle_request_vote_resp r m)))"
    and "\<exists>t. r_log (fst (handle_request_vote_resp r m)) = r_log r @ t"
  using log_wf_own [OF assms, of "[]" RAFT_ENTRY_NOOP] assms
  by (auto simp: handle_request_vote_resp_def Let_def)

lemma request_vote_frame [simp]:
  "mids (fst (handle_request_vote r m)) = mids r" "r_self (fst (handle_request_vote r m)) = r_self r"
  "r_cfg (fst (handle_request_vote r m)) = r_cfg r" "r_io_apply (fst (handle_request_vote r m)) = r_io_apply r"
  "r_commit (fst (handle_request_vote r m)) = r_commit r" "r_log (fst (handle_request_vote r m)) = r_log r"
  "r_applied (fst (handle_request_vote r m)) = r_applied r" "r_fault (fst (handle_request_vote r m)) = r_fault r"
  "applies (snd (handle_request_vote r m)) = []"
  by (simp_all add: handle_request_vote_def Let_def)

lemma append_frame [simp]:
  "mids (fst (handle_append r m)) = mids r" "r_self (fst (handle_append r m)) = r_self r"
  "r_cfg (fst (handle_append r m)) = r_cfg r" "r_io_apply (fst (handle_append r m)) = r_io_apply r"
  "r_fault (fst (handle_append r m)) = r_fault r"
  by (simp_all add: handle_append_def Let_def)

lemma append_resp_frame [simp]:
  "mids (fst (handle_append_resp r from m)) = mids r" "r_self (fst (handle_append_resp r from m)) = r_self r"
  "r_cfg (fst (handle_append_resp r from m)) = r_cfg r"
  "r_io_apply (fst (handle_append_resp r from m)) = r_io_apply r"
  "r_fault (fst (handle_append_resp r from m)) = r_fault r"
  "r_log (fst (handle_append_resp r from m)) = r_log r"
  by (auto simp: handle_append_resp_def Let_def mids_set_member split: option.split)

text \<open>
  Applying: after every operation \<open>commit_index\<close> is at most \<open>last_applied\<close>, and the entries
  handed to the callback are the application entries of the log between the old and the
  new \<open>last_applied\<close>, in order.
\<close>

definition apply_step :: "raft \<Rightarrow> raft_out \<Rightarrow> bool" where
  "apply_step r x \<longleftrightarrow> r_commit (fst x) \<le> r_applied (fst x) \<and> r_applied r \<le> r_applied (fst x) \<and>
     (r_applied (fst x) = r_applied r \<or> unat (r_applied (fst x)) \<le> length (r_log (fst x))) \<and>
     applies (snd x) = (if r_io_apply r
       then filter normal (map ((!) (r_log (fst x))) [unat (r_applied r)..<unat (r_applied (fst x))]) else [])"

lemma apply_step_same:
  "r_commit r \<le> r_applied r \<Longrightarrow> r_commit (fst x) = r_commit r \<Longrightarrow> r_applied (fst x) = r_applied r \<Longrightarrow>
     applies (snd x) = [] \<Longrightarrow> apply_step r x"
  by (simp add: apply_step_def)

lemma apply_committed_step:
  assumes "r_io_apply r' = r_io_apply r" and "r_applied r' = r_applied r"
    and "r_commit r' \<le> r_applied r \<or> unat (r_commit r') \<le> length (r_log r')"
  shows "apply_step r (apply_committed r')"
  using assms
  by (cases "r_commit r' \<le> r_applied r") (auto simp: apply_step_def max_absorb1 max_absorb2 word_le_nat_alt)

lemma advance_commit_step:
  assumes "r_io_apply r' = r_io_apply r" and "r_applied r' = r_applied r" and "r_commit r' \<le> r_applied r"
    and "log_wf (r_log r')"
  shows "apply_step r (advance_commit r')"
proof -
  have "r_commit (advance_loop r' i) \<le> r_applied r \<or> r_commit (advance_loop r' i) \<le> i" for i
    using advance_loop_spec [of r' i] assms(3) by (auto simp: commit_point_def)
  then have "r_commit (advance_loop r' (last_log_index r')) \<le> r_applied r \<or>
      unat (r_commit (advance_loop r' (last_log_index r'))) \<le> length (r_log r')"
    by (metis unat_last_log_index [OF assms(4)] word_le_nat_alt)
  then show ?thesis unfolding advance_commit_def using assms by (intro apply_committed_step) simp_all
qed

lemma append_step:
  assumes "log_wf (r_log r)" and "msg_wf m" and "r_commit r \<le> r_applied r"
  shows "apply_step r (handle_append r m)"
proof (cases rule: handle_append_cases [where r = r and m = m])
  case (accept c r2 d a)
  from this(5) show ?thesis
  proof (elim disjE conjE)
    assume h: "fst (handle_append r m) = fst (apply_committed (r2\<lparr>r_commit := c\<rparr>))"
      "snd (handle_append r m) = snd (apply_committed (r2\<lparr>r_commit := c\<rparr>)) @
         send_to (fst (apply_committed (r2\<lparr>r_commit := c\<rparr>))) d a"
      and c: "c = min (m_leader_commit m) (last_log_index r2)"
    have "log_wf (r_log r2)" using handle_append_log_wf [OF assms(1,2)] by (simp add: h(1))
    then have "unat c \<le> length (r_log r2)"
      using c unat_last_log_index by (metis min.cobounded2 word_le_nat_alt)
    then have "apply_step r (apply_committed (r2\<lparr>r_commit := c\<rparr>))"
      using accept(4) by (intro apply_committed_step) simp_all
    then show ?thesis using h by (simp add: apply_step_def)
  qed (use accept(4) assms(3) in \<open>simp_all add: apply_step_same\<close>)
qed (use assms(3) in \<open>simp_all add: apply_step_same\<close>)

lemma append_resp_step:
  assumes "log_wf (r_log r)" and "r_commit r \<le> r_applied r"
  shows "apply_step r (handle_append_resp r from m)"
proof (cases "find_member r from")
  case (Some i)
  have "apply_step r (advance_commit (set_member (set_member r i f) i g))" for f g
    using assms by (intro advance_commit_step) simp_all
  with Some assms(2) show ?thesis
    by (simp add: handle_append_resp_def Let_def apply_step_same)
qed (use assms(2) in \<open>simp add: handle_append_resp_def apply_step_same\<close>)

lemma tick_step:
  assumes "log_wf (r_log r)" and "r_commit r \<le> r_applied r"
  shows "apply_step r (raft_tick r t)"
proof (cases rule: tick_cases [where r = r and t = t])
  case (elect n ee he f)
  have "apply_step r (apply_committed (fst (start_election (timed n ee he f r))))"
    using assms(2) by (intro apply_committed_step) simp_all
  then show ?thesis by (simp add: elect(2) apply_step_def)
next
  case (quiet n ee he f)
  show ?thesis unfolding quiet(2) using assms(2) by (intro apply_committed_step) simp_all
qed (use assms(2) in \<open>simp add: apply_step_same\<close>)

lemma propose_step:
  assumes "log_wf (r_log r)" and "r_commit r \<le> r_applied r"
  shows "apply_step r (snd (raft_propose r d))"
proof (cases "r_role r \<noteq> RAFT_LEADER \<or> length d > RAFT_ENTRY_MAX \<or> length (r_log r) \<ge> RAFT_MAX_LOG")
  case True
  then show ?thesis using assms(2) by (auto simp: raft_propose_def apply_step_same)
next
  case False
  have "apply_step r (advance_commit (append_own RAFT_ENTRY_NORMAL d r))"
    using assms False log_wf_own [of r d] by (intro advance_commit_step) simp_all
  then show ?thesis using False by (simp add: raft_propose_def Let_def apply_step_def)
qed

lemma recv_step:
  assumes "log_wf (r_log r)" and "r_commit r \<le> r_applied r" and "msg_wf m"
  shows "apply_step r (raft_recv r from m)"
proof (cases "m_type m")
  case RAFT_MSG_REQUEST_VOTE
  then show ?thesis using assms(2) by (simp add: raft_recv_def apply_step_same)
next
  case RAFT_MSG_REQUEST_VOTE_RESP
  then show ?thesis
    using assms(2) by (cases "find_member r from") (simp_all add: raft_recv_def Let_def apply_step_same)
qed (simp_all add: raft_recv_def append_step append_resp_step assms)

lemma do_step: "raft_wf r \<Longrightarrow> op_wf op \<Longrightarrow> apply_step r (raft_do r op)"
  by (cases op) (simp_all add: raft_wf_def recv_step tick_step propose_step apply_step_same)

lemma recv_log:
  assumes "log_wf (r_log r)" and "msg_wf m"
  shows "log_wf (r_log (fst (raft_recv r from m)))"
  using assms vote_resp_log(1) [of "set_member r i f" m for i f] vote_resp_log(1) [of r m]
  by (auto simp: raft_recv_def Let_def handle_append_log_wf split: raft_msg_type.split option.split)

lemma tick_log: "log_wf (r_log r) \<Longrightarrow> log_wf (r_log (fst (raft_tick r t)))"
  by (cases rule: tick_cases [where r = r and t = t]) (simp_all add: start_election_log)

lemma propose_log: "log_wf (r_log r) \<Longrightarrow> log_wf (r_log (fst (snd (raft_propose r d))))"
  using log_wf_own [of r d RAFT_ENTRY_NORMAL] by (auto simp: raft_propose_def Let_def)

lemma do_log: "raft_wf r \<Longrightarrow> op_wf op \<Longrightarrow> log_wf (r_log (fst (raft_do r op)))"
  by (cases op) (simp_all add: raft_wf_def recv_log tick_log propose_log)

lemma recv_mids [simp]: "mids (fst (raft_recv r from m)) = mids r"
  by (auto simp: raft_recv_def Let_def mids_set_member split: raft_msg_type.split option.split)

lemma tick_mids [simp]: "mids (fst (raft_tick r t)) = mids r"
  by (cases rule: tick_cases [where r = r and t = t]) simp_all

lemma propose_mids [simp]: "mids (fst (snd (raft_propose r d))) = mids r"
  by (auto simp: raft_propose_def Let_def)

definition mids_wf :: "u64 list \<Rightarrow> bool" where
  "mids_wf ids \<longleftrightarrow> distinct ids \<and> 0 \<notin> set ids \<and> length ids \<le> RAFT_MAX_NODES"

lemma mids_add:
  "mids (snd (raft_add_member r i role el)) =
     (if i = 0 \<or> length (mids r) \<ge> RAFT_MAX_NODES \<or> i \<in> set (mids r) then mids r else mids r @ [i])"
  by (auto simp: raft_add_member_def find_member_self_iff RAFT_NO_NODE_def) (simp_all add: mids_def)

lemma mids_remove:
  assumes "distinct (mids r)"
  shows "distinct (mids (snd (raft_remove_member r i)))"
    and "set (mids (snd (raft_remove_member r i))) = set (mids r) - {i}"
    and "length (mids (snd (raft_remove_member r i))) \<le> length (mids r)"
proof -
  have "distinct (mids (snd (raft_remove_member r i))) \<and>
      set (mids (snd (raft_remove_member r i))) = set (mids r) - {i} \<and>
      length (mids (snd (raft_remove_member r i))) \<le> length (mids r)"
  proof (cases "find_member r i")
    case None
    then show ?thesis using assms find_member_self_iff [of r i] by (simp add: raft_remove_member_def)
  next
    case (Some k)
    then have k: "k < length (r_members r)" "mb_id (r_members r ! k) = i"
      by (auto simp: find_member_def dest: find_idx_SomeD)
    with Some distinct_map_swap_remove [of mb_id "r_members r" k] assms show ?thesis
      by (simp add: raft_remove_member_def mids_def)
  qed
  then show "distinct (mids (snd (raft_remove_member r i)))"
    "set (mids (snd (raft_remove_member r i))) = set (mids r) - {i}"
    "length (mids (snd (raft_remove_member r i))) \<le> length (mids r)" by blast+
qed

lemma mids_promote [simp]: "mids (snd (raft_promote r i)) = mids r"
  by (auto simp: raft_promote_def mids_set_member split: option.split)

lemma mids_set_eligible [simp]: "mids (snd (raft_set_eligible r i el)) = mids r"
  by (auto simp: raft_set_eligible_def mids_set_member split: option.split)

lemma do_mids:
  assumes "mids_wf (mids r)" shows "mids_wf (mids (fst (raft_do r op)))"
proof (cases op)
  case (Op_remove i)
  then show ?thesis using assms mids_remove [of r i] by (auto simp: mids_wf_def)
qed (use assms in \<open>auto simp: mids_wf_def mids_add\<close>)

lemma raft_wf_alt:
  "raft_wf r \<longleftrightarrow> log_wf (r_log r) \<and> r_commit r \<le> r_applied r \<and> mids_wf (mids r)"
  by (simp add: raft_wf_def mids_wf_def)

lemma do_wf: "raft_wf r \<Longrightarrow> op_wf op \<Longrightarrow> raft_wf (fst (raft_do r op))"
  using do_step [of r op] do_log [of r op] do_mids [of r op] by (simp add: raft_wf_alt apply_step_def)

lemma run_wf: "raft_wf r \<Longrightarrow> \<forall>op \<in> set ops. op_wf op \<Longrightarrow> raft_wf (fst (raft_run r ops))"
  by (induction ops arbitrary: r) (simp_all add: do_wf)

end
