(* ===== verification/Norn_Raft_Props.thy ===== *)
theory Norn_Raft_Props
  imports Norn_Raft_Safety
begin

text \<open>
  The properties of a Raft node. They hold for every sequence of operations, with
  messages of any content from anyone, unless a hypothesis says otherwise.
\<close>

section \<open>Quorums\<close>

locale quorum_system =
  fixes voters :: "'a set" and q :: nat
  assumes fin: "finite voters" and majority: "card voters < 2 * q"
begin

lemma quorums_meet:
  assumes "A \<subseteq> voters" and "B \<subseteq> voters" and "q \<le> card A" and "q \<le> card B"
  shows "A \<inter> B \<noteq> {}"
proof
  assume "A \<inter> B = {}"
  then have "card A + card B = card (A \<union> B)"
    using assms(1,2) fin by (simp add: card_Un_disjoint finite_subset)
  also have "\<dots> \<le> card voters" using assms(1,2) fin by (intro card_mono) auto
  finally show False using assms(3,4) majority by simp
qed

end

text \<open>The voters are identified by their position among the members.\<close>

definition voter_set :: "raft \<Rightarrow> nat set" where
  "voter_set r = {i. i < length (r_members r) \<and> is_voter (r_members r ! i)}"

lemma card_voter_set: "card (voter_set r) = count_voters r"
  by (simp add: voter_set_def count_voters_def length_filter_conv_card)

interpretation rq: quorum_system "voter_set r" "quorum r" for r
proof unfold_locales
  show "finite (voter_set r)" by (simp add: voter_set_def)
  show "card (voter_set r) < 2 * quorum r" unfolding card_voter_set quorum_def by simp
qed

section \<open>Roles\<close>

lemma start_election_role:
  "r_role (fst (start_election r)) \<noteq> r_role r \<Longrightarrow> self_is_eligible_voter r"
  by (simp add: start_election_def split: if_splits)

lemma apply_committed_role:
  "\<not> self_is_eligible_voter r \<Longrightarrow> r_role r = RAFT_FOLLOWER \<Longrightarrow> r_role (fst (start_election r)) = RAFT_FOLLOWER"
  using start_election_role by metis

lemma eligible_cong:
  "r_members r' = r_members r \<Longrightarrow> r_self r' = r_self r \<Longrightarrow>
     self_is_eligible_voter r' = self_is_eligible_voter r"
  by (simp add: self_is_eligible_voter_def find_member_def cong: option.case_cong)

lemma eligible_timed [simp]: "self_is_eligible_voter (timed n ee he f r) = self_is_eligible_voter r"
  by (rule eligible_cong) simp_all

lemma handlers_follower:
  assumes "r_role r = RAFT_FOLLOWER"
  shows "r_role (fst (handle_request_vote r m)) = RAFT_FOLLOWER"
    and "r_role (fst (handle_request_vote_resp r m)) = RAFT_FOLLOWER"
    and "r_role (fst (handle_append r m)) = RAFT_FOLLOWER"
    and "r_role (fst (handle_append_resp r from m)) = RAFT_FOLLOWER"
  using assms
  by (simp_all add: handle_request_vote_def handle_request_vote_resp_def handle_append_def
      handle_append_resp_def Let_def)

lemma follower_stays:
  assumes "r_role r = RAFT_FOLLOWER" and "\<not> self_is_eligible_voter r"
  shows "r_role (fst (raft_do r op)) = RAFT_FOLLOWER"
proof (cases op)
  case (Op_recv "from" m)
  then show ?thesis
    using assms(1) handlers_follower by (simp add: raft_recv_def Let_def split: raft_msg_type.split option.split)
next
  case (Op_tick t)
  then show ?thesis
    using assms by (cases rule: tick_cases [where r = r and t = t]) (simp_all add: apply_committed_role)
qed (use assms(1) in \<open>simp_all add: raft_propose_def\<close>)

text \<open>The tally a node that just won an election holds.\<close>

definition won :: "raft \<Rightarrow> bool" where
  "won r \<longleftrightarrow> quorum r \<le> count_grants r"

lemma filter_len_map: "(\<And>m. P (f m) = P m) \<Longrightarrow> length (filter P (map f ms)) = length (filter P ms)"
  by (induction ms) simp_all

lemma filter_len_update:
  assumes "i < length ms" and "P (f (ms ! i)) = P (ms ! i)"
  shows "length (filter P (ms[i := f (ms ! i)])) = length (filter P ms)"
  using assms
proof (induction ms arbitrary: i)
  case (Cons m ms)
  then show ?case by (cases i) simp_all
qed simp

lemma set_member_len:
  assumes "\<And>m. P (f m) = P m"
  shows "length (filter P (r_members (set_member r i f))) = length (filter P (r_members r))"
  by (cases "i < length (r_members r)")
    (simp_all add: set_member_def filter_len_update assms list_update_beyond)

lemma set_self_len:
  assumes "\<And>m. P (f m) = P m"
  shows "length (filter P (r_members (set_self f r))) = length (filter P (r_members r))"
  using set_member_len [of P f r] assms by (simp add: set_self_def split: option.split)

lemma become_leader_len:
  assumes "\<And>m x. P (m\<lparr>mb_match_index := x\<rparr>) = P m" and "\<And>m x. P (m\<lparr>mb_next_index := x\<rparr>) = P m"
  shows "length (filter P (r_members (fst (become_leader r)))) = length (filter P (r_members r))"
proof -
  have "P (m\<lparr>mb_next_index := x, mb_match_index := y\<rparr>) = P m" for m x y by (simp add: assms)
  then show ?thesis
    by (simp add: become_leader_def Let_def append_own_def set_self_len assms filter_len_map comp_def)
qed

lemma won_become_leader: "won (fst (become_leader r)) = won r"
  by (simp add: won_def quorum_def count_voters_def count_grants_def become_leader_len is_voter_def)

lemma vote_resp_leader:
  assumes "r_role r \<noteq> RAFT_LEADER" and "r_role (fst (handle_request_vote_resp r m)) = RAFT_LEADER"
  shows "r_role r = RAFT_CANDIDATE" and "r_in_pre_vote r = 0" and "won (fst (handle_request_vote_resp r m))"
  using assms won_become_leader [of r] by (auto simp: handle_request_vote_resp_def Let_def won_def split: if_splits)

lemma sole_voter_wins:
  assumes "count_voters r2 = 1" and "r2 = set_self (\<lambda>m. m\<lparr>mb_vote_granted := True\<rparr>) (reset_votes r)"
    and "self_is_eligible_voter r"
  shows "won r2"
proof -
  obtain i where i: "find_member r (r_self r) = Some i" "is_voter (r_members r ! i)"
    using assms(3) by (auto simp: self_is_eligible_voter_def split: option.splits)
  have len: "i < length (r_members r)" using i(1) by (auto simp: find_member_def dest: find_idx_less)
  have "find_member (reset_votes r) (r_self r) = Some i"
  proof -
    have "find_idx (\<lambda>m. mb_id m = x) (map (\<lambda>m. m\<lparr>mb_vote_granted := False\<rparr>) ms) = find_idx (\<lambda>m. mb_id m = x) ms"
      for x and ms :: "member list" by (induction ms) simp_all
    then show ?thesis using i(1) by (simp add: find_member_def reset_votes_def)
  qed
  then have "r_members r2 ! i = (r_members r ! i)\<lparr>mb_vote_granted := True\<rparr>" "i < length (r_members r2)"
    using len by (simp_all add: assms(2) set_self_def set_member_def reset_votes_def)
  then have "filter (\<lambda>m. is_voter m \<and> mb_vote_granted m) (r_members r2) \<noteq> []"
    using i(2) nth_mem [of i "r_members r2"] by (force simp: filter_empty_conv is_voter_def)
  then show ?thesis
    using assms(1) by (simp add: won_def quorum_def count_grants_def Suc_le_eq)
qed

lemma start_election_leader:
  assumes "r_role r \<noteq> RAFT_LEADER" and "r_role (fst (start_election r)) = RAFT_LEADER"
  shows "won (fst (start_election r)) \<and> r_voted_for (fst (start_election r)) = r_self r"
proof -
  let ?r = "r\<lparr>r_role := RAFT_CANDIDATE, r_leader := RAFT_NO_NODE, r_election_elapsed := 0\<rparr>"
  let ?r2 = "set_self (\<lambda>m. m\<lparr>mb_vote_granted := True\<rparr>) (reset_votes ?r)"
  have el: "self_is_eligible_voter r" using assms start_election_role [of r] by auto
  then have el': "self_is_eligible_voter ?r" using eligible_cong [of ?r r] by simp
  have c: "count_voters ?r2 = 1" using assms el by (auto simp: start_election_def Let_def split: if_splits)
  have "won (?r2\<lparr>r_in_pre_vote := 0, r_term := r_term ?r2 + 1, r_voted_for := r_self ?r2\<rparr>)"
    using sole_voter_wins [OF c refl el'] by (simp add: won_def quorum_def count_voters_def count_grants_def)
  then show ?thesis using el c by (simp add: start_election_def Let_def won_become_leader)
qed

lemma won_apply_committed [simp]: "won (fst (apply_committed r)) = won r"
  by (simp add: won_def quorum_def count_voters_def count_grants_def)

text \<open>A leader, and a candidate in the real round, has voted for itself.\<close>

definition self_voted :: "raft \<Rightarrow> bool" where
  "self_voted r \<longleftrightarrow> r_self r \<noteq> RAFT_NO_NODE \<and>
     (r_role r = RAFT_LEADER \<or> r_role r = RAFT_CANDIDATE \<and> r_in_pre_vote r = 0 \<longrightarrow> r_voted_for r = r_self r)"

lemma handlers_self_voted:
  assumes "self_voted r"
  shows "self_voted (fst (handle_request_vote r m))" and "self_voted (fst (handle_request_vote_resp r m))"
    and "self_voted (fst (handle_append r m))" and "self_voted (fst (handle_append_resp r from m))"
proof -
  show "self_voted (fst (handle_request_vote r m))"
    using assms by (auto simp: self_voted_def handle_request_vote_def Let_def)
  show "self_voted (fst (handle_request_vote_resp r m))"
    using assms by (auto simp: self_voted_def handle_request_vote_resp_def Let_def)
  show "self_voted (fst (handle_append r m))"
    using assms by (auto simp: self_voted_def handle_append_def Let_def)
  show "self_voted (fst (handle_append_resp r from m))"
    using assms by (auto simp: self_voted_def handle_append_resp_def Let_def split: option.split)
qed

lemma recv_self_voted:
  assumes "self_voted r" shows "self_voted (fst (raft_recv r from m))"
proof -
  have "self_voted (set_member r i f)" for i f using assms by (simp add: self_voted_def)
  then show ?thesis
    using handlers_self_voted assms by (simp add: raft_recv_def Let_def split: raft_msg_type.split option.split)
qed

lemma start_election_self_voted: "self_voted r \<Longrightarrow> self_voted (fst (start_election r))"
  by (auto simp: self_voted_def start_election_def Let_def)

lemma do_self_voted: "self_voted r \<Longrightarrow> self_voted (fst (raft_do r op))"
proof (cases op)
  case (Op_tick t)
  assume sv: "self_voted r"
  show ?thesis
  proof (cases rule: tick_cases [where r = r and t = t])
    case (elect n ee he f)
    have "self_voted (timed n ee he f r)" using sv by (simp add: self_voted_def)
    then show ?thesis
      using start_election_self_voted [of "timed n ee he f r"] by (simp add: Op_tick elect self_voted_def)
  qed (use sv Op_tick in \<open>simp_all add: self_voted_def\<close>)
qed (auto simp: recv_self_voted, auto simp: self_voted_def raft_propose_def Let_def)

lemma handlers_no_leader:
  assumes "r_role r \<noteq> RAFT_LEADER"
  shows "r_role (fst (handle_request_vote r m)) \<noteq> RAFT_LEADER"
    and "r_role (fst (handle_append r m)) \<noteq> RAFT_LEADER"
    and "r_role (fst (handle_append_resp r from m)) \<noteq> RAFT_LEADER"
  using assms by (simp_all add: handle_request_vote_def handle_append_def handle_append_resp_def Let_def)

lemma do_leader:
  assumes "self_voted r" and "r_role r \<noteq> RAFT_LEADER" and "r_role (fst (raft_do r op)) = RAFT_LEADER"
  shows "won (fst (raft_do r op))" and "r_voted_for (fst (raft_do r op)) = r_self r"
proof -
  have "won (fst (raft_do r op)) \<and> r_voted_for (fst (raft_do r op)) = r_self r"
  proof (cases op)
    case (Op_recv "from" m)
    show ?thesis
    proof (cases "m_type m")
      case RAFT_MSG_REQUEST_VOTE_RESP
      obtain r1 where r1: "raft_recv r from m = handle_request_vote_resp r1 m" "r_role r1 = r_role r"
        "r_in_pre_vote r1 = r_in_pre_vote r" "r_voted_for r1 = r_voted_for r" "r_self r1 = r_self r" "self_voted r1"
        using RAFT_MSG_REQUEST_VOTE_RESP assms(1)
        by (cases "find_member r from") (auto simp: raft_recv_def Let_def self_voted_def split: if_splits)
      then have lead: "r_role r1 = RAFT_CANDIDATE" "r_in_pre_vote r1 = 0" "won (fst (handle_request_vote_resp r1 m))"
        using vote_resp_leader [of r1 m] assms(2,3) Op_recv by auto
      moreover have "r_voted_for (fst (handle_request_vote_resp r1 m)) = r_self r1"
        using handlers_self_voted(2) [OF r1(6), of m] assms(3) Op_recv r1(1) by (simp add: self_voted_def)
      ultimately show ?thesis using r1 Op_recv by simp
    qed (use assms(2,3) Op_recv handlers_no_leader in \<open>simp_all add: raft_recv_def\<close>)
  next
    case (Op_tick t)
    show ?thesis
    proof (cases rule: tick_cases [where r = r and t = t])
      case (elect n ee he f)
      then show ?thesis using start_election_leader [of "timed n ee he f r"] assms Op_tick by simp
    qed (use assms Op_tick in auto)
  qed (use assms in \<open>auto simp: raft_propose_def\<close>)
  then show "won (fst (raft_do r op))" "r_voted_for (fst (raft_do r op)) = r_self r" by blast+
qed

section \<open>Absence of undefined behaviour\<close>

definition fault_free :: "raft \<Rightarrow> bool" where
  "fault_free r \<longleftrightarrow> r_self r \<in> set (mids r) \<and> election_spread_ms (r_cfg r) + 1 \<noteq> 0 \<and> \<not> r_fault r"

lemma append_own_fault: "r_self r \<in> set (mids r) \<Longrightarrow> r_fault (append_own ty d r) = r_fault r"
  by (simp add: append_own_def Let_def set_self_fault)

lemma mids_reset_index:
  "mids (r'\<lparr>r_members := map (\<lambda>m. m\<lparr>mb_next_index := x, mb_match_index := y\<rparr>) (r_members r)\<rparr>) = mids r"
  by (simp add: mids_def comp_def)

lemma become_leader_fault:
  "r_self r \<in> set (mids r) \<Longrightarrow> r_fault (fst (become_leader r)) = r_fault r"
  by (simp add: become_leader_def Let_def set_self_fault append_own_fault mids_set_self mids_reset_index)

lemma start_election_fault:
  "r_self r \<in> set (mids r) \<Longrightarrow> r_fault (fst (start_election r)) = r_fault r"
  by (simp add: start_election_def Let_def set_self_fault become_leader_fault mids_set_self)

lemma vote_resp_fault:
  "r_self r \<in> set (mids r) \<Longrightarrow> r_fault (fst (handle_request_vote_resp r m)) = r_fault r"
  by (simp add: handle_request_vote_resp_def Let_def set_self_fault become_leader_fault)

lemma do_fault_free:
  assumes "fault_free r" and "distinct (mids r)" and "op \<noteq> Op_remove (r_self r)"
  shows "fault_free (fst (raft_do r op))"
proof (cases op)
  case (Op_recv "from" m)
  have "r_fault (fst (raft_recv r from m)) = r_fault r \<and> r_self (fst (raft_recv r from m)) = r_self r \<and>
      r_cfg (fst (raft_recv r from m)) = r_cfg r"
    using assms(1) vote_resp_fault [of r m] vote_resp_fault [of "set_member r i f" m for i f]
    by (simp add: raft_recv_def Let_def fault_free_def mids_set_member split: raft_msg_type.split option.split)
  then show ?thesis using assms(1) Op_recv by (simp add: fault_free_def)
next
  case (Op_tick t)
  show ?thesis
  proof (cases rule: tick_cases [where r = r and t = t])
    case (elect n ee he f)
    then show ?thesis
      using assms(1) Op_tick start_election_fault [of "timed n ee he f r"] by (simp add: fault_free_def)
  qed (use assms(1) Op_tick in \<open>simp_all add: fault_free_def\<close>)
next
  case (Op_propose d)
  then show ?thesis
    using assms(1) append_own_fault [of r] by (simp add: fault_free_def raft_propose_def Let_def)
next
  case (Op_remove i)
  then show ?thesis using assms mids_remove(2) [of r i] by (auto simp: fault_free_def)
qed (use assms(1) in \<open>simp_all add: fault_free_def mids_add\<close>)

lemma do_self [simp]: "r_self (fst (raft_do r op)) = r_self r"
proof (cases op)
  case (Op_recv "from" m)
  then show ?thesis
    by (simp add: raft_recv_def Let_def split: raft_msg_type.split option.split)
next
  case (Op_tick t)
  then show ?thesis by (cases rule: tick_cases [where r = r and t = t]) simp_all
qed (simp_all add: raft_propose_def Let_def)

lemma run_fault_free:
  assumes "fault_free r" and "raft_wf r" and "\<forall>op \<in> set ops. op_wf op \<and> op \<noteq> Op_remove (r_self r)"
  shows "fault_free (fst (raft_run r ops))"
  using assms
proof (induction ops arbitrary: r)
  case (Cons op ops)
  have "fault_free (fst (raft_do r op))" using Cons.prems by (intro do_fault_free) (auto simp: raft_wf_def)
  then show ?case using Cons by (simp add: do_wf)
qed simp

section \<open>The log of a leader, and the commit rule\<close>

lemma do_append_only:
  assumes "raft_wf r" and "op_wf op" and "r_role r = RAFT_LEADER" and "r_role (fst (raft_do r op)) = RAFT_LEADER"
  shows "\<exists>t. r_log (fst (raft_do r op)) = r_log r @ t"
proof (cases op)
  case (Op_recv "from" m)
  have lw: "log_wf (r_log r)" using assms(1) by (simp add: raft_wf_def)
  have "\<exists>t. r_log (fst (raft_recv r from m)) = r_log r @ t"
  proof (cases "m_type m")
    case RAFT_MSG_REQUEST_VOTE_RESP
    then show ?thesis
      using vote_resp_log(2) [of r m] vote_resp_log(2) [of "set_member r i f" m for i f] lw
      by (simp add: raft_recv_def Let_def split: option.split)
  next
    case RAFT_MSG_APPEND
    then have lead: "r_role (fst (handle_append r m)) = RAFT_LEADER"
      using assms(4) Op_recv by (simp add: raft_recv_def)
    show ?thesis
    proof (cases rule: handle_append_cases [where r = r and m = m])
      case (accept c r2 d a)
      have "r_role r2 = RAFT_FOLLOWER" by (simp add: accept(4))
      with accept(5) lead show ?thesis by auto
    qed (use lead RAFT_MSG_APPEND in \<open>simp_all add: raft_recv_def\<close>)
  qed (simp_all add: raft_recv_def)
  then show ?thesis by (simp add: Op_recv)
next
  case (Op_tick t)
  then show ?thesis
    using assms(3) by (cases rule: tick_cases [where r = r and t = t]) simp_all
qed (simp_all add: raft_propose_def Let_def)

lemma advance_commit_commit:
  "r_commit (fst (advance_commit r)) = r_commit r \<or>
     commit_point r (last_log_index r) (r_commit (fst (advance_commit r)))"
  using advance_loop_spec [of r "last_log_index r"] by (auto simp: advance_commit_def)

section \<open>The order of application\<close>

definition ordered_between :: "u64 \<Rightarrow> u64 \<Rightarrow> raft_entry list \<Rightarrow> bool" where
  "ordered_between a b es \<longleftrightarrow> a \<le> b \<and> sorted_wrt (<) (map re_index es) \<and>
     (\<forall>e \<in> set es. normal e \<and> a < re_index e \<and> re_index e \<le> b)"

lemma ordered_between_append:
  "ordered_between a b xs \<Longrightarrow> ordered_between b c ys \<Longrightarrow> ordered_between a c (xs @ ys)"
  by (force simp: ordered_between_def sorted_wrt_append)

lemma ordered_segment:
  assumes "log_wf l" and "a \<le> b" and "b = a \<or> unat b \<le> length l"
  shows "ordered_between a b (filter normal (map ((!) l) [unat a..<unat b]))"
proof -
  have idx: "re_index (l ! i) = word_of_nat (Suc i)" "unat (word_of_nat (Suc i) :: u64) = Suc i"
    if "i \<in> set [unat a..<unat b]" for i
  proof -
    have i: "i < length l" using that assms(3) by auto
    then show "re_index (l ! i) = word_of_nat (Suc i)" using assms(1) by (simp add: log_wf_def)
    show "unat (word_of_nat (Suc i) :: u64) = Suc i"
      using i log_wf_len [OF assms(1)] by (intro unat_of_nat_u64) simp
  qed
  have "sorted_wrt (\<lambda>i j. re_index (l ! i) < re_index (l ! j)) [unat a..<unat b]"
  proof (rule sorted_wrt_mono_rel [of _ "(<)"])
    show "sorted_wrt (<) [unat a..<unat b]" by simp
  next
    fix i j assume ij: "i \<in> set [unat a..<unat b]" "j \<in> set [unat a..<unat b]" "i < j"
    show "re_index (l ! i) < re_index (l ! j)"
      unfolding idx(1) [OF ij(1)] idx(1) [OF ij(2)] word_less_nat_alt idx(2) [OF ij(1)] idx(2) [OF ij(2)]
      using ij(3) by simp
  qed
  then have "sorted_wrt (<) (map re_index (filter normal (map ((!) l) [unat a..<unat b])))"
    by (simp add: sorted_wrt_map sorted_wrt_filter)
  moreover have "a < re_index (l ! i) \<and> re_index (l ! i) \<le> b" if "i \<in> set [unat a..<unat b]" for i
    unfolding idx(1) [OF that] word_less_nat_alt word_le_nat_alt idx(2) [OF that] using that by auto
  ultimately show ?thesis using assms(2) by (auto simp: ordered_between_def)
qed

lemma do_ordered:
  assumes "raft_wf r" and "op_wf op"
  shows "ordered_between (r_applied r) (r_applied (fst (raft_do r op))) (applies (snd (raft_do r op)))"
proof -
  note st = do_step [OF assms, unfolded apply_step_def]
  have "ordered_between (r_applied r) (r_applied (fst (raft_do r op)))
      (filter normal (map ((!) (r_log (fst (raft_do r op)))) [unat (r_applied r)..<unat (r_applied (fst (raft_do r op)))]))"
    using st do_log [OF assms] by (intro ordered_segment) auto
  with st show ?thesis by (auto simp: ordered_between_def)
qed

lemma run_ordered:
  assumes "raft_wf r" and "\<forall>op \<in> set ops. op_wf op"
  shows "ordered_between (r_applied r) (r_applied (fst (raft_run r ops))) (applies (snd (raft_run r ops)))"
  using assms
proof (induction ops arbitrary: r)
  case Nil
  then show ?case by (simp add: ordered_between_def)
next
  case (Cons op ops)
  have "ordered_between (r_applied r) (r_applied (fst (raft_do r op))) (applies (snd (raft_do r op)))"
    using Cons.prems by (intro do_ordered) simp_all
  moreover have "ordered_between (r_applied (fst (raft_do r op)))
      (r_applied (fst (raft_run (fst (raft_do r op)) ops))) (applies (snd (raft_run (fst (raft_do r op)) ops)))"
    using Cons.prems by (intro Cons.IH) (simp_all add: do_wf)
  ultimately show ?case by (simp add: ordered_between_append)
qed

lemma raft_new_wf:
  assumes "raft_new self s a cfg = Some r"
  shows "raft_wf r" and "self_voted r" and "r_term r = 0"
  using assms by (auto simp: raft_new_def raft_wf_def mids_def self_voted_def Let_def split: if_splits)

lemma run_self_voted: "self_voted r \<Longrightarrow> self_voted (fst (raft_run r ops))"
  by (induction ops arbitrary: r) (simp_all add: do_self_voted)

section \<open>The commit rule\<close>

definition commit_ok :: "raft \<Rightarrow> raft \<Rightarrow> bool" where
  "commit_ok r r' \<longleftrightarrow> r_commit r' = r_commit r \<or>
     r_commit r < r_commit r' \<and> r_commit r' \<le> last_log_index r' \<and>
     term_at r' (r_commit r') = r_term r' \<and> quorum r' \<le> replicated_votes r' (r_commit r')"

lemma advance_commit_ok:
  assumes "r_commit r1 = r_commit r" shows "commit_ok r (fst (advance_commit r1))"
  using advance_commit_commit [of r1] assms
  by (auto simp: commit_ok_def commit_point_def term_at_def last_log_index_def quorum_def count_voters_def
      replicated_votes_def)

lemma do_commit_ok:
  assumes "r_role r = RAFT_LEADER" and "r_role (fst (raft_do r op)) = RAFT_LEADER"
  shows "commit_ok r (fst (raft_do r op))"
proof (cases op)
  case (Op_recv "from" m)
  have "commit_ok r (fst (raft_recv r from m))"
  proof (cases "m_type m")
    case RAFT_MSG_APPEND
    then have lead: "r_role (fst (handle_append r m)) = RAFT_LEADER"
      using assms(2) Op_recv by (simp add: raft_recv_def)
    show ?thesis
    proof (cases rule: handle_append_cases [where r = r and m = m])
      case (accept c r2 d a)
      have "r_role r2 = RAFT_FOLLOWER" by (simp add: accept(4))
      with accept(5) lead show ?thesis by auto
    qed (use lead RAFT_MSG_APPEND in \<open>simp_all add: raft_recv_def commit_ok_def\<close>)
  next
    case RAFT_MSG_APPEND_RESP
    have "commit_ok r (fst (handle_append_resp r from m))"
    proof (cases "find_member r from")
      case (Some i)
      have "commit_ok r (fst (advance_commit (set_member (set_member r i f) i g)))" for f g
        by (rule advance_commit_ok) simp
      with Some show ?thesis by (simp add: handle_append_resp_def Let_def commit_ok_def [of r r]) (simp add: commit_ok_def)
    qed (simp add: handle_append_resp_def commit_ok_def)
    then show ?thesis using RAFT_MSG_APPEND_RESP by (simp add: raft_recv_def)
  qed (simp_all add: raft_recv_def Let_def commit_ok_def split: option.split)
  then show ?thesis by (simp add: Op_recv)
next
  case (Op_tick t)
  then show ?thesis
    using assms(1) by (cases rule: tick_cases [where r = r and t = t]) (simp_all add: commit_ok_def)
next
  case (Op_propose d)
  have "commit_ok r (fst (advance_commit (append_own RAFT_ENTRY_NORMAL d r)))"
    by (rule advance_commit_ok) simp
  then show ?thesis using Op_propose by (simp add: raft_propose_def Let_def) (simp add: commit_ok_def)
qed (simp_all add: commit_ok_def)

text \<open>
  The acknowledgements a node has been handed since it last became leader: the sender of a
  successful reply to an append and the index the reply names.
\<close>

fun op_acks :: "raft_op \<Rightarrow> (u64 \<times> u64) list" where
  "op_acks (Op_recv from m) =
     (if m_type m = RAFT_MSG_APPEND_RESP \<and> m_success m \<noteq> 0 then [(from, m_match_index m)] else [])"
| "op_acks _ = []"

fun acks_since :: "(u64 \<times> u64) list \<Rightarrow> raft \<Rightarrow> raft_op list \<Rightarrow> (u64 \<times> u64) list" where
  "acks_since A r [] = A"
| "acks_since A r (op # ops) =
     (let r' = fst (raft_do r op) in
      acks_since (if r_role r = RAFT_LEADER \<and> r_role r' = RAFT_LEADER then A @ op_acks op else []) r' ops)"

definition acked :: "(u64 \<times> u64) list \<Rightarrow> u64 \<Rightarrow> u64 \<Rightarrow> bool" where
  "acked A nid idx \<longleftrightarrow> list_ex (\<lambda>(i, k). i = nid \<and> idx \<le> k) A"

text \<open>What a leader records of the others it has been told.\<close>

definition match_told :: "(u64 \<times> u64) list \<Rightarrow> u64 \<Rightarrow> member list \<Rightarrow> bool" where
  "match_told A self ms \<longleftrightarrow>
     (\<forall>m \<in> set ms. mb_match_index m = 0 \<or> mb_id m = self \<or> (mb_id m, mb_match_index m) \<in> set A)"

lemma match_told_update:
  assumes "match_told A s ms" "\<And>m. mb_id (f m) = mb_id m"
    and "\<And>m. m = ms ! i \<Longrightarrow> mb_match_index (f m) = mb_match_index m \<or> mb_id m = s \<or> (mb_id m, mb_match_index (f m)) \<in> set A"
  shows "match_told A s (ms[i := f (ms ! i)])"
proof (cases "i < length ms")
  case True
  then have "match_told A s [ms ! i]" using assms(1) by (simp add: match_told_def)
  then have "match_told A s [f (ms ! i)]" using assms(2,3) by (auto simp: match_told_def)
  then show ?thesis using assms(1) set_update_subset_insert [of ms i] by (fastforce simp: match_told_def)
qed (use assms(1) in \<open>simp add: list_update_beyond\<close>)

lemma match_told_mono: "match_told A s ms \<Longrightarrow> set A \<subseteq> set B \<Longrightarrow> match_told B s ms"
  by (auto simp: match_told_def)

lemma match_told_set_self:
  "match_told A (r_self r) (r_members r) \<Longrightarrow> (\<And>m. mb_id (f m) = mb_id m) \<Longrightarrow>
     match_told A (r_self r) (r_members (set_self f r))"
  by (auto simp: set_self_def set_member_def find_member_def intro!: match_told_update dest: find_idx_SomeD split: option.split)

lemma match_told_append_own:
  "match_told A (r_self r) (r_members r) \<Longrightarrow> match_told A (r_self r) (r_members (append_own ty d r))"
  using match_told_set_self [of A "r\<lparr>r_log := l\<rparr>" f for l f] by (simp add: append_own_def Let_def)

lemma match_told_become_leader: "match_told A (r_self r) (r_members (fst (become_leader r)))"
proof -
  define r2 where "r2 = r\<lparr>r_role := RAFT_LEADER, r_leader := r_self r, r_in_pre_vote := 0, r_heartbeat_elapsed := 0,
      r_members := map (\<lambda>m. m\<lparr>mb_next_index := last_log_index r + 1, mb_match_index := 0\<rparr>) (r_members r)\<rparr>"
  have told: "match_told A (r_self r2) (r_members r2)" by (auto simp: r2_def match_told_def)
  let ?r3 = "set_self (\<lambda>m. m\<lparr>mb_match_index := last_log_index r2\<rparr>) r2"
  have "match_told A (r_self r2) (r_members ?r3)" using match_told_set_self [OF told] by simp
  moreover from this have "match_told A (r_self r2) (r_members (append_own RAFT_ENTRY_NOOP [] ?r3))"
    using match_told_append_own [of A ?r3] by simp
  moreover have "r_members (fst (become_leader r)) =
      r_members (if length (r_log r) < RAFT_MAX_LOG then append_own RAFT_ENTRY_NOOP [] ?r3 else ?r3)"
    by (simp add: become_leader_def Let_def r2_def last_log_index_def)
  ultimately show ?thesis by (simp add: r2_def split: if_splits)
qed

lemma vote_resp_told:
  assumes "r_role r \<noteq> RAFT_LEADER" "r_role (fst (handle_request_vote_resp r m)) = RAFT_LEADER"
  shows "match_told A (r_self r) (r_members (fst (handle_request_vote_resp r m)))"
  using assms match_told_become_leader [of A r] by (auto simp: handle_request_vote_resp_def Let_def become_follower_def split: if_splits)

lemma start_election_told:
  assumes "r_role r \<noteq> RAFT_LEADER" "r_role (fst (start_election r)) = RAFT_LEADER"
  shows "match_told A (r_self r) (r_members (fst (start_election r)))"
proof -
  obtain r1 where r1: "start_election r = become_leader r1" "r_self r1 = r_self r"
    using assms by (auto simp: start_election_def Let_def split: if_splits)
  then show ?thesis using match_told_become_leader [of A r1] by simp
qed

lemma do_told_new:
  assumes "r_role r \<noteq> RAFT_LEADER" "r_role (fst (raft_do r op)) = RAFT_LEADER"
  shows "match_told A (r_self r) (r_members (fst (raft_do r op)))"
proof (cases op)
  case (Op_recv "from" m)
  show ?thesis
  proof (cases "m_type m")
    case RAFT_MSG_REQUEST_VOTE_RESP
    obtain r1 where r1: "raft_recv r from m = handle_request_vote_resp r1 m" "r_role r1 = r_role r" "r_self r1 = r_self r"
      using RAFT_MSG_REQUEST_VOTE_RESP by (cases "find_member r from") (auto simp: raft_recv_def Let_def split: if_splits)
    then show ?thesis using vote_resp_told [of r1 m A] assms Op_recv by simp
  qed (use assms Op_recv handlers_no_leader in \<open>simp_all add: raft_recv_def\<close>)
next
  case (Op_tick t)
  show ?thesis
  proof (cases rule: tick_cases [where r = r and t = t])
    case (elect n ee he f)
    then show ?thesis using start_election_told [of "timed n ee he f r" A] assms Op_tick by simp
  qed (use assms Op_tick in auto)
qed (use assms in \<open>auto simp: raft_propose_def\<close>)

lemma advance_commit_members: "r_members (fst (advance_commit r)) = r_members r"
  using advance_commit_commit [of r] by (auto simp: commit_point_def)

lemma do_told_keep:
  assumes "match_told A (r_self r) (r_members r)" "r_role r = RAFT_LEADER" "r_role (fst (raft_do r op)) = RAFT_LEADER"
  shows "match_told (A @ op_acks op) (r_self r) (r_members (fst (raft_do r op)))"
proof (cases op)
  case (Op_recv "from" m)
  show ?thesis
  proof (cases "m_type m")
    case RAFT_MSG_REQUEST_VOTE_RESP
    have "match_told A (r_self r) (r_members (set_member r i (\<lambda>mm. mm\<lparr>mb_vote_granted := True\<rparr>)))" for i
      using assms(1) by (simp add: set_member_def match_told_update)
    then show ?thesis
      using RAFT_MSG_REQUEST_VOTE_RESP Op_recv assms by (auto simp: raft_recv_def handle_request_vote_resp_def Let_def split: option.split)
  next
    case RAFT_MSG_APPEND_RESP
    have keep: "match_told B (r_self r) (r_members (set_member r' i (\<lambda>mm. mm\<lparr>mb_next_index := g mm\<rparr>)))"
      if "match_told B (r_self r) (r_members r')" for B r' i g
      using that by (simp add: set_member_def match_told_update)
    have told: "match_told (A @ [(from, k)]) (r_self r) (r_members (set_member (set_member r i
        (\<lambda>mm. if k > mb_match_index mm then mm\<lparr>mb_match_index := k\<rparr> else mm)) i (\<lambda>mm. mm\<lparr>mb_next_index := mb_match_index mm + 1\<rparr>)))"
      if "find_member r from = Some i" for i k
    proof -
      have "mb_id (r_members r ! i) = from" using that by (auto simp: find_member_def dest: find_idx_SomeD)
      then have "match_told (A @ [(from, k)]) (r_self r) ((r_members r)[i := (\<lambda>mm. if k > mb_match_index mm
          then mm\<lparr>mb_match_index := k\<rparr> else mm) (r_members r ! i)])"
        using match_told_mono [OF assms(1), of "A @ [(from, k)]"] by (intro match_told_update) auto
      then have "match_told (A @ [(from, k)]) (r_self r) (r_members (set_member r i
          (\<lambda>mm. if k > mb_match_index mm then mm\<lparr>mb_match_index := k\<rparr> else mm)))"
        by (simp add: set_member_def)
      then show ?thesis by (rule keep)
    qed
    show ?thesis
      using RAFT_MSG_APPEND_RESP Op_recv assms match_told_mono [OF assms(1), of "A @ _"] keep [OF assms(1)] told
      by (auto simp: raft_recv_def handle_append_resp_def Let_def advance_commit_members split: option.split)
  next
    case RAFT_MSG_APPEND
    have "r_members (fst (handle_append r m)) = r_members r"
      by (cases rule: handle_append_cases [where r = r and m = m]) auto
    then show ?thesis using RAFT_MSG_APPEND Op_recv assms(1) by (simp add: raft_recv_def)
  next
    case RAFT_MSG_REQUEST_VOTE
    then show ?thesis using Op_recv assms(1) by (simp add: raft_recv_def handle_request_vote_def Let_def)
  qed
next
  case (Op_tick t)
  then show ?thesis
    using assms by (cases rule: tick_cases [where r = r and t = t]) simp_all
next
  case (Op_propose d)
  then show ?thesis
    using assms(1,2) match_told_append_own [of A r RAFT_ENTRY_NORMAL d] by (simp add: raft_propose_def Let_def advance_commit_members)
next
  case (Op_add i role el)
  then show ?thesis using assms(1) by (auto simp: raft_add_member_def match_told_def)
next
  case (Op_remove i)
  then show ?thesis using assms(1) set_swap_remove_subset [of _ "r_members r"]
    by (fastforce simp: raft_remove_member_def find_member_def match_told_def dest: find_idx_SomeD split: option.split)
next
  case (Op_promote i)
  then show ?thesis using assms(1) by (auto simp: raft_promote_def set_member_def intro!: match_told_update split: option.split)
next
  case (Op_set_eligible i e)
  then show ?thesis using assms(1) by (auto simp: raft_set_eligible_def set_member_def intro!: match_told_update split: option.split)
qed

lemma acks_since_told:
  assumes "r_role r = RAFT_LEADER \<Longrightarrow> match_told A (r_self r) (r_members r)"
    and "r_role (fst (raft_run r ops)) = RAFT_LEADER"
  shows "match_told (acks_since A r ops) (r_self r) (r_members (fst (raft_run r ops)))"
  using assms
proof (induction ops arbitrary: r A)
  case (Cons op ops)
  let ?r = "fst (raft_do r op)"
  let ?A = "if r_role r = RAFT_LEADER \<and> r_role ?r = RAFT_LEADER then A @ op_acks op else []"
  have "match_told ?A (r_self ?r) (r_members ?r)" if "r_role ?r = RAFT_LEADER"
    using that do_told_keep [of A r op] do_told_new [of r op] Cons.prems(1) do_self [of r op] by auto
  then show ?case using Cons.IH [of ?r ?A] Cons.prems(2) do_self [of r op] by (simp add: Let_def)
qed simp

lemma told_votes:
  assumes "match_told A self ms" "0 < idx"
  shows "length (filter (\<lambda>m. is_voter m \<and> mb_match_index m \<ge> idx) ms) \<le>
    length (filter (\<lambda>m. is_voter m \<and> (mb_id m = self \<or> acked A (mb_id m) idx)) ms)"
  using assms
proof (induction ms)
  case (Cons m ms)
  have "mb_match_index m = 0 \<or> mb_id m = self \<or> (mb_id m, mb_match_index m) \<in> set A"
    using Cons.prems(1) by (simp add: match_told_def)
  then have "mb_match_index m \<ge> idx \<Longrightarrow> mb_id m = self \<or> acked A (mb_id m) idx"
    using assms(2) by (auto simp: acked_def list_ex_iff)
  moreover have "match_told A self ms" using Cons.prems(1) by (simp add: match_told_def)
  ultimately show ?case using Cons.IH assms(2) by auto
qed simp

lemma run_snoc: "fst (raft_run r (ops @ [op])) = fst (raft_do (fst (raft_run r ops)) op)"
  by (induction ops arbitrary: r) simp_all

lemma run_self: "r_self (fst (raft_run r ops)) = r_self r"
  by (induction ops arbitrary: r) (simp_all add: do_self)

section \<open>Properties\<close>

definition demo_node :: raft where
  "demo_node = foldl (\<lambda>r i. snd (raft_add_member r i RAFT_VOTER True)) (the (raft_new 1 True True None)) [1, 2, 3]"

definition vote_req :: "u64 \<Rightarrow> u64 \<Rightarrow> raft_msg" where
  "vote_req c t = (msg_zero RAFT_MSG_REQUEST_VOTE)\<lparr>m_term := t, m_candidate_id := c\<rparr>"

lemma demo_node_wf: "raft_wf demo_node"
  by code_simp

text \<open>
  C1: A node grants its vote to at most one candidate per term, whatever requests,
  replies, ticks and membership changes it processes in whatever order. (Terms stay
  below the largest 64 bit value, where \<open>current_term++\<close> wraps.)
\<close>

theorem raft_one_vote_per_term:
  assumes "terms_bounded r ops"
    and "(t, c) \<in> set (grants (snd (raft_run r ops)))" and "c \<noteq> RAFT_NO_NODE"
    and "(t, c') \<in> set (grants (snd (raft_run r ops)))" and "c' \<noteq> RAFT_NO_NODE"
  shows "c = c'"
  using run_one_vote [OF assms(1,2,4,3,5)] .

theorem raft_one_vote_per_term_witness:
  "(let ops = [Op_recv 2 (vote_req 2 1), Op_recv 3 (vote_req 3 1), Op_recv 2 (vote_req 2 1)] in
     terms_bounded demo_node ops \<and> grants (snd (raft_run demo_node ops)) = [(1, 2), (1, 2)])"
proof -
  let ?ops = "[Op_recv 2 (vote_req 2 1), Op_recv 3 (vote_req 3 1), Op_recv 2 (vote_req 2 1)]"
  have "r_term demo_node = 0" by code_simp
  then have b: "terms_bounded demo_node ?ops" by (simp add: terms_bounded_def vote_req_def msg_zero_def)
  have g: "grants (snd (raft_run demo_node ?ops)) = [(1, 2), (1, 2)]" by code_simp
  have "(2 :: u64) = 2"
    by (rule raft_one_vote_per_term [OF b, of 1 2 2]) (simp_all only: g, simp_all add: RAFT_NO_NODE_def)
  with b g show ?thesis by simp
qed

text \<open>
  From its creation on, whatever the node is told, its log holds at most 512 entries
  with consecutive indices starting at 1 and data that fits, its members are at most 16,
  distinct and not the reserved id, everything committed has been applied, and a leader
  has voted for itself in its term.
\<close>

theorem raft_invariant:
  assumes "raft_new self s a cfg = Some r" and "\<forall>op \<in> set ops. op_wf op"
  shows "raft_wf (fst (raft_run r ops)) \<and> self_voted (fst (raft_run r ops))"
  using raft_new_wf [OF assms(1)] run_wf [OF _ assms(2)] run_self_voted by blast

theorem raft_invariant_witness:
  "(let r = the (raft_new 7 True True None); ops = [Op_add 7 RAFT_VOTER True, Op_tick 1000, Op_propose [1]] in
     raft_new 7 True True None = Some r \<and> raft_wf (fst (raft_run r ops)) \<and>
     r_role (fst (raft_run r ops)) = RAFT_LEADER \<and> length (r_log (fst (raft_run r ops))) = 2)"
proof -
  let ?r = "the (raft_new 7 True True None)"
  let ?ops = "[Op_add 7 RAFT_VOTER True, Op_tick 1000, Op_propose [1]]"
  have n: "raft_new 7 True True None = Some ?r" by (simp add: raft_new_def RAFT_NO_NODE_def)
  have "r_role (fst (raft_run ?r ?ops)) = RAFT_LEADER" "length (r_log (fst (raft_run ?r ?ops))) = 2"
    by code_simp+
  with n raft_invariant [OF n, of ?ops] show ?thesis by simp
qed

text \<open>
  C5: The entries handed to the application are application entries, in strictly
  increasing order of their log index, each index at most once, and between the old and
  the new \<open>last_applied\<close>.
\<close>

theorem raft_applies_in_order:
  assumes "raft_wf r" and "\<forall>op \<in> set ops. op_wf op" and "raft_run r ops = (r', es)"
  shows "sorted_wrt (<) (map re_index (applies es)) \<and>
    (\<forall>e \<in> set (applies es). re_type e = RAFT_ENTRY_NORMAL \<and> r_applied r < re_index e \<and> re_index e \<le> r_applied r')"
  using run_ordered [OF assms(1,2)] by (simp add: assms(3) ordered_between_def)

theorem raft_applies_in_order_witness:
  "(let r = fst (raft_run (the (raft_new 7 True True None)) [Op_add 7 RAFT_VOTER True, Op_tick 1000]);
        ops = [Op_propose [1], Op_propose [2]] in
     raft_wf r \<and> map re_index (applies (snd (raft_run r ops))) = [2, 3])"
proof -
  let ?r = "fst (raft_run (the (raft_new 7 True True None)) [Op_add 7 RAFT_VOTER True, Op_tick 1000])"
  let ?ops = "[Op_propose [1], Op_propose [2]]"
  have w: "raft_wf ?r" by code_simp
  have "map re_index (applies (snd (raft_run ?r ?ops))) = [2, 3]" by code_simp
  with w raft_applies_in_order [OF w _ prod.collapse [symmetric], of ?ops] show ?thesis by simp
qed

text \<open>
  C6: A follower that accepts an AppendEntries message (its term is not stale and the
  entry before the batch matches) keeps its log up to \<open>prev_log_index\<close>, holds afterwards an
  entry of the sent term at every index of the batch, loses nothing when the batch does
  not conflict with what it has, and ends with the same log when the message is
  delivered a second time.
\<close>

theorem raft_append_matches:
  assumes "raft_wf r" and "msg_wf m" and "r_term r \<le> m_term m"
    and "unat (m_prev_log_index m) \<le> length (r_log r)" and "term_at r (m_prev_log_index m) = m_prev_log_term m"
    and "unat (m_prev_log_index m) + length (m_entries m) \<le> RAFT_MAX_LOG"
  defines "p \<equiv> unat (m_prev_log_index m)" and "l \<equiv> r_log (fst (handle_append r m))"
  shows "take p l = take p (r_log r) \<and>
    (\<forall>i < length (m_entries m). p + i < length l \<and> re_term (l ! (p + i)) = re_term (m_entries m ! i)) \<and>
    ((\<forall>i < length (m_entries m). p + i < length (r_log r) \<longrightarrow> re_term (r_log r ! (p + i)) = re_term (m_entries m ! i))
       \<longrightarrow> (\<exists>t. l = r_log r @ t)) \<and>
    r_log (fst (handle_append (fst (handle_append r m)) m)) = l"
proof -
  let ?r = "fst (handle_append r m)"
  have w: "log_wf (r_log r)" using assms(1) by (simp add: raft_wf_def)
  have l: "l = merge_log p (r_log r) (m_entries m)"
    using assms(4,5) leD [OF assms(3)] handle_append_log [OF w assms(2)] by (simp add: l_def p_def)
  have wl: "log_wf (r_log ?r)" using handle_append_log_wf [OF w assms(2)] .
  have pl: "p \<le> length (r_log r)" using assms(4) by (simp add: p_def)
  have pre: "take p l = take p (r_log r)" unfolding l by (rule merge_log_prefix [OF w pl])
  then have pl': "p \<le> length l" using pl by (metis length_take min.absorb2 min.cobounded1)
  have "r_term ?r = m_term m" using assms(3-5) w
    by (simp add: handle_append_def Let_def word_less_nat_alt unat_last_log_index not_less word_le_nat_alt)
  moreover have "term_at ?r (m_prev_log_index m) = m_prev_log_term m"
  proof (cases "p = 0")
    case False
    have pos: "m_prev_log_index m = word_of_nat (Suc (p - 1))" using False by (simp add: p_def)
    have "r_log ?r ! (p - 1) = r_log r ! (p - 1)"
      using pre False pl pl' by (metis diff_less l_def less_numeral_extra(1) not_gr_zero nth_take)
    then show ?thesis
      using term_at_nth [OF wl, of "p - 1"] term_at_nth [OF w, of "p - 1"] False pl pl' pos assms(5)
      by (simp add: l_def)
  qed (use assms(5) in \<open>simp add: p_def term_at_def unat_eq_0\<close>)
  ultimately have "r_log (fst (handle_append ?r m)) = merge_log p l (m_entries m)"
    using handle_append_log [OF wl assms(2)] pl' by (simp add: l_def p_def)
  then have "r_log (fst (handle_append ?r m)) = l"
    using merge_log_idem [OF pl] assms(6) by (simp add: l p_def)
  moreover have "\<forall>i < length (m_entries m). p + i < length l \<and> re_term (l ! (p + i)) = re_term (m_entries m ! i)"
    unfolding l using merge_log_terms [OF pl] assms(6) by (simp add: p_def)
  ultimately show ?thesis using pre merge_log_no_conflict [OF _ pl] unfolding l by blast
qed

definition append_req :: "u64 \<Rightarrow> raft_entry list \<Rightarrow> raft_msg" where
  "append_req t es = (msg_zero RAFT_MSG_APPEND)\<lparr>m_term := t, m_leader_id := 2, m_entries := es\<rparr>"

theorem raft_append_matches_witness:
  "(let e = \<lparr>re_term = 4, re_index = 1, re_type = 0, re_data = [9]\<rparr>; m = append_req 5 [e] in
     raft_wf demo_node \<and> msg_wf m \<and>
     map re_term (r_log (fst (handle_append demo_node m))) = [4] \<and>
     r_log (fst (handle_append (fst (handle_append demo_node m)) m)) = r_log (fst (handle_append demo_node m)))"
proof -
  let ?m = "append_req 5 [\<lparr>re_term = 4, re_index = 1, re_type = 0, re_data = [9]\<rparr>]"
  have m: "msg_wf ?m" by (simp add: msg_wf_def append_req_def RAFT_ENTRY_MAX_def)
  have d: "r_log demo_node = []" "r_term demo_node = 0" by code_simp+
  have "map re_term (r_log (fst (handle_append demo_node ?m))) = [4]" by code_simp
  moreover have "r_log (fst (handle_append (fst (handle_append demo_node ?m)) ?m)) = r_log (fst (handle_append demo_node ?m))"
    using raft_append_matches [OF demo_node_wf m]
    by (simp add: d append_req_def msg_zero_def term_at_def RAFT_MAX_LOG_def)
  ultimately show ?thesis using m demo_node_wf by simp
qed

text \<open>
  A leader never overwrites or deletes its own log entries: as long as it stays leader
  an operation only appends to the log.
\<close>

theorem raft_leader_append_only:
  assumes "raft_wf r" and "op_wf op" and "r_role r = RAFT_LEADER" and "r_role (fst (raft_do r op)) = RAFT_LEADER"
  shows "\<exists>t. r_log (fst (raft_do r op)) = r_log r @ t"
  using do_append_only [OF assms] .

definition demo_leader :: raft where
  "demo_leader = fst (raft_run (the (raft_new 7 True True None)) [Op_add 7 RAFT_VOTER True, Op_tick 1000])"

theorem raft_leader_append_only_witness:
  "raft_wf demo_leader \<and> r_role demo_leader = RAFT_LEADER \<and>
     (\<exists>t. r_log (fst (raft_do demo_leader (Op_propose [1]))) = r_log demo_leader @ t)"
proof -
  have w: "raft_wf demo_leader" by code_simp
  have r: "r_role demo_leader = RAFT_LEADER" "r_role (fst (raft_do demo_leader (Op_propose [1]))) = RAFT_LEADER"
    by code_simp+
  from raft_leader_append_only [OF w _ r] w r(1) show ?thesis by simp
qed

text \<open>
  C14: When a leader moves its commit index, it moves it forward, to an entry of its log that
  has the leader's own term; and a quorum of the voters, itself included, has acknowledged
  that index or a later one, each in a message the node has received since it became leader.
  (The entries before it are committed with it, whatever their term. An acknowledgement is
  taken at its word: a follower with a full log also acknowledges the entries it has dropped.)
\<close>

theorem raft_commit_rule:
  assumes "r_role r \<noteq> RAFT_LEADER" and "raft_run r ops = (r1, es1)" and "raft_do r1 op = (r2, es2)"
    and "r_role r1 = RAFT_LEADER" and "r_role r2 = RAFT_LEADER" and "r_commit r2 \<noteq> r_commit r1"
  shows "r_commit r1 < r_commit r2 \<and> r_commit r2 \<le> last_log_index r2 \<and>
    term_at r2 (r_commit r2) = r_term r2 \<and>
    quorum r2 \<le> length (filter (\<lambda>m. is_voter m \<and>
      (mb_id m = r_self r \<or> acked (acks_since [] r (ops @ [op])) (mb_id m) (r_commit r2))) (r_members r2))"
proof -
  have ok: "r_commit r1 < r_commit r2" "r_commit r2 \<le> last_log_index r2" "term_at r2 (r_commit r2) = r_term r2"
    "quorum r2 \<le> replicated_votes r2 (r_commit r2)"
    using do_commit_ok [OF assms(4), of op] assms(3,5,6) by (simp_all add: commit_ok_def)
  have r2: "fst (raft_run r (ops @ [op])) = r2" using assms(2,3) by (simp add: run_snoc)
  have "match_told (acks_since [] r (ops @ [op])) (r_self r) (r_members r2)"
    using acks_since_told [of r "[]" "ops @ [op]"] assms(1,5) by (simp add: r2)
  moreover have "0 < r_commit r2" using ok(1) by (metis word_gt_0 word_not_simps(1))
  ultimately show ?thesis using ok told_votes [of _ "r_self r" "r_members r2" "r_commit r2"]
    by (fastforce simp: replicated_votes_def)
qed

definition demo_ack :: raft_msg where
  "demo_ack = (msg_zero RAFT_MSG_APPEND_RESP)\<lparr>m_term := 1, m_success := 1, m_match_index := 1\<rparr>"

definition demo_grant :: "int \<Rightarrow> raft_msg" where
  "demo_grant pre = (msg_zero RAFT_MSG_REQUEST_VOTE_RESP)\<lparr>m_pre_vote := pre, m_term := 1, m_vote_granted := 1\<rparr>"

theorem raft_commit_rule_witness:
  "(let ops = [Op_tick 1000, Op_recv 2 (demo_grant 1), Op_recv 3 (demo_grant 0)]; op = Op_recv 3 demo_ack;
        r1 = fst (raft_run demo_node ops); r2 = fst (raft_do r1 op) in
     r_commit r1 = 0 \<and> r_commit r2 = 1 \<and> length (r_members r2) = 3 \<and> acks_since [] demo_node (ops @ [op]) = [(3, 1)] \<and>
     quorum r2 \<le> length (filter (\<lambda>m. is_voter m \<and> (mb_id m = 1 \<or> acked [(3, 1)] (mb_id m) 1)) (r_members r2)))"
proof -
  let ?ops = "[Op_tick 1000, Op_recv 2 (demo_grant 1), Op_recv 3 (demo_grant 0)]" and ?op = "Op_recv 3 demo_ack"
  let ?r1 = "fst (raft_run demo_node ?ops)"
  let ?r2 = "fst (raft_do ?r1 ?op)"
  have r: "r_role demo_node \<noteq> RAFT_LEADER" "r_role ?r1 = RAFT_LEADER" "r_role ?r2 = RAFT_LEADER" by code_simp+
  have c: "r_commit ?r1 = 0" "r_commit ?r2 = 1" "acks_since [] demo_node (?ops @ [?op]) = [(3, 1)]" "r_self demo_node = 1"
    "length (r_members ?r2) = 3" by code_simp+
  have ne: "r_commit ?r2 \<noteq> r_commit ?r1" using c by simp
  from raft_commit_rule [OF r(1) prod.collapse [symmetric] prod.collapse [symmetric] r(2,3) ne] c
  show ?thesis by (simp add: Let_def del: raft_run.simps raft_do.simps)
qed

text \<open>
  The code never dereferences the result of a failed \<open>find_member(r, r->self)\<close> and never
  divides by zero, as long as the node is a member of its own configuration, is not asked
  to remove itself, and the configured election spread is not the largest 32 bit value.
\<close>

theorem raft_no_undefined_behaviour:
  assumes "raft_wf r" and "r_self r \<in> set (mids r)" and "election_spread_ms (r_cfg r) \<noteq> - 1" and "\<not> r_fault r"
    and "\<forall>op \<in> set ops. op_wf op \<and> op \<noteq> Op_remove (r_self r)"
  shows "\<not> r_fault (fst (raft_run r ops))"
proof -
  have "fault_free r" using assms(2-4) by (simp add: fault_free_def add_eq_0_iff2)
  from run_fault_free [OF this assms(1,5)] show ?thesis by (simp add: fault_free_def)
qed

theorem raft_no_undefined_behaviour_witness:
  "raft_wf demo_leader \<and> \<not> r_fault (fst (raft_run demo_leader [Op_propose [1], Op_tick 5000, Op_remove 3])) \<and>
     r_fault (fst (raft_run demo_leader [Op_remove 7, Op_propose [1]]))"
proof -
  have w: "raft_wf demo_leader" "r_self demo_leader \<in> set (mids demo_leader)"
    "election_spread_ms (r_cfg demo_leader) \<noteq> - 1" "\<not> r_fault demo_leader" "r_self demo_leader = 7" by code_simp+
  moreover have "r_fault (fst (raft_run demo_leader [Op_remove 7, Op_propose [1]]))" by code_simp
  ultimately show ?thesis
    using raft_no_undefined_behaviour [OF w(1-4), of "[Op_propose [1], Op_tick 5000, Op_remove 3]"] by simp
qed

text \<open>
  Only a voter that is marked eligible leaves the follower role, and a node becomes
  leader only with its own vote and the vote flags of a quorum of the voters set.
\<close>

theorem raft_leader_needs_quorum:
  assumes "self_voted r" and "raft_do r op = (r', es)"
  shows "(r_role r = RAFT_FOLLOWER \<and> r_role r' \<noteq> RAFT_FOLLOWER \<longrightarrow> self_is_eligible_voter r) \<and>
    (r_role r \<noteq> RAFT_LEADER \<and> r_role r' = RAFT_LEADER \<longrightarrow>
       quorum r' \<le> count_grants r' \<and> r_voted_for r' = r_self r')"
  using follower_stays [of r op] do_leader [OF assms(1), of op] do_self [of r op] assms(2)
  by (auto simp: won_def)

theorem raft_leader_needs_quorum_witness:
  "(let r = snd (raft_add_member (the (raft_new 7 True True None)) 7 RAFT_VOTER True);
        r' = fst (raft_do r (Op_tick 1000)) in
     self_voted r \<and> r_role r' = RAFT_LEADER \<and> self_is_eligible_voter r \<and> quorum r' \<le> count_grants r')"
proof -
  let ?r = "snd (raft_add_member (the (raft_new 7 True True None)) 7 RAFT_VOTER True)"
  have r: "r_role ?r = RAFT_FOLLOWER" "r_role (fst (raft_do ?r (Op_tick 1000))) = RAFT_LEADER" by code_simp+
  have s: "self_voted ?r" by code_simp
  from raft_leader_needs_quorum [OF s prod.collapse [symmetric], of "Op_tick 1000"] r s show ?thesis
    by (simp add: Let_def del: raft_do.simps)
qed

lemma grant_member:
  assumes "distinct (mids r)"
  shows "(case find_member r i of None \<Rightarrow> r | Some k \<Rightarrow> set_member r k f) =
    r\<lparr>r_members := map (\<lambda>m. if mb_id m = i then f m else m) (r_members r)\<rparr>"
proof (cases "find_member r i")
  case None
  then have "map (\<lambda>m. if mb_id m = i then f m else m) (r_members r) = r_members r"
    by (auto simp: find_member_def intro!: map_idI)
  with None show ?thesis by simp
next
  case (Some k)
  then have k: "k < length (r_members r)" "mb_id (r_members r ! k) = i" by (auto simp: find_member_def dest: find_idx_SomeD)
  have "mb_id (r_members r ! j) = i \<longleftrightarrow> j = k" if "j < length (r_members r)" for j
    using that k assms nth_eq_iff_index_eq [of "mids r" j k] by (simp add: mids_def)
  then have "(r_members r)[k := f (r_members r ! k)] = map (\<lambda>m. if mb_id m = i then f m else m) (r_members r)"
    by (intro nth_equalityI) (auto simp: nth_list_update)
  with Some show ?thesis by (simp add: set_member_def)
qed

definition grant_all :: "u64 set \<Rightarrow> raft \<Rightarrow> raft" where
  "grant_all I r = r\<lparr>r_members := map (\<lambda>m. if mb_id m \<in> I then m\<lparr>mb_vote_granted := True\<rparr> else m) (r_members r)\<rparr>"

lemma grant_all_frame [simp]:
  "r_role (grant_all I r) = r_role r" "r_in_pre_vote (grant_all I r) = r_in_pre_vote r" "r_term (grant_all I r) = r_term r"
  "mids (grant_all I r) = mids r" "quorum (grant_all I r) = quorum r"
  by (simp_all add: grant_all_def mids_def quorum_def count_voters_def comp_def filter_map is_voter_def [abs_def] if_distrib cong: if_cong)

lemma grant_all_comp [simp]: "grant_all {} r = r" "grant_all I (grant_all J r) = grant_all (I \<union> J) r"
  by (auto simp: grant_all_def comp_def)

lemma recv_grant:
  assumes "distinct (mids r)" "m_type m = RAFT_MSG_REQUEST_VOTE_RESP" "m_vote_granted m \<noteq> 0"
  shows "raft_recv r i m = handle_request_vote_resp (grant_all {i} r) m"
  using assms grant_member [OF assms(1), where i = i and f = "\<lambda>mm. mm\<lparr>mb_vote_granted := True\<rparr>"]
  by (simp add: raft_recv_def grant_all_def cong: option.case_cong)

lemma prevotes_grant:
  assumes "distinct (mids r)" "r_role r = RAFT_CANDIDATE" "r_in_pre_vote r = 0"
    and "\<forall>i \<in> set is. m_type (pm i) = RAFT_MSG_REQUEST_VOTE_RESP \<and> m_pre_vote (pm i) \<noteq> 0 \<and> m_vote_granted (pm i) \<noteq> 0"
  shows "fst (raft_run r (map (\<lambda>i. Op_recv i (pm i)) is)) = grant_all (set is) r"
  using assms
proof (induction "is" arbitrary: r)
  case (Cons i "is")
  have "raft_recv r i (pm i) = (grant_all {i} r, [])"
    using Cons.prems by (simp add: recv_grant handle_request_vote_resp_def)
  then show ?case using Cons.IH [of "grant_all {i} r"] Cons.prems by simp
qed simp

lemma grants_counted:
  assumes "distinct is" "\<forall>i \<in> set is. raft_is_voter r i" "\<forall>m \<in> set (r_members r). mb_id m \<in> set is - I \<longrightarrow> mb_vote_granted m"
  shows "length is \<le> count_grants (grant_all I r)"
proof -
  let ?g = "filter (\<lambda>m. is_voter m \<and> mb_vote_granted m) (r_members (grant_all I r))"
  have "i \<in> mb_id ` set ?g" if i: "i \<in> set is" for i
  proof -
    obtain k where k: "find_idx (\<lambda>m. mb_id m = i) (r_members r) = Some k" "is_voter (r_members r ! k)"
      using bspec [OF assms(2) i] by (simp add: raft_is_voter_def find_member_def split: option.splits)
    define m where "m = r_members r ! k"
    have m: "m \<in> set (r_members r)" "mb_id m = i" "is_voter m" using find_idx_SomeD [OF k(1)] k(2) by (auto simp: m_def)
    let ?m = "if mb_id m \<in> I then m\<lparr>mb_vote_granted := True\<rparr> else m"
    have "?m \<in> set ?g" using m i assms(3) by (auto simp: grant_all_def is_voter_def)
    then show ?thesis using m(2) by (intro image_eqI [of _ _ ?m]) simp_all
  qed
  then have "card (set is) \<le> card (set ?g)" by (intro surj_card_le) auto
  then have "card (set is) \<le> length ?g" using card_length le_trans by blast
  then show ?thesis using assms(1) by (simp add: count_grants_def distinct_card)
qed

text \<open>
  C13: In the round of real votes, replies of the PreVote round are counted as votes. A
  candidate that has voted for itself, and is handed any number of late PreVote grants and
  then a single vote, becomes leader of its term as soon as these senders make up a quorum
  together with itself: two real votes are enough, in a cluster of any size.
\<close>

theorem raft_prevote_counted:
  assumes "raft_wf r" "r_role r = RAFT_CANDIDATE" "r_in_pre_vote r = 0"
    and "\<forall>m \<in> set (r_members r). mb_id m = r_self r \<longrightarrow> mb_vote_granted m"
    and "distinct (r_self r # v # is)" "\<forall>i \<in> set (r_self r # v # is). raft_is_voter r i" "quorum r \<le> length is + 2"
    and "\<forall>i \<in> set is. m_type (pm i) = RAFT_MSG_REQUEST_VOTE_RESP \<and> m_pre_vote (pm i) \<noteq> 0 \<and> m_vote_granted (pm i) \<noteq> 0"
    and "m_type g = RAFT_MSG_REQUEST_VOTE_RESP" "m_pre_vote g = 0" "m_vote_granted g \<noteq> 0" "m_term g = r_term r"
    and "raft_run r (map (\<lambda>i. Op_recv i (pm i)) is @ [Op_recv v g]) = (r', es)"
  shows "r_role r' = RAFT_LEADER \<and> r_term r' = r_term r"
proof -
  have d: "distinct (mids r)" using assms(1) by (simp add: raft_wf_def)
  let ?c = "grant_all (insert v (set is)) r"
  have "r' = fst (raft_recv (grant_all (set is) r) v g)"
    using prevotes_grant [OF d assms(2,3,8)] run_snoc [of r "map (\<lambda>i. Op_recv i (pm i)) is" "Op_recv v g"] assms(13) by simp
  then have r': "r' = fst (handle_request_vote_resp ?c g)" using recv_grant [of "grant_all (set is) r" g v] d assms(9,11) by simp
  have "length (r_self r # v # is) \<le> count_grants ?c"
    using grants_counted [OF assms(5,6), of "insert v (set is)"] assms(4) by auto
  then have "\<not> count_grants ?c < quorum ?c" using assms(7) by simp
  then have "r' = fst (become_leader ?c)" using r' assms(2,3,10-12) by (simp add: handle_request_vote_resp_def)
  moreover have "r_role (fst (become_leader ?c)) = RAFT_LEADER" by (simp add: become_leader_def Let_def)
  ultimately show ?thesis by simp
qed

definition demo_five :: raft where
  "demo_five = foldl (\<lambda>r i. snd (raft_add_member r i RAFT_VOTER True)) (the (raft_new 1 True True None)) [1, 2, 3, 4, 5]"

theorem raft_prevote_counted_witness:
  "(let r = fst (raft_run demo_five [Op_tick 1000, Op_recv 2 (demo_grant 1), Op_recv 3 (demo_grant 1)]);
        r' = fst (raft_run r [Op_recv 4 (demo_grant 1), Op_recv 2 (demo_grant 0)]) in
     r_role r = RAFT_CANDIDATE \<and> quorum r = 3 \<and> r_role r' = RAFT_LEADER \<and> r_term r' = 1)"
proof -
  let ?r = "fst (raft_run demo_five [Op_tick 1000, Op_recv 2 (demo_grant 1), Op_recv 3 (demo_grant 1)])"
  have w: "raft_wf ?r" "r_role ?r = RAFT_CANDIDATE" "r_in_pre_vote ?r = 0"
    "\<forall>m \<in> set (r_members ?r). mb_id m = r_self ?r \<longrightarrow> mb_vote_granted m" by code_simp+
  have q: "distinct (r_self ?r # 2 # [4])" "\<forall>i \<in> set (r_self ?r # 2 # [4]). raft_is_voter ?r i" "quorum ?r = 3" "r_term ?r = 1" by code_simp+
  have g: "m_type (demo_grant b) = RAFT_MSG_REQUEST_VOTE_RESP" "m_pre_vote (demo_grant b) = b" "m_vote_granted (demo_grant b) = 1"
    "m_term (demo_grant b) = 1" for b by (simp_all add: demo_grant_def msg_zero_def)
  from raft_prevote_counted [OF w q(1,2) _ _ g(1) g(2) _ _ prod.collapse [symmetric], of "\<lambda>_. demo_grant 1"] g q w(2)
  show ?thesis by (simp add: Let_def del: raft_run.simps raft_do.simps)
qed





text \<open>
  A quorum of granted votes and a quorum of replicas have a voter in common: among the
  members a leader counted there is one that has granted its vote and holds the entry.
\<close>

theorem raft_quorums_overlap:
  assumes "quorum r \<le> count_grants r" and "quorum r \<le> replicated_votes r idx"
  shows "\<exists>m \<in> set (r_members r). is_voter m \<and> mb_vote_granted m \<and> idx \<le> mb_match_index m"
proof -
  let ?S = "\<lambda>P. {i. i < length (r_members r) \<and> is_voter (r_members r ! i) \<and> P (r_members r ! i)}"
  have "?S mb_vote_granted \<inter> ?S (\<lambda>m. idx \<le> mb_match_index m) \<noteq> {}"
  proof (rule rq.quorums_meet [of _ r])
    show "quorum r \<le> card (?S mb_vote_granted)" "quorum r \<le> card (?S (\<lambda>m. idx \<le> mb_match_index m))"
      using assms by (simp_all add: count_grants_def replicated_votes_def length_filter_conv_card)
  qed (auto simp: voter_set_def)
  then obtain i where "i < length (r_members r)" "is_voter (r_members r ! i)"
    "mb_vote_granted (r_members r ! i)" "idx \<le> mb_match_index (r_members r ! i)" by auto
  then show ?thesis by (intro bexI [of _ "r_members r ! i"]) simp_all
qed

theorem raft_quorums_overlap_witness:
  "(let r = fst (raft_do demo_leader (Op_propose [1])) in
     \<exists>m \<in> set (r_members r). is_voter m \<and> mb_vote_granted m \<and> 2 \<le> mb_match_index m)"
proof -
  let ?r = "fst (raft_do demo_leader (Op_propose [1]))"
  have "quorum ?r \<le> count_grants ?r" "quorum ?r \<le> replicated_votes ?r 2" by code_simp+
  from raft_quorums_overlap [OF this] show ?thesis by (simp add: Let_def)
qed

lemma append_own_votes:
  assumes "raft_is_voter r (r_self r)"
  shows "1 \<le> replicated_votes (append_own ty d r) (last_log_index (append_own ty d r))"
    and "count_voters (append_own ty d r) = count_voters r"
proof -
  let ?r1 = "r\<lparr>r_log := r_log r @ [\<lparr>re_term = r_term r, re_index = last_log_index r + 1, re_type = ty, re_data = d\<rparr>]\<rparr>"
  obtain i where i: "find_member r (r_self r) = Some i" "is_voter (r_members r ! i)"
    using assms by (auto simp: raft_is_voter_def split: option.splits)
  have len: "i < length (r_members r)" using i(1) by (auto simp: find_member_def dest: find_idx_less)
  have f: "find_member ?r1 (r_self ?r1) = Some i" using i(1) by (simp add: find_member_def)
  have ll: "last_log_index (append_own ty d r) = last_log_index ?r1" by (simp add: last_log_index_def)
  have m: "r_members (append_own ty d r) ! i = (r_members r ! i)\<lparr>mb_match_index := last_log_index ?r1\<rparr>"
    "i < length (r_members (append_own ty d r))"
    using f len by (simp_all add: append_own_def Let_def set_self_def set_member_def)
  then have "r_members (append_own ty d r) ! i \<in>
      set (filter (\<lambda>m. is_voter m \<and> mb_match_index m \<ge> last_log_index ?r1) (r_members (append_own ty d r)))"
    using i(2) nth_mem [OF m(2)] by (simp add: is_voter_def)
  then show "1 \<le> replicated_votes (append_own ty d r) (last_log_index (append_own ty d r))"
    unfolding replicated_votes_def ll One_nat_def by (rule Suc_leI [OF length_pos_if_in_set])
  show "count_voters (append_own ty d r) = count_voters r"
    by (simp add: count_voters_def append_own_def Let_def set_self_len is_voter_def)
qed

lemma sole_voter_propose:
  assumes "raft_wf r" and "r_role r = RAFT_LEADER" and "count_voters r = 1" and "raft_is_voter r (r_self r)"
    and "unat (r_applied r) \<le> length (r_log r)" and "length (r_log r) < RAFT_MAX_LOG"
    and "length d \<le> RAFT_ENTRY_MAX" and "r_io_apply r"
  defines "e \<equiv> \<lparr>re_term = r_term r, re_index = last_log_index r + 1, re_type = RAFT_ENTRY_NORMAL, re_data = d\<rparr>"
    and "i \<equiv> word_of_nat (Suc (length (r_log r)))" and "x \<equiv> snd (raft_propose r d)"
  shows "fst (raft_propose r d) = i" and "r_commit (fst x) = i" and "r_applied (fst x) = i"
    and "r_log (fst x) = r_log r @ [e]" and "r_role (fst x) = RAFT_LEADER"
    and "applies (snd x) = filter normal (map ((!) (r_log r)) [unat (r_applied r)..<length (r_log r)]) @ [e]"
proof -
  let ?r1 = "append_own RAFT_ENTRY_NORMAL d r" and ?n = "length (r_log r)"
  have w: "log_wf (r_log r)" and ca: "r_commit r \<le> r_applied r" using assms(1) by (simp_all add: raft_wf_def)
  have w1: "log_wf (r_log ?r1)" using log_wf_own [OF w assms(6,7)] by simp
  have li: "last_log_index ?r1 = i" by (simp add: last_log_index_def i_def)
  have ui: "unat i = Suc ?n" using unat_last_log_index [OF w1] by (simp add: li)
  have t: "term_at ?r1 i = r_term r" using term_at_nth [OF w1, of ?n] by (simp add: i_def)
  have lt: "r_commit ?r1 < i" "r_applied ?r1 < i"
    using ca assms(5) unfolding word_less_nat_alt word_le_nat_alt ui by simp_all
  moreover have "quorum ?r1 \<le> replicated_votes ?r1 i"
    using append_own_votes [OF assms(4), of RAFT_ENTRY_NORMAL d] assms(3) by (simp add: quorum_def li)
  ultimately have "advance_loop ?r1 (last_log_index ?r1) = ?r1\<lparr>r_commit := i\<rparr>"
    unfolding li using t by (subst advance_loop.simps) simp
  then have a: "advance_commit ?r1 = apply_committed (?r1\<lparr>r_commit := i\<rparr>)" by (simp add: advance_commit_def)
  have x: "raft_propose r d = (i, andthen (?r1, broadcast_append ?r1) advance_commit)"
    using assms(2,6,7) by (simp add: raft_propose_def Let_def last_log_index_def i_def)
  have mx: "max (r_applied r) i = i" using lt by (simp add: max_absorb2)
  show "fst (raft_propose r d) = i" "r_commit (fst x) = i" "r_applied (fst x) = i"
    "r_log (fst x) = r_log r @ [e]" "r_role (fst x) = RAFT_LEADER"
    using mx assms(2) by (simp_all add: x_def x a e_def)
  have "map ((!) (r_log ?r1)) [unat (r_applied r)..<Suc ?n] =
      map ((!) (r_log r)) [unat (r_applied r)..<?n] @ [e]"
    using assms(5) by (simp add: nth_append e_def)
  then show "applies (snd x) = filter normal (map ((!) (r_log r)) [unat (r_applied r)..<?n]) @ [e]"
    using assms(8) by (simp add: x_def x a ui e_def)
qed

text \<open>
  A leader that is the only voter commits and applies a proposal at once: the proposal
  gets the next index, the commit index becomes that index, and the last entry handed to
  the application is the proposal.
\<close>

theorem raft_sole_voter_commits:
  assumes "raft_wf r" and "r_role r = RAFT_LEADER" and "count_voters r = 1" and "raft_is_voter r (r_self r)"
    and "unat (r_applied r) \<le> length (r_log r)" and "length (r_log r) < RAFT_MAX_LOG"
    and "length d \<le> RAFT_ENTRY_MAX" and "r_io_apply r"
  shows "\<exists>r' es. raft_propose r d = (word_of_nat (Suc (length (r_log r))), r', es) \<and>
    r_commit r' = word_of_nat (Suc (length (r_log r))) \<and> r_applied r' = r_commit r' \<and>
    re_data (last (applies es)) = d \<and> re_index (last (applies es)) = r_commit r'"
  using sole_voter_propose [OF assms]
  by (intro exI [of _ "fst (snd (raft_propose r d))"] exI [of _ "snd (snd (raft_propose r d))"])
    (simp add: prod_eq_iff last_log_index_def)

theorem raft_sole_voter_commits_witness:
  "\<exists>r' es. raft_propose demo_leader [5] = (2, r', es) \<and> r_commit r' = 2 \<and> re_data (last (applies es)) = [5]"
proof -
  have w: "raft_wf demo_leader" "r_role demo_leader = RAFT_LEADER" "count_voters demo_leader = 1"
    "raft_is_voter demo_leader (r_self demo_leader)" by code_simp+
  have l: "unat (r_applied demo_leader) \<le> length (r_log demo_leader)" "length (r_log demo_leader) = 1"
    "r_io_apply demo_leader" by code_simp+
  show ?thesis
    using raft_sole_voter_commits [OF w l(1) _ _ l(3), of "[5]"] l(2) by (auto simp: raft_consts)
qed

end
