(* ===== verification/Norn_Raft_Net.thy ===== *)
theory Norn_Raft_Net
  imports Norn_Raft_Props
begin

text \<open>
  A cluster of Raft nodes over a network that delays, reorders, loses and repeats
  messages: the composition in which \<open>norn_raft.c\<close> runs. A message sent by an
  operation is put in flight; a step ticks a node, hands it a proposal, or delivers,
  drops or duplicates one message in flight.
\<close>

record raft_net =
  n_nodes :: "raft list"
  n_msgs :: "(u64 \<times> u64 \<times> raft_msg) list"

datatype net_action = Tick nat u64 | Propose nat bytes | Deliver nat | Drop nat | Dup nat

fun sends :: "u64 \<Rightarrow> raft_effect list \<Rightarrow> (u64 \<times> u64 \<times> raft_msg) list" where
  "sends self [] = []"
| "sends self (Send d m # es) = (self, d, m) # sends self es"
| "sends self (Apply e # es) = sends self es"

definition node_out :: "raft_net \<Rightarrow> nat \<Rightarrow> raft_out \<Rightarrow> raft_net" where
  "node_out n i x = n\<lparr>n_nodes := (n_nodes n)[i := fst x],
                     n_msgs := n_msgs n @ sends (r_self (fst x)) (snd x)\<rparr>"

definition remove_nth :: "nat \<Rightarrow> 'a list \<Rightarrow> 'a list" where
  "remove_nth k xs = take k xs @ drop (Suc k) xs"

fun net_do :: "raft_net \<Rightarrow> net_action \<Rightarrow> raft_net" where
  "net_do n (Tick i t) =
     (if i < length (n_nodes n) then node_out n i (raft_tick (n_nodes n ! i) t) else n)"
| "net_do n (Propose i d) =
     (if i < length (n_nodes n) then node_out n i (snd (raft_propose (n_nodes n ! i) d)) else n)"
| "net_do n (Deliver k) =
     (if k < length (n_msgs n) then
        case n_msgs n ! k of (src, dst, m) \<Rightarrow>
          let n1 = n\<lparr>n_msgs := remove_nth k (n_msgs n)\<rparr> in
          case find_idx (\<lambda>r. r_self r = dst) (n_nodes n) of
            None \<Rightarrow> n1
          | Some i \<Rightarrow> node_out n1 i (raft_recv (n_nodes n ! i) src m)
      else n)"
| "net_do n (Drop k) = n\<lparr>n_msgs := remove_nth k (n_msgs n)\<rparr>"
| "net_do n (Dup k) = (if k < length (n_msgs n) then n\<lparr>n_msgs := n_msgs n @ [n_msgs n ! k]\<rparr> else n)"

definition net_run :: "raft_net \<Rightarrow> net_action list \<Rightarrow> raft_net" where
  "net_run = foldl net_do"

text \<open>A cluster as \<open>norn_cluster.c\<close> sets it up: every node knows the same voters.\<close>

definition fresh_node :: "u64 list \<Rightarrow> u64 \<Rightarrow> raft" where
  "fresh_node ids self =
     foldl (\<lambda>r i. snd (raft_add_member r i RAFT_VOTER True)) (the (raft_new self True True None)) ids"

definition fresh_net :: "u64 list \<Rightarrow> raft_net" where
  "fresh_net ids = \<lparr>n_nodes = map (fresh_node ids) ids, n_msgs = []\<rparr>"

inductive net_reachable :: "raft_net \<Rightarrow> raft_net \<Rightarrow> bool" for n0 where
  init: "net_reachable n0 n0"
| step: "net_reachable n0 n \<Longrightarrow> net_reachable n0 (net_do n a)"

lemma net_reachable_run: "net_reachable n0 n \<Longrightarrow> net_reachable n0 (net_run n as)"
  unfolding net_run_def by (induction as arbitrary: n) (auto intro: net_reachable.step)

section \<open>What nodes send\<close>

text \<open>A message fits a frame: at most a batch of entries, each within its array.\<close>

definition msg_fits :: "raft_msg \<Rightarrow> bool" where
  "msg_fits m \<longleftrightarrow> length (m_entries m) \<le> RAFT_MAX_BATCH \<and>
     (\<forall>e \<in> set (m_entries m). length (re_data e) \<le> RAFT_ENTRY_MAX)"

lemma msg_fits_wf: "msg_fits m \<Longrightarrow> msg_wf m"
  by (simp add: msg_fits_def msg_wf_def RAFT_MAX_BATCH_def)

definition sends_wf :: "raft_effect list \<Rightarrow> bool" where
  "sends_wf es \<longleftrightarrow> (\<forall>d m. Send d m \<in> set es \<longrightarrow> msg_fits m)"

lemma sends_wf_simps [simp]:
  "sends_wf []" "sends_wf (xs @ ys) \<longleftrightarrow> sends_wf xs \<and> sends_wf ys"
  "sends_wf (concat xss) \<longleftrightarrow> (\<forall>xs \<in> set xss. sends_wf xs)"
  "sends_wf (send_to r d m) \<longleftrightarrow> (r_io_send r \<longrightarrow> msg_fits m)"
  by (auto simp: sends_wf_def send_to_def)

lemma msg_fits_no_entries: "m_entries m = [] \<Longrightarrow> msg_fits m"
  by (simp add: msg_fits_def)

lemma batch_len_le: "batch_len r i \<le> RAFT_MAX_BATCH"
  unfolding batch_len_def by (rule order.trans [OF length_takeWhile_le]) simp

lemma send_append_wf: "log_wf (r_log r) \<Longrightarrow> sends_wf (send_append r mm)"
  using batch_len_le [of r "mb_next_index mm"]
  by (auto simp: send_append_def Let_def msg_fits_def log_wf_def dest!: in_set_takeD in_set_dropD)

lemma broadcast_wf:
  "sends_wf (broadcast_vote r p t)" "log_wf (r_log r) \<Longrightarrow> sends_wf (broadcast_append r)"
  by (auto simp: broadcast_vote_def Let_def msg_fits_no_entries msg_zero_def broadcast_append_def send_append_wf)

lemma apply_sends [simp]: "sends_wf (snd (apply_committed r))"
  by (auto simp: sends_wf_def apply_committed_closed)

lemma become_leader_sends: "log_wf (r_log r) \<Longrightarrow> sends_wf (snd (become_leader r))"
  using log_wf_own [of r "[]" RAFT_ENTRY_NOOP]
  by (auto simp: become_leader_def Let_def last_log_index_def intro!: broadcast_wf(2))

lemma start_election_sends: "log_wf (r_log r) \<Longrightarrow> sends_wf (snd (start_election r))"
  by (simp add: start_election_def Let_def become_leader_sends broadcast_wf)

lemma advance_commit_sends [simp]: "sends_wf (snd (advance_commit r))"
  by (simp add: advance_commit_def)

lemma handlers_sends:
  assumes "log_wf (r_log r)"
  shows "sends_wf (snd (handle_request_vote r m))" and "sends_wf (snd (handle_request_vote_resp r m))"
    and "sends_wf (snd (handle_append r m))" and "sends_wf (snd (handle_append_resp r from m))"
proof -
  show "sends_wf (snd (handle_request_vote r m))"
    by (simp add: handle_request_vote_def Let_def msg_fits_no_entries msg_zero_def)
  show "sends_wf (snd (handle_request_vote_resp r m))"
    using assms by (simp add: handle_request_vote_resp_def Let_def become_leader_sends broadcast_wf)
  show "sends_wf (snd (handle_append r m))"
    by (simp add: handle_append_def Let_def msg_fits_no_entries msg_zero_def)
  show "sends_wf (snd (handle_append_resp r from m))"
    using assms by (simp add: handle_append_resp_def Let_def send_append_wf split: option.split)
qed

lemma recv_sends: "log_wf (r_log r) \<Longrightarrow> sends_wf (snd (raft_recv r from m))"
  using handlers_sends [of r] handlers_sends(2) [of "set_member r i f" m for i f]
  by (simp add: raft_recv_def Let_def split: raft_msg_type.split option.split)

lemma tick_sends:
  assumes "log_wf (r_log r)" shows "sends_wf (snd (raft_tick r t))"
proof -
  have "sends_wf (snd (start_election r'))" if "r_log r' = r_log r" for r'
    using start_election_sends [of r'] assms that by simp
  moreover have "sends_wf (broadcast_append r')" if "r_log r' = r_log r" for r'
    using broadcast_wf(2) [of r'] assms that by simp
  ultimately show ?thesis by (simp add: raft_tick_def Let_def)
qed

lemma propose_sends: "log_wf (r_log r) \<Longrightarrow> sends_wf (snd (snd (raft_propose r d)))"
  using log_wf_own [of r d RAFT_ENTRY_NORMAL] broadcast_wf(2) [of "append_own RAFT_ENTRY_NORMAL d r"]
  by (simp add: raft_propose_def Let_def)

lemma sends_msgs: "sends_wf es \<Longrightarrow> \<forall>(s, d, m) \<in> set (sends self es). msg_fits m"
proof -
  have "(s, d, m) \<in> set (sends self es) \<Longrightarrow> Send d m \<in> set es" for s d m
    by (induction es rule: sends.induct) auto
  then show "sends_wf es \<Longrightarrow> \<forall>(s, d, m) \<in> set (sends self es). msg_fits m"
    by (fastforce simp: sends_wf_def)
qed

section \<open>The invariant of the cluster\<close>

definition node_inv :: "raft \<Rightarrow> bool" where
  "node_inv r \<longleftrightarrow> raft_wf r \<and> self_voted r \<and> fault_free r"

definition net_inv :: "raft_net \<Rightarrow> bool" where
  "net_inv n \<longleftrightarrow> (\<forall>r \<in> set (n_nodes n). node_inv r) \<and> (\<forall>(s, d, m) \<in> set (n_msgs n). msg_fits m)"

lemma node_step:
  assumes "node_inv r" and "op_wf op" and "op \<noteq> Op_remove (r_self r)"
  shows "node_inv (fst (raft_do r op))"
  using assms do_wf do_self_voted do_fault_free by (auto simp: node_inv_def raft_wf_def)

lemma node_out_inv:
  assumes "net_inv n" and "node_inv (fst x)" and "sends_wf (snd x)"
  shows "net_inv (node_out n i x)"
proof -
  have "\<forall>r \<in> set ((n_nodes n)[i := fst x]). node_inv r"
    using assms(1,2) set_update_subset [of "n_nodes n" i "fst x"] by (auto simp: net_inv_def)
  with assms(1) sends_msgs [OF assms(3), of "r_self (fst x)"] show ?thesis
    by (auto simp: net_inv_def node_out_def)
qed

lemma net_inv_msgs: "net_inv n \<Longrightarrow> set ms \<subseteq> set (n_msgs n) \<Longrightarrow> net_inv (n\<lparr>n_msgs := ms\<rparr>)"
  by (auto simp: net_inv_def)

lemma set_remove_nth: "set (remove_nth k xs) \<subseteq> set xs"
  by (auto simp: remove_nth_def dest: in_set_takeD in_set_dropD)

lemma net_do_inv:
  assumes inv: "net_inv n" shows "net_inv (net_do n a)"
proof (cases a)
  case (Tick i t)
  show ?thesis
  proof (cases "i < length (n_nodes n)")
    case True
    then have r: "node_inv (n_nodes n ! i)" using inv by (simp add: net_inv_def)
    have "net_inv (node_out n i (raft_tick (n_nodes n ! i) t))"
      using node_step [OF r, of "Op_tick t"] r by (intro node_out_inv [OF inv] tick_sends) (simp_all add: node_inv_def raft_wf_def)
    then show ?thesis using True Tick by simp
  qed (use inv Tick in simp)
next
  case (Propose i d)
  show ?thesis
  proof (cases "i < length (n_nodes n)")
    case True
    then have r: "node_inv (n_nodes n ! i)" using inv by (simp add: net_inv_def)
    have "net_inv (node_out n i (snd (raft_propose (n_nodes n ! i) d)))"
      using node_step [OF r, of "Op_propose d"] r by (intro node_out_inv [OF inv] propose_sends) (simp_all add: node_inv_def raft_wf_def)
    then show ?thesis using True Propose by simp
  qed (use inv Propose in simp)
next
  case (Deliver k)
  show ?thesis
  proof (cases "k < length (n_msgs n)")
    case True
    obtain s d m where k: "n_msgs n ! k = (s, d, m)" by (rule prod_cases3)
    have m: "msg_wf m" using inv nth_mem [OF True] by (intro msg_fits_wf) (auto simp: net_inv_def k)
    let ?n = "n\<lparr>n_msgs := remove_nth k (n_msgs n)\<rparr>"
    have inv': "net_inv ?n" by (rule net_inv_msgs [OF inv set_remove_nth])
    show ?thesis
    proof (cases "find_idx (\<lambda>r. r_self r = d) (n_nodes n)")
      case None
      then show ?thesis using inv' True Deliver k by (simp del: find_idx_None_iff)
    next
      case (Some i)
      then have r: "node_inv (n_nodes n ! i)"
        using inv find_idx_less [OF Some] by (simp add: net_inv_def)
      have "net_inv (node_out ?n i (raft_recv (n_nodes n ! i) s m))"
        using node_step [OF r, of "Op_recv s m"] r m
        by (intro node_out_inv [OF inv'] recv_sends) (simp_all add: node_inv_def raft_wf_def)
      then show ?thesis using Some True Deliver k by simp
    qed
  qed (use inv Deliver in simp)
next
  case (Drop k)
  then show ?thesis using net_inv_msgs [OF inv set_remove_nth] by simp
next
  case (Dup k)
  then show ?thesis using inv nth_mem [of k "n_msgs n"] by (auto simp: net_inv_def)
qed

lemma net_reachable_inv: "net_reachable n0 n \<Longrightarrow> net_inv n0 \<Longrightarrow> net_inv n"
  by (induction rule: net_reachable.induct) (simp_all add: net_do_inv)

lemma fresh_members:
  assumes "distinct (mids r @ ids)" and "0 \<notin> set ids" and "length (mids r @ ids) \<le> RAFT_MAX_NODES"
  defines "r' \<equiv> foldl (\<lambda>r i. snd (raft_add_member r i RAFT_VOTER True)) r ids"
  shows "mids r' = mids r @ ids" and "r_log r' = r_log r" and "r_commit r' = r_commit r"
    and "r_applied r' = r_applied r" and "r_self r' = r_self r" and "r_role r' = r_role r"
    and "r_cfg r' = r_cfg r" and "r_fault r' = r_fault r"
proof -
  have "mids r' = mids r @ ids \<and> r_log r' = r_log r \<and> r_commit r' = r_commit r \<and> r_applied r' = r_applied r \<and>
      r_self r' = r_self r \<and> r_role r' = r_role r \<and> r_cfg r' = r_cfg r \<and> r_fault r' = r_fault r"
    using assms(1-3) unfolding r'_def
  proof (induction ids arbitrary: r)
    case (Cons i ids)
    let ?r = "snd (raft_add_member r i RAFT_VOTER True)"
    have m: "mids ?r = mids r @ [i]" using Cons.prems by (simp add: mids_add)
    have "distinct (mids ?r @ ids)" "0 \<notin> set ids" "length (mids ?r @ ids) \<le> RAFT_MAX_NODES"
      using Cons.prems m by auto
    from Cons.IH [OF this] m show ?case by simp
  qed simp
  then show "mids r' = mids r @ ids" "r_log r' = r_log r" "r_commit r' = r_commit r"
    "r_applied r' = r_applied r" "r_self r' = r_self r" "r_role r' = r_role r"
    "r_cfg r' = r_cfg r" "r_fault r' = r_fault r" by blast+
qed

definition ids_ok :: "u64 list \<Rightarrow> bool" where
  "ids_ok ids \<longleftrightarrow> distinct ids \<and> 0 \<notin> set ids \<and> length ids \<le> RAFT_MAX_NODES"

lemma fresh_node_inv:
  assumes "ids_ok ids" and "self \<in> set ids" shows "node_inv (fresh_node ids self)"
proof -
  have s: "self \<noteq> 0" using assms by (auto simp: ids_ok_def)
  let ?r = "the (raft_new self True True None)"
  have r: "mids ?r = []" "r_log ?r = []" "r_commit ?r = 0" "r_applied ?r = 0" "r_self ?r = self"
    "r_role ?r = RAFT_FOLLOWER" "election_spread_ms (r_cfg ?r) = 150" "\<not> r_fault ?r"
    using s by (simp_all add: raft_new_def Let_def RAFT_NO_NODE_def mids_def)
  show ?thesis
    using fresh_members [of ?r ids] assms r s
    by (simp add: fresh_node_def node_inv_def raft_wf_def self_voted_def fault_free_def ids_ok_def RAFT_NO_NODE_def)
qed

section \<open>Properties\<close>

text \<open>
  C15: In every state a cluster can reach from its creation, with messages delayed,
  reordered, lost or repeated at will, every node satisfies its invariant, no node has hit
  undefined behaviour, and every message in flight holds at most a batch of entries that fit.
\<close>

theorem raft_net_invariant:
  assumes "ids_ok ids" and "net_reachable (fresh_net ids) n"
  shows "(\<forall>r \<in> set (n_nodes n). raft_wf r \<and> self_voted r \<and> \<not> r_fault r) \<and>
    (\<forall>(s, d, m) \<in> set (n_msgs n). msg_fits m)"
proof -
  have "net_inv (fresh_net ids)"
    using fresh_node_inv [OF assms(1)] by (auto simp: net_inv_def fresh_net_def)
  from net_reachable_inv [OF assms(2) this] show ?thesis
    by (auto simp: net_inv_def node_inv_def fault_free_def)
qed

theorem raft_net_invariant_witness:
  "(let n = net_run (fresh_net [1, 2, 3]) [Tick 0 200, Deliver 0, Deliver 1, Tick 1 200] in
     net_reachable (fresh_net [1, 2, 3]) n \<and> (\<forall>r \<in> set (n_nodes n). raft_wf r \<and> \<not> r_fault r))"
proof -
  let ?n = "net_run (fresh_net [1, 2, 3]) [Tick 0 200, Deliver 0, Deliver 1, Tick 1 200]"
  have i: "ids_ok [1, 2, 3]" by (simp add: ids_ok_def RAFT_MAX_NODES_def)
  have r: "net_reachable (fresh_net [1, 2, 3]) ?n" by (rule net_reachable_run [OF net_reachable.init])
  from raft_net_invariant [OF i r] r show ?thesis by (simp add: Let_def)
qed

text \<open>
  A schedule of a five node cluster: nodes 1 and 2 run their PreVote rounds at the same
  time, each is handed late PreVote replies after it has started the real round, wins with
  one real vote besides its own, and both replicate a proposal to nodes 3 and 4.
\<close>

definition split_schedule :: "net_action list" where
  "split_schedule =
     [Tick 0 150, Tick 1 150, Tick 2 150, Tick 3 150, Tick 4 150,
      Tick 0 151, Deliver 0, Deliver 0, Deliver 0, Deliver 0,
      Tick 1 152, Deliver 5, Deliver 5, Deliver 5,
      Deliver 1, Deliver 1, Deliver 0, Deliver 0, Deliver 2, Deliver 2, Deliver 1,
      Deliver 2, Deliver 8, Deliver 6, Deliver 11]"

definition diverge_schedule :: "net_action list" where
  "diverge_schedule = split_schedule @
     [Propose 0 [1], Propose 1 [2],
      Deliver 16, Deliver 16, Deliver 21, Deliver 21, Deliver 18, Deliver 18, Deliver 19, Deliver 19]"

text \<open>
  What the tally of late PreVote replies leads to: run from a fresh cluster, this schedule
  ends with two leaders in the same term that have applied different entries at one index.
\<close>

theorem raft_two_leaders_diverge:
  "(let n = net_run (fresh_net [1, 2, 3, 4, 5]) diverge_schedule; a = n_nodes n ! 0; b = n_nodes n ! 1 in
     r_role a = RAFT_LEADER \<and> r_role b = RAFT_LEADER \<and> r_term a = r_term b \<and>
     r_applied a = 2 \<and> r_applied b = 2 \<and>
     re_data (r_log a ! 1) = [1] \<and> re_data (r_log b ! 1) = [2])"
  by code_simp

end
