(* ===== verification/Norn_Cluster.thy ===== *)
theory Norn_Cluster
  imports Norn_Kvstore Norn_Raft_Net
begin

text \<open>
  The clustered key-value store, \<open>src/libnorn/norn_cluster.c\<close>: the Raft core and the
  key-value state machine behind a transport addressed by public keys. A public key is a
  list of 32 bytes. The callbacks \<open>raft_send_cb\<close> and \<open>raft_apply_cb\<close> run while a Raft
  operation runs; they do not touch the Raft node, so \<open>with_raft\<close> runs them on the list
  of effects the operation returns. What leaves the module, the frames handed to
  \<open>io.send\<close> and the calls to key-value watches, is a list of outputs.
\<close>

section \<open>State\<close>

definition NORN_CLUSTER_PUBKEY :: nat where "NORN_CLUSTER_PUBKEY = 32"
definition FRAME_RAFT :: byte where "FRAME_RAFT = 1"
definition FRAME_FWD :: byte where "FRAME_FWD = 2"
definition CMD_MAX :: nat where "CMD_MAX = NORN_KV_MAX_KEY + NORN_KV_MAX_VAL + 16"
definition RAFT_FRAME_MAX :: nat where "RAFT_FRAME_MAX = 64 + RAFT_MAX_BATCH * (19 + RAFT_ENTRY_MAX)"

lemmas cluster_consts = NORN_CLUSTER_PUBKEY_def FRAME_RAFT_def FRAME_FWD_def CMD_MAX_def RAFT_FRAME_MAX_def

datatype norn_node_class = NORN_NODE_MOBILE | NORN_NODE_LAPTOP | NORN_NODE_WORKSTATION | NORN_NODE_SERVER

record norn_cluster_config =
  cc_self_class :: norn_node_class
  cc_election_eligible :: int
  cc_max_kv_entries :: int
  cc_election_base_ms :: u32
  cc_election_spread_ms :: u32
  cc_heartbeat_ms :: u32

record cmember =
  cm_pubkey :: bytes
  cm_id :: u64

record norn_cluster =
  c_self :: bytes
  c_self_id :: u64
  c_io_send :: bool
  c_raft :: raft
  c_kv :: norn_kv
  c_members :: "cmember list"
  c_leader_pub :: bytes
  c_have_leader :: bool

datatype cluster_out = Frame bytes bytes | Watch kv_call

type_synonym cluster_res = "norn_cluster \<times> cluster_out list"

section \<open>Public keys and node ids\<close>

definition id_for :: "bytes \<Rightarrow> u64" where
  "id_for pk =
     (let h = foldl (\<lambda>h b. (h XOR ucast b) * 1099511628211) 1469598103934665603 (take NORN_CLUSTER_PUBKEY pk)
      in if h \<noteq> 0 then h else 1)"

definition by_pubkey :: "norn_cluster \<Rightarrow> bytes \<Rightarrow> nat option" where
  "by_pubkey cl pk = find_idx (\<lambda>m. cm_pubkey m = pk) (c_members cl)"

definition by_id :: "norn_cluster \<Rightarrow> u64 \<Rightarrow> nat option" where
  "by_id cl nid = find_idx (\<lambda>m. cm_id m = nid) (c_members cl)"

definition class_is_voter :: "norn_node_class \<Rightarrow> bool" where
  "class_is_voter cls \<longleftrightarrow> cls = NORN_NODE_SERVER"

section \<open>The codec of Raft messages\<close>

fun type_byte :: "raft_msg_type \<Rightarrow> byte" where
  "type_byte RAFT_MSG_REQUEST_VOTE = 0"
| "type_byte RAFT_MSG_REQUEST_VOTE_RESP = 1"
| "type_byte RAFT_MSG_APPEND = 2"
| "type_byte RAFT_MSG_APPEND_RESP = 3"

definition w8 :: "int \<Rightarrow> bytes" where
  "w8 v = [word_of_int v]"

definition encode_entry :: "raft_entry \<Rightarrow> bytes" where
  "encode_entry e =
     be64 (re_term e) @ be64 (re_index e) @ [re_type e] @ be16 (word_of_nat (length (re_data e))) @ re_data e"

definition encode_raft :: "raft_msg \<Rightarrow> nat \<Rightarrow> bytes option" where
  "encode_raft m cap =
     (let tmp = [type_byte (m_type m)] @ be64 (m_term m) @
        (case m_type m of
           RAFT_MSG_REQUEST_VOTE \<Rightarrow>
             w8 (m_pre_vote m) @ be64 (m_candidate_id m) @ be64 (m_last_log_index m) @ be64 (m_last_log_term m)
         | RAFT_MSG_REQUEST_VOTE_RESP \<Rightarrow> w8 (m_pre_vote m) @ w8 (m_vote_granted m)
         | RAFT_MSG_APPEND \<Rightarrow>
             be64 (m_leader_id m) @ be64 (m_prev_log_index m) @ be64 (m_prev_log_term m) @
             be64 (m_leader_commit m) @ be16 (word_of_nat (length (m_entries m))) @
             concat (map encode_entry (m_entries m))
         | RAFT_MSG_APPEND_RESP \<Rightarrow> w8 (m_success m) @ be64 (m_match_index m))
      in if length tmp > cap then None else Some tmp)"

text \<open>The loop over the entries of an AppendEntries frame, on the bytes that remain.\<close>

fun decode_entries :: "nat \<Rightarrow> bytes \<Rightarrow> raft_entry list option" where
  "decode_entries 0 buf = Some []"
| "decode_entries (Suc n) buf =
     (if length buf < 19 then None
      else let el = unat (un_be16 (drop 17 buf)) in
        if el > RAFT_ENTRY_MAX \<or> length buf - 19 < el then None
        else case decode_entries n (drop (19 + el) buf) of
          None \<Rightarrow> None
        | Some es \<Rightarrow> Some (\<lparr>re_term = un_be64 buf, re_index = un_be64 (drop 8 buf), re_type = buf ! 16,
                          re_data = take el (drop 19 buf)\<rparr> # es))"

definition byte_int :: "byte \<Rightarrow> int" where
  "byte_int b = uint b"

definition decode_raft :: "bytes \<Rightarrow> raft_msg option" where
  "decode_raft buf =
     (if length buf < 9 then None
      else let t = buf ! 0; tm = un_be64 (drop 1 buf); p = drop 9 buf in
        if t = type_byte RAFT_MSG_REQUEST_VOTE then
          (if length p < 1 + 24 then None
           else Some ((msg_zero RAFT_MSG_REQUEST_VOTE)
             \<lparr>m_term := tm, m_pre_vote := byte_int (p ! 0), m_candidate_id := un_be64 (drop 1 p),
              m_last_log_index := un_be64 (drop 9 p), m_last_log_term := un_be64 (drop 17 p)\<rparr>))
        else if t = type_byte RAFT_MSG_REQUEST_VOTE_RESP then
          (if length p < 2 then None
           else Some ((msg_zero RAFT_MSG_REQUEST_VOTE_RESP)
             \<lparr>m_term := tm, m_pre_vote := byte_int (p ! 0), m_vote_granted := byte_int (p ! 1)\<rparr>))
        else if t = type_byte RAFT_MSG_APPEND then
          (if length p < 34 then None
           else let n = unat (un_be16 (drop 32 p)) in
             if n > RAFT_MAX_BATCH then None
             else case decode_entries n (drop 34 p) of
               None \<Rightarrow> None
             | Some es \<Rightarrow> Some ((msg_zero RAFT_MSG_APPEND)
                 \<lparr>m_term := tm, m_leader_id := un_be64 p, m_prev_log_index := un_be64 (drop 8 p),
                  m_prev_log_term := un_be64 (drop 16 p), m_leader_commit := un_be64 (drop 24 p),
                  m_entries := es\<rparr>))
        else if t = type_byte RAFT_MSG_APPEND_RESP then
          (if length p < 9 then None
           else Some ((msg_zero RAFT_MSG_APPEND_RESP)
             \<lparr>m_term := tm, m_success := byte_int (p ! 0), m_match_index := un_be64 (drop 1 p)\<rparr>))
        else None)"

section \<open>Effects of the Raft core\<close>

definition raft_send_cb :: "norn_cluster \<Rightarrow> u64 \<Rightarrow> raft_msg \<Rightarrow> cluster_out list" where
  "raft_send_cb cl dest m =
     (case by_id cl dest of
        None \<Rightarrow> []
      | Some i \<Rightarrow> case encode_raft m RAFT_FRAME_MAX of
          None \<Rightarrow> []
        | Some b \<Rightarrow> if c_io_send cl then [Frame (cm_pubkey (c_members cl ! i)) (FRAME_RAFT # b)] else [])"

definition raft_apply_cb :: "norn_cluster \<Rightarrow> raft_entry \<Rightarrow> cluster_res" where
  "raft_apply_cb cl e =
     (case norn_kv_apply (c_kv cl) (re_data e) of (_, calls, kv) \<Rightarrow> (cl\<lparr>c_kv := kv\<rparr>, map Watch calls))"

fun run_effects :: "norn_cluster \<Rightarrow> raft_effect list \<Rightarrow> cluster_res" where
  "run_effects cl [] = (cl, [])"
| "run_effects cl (Send d m # es) =
     (case run_effects cl es of (cl', out) \<Rightarrow> (cl', raft_send_cb cl d m @ out))"
| "run_effects cl (Apply e # es) =
     (case raft_apply_cb cl e of (cl1, out1) \<Rightarrow>
      case run_effects cl1 es of (cl2, out2) \<Rightarrow> (cl2, out1 @ out2))"

definition with_raft :: "norn_cluster \<Rightarrow> raft_out \<Rightarrow> cluster_res" where
  "with_raft cl x = run_effects (cl\<lparr>c_raft := fst x\<rparr>) (snd x)"

section \<open>Lifecycle and membership\<close>

definition norn_cluster_new :: "bytes \<Rightarrow> bool \<Rightarrow> norn_cluster_config option \<Rightarrow> norn_cluster option" where
  "norn_cluster_new self_pubkey io_send cfg =
     (let max_kv = (case cfg of Some c \<Rightarrow> if cc_max_kv_entries c > 0 then cc_max_kv_entries c else 256 | None \<Rightarrow> 256);
          rc = (case cfg of
                  None \<Rightarrow> \<lparr>election_base_ms = 0, election_spread_ms = 0, heartbeat_ms = 0\<rparr>
                | Some c \<Rightarrow> \<lparr>election_base_ms = cc_election_base_ms c, election_spread_ms = cc_election_spread_ms c,
                             heartbeat_ms = cc_heartbeat_ms c\<rparr>);
          self_id = id_for self_pubkey;
          cls = (case cfg of None \<Rightarrow> NORN_NODE_SERVER | Some c \<Rightarrow> cc_self_class c);
          eligible = (case cfg of
                        Some c \<Rightarrow> if cc_election_eligible c \<ge> 0 then cc_election_eligible c \<noteq> 0 else class_is_voter cls
                      | None \<Rightarrow> class_is_voter cls);
          role = (if class_is_voter cls then RAFT_VOTER else RAFT_LEARNER)
      in case norn_kv_new max_kv of
           None \<Rightarrow> None
         | Some kv \<Rightarrow> case raft_new self_id True True (Some rc) of
             None \<Rightarrow> None
           | Some r \<Rightarrow> Some \<lparr>c_self = self_pubkey, c_self_id = self_id, c_io_send = io_send,
               c_raft = snd (raft_add_member r self_id role eligible), c_kv = kv,
               c_members = [\<lparr>cm_pubkey = self_pubkey, cm_id = self_id\<rparr>],
               c_leader_pub = replicate NORN_CLUSTER_PUBKEY 0, c_have_leader = False\<rparr>)"

definition norn_cluster_add_member ::
  "norn_cluster \<Rightarrow> bytes \<Rightarrow> norn_node_class \<Rightarrow> bool \<Rightarrow> int \<times> norn_cluster" where
  "norn_cluster_add_member cl pubkey cls eligible =
     (if length (c_members cl) \<ge> RAFT_MAX_NODES then (-1, cl)
      else if by_pubkey cl pubkey \<noteq> None then (-1, cl)
      else let nid = id_for pubkey in
        if by_id cl nid \<noteq> None then (-1, cl)
        else let role = (if class_is_voter cls then RAFT_VOTER else RAFT_LEARNER) in
          case raft_add_member (c_raft cl) nid role eligible of (rc, r) \<Rightarrow>
            if rc \<noteq> 0 then (-1, cl)
            else (0, cl\<lparr>c_raft := r, c_members := c_members cl @ [\<lparr>cm_pubkey = pubkey, cm_id = nid\<rparr>]\<rparr>))"

fun norn_cluster_bootstrap :: "norn_cluster \<Rightarrow> bytes list \<Rightarrow> int \<times> norn_cluster" where
  "norn_cluster_bootstrap cl [] = (0, cl)"
| "norn_cluster_bootstrap cl (pk # pks) =
     (case norn_cluster_add_member cl pk NORN_NODE_SERVER True of (rc, cl') \<Rightarrow>
        if rc \<noteq> 0 then (-1, cl') else norn_cluster_bootstrap cl' pks)"

definition norn_cluster_promote :: "norn_cluster \<Rightarrow> bytes \<Rightarrow> int \<times> norn_cluster" where
  "norn_cluster_promote cl pubkey =
     (case by_pubkey cl pubkey of
        None \<Rightarrow> (-1, cl)
      | Some i \<Rightarrow> case raft_promote (c_raft cl) (cm_id (c_members cl ! i)) of (rc, r) \<Rightarrow> (rc, cl\<lparr>c_raft := r\<rparr>))"

definition norn_cluster_remove :: "norn_cluster \<Rightarrow> bytes \<Rightarrow> int \<times> norn_cluster" where
  "norn_cluster_remove cl pubkey =
     (case by_pubkey cl pubkey of
        None \<Rightarrow> (-1, cl)
      | Some i \<Rightarrow> (0, cl\<lparr>c_raft := snd (raft_remove_member (c_raft cl) (cm_id (c_members cl ! i))),
                       c_members := swap_remove i (c_members cl)\<rparr>))"

section \<open>Driving\<close>

definition refresh_leader :: "norn_cluster \<Rightarrow> norn_cluster" where
  "refresh_leader cl =
     (let lid = r_leader (c_raft cl) in
      case (if lid \<noteq> RAFT_NO_NODE then by_id cl lid else None) of
        Some i \<Rightarrow> cl\<lparr>c_leader_pub := cm_pubkey (c_members cl ! i), c_have_leader := True\<rparr>
      | None \<Rightarrow> cl\<lparr>c_have_leader := False\<rparr>)"

definition norn_cluster_tick :: "norn_cluster \<Rightarrow> u64 \<Rightarrow> cluster_res" where
  "norn_cluster_tick cl now_ms =
     (case with_raft cl (raft_tick (c_raft cl) now_ms) of (cl', out) \<Rightarrow> (refresh_leader cl', out))"

definition norn_cluster_input :: "norn_cluster \<Rightarrow> bytes \<Rightarrow> bytes \<Rightarrow> cluster_res" where
  "norn_cluster_input cl from_pubkey dat =
     (if dat = [] then (cl, [])
      else case by_pubkey cl from_pubkey of
        None \<Rightarrow> (cl, [])
      | Some i \<Rightarrow>
          if dat ! 0 = FRAME_RAFT then
            (case decode_raft (drop 1 dat) of
               None \<Rightarrow> (cl, [])
             | Some m \<Rightarrow>
                 (case with_raft cl (raft_recv (c_raft cl) (cm_id (c_members cl ! i)) m) of
                    (cl', out) \<Rightarrow> (refresh_leader cl', out)))
          else if dat ! 0 = FRAME_FWD then
            (if r_role (c_raft cl) = RAFT_LEADER
             then with_raft cl (snd (raft_propose (c_raft cl) (drop 1 dat))) else (cl, []))
          else (cl, []))"

section \<open>Key-value operations\<close>

definition kv_submit :: "norn_cluster \<Rightarrow> bytes \<Rightarrow> int \<times> cluster_res" where
  "kv_submit cl cmd =
     (if cmd = [] then (-1, cl, [])
      else if r_role (c_raft cl) = RAFT_LEADER then
        (case raft_propose (c_raft cl) cmd of (idx, x) \<Rightarrow> (if idx \<noteq> 0 then 0 else -1, with_raft cl x))
      else if \<not> c_have_leader cl then (-1, cl, [])
      else (0, cl, if c_io_send cl then [Frame (c_leader_pub cl) (FRAME_FWD # cmd)] else []))"

definition norn_cluster_kv_put :: "norn_cluster \<Rightarrow> bytes \<Rightarrow> bytes \<Rightarrow> int \<times> cluster_res" where
  "norn_cluster_kv_put cl key val =
     (case norn_kv_encode_put CMD_MAX key val of None \<Rightarrow> (-1, cl, []) | Some cmd \<Rightarrow> kv_submit cl cmd)"

definition norn_cluster_kv_del :: "norn_cluster \<Rightarrow> bytes \<Rightarrow> int \<times> cluster_res" where
  "norn_cluster_kv_del cl key =
     (case norn_kv_encode_del CMD_MAX key of None \<Rightarrow> (-1, cl, []) | Some cmd \<Rightarrow> kv_submit cl cmd)"

definition norn_cluster_kv_cas :: "norn_cluster \<Rightarrow> bytes \<Rightarrow> bytes \<Rightarrow> bytes \<Rightarrow> int \<times> cluster_res" where
  "norn_cluster_kv_cas cl key expect val =
     (case norn_kv_encode_cas CMD_MAX key expect val of None \<Rightarrow> (-1, cl, []) | Some cmd \<Rightarrow> kv_submit cl cmd)"

definition norn_cluster_kv_get :: "norn_cluster \<Rightarrow> bytes \<Rightarrow> nat \<Rightarrow> bytes option" where
  "norn_cluster_kv_get cl key cap = norn_kv_get (c_kv cl) key cap"

definition norn_cluster_kv_watch :: "norn_cluster \<Rightarrow> bytes \<Rightarrow> nat \<Rightarrow> int \<times> norn_cluster" where
  "norn_cluster_kv_watch cl prefix fn =
     (case norn_kv_watch (c_kv cl) prefix fn of (rc, kv) \<Rightarrow> (rc, cl\<lparr>c_kv := kv\<rparr>))"

definition norn_cluster_kv_list :: "norn_cluster \<Rightarrow> bytes \<Rightarrow> (bytes \<times> bytes) list option" where
  "norn_cluster_kv_list cl prefix = norn_kv_foreach (c_kv cl) prefix"

definition norn_cluster_is_leader :: "norn_cluster \<Rightarrow> bool" where
  "norn_cluster_is_leader cl \<longleftrightarrow> r_role (c_raft cl) = RAFT_LEADER"

definition norn_cluster_leader :: "norn_cluster \<Rightarrow> bytes option" where
  "norn_cluster_leader cl = (if c_have_leader cl then Some (c_leader_pub cl) else None)"

definition norn_cluster_member_count :: "norn_cluster \<Rightarrow> int" where
  "norn_cluster_member_count cl = int (length (c_members cl))"

definition norn_cluster_members :: "norn_cluster \<Rightarrow> int \<Rightarrow> bytes list option" where
  "norn_cluster_members cl n =
     (if n < 0 then None else Some (map cm_pubkey (take (nat n) (c_members cl))))"

definition norn_cluster_is_voter :: "norn_cluster \<Rightarrow> bytes \<Rightarrow> bool" where
  "norn_cluster_is_voter cl pubkey =
     (case by_pubkey cl pubkey of None \<Rightarrow> False | Some i \<Rightarrow> raft_is_voter (c_raft cl) (cm_id (c_members cl ! i)))"

section \<open>The codec\<close>

lemma length_encode_entry [simp]: "length (encode_entry e) = 19 + length (re_data e)"
  by (simp add: encode_entry_def)

lemma decode_entry:
  assumes "length (re_data e) \<le> RAFT_ENTRY_MAX"
  shows "decode_entries (Suc n) (encode_entry e @ buf) =
    (case decode_entries n buf of None \<Rightarrow> None | Some es \<Rightarrow> Some (e # es))"
proof -
  let ?b = "encode_entry e @ buf"
  have len: "unat (un_be16 (drop 17 ?b)) = length (re_data e)"
    using assms by (simp add: encode_entry_def RAFT_ENTRY_MAX_def)
  have d0: "drop (19 + length (re_data e)) ?b = buf" by simp
  have d: "take (length (re_data e)) (drop 19 ?b) = re_data e"
    "un_be64 ?b = re_term e" "un_be64 (drop 8 ?b) = re_index e" "?b ! 16 = re_type e"
    by (simp_all add: encode_entry_def nth_append)
  have e: "\<lparr>re_term = re_term e, re_index = re_index e, re_type = re_type e, re_data = re_data e\<rparr> = e" by simp
  show ?thesis
    unfolding decode_entries.simps Let_def len d0 d e using assms by simp
qed

lemma decode_encode_entries:
  assumes "\<forall>e \<in> set es. length (re_data e) \<le> RAFT_ENTRY_MAX"
  shows "decode_entries (length es) (concat (map encode_entry es) @ buf) = Some es"
  using assms
proof (induction es)
  case (Cons e es)
  then show ?case using decode_entry [of e "length es" "concat (map encode_entry es) @ buf"] by simp
qed simp

text \<open>
  The message a receiver decodes: the fields its type does not use are zero, and the flags
  are cut to a byte.
\<close>

definition byte_cut :: "int \<Rightarrow> int" where
  "byte_cut v = v mod 256"

definition canon :: "raft_msg \<Rightarrow> raft_msg" where
  "canon m = (case m_type m of
     RAFT_MSG_REQUEST_VOTE \<Rightarrow> (msg_zero RAFT_MSG_REQUEST_VOTE)
       \<lparr>m_term := m_term m, m_pre_vote := byte_cut (m_pre_vote m), m_candidate_id := m_candidate_id m,
        m_last_log_index := m_last_log_index m, m_last_log_term := m_last_log_term m\<rparr>
   | RAFT_MSG_REQUEST_VOTE_RESP \<Rightarrow> (msg_zero RAFT_MSG_REQUEST_VOTE_RESP)
       \<lparr>m_term := m_term m, m_pre_vote := byte_cut (m_pre_vote m), m_vote_granted := byte_cut (m_vote_granted m)\<rparr>
   | RAFT_MSG_APPEND \<Rightarrow> (msg_zero RAFT_MSG_APPEND)
       \<lparr>m_term := m_term m, m_leader_id := m_leader_id m, m_prev_log_index := m_prev_log_index m,
        m_prev_log_term := m_prev_log_term m, m_leader_commit := m_leader_commit m, m_entries := m_entries m\<rparr>
   | RAFT_MSG_APPEND_RESP \<Rightarrow> (msg_zero RAFT_MSG_APPEND_RESP)
       \<lparr>m_term := m_term m, m_success := byte_cut (m_success m), m_match_index := m_match_index m\<rparr>)"

lemma w8_simps [simp]: "length (w8 v) = 1" "(w8 v @ xs) ! 0 = word_of_int v" "drop (Suc 0) (w8 v @ xs) = xs"
  by (simp_all add: w8_def)

lemma byte_int_word [simp]: "byte_int (word_of_int v) = byte_cut v"
  by (simp add: byte_int_def byte_cut_def uint_word_of_int_eq take_bit_eq_mod)

lemma sum_entry_len:
  "\<forall>e \<in> set es. length (re_data e) \<le> RAFT_ENTRY_MAX \<Longrightarrow>
     length (concat (map encode_entry es)) \<le> length es * (19 + RAFT_ENTRY_MAX)"
  by (induction es) auto

lemma encode_raft_fits:
  assumes "msg_fits m"
  shows "\<exists>b. encode_raft m RAFT_FRAME_MAX = Some b \<and> length b \<le> RAFT_FRAME_MAX"
proof -
  have "length (concat (map encode_entry (m_entries m))) \<le> RAFT_MAX_BATCH * (19 + RAFT_ENTRY_MAX)"
    using sum_entry_len [of "m_entries m"] assms
    by (meson msg_fits_def mult_le_mono1 order.trans)
  then show ?thesis
    by (cases "m_type m") (simp_all add: encode_raft_def cluster_consts raft_consts)
qed

lemma decode_header:
  "decode_raft (type_byte ty # be64 tm @ p) =
     (case ty of
        RAFT_MSG_REQUEST_VOTE \<Rightarrow>
          (if length p < 25 then None
           else Some ((msg_zero RAFT_MSG_REQUEST_VOTE)
             \<lparr>m_term := tm, m_pre_vote := byte_int (p ! 0), m_candidate_id := un_be64 (drop 1 p),
              m_last_log_index := un_be64 (drop 9 p), m_last_log_term := un_be64 (drop 17 p)\<rparr>))
      | RAFT_MSG_REQUEST_VOTE_RESP \<Rightarrow>
          (if length p < 2 then None
           else Some ((msg_zero RAFT_MSG_REQUEST_VOTE_RESP)
             \<lparr>m_term := tm, m_pre_vote := byte_int (p ! 0), m_vote_granted := byte_int (p ! 1)\<rparr>))
      | RAFT_MSG_APPEND \<Rightarrow>
          (if length p < 34 then None
           else if unat (un_be16 (drop 32 p)) > RAFT_MAX_BATCH then None
           else case decode_entries (unat (un_be16 (drop 32 p))) (drop 34 p) of
             None \<Rightarrow> None
           | Some es \<Rightarrow> Some ((msg_zero RAFT_MSG_APPEND)
               \<lparr>m_term := tm, m_leader_id := un_be64 p, m_prev_log_index := un_be64 (drop 8 p),
                m_prev_log_term := un_be64 (drop 16 p), m_leader_commit := un_be64 (drop 24 p),
                m_entries := es\<rparr>))
      | RAFT_MSG_APPEND_RESP \<Rightarrow>
          (if length p < 9 then None
           else Some ((msg_zero RAFT_MSG_APPEND_RESP)
             \<lparr>m_term := tm, m_success := byte_int (p ! 0), m_match_index := un_be64 (drop 1 p)\<rparr>)))"
proof -
  let ?b = "type_byte ty # be64 tm @ p"
  have h: "\<not> length ?b < 9" "?b ! 0 = type_byte ty" "un_be64 (drop 1 ?b) = tm" "drop 9 ?b = p" by simp_all
  show ?thesis unfolding decode_raft_def Let_def h by (cases ty) simp_all
qed

lemma decode_encode_raft:
  assumes "msg_fits m" and "encode_raft m cap = Some b"
  shows "decode_raft (b @ junk) = Some (canon m)"
proof (cases "m_type m")
  case RAFT_MSG_APPEND
  let ?es = "m_entries m"
  let ?p = "be64 (m_leader_id m) @ be64 (m_prev_log_index m) @ be64 (m_prev_log_term m) @
      be64 (m_leader_commit m) @ be16 (word_of_nat (length ?es)) @ concat (map encode_entry ?es) @ junk"
  have b: "b @ junk = type_byte RAFT_MSG_APPEND # be64 (m_term m) @ ?p"
    using assms(2) RAFT_MSG_APPEND by (auto simp: encode_raft_def Let_def split: if_splits)
  have n: "length ?es \<le> RAFT_MAX_BATCH" "length ?es < 65536"
    using assms(1) by (simp_all add: msg_fits_def RAFT_MAX_BATCH_def)
  have d: "\<not> length ?p < 34" "unat (un_be16 (drop 32 ?p)) = length ?es"
    "drop 34 ?p = concat (map encode_entry ?es) @ junk" "un_be64 ?p = m_leader_id m"
    "un_be64 (drop 8 ?p) = m_prev_log_index m" "un_be64 (drop 16 ?p) = m_prev_log_term m"
    "un_be64 (drop 24 ?p) = m_leader_commit m"
    using n(2) by simp_all
  have "decode_entries (length ?es) (concat (map encode_entry ?es) @ junk) = Some ?es"
    using assms(1) by (intro decode_encode_entries) (simp add: msg_fits_def)
  then show ?thesis
    unfolding b decode_header raft_msg_type.case d using n(1) RAFT_MSG_APPEND by (simp add: canon_def)
next
  case RAFT_MSG_REQUEST_VOTE
  then have "b @ junk = type_byte RAFT_MSG_REQUEST_VOTE # be64 (m_term m) @ w8 (m_pre_vote m) @
      be64 (m_candidate_id m) @ be64 (m_last_log_index m) @ be64 (m_last_log_term m) @ junk"
    using assms(2) by (auto simp: encode_raft_def Let_def split: if_splits)
  then show ?thesis
    using RAFT_MSG_REQUEST_VOTE by (simp add: decode_header canon_def w8_def del: type_byte.simps)
next
  case RAFT_MSG_REQUEST_VOTE_RESP
  then have "b @ junk = type_byte RAFT_MSG_REQUEST_VOTE_RESP # be64 (m_term m) @ w8 (m_pre_vote m) @
      w8 (m_vote_granted m) @ junk"
    using assms(2) by (auto simp: encode_raft_def Let_def split: if_splits)
  then show ?thesis using RAFT_MSG_REQUEST_VOTE_RESP by (simp add: decode_header canon_def w8_def del: type_byte.simps)
next
  case RAFT_MSG_APPEND_RESP
  then have "b @ junk = type_byte RAFT_MSG_APPEND_RESP # be64 (m_term m) @ w8 (m_success m) @
      be64 (m_match_index m) @ junk"
    using assms(2) by (auto simp: encode_raft_def Let_def split: if_splits)
  then show ?thesis using RAFT_MSG_APPEND_RESP by (simp add: decode_header canon_def w8_def del: type_byte.simps)
qed

text \<open>A Raft node treats the decoded message as it treats the message that was sent.\<close>

definition flags_ok :: "raft_msg \<Rightarrow> bool" where
  "flags_ok m \<longleftrightarrow> m_pre_vote m \<in> {0..255} \<and> m_vote_granted m \<in> {0..255} \<and> m_success m \<in> {0..255}"

lemma byte_cut_id: "v \<in> {0..255} \<Longrightarrow> byte_cut v = v"
  by (simp add: byte_cut_def)

lemma canon_type [simp]: "m_type (canon m) = m_type m"
  by (simp add: canon_def msg_zero_def split: raft_msg_type.split)

lemma canon_fields:
  "m_term (canon m) = m_term m"
  "m_type m = RAFT_MSG_REQUEST_VOTE \<Longrightarrow> m_candidate_id (canon m) = m_candidate_id m"
  "m_type m = RAFT_MSG_REQUEST_VOTE \<Longrightarrow> m_last_log_index (canon m) = m_last_log_index m"
  "m_type m = RAFT_MSG_REQUEST_VOTE \<Longrightarrow> m_last_log_term (canon m) = m_last_log_term m"
  "flags_ok m \<Longrightarrow> m_type m = RAFT_MSG_REQUEST_VOTE \<Longrightarrow> m_pre_vote (canon m) = m_pre_vote m"
  "flags_ok m \<Longrightarrow> m_type m = RAFT_MSG_REQUEST_VOTE_RESP \<Longrightarrow> m_pre_vote (canon m) = m_pre_vote m"
  "flags_ok m \<Longrightarrow> m_type m = RAFT_MSG_REQUEST_VOTE_RESP \<Longrightarrow> m_vote_granted (canon m) = m_vote_granted m"
  "m_type m = RAFT_MSG_APPEND \<Longrightarrow> m_leader_id (canon m) = m_leader_id m"
  "m_type m = RAFT_MSG_APPEND \<Longrightarrow> m_prev_log_index (canon m) = m_prev_log_index m"
  "m_type m = RAFT_MSG_APPEND \<Longrightarrow> m_prev_log_term (canon m) = m_prev_log_term m"
  "m_type m = RAFT_MSG_APPEND \<Longrightarrow> m_leader_commit (canon m) = m_leader_commit m"
  "m_type m = RAFT_MSG_APPEND \<Longrightarrow> m_entries (canon m) = m_entries m"
  "flags_ok m \<Longrightarrow> m_type m = RAFT_MSG_APPEND_RESP \<Longrightarrow> m_success (canon m) = m_success m"
  "m_type m = RAFT_MSG_APPEND_RESP \<Longrightarrow> m_match_index (canon m) = m_match_index m"
  by (auto simp: canon_def flags_ok_def byte_cut_id msg_zero_def split: raft_msg_type.split)

lemma recv_canon:
  assumes "flags_ok m" shows "raft_recv r from (canon m) = raft_recv r from m"
proof (cases "m_type m")
  case RAFT_MSG_REQUEST_VOTE
  then have "handle_request_vote r (canon m) = handle_request_vote r m"
    unfolding handle_request_vote_def by (simp only: canon_fields assms)
  then show ?thesis using RAFT_MSG_REQUEST_VOTE by (simp add: raft_recv_def)
next
  case RAFT_MSG_REQUEST_VOTE_RESP
  then have "handle_request_vote_resp r' (canon m) = handle_request_vote_resp r' m" for r'
    unfolding handle_request_vote_resp_def by (simp only: canon_fields assms)
  then show ?thesis using RAFT_MSG_REQUEST_VOTE_RESP by (simp add: raft_recv_def canon_fields assms cong: option.case_cong)
next
  case RAFT_MSG_APPEND
  then have "handle_append r (canon m) = handle_append r m"
    unfolding handle_append_def accept_leader_def by (simp only: canon_fields)
  then show ?thesis using RAFT_MSG_APPEND by (simp add: raft_recv_def)
next
  case RAFT_MSG_APPEND_RESP
  then have "handle_append_resp r from (canon m) = handle_append_resp r from m"
    unfolding handle_append_resp_def by (simp only: canon_fields assms)
  then show ?thesis using RAFT_MSG_APPEND_RESP by (simp add: raft_recv_def)
qed

lemma decode_entries_fits:
  "decode_entries n buf = Some es \<Longrightarrow> length es = n \<and> (\<forall>e \<in> set es. length (re_data e) \<le> RAFT_ENTRY_MAX)"
proof (induction n arbitrary: buf es)
  case (Suc n)
  let ?el = "unat (un_be16 (drop 17 buf))"
  have a: "\<not> (length buf < 19)" "\<not> (?el > RAFT_ENTRY_MAX \<or> length buf - 19 < ?el)"
    using Suc.prems by (auto simp: Let_def split: if_splits)
  with Suc.prems obtain es' where es': "decode_entries n (drop (19 + ?el) buf) = Some es'"
    "es = \<lparr>re_term = un_be64 buf, re_index = un_be64 (drop 8 buf), re_type = buf ! 16,
           re_data = take ?el (drop 19 buf)\<rparr> # es'"
    by (auto simp: Let_def split: option.splits)
  from Suc.IH [OF es'(1)] es'(2) a show ?case by auto
qed simp

lemma decode_raft_fits: "decode_raft buf = Some m \<Longrightarrow> msg_fits m"
  by (auto simp: decode_raft_def Let_def msg_fits_def msg_zero_def split: if_splits option.splits
      dest: decode_entries_fits)

section \<open>The invariant\<close>

lemma run_effects_state:
  "fst (run_effects cl es) = cl\<lparr>c_kv := snd (kv_run (c_kv cl) (map re_data (applies es)))\<rparr>"
  by (induction cl es rule: run_effects.induct) (simp_all add: raft_apply_cb_def Let_def split_beta)

lemma with_raft_state:
  "fst (with_raft cl x) = cl\<lparr>c_raft := fst x, c_kv := snd (kv_run (c_kv cl) (map re_data (applies (snd x))))\<rparr>"
  by (simp add: with_raft_def run_effects_state)

lemma kv_run_wf: "kv_wf kv \<Longrightarrow> kv_wf (snd (kv_run kv cmds)) \<and> kv_cap (snd (kv_run kv cmds)) = kv_cap kv"
proof (induction cmds arbitrary: kv)
  case (Cons cmd cmds)
  obtain rc calls kv' where a: "norn_kv_apply kv cmd = (rc, calls, kv')" by (rule prod_cases3)
  from apply_wf [OF a Cons.prems] Cons.IH [of kv'] show ?case by (simp add: a Let_def split_beta)
qed simp

definition cluster_wf :: "norn_cluster \<Rightarrow> bool" where
  "cluster_wf cl \<longleftrightarrow> raft_wf (c_raft cl) \<and> kv_wf (c_kv cl) \<and>
     map cm_id (c_members cl) = mids (c_raft cl) \<and> distinct (map cm_pubkey (c_members cl)) \<and>
     (\<forall>m \<in> set (c_members cl). cm_id m = id_for (cm_pubkey m))"

lemma id_for_nonzero: "id_for pk \<noteq> 0"
  by (simp add: id_for_def Let_def)

lemma with_raft_wf:
  assumes "cluster_wf cl" and "raft_wf (fst x)" and "mids (fst x) = mids (c_raft cl)"
  shows "cluster_wf (fst (with_raft cl x))"
  using assms kv_run_wf by (simp add: with_raft_state cluster_wf_def)

lemma refresh_leader_frame [simp]:
  "c_raft (refresh_leader cl) = c_raft cl" "c_kv (refresh_leader cl) = c_kv cl"
  "c_members (refresh_leader cl) = c_members cl" "c_io_send (refresh_leader cl) = c_io_send cl"
  by (simp_all add: refresh_leader_def Let_def split: option.split)

lemma refresh_leader_wf [simp]: "cluster_wf (refresh_leader cl) = cluster_wf cl"
  by (simp add: cluster_wf_def)

lemma do_with_raft_wf:
  assumes "cluster_wf cl" and "op_wf op" and "mids (fst (raft_do (c_raft cl) op)) = mids (c_raft cl)"
  shows "cluster_wf (fst (with_raft cl (raft_do (c_raft cl) op)))"
  using assms do_wf by (intro with_raft_wf) (auto simp: cluster_wf_def)

lemma tick_wf: "cluster_wf cl \<Longrightarrow> cluster_wf (fst (norn_cluster_tick cl t))"
  using do_with_raft_wf [of cl "Op_tick t"] by (simp add: norn_cluster_tick_def split_beta)

lemma input_wf:
  assumes "cluster_wf cl" shows "cluster_wf (fst (norn_cluster_input cl pk dat))"
proof -
  have "cluster_wf (fst (with_raft cl (raft_recv (c_raft cl) i m)))" if "decode_raft b = Some m" for i b m
    using do_with_raft_wf [OF assms, of "Op_recv i m"] msg_fits_wf [OF decode_raft_fits [OF that]] by simp
  moreover have "cluster_wf (fst (with_raft cl (snd (raft_propose (c_raft cl) d))))" for d
    using do_with_raft_wf [OF assms, of "Op_propose d"] by simp
  ultimately show ?thesis
    using assms by (simp add: norn_cluster_input_def split_beta split: option.split)
qed

lemma submit_wf: "cluster_wf cl \<Longrightarrow> cluster_wf (fst (snd (kv_submit cl cmd)))"
  using do_with_raft_wf [of cl "Op_propose cmd"] by (simp add: kv_submit_def split_beta)

lemma find_same_index:
  "map f xs = map g ys \<Longrightarrow> find_idx (\<lambda>x. f x = v) xs = find_idx (\<lambda>y. g y = v) ys"
  by (induction xs arbitrary: ys) auto

lemma add_member_wf:
  assumes "cluster_wf cl" shows "cluster_wf (snd (norn_cluster_add_member cl pk cls el))"
proof -
  let ?r = "\<lambda>role. raft_add_member (c_raft cl) (id_for pk) role el"
  have wf: "raft_wf (snd (?r role))" for role
    using do_wf [of "c_raft cl" "Op_add (id_for pk) role el"] assms by (simp add: cluster_wf_def)
  have ids: "mids (snd (?r role)) = mids (c_raft cl) @ [id_for pk]" if "fst (?r role) = 0" for role
    using that by (auto simp: raft_add_member_def mids_def split: if_splits)
  show ?thesis
    using assms wf ids
    by (simp add: norn_cluster_add_member_def Let_def cluster_wf_def by_pubkey_def split_beta) blast
qed

lemma bootstrap_wf: "cluster_wf cl \<Longrightarrow> cluster_wf (snd (norn_cluster_bootstrap cl pks))"
proof (induction pks arbitrary: cl)
  case (Cons pk pks)
  then show ?case using add_member_wf [OF Cons.prems] by (simp add: split_beta)
qed simp

lemma promote_wf:
  assumes "cluster_wf cl" shows "cluster_wf (snd (norn_cluster_promote cl pk))"
proof -
  have "raft_wf (snd (raft_promote (c_raft cl) i))" for i
    using do_wf [of "c_raft cl" "Op_promote i"] assms by (simp add: cluster_wf_def)
  then show ?thesis
    using assms by (auto simp: norn_cluster_promote_def cluster_wf_def split_beta split: option.split)
qed

lemma remove_wf:
  assumes "cluster_wf cl" shows "cluster_wf (snd (norn_cluster_remove cl pk))"
proof (cases "by_pubkey cl pk")
  case None
  then show ?thesis using assms by (simp add: norn_cluster_remove_def)
next
  case (Some i)
  let ?ms = "c_members cl" and ?r = "c_raft cl"
  let ?id = "cm_id (?ms ! i)"
  have i: "i < length ?ms" using Some by (auto simp: by_pubkey_def dest: find_idx_less)
  have sync: "map cm_id ?ms = mids ?r" and d: "distinct (map cm_id ?ms)"
    using assms by (simp_all add: cluster_wf_def raft_wf_def)
  have "find_member ?r ?id = find_idx (\<lambda>m. cm_id m = ?id) ?ms"
    unfolding find_member_def using find_same_index [of mb_id "r_members ?r" cm_id ?ms ?id] sync
    by (simp add: mids_def)
  then have "find_member ?r ?id = Some i" using find_idx_distinct [OF d i] by simp
  moreover have "i < length (r_members ?r)" using i sync by (metis length_map mids_def)
  ultimately have "mids (snd (raft_remove_member ?r ?id)) = map cm_id (swap_remove i ?ms)"
    using sync i by (simp add: raft_remove_member_def mids_def map_swap_remove)
  moreover have "raft_wf (snd (raft_remove_member ?r ?id))"
    using do_wf [of ?r "Op_remove ?id"] assms by (simp add: cluster_wf_def)
  ultimately show ?thesis
    using Some assms distinct_map_swap_remove(1) [of cm_pubkey ?ms i] i set_swap_remove_subset [OF i]
    by (auto simp: norn_cluster_remove_def cluster_wf_def)
qed

lemma kv_new_wf: "norn_kv_new n = Some kv \<Longrightarrow> kv_wf kv"
  by (auto simp: norn_kv_new_def kv_wf_def slots_distinct_def KV_MAX_WATCH_def split: if_splits)

lemma new_wf:
  assumes "norn_cluster_new pk s cfg = Some cl" shows "cluster_wf cl"
proof -
  obtain kv r rc role el where *: "raft_new (id_for pk) True True rc = Some r" "kv_wf kv"
    "cl = \<lparr>c_self = pk, c_self_id = id_for pk, c_io_send = s,
       c_raft = snd (raft_add_member r (id_for pk) role el), c_kv = kv,
       c_members = [\<lparr>cm_pubkey = pk, cm_id = id_for pk\<rparr>],
       c_leader_pub = replicate NORN_CLUSTER_PUBKEY 0, c_have_leader = False\<rparr>"
    using assms by (auto simp: norn_cluster_new_def Let_def kv_new_wf split: option.splits)
  have r: "raft_wf r" "mids r = []" using raft_new_wf [OF *(1)] *(1)
    by (auto simp: raft_new_def mids_def Let_def split: if_splits)
  have "raft_wf (snd (raft_add_member r (id_for pk) role el))"
    using do_wf [OF r(1), of "Op_add (id_for pk) role el"] by simp
  moreover have "mids (snd (raft_add_member r (id_for pk) role el)) = [id_for pk]"
    using r(2) by (simp add: mids_add id_for_nonzero RAFT_MAX_NODES_def)
  ultimately show ?thesis using * by (simp add: cluster_wf_def)
qed

lemma watch_wf: "cluster_wf cl \<Longrightarrow> cluster_wf (snd (norn_cluster_kv_watch cl p f))"
  by (auto simp: norn_cluster_kv_watch_def norn_kv_watch_def cluster_wf_def kv_wf_def split_beta)

section \<open>The operations of a cluster node\<close>

datatype cluster_op =
  C_tick u64 | C_input bytes bytes | C_put bytes bytes | C_del bytes | C_cas bytes bytes bytes
| C_add bytes norn_node_class bool | C_bootstrap "bytes list" | C_promote bytes | C_remove bytes
| C_watch bytes nat

fun cluster_do :: "norn_cluster \<Rightarrow> cluster_op \<Rightarrow> norn_cluster" where
  "cluster_do cl (C_tick t) = fst (norn_cluster_tick cl t)"
| "cluster_do cl (C_input pk d) = fst (norn_cluster_input cl pk d)"
| "cluster_do cl (C_put k v) = fst (snd (norn_cluster_kv_put cl k v))"
| "cluster_do cl (C_del k) = fst (snd (norn_cluster_kv_del cl k))"
| "cluster_do cl (C_cas k e v) = fst (snd (norn_cluster_kv_cas cl k e v))"
| "cluster_do cl (C_add pk cls el) = snd (norn_cluster_add_member cl pk cls el)"
| "cluster_do cl (C_bootstrap pks) = snd (norn_cluster_bootstrap cl pks)"
| "cluster_do cl (C_promote pk) = snd (norn_cluster_promote cl pk)"
| "cluster_do cl (C_remove pk) = snd (norn_cluster_remove cl pk)"
| "cluster_do cl (C_watch p f) = snd (norn_cluster_kv_watch cl p f)"

lemma cluster_do_wf: "cluster_wf cl \<Longrightarrow> cluster_wf (cluster_do cl op)"
  by (cases op)
    (simp_all add: tick_wf input_wf norn_cluster_kv_put_def norn_cluster_kv_del_def norn_cluster_kv_cas_def
      submit_wf add_member_wf bootstrap_wf promote_wf remove_wf watch_wf split: option.split)

section \<open>Properties\<close>

definition demo_pk :: bytes where
  "demo_pk = replicate 32 7"

definition demo_cluster :: norn_cluster where
  "demo_cluster = fst (norn_cluster_tick (the (norn_cluster_new demo_pk True None)) 1000)"

lemma demo_new: "norn_cluster_new demo_pk True None = Some (the (norn_cluster_new demo_pk True None))"
  using id_for_nonzero [of demo_pk]
  by (simp add: norn_cluster_new_def Let_def norn_kv_new_def raft_new_def RAFT_NO_NODE_def)

lemma demo_cluster_wf: "cluster_wf demo_cluster"
  unfolding demo_cluster_def by (rule tick_wf [OF new_wf [OF demo_new]])

text \<open>
  C7: The wire format carries Raft faithfully: every message a node sends fits the frame
  buffer, and the receiver, having decoded it (with any trailing bytes), does exactly what
  it would have done with the message itself.
\<close>

theorem cluster_wire_faithful:
  assumes "msg_fits m" and "flags_ok m"
  shows "\<exists>b m'. encode_raft m RAFT_FRAME_MAX = Some b \<and> length b \<le> RAFT_FRAME_MAX \<and>
    decode_raft (b @ junk) = Some m' \<and> raft_recv r from m' = raft_recv r from m"
  using encode_raft_fits [OF assms(1)] decode_encode_raft [OF assms(1)] recv_canon [OF assms(2)] by blast

theorem cluster_wire_faithful_witness:
  "(let m = (msg_zero RAFT_MSG_APPEND)\<lparr>m_term := 5, m_leader_id := 9,
              m_entries := [\<lparr>re_term = 4, re_index = 1, re_type = 0, re_data = [1, 2, 3]\<rparr>]\<rparr> in
     \<exists>b m'. encode_raft m RAFT_FRAME_MAX = Some b \<and> decode_raft b = Some m' \<and>
       raft_recv demo_node 2 m' = raft_recv demo_node 2 m)"
proof -
  let ?m = "(msg_zero RAFT_MSG_APPEND)\<lparr>m_term := 5, m_leader_id := 9,
      m_entries := [\<lparr>re_term = 4, re_index = 1, re_type = 0, re_data = [1, 2, 3]\<rparr>]\<rparr>"
  have "msg_fits ?m" "flags_ok ?m"
    by (simp_all add: msg_fits_def flags_ok_def msg_zero_def raft_consts)
  from cluster_wire_faithful [OF this, of "[]" demo_node 2] show ?thesis unfolding Let_def by auto
qed

text \<open>
  From its creation on, whatever frames arrive from whomever and whatever the
  application asks for, a cluster node's member table lists the same ids in the same order
  as its Raft core, each id is the hash of its public key, no key occurs twice, and the
  Raft node and the key-value store satisfy their invariants.
\<close>

theorem cluster_invariant:
  assumes "norn_cluster_new pk s cfg = Some cl"
  shows "cluster_wf (foldl cluster_do cl ops)"
proof -
  have "cluster_wf c \<Longrightarrow> cluster_wf (foldl cluster_do c ops)" for c
    by (induction ops arbitrary: c) (simp_all add: cluster_do_wf)
  then show ?thesis using new_wf [OF assms] .
qed

theorem cluster_invariant_witness:
  "cluster_wf (foldl cluster_do (the (norn_cluster_new demo_pk True None))
     [C_add (replicate 32 8) NORN_NODE_SERVER True, C_tick 500, C_input demo_pk [1, 2, 3], C_remove demo_pk])"
  using cluster_invariant [OF demo_new] by blast

lemma sole_leader_put_get:
  fixes cl :: norn_cluster and k v :: bytes
  defines "r \<equiv> c_raft cl"
  assumes "cluster_wf cl" and "r_role r = RAFT_LEADER" and "count_voters r = 1" and "raft_is_voter r (r_self r)"
    and "r_io_apply r" and "unat (r_applied r) \<le> length (r_log r)" and "length (r_log r) < RAFT_MAX_LOG"
    and "\<forall>i \<in> {unat (r_applied r)..<length (r_log r)}. re_type (r_log r ! i) \<noteq> RAFT_ENTRY_NORMAL"
    and "key_ok k" and "val_ok v" and "k \<in> dom (kv_map (c_kv cl)) \<or> card (dom (kv_map (c_kv cl))) < kv_cap (c_kv cl)"
  shows "\<exists>cl' out. norn_cluster_kv_put cl k v = (0, cl', out) \<and>
    (\<forall>k' n. norn_cluster_kv_get cl' k' n =
       (if k' = k then (if length v \<le> n then Some v else None) else norn_cluster_kv_get cl k' n))"
proof -
  have kw: "kv_wf (c_kv cl)" and rw: "raft_wf r" using assms(2) by (simp_all add: cluster_wf_def r_def)
  let ?cmd = "kv_encode (Put k v)"
  have enc: "norn_kv_encode_put CMD_MAX k v = Some ?cmd" and len: "length ?cmd \<le> RAFT_ENTRY_MAX"
    using assms(10,11) by (simp_all add: norn_kv_encode_put_def key_ok_def val_ok_def cluster_consts kv_consts raft_consts)
  note p = sole_voter_propose [OF rw assms(3-5,7,8) len assms(6)]
  have "filter normal (map ((!) (r_log r)) [unat (r_applied r)..<length (r_log r)]) = []"
    using assms(9) by (auto simp: filter_empty_conv)
  with p(6) have ap: "map re_data (applies (snd (snd (raft_propose r ?cmd)))) = [?cmd]" by simp
  obtain rc calls kv' where a: "norn_kv_apply (c_kv cl) ?cmd = (rc, calls, kv')" by (rule prod_cases3)
  have ok: "kv_cmd_ok (Put k v)" using assms(10,11) by simp
  have m: "kv_map kv' = (kv_map (c_kv cl))(k \<mapsto> v)"
    using apply_ok_step(1) [OF a ok kw] assms(12) by (auto simp: spec_put_def)
  have "fst (raft_propose r ?cmd) \<noteq> 0"
    using p(1) assms(8) unat_Suc_pos [of "length (r_log r)"] by (auto simp: RAFT_MAX_LOG_def)
  moreover have "?cmd \<noteq> []" by simp
  ultimately have put: "norn_cluster_kv_put cl k v = (0, with_raft cl (snd (raft_propose r ?cmd)))"
    using assms(3) enc by (simp add: norn_cluster_kv_put_def kv_submit_def r_def split_beta)
  have "c_kv (fst (with_raft cl (snd (raft_propose r ?cmd)))) = kv'"
    by (simp add: with_raft_state ap a del: kv_encode.simps)
  moreover have "norn_kv_get kv' k' n =
      (if k' = k then (if length v \<le> n then Some v else None) else norn_kv_get (c_kv cl) k' n)" for k' n
    using m assms(10) by (cases "k' = []") (auto simp: kv_get_map key_ok_def norn_kv_get_def [of _ "[]"] split: option.split)
  ultimately show ?thesis
    unfolding put by (intro exI conjI) (auto simp: norn_cluster_kv_get_def prod_eq_iff)
qed

text \<open>
  On a cluster whose only voter is this leader, with room in log and store, a put is
  accepted and at once readable: \<open>norn_cluster_kv_get\<close> returns the value, and other keys
  are unchanged.
\<close>

theorem cluster_put_get:
  fixes cl :: norn_cluster and k v :: bytes
  defines "r \<equiv> c_raft cl"
  assumes "cluster_wf cl" and "r_role r = RAFT_LEADER" and "count_voters r = 1" and "raft_is_voter r (r_self r)"
    and "r_io_apply r" and "unat (r_applied r) \<le> length (r_log r)" and "length (r_log r) < RAFT_MAX_LOG"
    and "\<forall>i \<in> {unat (r_applied r)..<length (r_log r)}. re_type (r_log r ! i) \<noteq> RAFT_ENTRY_NORMAL"
    and "key_ok k" and "val_ok v" and "k \<in> dom (kv_map (c_kv cl)) \<or> card (dom (kv_map (c_kv cl))) < kv_cap (c_kv cl)"
  shows "\<exists>cl' out. norn_cluster_kv_put cl k v = (0, cl', out) \<and>
    (\<forall>k' n. norn_cluster_kv_get cl' k' n =
       (if k' = k then (if length v \<le> n then Some v else None) else norn_cluster_kv_get cl k' n))"
  using sole_leader_put_get [OF assms(2-12) [unfolded r_def]] .

theorem cluster_put_get_witness:
  "\<exists>cl' out. norn_cluster_kv_put demo_cluster [1] [2, 3] = (0, cl', out) \<and>
     norn_cluster_kv_get cl' [1] 10 = Some [2, 3]"
proof -
  let ?r = "c_raft demo_cluster"
  have r: "r_role ?r = RAFT_LEADER" "count_voters ?r = 1" "raft_is_voter ?r (r_self ?r)" "r_io_apply ?r" by code_simp+
  have l: "unat (r_applied ?r) = 0" "length (r_log ?r) = 1" "re_type (r_log ?r ! 0) = 1" by code_simp+
  have kv: "kv_entries (c_kv demo_cluster) = replicate 256 \<lparr>ke_key = [], ke_val = [], ke_used = False\<rparr>"
    by code_simp
  have "card (dom (kv_map (c_kv demo_cluster))) < kv_cap (c_kv demo_cluster)"
    by (simp add: kv_map_def kv_cap_def kv dom_slot_map)
  then show ?thesis
    using cluster_put_get [OF demo_cluster_wf r, of "[1]" "[2, 3]"] l
    by (auto simp: raft_consts key_ok_def val_ok_def kv_consts)
qed

text \<open>
  A write on a follower that knows the leader sends the leader one frame, and the leader
  that receives it from a member does exactly what it would have done had the write been
  called on the leader itself.
\<close>

theorem cluster_forward_is_put:
  assumes "r_role (c_raft f) \<noteq> RAFT_LEADER" and "c_have_leader f" and "c_io_send f"
    and "r_role (c_raft l) = RAFT_LEADER" and "by_pubkey l (c_self f) \<noteq> None" and "key_ok k" and "val_ok v"
  shows "\<exists>frame. norn_cluster_kv_put f k v = (0, f, [Frame (c_leader_pub f) frame]) \<and>
    norn_cluster_input l (c_self f) frame = snd (norn_cluster_kv_put l k v)"
proof -
  let ?cmd = "kv_encode (Put k v)"
  have enc: "norn_kv_encode_put CMD_MAX k v = Some ?cmd"
    using assms(6,7) by (simp add: norn_kv_encode_put_def key_ok_def val_ok_def cluster_consts kv_consts)
  obtain i where "by_pubkey l (c_self f) = Some i" using assms(5) by auto
  then have "norn_cluster_input l (c_self f) (FRAME_FWD # ?cmd) = snd (norn_cluster_kv_put l k v)"
    using assms(4) enc
    by (simp add: norn_cluster_input_def norn_cluster_kv_put_def kv_submit_def split_beta FRAME_RAFT_def FRAME_FWD_def)
  moreover have "norn_cluster_kv_put f k v = (0, f, [Frame (c_leader_pub f) (FRAME_FWD # ?cmd)])"
    using assms(1-3) enc by (simp add: norn_cluster_kv_put_def kv_submit_def)
  ultimately show ?thesis by blast
qed

theorem cluster_forward_is_put_witness:
  "(let l = snd (norn_cluster_add_member demo_cluster (replicate 32 8) NORN_NODE_MOBILE False);
        f = demo_cluster\<lparr>c_self := replicate 32 8, c_raft := (c_raft demo_cluster)\<lparr>r_role := RAFT_FOLLOWER\<rparr>\<rparr> in
     \<exists>frame. norn_cluster_kv_put f [1] [2] = (0, f, [Frame demo_pk frame]) \<and>
       norn_cluster_input l (replicate 32 8) frame = snd (norn_cluster_kv_put l [1] [2]))"
proof -
  let ?l = "snd (norn_cluster_add_member demo_cluster (replicate 32 8) NORN_NODE_MOBILE False)"
  let ?f = "demo_cluster\<lparr>c_self := replicate 32 8, c_raft := (c_raft demo_cluster)\<lparr>r_role := RAFT_FOLLOWER\<rparr>\<rparr>"
  have h: "c_have_leader ?f" "c_io_send ?f" "c_leader_pub ?f = demo_pk" by code_simp+
  have l: "r_role (c_raft ?l) = RAFT_LEADER" "by_pubkey ?l (c_self ?f) \<noteq> None" by code_simp+
  have "key_ok [1]" "val_ok [2]" by (simp_all add: key_ok_def val_ok_def kv_consts)
  from cluster_forward_is_put [OF _ h(1,2) l this] h(3) show ?thesis by simp
qed

end
