(* ===== verification/Norn_Bencode.thy ===== *)
theory Norn_Bencode
  imports Norn_Prelude
begin

text \<open>
  The bencode codec, \<open>src/libnorn/bencode.c\<close>. A position in a buffer is the list of the
  bytes from there on, so reading past the end is impossible by construction where the
  code checks \<open>*pos < len\<close>. A dictionary key is kept as the C string \<open>strlen\<close> and
  \<open>strcmp\<close> see: the bytes before the first NUL. The mutually recursive parser takes
  fuel; the outer option says whether it ran out, the inner one whether the code returns
  NULL. Twice the length of the input and one more is always enough
  (\<open>decode_depth_fuel\<close>), which is what \<open>bencode_decode\<close> uses.
\<close>

section \<open>Values\<close>

datatype bencode_value =
  BENCODE_INT int
| BENCODE_STRING bytes
| BENCODE_LIST "bencode_value list"
| BENCODE_DICT "(bytes \<times> bencode_value) list"

definition BENCODE_MAX_DEPTH :: nat where "BENCODE_MAX_DEPTH = 32"

definition is_digit :: "byte \<Rightarrow> bool" where
  "is_digit c \<longleftrightarrow> 48 \<le> c \<and> c \<le> 57"

definition c_string :: "bytes \<Rightarrow> bytes" where
  "c_string s = takeWhile (\<lambda>c. c \<noteq> 0) s"

section \<open>Decoding\<close>

fun parse_digits :: "u64 \<Rightarrow> bytes \<Rightarrow> (u64 \<times> bytes) option" where
  "parse_digits v [] = Some (v, [])"
| "parse_digits v (c # cs) =
     (if is_digit c then
        let nv = v * 10 + ucast (c - 48) in if nv < v then None else parse_digits nv cs
      else Some (v, c # cs))"

definition parse_int_bounded :: "bool \<Rightarrow> bytes \<Rightarrow> (int \<times> bytes) option" where
  "parse_int_bounded allow_neg s =
     (let neg = (allow_neg \<and> s \<noteq> [] \<and> hd s = 45);
          s1 = (if neg then tl s else s)
      in if s1 = [] \<or> \<not> is_digit (hd s1) then None
         else case parse_digits 0 s1 of
           None \<Rightarrow> None
         | Some (v, rest) \<Rightarrow>
             if neg then (if v > 2 ^ 63 then None else Some (- uint v, rest))
             else (if v > 2 ^ 63 - 1 then None else Some (uint v, rest)))"

definition decode_int :: "bytes \<Rightarrow> (bencode_value \<times> bytes) option" where
  "decode_int s =
     (if s = [] \<or> hd s \<noteq> 105 then None
      else case parse_int_bounded True (tl s) of
        None \<Rightarrow> None
      | Some (v, p) \<Rightarrow> if p = [] \<or> hd p \<noteq> 101 then None else Some (BENCODE_INT v, tl p))"

definition decode_string :: "bytes \<Rightarrow> (bytes \<times> bytes) option" where
  "decode_string s =
     (if s = [] then None
      else case parse_int_bounded False s of
        None \<Rightarrow> None
      | Some (slen, p) \<Rightarrow>
          if p = [] \<or> hd p \<noteq> 58 then None
          else if nat slen > length (tl p) then None
          else Some (take (nat slen) (tl p), drop (nat slen) (tl p)))"

definition and_then :: "'a option option \<Rightarrow> ('a \<Rightarrow> 'b option option) \<Rightarrow> 'b option option" where
  "and_then x f = (case x of None \<Rightarrow> None | Some None \<Rightarrow> Some None | Some (Some y) \<Rightarrow> f y)"

lemma and_then_cong [fundef_cong]:
  "x = y \<Longrightarrow> (\<And>z. y = Some (Some z) \<Longrightarrow> f z = g z) \<Longrightarrow> and_then x f = and_then y g"
  by (simp add: and_then_def split: option.split)

fun decode_depth :: "nat \<Rightarrow> nat \<Rightarrow> bytes \<Rightarrow> (bencode_value \<times> bytes) option option"
  and decode_list :: "nat \<Rightarrow> nat \<Rightarrow> bytes \<Rightarrow> (bencode_value list \<times> bytes) option option"
  and decode_dict :: "nat \<Rightarrow> nat \<Rightarrow> bytes \<Rightarrow> ((bytes \<times> bencode_value) list \<times> bytes) option option"
where
  "decode_depth 0 depth s = None"
| "decode_depth (Suc n) depth s =
     (if s = [] then Some None
      else if depth > BENCODE_MAX_DEPTH then Some None
      else if hd s = 105 then Some (decode_int s)
      else if is_digit (hd s) then
        Some (map_option (\<lambda>(d, rest). (BENCODE_STRING d, rest)) (decode_string s))
      else if hd s = 108 then
        and_then (decode_list n depth (tl s)) (\<lambda>(vs, rest). Some (Some (BENCODE_LIST vs, rest)))
      else if hd s = 100 then
        and_then (decode_dict n depth (tl s)) (\<lambda>(kvs, rest). Some (Some (BENCODE_DICT kvs, rest)))
      else Some None)"
| "decode_list 0 depth s = None"
| "decode_list (Suc n) depth s =
     (if s = [] then Some None
      else if hd s = 101 then Some (Some ([], tl s))
      else and_then (decode_depth n (Suc depth) s) (\<lambda>(v, rest).
           and_then (decode_list n depth rest) (\<lambda>(vs, rest'). Some (Some (v # vs, rest')))))"
| "decode_dict 0 depth s = None"
| "decode_dict (Suc n) depth s =
     (if s = [] then Some None
      else if hd s = 101 then Some (Some ([], tl s))
      else and_then (Some (decode_string s)) (\<lambda>(k, rest).
           and_then (decode_depth n (Suc depth) rest) (\<lambda>(v, rest').
           and_then (decode_dict n depth rest') (\<lambda>(kvs, rest'').
             Some (Some ((c_string k, v) # kvs, rest''))))))"

definition bencode_decode :: "bytes \<Rightarrow> (bencode_value \<times> bytes) option" where
  "bencode_decode s =
     (case decode_depth (2 * length s + 1) 0 s of None \<Rightarrow> None | Some r \<Rightarrow> r)"

section \<open>Encoding\<close>

text \<open>\<open>snprintf\<close> with \<open>%zu\<close> and \<open>%lld\<close>\<close>

fun nat_dec :: "nat \<Rightarrow> bytes" where
  "nat_dec n = (if n < 10 then [48 + word_of_nat n] else nat_dec (n div 10) @ [48 + word_of_nat (n mod 10)])"

definition int_dec :: "int \<Rightarrow> bytes" where
  "int_dec v = (if v < 0 then 45 # nat_dec (nat (- v)) else nat_dec (nat v))"

definition encode_int :: "int \<Rightarrow> bytes" where
  "encode_int v = [105] @ int_dec v @ [101]"

definition encode_string :: "bytes \<Rightarrow> bytes" where
  "encode_string d = nat_dec (length d) @ [58] @ d"

fun encode_value :: "bencode_value \<Rightarrow> bytes" where
  "encode_value (BENCODE_INT v) = encode_int v"
| "encode_value (BENCODE_STRING d) = encode_string d"
| "encode_value (BENCODE_LIST vs) = [108] @ concat (map encode_value vs) @ [101]"
| "encode_value (BENCODE_DICT kvs) =
     [100] @ concat (map (\<lambda>(k, v). encode_string (c_string k) @ encode_value v) kvs) @ [101]"

definition bencode_encode :: "bencode_value \<Rightarrow> bytes" where
  "bencode_encode v = encode_value v"

section \<open>Building and reading values\<close>

fun bencode_dict_get :: "bencode_value \<Rightarrow> bytes \<Rightarrow> bencode_value option" where
  "bencode_dict_get (BENCODE_DICT kvs) key = map_of (map (\<lambda>(k, v). (c_string k, v)) kvs) (c_string key)"
| "bencode_dict_get _ key = None"

fun bencode_dict_add :: "bencode_value \<Rightarrow> bytes \<Rightarrow> bencode_value \<Rightarrow> int \<times> bencode_value" where
  "bencode_dict_add (BENCODE_DICT kvs) key v = (0, BENCODE_DICT (kvs @ [(c_string key, v)]))"
| "bencode_dict_add d key v = (-1, d)"

fun bencode_list_add :: "bencode_value \<Rightarrow> bencode_value \<Rightarrow> int \<times> bencode_value" where
  "bencode_list_add (BENCODE_LIST vs) v = (0, BENCODE_LIST (vs @ [v]))"
| "bencode_list_add l v = (-1, l)"

definition bencode_int_new :: "int \<Rightarrow> bencode_value" where "bencode_int_new v = BENCODE_INT v"
definition bencode_string_new :: "bytes \<Rightarrow> bencode_value" where "bencode_string_new d = BENCODE_STRING d"
definition bencode_dict_new :: bencode_value where "bencode_dict_new = BENCODE_DICT []"
definition bencode_list_new :: bencode_value where "bencode_list_new = BENCODE_LIST []"

declare nat_dec.simps [simp del]

section \<open>Progress: fuel is enough\<close>

lemma and_then_simps [simp]:
  "and_then None f = None" "and_then (Some None) f = Some None" "and_then (Some (Some y)) f = f y"
  by (simp_all add: and_then_def)

lemma and_then_SomeE:
  assumes "and_then x f = Some (Some z)" obtains y where "x = Some (Some y)" and "f y = Some (Some z)"
  using assms by (auto simp: and_then_def split: option.splits)

lemma parse_digits_shorter: "parse_digits v s = Some (w, r) \<Longrightarrow> length r \<le> length s"
  by (induction v s rule: parse_digits.induct) (auto simp: Let_def split: if_splits)

lemma parse_digits_one:
  assumes "parse_digits v (c # cs) = Some (w, r)" and "is_digit c" shows "length r \<le> length cs"
  using assms parse_digits_shorter [of "v * 10 + ucast (c - 48)" cs w r] by (simp add: Let_def split: if_splits)

lemma parse_int_shorter:
  assumes "parse_int_bounded neg s = Some (w, r)" shows "length r < length s"
proof -
  obtain s1 v where s1: "s1 \<noteq> []" "is_digit (hd s1)" "length s1 \<le> length s" "parse_digits 0 s1 = Some (v, r)"
    using assms by (auto simp: parse_int_bounded_def Let_def split: if_splits option.splits)
  then show ?thesis using parse_digits_one [of 0 "hd s1" "tl s1" v r] by (cases s1) auto
qed

lemma decode_string_shorter: "decode_string s = Some (d, r) \<Longrightarrow> length r < length s"
  by (auto simp: decode_string_def split: if_splits option.splits dest!: parse_int_shorter)

lemma decode_int_shorter: "decode_int s = Some (v, r) \<Longrightarrow> length r < length s"
  by (cases s) (auto simp: decode_int_def split: if_splits option.splits dest!: parse_int_shorter)

lemma decode_shorter:
  shows decode_depth_shorter: "decode_depth n d s = Some (Some (v, r)) \<Longrightarrow> length r < length s"
    and decode_list_shorter: "decode_list n d s = Some (Some (vs, r)) \<Longrightarrow> length r < length s"
    and decode_dict_shorter: "decode_dict n d s = Some (Some (kvs, r)) \<Longrightarrow> length r < length s"
proof (induction n arbitrary: d s v vs kvs r)
  case (Suc n)
  {
    case 1
    then show ?case
      by (cases s) (auto split: if_splits elim!: and_then_SomeE
          dest!: decode_int_shorter decode_string_shorter Suc.IH(2,3))
  next
    case 2
    then show ?case
      by (cases s) (auto split: if_splits elim!: and_then_SomeE dest!: Suc.IH(1,2))
  next
    case 3
    then show ?case
      by (cases s) (auto split: if_splits elim!: and_then_SomeE dest!: decode_string_shorter Suc.IH(1,3))
  }
qed simp_all

lemma decode_fuel:
  shows decode_depth_fuel: "2 * length s + 1 \<le> n \<Longrightarrow> decode_depth n d s \<noteq> None"
    and decode_list_fuel: "2 * length s + 2 \<le> n \<Longrightarrow> decode_list n d s \<noteq> None"
    and decode_dict_fuel: "2 * length s + 2 \<le> n \<Longrightarrow> decode_dict n d s \<noteq> None"
proof (induction n arbitrary: d s)
  case (Suc n)
  {
    case 1
    show ?case
    proof (cases s)
      case (Cons c cs)
      have "decode_list n d cs \<noteq> None" "decode_dict n d cs \<noteq> None"
        using Suc.IH(2,3) [of cs d] 1 Cons by auto
      then show ?thesis using Cons by (auto simp: and_then_def split: option.splits)
    qed simp
  next
    case 2
    have "decode_depth n (Suc d) s \<noteq> None" using Suc.IH(1) 2 by simp
    moreover have "decode_list n d r \<noteq> None" if "decode_depth n (Suc d) s = Some (Some (v, r))" for v r
      using Suc.IH(2) [of r d] decode_depth_shorter [OF that] 2 by simp
    ultimately show ?case by (auto simp: and_then_def split: option.splits)
  next
    case 3
    have a: "decode_depth n (Suc d) r \<noteq> None" if "decode_string s = Some (k, r)" for k r
      using Suc.IH(1) [of r "Suc d"] decode_string_shorter [OF that] 3 by simp
    have b: "decode_dict n d r' \<noteq> None"
      if "decode_string s = Some (k, r)" "decode_depth n (Suc d) r = Some (Some (v, r'))" for k r v r'
      using Suc.IH(3) [of r' d] decode_string_shorter [OF that(1)] decode_depth_shorter [OF that(2)] 3 by simp
    show ?case
    proof (cases "decode_string s")
      case (Some kr)
      obtain k r where kr: "kr = (k, r)" by (cases kr)
      show ?thesis
        using a [of k r] b [of k r] Some kr by (auto simp: and_then_def split: option.splits)
    qed auto
  }
qed simp_all

lemma and_then_mono:
  "and_then a f = Some w \<Longrightarrow> (\<And>u. a = Some u \<Longrightarrow> b = Some u) \<Longrightarrow>
     (\<And>u w. f u = Some w \<Longrightarrow> g u = Some w) \<Longrightarrow> and_then b g = Some w"
  by (auto simp: and_then_def split: option.splits)

lemma decode_mono_Suc:
  shows decode_depth_Suc: "decode_depth n d s = Some x \<Longrightarrow> decode_depth (Suc n) d s = Some x"
    and decode_list_Suc: "decode_list n d s = Some y \<Longrightarrow> decode_list (Suc n) d s = Some y"
    and decode_dict_Suc: "decode_dict n d s = Some z \<Longrightarrow> decode_dict (Suc n) d s = Some z"
proof (induction n arbitrary: d s x y z)
  case (Suc n)
  {
    case 1
    then show ?case
      unfolding decode_depth.simps(2) [of n d s] decode_depth.simps(2) [of "Suc n" d s]
      by (auto simp del: decode_list.simps decode_dict.simps split: if_splits)
        (erule and_then_mono, erule Suc.IH, assumption)+
  next
    case 2
    then show ?case
      unfolding decode_list.simps(2) [of n d s] decode_list.simps(2) [of "Suc n" d s]
      by (simp del: decode_depth.simps decode_list.simps split: if_splits)
        (erule and_then_mono, erule Suc.IH, clarsimp simp del: decode_list.simps,
         erule and_then_mono, erule Suc.IH, assumption)
  next
    case 3
    then show ?case
      unfolding decode_dict.simps(2) [of n d s] decode_dict.simps(2) [of "Suc n" d s]
      by (simp del: decode_depth.simps decode_dict.simps split: if_splits)
        (erule and_then_mono, assumption, clarsimp simp del: decode_depth.simps decode_dict.simps,
         erule and_then_mono, erule Suc.IH, clarsimp simp del: decode_dict.simps,
         erule and_then_mono, erule Suc.IH, assumption)
  }
qed simp_all

lemma decode_mono:
  assumes "n \<le> m"
  shows "decode_depth n d s = Some x \<Longrightarrow> decode_depth m d s = Some x"
    and "decode_list n d s = Some y \<Longrightarrow> decode_list m d s = Some y"
    and "decode_dict n d s = Some z \<Longrightarrow> decode_dict m d s = Some z"
  using assms by (induction m rule: nat_induct_at_least) (simp_all add: decode_mono_Suc del: decode_depth.simps decode_list.simps decode_dict.simps)

lemma bencode_decode_eq: "decode_depth n 0 s = Some x \<Longrightarrow> bencode_decode s = x"
proof -
  assume a: "decode_depth n 0 s = Some x"
  obtain y where y: "decode_depth (2 * length s + 1) 0 s = Some y" using decode_depth_fuel [of s "2 * length s + 1" 0] by blast
  have "decode_depth (max n (2 * length s + 1)) 0 s = Some x" by (rule decode_mono(1) [OF _ a]) simp
  moreover have "decode_depth (max n (2 * length s + 1)) 0 s = Some y" by (rule decode_mono(1) [OF _ y]) simp
  ultimately show ?thesis using y by (simp add: bencode_decode_def del: decode_depth.simps)
qed

section \<open>Numbers\<close>

definition dval :: "nat \<Rightarrow> bytes \<Rightarrow> nat" where
  "dval a ds = foldl (\<lambda>a c. a * 10 + unat (c - 48)) a ds"

lemma dval_simps [simp]: "dval a [] = a" "dval a (c # cs) = dval (a * 10 + unat (c - 48)) cs"
  "dval a (xs @ ys) = dval (dval a xs) ys"
  by (simp_all add: dval_def)

lemma dval_ge: "a \<le> dval a ds"
proof (induction ds arbitrary: a)
  case (Cons c ds)
  show ?case using Cons [of "a * 10 + unat (c - 48)"] by simp
qed simp

definition no_digit :: "bytes \<Rightarrow> bool" where
  "no_digit s \<longleftrightarrow> s = [] \<or> \<not> is_digit (hd s)"

lemma parse_digits_val:
  assumes "\<forall>c \<in> set ds. is_digit c" and "dval a ds < 2 ^ 64" and "no_digit rest"
  shows "parse_digits (word_of_nat a) (ds @ rest) = Some (word_of_nat (dval a ds), rest)"
  using assms(1,2)
proof (induction ds arbitrary: a)
  case Nil
  then show ?case using assms(3) by (cases rest) (simp_all add: no_digit_def)
next
  case (Cons c ds)
  let ?b = "a * 10 + unat (c - 48)"
  have b: "?b < 2 ^ 64" using Cons.prems(2) dval_ge [of ?b ds] by simp
  have nv: "word_of_nat a * 10 + ucast (c - 48) = (word_of_nat ?b :: u64)" by simp
  have le: "\<not> (word_of_nat ?b :: u64) < word_of_nat a"
    using b by (simp add: word_less_nat_alt unat_of_nat_u64 del: of_nat_add of_nat_mult)
  have ih: "parse_digits (word_of_nat ?b) (ds @ rest) = Some (word_of_nat (dval ?b ds), rest)"
    by (rule Cons.IH) (use Cons.prems in simp_all)
  have "is_digit c" using Cons.prems by simp
  then show ?case unfolding append_Cons parse_digits.simps Let_def nv dval_simps ih using le by simp
qed

lemma digit_word: "n < 10 \<Longrightarrow> is_digit (48 + word_of_nat n) \<and> unat (48 + word_of_nat n - 48 :: byte) = n"
  by (simp add: is_digit_def word_le_nat_alt unat_word_ariths unat_of_nat)

lemma nat_dec_digits: "(\<forall>c \<in> set (nat_dec n). is_digit c) \<and> nat_dec n \<noteq> [] \<and> dval 0 (nat_dec n) = n"
proof (induction n rule: nat_dec.induct)
  case (1 n)
  show ?case
  proof (cases "n < 10")
    case True
    then show ?thesis using digit_word [of n] by (subst (1 2 3) nat_dec.simps) simp
  next
    case False
    then show ?thesis using 1 digit_word [of "n mod 10"] by (subst (1 2 3) nat_dec.simps) auto
  qed
qed

lemma length_nat_dec: "n < 10 ^ k \<Longrightarrow> 0 < k \<Longrightarrow> length (nat_dec n) \<le> k"
proof (induction k arbitrary: n)
  case (Suc k)
  show ?case
  proof (cases "n < 10")
    case False
    then have "0 < k" using Suc.prems(1) by (cases k) auto
    moreover have "n div 10 < 10 ^ k" using Suc.prems(1) by (simp add: less_mult_imp_div_less mult.commute)
    ultimately show ?thesis using Suc.IH [of "n div 10"] False by (simp add: nat_dec.simps [of n])
  qed (simp add: nat_dec.simps)
qed simp

lemma nat_dec_hd: "is_digit (hd (nat_dec n @ r))" and nat_dec_ne [simp]: "nat_dec n \<noteq> []"
  using nat_dec_digits [of n] by (auto simp: hd_append)

lemma is_digit_not [simp]:
  "\<not> is_digit 45" "\<not> is_digit 58" "\<not> is_digit 100" "\<not> is_digit 101" "\<not> is_digit 105" "\<not> is_digit 108"
  by (simp_all add: is_digit_def)

lemma parse_nat_dec:
  assumes "n < 2 ^ 64" and "no_digit rest"
  shows "parse_digits 0 (nat_dec n @ rest) = Some (word_of_nat n, rest)"
  using parse_digits_val [of "nat_dec n" 0 rest] nat_dec_digits [of n] assms by simp

lemma uint_of_nat_u64: "n < 2 ^ 64 \<Longrightarrow> uint (word_of_nat n :: u64) = int n"
  by (simp add: uint_nat unat_of_nat_u64)

lemma parse_nonneg:
  assumes "n < 2 ^ 63" and "no_digit rest"
  shows "parse_int_bounded neg (nat_dec n @ rest) = Some (int n, rest)"
proof -
  have "hd (nat_dec n @ rest) \<noteq> 45" using nat_dec_hd [of n rest] by auto
  moreover have "\<not> (word_of_nat n :: u64) > 2 ^ 63 - 1"
    using assms by (simp add: word_less_nat_alt unat_of_nat_u64)
  ultimately show ?thesis using parse_nat_dec [OF _ assms(2), of n] assms nat_dec_hd [of n rest]
    by (simp add: parse_int_bounded_def uint_of_nat_u64)
qed

lemma parse_neg:
  assumes "n \<le> 2 ^ 63" and "no_digit rest"
  shows "parse_int_bounded True (45 # nat_dec n @ rest) = Some (- int n, rest)"
proof -
  have "\<not> (word_of_nat n :: u64) > 2 ^ 63"
    using assms by (simp add: word_less_nat_alt unat_of_nat_u64)
  then show ?thesis using parse_nat_dec [OF _ assms(2), of n] assms nat_dec_hd [of n rest]
    by (simp add: parse_int_bounded_def uint_of_nat_u64)
qed

lemma decode_encode_int:
  assumes "- (2 ^ 63) \<le> v" "v < 2 ^ 63"
  shows "decode_int (encode_int v @ rest) = Some (BENCODE_INT v, rest)"
proof (cases "v < 0")
  case True
  then have "parse_int_bounded True (45 # nat_dec (nat (- v)) @ 101 # rest) = Some (v, 101 # rest)"
    using parse_neg [of "nat (- v)" "101 # rest"] assms by (simp add: no_digit_def)
  then show ?thesis using True by (simp add: decode_int_def encode_int_def int_dec_def)
next
  case False
  then have "parse_int_bounded True (nat_dec (nat v) @ 101 # rest) = Some (v, 101 # rest)"
    using parse_nonneg [of "nat v" "101 # rest" True] assms by (simp add: no_digit_def)
  then show ?thesis using False by (simp add: decode_int_def encode_int_def int_dec_def)
qed

lemma decode_encode_string:
  assumes "length d < 2 ^ 63"
  shows "decode_string (encode_string d @ rest) = Some (d, rest)"
  using parse_nonneg [of "length d" "58 # d @ rest" False] assms
  by (simp add: decode_string_def encode_string_def no_digit_def)

section \<open>The round trip\<close>

text \<open>
  The values the format can carry at a nesting depth: integers of 64 bits, strings with
  a length \<open>parse_int_bounded\<close> accepts, keys that are C strings, and no value more than
  \<open>BENCODE_MAX_DEPTH\<close> levels down.
\<close>

fun bwf :: "nat \<Rightarrow> bencode_value \<Rightarrow> bool" where
  "bwf d (BENCODE_INT v) \<longleftrightarrow> d \<le> BENCODE_MAX_DEPTH \<and> - (2 ^ 63) \<le> v \<and> v < 2 ^ 63"
| "bwf d (BENCODE_STRING s) \<longleftrightarrow> d \<le> BENCODE_MAX_DEPTH \<and> length s < 2 ^ 63"
| "bwf d (BENCODE_LIST vs) \<longleftrightarrow> d \<le> BENCODE_MAX_DEPTH \<and> list_all (bwf (Suc d)) vs"
| "bwf d (BENCODE_DICT kvs) \<longleftrightarrow>
     d \<le> BENCODE_MAX_DEPTH \<and> list_all (\<lambda>(k, v). c_string k = k \<and> length k < 2 ^ 63 \<and> bwf (Suc d) v) kvs"

definition decodes :: "nat \<Rightarrow> bytes \<Rightarrow> bencode_value \<Rightarrow> bytes \<Rightarrow> bool" where
  "decodes d s v rest \<longleftrightarrow> (\<exists>n. decode_depth n d s = Some (Some (v, rest)))"

lemma nat_dec_digit [simp]: "is_digit (hd (nat_dec n))"
  using nat_dec_hd [of n "[]"] by simp

lemma encode_string_hd [simp]: "encode_string k \<noteq> []" "is_digit (hd (encode_string k))"
  by (simp_all add: encode_string_def)

lemma encode_string_hd_not [simp]: "hd (encode_string k) \<noteq> 101" "hd (encode_string k) \<noteq> 105"
  using encode_string_hd(2) [of k] by (metis is_digit_not)+

lemma encode_value_hd [simp]: "encode_value v \<noteq> []" "hd (encode_value v) \<noteq> 101"
  by (cases v; simp add: encode_int_def)+

lemma decode_list_complete:
  assumes "\<forall>v \<in> set vs. \<forall>r. decodes (Suc d) (encode_value v @ r) v r"
  shows "\<exists>n. decode_list n d (concat (map encode_value vs) @ 101 # rest) = Some (Some (vs, rest))"
  using assms
proof (induction vs)
  case Nil
  show ?case by (rule exI [of _ "Suc 0"]) simp
next
  case (Cons v vs)
  let ?s = "concat (map encode_value vs) @ 101 # rest"
  obtain n m where n: "decode_depth n (Suc d) (encode_value v @ ?s) = Some (Some (v, ?s))"
    and m: "decode_list m d ?s = Some (Some (vs, rest))"
    using Cons by (fastforce simp: decodes_def)
  note n' = decode_mono(1) [OF max.cobounded1 [of n m] n] and m' = decode_mono(2) [OF max.cobounded2 [of m n] m]
  show ?case using n' m'
    by (intro exI [of _ "Suc (max n m)"]) simp
qed

lemma decode_dict_complete:
  assumes "\<forall>(k, v) \<in> set kvs. c_string k = k \<and> length k < 2 ^ 63 \<and> (\<forall>r. decodes (Suc d) (encode_value v @ r) v r)"
  shows "\<exists>n. decode_dict n d (concat (map (\<lambda>(k, v). encode_string (c_string k) @ encode_value v) kvs) @ 101 # rest)
    = Some (Some (kvs, rest))"
  using assms
proof (induction kvs)
  case Nil
  show ?case by (rule exI [of _ "Suc 0"]) simp
next
  case (Cons kv kvs)
  obtain k v where kv: "kv = (k, v)" by fastforce
  let ?s = "concat (map (\<lambda>(k, v). encode_string (c_string k) @ encode_value v) kvs) @ 101 # rest"
  obtain n m where n: "decode_depth n (Suc d) (encode_value v @ ?s) = Some (Some (v, ?s))"
    and m: "decode_dict m d ?s = Some (Some (kvs, rest))"
    using Cons by (fastforce simp: decodes_def kv)
  note n' = decode_mono(1) [OF max.cobounded1 [of n m] n] and m' = decode_mono(3) [OF max.cobounded2 [of m n] m]
  have k: "c_string k = k" "decode_string (encode_string k @ encode_value v @ ?s) = Some (k, encode_value v @ ?s)"
    using Cons.prems by (simp_all add: kv decode_encode_string)
  show ?case using n' m' k by (intro exI [of _ "Suc (max n m)"]) (simp add: kv)
qed

lemma decodes_encode: "bwf d v \<Longrightarrow> decodes d (encode_value v @ rest) v rest"
proof (induction v arbitrary: d rest)
  case (BENCODE_INT v)
  have "decode_int (encode_int v @ rest) = Some (BENCODE_INT v, rest)" using BENCODE_INT by (simp add: decode_encode_int)
  moreover have "encode_int v @ rest \<noteq> []" "hd (encode_int v @ rest) = 105" by (simp_all add: encode_int_def)
  ultimately show ?case unfolding decodes_def using BENCODE_INT by (intro exI [of _ "Suc 0"]) simp
next
  case (BENCODE_STRING x)
  then show ?case unfolding decodes_def using decode_encode_string [of x rest]
    by (intro exI [of _ "Suc 0"]) simp
next
  case (BENCODE_LIST vs)
  have "\<forall>v \<in> set vs. \<forall>r. decodes (Suc d) (encode_value v @ r) v r" using BENCODE_LIST by (simp add: list_all_iff)
  then obtain n where "decode_list n d (concat (map encode_value vs) @ 101 # rest) = Some (Some (vs, rest))"
    using decode_list_complete by blast
  then show ?case unfolding decodes_def using BENCODE_LIST.prems by (intro exI [of _ "Suc n"]) simp
next
  case (BENCODE_DICT kvs)
  have "\<forall>(k, v) \<in> set kvs. c_string k = k \<and> length k < 2 ^ 63 \<and> (\<forall>r. decodes (Suc d) (encode_value v @ r) v r)"
    using BENCODE_DICT by (fastforce simp: list_all_iff)
  then obtain n where "decode_dict n d (concat (map (\<lambda>(k, v). encode_string (c_string k) @ encode_value v) kvs) @ 101 # rest)
    = Some (Some (kvs, rest))" using decode_dict_complete by blast
  then show ?case unfolding decodes_def using BENCODE_DICT.prems by (intro exI [of _ "Suc n"]) simp
qed

lemma bencode_round_trip: "bwf 0 v \<Longrightarrow> bencode_decode (bencode_encode v @ rest) = Some (v, rest)"
  using decodes_encode [of 0 v rest] bencode_decode_eq by (auto simp: decodes_def bencode_encode_def)

section \<open>Every decoded value is encodable\<close>

lemma int64_range:
  fixes x :: int
  shows "0 \<le> x \<Longrightarrow> v = - x \<and> x \<le> 2 ^ 63 \<or> v = x \<and> x \<le> 2 ^ 63 - 1 \<Longrightarrow> - (2 ^ 63) \<le> v \<and> v < 2 ^ 63"
  by auto

lemma parse_int_bounded_range:
  assumes "parse_int_bounded neg s = Some (v, r)"
  shows "- (2 ^ 63) \<le> v \<and> v < 2 ^ 63"
proof -
  obtain w where w: "v = - uint w \<and> \<not> (w :: u64) > 2 ^ 63 \<or> v = uint w \<and> \<not> w > 2 ^ 63 - 1"
    using that assms unfolding parse_int_bounded_def Let_def by (simp split: if_splits option.splits prod.splits) blast+
  then show ?thesis by (intro int64_range [of "uint w"]) (simp_all add: word_less_def not_less)
qed

lemma decode_string_len: "decode_string s = Some (d, r) \<Longrightarrow> length d < 2 ^ 63"
  by (auto simp: decode_string_def split: if_splits option.splits dest!: parse_int_bounded_range)

lemma c_string_id: "0 \<notin> set b \<Longrightarrow> c_string b = b"
  by (auto simp: c_string_def takeWhile_eq_all_conv)

lemma c_string_idem [simp]: "c_string (c_string s) = c_string s"
  by (simp add: c_string_def)

lemma c_string_length: "length (c_string s) \<le> length s"
  by (simp add: c_string_def length_takeWhile_le)

lemma decode_int_bwf: "decode_int s = Some (v, r) \<Longrightarrow> d \<le> BENCODE_MAX_DEPTH \<Longrightarrow> bwf d v"
  by (auto simp: decode_int_def split: if_splits option.splits dest!: parse_int_bounded_range)

lemma bwf_Cons:
  "bwf (Suc d) v \<Longrightarrow> bwf d (BENCODE_LIST vs) \<Longrightarrow> bwf d (BENCODE_LIST (v # vs))"
  "decode_string s = Some (k, r) \<Longrightarrow> bwf (Suc d) v \<Longrightarrow> bwf d (BENCODE_DICT kvs) \<Longrightarrow>
    bwf d (BENCODE_DICT ((c_string k, v) # kvs))"
  using c_string_length [of k] by (auto dest: decode_string_len)

lemma decode_bwf:
  "decode_depth n d s = Some (Some (v, r)) \<Longrightarrow> bwf d v"
  "d \<le> BENCODE_MAX_DEPTH \<Longrightarrow> decode_list n d s = Some (Some (vs, r)) \<Longrightarrow> bwf d (BENCODE_LIST vs)"
  "d \<le> BENCODE_MAX_DEPTH \<Longrightarrow> decode_dict n d s = Some (Some (kvs, r)) \<Longrightarrow> bwf d (BENCODE_DICT kvs)"
proof (induction n arbitrary: d s v vs kvs r)
  case (Suc n)
  { case 1
    then show ?case unfolding decode_depth.simps(2) [of n d s]
      by (auto simp del: decode_list.simps decode_dict.simps bwf.simps(3,4) split: if_splits
        elim!: and_then_SomeE intro: decode_int_bwf Suc.IH dest: decode_string_len)
  next
    case 2
    have "bwf d (BENCODE_LIST [])" using 2 by simp
    then show ?case using 2 unfolding decode_list.simps(2) [of n d s]
      by (auto simp del: decode_depth.simps decode_list.simps bwf.simps split: if_splits elim!: and_then_SomeE
        intro: bwf_Cons(1) Suc.IH(1,2))
  next
    case 3
    have "bwf d (BENCODE_DICT [])" using 3 by simp
    then show ?case using 3 unfolding decode_dict.simps(2) [of n d s]
      by (auto simp del: decode_depth.simps decode_dict.simps bwf.simps split: if_splits elim!: and_then_SomeE
        intro: bwf_Cons(2) Suc.IH(1,3))
  }
qed simp_all

lemma bencode_decode_bwf: "bencode_decode s = Some (v, r) \<Longrightarrow> bwf 0 v"
  by (auto simp: bencode_decode_def simp del: decode_depth.simps split: option.splits intro: decode_bwf(1))

section \<open>The bytes left over\<close>

definition proper_rest :: "bytes \<Rightarrow> bytes \<Rightarrow> bool" where
  "proper_rest r s \<longleftrightarrow> (\<exists>used. used \<noteq> [] \<and> s = used @ r)"

lemma proper_rest_trans [trans]: "proper_rest r s \<Longrightarrow> proper_rest s t \<Longrightarrow> proper_rest r t"
  unfolding proper_rest_def by (metis append.assoc append_is_Nil_conv)

lemma proper_rest_tl [simp]: "s \<noteq> [] \<Longrightarrow> proper_rest (tl s) s"
  unfolding proper_rest_def by (rule exI [of _ "[hd s]"]) simp

lemma parse_digits_rest: "parse_digits v s = Some (w, r) \<Longrightarrow> \<exists>ds. s = ds @ r"
proof (induction v s rule: parse_digits.induct)
  case (2 v c cs)
  show ?case
  proof (cases "is_digit c")
    case True
    then have "\<exists>ds. cs = ds @ r" using 2 by (simp add: Let_def split: if_splits)
    then show ?thesis by (metis append_Cons)
  qed (use 2 in simp)
qed simp

lemma parse_int_rest:
  assumes "parse_int_bounded neg s = Some (v, r)" shows "\<exists>ds. s = ds @ r"
proof -
  obtain s1 w where "s1 = s \<or> s \<noteq> [] \<and> s1 = tl s" and "parse_digits 0 s1 = Some (w, r)"
    using that assms unfolding parse_int_bounded_def Let_def by (simp split: if_splits option.splits prod.splits) blast+
  then show ?thesis using parse_digits_rest by (metis append_Cons list.collapse)
qed

lemma decode_int_rest: "decode_int s = Some (v, r) \<Longrightarrow> proper_rest r s"
proof -
  assume "decode_int s = Some (v, r)"
  then obtain w p where "s \<noteq> []" "p \<noteq> []" "parse_int_bounded True (tl s) = Some (w, p)" "r = tl p"
    by (auto simp: decode_int_def split: if_splits option.splits)
  then show ?thesis using parse_int_rest [of True "tl s" w p]
    by (cases s; cases p) (auto simp: proper_rest_def)
qed

lemma decode_string_rest: "decode_string s = Some (d, r) \<Longrightarrow> proper_rest r s"
proof -
  assume "decode_string s = Some (d, r)"
  then obtain w p where p: "p \<noteq> []" "parse_int_bounded False s = Some (w, p)" "r = drop (nat w) (tl p)"
    by (auto simp: decode_string_def split: if_splits option.splits)
  then obtain ds where "s = ds @ hd p # take (nat w) (tl p) @ r" using parse_int_rest [of False s w p] by auto
  then show ?thesis by (auto simp: proper_rest_def intro: exI [of _ "ds @ hd p # take (nat w) (tl p)"])
qed

lemma decode_rest:
  "decode_depth n d s = Some (Some (v, r)) \<Longrightarrow> proper_rest r s"
  "decode_list n d s = Some (Some (vs, r)) \<Longrightarrow> proper_rest r s"
  "decode_dict n d s = Some (Some (kvs, r)) \<Longrightarrow> proper_rest r s"
proof (induction n arbitrary: d s v vs kvs r)
  case (Suc n)
  { case 1
    then show ?case unfolding decode_depth.simps(2) [of n d s]
      by (auto simp del: decode_list.simps decode_dict.simps split: if_splits elim!: and_then_SomeE
        intro: decode_int_rest decode_string_rest dest!: Suc.IH(2,3) intro: proper_rest_trans [OF _ proper_rest_tl])
  next
    case 2
    then show ?case unfolding decode_list.simps(2) [of n d s]
      by (auto simp del: decode_depth.simps decode_list.simps split: if_splits elim!: and_then_SomeE
        dest!: Suc.IH(1,2) intro: proper_rest_trans)
  next
    case 3
    then show ?case unfolding decode_dict.simps(2) [of n d s]
      by (auto simp del: decode_depth.simps decode_dict.simps split: if_splits elim!: and_then_SomeE
        dest!: Suc.IH(1,3) decode_string_rest intro: proper_rest_trans)
  }
qed simp_all

lemma bencode_decode_suffix: "bencode_decode s = Some (v, r) \<Longrightarrow> \<exists>used. used \<noteq> [] \<and> s = used @ r"
  using decode_rest(1) by (fastforce simp: bencode_decode_def proper_rest_def simp del: decode_depth.simps split: option.splits)

section \<open>Properties\<close>

text \<open>
  C8: encoding then decoding gives the value back and leaves exactly the bytes that
  followed it, for every value of 64-bit integers, strings, lists and dictionaries with
  NUL-free keys that is nested no deeper than the decoder's limit.
\<close>
theorem bencode_encode_decode:
  assumes "bwf 0 v"
  shows "bencode_decode (bencode_encode v @ rest) = Some (v, rest)"
  using assms by (rule bencode_round_trip)

lemma bencode_encode_decode_witness:
  "bencode_decode (bencode_encode (BENCODE_DICT [([97], BENCODE_INT (- 5)), ([108], BENCODE_LIST [BENCODE_STRING [120, 0], BENCODE_DICT []])]) @ [7])
     = Some (BENCODE_DICT [([97], BENCODE_INT (- 5)), ([108], BENCODE_LIST [BENCODE_STRING [120, 0], BENCODE_DICT []])], [7])"
  by (rule bencode_encode_decode) (simp add: BENCODE_MAX_DEPTH_def c_string_def)

text \<open>
  whatever bytes arrive, a value the decoder returns is within the format's bounds
  (64-bit integers, depth at most 32), the bytes left over are a proper suffix of the
  input, and encoding the value decodes to the same value again.
\<close>
theorem bencode_decode_stable:
  assumes "bencode_decode s = Some (v, rest)"
  shows "bwf 0 v \<and> (\<exists>used. used \<noteq> [] \<and> s = used @ rest) \<and> bencode_decode (bencode_encode v @ t) = Some (v, t)"
  using assms bencode_decode_bwf [OF assms] bencode_decode_suffix [OF assms] bencode_round_trip by blast

lemma bencode_decode_stable_witness:
  "bencode_decode [108, 105, 48, 55, 101, 48, 58, 101, 1] = Some (BENCODE_LIST [BENCODE_INT 7, BENCODE_STRING []], [1]) \<and>
   bencode_decode (bencode_encode (BENCODE_LIST [BENCODE_INT 7, BENCODE_STRING []]) @ [2])
     = Some (BENCODE_LIST [BENCODE_INT 7, BENCODE_STRING []], [2])"
proof -
  have a: "bencode_decode [108, 105, 48, 55, 101, 48, 58, 101, 1] = Some (BENCODE_LIST [BENCODE_INT 7, BENCODE_STRING []], [1])"
    by (rule bencode_decode_eq [of "Suc (Suc (Suc (Suc (Suc 0))))"])
      (simp add: decode_int_def decode_string_def parse_int_bounded_def is_digit_def BENCODE_MAX_DEPTH_def)
  show ?thesis using a bencode_decode_stable [OF a, of "[2]"] by blast
qed

end
