(* ===== verification/Norn_Stream.thy ===== *)
theory Norn_Stream
  imports Norn_Prelude
begin

text \<open>
  The reliable byte stream over datagrams, \<open>src/libnorn/stream.c\<close>: one endpoint as a
  record, one definition per operation. The calls to the send callback are returned as
  the list of datagrams, in the order of the calls; its return value is not used by the
  code. The two byte rings are modelled with their array, head and count; the segment
  arrays are functions of the slot index, and the bytes of a segment beyond its length,
  which are never read, are left out. Loops over sequence numbers wrap at 32 bits as in
  the code, and each has a termination proof.
\<close>

section \<open>Constants and types\<close>

definition STREAM_SEG_PAYLOAD :: nat where "STREAM_SEG_PAYLOAD = 1024"
definition STREAM_HEADER :: nat where "STREAM_HEADER = 11"
definition STREAM_WIN_MAX :: nat where "STREAM_WIN_MAX = 256"
definition STREAM_IW :: u32 where "STREAM_IW = 10"
definition STREAM_SSTHRESH_MIN :: u32 where "STREAM_SSTHRESH_MIN = 2"
definition STREAM_RTO_INIT :: u32 where "STREAM_RTO_INIT = 300"
definition STREAM_RTO_MIN :: u32 where "STREAM_RTO_MIN = 50"
definition STREAM_RTO_MAX :: u32 where "STREAM_RTO_MAX = 60000"
definition STREAM_DUPACK_THRESH :: int where "STREAM_DUPACK_THRESH = 3"
definition STREAM_SACK_BYTES :: nat where "STREAM_SACK_BYTES = 8"
definition PEND_CAP :: nat where "PEND_CAP = STREAM_WIN_MAX * STREAM_SEG_PAYLOAD"
definition DELIV_CAP :: nat where "DELIV_CAP = STREAM_WIN_MAX * STREAM_SEG_PAYLOAD"

definition F_DATA :: byte where "F_DATA = 1"
definition F_ACK :: byte where "F_ACK = 2"
definition F_FIN :: byte where "F_FIN = 4"
definition F_SACK :: byte where "F_SACK = 8"

record seg =
  sg_seq :: u32
  sg_sent_at :: u32
  sg_flags :: byte
  sg_present :: bool
  sg_retx :: bool
  sg_sacked :: bool
  sg_data :: bytes

record ring =
  rg_buf :: "nat \<Rightarrow> byte"
  rg_head :: nat
  rg_count :: nat

record stream =
  sbuf :: "nat \<Rightarrow> seg"
  snd_una :: u32
  snd_nxt :: u32
  rto_deadline :: u32
  fin_queued :: bool
  fin_segmented :: bool
  srtt :: u32
  rttvar :: u32
  rto :: u32
  dupacks :: int
  cwnd :: u32
  ssthresh :: u32
  cwnd_cnt :: u32
  peer_rwnd :: u32
  pend :: ring
  rbuf :: "nat \<Rightarrow> seg"
  rcv_nxt :: u32
  peer_fin :: bool
  deliv :: ring

section \<open>Byte rings\<close>

definition ring_put :: "nat \<Rightarrow> bytes \<Rightarrow> ring \<Rightarrow> ring" where
  "ring_put cap xs g =
     g\<lparr>rg_buf := foldl (\<lambda>b i. b((rg_head g + rg_count g + i) mod cap := xs ! i)) (rg_buf g) [0..<length xs],
       rg_count := rg_count g + length xs\<rparr>"

definition ring_peek :: "nat \<Rightarrow> nat \<Rightarrow> ring \<Rightarrow> bytes" where
  "ring_peek cap n g = map (\<lambda>i. rg_buf g ((rg_head g + i) mod cap)) [0..<n]"

definition ring_drop :: "nat \<Rightarrow> nat \<Rightarrow> ring \<Rightarrow> ring" where
  "ring_drop cap n g = g\<lparr>rg_head := (rg_head g + n) mod cap, rg_count := rg_count g - n\<rparr>"

definition ring_empty :: ring where
  "ring_empty = \<lparr>rg_buf = (\<lambda>_. 0), rg_head = 0, rg_count = 0\<rparr>"

section \<open>Serialisation\<close>

definition put32 :: "u32 \<Rightarrow> bytes" where "put32 v = be32 v"
definition get32 :: "bytes \<Rightarrow> u32" where "get32 p = un_be32 p"
definition put16 :: "u16 \<Rightarrow> bytes" where "put16 v = be16 v"
definition get16 :: "bytes \<Rightarrow> u16" where "get16 p = un_be16 p"
definition put64 :: "u64 \<Rightarrow> bytes" where
  "put64 v = put32 (ucast (drop_bit 32 v)) @ put32 (ucast (v AND 0xffffffff))"
definition get64 :: "bytes \<Rightarrow> u64" where
  "get64 p = push_bit 32 (ucast (get32 p)) OR ucast (get32 (drop 4 p))"

definition slot :: "u32 \<Rightarrow> nat" where
  "slot q = unat q mod STREAM_WIN_MAX"

definition seg_zero :: seg where
  "seg_zero = \<lparr>sg_seq = 0, sg_sent_at = 0, sg_flags = 0, sg_present = False, sg_retx = False,
     sg_sacked = False, sg_data = []\<rparr>"

definition stream_new :: stream where
  "stream_new = \<lparr>sbuf = (\<lambda>_. seg_zero), snd_una = 0, snd_nxt = 0, rto_deadline = 0,
     fin_queued = False, fin_segmented = False, srtt = 0, rttvar = 0, rto = STREAM_RTO_INIT,
     dupacks = 0, cwnd = STREAM_IW, ssthresh = word_of_nat STREAM_WIN_MAX, cwnd_cnt = 0,
     peer_rwnd = word_of_nat STREAM_WIN_MAX, pend = ring_empty, rbuf = (\<lambda>_. seg_zero),
     rcv_nxt = 0, peer_fin = False, deliv = ring_empty\<rparr>"

definition rtt_update :: "u32 \<Rightarrow> stream \<Rightarrow> stream" where
  "rtt_update r s =
     (let s1 = (if srtt s = 0
                then s\<lparr>srtt := (if r \<noteq> 0 then r else 1), rttvar := (if r \<noteq> 0 then r else 1) div 2\<rparr>
                else let d = (if srtt s > r then srtt s - r else r - srtt s)
                     in s\<lparr>rttvar := (3 * rttvar s + d) div 4, srtt := (7 * srtt s + r) div 8\<rparr>);
          t = srtt s1 + 4 * rttvar s1;
          t1 = (if t < STREAM_RTO_MIN then STREAM_RTO_MIN else t);
          t2 = (if t1 > STREAM_RTO_MAX then STREAM_RTO_MAX else t1)
      in s1\<lparr>rto := t2\<rparr>)"

definition local_rwnd :: "stream \<Rightarrow> u16" where
  "local_rwnd s =
     (let segs = (DELIV_CAP - rg_count (deliv s)) div STREAM_SEG_PAYLOAD
      in word_of_nat (if segs > STREAM_WIN_MAX then STREAM_WIN_MAX else segs))"

definition write_sack :: "stream \<Rightarrow> bytes" where
  "write_sack s =
     (let bm = foldl (\<lambda>bm i. let q = rcv_nxt s + 1 + word_of_nat i; r = rbuf s (slot q)
                in if sg_present r \<and> sg_seq r = q then bm OR push_bit i 1 else bm) 0 [0..<63]
      in if bm = 0 then [] else put64 bm)"

definition emit_seg :: "stream \<Rightarrow> seg \<Rightarrow> bytes" where
  "emit_seg s g =
     [sg_flags g OR F_ACK] @ put32 (sg_seq g) @ put32 (rcv_nxt s) @ put16 (local_rwnd s) @ sg_data g"

definition emit_ack :: "stream \<Rightarrow> bytes" where
  "emit_ack s =
     (let extra = write_sack s
      in [if extra \<noteq> [] then F_ACK OR F_SACK else F_ACK] @ put32 (snd_nxt s) @ put32 (rcv_nxt s) @
         put16 (local_rwnd s) @ extra)"

section \<open>Sending\<close>

definition pump_win :: "stream \<Rightarrow> u32" where
  "pump_win s =
     (let win = (if cwnd s < word_of_nat STREAM_WIN_MAX then cwnd s else word_of_nat STREAM_WIN_MAX);
          win1 = (if peer_rwnd s < win then peer_rwnd s else win)
      in if win1 < 1 then 1 else win1)"

text \<open>The segment the loop of \<open>pump_send\<close> fills next, and the stream without its bytes.\<close>

definition next_seg :: "stream \<Rightarrow> (byte \<times> bytes \<times> stream) option" where
  "next_seg s =
     (if rg_count (pend s) > 0 then
        let take = (if rg_count (pend s) < STREAM_SEG_PAYLOAD then rg_count (pend s) else STREAM_SEG_PAYLOAD)
        in Some (F_DATA, ring_peek PEND_CAP take (pend s), s\<lparr>pend := ring_drop PEND_CAP take (pend s)\<rparr>)
      else if fin_queued s then Some (F_FIN, [], s\<lparr>fin_queued := False, fin_segmented := True\<rparr>)
      else None)"

definition push_seg :: "u32 \<Rightarrow> byte \<Rightarrow> bytes \<Rightarrow> stream \<Rightarrow> stream \<times> bytes" where
  "push_seg now fl dat s =
     (let g = \<lparr>sg_seq = snd_nxt s, sg_sent_at = now, sg_flags = fl, sg_present = True,
               sg_retx = False, sg_sacked = False, sg_data = dat\<rparr>;
          s1 = s\<lparr>sbuf := (sbuf s)(slot (snd_nxt s) := g),
                rto_deadline := (if rto_deadline s = 0 then now + rto s else rto_deadline s),
                snd_nxt := snd_nxt s + 1\<rparr>
      in (s1, emit_seg s1 g))"

lemma next_seg_frame:
  "next_seg s = Some (fl, dat, s') \<Longrightarrow>
     snd_nxt s' = snd_nxt s \<and> snd_una s' = snd_una s \<and> sbuf s' = sbuf s \<and> rcv_nxt s' = rcv_nxt s \<and>
     rbuf s' = rbuf s \<and> deliv s' = deliv s \<and> peer_fin s' = peer_fin s \<and> cwnd s' = cwnd s \<and>
     peer_rwnd s' = peer_rwnd s \<and> rto s' = rto s \<and> ssthresh s' = ssthresh s \<and> cwnd_cnt s' = cwnd_cnt s"
  by (auto simp: next_seg_def Let_def split: if_splits)

lemma push_seg_frame [simp]:
  "snd_nxt (fst (push_seg now fl dat s)) = snd_nxt s + 1"
  "snd_una (fst (push_seg now fl dat s)) = snd_una s"
  "rcv_nxt (fst (push_seg now fl dat s)) = rcv_nxt s"
  "rbuf (fst (push_seg now fl dat s)) = rbuf s"
  "deliv (fst (push_seg now fl dat s)) = deliv s"
  "peer_fin (fst (push_seg now fl dat s)) = peer_fin s"
  "cwnd (fst (push_seg now fl dat s)) = cwnd s"
  "ssthresh (fst (push_seg now fl dat s)) = ssthresh s"
  "cwnd_cnt (fst (push_seg now fl dat s)) = cwnd_cnt s"
  "peer_rwnd (fst (push_seg now fl dat s)) = peer_rwnd s"
  "rto (fst (push_seg now fl dat s)) = rto s"
  "pend (fst (push_seg now fl dat s)) = pend s"
  "fin_queued (fst (push_seg now fl dat s)) = fin_queued s"
  by (simp_all add: push_seg_def Let_def)

function pump_loop :: "u32 \<Rightarrow> u32 \<Rightarrow> stream \<Rightarrow> stream \<times> bytes list" where
  "pump_loop now win s =
     (if snd_nxt s - snd_una s < win then
        (case next_seg s of
           None \<Rightarrow> (s, [])
         | Some (fl, dat, s1) \<Rightarrow>
             let (s2, out) = push_seg now fl dat s1; (s3, outs) = pump_loop now win s2
             in (s3, out # outs))
      else (s, []))"
  by pat_completeness auto

lemma word_diff_Suc: "a - b < w \<Longrightarrow> unat (a + 1 - b) = Suc (unat (a - b))" for a b w :: "'w::len word"
  using unat_Suc_less [of "a - b" w] by (simp add: word_less_nat_alt algebra_simps)

termination pump_loop
proof (relation "measure (\<lambda>(now, win, s). unat win - unat (snd_nxt s - snd_una s))")
  fix now win :: u32 and s s1 s2 :: stream and x y z fl dat out
  assume lt: "snd_nxt s - snd_una s < win" and n: "next_seg s = Some x" and xy: "(fl, y) = x" "(dat, s1) = y"
    and z: "z = push_seg now fl dat s1" "(s2, out) = z"
  have "snd_nxt s2 = snd_nxt s + 1" "snd_una s2 = snd_una s"
    using next_seg_frame [of s fl dat s1] n xy z push_seg_frame(1,2) [of now fl dat s1] by (metis fst_conv)+
  then show "((now, win, s2), (now, win, s)) \<in> measure (\<lambda>(now, win, s). unat win - unat (snd_nxt s - snd_una s))"
    using lt word_diff_Suc [OF lt] by (simp add: word_less_nat_alt)
qed simp

definition pump_send :: "u32 \<Rightarrow> stream \<Rightarrow> stream \<times> bytes list" where
  "pump_send now s = pump_loop now (pump_win s) s"

text \<open>\<open>(int32_t)(a - b) < 0\<close>, \<open>> 0\<close> and so on, on serial numbers\<close>

definition sdiff :: "u32 \<Rightarrow> u32 \<Rightarrow> int" where
  "sdiff a b = sint (a - b)"

function retransmit_loop :: "u32 \<Rightarrow> u32 \<Rightarrow> u32 \<Rightarrow> stream \<Rightarrow> stream \<times> bytes list" where
  "retransmit_loop now limit q s =
     (if q \<noteq> snd_nxt s \<and> sdiff q limit < 0 then
        let g = sbuf s (slot q) in
        if sg_sacked g then retransmit_loop now limit (q + 1) s
        else let (s', outs) = retransmit_loop now limit (q + 1)
                   (s\<lparr>sbuf := (sbuf s)(slot q := g\<lparr>sg_retx := True, sg_sent_at := now\<rparr>)\<rparr>)
             in (s', emit_seg s g # outs)
      else (s, []))"
  by pat_completeness auto

lemma word_diff_pred: "a \<noteq> b \<Longrightarrow> unat (b - (a + 1)) < unat (b - a)" for a b :: "'w::len word"
  using unat_pred_less [of "b - a"] by (simp add: diff_diff_eq unat_gt_0)

termination retransmit_loop
  by (relation "measure (\<lambda>(now, limit, q, s). unat (snd_nxt s - q))") (auto simp: word_diff_pred)

definition retransmit_range :: "u32 \<Rightarrow> u32 \<Rightarrow> stream \<Rightarrow> stream \<times> bytes list" where
  "retransmit_range now limit s = retransmit_loop now limit (snd_una s) s"

function sack_limit :: "stream \<Rightarrow> u32 \<Rightarrow> u32 \<Rightarrow> u32" where
  "sack_limit s q limit =
     (if q \<noteq> snd_nxt s then
        sack_limit s (q + 1)
          (if sg_sacked (sbuf s (slot q)) \<and> sdiff (q + 1) limit > 0 then q + 1 else limit)
      else limit)"
  by pat_completeness auto

termination sack_limit
  by (relation "measure (\<lambda>(s, q, limit). unat (snd_nxt s - q))") (auto simp: word_diff_pred)

definition fast_retransmit :: "u32 \<Rightarrow> stream \<Rightarrow> stream \<times> bytes list" where
  "fast_retransmit now s = retransmit_range now (sack_limit s (snd_una s) (snd_una s + 1)) s"

definition sack_one :: "u32 \<Rightarrow> u64 \<Rightarrow> stream \<Rightarrow> nat \<Rightarrow> stream" where
  "sack_one ack bm s i =
     (let q = ack + 1 + word_of_nat i; g = sbuf s (slot q)
      in if \<not> bit bm i then s
         else if sdiff q (snd_una s) < 0 \<or> sdiff q (snd_nxt s) \<ge> 0 then s
         else if sg_seq g = q then s\<lparr>sbuf := (sbuf s)(slot q := g\<lparr>sg_sacked := True\<rparr>)\<rparr> else s)"

definition apply_sack :: "u32 \<Rightarrow> u64 \<Rightarrow> stream \<Rightarrow> stream" where
  "apply_sack ack bm s = foldl (sack_one ack bm) s [0..<63]"

section \<open>Congestion control\<close>

function grow_loop :: "u32 \<Rightarrow> u32 \<Rightarrow> u32 \<times> u32" where
  "grow_loop w c = (if c \<ge> w then grow_loop (w + 1) (c - w) else (w, c))"
  by pat_completeness auto

lemma word_diff_less: "w \<le> c \<Longrightarrow> w \<noteq> 0 \<Longrightarrow> unat (c - w) < unat c" for c w :: "'w::len word"
  by (simp add: unat_sub word_le_nat_alt unat_gt_0) (meson diff_less order_less_le_trans unat_gt_0)

termination grow_loop
proof (relation "measure (\<lambda>(w, c). 2 * unat c + (if w = 0 then 1 else 0))")
  fix w c :: u32
  assume "w \<le> c"
  then show "((w + 1, c - w), (w, c)) \<in> measure (\<lambda>(w, c). 2 * unat c + (if w = 0 then 1 else 0))"
    using word_diff_less [of w c] by auto
qed simp

definition cc_on_ack :: "u32 \<Rightarrow> stream \<Rightarrow> stream" where
  "cc_on_ack acked s =
     (if acked = 0 then s
      else let s1 = (if cwnd s < ssthresh s then s\<lparr>cwnd := cwnd s + acked\<rparr>
                     else let (w, c) = grow_loop (cwnd s) (cwnd_cnt s + acked)
                          in s\<lparr>cwnd := w, cwnd_cnt := c\<rparr>)
           in if cwnd s1 > word_of_nat STREAM_WIN_MAX then s1\<lparr>cwnd := word_of_nat STREAM_WIN_MAX\<rparr> else s1)"

definition cc_on_loss :: "bool \<Rightarrow> stream \<Rightarrow> stream" where
  "cc_on_loss is_rto s =
     (let half = cwnd s div 2;
          th = (if half > STREAM_SSTHRESH_MIN then half else STREAM_SSTHRESH_MIN)
      in s\<lparr>ssthresh := th, cwnd := (if is_rto then STREAM_IW else th), cwnd_cnt := 0\<rparr>)"

definition ack_new :: "u32 \<Rightarrow> u32 \<Rightarrow> stream \<Rightarrow> stream" where
  "ack_new ack now s =
     (let t = sbuf s (slot (ack - 1));
          s1 = (if sg_seq t = ack - 1 \<and> \<not> sg_retx t then rtt_update (now - sg_sent_at t) s else s);
          s2 = cc_on_ack (ack - snd_una s1) s1
      in s2\<lparr>snd_una := ack, dupacks := 0,
           rto_deadline := (if ack = snd_nxt s2 then 0 else now + rto s2)\<rparr>)"

definition on_ack :: "u32 \<Rightarrow> u32 \<Rightarrow> stream \<Rightarrow> stream \<times> bytes list" where
  "on_ack ack now s =
     (if sdiff ack (snd_una s) > 0 \<and> sdiff ack (snd_nxt s) \<le> 0 then (ack_new ack now s, [])
      else if ack = snd_una s \<and> snd_una s \<noteq> snd_nxt s then
        if peer_rwnd s = 0 then (s\<lparr>dupacks := 0\<rparr>, [])
        else let s1 = s\<lparr>dupacks := dupacks s + 1\<rparr>
             in if dupacks s1 = STREAM_DUPACK_THRESH then
                  let (s2, outs) = fast_retransmit now (cc_on_loss False s1)
                  in (s2\<lparr>rto_deadline := now + rto s2\<rparr>, outs)
                else (s1, [])
      else (s, []))"

section \<open>Entry points\<close>

definition stream_write :: "bytes \<Rightarrow> u32 \<Rightarrow> stream \<Rightarrow> int \<times> stream \<times> bytes list" where
  "stream_write dat now s =
     (let space = PEND_CAP - rg_count (pend s);
          n = (if length dat < space then length dat else space)
      in (int n, pump_send now (s\<lparr>pend := ring_put PEND_CAP (take n dat) (pend s)\<rparr>)))"

definition buffer_seg :: "byte \<Rightarrow> u32 \<Rightarrow> bytes \<Rightarrow> stream \<Rightarrow> stream" where
  "buffer_seg fl sq payload s =
     (if sdiff sq (rcv_nxt s) \<ge> 0 \<and> sdiff sq (rcv_nxt s) < int STREAM_WIN_MAX then
        let r = rbuf s (slot sq) in
        if \<not> sg_present r then
          s\<lparr>rbuf := (rbuf s)(slot sq := r\<lparr>sg_present := True, sg_seq := sq, sg_flags := fl,
              sg_data := take STREAM_SEG_PAYLOAD payload\<rparr>)\<rparr>
        else s
      else s)"

definition deliver_one :: "seg \<Rightarrow> stream \<Rightarrow> stream" where
  "deliver_one r s =
     s\<lparr>deliv := ring_put DELIV_CAP (sg_data r) (deliv s),
       peer_fin := (peer_fin s \<or> sg_flags r AND F_FIN \<noteq> 0),
       rbuf := (rbuf s)(slot (rcv_nxt s) := r\<lparr>sg_present := False\<rparr>),
       rcv_nxt := rcv_nxt s + 1\<rparr>"

function deliver_loop :: "stream \<Rightarrow> stream" where
  "deliver_loop s =
     (let r = rbuf s (slot (rcv_nxt s)) in
      if \<not> sg_present r \<or> sg_seq r \<noteq> rcv_nxt s \<or> length (sg_data r) > DELIV_CAP - rg_count (deliv s) then s
      else let s' = deliver_one r s in if peer_fin s' then s' else deliver_loop s')"
  by pat_completeness auto

definition present_slots :: "stream \<Rightarrow> nat set" where
  "present_slots s = {i. i < STREAM_WIN_MAX \<and> sg_present (rbuf s i)}"

lemma slot_less [simp]: "slot q < STREAM_WIN_MAX"
  by (simp add: slot_def STREAM_WIN_MAX_def)

lemma present_slots_deliver:
  "sg_present (rbuf s (slot (rcv_nxt s))) \<Longrightarrow>
     card (present_slots (deliver_one r s)) < card (present_slots s)"
proof -
  assume a: "sg_present (rbuf s (slot (rcv_nxt s)))"
  have "present_slots (deliver_one r s) = present_slots s - {slot (rcv_nxt s)}"
    by (auto simp: present_slots_def deliver_one_def)
  moreover have "slot (rcv_nxt s) \<in> present_slots s" using a by (simp add: present_slots_def)
  moreover have "finite (present_slots s)" by (simp add: present_slots_def)
  ultimately show ?thesis by (metis card_Diff1_less)
qed

termination deliver_loop
  by (relation "measure (\<lambda>s. card (present_slots s))") (auto simp: present_slots_deliver)

definition input_window :: "bytes \<Rightarrow> stream \<Rightarrow> stream" where
  "input_window sg s =
     (let s0 = s\<lparr>peer_rwnd := ucast (get16 (drop 9 sg))\<rparr>
      in if sg ! 0 AND F_SACK \<noteq> 0 \<and> length sg \<ge> STREAM_HEADER + STREAM_SACK_BYTES
         then apply_sack (get32 (drop 5 sg)) (get64 (drop STREAM_HEADER sg)) s0 else s0)"

definition stream_input :: "bytes \<Rightarrow> u32 \<Rightarrow> stream \<Rightarrow> stream \<times> bytes list" where
  "stream_input sg now s =
     (if length sg < STREAM_HEADER then (s, [])
      else
        let flags = sg ! 0; sq = get32 (drop 1 sg); ack = get32 (drop 5 sg);
            payload = drop STREAM_HEADER sg;
            (s2, outs) = on_ack ack now (input_window sg s)
        in if flags AND (F_DATA OR F_FIN) = 0 then (s2, outs)
           else let s3 = deliver_loop (buffer_seg flags sq payload s2) in (s3, outs @ [emit_ack s3]))"

definition stream_read :: "nat \<Rightarrow> stream \<Rightarrow> bytes \<times> stream" where
  "stream_read cap s =
     (let n = (if rg_count (deliv s) < cap then rg_count (deliv s) else cap)
      in (ring_peek DELIV_CAP n (deliv s), s\<lparr>deliv := ring_drop DELIV_CAP n (deliv s)\<rparr>))"

definition stream_tick :: "u32 \<Rightarrow> stream \<Rightarrow> stream \<times> bytes list" where
  "stream_tick now s =
     (let (s1, outs) = pump_send now s in
      if rto_deadline s1 \<noteq> 0 \<and> now \<ge> rto_deadline s1 \<and> snd_una s1 \<noteq> snd_nxt s1 then
        let s2 = (if peer_rwnd s1 \<noteq> 0
                  then cc_on_loss True (s1\<lparr>rto := (if rto s1 < STREAM_RTO_MAX div 2 then rto s1 * 2 else STREAM_RTO_MAX)\<rparr>)
                  else s1);
            (s3, outs') = retransmit_range now (snd_nxt s2) s2
        in (s3\<lparr>rto_deadline := now + rto s3\<rparr>, outs @ outs')
      else (s1, outs))"

definition stream_finish :: "u32 \<Rightarrow> stream \<Rightarrow> stream \<times> bytes list" where
  "stream_finish now s = pump_send now (s\<lparr>fin_queued := True\<rparr>)"

definition stream_readable :: "stream \<Rightarrow> nat" where "stream_readable s = rg_count (deliv s)"

definition stream_peer_finished :: "stream \<Rightarrow> bool" where
  "stream_peer_finished s \<longleftrightarrow> peer_fin s \<and> rg_count (deliv s) = 0"

definition stream_send_done :: "stream \<Rightarrow> bool" where
  "stream_send_done s \<longleftrightarrow> fin_segmented s \<and> snd_una s = snd_nxt s"

definition stream_inflight :: "stream \<Rightarrow> u32" where
  "stream_inflight s = snd_nxt s - snd_una s"

declare pump_loop.simps [simp del] retransmit_loop.simps [simp del] sack_limit.simps [simp del]
  grow_loop.simps [simp del] deliver_loop.simps [simp del]

end
