(* ===== verification/Norn_Stream_Ring.thy ===== *)
theory Norn_Stream_Ring
  imports Norn_Stream
begin

text \<open>
  The byte rings of the stream as bounded queues. \<open>byte_fifo\<close> is what the stream relies
  on: appending within the capacity and removing from the front act on an abstract list
  of bytes. The ring of \<open>stream.c\<close>, with its indices modulo the capacity, provides it.
\<close>

section \<open>The contract\<close>

locale byte_fifo =
  fixes cap :: nat
    and ok :: "'q \<Rightarrow> bool"
    and contents :: "'q \<Rightarrow> bytes"
    and used :: "'q \<Rightarrow> nat"
    and put :: "bytes \<Rightarrow> 'q \<Rightarrow> 'q"
    and peek :: "nat \<Rightarrow> 'q \<Rightarrow> bytes"
    and drp :: "nat \<Rightarrow> 'q \<Rightarrow> 'q"
  assumes used_contents: "ok q \<Longrightarrow> used q = length (contents q)"
    and used_cap: "ok q \<Longrightarrow> used q \<le> cap"
    and put_ok: "ok q \<Longrightarrow> used q + length xs \<le> cap \<Longrightarrow> ok (put xs q)"
    and put_contents: "ok q \<Longrightarrow> used q + length xs \<le> cap \<Longrightarrow> contents (put xs q) = contents q @ xs"
    and peek_contents: "ok q \<Longrightarrow> n \<le> used q \<Longrightarrow> peek n q = take n (contents q)"
    and drp_ok: "ok q \<Longrightarrow> n \<le> used q \<Longrightarrow> ok (drp n q)"
    and drp_contents: "ok q \<Longrightarrow> n \<le> used q \<Longrightarrow> contents (drp n q) = drop n (contents q)"
begin

lemma contents_le: "ok q \<Longrightarrow> length (contents q) \<le> cap"
  using used_contents used_cap by metis

lemma peek_drp: "ok q \<Longrightarrow> n \<le> used q \<Longrightarrow> peek n q @ contents (drp n q) = contents q"
  by (simp add: peek_contents drp_contents)

lemma length_peek: "ok q \<Longrightarrow> n \<le> used q \<Longrightarrow> length (peek n q) = n"
  using used_contents [of q] by (simp add: peek_contents)

end

section \<open>The ring\<close>

definition ring_ok :: "nat \<Rightarrow> ring \<Rightarrow> bool" where
  "ring_ok cap g \<longleftrightarrow> rg_head g < cap \<and> rg_count g \<le> cap"

definition ring_list :: "nat \<Rightarrow> ring \<Rightarrow> bytes" where
  "ring_list cap g = ring_peek cap (rg_count g) g"

lemma length_ring_peek [simp]: "length (ring_peek cap n g) = n"
  by (simp add: ring_peek_def)

lemma nth_ring_peek [simp]: "i < n \<Longrightarrow> ring_peek cap n g ! i = rg_buf g ((rg_head g + i) mod cap)"
  by (simp add: ring_peek_def)

lemma length_ring_list [simp]: "length (ring_list cap g) = rg_count g"
  by (simp add: ring_list_def)

lemma mod_shift_le:
  fixes a i j c :: nat
  assumes "(a + i) mod c = (a + j) mod c" "i \<le> j" "j < c"
  shows "i = j"
proof -
  have "a + i \<le> a + j" using assms(2) by simp
  then have "c dvd (a + j) - (a + i)" by (rule iffD1 [OF mod_eq_dvd_iff_nat assms(1) [symmetric]])
  then have "c dvd j - i" by simp
  then show ?thesis using assms(2,3) dvd_imp_le [of c "j - i"] by linarith
qed

lemma mod_shift_inj:
  fixes a i j c :: nat
  shows "(a + i) mod c = (a + j) mod c \<Longrightarrow> i < c \<Longrightarrow> j < c \<Longrightarrow> i = j"
  using mod_shift_le [of a i c j] mod_shift_le [of a j c i] by (cases "i \<le> j") auto

lemma foldl_ring:
  assumes "b + n \<le> c" and "j < c"
  shows "foldl (\<lambda>f i. f((a + b + i) mod c := xs ! i)) f [0..<n] ((a + j) mod c) =
    (if b \<le> j \<and> j < b + n then xs ! (j - b) else f ((a + j) mod c))"
proof -
  define W where "W m = foldl (\<lambda>f i. f((a + b + i) mod c := xs ! i)) f [0..<m]" for m
  have W: "W 0 = f" "W (Suc m) = (W m)((a + b + m) mod c := xs ! m)" for m by (simp_all add: W_def)
  have "b + n \<le> c \<Longrightarrow> W n ((a + j) mod c) = (if b \<le> j \<and> j < b + n then xs ! (j - b) else f ((a + j) mod c))"
  proof (induction n)
    case (Suc n)
    have bn: "b + n < c" and ih: "W n ((a + j) mod c) = (if b \<le> j \<and> j < b + n then xs ! (j - b) else f ((a + j) mod c))"
      using Suc by simp_all
    have iff: "(a + j) mod c = (a + b + n) mod c \<longleftrightarrow> j = b + n"
      using mod_shift_inj [of a j c "b + n", OF _ assms(2) bn] unfolding add.assoc by blast
    have "W (Suc n) ((a + j) mod c) = (if j = b + n then xs ! n else W n ((a + j) mod c))"
      unfolding W(2) fun_upd_apply iff by (rule refl)
    then show ?case unfolding ih by simp
  qed (auto simp: W(1))
  then show ?thesis using assms(1) by (simp add: W_def)
qed

lemma ring_put_peek:
  assumes "ring_ok cap g" "rg_count g + length xs \<le> cap"
  shows "ring_list cap (ring_put cap xs g) = ring_list cap g @ xs"
proof (rule nth_equalityI)
  show "length (ring_list cap (ring_put cap xs g)) = length (ring_list cap g @ xs)"
    by (simp add: ring_put_def)
  fix i assume "i < length (ring_list cap (ring_put cap xs g))"
  then have i: "i < rg_count g + length xs" by (simp add: ring_put_def)
  have "ring_list cap (ring_put cap xs g) ! i =
      foldl (\<lambda>b i. b((rg_head g + rg_count g + i) mod cap := xs ! i)) (rg_buf g) [0..<length xs] ((rg_head g + i) mod cap)"
    using i by (simp add: ring_list_def ring_put_def)
  also have "\<dots> = (ring_list cap g @ xs) ! i"
    using foldl_ring [of "rg_count g" "length xs" cap i "rg_head g" xs "rg_buf g"] assms i
    by (auto simp: nth_append ring_list_def)
  finally show "ring_list cap (ring_put cap xs g) ! i = (ring_list cap g @ xs) ! i" .
qed

lemma ring_peek_take: "n \<le> rg_count g \<Longrightarrow> ring_peek cap n g = take n (ring_list cap g)"
  by (rule nth_equalityI) (simp_all add: ring_list_def)

lemma ring_drop_list:
  assumes "n \<le> rg_count g"
  shows "ring_list cap (ring_drop cap n g) = drop n (ring_list cap g)"
proof (rule nth_equalityI)
  show "length (ring_list cap (ring_drop cap n g)) = length (drop n (ring_list cap g))"
    by (simp add: ring_drop_def)
  fix i assume "i < length (ring_list cap (ring_drop cap n g))"
  then have "i < rg_count g - n" by (simp add: ring_drop_def)
  then show "ring_list cap (ring_drop cap n g) ! i = drop n (ring_list cap g) ! i"
    using assms by (simp add: ring_list_def ring_drop_def mod_add_left_eq add.assoc)
qed

interpretation rfifo: byte_fifo cap "ring_ok cap" "ring_list cap" rg_count "ring_put cap" "ring_peek cap" "ring_drop cap"
  for cap
proof
  fix g xs n
  assume ok: "ring_ok cap g"
  show "rg_count g = length (ring_list cap g)" by simp
  show "rg_count g \<le> cap" using ok by (simp add: ring_ok_def)
  show "rg_count g + length xs \<le> cap \<Longrightarrow> ring_ok cap (ring_put cap xs g)" using ok by (simp add: ring_ok_def ring_put_def)
  show "rg_count g + length xs \<le> cap \<Longrightarrow> ring_list cap (ring_put cap xs g) = ring_list cap g @ xs"
    using ok by (rule ring_put_peek)
  show "n \<le> rg_count g \<Longrightarrow> ring_peek cap n g = take n (ring_list cap g)" by (rule ring_peek_take)
  show "n \<le> rg_count g \<Longrightarrow> ring_ok cap (ring_drop cap n g)" using ok by (auto simp: ring_ok_def ring_drop_def)
  show "n \<le> rg_count g \<Longrightarrow> ring_list cap (ring_drop cap n g) = drop n (ring_list cap g)" by (rule ring_drop_list)
qed

lemma ring_empty_ok [simp]: "0 < cap \<Longrightarrow> ring_ok cap ring_empty"
  by (simp add: ring_ok_def ring_empty_def)

lemma ring_list_empty [simp]: "ring_list cap ring_empty = []"
  by (simp add: ring_list_def ring_peek_def ring_empty_def)

lemma caps_pos [simp]: "0 < PEND_CAP" "0 < DELIV_CAP"
  by (simp_all add: PEND_CAP_def DELIV_CAP_def STREAM_WIN_MAX_def STREAM_SEG_PAYLOAD_def)

end
