(* ===== verification/Norn_Stream_Flow.thy ===== *)
theory Norn_Stream_Flow
  imports Norn_Stream_Ring "HOL-Library.Sublist"
begin

text \<open>
  One direction of a stream: a sender, a receiver and the datagrams that have ever been
  sent between them. The segments the sender has made are kept as a list with unbounded
  indices, so that the 32-bit sequence numbers, the two slot arrays and the rings of both
  endpoints can be related to it. Every operation of either endpoint preserves
  \<open>snd_inv\<close> and \<open>rcv_inv\<close>.
\<close>

section \<open>Sequence numbers\<close>

lemma slot_of_nat [simp]: "slot (word_of_nat k) = k mod 256"
proof -
  have "(k mod 2 ^ 32) mod 256 = k mod 256" by (rule mod_mod_cancel) simp
  then show ?thesis by (simp add: slot_def STREAM_WIN_MAX_def unat_of_nat take_bit_eq_mod)
qed

lemma mod_window:
  fixes a b u :: nat
  assumes "u \<le> a" "u \<le> b" "a < u + 256" "b < u + 256"
  shows "a mod 256 = b mod 256 \<longleftrightarrow> a = b"
proof
  assume "a mod 256 = b mod 256"
  then have "(u + (a - u)) mod 256 = (u + (b - u)) mod 256" using assms by simp
  then have "a - u = b - u" by (rule mod_shift_inj) (use assms in linarith)+
  then show "a = b" using assms by linarith
qed simp

lemma sdiff_of_nat:
  assumes "a < 2 ^ 31" "b < 2 ^ 31"
  shows "sdiff (word_of_nat a) (word_of_nat b) = int a - int b"
proof -
  have "sdiff (word_of_nat a) (word_of_nat b) = sint (word_of_int (int a - int b) :: u32)"
    by (simp add: sdiff_def)
  also have "\<dots> = signed_take_bit 31 (int a - int b)" unfolding sint_sbintrunc' by simp
  also have "\<dots> = int a - int b" using assms by (intro signed_take_bit_int_eq_self) simp_all
  finally show ?thesis .
qed

lemma word_diff_of_nat: "b \<le> a \<Longrightarrow> word_of_nat a - word_of_nat b = (word_of_nat (a - b) :: u32)"
  by (simp add: of_nat_diff)

lemma of_nat_u32_eq: "a < 2 ^ 32 \<Longrightarrow> b < 2 ^ 32 \<Longrightarrow> word_of_nat a = (word_of_nat b :: u32) \<longleftrightarrow> a = b"
  by (simp add: word_of_nat_eq_iff take_bit_nat_eq_self)

lemma of_nat_diff_eq:
  assumes "b \<le> a" "a - b < 2 ^ 32"
  shows "word_of_nat a = (word_of_nat b :: u32) \<longleftrightarrow> a = b"
proof -
  have "word_of_nat a = (word_of_nat b :: u32) \<longleftrightarrow> (word_of_nat (a - b) :: u32) = word_of_nat 0"
    using word_diff_of_nat [OF assms(1)] by auto
  also have "\<dots> \<longleftrightarrow> a = b" using assms of_nat_u32_eq [of "a - b" 0] by simp
  finally show ?thesis .
qed

section \<open>Datagrams\<close>

definition dg_ack :: "bytes \<Rightarrow> u32" where "dg_ack x = get32 (drop 5 x)"
definition dg_seq :: "bytes \<Rightarrow> u32" where "dg_seq x = get32 (drop 1 x)"

lemma get32_put32 [simp]: "get32 (put32 v @ xs) = v" "length (put32 v) = 4" "length (put16 w) = 2"
  by (simp_all add: get32_def put32_def put16_def)

lemma header_fields [simp]:
  "dg_seq (f # put32 a @ put32 b @ put16 c @ d) = a"
  "dg_ack (f # put32 a @ put32 b @ put16 c @ d) = b"
  "drop STREAM_HEADER (f # put32 a @ put32 b @ put16 c @ d) = d"
  by (simp_all add: dg_seq_def dg_ack_def STREAM_HEADER_def)

lemma emit_seg_fields [simp]:
  "dg_seq (emit_seg s g) = sg_seq g" "dg_ack (emit_seg s g) = rcv_nxt s"
  "drop STREAM_HEADER (emit_seg s g) = sg_data g" "emit_seg s g ! 0 = sg_flags g OR F_ACK"
  "length (emit_seg s g) = STREAM_HEADER + length (sg_data g)"
  by (simp_all add: emit_seg_def) (simp add: STREAM_HEADER_def)

lemma emit_ack_fields [simp]:
  "dg_ack (emit_ack s) = rcv_nxt s" "STREAM_HEADER \<le> length (emit_ack s)"
  "emit_ack s ! 0 = F_ACK \<or> emit_ack s ! 0 = F_ACK OR F_SACK"
  by (simp_all add: emit_ack_def Let_def) (simp add: STREAM_HEADER_def)

section \<open>The invariant of one direction\<close>

type_synonym pkt = "byte \<times> bytes"

definition pkt_ok :: "pkt \<Rightarrow> bool" where
  "pkt_ok p \<longleftrightarrow> fst p = F_DATA \<and> snd p \<noteq> [] \<and> length (snd p) \<le> STREAM_SEG_PAYLOAD \<or> fst p = F_FIN \<and> snd p = []"

definition pdata :: "pkt list \<Rightarrow> bytes" where "pdata ps = concat (map snd ps)"

definition holds_pkt :: "nat \<Rightarrow> pkt \<Rightarrow> seg \<Rightarrow> bool" where
  "holds_pkt k p g \<longleftrightarrow> sg_seq g = word_of_nat k \<and> sg_flags g = fst p \<and> sg_data g = snd p"

text \<open>
  \<open>w0\<close> is what had been written when the stream was first finished, and \<open>nf\<close> how often
  it has been finished.
\<close>

definition snd_inv :: "pkt list \<Rightarrow> nat \<Rightarrow> stream \<Rightarrow> bytes \<Rightarrow> bytes option \<Rightarrow> nat \<Rightarrow> bool" where
  "snd_inv ps u s W w0 nf \<longleftrightarrow>
     snd_nxt s = word_of_nat (length ps) \<and> snd_una s = word_of_nat u \<and> u \<le> length ps \<and> length ps \<le> u + 256 \<and>
     (\<forall>k. u \<le> k \<and> k < length ps \<longrightarrow> holds_pkt k (ps ! k) (sbuf s (k mod 256))) \<and>
     ring_ok PEND_CAP (pend s) \<and> pdata ps @ ring_list PEND_CAP (pend s) = W \<and>
     (\<forall>p \<in> set ps. pkt_ok p) \<and>
     length (filter (\<lambda>p. fst p = F_FIN) ps) + (if fin_queued s then 1 else 0) \<le> nf \<and>
     (fin_queued s \<longrightarrow> w0 \<noteq> None) \<and> (\<forall>w. w0 = Some w \<longrightarrow> prefix w W) \<and>
     (fin_segmented s \<longrightarrow> (\<exists>p \<in> set ps. fst p = F_FIN)) \<and>
     (\<forall>k < length ps. fst (ps ! k) = F_FIN \<longrightarrow> (\<exists>w. w0 = Some w \<and> prefix w (pdata (take k ps))))"

definition slot_inv :: "pkt list \<Rightarrow> nat \<Rightarrow> nat \<Rightarrow> seg \<Rightarrow> bool" where
  "slot_inv ps r i g \<longleftrightarrow>
     (\<exists>k. r \<le> k \<and> k < length ps \<and> k < r + 256 \<and> k mod 256 = i \<and>
        holds_pkt k (fst (ps ! k) OR F_ACK, snd (ps ! k)) g)"

definition rcv_inv :: "pkt list \<Rightarrow> nat \<Rightarrow> stream \<Rightarrow> bytes \<Rightarrow> bool" where
  "rcv_inv ps r t D \<longleftrightarrow>
     rcv_nxt t = word_of_nat r \<and> r \<le> length ps \<and> ring_ok DELIV_CAP (deliv t) \<and>
     D @ ring_list DELIV_CAP (deliv t) = pdata (take r ps) \<and>
     (\<forall>i < 256. sg_present (rbuf t i) \<longrightarrow> slot_inv ps r i (rbuf t i)) \<and>
     (peer_fin t \<longrightarrow> (\<exists>p \<in> set (take r ps). fst p = F_FIN))"

definition dat_ok :: "pkt list \<Rightarrow> bytes \<Rightarrow> bool" where
  "dat_ok ps x \<longleftrightarrow>
     x ! 0 AND (F_DATA OR F_FIN) = 0 \<or>
     (\<exists>k < length ps. x ! 0 = fst (ps ! k) OR F_ACK \<and> dg_seq x = word_of_nat k \<and> drop STREAM_HEADER x = snd (ps ! k))"

definition ack_ok :: "nat \<Rightarrow> bytes \<Rightarrow> bool" where
  "ack_ok r x \<longleftrightarrow> (\<exists>k \<le> r. dg_ack x = word_of_nat k)"

lemma pdata_append [simp]: "pdata (ps @ qs) = pdata ps @ pdata qs" "pdata [] = []" "pdata [p] = snd p"
  by (simp_all add: pdata_def)

lemma dat_ok_append: "dat_ok ps x \<Longrightarrow> dat_ok (ps @ qs) x"
  by (auto simp: dat_ok_def nth_append)

lemma ack_ok_mono: "ack_ok r x \<Longrightarrow> r \<le> r' \<Longrightarrow> ack_ok r' x"
  by (auto simp: ack_ok_def intro: order.trans)

lemma slot_inv_append: "slot_inv ps r i g \<Longrightarrow> slot_inv (ps @ qs) r i g"
  unfolding slot_inv_def by (force simp: nth_append)

lemma rcv_inv_append: "rcv_inv ps r t D \<Longrightarrow> rcv_inv (ps @ qs) r t D"
  by (auto simp: rcv_inv_def intro: slot_inv_append)

lemma dat_ok_emit_ack [simp]: "dat_ok ps (emit_ack s)"
  using emit_ack_fields(3) [of s] by (auto simp: dat_ok_def F_ACK_def F_SACK_def F_DATA_def F_FIN_def)

lemma snd_inv_segments:
  assumes "snd_inv ps u s W w0 nf"
  shows "length ps \<le> length W + nf"
proof -
  have "(\<forall>p \<in> set qs. pkt_ok p) \<Longrightarrow> length qs \<le> length (pdata qs) + length (filter (\<lambda>p. fst p = F_FIN) qs)" for qs
  proof (induction qs)
    case (Cons p qs)
    then have "snd p \<noteq> [] \<or> fst p = F_FIN" by (auto simp: pkt_ok_def)
    then show ?case using Cons by (cases "snd p") (auto simp: pdata_def)
  qed simp
  then have "length ps \<le> length (pdata ps) + length (filter (\<lambda>p. fst p = F_FIN) ps)"
    using assms by (simp add: snd_inv_def)
  moreover have "length (pdata ps) \<le> length W" "length (filter (\<lambda>p. fst p = F_FIN) ps) \<le> nf"
    using assms by (auto simp: snd_inv_def split: if_splits)
  ultimately show ?thesis by linarith
qed

section \<open>The sender\<close>

lemma flag_neq [simp]: "F_DATA \<noteq> F_FIN" "F_FIN \<noteq> F_DATA"
  by (simp_all add: F_DATA_def F_FIN_def)

lemma next_seg_cases:
  assumes "next_seg s = Some (fl, dat, s1)" and ok: "ring_ok PEND_CAP (pend s)"
  obtains (data) "fl = F_DATA" "dat \<noteq> []" "length dat \<le> STREAM_SEG_PAYLOAD" "ring_ok PEND_CAP (pend s1)"
      "ring_list PEND_CAP (pend s) = dat @ ring_list PEND_CAP (pend s1)"
      "fin_queued s1 = fin_queued s" "fin_segmented s1 = fin_segmented s"
  | (fin) "fl = F_FIN" "dat = []" "ring_list PEND_CAP (pend s) = []" "fin_queued s" "pend s1 = pend s"
      "\<not> fin_queued s1" "fin_segmented s1"
proof (cases "rg_count (pend s) > 0")
  case True
  define n where "n = (if rg_count (pend s) < STREAM_SEG_PAYLOAD then rg_count (pend s) else STREAM_SEG_PAYLOAD)"
  have n: "n \<le> rg_count (pend s)" "0 < n" "n \<le> STREAM_SEG_PAYLOAD"
    using True by (auto simp: n_def STREAM_SEG_PAYLOAD_def)
  have d: "fl = F_DATA" "dat = ring_peek PEND_CAP n (pend s)" "s1 = s\<lparr>pend := ring_drop PEND_CAP n (pend s)\<rparr>"
    using assms(1) True by (simp_all add: next_seg_def Let_def n_def)
  have l: "length dat = n" by (simp add: d)
  then have "dat \<noteq> []" using n(2) by auto
  then show ?thesis
    by (intro data) (use d n l rfifo.peek_drp [OF ok n(1)] rfifo.drp_ok [OF ok n(1)] in auto)
next
  case False
  then have "ring_list PEND_CAP (pend s) = []" by (simp add: ring_list_def ring_peek_def)
  then show ?thesis using assms(1) False by (intro fin) (auto simp: next_seg_def split: if_splits)
qed

lemma push_seg_sbuf:
  "sbuf (fst (push_seg now fl dat s)) = (sbuf s)(slot (snd_nxt s) := \<lparr>sg_seq = snd_nxt s, sg_sent_at = now,
     sg_flags = fl, sg_present = True, sg_retx = False, sg_sacked = False, sg_data = dat\<rparr>)"
  "fin_segmented (fst (push_seg now fl dat s)) = fin_segmented s"
  by (simp_all add: push_seg_def Let_def)

lemma push_seg_dat: "snd_nxt s = word_of_nat (length ps) \<Longrightarrow> dat_ok (ps @ [(fl, dat)]) (snd (push_seg now fl dat s))"
  by (auto simp: push_seg_def Let_def dat_ok_def intro!: disjI2 exI [of _ "length ps"])

lemma push_seg_inv:
  assumes inv: "snd_inv ps u s W w0 nf" and n: "next_seg s = Some (fl, dat, s1)" and room: "length ps < u + 256"
  shows "snd_inv (ps @ [(fl, dat)]) u (fst (push_seg now fl dat s1)) W w0 nf"
proof -
  have ok: "ring_ok PEND_CAP (pend s)" using inv by (simp add: snd_inv_def)
  note fr = next_seg_frame [OF n]
  have mod: "k mod 256 \<noteq> length ps mod 256" if "u \<le> k" "k < length ps" for k
    using that room mod_window [of u k "length ps"] by simp
  have win: "\<forall>k. u \<le> k \<and> k < length (ps @ [(fl, dat)]) \<longrightarrow>
      holds_pkt k ((ps @ [(fl, dat)]) ! k) (sbuf (fst (push_seg now fl dat s1)) (k mod 256))"
    using inv fr mod by (auto simp: snd_inv_def push_seg_sbuf nth_append less_Suc_eq holds_pkt_def)
  from n ok show ?thesis
  proof (cases rule: next_seg_cases)
    case data
    then show ?thesis unfolding snd_inv_def using inv fr win room
      by (auto simp: snd_inv_def push_seg_sbuf nth_append less_Suc_eq pkt_ok_def)
  next
    case fin
    then show ?thesis unfolding snd_inv_def using inv fr win room
      by (auto simp: snd_inv_def push_seg_sbuf nth_append less_Suc_eq pkt_ok_def)
  qed
qed

definition rcv_same :: "stream \<Rightarrow> stream \<Rightarrow> bool" where
  "rcv_same s s' \<longleftrightarrow> rcv_nxt s' = rcv_nxt s \<and> rbuf s' = rbuf s \<and> deliv s' = deliv s \<and> peer_fin s' = peer_fin s"

lemma rcv_same_refl [simp]: "rcv_same s s"
  by (simp add: rcv_same_def)

lemma rcv_same_trans: "rcv_same s s' \<Longrightarrow> rcv_same s' s'' \<Longrightarrow> rcv_same s s''"
  by (simp add: rcv_same_def)

lemma rcv_inv_same: "rcv_same s s' \<Longrightarrow> rcv_inv ps r s D \<Longrightarrow> rcv_inv ps r s' D"
  by (simp add: rcv_same_def rcv_inv_def)

text \<open>What a step of an endpoint does as a sender: segments are added, and what it sends is either data of the list or a pure acknowledgement.\<close>

definition snd_step :: "pkt list \<Rightarrow> nat \<Rightarrow> bytes \<Rightarrow> bytes option \<Rightarrow> nat \<Rightarrow> u32 \<Rightarrow> stream \<times> bytes list \<Rightarrow> bool" where
  "snd_step ps u W w0 nf ack res \<longleftrightarrow>
     (\<exists>qs. snd_inv (ps @ qs) u (fst res) W w0 nf \<and> (\<forall>x \<in> set (snd res). dat_ok (ps @ qs) x \<and> dg_ack x = ack))"

lemma snd_step_stay: "snd_inv ps u s W w0 nf \<Longrightarrow> snd_step ps u W w0 nf ack (s, [])"
  unfolding snd_step_def by (intro exI [of _ "[]"]) simp

lemma snd_step_comp:
  assumes "snd_step (ps @ qs) u W w0 nf ack (s', outs')" and "\<forall>x \<in> set outs. dat_ok (ps @ qs) x \<and> dg_ack x = ack"
  shows "snd_step ps u W w0 nf ack (s', outs @ outs')"
proof -
  obtain rs where "snd_inv (ps @ qs @ rs) u s' W w0 nf" "\<forall>x \<in> set outs'. dat_ok (ps @ qs @ rs) x \<and> dg_ack x = ack"
    using assms(1) by (auto simp: snd_step_def)
  moreover have "\<forall>x \<in> set outs. dat_ok (ps @ qs @ rs) x" using assms(2) dat_ok_append by fastforce
  ultimately show ?thesis unfolding snd_step_def using assms(2) by (intro exI [of _ "qs @ rs"]) auto
qed

lemma pump_win_le: "unat (pump_win s) \<le> 256" "1 \<le> unat (pump_win s)"
  by (auto simp: pump_win_def Let_def STREAM_WIN_MAX_def word_less_nat_alt)

lemma snd_inv_window:
  assumes "snd_inv ps u s W w0 nf"
  shows "snd_nxt s = word_of_nat (length ps)" "snd_una s = word_of_nat u" "u \<le> length ps" "length ps \<le> u + 256"
  using assms unfolding snd_inv_def by simp_all

lemma snd_inv_inflight:
  assumes "snd_inv ps u s W w0 nf"
  shows "unat (snd_nxt s - snd_una s) = length ps - u"
proof -
  note w = snd_inv_window [OF assms]
  have "length ps - u < 2 ^ 32" using w by simp
  then show ?thesis unfolding w(1,2) word_diff_of_nat [OF w(3)] by (simp add: unat_of_nat take_bit_nat_eq_self)
qed

lemma pump_loop_snd:
  "snd_inv ps u s W w0 nf \<Longrightarrow> unat win \<le> 256 \<Longrightarrow>
     snd_step ps u W w0 nf (rcv_nxt s) (pump_loop now win s) \<and> rcv_same s (fst (pump_loop now win s))"
proof (induction now win s arbitrary: ps rule: pump_loop.induct)
  case (1 now win s)
  show ?case
  proof (cases "snd_nxt s - snd_una s < win \<and> next_seg s \<noteq> None")
    case False
    then have "pump_loop now win s = (s, [])" by (subst pump_loop.simps) (auto split: option.split)
    then show ?thesis using 1(2) by (simp add: snd_step_stay)
  next
    case True
    then obtain fl dat s1 where n: "next_seg s = Some (fl, dat, s1)" by auto
    let ?s2 = "fst (push_seg now fl dat s1)" and ?o = "snd (push_seg now fl dat s1)"
    have room: "length ps < u + 256"
      using snd_inv_inflight [OF 1(2)] True 1(3) unfolding word_less_nat_alt by linarith
    have p: "pump_loop now win s = (fst (pump_loop now win ?s2), ?o # snd (pump_loop now win ?s2))"
      using True n by (subst pump_loop.simps) (simp add: split_beta Let_def)
    have fr: "rcv_nxt ?s2 = rcv_nxt s" "rcv_same s ?s2" using next_seg_frame [OF n] by (simp_all add: rcv_same_def)
    have ih: "snd_step (ps @ [(fl, dat)]) u W w0 nf (rcv_nxt s) (pump_loop now win ?s2)" "rcv_same ?s2 (fst (pump_loop now win ?s2))"
      using 1(1) [OF conjunct1 [OF True] n refl refl refl, of ?s2 ?o "ps @ [(fl, dat)]"] push_seg_inv [OF 1(2) n room] 1(3) fr(1) by simp_all
    have "dat_ok (ps @ [(fl, dat)]) ?o" using 1(2) next_seg_frame [OF n] by (intro push_seg_dat) (simp add: snd_inv_def)
    moreover have "dg_ack ?o = rcv_nxt s" using next_seg_frame [OF n] by (simp add: push_seg_def Let_def)
    ultimately have "snd_step ps u W w0 nf (rcv_nxt s) (fst (pump_loop now win ?s2), [?o] @ snd (pump_loop now win ?s2))"
      using ih(1) by (intro snd_step_comp [where qs = "[(fl, dat)]"]) simp_all
    then show ?thesis using p ih(2) fr(2) by (auto intro: rcv_same_trans)
  qed
qed

lemma pump_send_snd:
  "snd_inv ps u s W w0 nf \<Longrightarrow> snd_step ps u W w0 nf (rcv_nxt s) (pump_send now s) \<and> rcv_same s (fst (pump_send now s))"
  unfolding pump_send_def by (rule pump_loop_snd) (simp_all add: pump_win_le)

text \<open>Operations that only change the marks of segments in flight and the congestion state\<close>

definition snd_same :: "stream \<Rightarrow> stream \<Rightarrow> bool" where
  "snd_same s s' \<longleftrightarrow> snd_nxt s' = snd_nxt s \<and> snd_una s' = snd_una s \<and> pend s' = pend s \<and>
     fin_queued s' = fin_queued s \<and> fin_segmented s' = fin_segmented s \<and>
     (\<forall>i. sg_seq (sbuf s' i) = sg_seq (sbuf s i) \<and> sg_flags (sbuf s' i) = sg_flags (sbuf s i) \<and>
        sg_data (sbuf s' i) = sg_data (sbuf s i))"

lemma snd_same_refl [simp]: "snd_same s s"
  by (simp add: snd_same_def)

lemma snd_same_trans: "snd_same s s' \<Longrightarrow> snd_same s' s'' \<Longrightarrow> snd_same s s''"
  by (simp add: snd_same_def)

lemma snd_inv_same: "snd_same s s' \<Longrightarrow> snd_inv ps u s W w0 nf \<Longrightarrow> snd_inv ps u s' W w0 nf"
  unfolding snd_inv_def snd_same_def holds_pkt_def by simp

lemma retransmit_loop_snd:
  assumes "snd_inv ps u s W w0 nf" and "q = word_of_nat k" "u \<le> k" "k \<le> length ps"
  shows "snd_same s (fst (retransmit_loop now limit q s)) \<and> rcv_same s (fst (retransmit_loop now limit q s)) \<and>
    (\<forall>x \<in> set (snd (retransmit_loop now limit q s)). dat_ok ps x \<and> dg_ack x = rcv_nxt s)"
  using assms
proof (induction now limit q s arbitrary: k rule: retransmit_loop.induct)
  case (1 now limit q s)
  show ?case
  proof (cases "q \<noteq> snd_nxt s \<and> sdiff q limit < 0")
    case False
    then show ?thesis by (subst (1 2 3) retransmit_loop.simps) auto
  next
    case True
    then have k: "k < length ps" using 1(3-6) by (auto simp: snd_inv_def le_less)
    have q1: "q + 1 = word_of_nat (Suc k)" using 1(4) by simp
    let ?g = "sbuf s (slot q)"
    let ?s = "s\<lparr>sbuf := (sbuf s)(slot q := ?g\<lparr>sg_retx := True, sg_sent_at := now\<rparr>)\<rparr>"
    have g: "holds_pkt k (ps ! k) ?g" using 1(3-5) k by (simp add: snd_inv_def)
    have o: "dat_ok ps (emit_seg s ?g)" using g k by (auto simp: dat_ok_def holds_pkt_def)
    have same: "snd_same s ?s" "rcv_same s ?s" by (simp_all add: snd_same_def rcv_same_def)
    show ?thesis
    proof (cases "sg_sacked ?g")
      case s: True
      have "retransmit_loop now limit q s = retransmit_loop now limit (q + 1) s"
        using True s by (subst retransmit_loop.simps) (simp add: Let_def)
      then show ?thesis using 1(1) [OF True refl s 1(3) q1] 1(5) k by simp
    next
      case s: False
      have e: "retransmit_loop now limit q s = (fst (retransmit_loop now limit (q + 1) ?s), emit_seg s ?g # snd (retransmit_loop now limit (q + 1) ?s))"
        using True s by (subst retransmit_loop.simps) (simp add: Let_def split_beta)
      have ih: "snd_same ?s (fst (retransmit_loop now limit (q + 1) ?s)) \<and> rcv_same ?s (fst (retransmit_loop now limit (q + 1) ?s)) \<and>
        (\<forall>x \<in> set (snd (retransmit_loop now limit (q + 1) ?s)). dat_ok ps x \<and> dg_ack x = rcv_nxt ?s)"
        using 1(2) [OF True refl s snd_inv_same [OF same(1) 1(3)] q1] 1(5) k by simp
      then show ?thesis using e o same by (auto intro: snd_same_trans rcv_same_trans)
    qed
  qed
qed

lemma retransmit_range_snd:
  assumes "snd_inv ps u s W w0 nf"
  shows "snd_same s (fst (retransmit_range now limit s)) \<and> rcv_same s (fst (retransmit_range now limit s)) \<and>
    (\<forall>x \<in> set (snd (retransmit_range now limit s)). dat_ok ps x \<and> dg_ack x = rcv_nxt s)"
  unfolding retransmit_range_def
  by (rule retransmit_loop_snd [OF assms snd_inv_window(2) [OF assms]]) (use snd_inv_window(3) [OF assms] in simp_all)

lemma apply_sack_same: "snd_same s (apply_sack ack bm s) \<and> rcv_same s (apply_sack ack bm s)"
proof -
  have one: "snd_same s (sack_one ack bm s i) \<and> rcv_same s (sack_one ack bm s i)" for s i
    by (simp add: sack_one_def Let_def snd_same_def rcv_same_def)
  have "snd_same s (foldl (sack_one ack bm) s is) \<and> rcv_same s (foldl (sack_one ack bm) s is)" for "is"
    by (induction "is" arbitrary: s) (use one in \<open>auto intro: snd_same_trans rcv_same_trans\<close>)
  then show ?thesis by (simp add: apply_sack_def)
qed

lemma rtt_update_same: "snd_same s (rtt_update r s) \<and> rcv_same s (rtt_update r s)"
  by (simp add: rtt_update_def Let_def snd_same_def rcv_same_def)

lemma cc_on_ack_same: "snd_same s (cc_on_ack n s) \<and> rcv_same s (cc_on_ack n s)"
  by (simp add: cc_on_ack_def Let_def snd_same_def rcv_same_def split_beta)

lemma cc_on_loss_same: "snd_same s (cc_on_loss b s) \<and> rcv_same s (cc_on_loss b s)"
  by (simp add: cc_on_loss_def Let_def snd_same_def rcv_same_def)

lemma snd_inv_una:
  assumes "snd_inv ps u s W w0 nf" "u \<le> v" "v \<le> length ps"
  shows "snd_inv ps v (s\<lparr>snd_una := word_of_nat v\<rparr>) W w0 nf"
  using assms unfolding snd_inv_def by simp

lemma ack_new_same:
  "snd_same (s\<lparr>snd_una := ack\<rparr>) (ack_new ack now s) \<and> rcv_same s (ack_new ack now s)"
proof -
  define s1 where "s1 = (let t = sbuf s (slot (ack - 1)) in
    if sg_seq t = ack - 1 \<and> \<not> sg_retx t then rtt_update (now - sg_sent_at t) s else s)"
  have s1: "snd_same s s1 \<and> rcv_same s s1" by (simp add: s1_def Let_def rtt_update_same)
  have "ack_new ack now s = (cc_on_ack (ack - snd_una s1) s1)\<lparr>snd_una := ack, dupacks := 0,
     rto_deadline := (if ack = snd_nxt (cc_on_ack (ack - snd_una s1) s1) then 0 else now + rto (cc_on_ack (ack - snd_una s1) s1))\<rparr>"
    by (simp add: ack_new_def s1_def Let_def)
  then show ?thesis using s1 cc_on_ack_same [of s1 "ack - snd_una s1"] by (simp add: snd_same_def rcv_same_def)
qed

lemma on_ack_snd:
  assumes inv: "snd_inv ps u s W w0 nf" and a: "ack = word_of_nat v" "v \<le> length ps" and big: "length ps < 2 ^ 31"
  shows "\<exists>u'. (u' = u \<or> u' = v) \<and> u \<le> u' \<and> snd_inv ps u' (fst (on_ack ack now s)) W w0 nf \<and>
    rcv_same s (fst (on_ack ack now s)) \<and>
    (\<forall>x \<in> set (snd (on_ack ack now s)). dat_ok ps x \<and> dg_ack x = rcv_nxt s)"
proof -
  note w = snd_inv_window [OF inv]
  have d: "sdiff ack (snd_una s) = int v - int u" "sdiff ack (snd_nxt s) = int v - int (length ps)"
    using w a big by (simp_all add: sdiff_of_nat)
  consider (new) "u < v" | (dup) "v \<le> u" "ack = snd_una s \<and> snd_una s \<noteq> snd_nxt s" "peer_rwnd s \<noteq> 0" "dupacks s + 1 = STREAM_DUPACK_THRESH"
    | (other) "v \<le> u" "\<not> (ack = snd_una s \<and> snd_una s \<noteq> snd_nxt s \<and> peer_rwnd s \<noteq> 0 \<and> dupacks s + 1 = STREAM_DUPACK_THRESH)"
    by linarith
  then show ?thesis
  proof cases
    case new
    then have "on_ack ack now s = (ack_new ack now s, [])" using d a(2) by (simp add: on_ack_def)
    moreover have "snd_inv ps v (s\<lparr>snd_una := ack\<rparr>) W w0 nf" using snd_inv_una [OF inv] new a by simp
    ultimately show ?thesis using ack_new_same [of ack s now] snd_inv_same new by (intro exI [of _ v]) auto
  next
    case dup
    let ?s1 = "cc_on_loss False (s\<lparr>dupacks := dupacks s + 1\<rparr>)"
    have e: "fst (on_ack ack now s) = (fst (fast_retransmit now ?s1))\<lparr>rto_deadline := now + rto (fst (fast_retransmit now ?s1))\<rparr>"
      "snd (on_ack ack now s) = snd (fast_retransmit now ?s1)"
      using dup d by (simp_all add: on_ack_def Let_def split_beta)
    have c: "snd_same s ?s1 \<and> rcv_same s ?s1"
      using cc_on_loss_same [of "s\<lparr>dupacks := dupacks s + 1\<rparr>" False] by (simp add: snd_same_def rcv_same_def)
    have i1: "snd_inv ps u ?s1 W w0 nf" using c inv snd_inv_same by blast
    note r = retransmit_range_snd [OF i1, of now "sack_limit ?s1 (snd_una ?s1) (snd_una ?s1 + 1)", folded fast_retransmit_def]
    have "snd_same s (fst (on_ack ack now s)) \<and> rcv_same s (fst (on_ack ack now s))"
      using r c unfolding e by (simp add: snd_same_def rcv_same_def)
    moreover have "rcv_nxt ?s1 = rcv_nxt s" using c by (simp add: rcv_same_def)
    ultimately show ?thesis using r e(2) snd_inv_same inv by (intro exI [of _ u]) auto
  next
    case other
    have "\<not> sdiff ack (snd_una s) > 0" using d other by simp
    then have "snd (on_ack ack now s) = []" "snd_same s (fst (on_ack ack now s))" "rcv_same s (fst (on_ack ack now s))"
      using other by (auto simp: on_ack_def Let_def snd_same_def rcv_same_def)
    then show ?thesis using snd_inv_same inv by (intro exI [of _ u]) auto
  qed
qed

section \<open>The receiver\<close>

lemma rcv_inv_fields:
  assumes "rcv_inv ps r t D"
  shows "rcv_nxt t = word_of_nat r" "r \<le> length ps" "ring_ok DELIV_CAP (deliv t)"
    "D @ ring_list DELIV_CAP (deliv t) = pdata (take r ps)"
    "i < 256 \<Longrightarrow> sg_present (rbuf t i) \<Longrightarrow> slot_inv ps r i (rbuf t i)"
    "peer_fin t \<Longrightarrow> \<exists>p \<in> set (take r ps). fst p = F_FIN"
  using assms unfolding rcv_inv_def by simp_all

lemma buffer_seg_snd: "snd_same s (buffer_seg fl sq pl s)"
  by (simp add: buffer_seg_def snd_same_def Let_def)

lemma buffer_seg_inv:
  assumes inv: "rcv_inv ps r t D" and k: "k < length ps" and big: "length ps < 2 ^ 31" and ok: "\<forall>p \<in> set ps. pkt_ok p"
  shows "rcv_inv ps r (buffer_seg (fst (ps ! k) OR F_ACK) (word_of_nat k) (snd (ps ! k)) t) D"
proof (cases "r \<le> k \<and> k < r + 256 \<and> \<not> sg_present (rbuf t (k mod 256))")
  case True
  note f = rcv_inv_fields [OF inv]
  have d: "sdiff (word_of_nat k) (rcv_nxt t) = int k - int r" using f(1,2) k big by (simp add: sdiff_of_nat)
  have "pkt_ok (ps ! k)" using ok k by simp
  then have tk: "take STREAM_SEG_PAYLOAD (snd (ps ! k)) = snd (ps ! k)" by (auto simp: pkt_ok_def)
  let ?g = "rbuf t (k mod 256)\<lparr>sg_present := True, sg_seq := word_of_nat k, sg_flags := fst (ps ! k) OR F_ACK, sg_data := snd (ps ! k)\<rparr>"
  have e: "buffer_seg (fst (ps ! k) OR F_ACK) (word_of_nat k) (snd (ps ! k)) t = t\<lparr>rbuf := (rbuf t)(k mod 256 := ?g)\<rparr>"
    using True d tk by (simp add: buffer_seg_def Let_def STREAM_WIN_MAX_def)
  have "slot_inv ps r (k mod 256) ?g" using True k by (auto simp: slot_inv_def holds_pkt_def)
  then show ?thesis using inv unfolding e rcv_inv_def by simp
next
  case False
  have d: "sdiff (word_of_nat k) (rcv_nxt t) = int k - int r" using rcv_inv_fields(1,2) [OF inv] k big by (simp add: sdiff_of_nat)
  have "buffer_seg (fst (ps ! k) OR F_ACK) (word_of_nat k) (snd (ps ! k)) t = t"
    using False d by (auto simp: buffer_seg_def Let_def STREAM_WIN_MAX_def)
  then show ?thesis using inv by simp
qed

lemma slot_inv_now:
  assumes "slot_inv ps r (r mod 256) g"
  shows "r < length ps" "sg_flags g = fst (ps ! r) OR F_ACK" "sg_data g = snd (ps ! r)"
proof -
  obtain k where k: "r \<le> k" "k < length ps" "k < r + 256" "k mod 256 = r mod 256" "holds_pkt k (fst (ps ! k) OR F_ACK, snd (ps ! k)) g"
    using assms by (auto simp: slot_inv_def)
  then have "k = r" using mod_window [of r k r] by simp
  then show "r < length ps" "sg_flags g = fst (ps ! r) OR F_ACK" "sg_data g = snd (ps ! r)"
    using k by (simp_all add: holds_pkt_def)
qed

lemma slot_inv_Suc: "slot_inv ps r i g \<Longrightarrow> i \<noteq> r mod 256 \<Longrightarrow> slot_inv ps (Suc r) i g"
  unfolding slot_inv_def by (metis Suc_leI add_Suc le_neq_implies_less less_SucI)

lemma fin_flag: "pkt_ok p \<Longrightarrow> (fst p OR F_ACK) AND F_FIN \<noteq> 0 \<Longrightarrow> fst p = F_FIN"
  by (auto simp: pkt_ok_def F_DATA_def F_ACK_def F_FIN_def)

lemma deliver_one_inv:
  assumes inv: "rcv_inv ps r t D" and ok: "\<forall>p \<in> set ps. pkt_ok p"
    and p: "sg_present (rbuf t (slot (rcv_nxt t)))" and room: "length (sg_data (rbuf t (slot (rcv_nxt t)))) \<le> DELIV_CAP - rg_count (deliv t)"
  shows "rcv_inv ps (Suc r) (deliver_one (rbuf t (slot (rcv_nxt t))) t) D"
proof -
  note f = rcv_inv_fields [OF inv]
  let ?g = "rbuf t (r mod 256)"
  have sl: "slot (rcv_nxt t) = r mod 256" by (simp add: f(1))
  note g = slot_inv_now [OF f(5) [of "r mod 256"]]
  have g': "r < length ps" "sg_flags ?g = fst (ps ! r) OR F_ACK" "sg_data ?g = snd (ps ! r)"
    using g p sl by simp_all
  have le: "rg_count (deliv t) + length (sg_data ?g) \<le> DELIV_CAP" using room sl rfifo.used_cap [OF f(3)] by simp
  have dv: "ring_ok DELIV_CAP (ring_put DELIV_CAP (sg_data ?g) (deliv t))"
    "D @ ring_list DELIV_CAP (ring_put DELIV_CAP (sg_data ?g) (deliv t)) = pdata (take (Suc r) ps)"
    using rfifo.put_ok [OF f(3) le] rfifo.put_contents [OF f(3) le] f(4) g'
    by (simp_all add: take_Suc_conv_app_nth flip: append_assoc)
  have fin: "peer_fin t \<or> sg_flags ?g AND F_FIN \<noteq> 0 \<Longrightarrow> \<exists>p \<in> set (take (Suc r) ps). fst p = F_FIN"
    using f(6) g' fin_flag [of "ps ! r"] ok by (auto simp: take_Suc_conv_app_nth)
  have sl': "slot_inv ps (Suc r) i (rbuf t i)" if "i < 256" "sg_present (rbuf t i)" "i \<noteq> r mod 256" for i
    using f(5) that slot_inv_Suc by blast
  show ?thesis unfolding rcv_inv_def deliver_one_def sl
    using f(1) g'(1) dv fin sl' by (auto simp: fun_upd_def)
qed

lemma deliver_loop_inv:
  "rcv_inv ps r t D \<Longrightarrow> \<forall>p \<in> set ps. pkt_ok p \<Longrightarrow> \<exists>r' \<ge> r. rcv_inv ps r' (deliver_loop t) D"
proof (induction t arbitrary: r rule: deliver_loop.induct)
  case (1 t)
  let ?g = "rbuf t (slot (rcv_nxt t))"
  show ?case
  proof (cases "\<not> sg_present ?g \<or> sg_seq ?g \<noteq> rcv_nxt t \<or> length (sg_data ?g) > DELIV_CAP - rg_count (deliv t)")
    case True
    then have "deliver_loop t = t" by (subst deliver_loop.simps) (simp add: Let_def)
    then show ?thesis using 1(2) by auto
  next
    case False
    have i: "rcv_inv ps (Suc r) (deliver_one ?g t) D" using False by (intro deliver_one_inv [OF 1(2,3)]) auto
    show ?thesis
    proof (cases "peer_fin (deliver_one ?g t)")
      case True
      then have "deliver_loop t = deliver_one ?g t" using False by (subst deliver_loop.simps) (simp add: Let_def)
      then show ?thesis using i by (metis le_SucI order_refl)
    next
      case fin: False
      then have "deliver_loop t = deliver_loop (deliver_one ?g t)" using False by (subst deliver_loop.simps) (simp add: Let_def)
      then show ?thesis using 1(1) [OF refl False refl fin i 1(3)] by (metis Suc_leD)
    qed
  qed
qed

lemma deliver_loop_snd: "snd_same s (deliver_loop s)"
proof (induction s rule: deliver_loop.induct)
  case (1 s)
  have "snd_same s (deliver_one g s)" for g by (simp add: snd_same_def deliver_one_def)
  then show ?case using 1 by (subst deliver_loop.simps) (auto simp: Let_def intro: snd_same_trans)
qed

end
