(* ===== verification/Norn_Stream_Props.thy ===== *)
theory Norn_Stream_Props
  imports Norn_Stream_Flow
begin

text \<open>
  Two endpoints of \<open>stream.c\<close> joined by a network that may lose, repeat, delay and
  reorder datagrams but not forge them: an endpoint may be given any datagram the other
  has ever sent, any number of times. Each endpoint keeps, beside the stream, what the
  application wrote and read, so that delivery can be stated.
\<close>

section \<open>Two endpoints and a network\<close>

datatype stream_op =
  SWrite bytes u32
| SRead nat
| STick u32
| SFinish u32
| SInput bytes u32

record endpoint =
  ep_s :: stream
  ep_sent :: "bytes list"
  ep_wrote :: bytes
  ep_read :: bytes
  ep_fins :: nat
  ep_fin_at :: "bytes option"

definition ep_new :: endpoint where
  "ep_new = \<lparr>ep_s = stream_new, ep_sent = [], ep_wrote = [], ep_read = [], ep_fins = 0, ep_fin_at = None\<rparr>"

definition ep_emit :: "stream \<times> bytes list \<Rightarrow> endpoint \<Rightarrow> endpoint" where
  "ep_emit res e = e\<lparr>ep_s := fst res, ep_sent := ep_sent e @ snd res\<rparr>"

fun ep_do :: "stream_op \<Rightarrow> endpoint \<Rightarrow> endpoint" where
  "ep_do (SWrite d now) e =
     (let (n, res) = stream_write d now (ep_s e)
      in ep_emit res (e\<lparr>ep_wrote := ep_wrote e @ take (nat n) d\<rparr>))"
| "ep_do (SRead n) e = (let (d, s) = stream_read n (ep_s e) in e\<lparr>ep_s := s, ep_read := ep_read e @ d\<rparr>)"
| "ep_do (STick now) e = ep_emit (stream_tick now (ep_s e)) e"
| "ep_do (SFinish now) e =
     ep_emit (stream_finish now (ep_s e))
       (e\<lparr>ep_fins := ep_fins e + 1,
          ep_fin_at := (case ep_fin_at e of None \<Rightarrow> Some (ep_wrote e) | Some w \<Rightarrow> Some w)\<rparr>)"
| "ep_do (SInput x now) e = ep_emit (stream_input x now (ep_s e)) e"

fun op_ok :: "stream_op \<Rightarrow> endpoint \<Rightarrow> bool" where
  "op_ok (SInput x now) f \<longleftrightarrow> x \<in> set (ep_sent f)"
| "op_ok _ f \<longleftrightarrow> True"

inductive duplex :: "endpoint \<Rightarrow> endpoint \<Rightarrow> bool" where
  duplex_start: "duplex ep_new ep_new"
| duplex_left: "duplex a b \<Longrightarrow> op_ok x b \<Longrightarrow> duplex (ep_do x a) b"
| duplex_right: "duplex a b \<Longrightarrow> op_ok x a \<Longrightarrow> duplex a (ep_do x b)"

definition ep_small :: "endpoint \<Rightarrow> bool" where
  "ep_small e \<longleftrightarrow> length (ep_wrote e) + ep_fins e < 2 ^ 31"

definition delivered :: "endpoint \<Rightarrow> bytes" where
  "delivered e = ep_read e @ ring_list DELIV_CAP (deliv (ep_s e))"

section \<open>Every operation of an endpoint\<close>

definition node_ok :: "pkt list \<Rightarrow> nat \<Rightarrow> pkt list \<Rightarrow> nat \<Rightarrow> nat \<Rightarrow> stream \<times> bytes list \<Rightarrow> bytes \<Rightarrow> bytes option \<Rightarrow> nat \<Rightarrow> bytes \<Rightarrow> bool" where
  "node_ok ps u qs r v res W w0 nf D \<longleftrightarrow>
     (\<exists>ps' u' r'. snd_inv (ps @ ps') u' (fst res) W w0 nf \<and> rcv_inv qs r' (fst res) D \<and> u \<le> u' \<and> u' \<le> max u v \<and> r \<le> r' \<and>
        (\<forall>x \<in> set (snd res). dat_ok (ps @ ps') x \<and> ack_ok r' x))"

lemma node_ok_cong:
  "node_ok ps u qs r v res W w0 nf D \<Longrightarrow> W' = W \<Longrightarrow> w0' = w0 \<Longrightarrow> nf' = nf \<Longrightarrow> D' = D \<Longrightarrow>
    node_ok ps u qs r v res W' w0' nf' D'"
  by simp

lemma node_ok_step:
  assumes "snd_step ps u W w0 nf (rcv_nxt s) res" "rcv_same s (fst res)" "rcv_inv qs r s D"
  shows "node_ok ps u qs r v res W w0 nf D"
proof -
  obtain ps' where "snd_inv (ps @ ps') u (fst res) W w0 nf" "\<forall>x \<in> set (snd res). dat_ok (ps @ ps') x \<and> dg_ack x = rcv_nxt s"
    using assms(1) by (auto simp: snd_step_def)
  moreover have "rcv_nxt s = word_of_nat r" using rcv_inv_fields(1) [OF assms(3)] .
  ultimately show ?thesis unfolding node_ok_def using rcv_inv_same [OF assms(2,3)]
    by (intro exI [of _ ps'] exI [of _ u] exI [of _ r]) (auto simp: ack_ok_def)
qed

lemma node_write:
  assumes inv: "snd_inv ps u s W w0 nf" and rcv: "rcv_inv qs r s D"
  shows "node_ok ps u qs r v (snd (stream_write d now s)) (W @ take (nat (fst (stream_write d now s))) d) w0 nf D"
proof -
  have ok: "ring_ok PEND_CAP (pend s)" using inv by (simp add: snd_inv_def)
  define n where "n = (if length d < PEND_CAP - rg_count (pend s) then length d else PEND_CAP - rg_count (pend s))"
  have le: "rg_count (pend s) + length (take n d) \<le> PEND_CAP" using rfifo.used_cap [OF ok] by (auto simp: n_def)
  let ?s = "s\<lparr>pend := ring_put PEND_CAP (take n d) (pend s)\<rparr>"
  have e: "snd (stream_write d now s) = pump_send now ?s" "nat (fst (stream_write d now s)) = n"
    by (simp_all add: stream_write_def Let_def n_def)
  have i: "snd_inv ps u ?s (W @ take n d) w0 nf"
    using inv rfifo.put_ok [OF ok le] rfifo.put_contents [OF ok le]
    unfolding snd_inv_def by (auto simp: prefix_def)
  have "rcv_inv qs r ?s D" using rcv by (simp add: rcv_inv_def)
  then show ?thesis using pump_send_snd [OF i, of now] unfolding e by (intro node_ok_step) auto
qed

lemma node_finish:
  assumes inv: "snd_inv ps u s W w0 nf" and rcv: "rcv_inv qs r s D"
  shows "node_ok ps u qs r v (stream_finish now s) W (case w0 of None \<Rightarrow> Some W | Some w \<Rightarrow> Some w) (nf + 1) D"
proof -
  let ?s = "s\<lparr>fin_queued := True\<rparr>"
  have "\<forall>k < length ps. fst (ps ! k) = F_FIN \<longrightarrow> w0 \<noteq> None" using inv unfolding snd_inv_def by blast
  then have i: "snd_inv ps u ?s W (case w0 of None \<Rightarrow> Some W | Some w \<Rightarrow> Some w) (nf + 1)"
    using inv unfolding snd_inv_def by (cases w0) (auto split: if_splits)
  have "rcv_inv qs r ?s D" using rcv by (simp add: rcv_inv_def)
  then show ?thesis using pump_send_snd [OF i, of now] unfolding stream_finish_def by (intro node_ok_step) auto
qed

lemma node_read:
  assumes inv: "snd_inv ps u s W w0 nf" and rcv: "rcv_inv qs r s D"
  shows "node_ok ps u qs r v (snd (stream_read n s), []) W w0 nf (D @ fst (stream_read n s))"
proof -
  have ok: "ring_ok DELIV_CAP (deliv s)" using rcv_inv_fields(3) [OF rcv] .
  define m where "m = (if rg_count (deliv s) < n then rg_count (deliv s) else n)"
  have m: "m \<le> rg_count (deliv s)" by (simp add: m_def)
  have e: "stream_read n s = (ring_peek DELIV_CAP m (deliv s), s\<lparr>deliv := ring_drop DELIV_CAP m (deliv s)\<rparr>)"
    by (simp add: stream_read_def Let_def m_def)
  have "snd_inv ps u (snd (stream_read n s)) W w0 nf" using snd_inv_same [OF _ inv] by (simp add: e snd_same_def)
  moreover have "rcv_inv qs r (snd (stream_read n s)) (D @ fst (stream_read n s))"
    using rcv rfifo.drp_ok [OF ok m] rfifo.peek_drp [OF ok m] unfolding e rcv_inv_def by simp
  ultimately show ?thesis unfolding node_ok_def by (intro exI [of _ "[]"] exI [of _ u] exI [of _ r]) simp
qed

lemma node_tick:
  assumes inv: "snd_inv ps u s W w0 nf" and rcv: "rcv_inv qs r s D"
  shows "node_ok ps u qs r v (stream_tick now s) W w0 nf D"
proof -
  let ?p = "pump_send now s"
  have st: "snd_step ps u W w0 nf (rcv_nxt s) ?p" and same: "rcv_same s (fst ?p)" using pump_send_snd [OF inv, of now] by auto
  show ?thesis
  proof (cases "rto_deadline (fst ?p) \<noteq> 0 \<and> now \<ge> rto_deadline (fst ?p) \<and> snd_una (fst ?p) \<noteq> snd_nxt (fst ?p)")
    case False
    then have "stream_tick now s = ?p" by (auto simp: stream_tick_def Let_def split_beta)
    then show ?thesis using node_ok_step [OF st same rcv] by simp
  next
    case True
    define s1 where "s1 = fst ?p"
    define s2 where "s2 = (if peer_rwnd s1 \<noteq> 0
      then cc_on_loss True (s1\<lparr>rto := (if rto s1 < STREAM_RTO_MAX div 2 then rto s1 * 2 else STREAM_RTO_MAX)\<rparr>) else s1)"
    have s2: "snd_same s1 s2" "rcv_same s1 s2"
      using cc_on_loss_same [of "s1\<lparr>rto := (if rto s1 < STREAM_RTO_MAX div 2 then rto s1 * 2 else STREAM_RTO_MAX)\<rparr>" True]
      by (auto simp: s2_def snd_same_def rcv_same_def)
    let ?r = "retransmit_range now (snd_nxt s2) s2"
    have e: "stream_tick now s = ((fst ?r)\<lparr>rto_deadline := now + rto (fst ?r)\<rparr>, snd ?p @ snd ?r)"
      using True by (simp add: stream_tick_def Let_def split_beta s1_def s2_def)
    obtain ps' where ps': "snd_inv (ps @ ps') u s1 W w0 nf" "\<forall>x \<in> set (snd ?p). dat_ok (ps @ ps') x \<and> dg_ack x = rcv_nxt s"
      using st by (auto simp: snd_step_def s1_def)
    have i2: "snd_inv (ps @ ps') u s2 W w0 nf" using snd_inv_same [OF s2(1) ps'(1)] .
    note rr = retransmit_range_snd [OF i2, of now "snd_nxt s2"]
    have i3: "snd_inv (ps @ ps') u (fst (stream_tick now s)) W w0 nf"
      unfolding e using snd_inv_same [of s2 _ "ps @ ps'"] rr i2 by (simp add: snd_same_def)
    have rc: "rcv_nxt s2 = rcv_nxt s" using same s2(2) by (simp add: rcv_same_def s1_def)
    have "snd_step (ps @ ps') u W w0 nf (rcv_nxt s) (fst (stream_tick now s), snd ?r)"
      unfolding snd_step_def using i3 rr rc by (intro exI [of _ "[]"]) auto
    then have "snd_step ps u W w0 nf (rcv_nxt s) (stream_tick now s)"
      using snd_step_comp [OF _ ps'(2)] by (metis e fst_conv)
    moreover have "rcv_same s (fst (stream_tick now s))"
      using same s2(2) rr unfolding e by (simp add: rcv_same_def s1_def)
    ultimately show ?thesis using rcv by (intro node_ok_step)
  qed
qed

lemma input_window_same: "snd_same s (input_window x s) \<and> rcv_same s (input_window x s)"
proof -
  let ?s = "s\<lparr>peer_rwnd := ucast (get16 (drop 9 x))\<rparr>"
  have "snd_same s ?s" "rcv_same s ?s" by (simp_all add: snd_same_def rcv_same_def)
  then show ?thesis using apply_sack_same [of ?s] by (auto simp: input_window_def Let_def intro: snd_same_trans rcv_same_trans)
qed

lemma stream_input_eq:
  "\<not> length x < STREAM_HEADER \<Longrightarrow> stream_input x now s =
     (let (s2, outs) = on_ack (dg_ack x) now (input_window x s) in
      if x ! 0 AND (F_DATA OR F_FIN) = 0 then (s2, outs)
      else let s3 = deliver_loop (buffer_seg (x ! 0) (dg_seq x) (drop STREAM_HEADER x) s2) in (s3, outs @ [emit_ack s3]))"
  by (simp add: stream_input_def Let_def split_beta dg_ack_def dg_seq_def)

lemma snd_inv_pkts: "snd_inv ps u s W w0 nf \<Longrightarrow> \<forall>p \<in> set ps. pkt_ok p"
  by (simp add: snd_inv_def)

lemma node_input:
  assumes inv: "snd_inv ps u s W w0 nf" and rcv: "rcv_inv qs r s D"
    and small: "length ps < 2 ^ 31" "length qs < 2 ^ 31" and ok: "\<forall>p \<in> set qs. pkt_ok p"
    and x: "dat_ok qs x" "ack_ok v x" "v \<le> length ps"
  shows "node_ok ps u qs r v (stream_input x now s) W w0 nf D"
proof (cases "length x < STREAM_HEADER")
  case True
  then show ?thesis using node_ok_step [OF snd_step_stay [OF inv] _ rcv] by (simp add: stream_input_def)
next
  case False
  define s1 where "s1 = input_window x s"
  have pre: "snd_same s s1" "rcv_same s s1" using input_window_same by (simp_all add: s1_def)
  note eq = stream_input_eq [OF False, of now s, folded s1_def]
  let ?a = "on_ack (dg_ack x) now s1"
  obtain k where k: "k \<le> v" "dg_ack x = word_of_nat k" using x(2) by (auto simp: ack_ok_def)
  have "k \<le> length ps" using k x(3) by simp
  from on_ack_snd [OF snd_inv_same [OF pre(1) inv] k(2) this small(1), of now]
  obtain u' where u': "u' = u \<or> u' = k" "u \<le> u'" "snd_inv ps u' (fst ?a) W w0 nf" "rcv_same s1 (fst ?a)"
    "\<forall>y \<in> set (snd ?a). dat_ok ps y \<and> dg_ack y = rcv_nxt s1" by blast
  have rc: "rcv_inv qs r (fst ?a) D" using rcv_inv_same [OF u'(4) rcv_inv_same [OF pre(2) rcv]] .
  have ack: "rcv_nxt s1 = word_of_nat r" using rcv_inv_fields(1) [OF rcv_inv_same [OF pre(2) rcv]] .
  have um: "u' \<le> max u v" using u'(1) k(1) by auto
  have outs: "\<forall>y \<in> set (snd ?a). dat_ok ps y \<and> ack_ok r y" using u'(5) ack by (auto simp: ack_ok_def)
  show ?thesis
  proof (cases "x ! 0 AND (F_DATA OR F_FIN) = 0")
    case True
    then have "stream_input x now s = ?a" using eq by (simp add: split_beta)
    then show ?thesis unfolding node_ok_def using u'(2,3) rc um outs
      by (intro exI [of _ "[]"] exI [of _ u'] exI [of _ r]) simp
  next
    case dat: False
    then obtain j where j: "j < length qs" "x ! 0 = fst (qs ! j) OR F_ACK" "dg_seq x = word_of_nat j" "drop STREAM_HEADER x = snd (qs ! j)"
      using x(1) by (auto simp: dat_ok_def)
    let ?b = "buffer_seg (x ! 0) (dg_seq x) (drop STREAM_HEADER x) (fst ?a)"
    have "rcv_inv qs r ?b D" unfolding j(2-4) by (rule buffer_seg_inv [OF rc j(1) small(2) ok])
    then obtain r' where r': "r \<le> r'" "rcv_inv qs r' (deliver_loop ?b) D" using deliver_loop_inv ok by blast
    have e: "stream_input x now s = (deliver_loop ?b, snd ?a @ [emit_ack (deliver_loop ?b)])"
      using eq dat by (simp add: split_beta Let_def)
    have "snd_inv ps u' (deliver_loop ?b) W w0 nf"
      using snd_inv_same [OF snd_same_trans [OF buffer_seg_snd deliver_loop_snd] u'(3)] .
    moreover have "ack_ok r' (emit_ack (deliver_loop ?b))" using rcv_inv_fields(1) [OF r'(2)] by (auto simp: ack_ok_def)
    moreover have "\<forall>y \<in> set (snd ?a). ack_ok r' y" using outs r'(1) ack_ok_mono by blast
    ultimately show ?thesis unfolding node_ok_def e using u'(2) um outs r'
      by (intro exI [of _ "[]"] exI [of _ u'] exI [of _ r']) simp
  qed
qed

section \<open>The invariant of both directions\<close>

definition link :: "endpoint \<Rightarrow> endpoint \<Rightarrow> bool" where
  "link a b \<longleftrightarrow>
     (\<exists>ps u qs v i j.
        snd_inv ps u (ep_s a) (ep_wrote a) (ep_fin_at a) (ep_fins a) \<and>
        snd_inv qs v (ep_s b) (ep_wrote b) (ep_fin_at b) (ep_fins b) \<and>
        rcv_inv ps i (ep_s b) (ep_read b) \<and> rcv_inv qs j (ep_s a) (ep_read a) \<and> u \<le> i \<and> v \<le> j \<and>
        (\<forall>x \<in> set (ep_sent a). dat_ok ps x \<and> ack_ok j x) \<and> (\<forall>x \<in> set (ep_sent b). dat_ok qs x \<and> ack_ok i x))"

lemma link_sym: "link a b \<Longrightarrow> link b a"
  unfolding link_def by blast

lemma link_new: "link ep_new ep_new"
proof -
  have "snd_inv [] 0 stream_new [] None 0" "rcv_inv [] 0 stream_new []"
    by (simp_all add: snd_inv_def rcv_inv_def stream_new_def seg_zero_def)
  then show ?thesis unfolding link_def ep_new_def
    by (intro exI [of _ "[]"] exI [of _ 0]) simp
qed

lemma link_result:
  assumes b: "snd_inv qs v (ep_s b) (ep_wrote b) (ep_fin_at b) (ep_fins b)" "rcv_inv ps i (ep_s b) (ep_read b)"
    and "u \<le> i" "v \<le> j"
    and sent: "\<forall>x \<in> set (ep_sent a). dat_ok ps x \<and> ack_ok j x" "\<forall>x \<in> set (ep_sent b). dat_ok qs x \<and> ack_ok i x"
    and n: "node_ok ps u qs j i res (ep_wrote a') (ep_fin_at a') (ep_fins a') (ep_read a')"
    and a': "ep_s a' = fst res" "ep_sent a' = ep_sent a @ snd res"
  shows "link a' b"
proof -
  obtain ps' u' j' where n': "snd_inv (ps @ ps') u' (fst res) (ep_wrote a') (ep_fin_at a') (ep_fins a')"
    "rcv_inv qs j' (fst res) (ep_read a')" "u \<le> u'" "u' \<le> max u i" "j \<le> j'"
    "\<forall>x \<in> set (snd res). dat_ok (ps @ ps') x \<and> ack_ok j' x" using n by (auto simp: node_ok_def)
  have "\<forall>x \<in> set (ep_sent a'). dat_ok (ps @ ps') x \<and> ack_ok j' x"
    using sent(1) n'(5,6) a'(2) dat_ok_append ack_ok_mono by fastforce
  moreover have "u' \<le> i" "v \<le> j'" using assms(3,4) n'(4,5) by simp_all
  ultimately show ?thesis unfolding link_def a'(1) using n'(1,2) b rcv_inv_append sent(2) by blast
qed

lemma link_step:
  assumes "link a b" "ep_small a" "ep_small b" "op_ok x b"
  shows "link (ep_do x a) b"
proof -
  obtain ps u qs v i j where l: "snd_inv ps u (ep_s a) (ep_wrote a) (ep_fin_at a) (ep_fins a)"
    "snd_inv qs v (ep_s b) (ep_wrote b) (ep_fin_at b) (ep_fins b)" "rcv_inv ps i (ep_s b) (ep_read b)"
    "rcv_inv qs j (ep_s a) (ep_read a)" "u \<le> i" "v \<le> j" "\<forall>x \<in> set (ep_sent a). dat_ok ps x \<and> ack_ok j x"
    "\<forall>x \<in> set (ep_sent b). dat_ok qs x \<and> ack_ok i x" using assms(1) unfolding link_def by blast
  have small: "length ps < 2 ^ 31" "length qs < 2 ^ 31"
    using snd_inv_segments [OF l(1)] snd_inv_segments [OF l(2)] assms(2,3) by (simp_all add: ep_small_def)
  note res = link_result [OF l(2,3,5,6,7,8)]
  show ?thesis
  proof (cases x)
    case (SWrite d now)
    show ?thesis by (rule res [OF node_ok_cong [OF node_write [OF l(1,4), of i d now]]])
        (simp_all add: SWrite ep_emit_def split_beta Let_def)
  next
    case (SRead n)
    show ?thesis by (rule res [OF node_ok_cong [OF node_read [OF l(1,4), of i n]]])
        (simp_all add: SRead split_beta Let_def)
  next
    case (STick now)
    show ?thesis by (rule res [OF node_ok_cong [OF node_tick [OF l(1,4), of i now]]])
        (simp_all add: STick ep_emit_def)
  next
    case (SFinish now)
    show ?thesis by (rule res [OF node_ok_cong [OF node_finish [OF l(1,4), of i now]]])
        (simp_all add: SFinish ep_emit_def)
  next
    case (SInput y now)
    have y: "dat_ok qs y" "ack_ok i y" using l(8) assms(4) SInput by auto
    show ?thesis by (rule res [OF node_ok_cong [OF node_input [OF l(1,4) small snd_inv_pkts [OF l(2)] y rcv_inv_fields(2) [OF l(3)], of now]]])
        (simp_all add: SInput ep_emit_def)
  qed
qed

lemma ep_do_mono: "length (ep_wrote e) + ep_fins e \<le> length (ep_wrote (ep_do x e)) + ep_fins (ep_do x e)"
  by (cases x) (simp_all add: ep_emit_def split_beta Let_def)

lemma ep_small_back: "ep_small (ep_do x e) \<Longrightarrow> ep_small e"
  using ep_do_mono [of e x] by (simp add: ep_small_def)

lemma duplex_link: "duplex a b \<Longrightarrow> ep_small a \<Longrightarrow> ep_small b \<Longrightarrow> link a b"
proof (induction rule: duplex.induct)
  case duplex_start
  show ?case by (rule link_new)
next
  case (duplex_left a b x)
  then show ?case using link_step ep_small_back by blast
next
  case (duplex_right a b x)
  then show ?case using link_step ep_small_back link_sym by blast
qed

lemma duplex_sym: "duplex a b \<Longrightarrow> duplex b a"
  by (induction rule: duplex.induct) (auto intro: duplex.intros)

lemma delivered_take: "rcv_inv ps i (ep_s b) (ep_read b) \<Longrightarrow> delivered b = pdata (take i ps)"
  by (simp add: delivered_def rcv_inv_fields(4))

lemma pdata_take_prefix: "i \<le> k \<Longrightarrow> prefix (pdata (take i ps)) (pdata (take k ps))"
proof -
  assume "i \<le> k"
  then have "take k ps = take i ps @ drop i (take k ps)" by (metis append_take_drop_id min.absorb1 take_take)
  then have "pdata (take k ps) = pdata (take i ps) @ pdata (drop i (take k ps))" by (metis pdata_append(1))
  then show ?thesis by simp
qed

lemma fin_delivered:
  assumes inv: "snd_inv ps u s W w0 nf" and p: "p \<in> set (take i ps)" "fst p = F_FIN"
  shows "\<exists>w. w0 = Some w \<and> prefix w (pdata (take i ps))"
proof -
  obtain k where k: "k < i" "k < length ps" "p = ps ! k" using p(1) by (auto simp: in_set_conv_nth)
  then obtain w where "w0 = Some w" "prefix w (pdata (take k ps))" using inv p(2) unfolding snd_inv_def by blast
  then show ?thesis using pdata_take_prefix [of k i ps] k(1) by (auto intro: prefix_order.trans)
qed

lemma duplex_delivery:
  assumes "duplex a b" "ep_small a" "ep_small b"
  shows "prefix (delivered b) (ep_wrote a) \<and>
    (peer_fin (ep_s b) \<longrightarrow> (\<exists>w. ep_fin_at a = Some w \<and> prefix w (delivered b)))"
proof -
  obtain ps u i where s: "snd_inv ps u (ep_s a) (ep_wrote a) (ep_fin_at a) (ep_fins a)" and r: "rcv_inv ps i (ep_s b) (ep_read b)"
    using duplex_link [OF assms] unfolding link_def by blast
  have "prefix (pdata (take i ps)) (pdata ps)" using pdata_take_prefix [of i "length ps" ps] rcv_inv_fields(2) [OF r] by simp
  moreover have "prefix (pdata ps) (ep_wrote a)" using s unfolding snd_inv_def by (metis prefixI)
  ultimately have "prefix (delivered b) (ep_wrote a)" unfolding delivered_take [OF r] by (rule prefix_order.trans)
  moreover have "peer_fin (ep_s b) \<Longrightarrow> \<exists>w. ep_fin_at a = Some w \<and> prefix w (delivered b)"
    unfolding delivered_take [OF r] using rcv_inv_fields(6) [OF r] fin_delivered [OF s] by blast
  ultimately show ?thesis by blast
qed

section \<open>Properties\<close>

text \<open>
  C2: reliable, ordered delivery. Whatever the two applications do and whatever datagrams
  the network loses, repeats, delays or reorders, the bytes one endpoint has delivered are
  a prefix of the bytes the other accepted, in order and without gaps or repetitions; and
  once the end of the stream is reported, they contain everything that had been written
  when the stream was first finished. The sequence numbers are 32 bits and compared as
  signed differences: the statement is for streams of fewer than \<open>2 ^ 31\<close> segments.
\<close>
theorem stream_reliable_delivery:
  assumes "duplex a b" "ep_small a" "ep_small b"
  shows "prefix (delivered b) (ep_wrote a) \<and>
    (peer_fin (ep_s b) \<longrightarrow> (\<exists>w. ep_fin_at a = Some w \<and> prefix w (delivered b)))"
  using assms by (rule duplex_delivery)

text \<open>
  when \<open>stream_send_done\<close> reports at one endpoint that its end of stream has been
  acknowledged, the other endpoint really has delivered everything that was written before
  the stream was first finished.
\<close>
theorem stream_send_done_delivered:
  assumes "duplex a b" "ep_small a" "ep_small b" "stream_send_done (ep_s a)"
  shows "\<exists>w. ep_fin_at a = Some w \<and> prefix w (delivered b)"
proof -
  obtain ps u i where s: "snd_inv ps u (ep_s a) (ep_wrote a) (ep_fin_at a) (ep_fins a)" and r: "rcv_inv ps i (ep_s b) (ep_read b)"
    and ui: "u \<le> i" using duplex_link [OF assms(1-3)] unfolding link_def by blast
  have "snd_nxt (ep_s a) - snd_una (ep_s a) = 0" using assms(4) by (simp add: stream_send_done_def)
  then have "length ps = u" using snd_inv_inflight [OF s] snd_inv_window(3) [OF s] by simp
  then have "take i ps = ps" using ui by simp
  moreover have "\<exists>p \<in> set ps. fst p = F_FIN" using s assms(4) unfolding snd_inv_def stream_send_done_def by blast
  ultimately show ?thesis using fin_delivered [OF s, of _ i] delivered_take [OF r] by auto
qed

end
