(* ===== verification/Norn_Stream_Bounds.thy ===== *)
theory Norn_Stream_Bounds
  imports Norn_Stream_Props
begin

text \<open>
  Bounds that hold at an endpoint of \<open>stream.c\<close> whatever bytes it is fed: the windows,
  the timers and the buffers stay within their limits, so no array or ring is overrun and
  no datagram exceeds the buffer it is built in.
\<close>

definition STREAM_SEG_MAX :: nat where "STREAM_SEG_MAX = STREAM_HEADER + STREAM_SEG_PAYLOAD"

section \<open>The bounds of the state\<close>

definition cc_bnd :: "stream \<Rightarrow> bool" where
  "cc_bnd s \<longleftrightarrow> 50 \<le> unat (rto s) \<and> unat (rto s) \<le> 60000 \<and> 2 \<le> unat (cwnd s) \<and> unat (cwnd s) \<le> 256 \<and> unat (cwnd_cnt s) \<le> 256"

definition buf_bnd :: "stream \<Rightarrow> bool" where
  "buf_bnd s \<longleftrightarrow> ring_ok PEND_CAP (pend s) \<and> ring_ok DELIV_CAP (deliv s) \<and>
     (\<forall>i. length (sg_data (sbuf s i)) \<le> STREAM_SEG_PAYLOAD) \<and> (\<forall>i. length (sg_data (rbuf s i)) \<le> STREAM_SEG_PAYLOAD)"

definition bnd :: "stream \<Rightarrow> bool" where
  "bnd s \<longleftrightarrow> unat (snd_nxt s - snd_una s) \<le> 256 \<and> cc_bnd s \<and> buf_bnd s"

definition outs_bnd :: "stream \<times> bytes list \<Rightarrow> bool" where
  "outs_bnd res \<longleftrightarrow> bnd (fst res) \<and> (\<forall>x \<in> set (snd res). length x \<le> STREAM_SEG_MAX)"

lemma outs_bnd_nil: "bnd s \<Longrightarrow> outs_bnd (s, [])"
  by (simp add: outs_bnd_def)

lemma outs_bnd_append: "outs_bnd (s', outs') \<Longrightarrow> \<forall>x \<in> set outs. length x \<le> STREAM_SEG_MAX \<Longrightarrow> outs_bnd (s', outs @ outs')"
  by (auto simp: outs_bnd_def)

lemma emit_seg_bnd: "length (sg_data g) \<le> STREAM_SEG_PAYLOAD \<Longrightarrow> length (emit_seg s g) \<le> STREAM_SEG_MAX"
  by (simp add: STREAM_SEG_MAX_def)

lemma emit_ack_bnd: "length (emit_ack s) \<le> STREAM_SEG_MAX"
  by (simp add: emit_ack_def write_sack_def put64_def STREAM_SEG_MAX_def STREAM_HEADER_def STREAM_SEG_PAYLOAD_def Let_def)

section \<open>Sending\<close>

lemma next_seg_bnd:
  assumes "next_seg s = Some (fl, dat, s1)" "bnd s"
  shows "bnd s1" "length dat \<le> STREAM_SEG_PAYLOAD" "snd_nxt s1 - snd_una s1 = snd_nxt s - snd_una s"
proof -
  have ok: "ring_ok PEND_CAP (pend s)" using assms(2) by (simp add: bnd_def buf_bnd_def)
  note f = next_seg_frame [OF assms(1)]
  from assms(1) ok show "bnd s1"
    by (cases rule: next_seg_cases) (use assms(2) f in \<open>simp_all add: bnd_def buf_bnd_def cc_bnd_def\<close>)
  from assms(1) ok show "length dat \<le> STREAM_SEG_PAYLOAD" by (cases rule: next_seg_cases) simp_all
  show "snd_nxt s1 - snd_una s1 = snd_nxt s - snd_una s" using f by simp
qed

lemma push_seg_bnd:
  assumes "bnd s" "length dat \<le> STREAM_SEG_PAYLOAD" "snd_nxt s - snd_una s < win" "unat win \<le> 256"
  shows "bnd (fst (push_seg now fl dat s))" "length (snd (push_seg now fl dat s)) \<le> STREAM_SEG_MAX"
proof -
  have "unat (snd_nxt s + 1 - snd_una s) \<le> 256"
    using word_diff_Suc [OF assms(3)] assms(3,4) by (simp add: word_less_nat_alt)
  then show "bnd (fst (push_seg now fl dat s))"
    using assms(1,2) by (auto simp: bnd_def buf_bnd_def cc_bnd_def push_seg_sbuf)
  show "length (snd (push_seg now fl dat s)) \<le> STREAM_SEG_MAX"
    using assms(2) by (simp add: push_seg_def Let_def STREAM_SEG_MAX_def)
qed

lemma pump_loop_bnd: "bnd s \<Longrightarrow> unat win \<le> 256 \<Longrightarrow> outs_bnd (pump_loop now win s)"
proof (induction now win s rule: pump_loop.induct)
  case (1 now win s)
  show ?case
  proof (cases "snd_nxt s - snd_una s < win \<and> next_seg s \<noteq> None")
    case False
    then have "pump_loop now win s = (s, [])" by (subst pump_loop.simps) (auto split: option.split)
    then show ?thesis using 1(2) by (simp add: outs_bnd_nil)
  next
    case True
    then obtain fl dat s1 where n: "next_seg s = Some (fl, dat, s1)" by auto
    let ?p = "push_seg now fl dat s1"
    note b = next_seg_bnd [OF n 1(2)]
    have lt: "snd_nxt s1 - snd_una s1 < win" using True b(3) by simp
    note pb = push_seg_bnd [OF b(1,2) lt 1(3), of now fl]
    have e: "pump_loop now win s = (fst (pump_loop now win (fst ?p)), [snd ?p] @ snd (pump_loop now win (fst ?p)))"
      using True n by (subst pump_loop.simps) (simp add: split_beta Let_def)
    have "outs_bnd (pump_loop now win (fst ?p))"
      using 1(1) [OF conjunct1 [OF True] n refl refl refl, of "fst ?p" "snd ?p"] pb(1) 1(3) by simp
    then show ?thesis unfolding e using pb(2) by (intro outs_bnd_append) simp_all
  qed
qed

lemma pump_send_bnd: "bnd s \<Longrightarrow> outs_bnd (pump_send now s)"
  unfolding pump_send_def by (rule pump_loop_bnd) (simp_all add: pump_win_le)

text \<open>Changes that keep the bounds because only marks on segments change\<close>

lemma bnd_mark:
  assumes "bnd s" "sg_data g = sg_data (sbuf s i)"
  shows "bnd (s\<lparr>sbuf := (sbuf s)(i := g)\<rparr>)"
  using assms by (simp add: bnd_def buf_bnd_def cc_bnd_def)

lemma retransmit_loop_bnd: "bnd s \<Longrightarrow> outs_bnd (retransmit_loop now limit q s)"
proof (induction now limit q s rule: retransmit_loop.induct)
  case (1 now limit q s)
  let ?g = "sbuf s (slot q)"
  let ?s = "s\<lparr>sbuf := (sbuf s)(slot q := ?g\<lparr>sg_retx := True, sg_sent_at := now\<rparr>)\<rparr>"
  have b: "bnd ?s" using 1(3) by (intro bnd_mark) simp_all
  have o: "length (emit_seg s ?g) \<le> STREAM_SEG_MAX" using 1(3) by (intro emit_seg_bnd) (simp add: bnd_def buf_bnd_def)
  consider "\<not> (q \<noteq> snd_nxt s \<and> sdiff q limit < 0)" | "q \<noteq> snd_nxt s \<and> sdiff q limit < 0" "sg_sacked ?g"
    | "q \<noteq> snd_nxt s \<and> sdiff q limit < 0" "\<not> sg_sacked ?g" by blast
  then show ?case
  proof cases
    case 1
    then have "retransmit_loop now limit q s = (s, [])" by (subst retransmit_loop.simps) auto
    then show ?thesis using \<open>bnd s\<close> by (simp add: outs_bnd_nil)
  next
    case 2
    then have "retransmit_loop now limit q s = retransmit_loop now limit (q + 1) s" by (subst retransmit_loop.simps) (simp add: Let_def)
    then show ?thesis using 1(1) [OF 2(1) refl 2(2)] 1(3) by simp
  next
    case 3
    then have "retransmit_loop now limit q s = (fst (retransmit_loop now limit (q + 1) ?s), [emit_seg s ?g] @ snd (retransmit_loop now limit (q + 1) ?s))"
      by (subst retransmit_loop.simps) (simp add: Let_def split_beta)
    then show ?thesis using 1(2) [OF 3(1) refl 3(2) b] o outs_bnd_append by (metis empty_iff empty_set prod.collapse set_ConsD)
  qed
qed

lemma apply_sack_bnd: "bnd s \<Longrightarrow> bnd (apply_sack ack bm s)"
proof -
  have one: "bnd s \<Longrightarrow> bnd (sack_one ack bm s i)" for s i
    using bnd_mark [of s "sbuf s (slot (ack + 1 + word_of_nat i))\<lparr>sg_sacked := True\<rparr>"] by (simp add: sack_one_def Let_def)
  have "bnd s \<Longrightarrow> bnd (foldl (sack_one ack bm) s is)" for "is" by (induction "is" arbitrary: s) (simp_all add: one)
  then show "bnd s \<Longrightarrow> bnd (apply_sack ack bm s)" by (simp add: apply_sack_def)
qed

section \<open>Round-trip time and congestion control\<close>

lemma rtt_update_bnd: "bnd s \<Longrightarrow> bnd (rtt_update r s)"
proof -
  have clamp: "unat (let t1 = if t < STREAM_RTO_MIN then STREAM_RTO_MIN else t in if t1 > STREAM_RTO_MAX then STREAM_RTO_MAX else t1) \<in> {50..60000}" for t
    by (auto simp: Let_def STREAM_RTO_MIN_def STREAM_RTO_MAX_def word_less_nat_alt)
  assume "bnd s"
  moreover have "rto (rtt_update r s) = (let s1 = rtt_update r s; t = srtt s1 + 4 * rttvar s1; t1 = (if t < STREAM_RTO_MIN then STREAM_RTO_MIN else t)
      in if t1 > STREAM_RTO_MAX then STREAM_RTO_MAX else t1)" by (simp add: rtt_update_def Let_def)
  then have "unat (rto (rtt_update r s)) \<in> {50..60000}" using clamp by (metis (no_types, lifting))
  ultimately show ?thesis by (simp add: rtt_update_def Let_def bnd_def buf_bnd_def cc_bnd_def)
qed

lemma grow_loop_bnd:
  "1 \<le> unat w \<Longrightarrow> unat w \<le> 256 \<and> unat c \<le> 512 \<or> unat w \<le> 257 \<and> unat c \<le> 256 \<and> unat c < unat w \<Longrightarrow>
     unat w \<le> unat (fst (grow_loop w c)) \<and> unat (fst (grow_loop w c)) \<le> 257 \<and> unat (snd (grow_loop w c)) \<le> 256"
proof (induction w c rule: grow_loop.induct)
  case (1 w c)
  show ?case
  proof (cases "w \<le> c")
    case False
    then have "grow_loop w c = (w, c)" by (subst grow_loop.simps) simp
    then show ?thesis using 1(3) False by (auto simp: word_le_nat_alt)
  next
    case True
    then have e: "grow_loop w c = grow_loop (w + 1) (c - w)" by (subst grow_loop.simps) simp
    have w: "unat w \<le> 256" "unat c \<le> 512" using 1(3) True by (auto simp: word_le_nat_alt)
    have s: "unat (w + 1) = unat w + 1" using unat_Suc_less [of w 512] w by simp
    have d: "unat (c - w) = unat c - unat w" using True by (simp add: unat_sub word_le_nat_alt)
    have "unat w \<le> unat c" using True by (simp add: word_le_nat_alt)
    then have "unat (w + 1) \<le> 256 \<and> unat (c - w) \<le> 512 \<or> unat (w + 1) \<le> 257 \<and> unat (c - w) \<le> 256 \<and> unat (c - w) < unat (w + 1)"
      unfolding s d using w by linarith
    then show ?thesis using 1(1) [OF True] unfolding e s by simp
  qed
qed

lemma cc_on_ack_bnd:
  assumes "bnd s" "unat n \<le> 256"
  shows "bnd (cc_on_ack n s)"
proof -
  let ?w = "fst (grow_loop (cwnd s) (cwnd_cnt s + n))" and ?c = "snd (grow_loop (cwnd s) (cwnd_cnt s + n))"
  have b: "2 \<le> unat (cwnd s)" "unat (cwnd s) \<le> 256" "unat (cwnd_cnt s) \<le> 256" using assms(1) by (simp_all add: bnd_def cc_bnd_def)
  have a: "unat (cwnd s + n) = unat (cwnd s) + unat n" "unat (cwnd_cnt s + n) = unat (cwnd_cnt s) + unat n"
    using b assms(2) by (simp_all add: unat_word_ariths)
  have g: "unat (cwnd s) \<le> unat ?w \<and> unat ?w \<le> 257 \<and> unat ?c \<le> 256" by (rule grow_loop_bnd) (use a b assms(2) in linarith)+
  have "2 \<le> unat (cwnd (cc_on_ack n s)) \<and> unat (cwnd (cc_on_ack n s)) \<le> 256 \<and> unat (cwnd_cnt (cc_on_ack n s)) \<le> 256"
    using a b g assms(2) by (simp add: cc_on_ack_def Let_def split_beta STREAM_WIN_MAX_def word_less_nat_alt)
  moreover have "snd_nxt (cc_on_ack n s) = snd_nxt s \<and> snd_una (cc_on_ack n s) = snd_una s \<and> rto (cc_on_ack n s) = rto s \<and>
      pend (cc_on_ack n s) = pend s \<and> deliv (cc_on_ack n s) = deliv s \<and> sbuf (cc_on_ack n s) = sbuf s \<and> rbuf (cc_on_ack n s) = rbuf s"
    by (simp add: cc_on_ack_def Let_def split_beta)
  ultimately show ?thesis using assms(1) by (simp add: bnd_def buf_bnd_def cc_bnd_def)
qed

lemma cc_on_loss_bnd: "bnd s \<Longrightarrow> bnd (cc_on_loss b s)"
  by (auto simp: cc_on_loss_def Let_def bnd_def buf_bnd_def cc_bnd_def STREAM_SSTHRESH_MIN_def STREAM_IW_def word_less_nat_alt unat_div)

lemma sint_small: "unat d < 2 ^ 31 \<Longrightarrow> sint (d :: u32) = int (unat d)"
  using sdiff_of_nat [of "unat d" 0] by (simp add: sdiff_def)

lemma sint_big: "2 ^ 31 \<le> unat d \<Longrightarrow> sint (d :: u32) < 0"
proof -
  assume b: "2 ^ 31 \<le> unat d"
  define n where "n = unat d"
  have n: "d = word_of_nat n" "n < 2 ^ 32" "2 ^ 31 \<le> n" using unsigned_less [of d, where ?'a = nat] b by (simp_all add: n_def)
  have z: "(2 :: u32) ^ 32 = 0" using word_exp_length_eq_0 [where ?'a = 32] by simp
  have "(word_of_int (int n - 2 ^ 32) :: u32) = word_of_nat n - 2 ^ 32" by simp
  then have "sint d = sint (word_of_int (int n - 2 ^ 32) :: u32)" unfolding n(1) z by (simp only: diff_0_right)
  also have "\<dots> = signed_take_bit 31 (int n - 2 ^ 32)" unfolding sint_sbintrunc' by simp
  also have "\<dots> = int n - 2 ^ 32" using n(2,3) by (intro signed_take_bit_int_eq_self) simp_all
  finally show ?thesis using n(2) by simp
qed

text \<open>An acknowledgement that is accepted lies in the window, so at most the window is acknowledged.\<close>

lemma ack_in_window:
  assumes "0 < sdiff ack una" "sdiff ack nxt \<le> 0" "unat (nxt - una) \<le> 256"
  shows "unat (ack - una) \<le> unat (nxt - una)" "unat (nxt - ack) = unat (nxt - una) - unat (ack - una)"
proof -
  define d n where "d = ack - una" and "n = nxt - una"
  have lt: "unat d < 2 ^ 31" using assms(1) sint_big [of d] by (fastforce simp: sdiff_def d_def)
  have dn: "ack - nxt = d - n" "nxt - ack = n - d" by (simp_all add: d_def n_def)
  have "\<not> unat n < unat d"
  proof
    assume a: "unat n < unat d"
    then have "unat (d - n) = unat d - unat n" by (simp add: unat_sub word_le_nat_alt)
    then have "sint (d - n) = int (unat d - unat n)" using lt sint_small [of "d - n"] by simp
    then have "0 < sint (d - n)" unfolding \<open>sint (d - n) = int (unat d - unat n)\<close> using a by linarith
    then show False using assms(2) by (simp add: sdiff_def dn)
  qed
  then have "unat d \<le> unat n" "unat (n - d) = unat n - unat d" by (simp_all add: unat_sub word_le_nat_alt)
  then show "unat (ack - una) \<le> unat (nxt - una)" "unat (nxt - ack) = unat (nxt - una) - unat (ack - una)"
    unfolding dn(2) by (simp_all only: d_def n_def)
qed

lemma ack_new_bnd:
  assumes "bnd s" "0 < sdiff ack (snd_una s)" "sdiff ack (snd_nxt s) \<le> 0"
  shows "bnd (ack_new ack now s)"
proof -
  have w: "unat (snd_nxt s - snd_una s) \<le> 256" using assms(1) by (simp add: bnd_def)
  note a = ack_in_window [OF assms(2,3) w]
  define s1 where "s1 = (let t = sbuf s (slot (ack - 1)) in
    if sg_seq t = ack - 1 \<and> \<not> sg_retx t then rtt_update (now - sg_sent_at t) s else s)"
  have s1: "bnd s1" "snd_una s1 = snd_una s" "snd_nxt s1 = snd_nxt s"
    using assms(1) rtt_update_bnd rtt_update_same by (auto simp: s1_def Let_def snd_same_def)
  let ?s2 = "cc_on_ack (ack - snd_una s1) s1"
  have e: "ack_new ack now s = ?s2\<lparr>snd_una := ack, dupacks := 0,
     rto_deadline := (if ack = snd_nxt ?s2 then 0 else now + rto ?s2)\<rparr>"
    by (simp add: ack_new_def s1_def Let_def)
  have "bnd ?s2" using s1 a w by (intro cc_on_ack_bnd) simp_all
  moreover have "snd_nxt ?s2 = snd_nxt s" using s1(3) cc_on_ack_same [of s1] by (simp add: snd_same_def)
  ultimately show ?thesis unfolding e using a w by (simp add: bnd_def buf_bnd_def cc_bnd_def)
qed

lemma bnd_dupacks: "bnd s \<Longrightarrow> bnd (s\<lparr>dupacks := d\<rparr>)" and bnd_deadline: "bnd s \<Longrightarrow> bnd (s\<lparr>rto_deadline := t\<rparr>)"
  and bnd_rwnd: "bnd s \<Longrightarrow> bnd (s\<lparr>peer_rwnd := w\<rparr>)"
  by (simp_all add: bnd_def buf_bnd_def cc_bnd_def)

lemma on_ack_bnd: "bnd s \<Longrightarrow> outs_bnd (on_ack ack now s)"
proof -
  assume b: "bnd s"
  have l: "bnd (cc_on_loss False (s\<lparr>dupacks := d\<rparr>))" for d using b by (intro cc_on_loss_bnd bnd_dupacks)
  note r = retransmit_loop_bnd [OF l]
  show ?thesis unfolding on_ack_def Let_def split_beta fast_retransmit_def retransmit_range_def
    using b r ack_new_bnd [OF b] bnd_dupacks [OF b] by (simp add: outs_bnd_def bnd_deadline)
qed

section \<open>Entry points\<close>

lemma buffer_seg_bnd: "bnd s \<Longrightarrow> bnd (buffer_seg fl sq pl s)"
  by (auto simp: buffer_seg_def Let_def bnd_def buf_bnd_def cc_bnd_def)

lemma deliver_loop_bnd: "bnd s \<Longrightarrow> bnd (deliver_loop s)"
proof (induction s rule: deliver_loop.induct)
  case (1 s)
  let ?g = "rbuf s (slot (rcv_nxt s))"
  have d: "bnd (deliver_one ?g s)" if "\<not> length (sg_data ?g) > DELIV_CAP - rg_count (deliv s)"
  proof -
    have ok: "ring_ok DELIV_CAP (deliv s)" using 1(2) by (simp add: bnd_def buf_bnd_def)
    have "rg_count (deliv s) + length (sg_data ?g) \<le> DELIV_CAP" using that rfifo.used_cap [OF ok] by linarith
    then have "ring_ok DELIV_CAP (ring_put DELIV_CAP (sg_data ?g) (deliv s))" by (rule rfifo.put_ok [OF ok])
    then show ?thesis using 1(2) by (auto simp: deliver_one_def bnd_def buf_bnd_def cc_bnd_def)
  qed
  then show ?case using 1 by (subst deliver_loop.simps) (simp add: Let_def)
qed

lemma stream_input_bnd: "bnd s \<Longrightarrow> outs_bnd (stream_input x now s)"
proof (cases "length x < STREAM_HEADER")
  case True
  then show "bnd s \<Longrightarrow> outs_bnd (stream_input x now s)" by (simp add: stream_input_def outs_bnd_nil)
next
  case False
  assume "bnd s"
  then have "bnd (input_window x s)" by (simp add: input_window_def Let_def bnd_rwnd apply_sack_bnd)
  from on_ack_bnd [OF this, of "dg_ack x" now] show ?thesis unfolding stream_input_eq [OF False] Let_def split_beta
    using emit_ack_bnd deliver_loop_bnd buffer_seg_bnd by (auto simp: outs_bnd_def)
qed

lemma stream_write_bnd: "bnd s \<Longrightarrow> outs_bnd (snd (stream_write d now s))"
proof -
  assume b: "bnd s"
  then have ok: "ring_ok PEND_CAP (pend s)" by (simp add: bnd_def buf_bnd_def)
  let ?n = "if length d < PEND_CAP - rg_count (pend s) then length d else PEND_CAP - rg_count (pend s)"
  have "ring_ok PEND_CAP (ring_put PEND_CAP (take ?n d) (pend s))"
    by (rule rfifo.put_ok [OF ok]) (use rfifo.used_cap [OF ok] in auto)
  then have "bnd (s\<lparr>pend := ring_put PEND_CAP (take ?n d) (pend s)\<rparr>)" using b by (simp add: bnd_def buf_bnd_def cc_bnd_def)
  then show ?thesis using pump_send_bnd by (simp add: stream_write_def Let_def)
qed

lemma stream_read_bnd: "bnd s \<Longrightarrow> bnd (snd (stream_read n s))"
  by (auto simp: stream_read_def Let_def bnd_def buf_bnd_def cc_bnd_def intro: rfifo.drp_ok)

lemma stream_finish_bnd: "bnd s \<Longrightarrow> outs_bnd (stream_finish now s)"
  unfolding stream_finish_def by (rule pump_send_bnd) (simp add: bnd_def buf_bnd_def cc_bnd_def)

lemma rto_backoff_bnd: "bnd s \<Longrightarrow> bnd (s\<lparr>rto := (if rto s < STREAM_RTO_MAX div 2 then rto s * 2 else STREAM_RTO_MAX)\<rparr>)"
  by (auto simp: bnd_def buf_bnd_def cc_bnd_def STREAM_RTO_MAX_def word_less_nat_alt unat_word_ariths)

lemma stream_tick_bnd: "bnd s \<Longrightarrow> outs_bnd (stream_tick now s)"
proof -
  assume "bnd s"
  then have p: "outs_bnd (pump_send now s)" by (rule pump_send_bnd)
  then have b: "bnd (fst (pump_send now s))" by (simp add: outs_bnd_def)
  show ?thesis unfolding stream_tick_def Let_def split_beta retransmit_range_def
    using p retransmit_loop_bnd [OF cc_on_loss_bnd [OF rto_backoff_bnd [OF b]]] retransmit_loop_bnd [OF b] bnd_deadline
    by (auto simp: outs_bnd_def)
qed

lemma stream_new_bnd: "bnd stream_new"
  by (simp add: bnd_def buf_bnd_def cc_bnd_def stream_new_def seg_zero_def STREAM_RTO_INIT_def STREAM_IW_def)

definition ep_bnd :: "endpoint \<Rightarrow> bool" where
  "ep_bnd e \<longleftrightarrow> bnd (ep_s e) \<and> (\<forall>x \<in> set (ep_sent e). length x \<le> STREAM_SEG_MAX)"

lemma ep_do_bnd: "ep_bnd e \<Longrightarrow> ep_bnd (ep_do x e)"
  using stream_write_bnd stream_read_bnd stream_tick_bnd stream_finish_bnd stream_input_bnd
  by (cases x) (auto simp: ep_bnd_def ep_emit_def outs_bnd_def split_beta Let_def)

text \<open>
  C32: after any sequence of writes, reads, ticks, finishes and inbound datagrams of any
  bytes whatever, at most 256 segments are in flight, the congestion window stays between 2
  and 256 segments, the retransmission timeout between 50 ms and 60 s, the two rings never
  hold more than their capacity, no stored segment exceeds its array and no datagram exceeds
  the buffer it is built in.
\<close>
theorem stream_bounds:
  "let e = fold ep_do ops ep_new; s = ep_s e in
     unat (stream_inflight s) \<le> 256 \<and> 2 \<le> unat (cwnd s) \<and> unat (cwnd s) \<le> 256 \<and>
     50 \<le> unat (rto s) \<and> unat (rto s) \<le> 60000 \<and> rg_count (pend s) \<le> PEND_CAP \<and> rg_count (deliv s) \<le> DELIV_CAP \<and>
     (\<forall>i. length (sg_data (sbuf s i)) \<le> STREAM_SEG_PAYLOAD \<and> length (sg_data (rbuf s i)) \<le> STREAM_SEG_PAYLOAD) \<and>
     list_all (\<lambda>x. length x \<le> STREAM_SEG_MAX) (ep_sent e)"
proof -
  have "ep_bnd e \<Longrightarrow> ep_bnd (fold ep_do ops e)" for e by (induction ops arbitrary: e) (simp_all add: ep_do_bnd)
  moreover have "ep_bnd ep_new" by (simp add: ep_bnd_def ep_new_def stream_new_bnd)
  ultimately have "ep_bnd (fold ep_do ops ep_new)" by blast
  then show ?thesis
    by (auto simp: ep_bnd_def bnd_def cc_bnd_def buf_bnd_def stream_inflight_def ring_ok_def list_all_iff Let_def)
qed

end
