(* ===== verification/Norn_Stream_Live.thy ===== *)
theory Norn_Stream_Live
  imports Norn_Stream_Bounds
begin

text \<open>
  Recovery from loss in \<open>stream.c\<close>: what a retransmission timeout puts on the wire makes
  the receiver advance; and the situation in which the sender stays silent for ever.
\<close>

section \<open>The timeout resends the oldest segment\<close>

lemma pump_loop_keep:
  assumes "snd_inv ps u s W w0 nf" "unat win \<le> 256" "u < length ps"
  shows "sbuf (fst (pump_loop now win s)) (u mod 256) = sbuf s (u mod 256) \<and>
    (rto_deadline s \<noteq> 0 \<longrightarrow> rto_deadline (fst (pump_loop now win s)) = rto_deadline s)"
  using assms
proof (induction now win s arbitrary: ps rule: pump_loop.induct)
  case (1 now win s)
  show ?case
  proof (cases "snd_nxt s - snd_una s < win \<and> next_seg s \<noteq> None")
    case False
    then have "pump_loop now win s = (s, [])" by (subst pump_loop.simps) (auto split: option.split)
    then show ?thesis by simp
  next
    case True
    then obtain fl dat s1 where n: "next_seg s = Some (fl, dat, s1)" by auto
    let ?s2 = "fst (push_seg now fl dat s1)"
    have room: "length ps < u + 256" using snd_inv_inflight [OF 1(2)] True 1(3) unfolding word_less_nat_alt by linarith
    have e: "fst (pump_loop now win s) = fst (pump_loop now win ?s2)"
      using True n by (subst pump_loop.simps) (simp add: split_beta Let_def)
    have "length ps mod 256 \<noteq> u mod 256" using mod_window [of u "length ps" u] 1(4) room by simp
    then have k: "sbuf ?s2 (u mod 256) = sbuf s (u mod 256)"
      using next_seg_frame [OF n] snd_inv_window(1) [OF 1(2)] by (simp add: push_seg_sbuf)
    have d: "rto_deadline s \<noteq> 0 \<longrightarrow> rto_deadline ?s2 = rto_deadline s"
      using n by (auto simp: push_seg_def next_seg_def Let_def split: if_splits)
    have "sbuf (fst (pump_loop now win ?s2)) (u mod 256) = sbuf ?s2 (u mod 256) \<and>
      (rto_deadline ?s2 \<noteq> 0 \<longrightarrow> rto_deadline (fst (pump_loop now win ?s2)) = rto_deadline ?s2)"
      using 1(1) [OF conjunct1 [OF True] n refl refl refl, of ?s2 "snd (push_seg now fl dat s1)" "ps @ [(fl, dat)]"]
        push_seg_inv [OF 1(2) n room] 1(3,4) by simp
    then show ?thesis unfolding e using k d by auto
  qed
qed

lemma retransmit_first:
  assumes "snd_una s \<noteq> snd_nxt s" "sdiff (snd_una s) limit < 0" "\<not> sg_sacked (sbuf s (slot (snd_una s)))"
  shows "emit_seg s (sbuf s (slot (snd_una s))) \<in> set (snd (retransmit_range now limit s))"
  unfolding retransmit_range_def using assms by (subst retransmit_loop.simps) (simp add: Let_def split_beta)

lemma tick_resends:
  assumes inv: "snd_inv ps u s W w0 nf" and lt: "u < length ps" and small: "length W + nf < 2 ^ 31"
    and due: "rto_deadline s \<noteq> 0" "rto_deadline s \<le> now" and ns: "\<not> sg_sacked (sbuf s (u mod 256))"
  shows "\<exists>x \<in> set (snd (stream_tick now s)). STREAM_HEADER \<le> length x \<and> x ! 0 = fst (ps ! u) OR F_ACK \<and>
    dg_seq x = word_of_nat u \<and> drop STREAM_HEADER x = snd (ps ! u)"
proof -
  let ?p = "pump_send now s"
  define s1 where "s1 = fst ?p"
  obtain ps' where i1: "snd_inv (ps @ ps') u s1 W w0 nf"
    using pump_send_snd [OF inv, of now] by (auto simp: snd_step_def s1_def)
  have keep: "sbuf s1 (u mod 256) = sbuf s (u mod 256)" "rto_deadline s1 = rto_deadline s"
    using pump_loop_keep [OF inv pump_win_le(1) [of s] lt, of now] due(1) by (simp_all add: s1_def pump_send_def)
  note w = snd_inv_window [OF i1]
  have n: "length (ps @ ps') < 2 ^ 31" using snd_inv_segments [OF i1] small by linarith
  have "length (ps @ ps') - u < 2 ^ 32" using w(4) by simp
  then have "word_of_nat (length (ps @ ps')) \<noteq> (word_of_nat u :: u32)" using of_nat_diff_eq [OF w(3)] lt by force
  then have out: "snd_una s1 \<noteq> snd_nxt s1" using w(1,2) by simp
  define s2 where "s2 = (if peer_rwnd s1 \<noteq> 0
      then cc_on_loss True (s1\<lparr>rto := (if rto s1 < STREAM_RTO_MAX div 2 then rto s1 * 2 else STREAM_RTO_MAX)\<rparr>) else s1)"
  have s2: "snd_una s2 = snd_una s1" "snd_nxt s2 = snd_nxt s1" "sbuf s2 = sbuf s1"
    by (simp_all add: s2_def cc_on_loss_def Let_def)
  have "sdiff (snd_una s2) (snd_nxt s2) < 0" unfolding s2(1,2) w(1,2) using n lt by (subst sdiff_of_nat) simp_all
  moreover have sl: "slot (snd_una s2) = u mod 256" by (simp add: s2 w(2))
  ultimately have x: "emit_seg s2 (sbuf s2 (u mod 256)) \<in> set (snd (retransmit_range now (snd_nxt s2) s2))"
    using retransmit_first [of s2 "snd_nxt s2" now] out ns keep(1) s2 by simp
  have "snd (stream_tick now s) = snd ?p @ snd (retransmit_range now (snd_nxt s2) s2)"
    using due out keep(2) by (simp add: stream_tick_def Let_def split_beta flip: s1_def) (simp add: s2_def)
  then have "emit_seg s2 (sbuf s2 (u mod 256)) \<in> set (snd (stream_tick now s))" using x by simp
  moreover have "holds_pkt u (ps ! u) (sbuf s2 (u mod 256))"
    using inv lt unfolding snd_inv_def s2(3) keep(1) by simp
  ultimately show ?thesis by (intro bexI [of _ "emit_seg s2 (sbuf s2 (u mod 256))"]) (simp_all add: holds_pkt_def)
qed

section \<open>The resent segment advances the receiver\<close>

lemma buffer_seg_present:
  assumes inv: "rcv_inv ps i t D" and i: "i < length ps" and big: "length ps < 2 ^ 31"
  shows "sg_present (rbuf (buffer_seg fl (word_of_nat i) pl t) (i mod 256))"
proof -
  have "sdiff (word_of_nat i) (rcv_nxt t) = 0" using rcv_inv_fields(1,2) [OF inv] i big by (simp add: sdiff_of_nat)
  then show ?thesis by (simp add: buffer_seg_def Let_def STREAM_WIN_MAX_def)
qed

lemma buffer_seg_frame: "rcv_nxt (buffer_seg fl sq pl t) = rcv_nxt t" "deliv (buffer_seg fl sq pl t) = deliv t"
  by (simp_all add: buffer_seg_def Let_def)

lemma deliver_loop_advances:
  assumes inv: "rcv_inv ps i t D" and ok: "\<forall>p \<in> set ps. pkt_ok p" and p: "sg_present (rbuf t (i mod 256))"
    and room: "rg_count (deliv t) + STREAM_SEG_PAYLOAD \<le> DELIV_CAP"
  shows "\<exists>i' > i. rcv_inv ps i' (deliver_loop t) D"
proof -
  note f = rcv_inv_fields [OF inv]
  let ?g = "rbuf t (i mod 256)"
  have sl: "slot (rcv_nxt t) = i mod 256" by (simp add: f(1))
  have si: "slot_inv ps i (i mod 256) ?g" using f(5) [OF _ p] by simp
  have "pkt_ok (ps ! i)" using ok slot_inv_now(1) [OF si] by simp
  then have len: "length (sg_data ?g) \<le> STREAM_SEG_PAYLOAD" using slot_inv_now(3) [OF si] by (auto simp: pkt_ok_def)
  have sq: "sg_seq ?g = rcv_nxt t" using si mod_window [of i] unfolding slot_inv_def f(1) holds_pkt_def by auto
  have d: "rcv_inv ps (Suc i) (deliver_one ?g t) D"
    using deliver_one_inv [OF inv ok] p len room unfolding sl by simp
  have "deliver_loop t = (if peer_fin (deliver_one ?g t) then deliver_one ?g t else deliver_loop (deliver_one ?g t))"
    using p sq len room unfolding sl [symmetric] by (subst deliver_loop.simps) (auto simp: Let_def)
  then show ?thesis using d deliver_loop_inv [OF d ok] by (auto intro: Suc_le_lessD)
qed

lemma input_advances:
  assumes inv: "rcv_inv ps i t D" and i: "i < length ps" and big: "length ps < 2 ^ 31" and ok: "\<forall>p \<in> set ps. pkt_ok p"
    and room: "rg_count (deliv t) + STREAM_SEG_PAYLOAD \<le> DELIV_CAP"
    and snd: "snd_inv qs v t W w0 nf" "length qs < 2 ^ 31" "ack_ok k x" "k \<le> length qs"
    and x: "STREAM_HEADER \<le> length x" "x ! 0 = fst (ps ! i) OR F_ACK" "dg_seq x = word_of_nat i" "drop STREAM_HEADER x = snd (ps ! i)"
  shows "\<exists>i' > i. rcv_inv ps i' (fst (stream_input x now t)) D"
proof -
  obtain m where m: "m \<le> k" "dg_ack x = word_of_nat m" using snd(3) by (auto simp: ack_ok_def)
  let ?s = "input_window x t" and ?a = "on_ack (dg_ack x) now (input_window x t)"
  have "rcv_same ?s (fst ?a)"
    using on_ack_snd [OF snd_inv_same [OF conjunct1 [OF input_window_same] snd(1)] m(2) _ snd(2), where now = now] m(1) snd(4) by fastforce
  then have same: "rcv_same t (fst ?a)" using input_window_same rcv_same_trans by blast
  have fl: "x ! 0 AND (F_DATA OR F_FIN) \<noteq> 0" using ok i x(2) by (auto simp: pkt_ok_def F_DATA_def F_FIN_def F_ACK_def dest!: nth_mem)
  let ?b = "buffer_seg (x ! 0) (dg_seq x) (drop STREAM_HEADER x) (fst ?a)"
  have ia: "rcv_inv ps i (fst ?a) D" using rcv_inv_same [OF same inv] .
  have ib: "rcv_inv ps i ?b D" unfolding x(2-4) by (rule buffer_seg_inv [OF ia i big ok])
  have "sg_present (rbuf ?b (i mod 256))" unfolding x(3) by (rule buffer_seg_present [OF ia i big])
  moreover have "rg_count (deliv ?b) + STREAM_SEG_PAYLOAD \<le> DELIV_CAP" using room same by (simp add: buffer_seg_frame rcv_same_def)
  ultimately have "\<exists>i' > i. rcv_inv ps i' (deliver_loop ?b) D" by (rule deliver_loop_advances [OF ib ok])
  moreover have "fst (stream_input x now t) = deliver_loop ?b"
    using stream_input_eq [of x now t] x(1) fl by (simp add: split_beta Let_def)
  ultimately show ?thesis by simp
qed

text \<open>
  C31: recovery from loss. If the oldest unacknowledged segment has not reached the receiver
  and is not marked as selectively acknowledged, then the first tick after the deadline puts
  a datagram on the wire that, when it arrives, makes the receiver deliver at least one more
  segment, provided its delivery buffer has room for one.
\<close>
theorem stream_timeout_recovers:
  assumes "duplex a b" "ep_small a" "ep_small b"
    and lost: "rcv_nxt (ep_s b) = snd_una (ep_s a)" "snd_una (ep_s a) \<noteq> snd_nxt (ep_s a)"
    and "\<not> sg_sacked (sbuf (ep_s a) (slot (snd_una (ep_s a))))"
    and due: "rto_deadline (ep_s a) \<noteq> 0" "rto_deadline (ep_s a) \<le> now"
    and room: "rg_count (deliv (ep_s b)) + STREAM_SEG_PAYLOAD \<le> DELIV_CAP"
  shows "\<exists>x \<in> set (snd (stream_tick now (ep_s a))).
    0 < sdiff (rcv_nxt (fst (stream_input x now' (ep_s b)))) (rcv_nxt (ep_s b))"
proof -
  obtain ps u qs v i j where l: "snd_inv ps u (ep_s a) (ep_wrote a) (ep_fin_at a) (ep_fins a)"
    "snd_inv qs v (ep_s b) (ep_wrote b) (ep_fin_at b) (ep_fins b)" "rcv_inv ps i (ep_s b) (ep_read b)"
    "rcv_inv qs j (ep_s a) (ep_read a)" "u \<le> i" using duplex_link [OF assms(1-3)] unfolding link_def by blast
  note w = snd_inv_window [OF l(1)] and f = rcv_inv_fields [OF l(3)]
  have small: "length ps < 2 ^ 31" "length qs < 2 ^ 31"
    using snd_inv_segments [OF l(1)] snd_inv_segments [OF l(2)] assms(2,3) by (simp_all add: ep_small_def)
  have iu: "i = u" using lost(1) of_nat_diff_eq [OF l(5)] f(1,2) w(2,4) small(1) by simp
  have lt: "u < length ps" using w(1-3) lost(2) by (cases "u = length ps") auto
  have small_a: "length (ep_wrote a) + ep_fins a < 2 ^ 31" using assms(2) by (simp add: ep_small_def)
  have ns: "\<not> sg_sacked (sbuf (ep_s a) (u mod 256))" using assms(6) w(2) by simp
  obtain x where x: "x \<in> set (snd (stream_tick now (ep_s a)))" "STREAM_HEADER \<le> length x" "x ! 0 = fst (ps ! i) OR F_ACK"
    "dg_seq x = word_of_nat i" "drop STREAM_HEADER x = snd (ps ! i)"
    using tick_resends [OF l(1) lt small_a due ns] unfolding iu by blast
  obtain k where ack: "ack_ok k x" "k \<le> length qs"
    using node_tick [OF l(1,4), of u now] x(1) rcv_inv_fields(2) unfolding node_ok_def by blast
  obtain i' where i': "i < i'" "rcv_inv ps i' (fst (stream_input x now' (ep_s b))) (ep_read b)"
    using input_advances [OF l(3) _ small(1) snd_inv_pkts [OF l(1)] room l(2) small(2) ack x(2-5)] lt iu by blast
  have "sdiff (rcv_nxt (fst (stream_input x now' (ep_s b)))) (rcv_nxt (ep_s b)) = int i' - int i"
    unfolding f(1) rcv_inv_fields(1) [OF i'(2)] by (rule sdiff_of_nat) (use rcv_inv_fields(2) [OF i'(2)] f(2) small(1) in linarith)+
  then show ?thesis using x(1) i'(1) by (intro bexI [of _ x]) simp_all
qed

section \<open>A sender that stays silent\<close>

definition stalled :: "stream \<Rightarrow> bool" where
  "stalled s \<longleftrightarrow> snd_nxt s = snd_una s + 1 \<and> sg_sacked (sbuf s (slot (snd_una s))) \<and> peer_rwnd s = 0"

lemma pump_stalled: "stalled s \<Longrightarrow> pump_send now s = (s, [])"
proof -
  assume st: "stalled s"
  then have "pump_win s = 1" by (auto simp: stalled_def pump_win_def Let_def word_gt_0 STREAM_WIN_MAX_def)
  then show ?thesis using st unfolding pump_send_def by (subst pump_loop.simps) (simp add: stalled_def)
qed

lemma retransmit_stalled: "stalled s \<Longrightarrow> retransmit_range now limit s = (s, [])"
proof -
  assume st: "stalled s"
  then have "retransmit_loop now limit (snd_una s + 1) s = (s, [])" by (subst retransmit_loop.simps) (simp add: stalled_def)
  then show ?thesis using st unfolding retransmit_range_def by (subst retransmit_loop.simps) (simp add: stalled_def Let_def)
qed

fun is_input :: "stream_op \<Rightarrow> bool" where
  "is_input (SInput x now) = True"
| "is_input _ = False"

lemma stalled_step:
  assumes "stalled (ep_s e)" "\<not> is_input x"
  shows "stalled (ep_s (ep_do x e)) \<and> ep_sent (ep_do x e) = ep_sent e"
proof (cases x)
  case (SWrite d now)
  let ?s = "(ep_s e)\<lparr>pend := ring_put PEND_CAP (take (if length d < PEND_CAP - rg_count (pend (ep_s e)) then length d
    else PEND_CAP - rg_count (pend (ep_s e))) d) (pend (ep_s e))\<rparr>"
  have "stalled ?s" using assms(1) by (simp add: stalled_def)
  then show ?thesis using pump_stalled [of ?s now] by (simp add: SWrite stream_write_def Let_def ep_emit_def)
next
  case (SRead n)
  then show ?thesis using assms(1) by (simp add: stream_read_def Let_def stalled_def)
next
  case (STick now)
  then show ?thesis using assms(1) pump_stalled [OF assms(1), of now] retransmit_stalled [OF assms(1)]
    by (simp add: stream_tick_def Let_def ep_emit_def stalled_def)
next
  case (SFinish now)
  have "stalled ((ep_s e)\<lparr>fin_queued := True\<rparr>)" using assms(1) by (simp add: stalled_def)
  then show ?thesis using pump_stalled [of "(ep_s e)\<lparr>fin_queued := True\<rparr>" now] by (simp add: SFinish stream_finish_def ep_emit_def)
qed (use assms(2) in simp)

text \<open>
  A sender whose only segment in flight is selectively acknowledged but not cumulatively,
  and whose peer advertised a closed window, sends no datagram until one arrives, however much
  time passes and whatever is written: the timeout skips acknowledged segments and the window
  admits no new one. A receiver that buffered the segment but had no room to deliver it
  sends nothing when its application reads, so only an inbound datagram can end this.
\<close>
theorem stream_sacked_stall:
  assumes "snd_nxt (ep_s e) = snd_una (ep_s e) + 1" "sg_sacked (sbuf (ep_s e) (slot (snd_una (ep_s e))))" "peer_rwnd (ep_s e) = 0"
    and "list_all (\<lambda>x. \<not> is_input x) ops"
  shows "ep_sent (fold ep_do ops e) = ep_sent e"
proof -
  have "stalled (ep_s e) \<Longrightarrow> list_all (\<lambda>x. \<not> is_input x) ops \<Longrightarrow> ep_sent (fold ep_do ops e) = ep_sent e"
    using stalled_step by (induction ops arbitrary: e) (simp, fastforce)
  then show ?thesis using assms by (simp add: stalled_def)
qed

end
