(* ===== verification/Norn_Streammux.thy ===== *)
theory Norn_Streammux
  imports Norn_Stream_Bounds
begin

text \<open>
  Many logical streams over one channel, \<open>src/libnorn/streammux.c\<close>. The table of logical
  streams is a list of \<open>STREAMMUX_MAX\<close> slots; the frames handed to the mux's send callback
  are returned in order. The back references of a slot to its mux and of the stream's
  callback to its slot are the identifier that is put in front of each segment.
\<close>

section \<open>The code\<close>

definition STREAMMUX_MAX :: nat where "STREAMMUX_MAX = 16"
definition STREAMMUX_FRAME :: nat where "STREAMMUX_FRAME = 2"

record lstream =
  ls_used :: bool
  ls_sid :: u16
  ls_st :: stream

type_synonym streammux = "lstream list"

definition lstream_send :: "u16 \<Rightarrow> bytes \<Rightarrow> bytes list" where
  "lstream_send sid sg = (if length sg > STREAM_SEG_MAX then [] else [be16 sid @ sg])"

definition lstream_sends :: "u16 \<Rightarrow> bytes list \<Rightarrow> bytes list" where
  "lstream_sends sid outs = concat (map (lstream_send sid) outs)"

definition ls_empty :: lstream where
  "ls_empty = \<lparr>ls_used = False, ls_sid = 0, ls_st = stream_new\<rparr>"

definition streammux_new :: streammux where
  "streammux_new = replicate STREAMMUX_MAX ls_empty"

definition mux_find :: "streammux \<Rightarrow> u16 \<Rightarrow> nat option" where
  "mux_find m sid = find_idx (\<lambda>ls. ls_used ls \<and> ls_sid ls = sid) m"

definition ls_fill :: "u16 \<Rightarrow> stream \<Rightarrow> lstream \<Rightarrow> lstream" where
  "ls_fill sid st ls = ls\<lparr>ls_used := True, ls_sid := sid, ls_st := st\<rparr>"

definition ls_set :: "stream \<Rightarrow> lstream \<Rightarrow> lstream" where
  "ls_set st ls = ls\<lparr>ls_st := st\<rparr>"

definition ls_clear :: "lstream \<Rightarrow> lstream" where
  "ls_clear ls = ls\<lparr>ls_used := False\<rparr>"

definition open_stream :: "streammux \<Rightarrow> u16 \<Rightarrow> (nat \<times> streammux) option" where
  "open_stream m sid =
     (case mux_find m sid of
        Some i \<Rightarrow> Some (i, m)
      | None \<Rightarrow>
          (case find_idx (\<lambda>ls. \<not> ls_used ls) m of
             Some i \<Rightarrow> Some (i, m[i := ls_fill sid stream_new (m ! i)])
           | None \<Rightarrow> None))"

definition streammux_open :: "streammux \<Rightarrow> u16 \<Rightarrow> int \<times> streammux" where
  "streammux_open m sid = (case open_stream m sid of Some (i, m') \<Rightarrow> (0, m') | None \<Rightarrow> (-1, m))"

definition streammux_write :: "streammux \<Rightarrow> u16 \<Rightarrow> bytes \<Rightarrow> u32 \<Rightarrow> int \<times> streammux \<times> bytes list" where
  "streammux_write m sid dat now =
     (case open_stream m sid of
        None \<Rightarrow> (-1, m, [])
      | Some (i, m1) \<Rightarrow>
          let (n, s, outs) = stream_write dat now (ls_st (m1 ! i))
          in (n, m1[i := ls_set s (m1 ! i)], lstream_sends sid outs))"

definition streammux_read :: "streammux \<Rightarrow> u16 \<Rightarrow> nat \<Rightarrow> bytes \<times> streammux" where
  "streammux_read m sid cap =
     (case mux_find m sid of
        None \<Rightarrow> ([], m)
      | Some i \<Rightarrow> let (d, s) = stream_read cap (ls_st (m ! i)) in (d, m[i := ls_set s (m ! i)]))"

definition streammux_input :: "streammux \<Rightarrow> bytes \<Rightarrow> u32 \<Rightarrow> streammux \<times> bytes list" where
  "streammux_input m sg now =
     (if length sg < STREAMMUX_FRAME then (m, [])
      else let sid = un_be16 sg in
        case open_stream m sid of
          None \<Rightarrow> (m, [])
        | Some (i, m1) \<Rightarrow>
            let (s, outs) = stream_input (drop STREAMMUX_FRAME sg) now (ls_st (m1 ! i))
            in (m1[i := ls_set s (m1 ! i)], lstream_sends sid outs))"

definition tick_slot :: "u32 \<Rightarrow> lstream \<Rightarrow> lstream \<times> bytes list" where
  "tick_slot now ls =
     (if ls_used ls then let (s, outs) = stream_tick now (ls_st ls) in (ls_set s ls, lstream_sends (ls_sid ls) outs)
      else (ls, []))"

definition streammux_tick :: "streammux \<Rightarrow> u32 \<Rightarrow> streammux \<times> bytes list" where
  "streammux_tick m now = (map (fst \<circ> tick_slot now) m, concat (map (snd \<circ> tick_slot now) m))"

definition streammux_readable :: "streammux \<Rightarrow> u16 \<Rightarrow> nat" where
  "streammux_readable m sid = (case mux_find m sid of None \<Rightarrow> 0 | Some i \<Rightarrow> stream_readable (ls_st (m ! i)))"

definition streammux_count :: "streammux \<Rightarrow> nat" where
  "streammux_count m = length (filter ls_used m)"

definition streammux_finish :: "streammux \<Rightarrow> u16 \<Rightarrow> u32 \<Rightarrow> streammux \<times> bytes list" where
  "streammux_finish m sid now =
     (case open_stream m sid of
        None \<Rightarrow> (m, [])
      | Some (i, m1) \<Rightarrow>
          let (s, outs) = stream_finish now (ls_st (m1 ! i))
          in (m1[i := ls_set s (m1 ! i)], lstream_sends sid outs))"

definition streammux_peer_finished :: "streammux \<Rightarrow> u16 \<Rightarrow> bool" where
  "streammux_peer_finished m sid = (case mux_find m sid of None \<Rightarrow> True | Some i \<Rightarrow> stream_peer_finished (ls_st (m ! i)))"

definition streammux_send_done :: "streammux \<Rightarrow> u16 \<Rightarrow> bool" where
  "streammux_send_done m sid = (case mux_find m sid of None \<Rightarrow> True | Some i \<Rightarrow> stream_send_done (ls_st (m ! i)))"

section \<open>The table as a map from identifiers to streams\<close>

interpretation mxt: slot_table ls_used ls_sid ls_st ls_fill ls_set ls_clear
  by unfold_locales (simp_all add: ls_fill_def ls_set_def ls_clear_def)

definition mux_map :: "streammux \<Rightarrow> u16 \<Rightarrow> stream option" where
  "mux_map = slot_map ls_used ls_sid ls_st"

definition mux_wf :: "streammux \<Rightarrow> bool" where
  "mux_wf m \<longleftrightarrow> length m = STREAMMUX_MAX \<and> slots_distinct ls_used ls_sid m"

definition mux_get :: "streammux \<Rightarrow> u16 \<Rightarrow> stream" where
  "mux_get m sid = (case mux_map m sid of None \<Rightarrow> stream_new | Some s \<Rightarrow> s)"

lemma mux_find_map:
  "mux_find m sid = None \<Longrightarrow> mux_map m sid = None"
  "mux_find m sid = Some i \<Longrightarrow> mux_map m sid = Some (ls_st (m ! i))"
  by (simp_all add: mux_find_def mux_map_def slot_map_def del: find_idx_None_iff)

lemma open_stream_spec:
  assumes wf: "mux_wf m" and o: "open_stream m sid = Some (i, m1)"
  shows "mux_wf m1" "mux_map m1 = (mux_map m)(sid \<mapsto> mux_get m sid)" "mux_find m1 sid = Some i" "ls_st (m1 ! i) = mux_get m sid"
proof -
  have *: "mux_wf m1 \<and> mux_map m1 = (mux_map m)(sid \<mapsto> mux_get m sid) \<and> mux_find m1 sid = Some i"
  proof (cases "mux_find m sid")
    case (Some j)
    then show ?thesis using wf o mux_find_map(2) [OF Some] by (auto simp: open_stream_def mux_get_def)
  next
    case None
    then obtain f: "find_idx (\<lambda>ls. \<not> ls_used ls) m = Some i" and m1: "m1 = m[i := ls_fill sid stream_new (m ! i)]"
      using o by (auto simp: open_stream_def split: option.splits)
    have i: "i < length m" "\<not> ls_used (m ! i)" using find_idx_SomeD [OF f] by simp_all
    have n: "slot_map ls_used ls_sid ls_st m sid = None" using mux_find_map(1) [OF None] by (simp add: mux_map_def)
    have "mux_wf m1" using mxt.distinct_insert_free [OF i n] wf by (simp add: mux_wf_def m1)
    moreover have mm: "mux_map m1 = (mux_map m)(sid \<mapsto> mux_get m sid)"
      using mxt.map_insert_free [OF i n, of stream_new] n by (simp add: mux_map_def m1 mux_get_def)
    moreover have "mux_find m1 sid = Some i"
    proof -
      have none: "\<forall>e \<in> set m. \<not> (ls_used e \<and> ls_sid e = sid)" using None by (simp add: mux_find_def)
      obtain k where k: "mux_find m1 sid = Some k" using mux_find_map(1) [of m1 sid] mm by (cases "mux_find m1 sid") auto
      then have "k < length m1" "ls_used (m1 ! k) \<and> ls_sid (m1 ! k) = sid" using find_idx_SomeD unfolding mux_find_def by blast+
      then have "k = i" using none by (cases "k = i") (auto simp: m1 dest: nth_mem)
      then show ?thesis using k by simp
    qed
    ultimately show ?thesis by blast
  qed
  then show "mux_wf m1" "mux_map m1 = (mux_map m)(sid \<mapsto> mux_get m sid)" "mux_find m1 sid = Some i" by blast+
  then show "ls_st (m1 ! i) = mux_get m sid" using mux_find_map(2) [of m1 sid i] by simp
qed

lemma set_stream_spec:
  assumes "mux_wf m" "mux_find m sid = Some i"
  shows "mux_wf (m[i := ls_set s (m ! i)])" "mux_map (m[i := ls_set s (m ! i)]) = (mux_map m)(sid \<mapsto> s)"
proof -
  have f: "find_idx (\<lambda>ls. ls_used ls \<and> ls_sid ls = sid) m = Some i" using assms(2) by (simp add: mux_find_def)
  show "mux_wf (m[i := ls_set s (m ! i)])" using mxt.distinct_overwrite [OF find_idx_less [OF f]] assms(1) by (simp add: mux_wf_def)
  show "mux_map (m[i := ls_set s (m ! i)]) = (mux_map m)(sid \<mapsto> s)" using mxt.map_overwrite [OF f] by (simp add: mux_map_def)
qed

section \<open>Frames\<close>

definition unframe :: "u16 \<Rightarrow> bytes list \<Rightarrow> bytes list" where
  "unframe sid xs = map (drop STREAMMUX_FRAME) (filter (\<lambda>x. take STREAMMUX_FRAME x = be16 sid) xs)"

lemma unframe_append [simp]: "unframe sid (xs @ ys) = unframe sid xs @ unframe sid ys" "unframe sid [] = []"
  by (simp_all add: unframe_def)

lemma be16_inj [simp]: "be16 a = be16 b \<longleftrightarrow> a = b"
  by (metis append_Nil2 un_be16_be16)

lemma unframe_sends:
  assumes "\<forall>x \<in> set outs. length x \<le> STREAM_SEG_MAX"
  shows "unframe sid (lstream_sends sid' outs) = (if sid = sid' then outs else [])"
  using assms by (induction outs) (auto simp: unframe_def lstream_sends_def lstream_send_def STREAMMUX_FRAME_def)

lemma un_be16_frame: "STREAMMUX_FRAME \<le> length x \<Longrightarrow> be16 (un_be16 x) = take STREAMMUX_FRAME x"
  by (auto simp: STREAMMUX_FRAME_def numeral_2_eq_2 Suc_le_length_iff be16_un_be16)

section \<open>Two muxes and a network\<close>

datatype mux_op =
  MOpen u16
| MWrite u16 bytes u32
| MRead u16 nat
| MTick u32
| MFinish u16 u32
| MInput bytes u32

record mux_ep =
  mp_m :: streammux
  mp_sent :: "bytes list"
  mp_wrote :: "u16 \<Rightarrow> bytes"
  mp_read :: "u16 \<Rightarrow> bytes"
  mp_fins :: "u16 \<Rightarrow> nat"
  mp_fin_at :: "u16 \<Rightarrow> bytes option"

definition mp_new :: mux_ep where
  "mp_new = \<lparr>mp_m = streammux_new, mp_sent = [], mp_wrote = (\<lambda>_. []), mp_read = (\<lambda>_. []), mp_fins = (\<lambda>_. 0), mp_fin_at = (\<lambda>_. None)\<rparr>"

definition mp_emit :: "streammux \<times> bytes list \<Rightarrow> mux_ep \<Rightarrow> mux_ep" where
  "mp_emit res e = e\<lparr>mp_m := fst res, mp_sent := mp_sent e @ snd res\<rparr>"

fun mp_do :: "mux_op \<Rightarrow> mux_ep \<Rightarrow> mux_ep" where
  "mp_do (MOpen sid) e = e\<lparr>mp_m := snd (streammux_open (mp_m e) sid)\<rparr>"
| "mp_do (MWrite sid d now) e =
     (let (n, res) = streammux_write (mp_m e) sid d now
      in mp_emit res (e\<lparr>mp_wrote := (mp_wrote e)(sid := mp_wrote e sid @ take (nat n) d)\<rparr>))"
| "mp_do (MRead sid n) e =
     (let (d, m) = streammux_read (mp_m e) sid n
      in e\<lparr>mp_m := m, mp_read := (mp_read e)(sid := mp_read e sid @ d)\<rparr>)"
| "mp_do (MTick now) e = mp_emit (streammux_tick (mp_m e) now) e"
| "mp_do (MFinish sid now) e =
     (if open_stream (mp_m e) sid = None then e
      else mp_emit (streammux_finish (mp_m e) sid now)
        (e\<lparr>mp_fins := (mp_fins e)(sid := mp_fins e sid + 1),
           mp_fin_at := (mp_fin_at e)(sid := (case mp_fin_at e sid of None \<Rightarrow> Some (mp_wrote e sid) | Some w \<Rightarrow> Some w))\<rparr>))"
| "mp_do (MInput x now) e = mp_emit (streammux_input (mp_m e) x now) e"

fun mux_op_ok :: "mux_op \<Rightarrow> mux_ep \<Rightarrow> bool" where
  "mux_op_ok (MInput x now) f \<longleftrightarrow> x \<in> set (mp_sent f)"
| "mux_op_ok _ f \<longleftrightarrow> True"

inductive mux_duplex :: "mux_ep \<Rightarrow> mux_ep \<Rightarrow> bool" where
  mux_start: "mux_duplex mp_new mp_new"
| mux_left: "mux_duplex a b \<Longrightarrow> mux_op_ok x b \<Longrightarrow> mux_duplex (mp_do x a) b"
| mux_right: "mux_duplex a b \<Longrightarrow> mux_op_ok x a \<Longrightarrow> mux_duplex a (mp_do x b)"

definition mp_proj :: "u16 \<Rightarrow> mux_ep \<Rightarrow> endpoint" where
  "mp_proj sid e = \<lparr>ep_s = mux_get (mp_m e) sid, ep_sent = unframe sid (mp_sent e), ep_wrote = mp_wrote e sid,
     ep_read = mp_read e sid, ep_fins = mp_fins e sid, ep_fin_at = mp_fin_at e sid\<rparr>"

definition mp_ok :: "mux_ep \<Rightarrow> bool" where
  "mp_ok e \<longleftrightarrow> mux_wf (mp_m e) \<and> (\<forall>sid. bnd (mux_get (mp_m e) sid))"

section \<open>Each logical stream is a stream\<close>

text \<open>
  A step of the mux is, for each identifier, either no step or a step of that stream:
  \<open>sim_step\<close> relates the projections before and after.
\<close>

definition sim_step :: "mux_op \<Rightarrow> u16 \<Rightarrow> endpoint \<Rightarrow> endpoint \<Rightarrow> bool" where
  "sim_step x sid e e' \<longleftrightarrow>
     e' = e \<or> (\<exists>op. e' = ep_do op e \<and> (\<forall>y now. op = SInput y now \<longrightarrow>
        (\<exists>z now'. x = MInput z now' \<and> STREAMMUX_FRAME \<le> length z \<and> un_be16 z = sid \<and> y = drop STREAMMUX_FRAME z)))"

lemma sim_stay: "e' = e \<Longrightarrow> sim_step x sid e e'"
  by (simp add: sim_step_def)

lemma mux_get_upd [simp]: "mux_map m' = (mux_map m)(sid \<mapsto> s) \<Longrightarrow> mux_get m' k = (if k = sid then s else mux_get m k)"
  by (simp add: mux_get_def)

lemma open_set_spec:
  assumes "mux_wf m" "open_stream m sid = Some (i, m1)"
  shows "mux_wf (m1[i := ls_set s (m1 ! i)])" "mux_get (m1[i := ls_set s (m1 ! i)]) k = (if k = sid then s else mux_get m k)"
  "ls_st (m1 ! i) = mux_get m sid"
  using open_stream_spec [OF assms] set_stream_spec [of m1 sid i s] by simp_all

lemma sim_at:
  assumes "e' = (if sid = sid0 then ep_do op e else e)" "\<And>y now. op \<noteq> SInput y now"
  shows "sim_step x sid e e'"
  using assms unfolding sim_step_def by metis

lemma mp_do_write:
  assumes "mp_ok e"
  shows "mp_ok (mp_do (MWrite sid0 d now) e) \<and> sim_step (MWrite sid0 d now) sid (mp_proj sid e) (mp_proj sid (mp_do (MWrite sid0 d now) e))"
proof (cases "open_stream (mp_m e) sid0")
  case None
  then have "mp_do (MWrite sid0 d now) e = e" by (simp add: streammux_write_def mp_emit_def)
  then show ?thesis using assms by (simp add: sim_stay)
next
  case (Some im)
  obtain i m1 where im: "im = (i, m1)" by fastforce
  let ?w = "stream_write d now (mux_get (mp_m e) sid0)"
  have b: "bnd (mux_get (mp_m e) sid0)" "mux_wf (mp_m e)" using assms by (simp_all add: mp_ok_def)
  note o = open_set_spec [OF b(2) Some [unfolded im]]
  have ob: "bnd (fst (snd ?w))" "\<forall>x \<in> set (snd (snd ?w)). length x \<le> STREAM_SEG_MAX"
    using stream_write_bnd [OF b(1), of d now] by (simp_all add: outs_bnd_def)
  have e: "streammux_write (mp_m e) sid0 d now =
      (fst ?w, m1[i := ls_set (fst (snd ?w)) (m1 ! i)], lstream_sends sid0 (snd (snd ?w)))"
    using Some im o(3) by (simp add: streammux_write_def split_beta Let_def)
  have "mp_ok (mp_do (MWrite sid0 d now) e)" using assms o(1,2) ob(1) by (simp add: e mp_emit_def mp_ok_def)
  moreover have "mp_proj sid (mp_do (MWrite sid0 d now) e) =
      (if sid = sid0 then ep_do (SWrite d now) (mp_proj sid e) else mp_proj sid e)"
    using o(2) ob(2) by (simp add: e mp_emit_def mp_proj_def unframe_sends ep_emit_def split_beta Let_def)
  ultimately show ?thesis by (blast intro: sim_at)
qed

lemma mp_do_finish:
  assumes "mp_ok e"
  shows "mp_ok (mp_do (MFinish sid0 now) e) \<and> sim_step (MFinish sid0 now) sid (mp_proj sid e) (mp_proj sid (mp_do (MFinish sid0 now) e))"
proof (cases "open_stream (mp_m e) sid0")
  case None
  then show ?thesis using assms by (simp add: sim_stay)
next
  case (Some im)
  obtain i m1 where im: "im = (i, m1)" by fastforce
  let ?w = "stream_finish now (mux_get (mp_m e) sid0)"
  have b: "bnd (mux_get (mp_m e) sid0)" "mux_wf (mp_m e)" using assms by (simp_all add: mp_ok_def)
  note o = open_set_spec [OF b(2) Some [unfolded im]]
  have ob: "bnd (fst ?w)" "\<forall>x \<in> set (snd ?w). length x \<le> STREAM_SEG_MAX"
    using stream_finish_bnd [OF b(1), of now] by (simp_all add: outs_bnd_def)
  have e: "streammux_finish (mp_m e) sid0 now = (m1[i := ls_set (fst ?w) (m1 ! i)], lstream_sends sid0 (snd ?w))"
    using Some im o(3) by (simp add: streammux_finish_def split_beta Let_def)
  have "mp_ok (mp_do (MFinish sid0 now) e)" using assms o(1,2) ob(1) Some by (simp add: e mp_emit_def mp_ok_def)
  moreover have "mp_proj sid (mp_do (MFinish sid0 now) e) =
      (if sid = sid0 then ep_do (SFinish now) (mp_proj sid e) else mp_proj sid e)"
    using o(2) ob(2) Some by (simp add: e mp_emit_def mp_proj_def unframe_sends ep_emit_def cong: option.case_cong)
  ultimately show ?thesis by (blast intro: sim_at)
qed

lemma mp_do_input:
  assumes "mp_ok e"
  shows "mp_ok (mp_do (MInput x now) e) \<and> sim_step (MInput x now) sid (mp_proj sid e) (mp_proj sid (mp_do (MInput x now) e))"
proof (cases "length x < STREAMMUX_FRAME \<or> open_stream (mp_m e) (un_be16 x) = None")
  case True
  then have "mp_do (MInput x now) e = e" by (auto simp: streammux_input_def mp_emit_def)
  then show ?thesis using assms by (simp add: sim_stay)
next
  case False
  then obtain i m1 where im: "open_stream (mp_m e) (un_be16 x) = Some (i, m1)" by auto
  let ?sid = "un_be16 x" and ?w = "stream_input (drop STREAMMUX_FRAME x) now (mux_get (mp_m e) (un_be16 x))"
  have b: "bnd (mux_get (mp_m e) ?sid)" "mux_wf (mp_m e)" using assms by (simp_all add: mp_ok_def)
  note o = open_set_spec [OF b(2) im]
  have ob: "bnd (fst ?w)" "\<forall>x \<in> set (snd ?w). length x \<le> STREAM_SEG_MAX"
    using stream_input_bnd [OF b(1), of "drop STREAMMUX_FRAME x" now] by (simp_all add: outs_bnd_def)
  have e: "streammux_input (mp_m e) x now = (m1[i := ls_set (fst ?w) (m1 ! i)], lstream_sends ?sid (snd ?w))"
    using im o(3) False by (simp add: streammux_input_def split_beta Let_def)
  have "mp_ok (mp_do (MInput x now) e)" using assms o(1,2) ob(1) by (simp add: e mp_emit_def mp_ok_def)
  moreover have "mp_proj sid (mp_do (MInput x now) e) =
      (if sid = ?sid then ep_do (SInput (drop STREAMMUX_FRAME x) now) (mp_proj sid e) else mp_proj sid e)"
    using o(2) ob(2) by (simp add: e mp_emit_def mp_proj_def unframe_sends ep_emit_def)
  ultimately show ?thesis unfolding sim_step_def using False by (metis not_less stream_op.inject(5))
qed

lemma mp_do_open:
  assumes "mp_ok e"
  shows "mp_ok (mp_do (MOpen sid0) e) \<and> sim_step (MOpen sid0) sid (mp_proj sid e) (mp_proj sid (mp_do (MOpen sid0) e))"
proof (cases "open_stream (mp_m e) sid0")
  case None
  then show ?thesis using assms by (simp add: streammux_open_def sim_stay)
next
  case (Some im)
  obtain i m1 where im: "im = (i, m1)" by fastforce
  have "mux_wf (mp_m e)" using assms by (simp add: mp_ok_def)
  note o = open_stream_spec [OF this Some [unfolded im]]
  have "mux_get m1 k = mux_get (mp_m e) k" for k using o(2) by simp
  then show ?thesis using assms Some im o(1) by (simp add: streammux_open_def mp_ok_def mp_proj_def sim_stay)
qed

lemma mp_do_read:
  assumes "mp_ok e"
  shows "mp_ok (mp_do (MRead sid0 n) e) \<and> sim_step (MRead sid0 n) sid (mp_proj sid e) (mp_proj sid (mp_do (MRead sid0 n) e))"
proof (cases "mux_find (mp_m e) sid0")
  case None
  then have "mp_do (MRead sid0 n) e = e" by (simp add: streammux_read_def)
  then show ?thesis using assms by (simp add: sim_stay)
next
  case (Some i)
  let ?w = "stream_read n (mux_get (mp_m e) sid0)"
  have b: "bnd (mux_get (mp_m e) sid0)" "mux_wf (mp_m e)" using assms by (simp_all add: mp_ok_def)
  have g: "ls_st (mp_m e ! i) = mux_get (mp_m e) sid0" using mux_find_map(2) [OF Some] by (simp add: mux_get_def)
  note o = set_stream_spec [OF b(2) Some, of "snd ?w"]
  have e: "streammux_read (mp_m e) sid0 n = (fst ?w, (mp_m e)[i := ls_set (snd ?w) (mp_m e ! i)])"
    using Some g by (simp add: streammux_read_def split_beta Let_def)
  have k: "mux_get ((mp_m e)[i := ls_set (snd ?w) (mp_m e ! i)]) k = (if k = sid0 then snd ?w else mux_get (mp_m e) k)" for k
    using o(2) by simp
  have "mp_ok (mp_do (MRead sid0 n) e)" using assms o(1) k stream_read_bnd [OF b(1)] by (simp add: e mp_ok_def)
  moreover have "mp_proj sid (mp_do (MRead sid0 n) e) = (if sid = sid0 then ep_do (SRead n) (mp_proj sid e) else mp_proj sid e)"
    using k by (simp add: e mp_proj_def split_beta Let_def)
  ultimately show ?thesis by (blast intro: sim_at)
qed

lemma tick_slot_frame: "ls_used (fst (tick_slot now ls)) = ls_used ls" "ls_sid (fst (tick_slot now ls)) = ls_sid ls"
  "ls_st (fst (tick_slot now ls)) = (if ls_used ls then fst (stream_tick now (ls_st ls)) else ls_st ls)"
  "snd (tick_slot now ls) = (if ls_used ls then lstream_sends (ls_sid ls) (snd (stream_tick now (ls_st ls))) else [])"
  by (simp_all add: tick_slot_def ls_set_def split_beta Let_def)

lemma tick_map:
  "slot_map ls_used ls_sid ls_st (map (fst \<circ> tick_slot now) m) sid =
     map_option (\<lambda>s. fst (stream_tick now s)) (slot_map ls_used ls_sid ls_st m sid)"
  by (induction m) (auto simp: tick_slot_frame)

lemma tick_distinct: "slots_distinct ls_used ls_sid (map (fst \<circ> tick_slot now) m) = slots_distinct ls_used ls_sid m"
  by (induction m) (auto simp: tick_slot_frame)

lemma tick_outs:
  assumes "slots_distinct ls_used ls_sid m" "\<forall>ls \<in> set m. ls_used ls \<longrightarrow> bnd (ls_st ls)"
  shows "unframe sid (concat (map (snd \<circ> tick_slot now) m)) =
    (case slot_map ls_used ls_sid ls_st m sid of None \<Rightarrow> [] | Some s \<Rightarrow> snd (stream_tick now s))"
  using assms
proof (induction m)
  case (Cons ls m)
  let ?o = "snd (stream_tick now (ls_st ls))"
  have h: "unframe sid (snd (tick_slot now ls)) = (if ls_used ls \<and> sid = ls_sid ls then ?o else [])"
  proof (cases "ls_used ls")
    case True
    then have "\<forall>x \<in> set ?o. length x \<le> STREAM_SEG_MAX" using stream_tick_bnd [of "ls_st ls" now] Cons.prems(2) by (simp add: outs_bnd_def)
    then show ?thesis using True by (simp add: tick_slot_frame unframe_sends)
  qed (simp add: tick_slot_frame)
  have "ls_used ls \<Longrightarrow> slot_map ls_used ls_sid ls_st m (ls_sid ls) = None"
    using Cons.prems(1) by (auto simp: slot_map_None_iff)
  then show ?case using Cons h by (auto split: option.split)
qed simp

lemma mux_get_used: "slots_distinct ls_used ls_sid m \<Longrightarrow> ls \<in> set m \<Longrightarrow> ls_used ls \<Longrightarrow> mux_get m (ls_sid ls) = ls_st ls"
  using slot_map_of_used [of ls_used ls_sid m ls ls_st] by (simp add: mux_get_def mux_map_def)

lemma mp_do_tick:
  assumes "mp_ok e"
  shows "mp_ok (mp_do (MTick now) e) \<and> sim_step (MTick now) sid (mp_proj sid e) (mp_proj sid (mp_do (MTick now) e))"
proof -
  let ?m = "mp_m e"
  have d: "slots_distinct ls_used ls_sid ?m" "mux_wf ?m" using assms by (simp_all add: mp_ok_def mux_wf_def)
  have b: "\<forall>ls \<in> set ?m. ls_used ls \<longrightarrow> bnd (ls_st ls)" using assms mux_get_used [OF d(1)] unfolding mp_ok_def by metis
  let ?m' = "fst (streammux_tick ?m now)"
  have wf: "mux_wf ?m'" using d by (simp add: streammux_tick_def mux_wf_def tick_distinct)
  have g: "mux_map ?m' k = map_option (\<lambda>s. fst (stream_tick now s)) (mux_map ?m k)" for k
    by (simp add: streammux_tick_def mux_map_def tick_map)
  have "bnd (mux_get ?m' k)" for k
  proof (cases "mux_map ?m k")
    case (Some s)
    then have "bnd s" using assms unfolding mp_ok_def mux_get_def by (metis option.simps(5))
    then show ?thesis using Some stream_tick_bnd [of s now] by (simp add: mux_get_def g outs_bnd_def)
  qed (simp add: mux_get_def g stream_new_bnd)
  then have "mp_ok (mp_do (MTick now) e)" using wf by (simp add: mp_ok_def mp_emit_def)
  moreover have "mp_proj sid (mp_do (MTick now) e) = (if mux_map ?m sid \<noteq> None then ep_do (STick now) (mp_proj sid e) else mp_proj sid e)"
    using tick_outs [OF d(1) b, of sid now] g [of sid]
    by (auto simp: mp_emit_def mp_proj_def ep_emit_def mux_get_def streammux_tick_def mux_map_def)
  ultimately show ?thesis unfolding sim_step_def by (metis stream_op.distinct)
qed

lemma mp_do_sim:
  assumes ok: "mp_ok e"
  shows "mp_ok (mp_do x e) \<and> sim_step x sid (mp_proj sid e) (mp_proj sid (mp_do x e))"
proof (cases x)
  case (MOpen a)
  show ?thesis unfolding MOpen by (rule mp_do_open [OF ok])
next
  case (MWrite a b c)
  show ?thesis unfolding MWrite by (rule mp_do_write [OF ok])
next
  case (MRead a b)
  show ?thesis unfolding MRead by (rule mp_do_read [OF ok])
next
  case (MTick a)
  show ?thesis unfolding MTick by (rule mp_do_tick [OF ok])
next
  case (MFinish a b)
  show ?thesis unfolding MFinish by (rule mp_do_finish [OF ok])
next
  case (MInput a b)
  show ?thesis unfolding MInput by (rule mp_do_input [OF ok])
qed

lemma mp_new_proj: "mp_proj sid mp_new = ep_new" "mp_ok mp_new"
proof -
  have "mux_map streammux_new = (\<lambda>_. None)"
    by (rule ext) (simp add: mux_map_def slot_map_None_iff streammux_new_def ls_empty_def)
  moreover have "mux_wf streammux_new" by (simp add: mux_wf_def slots_distinct_def streammux_new_def ls_empty_def)
  ultimately show "mp_proj sid mp_new = ep_new" "mp_ok mp_new"
    by (simp_all add: mp_proj_def mp_new_def ep_new_def mux_get_def mp_ok_def stream_new_bnd)
qed

lemma sim_duplex:
  assumes "duplex (mp_proj sid a) f" "sim_step x sid (mp_proj sid a) e'" "mux_op_ok x b" "f = mp_proj sid b"
  shows "duplex e' f"
proof (cases "e' = mp_proj sid a")
  case False
  then obtain op where op: "e' = ep_do op (mp_proj sid a)" "\<forall>y now. op = SInput y now \<longrightarrow>
      (\<exists>z now'. x = MInput z now' \<and> STREAMMUX_FRAME \<le> length z \<and> un_be16 z = sid \<and> y = drop STREAMMUX_FRAME z)"
    using assms(2) unfolding sim_step_def by blast
  have "op_ok op f"
  proof (cases op)
    case (SInput y now)
    then obtain z now' where z: "x = MInput z now'" "STREAMMUX_FRAME \<le> length z" "un_be16 z = sid" "y = drop STREAMMUX_FRAME z" using op(2) by blast
    then have "take STREAMMUX_FRAME z = be16 sid" using un_be16_frame [of z] by simp
    then show ?thesis using z assms(3,4) SInput by (auto simp: mp_proj_def unframe_def)
  qed simp_all
  then show ?thesis using assms(1) op(1) duplex_left by blast
qed (use assms(1) in simp)

lemma mux_duplex_proj: "mux_duplex a b \<Longrightarrow> mp_ok a \<and> mp_ok b \<and> (\<forall>sid. duplex (mp_proj sid a) (mp_proj sid b))"
proof (induction rule: mux_duplex.induct)
  case mux_start
  then show ?case using mp_new_proj duplex_start by simp
next
  case (mux_left a b x)
  then show ?case using mp_do_sim sim_duplex by blast
next
  case (mux_right a b x)
  then show ?case using mp_do_sim sim_duplex duplex_sym by blast
qed

section \<open>Property\<close>

definition mux_delivered :: "mux_ep \<Rightarrow> u16 \<Rightarrow> bytes" where
  "mux_delivered e sid = mp_read e sid @ ring_list DELIV_CAP (deliv (mux_get (mp_m e) sid))"

text \<open>
  C29: multiplexing keeps the streams apart. Two muxes share one channel whose datagrams may
  be lost, repeated, delayed and reordered. For every identifier the bytes delivered on that
  logical stream are a prefix of the bytes the peer's application was accepted on the same
  identifier, whatever happens on the other streams; and once the stream's end is reported
  they contain everything written before it was first finished.
\<close>
theorem streammux_reliable_delivery:
  assumes "mux_duplex a b" "length (mp_wrote a sid) + mp_fins a sid < 2 ^ 31" "length (mp_wrote b sid) + mp_fins b sid < 2 ^ 31"
  shows "prefix (mux_delivered b sid) (mp_wrote a sid) \<and>
    (peer_fin (mux_get (mp_m b) sid) \<longrightarrow> (\<exists>w. mp_fin_at a sid = Some w \<and> prefix w (mux_delivered b sid)))"
proof -
  have d: "duplex (mp_proj sid a) (mp_proj sid b)" using mux_duplex_proj [OF assms(1)] by blast
  have "ep_small (mp_proj sid a)" "ep_small (mp_proj sid b)" using assms(2,3) by (simp_all add: ep_small_def mp_proj_def)
  from duplex_delivery [OF d this] show ?thesis by (simp add: mux_delivered_def delivered_def mp_proj_def)
qed

end
