(* ===== verification/Norn_Stream_Runs.thy ===== *)
theory Norn_Stream_Runs
  imports Norn_Stream_Live Norn_Streammux
begin

text \<open>
  A short run of two endpoints of \<open>stream.c\<close>: three bytes are written and the stream is
  finished, both datagrams arrive and the acknowledgement of both returns.
\<close>

lemmas stream_consts = STREAM_SEG_PAYLOAD_def STREAM_HEADER_def STREAM_WIN_MAX_def STREAM_IW_def STREAM_SSTHRESH_MIN_def
  STREAM_RTO_INIT_def STREAM_RTO_MIN_def STREAM_RTO_MAX_def STREAM_DUPACK_THRESH_def STREAM_SACK_BYTES_def
  PEND_CAP_def DELIV_CAP_def F_DATA_def F_ACK_def F_FIN_def F_SACK_def

lemmas stream_eval = stream_consts ep_new_def stream_new_def ep_emit_def stream_write_def pump_send_def pump_win_def
  next_seg_def push_seg_def ring_put_def ring_peek_def ring_drop_def ring_empty_def slot_def seg_zero_def emit_seg_def
  local_rwnd_def put32_def put16_def be32_def be16_def stream_input_def input_window_def on_ack_def buffer_seg_def
  deliver_one_def emit_ack_def sdiff_def get32_def get16_def un_be32_def un_be16_def ack_new_def rtt_update_def
  cc_on_ack_def stream_read_def stream_finish_def Let_def upt_rec pump_loop.simps deliver_loop.simps

lemma write_sack_none: "(\<And>i. \<not> sg_present (rbuf s i)) \<Longrightarrow> write_sack s = []"
proof -
  assume a: "\<And>i. \<not> sg_present (rbuf s i)"
  have "foldl (\<lambda>bm i. let q = rcv_nxt s + 1 + word_of_nat i; r = rbuf s (slot q)
                in if sg_present r \<and> sg_seq r = q then bm OR push_bit i 1 else bm) 0 is = (0::u64)" for "is"
    by (induction "is") (simp_all add: a)
  then show ?thesis by (simp add: write_sack_def)
qed

definition run_data :: bytes where "run_data = [3, 0,0,0,0, 0,0,0,0, 1,0, 7,8,9]"
definition run_fin :: bytes where "run_fin = [6, 0,0,0,1, 0,0,0,0, 1,0]"
definition run_ack :: bytes where "run_ack = [2, 0,0,0,0, 0,0,0,2, 0,255]"

definition run_a0 :: endpoint where "run_a0 = ep_do (SWrite [7, 8, 9] 100) ep_new"
definition run_a1 :: endpoint where "run_a1 = ep_do (SFinish 120) run_a0"
definition run_b1 :: endpoint where "run_b1 = ep_do (SInput run_data 150) ep_new"
definition run_b2 :: endpoint where "run_b2 = ep_do (SInput run_fin 160) run_b1"
definition run_a2 :: endpoint where "run_a2 = ep_do (SInput run_ack 200) run_a1"

lemma run_a1_sent: "ep_sent run_a1 = [run_data, run_fin]" "ep_wrote run_a1 = [7, 8, 9]" "ep_fins run_a1 = 1"
  by (simp_all add: run_a1_def run_a0_def run_data_def run_fin_def stream_eval)

lemma run_b2_sent: "run_ack \<in> set (ep_sent run_b2)" "ep_wrote run_b2 = []" "ep_fins run_b2 = 0"
  by (simp_all add: run_b2_def run_b1_def run_data_def run_fin_def run_ack_def stream_eval write_sack_none)

lemma run_b2_deliv: "delivered run_b2 = [7, 8, 9]" "peer_fin (ep_s run_b2)"
  by (simp_all add: run_b2_def run_b1_def run_data_def run_fin_def delivered_def ring_list_def stream_eval write_sack_none)

lemma run_a2_done: "stream_send_done (ep_s run_a2)" "ep_wrote run_a2 = [7, 8, 9]" "ep_fins run_a2 = 1"
  by (simp_all add: run_a2_def run_a1_def run_a0_def run_ack_def stream_send_done_def stream_eval)

lemma run_duplex: "duplex run_a2 run_b2"
proof -
  have "duplex run_a0 ep_new" unfolding run_a0_def by (rule duplex_left [OF duplex_start]) simp
  then have a1: "duplex run_a1 ep_new" unfolding run_a1_def by (rule duplex_left) simp
  then have "duplex run_a1 run_b1" unfolding run_b1_def by (rule duplex_right) (simp add: run_a1_sent)
  then have "duplex run_a1 run_b2" unfolding run_b2_def by (rule duplex_right) (simp add: run_a1_sent)
  then show ?thesis unfolding run_a2_def by (rule duplex_left) (simp add: run_b2_sent)
qed

lemma run_small: "ep_small run_a2" "ep_small run_b2"
  by (simp_all add: ep_small_def run_a2_done run_b2_sent)

lemma stream_reliable_delivery_witness:
  "prefix (delivered run_b2) (ep_wrote run_a2) \<and> (\<exists>w. ep_fin_at run_a2 = Some w \<and> prefix w [7, 8, 9]) \<and> delivered run_b2 = [7, 8, 9]"
  using stream_reliable_delivery [OF run_duplex run_small] run_b2_deliv by simp

lemma stream_send_done_delivered_witness: "\<exists>w. ep_fin_at run_a2 = Some w \<and> prefix w (delivered run_b2)"
  by (rule stream_send_done_delivered [OF run_duplex run_small run_a2_done(1)])

lemma stream_timeout_recovers_witness:
  "\<exists>x \<in> set (snd (stream_tick 500 (ep_s run_a0))). 0 < sdiff (rcv_nxt (fst (stream_input x 600 (ep_s ep_new)))) (rcv_nxt (ep_s ep_new))"
proof (rule stream_timeout_recovers)
  show "duplex run_a0 ep_new" unfolding run_a0_def by (rule duplex_left [OF duplex_start]) simp
qed (simp_all add: run_a0_def ep_small_def stream_eval)

lemma stream_sacked_stall_witness:
  "ep_sent (fold ep_do [STick 1000, SWrite [1] 2000, STick 90000]
     (run_a0\<lparr>ep_s := (ep_s run_a0)\<lparr>peer_rwnd := 0, sbuf := (sbuf (ep_s run_a0))(0 := (sbuf (ep_s run_a0) 0)\<lparr>sg_sacked := True\<rparr>)\<rparr>\<rparr>)) = [run_data]"
proof -
  have "ep_sent run_a0 = [run_data]" by (simp add: run_a0_def run_data_def stream_eval)
  moreover have "ep_sent (fold ep_do [STick 1000, SWrite [1] 2000, STick 90000]
     (run_a0\<lparr>ep_s := (ep_s run_a0)\<lparr>peer_rwnd := 0, sbuf := (sbuf (ep_s run_a0))(0 := (sbuf (ep_s run_a0) 0)\<lparr>sg_sacked := True\<rparr>)\<rparr>\<rparr>)) = ep_sent run_a0"
    by (subst stream_sacked_stall) (simp_all add: run_a0_def stream_eval)
  ultimately show ?thesis by simp
qed

text \<open>The same three bytes on logical stream 5 of a mux\<close>

definition run_ma :: mux_ep where "run_ma = mp_do (MWrite 5 [7, 8, 9] 100) mp_new"
definition run_mb :: mux_ep where "run_mb = mp_do (MInput ([0, 5] @ run_data) 150) mp_new"

lemma mux_new_open: "open_stream streammux_new sid = Some (0, streammux_new[0 := ls_fill sid stream_new ls_empty])"
proof -
  have f: "find_idx (\<lambda>ls. \<not> ls_used ls) streammux_new = Some 0"
    by (simp add: streammux_new_def STREAMMUX_MAX_def ls_empty_def numeral_eq_Suc)
  have "mux_find streammux_new sid = None" by (simp add: mux_find_def streammux_new_def ls_empty_def)
  then show ?thesis using f by (simp add: open_stream_def streammux_new_def STREAMMUX_MAX_def nth_replicate)
qed

lemma mux_new_get: "mux_get streammux_new sid = stream_new"
  using mp_new_proj(1) [of sid] by (simp add: mp_proj_def mp_new_def ep_new_def)

lemma mux_new_wf: "mux_wf streammux_new"
  using mp_new_proj(2) by (simp add: mp_ok_def mp_new_def)

lemma run_ma_facts: "mp_sent run_ma = [[0, 5] @ run_data]" "mp_wrote run_ma 5 = [7, 8, 9]" "mp_fins run_ma 5 = 0"
proof -
  have w: "fst (stream_write [7, 8, 9] 100 stream_new) = 3" "snd (snd (stream_write [7, 8, 9] 100 stream_new)) = [run_data]"
    by (simp_all add: run_data_def stream_eval)
  have "ls_st (streammux_new[0 := ls_fill 5 stream_new ls_empty] ! 0) = stream_new"
    using open_stream_spec(4) [OF mux_new_wf mux_new_open [of 5]] by (simp add: mux_new_get)
  then show "mp_sent run_ma = [[0, 5] @ run_data]" "mp_wrote run_ma 5 = [7, 8, 9]" "mp_fins run_ma 5 = 0"
    using w by (simp_all add: run_ma_def mp_new_def streammux_write_def mux_new_open split_beta Let_def mp_emit_def
      lstream_sends_def lstream_send_def be16_def STREAM_SEG_MAX_def STREAM_HEADER_def STREAM_SEG_PAYLOAD_def run_data_def)
qed

lemma run_mb_facts: "mux_delivered run_mb 5 = [7, 8, 9]" "mp_wrote run_mb 5 = []" "mp_fins run_mb 5 = 0"
proof -
  let ?w = "stream_input run_data 150 stream_new"
  have w: "ring_list DELIV_CAP (deliv (fst ?w)) = [7, 8, 9]"
    by (simp add: run_data_def stream_eval write_sack_none ring_list_def)
  have sid: "un_be16 ([0, 5] @ run_data) = 5" by (simp add: un_be16_def)
  note o = open_set_spec [OF mux_new_wf mux_new_open [of 5]]
  have "streammux_input streammux_new ([0, 5] @ run_data) 150 =
      (streammux_new[0 := ls_fill 5 stream_new ls_empty, 0 := ls_set (fst ?w) (streammux_new[0 := ls_fill 5 stream_new ls_empty] ! 0)], lstream_sends 5 (snd ?w))"
    using o(3) sid by (simp add: streammux_input_def mux_new_open mux_new_get split_beta Let_def STREAMMUX_FRAME_def)
  then show "mux_delivered run_mb 5 = [7, 8, 9]" "mp_wrote run_mb 5 = []" "mp_fins run_mb 5 = 0"
    using o(2) [of "fst ?w" 5] w by (simp_all add: run_mb_def mp_new_def mp_emit_def mux_delivered_def)
qed

lemma streammux_reliable_delivery_witness:
  "prefix (mux_delivered run_mb 5) (mp_wrote run_ma 5) \<and> mux_delivered run_mb 5 = [7, 8, 9]"
proof -
  have "mux_duplex run_ma mp_new" unfolding run_ma_def by (rule mux_left [OF mux_start]) simp
  then have d: "mux_duplex run_ma run_mb" unfolding run_mb_def by (rule mux_right) (simp add: run_ma_facts)
  show ?thesis using streammux_reliable_delivery [OF d, of 5] by (simp add: run_ma_facts run_mb_facts)
qed

end
