(* ===== verification/Norn_Channel.thy ===== *)
theory Norn_Channel
  imports Norn_Prelude
begin

text \<open>
  The secure channel, \<open>src/libnorn/channel.c\<close>, and the replay cache,
  \<open>src/libnorn/replaycache.c\<close>. The primitives of libsodium the code calls are the record
  \<open>sodium\<close>, an argument of the definitions; \<open>sodium_ok\<close> is what its documentation promises
  about matching keys. The random bytes of a key pair or a nonce are arguments. Output
  buffers are returned as lists, a capacity that is too small is an error as in the code,
  and a channel that was changed before an error is returned changed.
\<close>

section \<open>The library\<close>

record sodium =
  kx_pub :: "bytes \<Rightarrow> bytes"
  kx_client :: "bytes \<Rightarrow> bytes \<Rightarrow> bytes \<Rightarrow> (bytes \<times> bytes) option"
  kx_server :: "bytes \<Rightarrow> bytes \<Rightarrow> bytes \<Rightarrow> (bytes \<times> bytes) option"
  sbox :: "bytes \<Rightarrow> bytes \<Rightarrow> bytes \<Rightarrow> bytes"
  sbox_open :: "bytes \<Rightarrow> bytes \<Rightarrow> bytes \<Rightarrow> bytes option"
  sig_pub :: "bytes \<Rightarrow> bytes"
  sig_sign :: "bytes \<Rightarrow> bytes \<Rightarrow> bytes"
  sig_verify :: "bytes \<Rightarrow> bytes \<Rightarrow> bytes \<Rightarrow> bool"
  ghash :: "bytes \<Rightarrow> bytes"

definition sodium_ok :: "sodium \<Rightarrow> bool" where
  "sodium_ok sd \<longleftrightarrow>
     (\<forall>a b. kx_server sd (kx_pub sd b) b (kx_pub sd a) = map_option (\<lambda>(r, t). (t, r)) (kx_client sd (kx_pub sd a) a (kx_pub sd b))) \<and>
     (\<forall>a. length (kx_pub sd a) = 32) \<and>
     (\<forall>m n k. length (sbox sd m n k) = length m + 16 \<and> sbox_open sd (sbox sd m n k) n k = Some m) \<and>
     (\<forall>m k. length (sig_sign sd m k) = 64 \<and> sig_verify sd (sig_sign sd m k) m (sig_pub sd k))"

section \<open>Replay cache\<close>

definition REPLAY_SLOTS :: nat where "REPLAY_SLOTS = 512"

record replay_slot =
  rs_nonce :: bytes
  rs_t :: int

record replaycache =
  rc_slots :: "replay_slot list"
  rc_next :: nat
  rc_window :: int

definition replaycache_init :: "int \<Rightarrow> replaycache" where
  "replaycache_init w =
     \<lparr>rc_slots = replicate REPLAY_SLOTS \<lparr>rs_nonce = replicate 16 0, rs_t = 0\<rparr>, rc_next = 0, rc_window = w\<rparr>"

definition slot_hit :: "int \<Rightarrow> bytes \<Rightarrow> int \<Rightarrow> replay_slot \<Rightarrow> bool" where
  "slot_hit w nonce now s \<longleftrightarrow> rs_t s \<noteq> 0 \<and> now - rs_t s < w \<and> rs_nonce s = take 16 nonce"

definition replaycache_seen :: "bytes \<Rightarrow> int \<Rightarrow> replaycache \<Rightarrow> bool \<times> replaycache" where
  "replaycache_seen nonce now rc =
     (if list_ex (slot_hit (rc_window rc) nonce now) (rc_slots rc) then (True, rc)
      else (False, rc\<lparr>rc_slots := (rc_slots rc)[rc_next rc := \<lparr>rs_nonce = take 16 nonce, rs_t = now\<rparr>],
                      rc_next := (rc_next rc + 1) mod REPLAY_SLOTS\<rparr>))"

section \<open>Channel\<close>

definition CHANNEL_OVERHEAD :: nat where "CHANNEL_OVERHEAD = 40"
definition CHANNEL_SIGBYTES :: nat where "CHANNEL_SIGBYTES = 64"
definition CHANNEL_MAGIC :: u32 where "CHANNEL_MAGIC = 0x44484348"
definition CHANNEL_MSG_INIT :: byte where "CHANNEL_MSG_INIT = 1"
definition CHANNEL_MSG_RESP :: byte where "CHANNEL_MSG_RESP = 2"
definition CHANNEL_MSG_CONFIRM :: byte where "CHANNEL_MSG_CONFIRM = 3"
definition CHANNEL_MSG_INIT_VPN :: byte where "CHANNEL_MSG_INIT_VPN = 5"
definition CHANNEL_MSG_INIT_0RTT :: byte where "CHANNEL_MSG_INIT_0RTT = 6"
definition CHANNEL_INIT_LEN :: nat where "CHANNEL_INIT_LEN = 69"
definition CHANNEL_RESP_LEN :: nat where "CHANNEL_RESP_LEN = 133"
definition CHANNEL_CONFIRM_LEN :: nat where "CHANNEL_CONFIRM_LEN = 109"

record channel =
  eph_pub :: bytes
  eph_sec :: bytes
  peer_eph :: bytes
  rx_key :: bytes
  tx_key :: bytes
  is_initiator :: bool
  established :: bool

definition channel_zero :: channel where
  "channel_zero = \<lparr>eph_pub = replicate 32 0, eph_sec = replicate 32 0, peer_eph = replicate 32 0,
     rx_key = replicate 32 0, tx_key = replicate 32 0, is_initiator = False, established = False\<rparr>"

text \<open>\<open>memcmp(a, b, 32) > 0\<close>\<close>

fun bytes_gt :: "bytes \<Rightarrow> bytes \<Rightarrow> bool" where
  "bytes_gt (a # as) (b # bs) = (a > b \<or> a = b \<and> bytes_gt as bs)"
| "bytes_gt _ _ = False"

definition resume_label :: bytes where
  "resume_label = [110,111,114,110,45,114,101,115,117,109,101,45,118,49]"

definition channel_resumption_secret :: "sodium \<Rightarrow> channel \<Rightarrow> bytes option" where
  "channel_resumption_secret sd c =
     (if \<not> established c then None
      else let (lo, hi) = (if bytes_gt (rx_key c) (tx_key c) then (tx_key c, rx_key c) else (rx_key c, tx_key c))
           in Some (ghash sd (resume_label @ lo @ hi)))"

definition mix_label :: bytes where
  "mix_label = [110,111,114,110,45,48,114,116,116,45,118,49]"

definition resume_mix :: "sodium \<Rightarrow> bytes \<Rightarrow> bytes \<Rightarrow> bytes" where
  "resume_mix sd key psk = ghash sd (mix_label @ psk @ key)"

definition channel_gen_ephemeral :: "sodium \<Rightarrow> bytes \<Rightarrow> channel" where
  "channel_gen_ephemeral sd sec = channel_zero\<lparr>eph_pub := kx_pub sd sec, eph_sec := sec\<rparr>"

definition channel_derive :: "sodium \<Rightarrow> channel \<Rightarrow> bytes \<Rightarrow> bool \<Rightarrow> int \<times> channel" where
  "channel_derive sd c peer is_init =
     (case (if is_init then kx_client sd (eph_pub c) (eph_sec c) peer else kx_server sd (eph_pub c) (eph_sec c) peer) of
        None \<Rightarrow> (-1, c)
      | Some (rx, tx) \<Rightarrow> (0, c\<lparr>rx_key := rx, tx_key := tx, peer_eph := peer, is_initiator := is_init, established := True\<rparr>))"

definition channel_derive_resumption :: "sodium \<Rightarrow> channel \<Rightarrow> bytes \<Rightarrow> bool \<Rightarrow> bytes \<Rightarrow> int \<times> channel" where
  "channel_derive_resumption sd c peer is_init psk =
     (let (rc, c1) = channel_derive sd c peer is_init
      in if rc \<noteq> 0 then (-1, c1)
         else (0, c1\<lparr>rx_key := resume_mix sd (rx_key c1) psk, tx_key := resume_mix sd (tx_key c1) psk\<rparr>))"

definition early_key :: "sodium \<Rightarrow> bytes \<Rightarrow> bytes \<Rightarrow> bytes \<Rightarrow> bytes" where
  "early_key sd dir psk init_eph = ghash sd (dir @ psk @ init_eph)"

definition label_i2r :: bytes where
  "label_i2r = [110,111,114,110,45,48,114,116,116,45,101,97,114,108,121,45,105,50,114,45,118,49]"
definition label_r2i :: bytes where
  "label_r2i = [110,111,114,110,45,48,114,116,116,45,101,97,114,108,121,45,114,50,105,45,118,49]"

definition channel_derive_0rtt :: "sodium \<Rightarrow> channel \<Rightarrow> bytes \<Rightarrow> bool \<Rightarrow> bytes \<Rightarrow> channel" where
  "channel_derive_0rtt sd c init_eph is_init psk =
     (let k1 = early_key sd label_i2r psk init_eph; k2 = early_key sd label_r2i psk init_eph
      in if is_init then c\<lparr>tx_key := k1, rx_key := k2, established := True\<rparr>
         else c\<lparr>rx_key := k1, tx_key := k2, established := True\<rparr>)"

definition channel_seal :: "sodium \<Rightarrow> bytes \<Rightarrow> channel \<Rightarrow> bytes \<Rightarrow> nat \<Rightarrow> bytes option" where
  "channel_seal sd nonce c pt outcap =
     (if \<not> established c then None
      else if outcap < 24 + length pt + 16 then None
      else Some (nonce @ sbox sd pt nonce (tx_key c)))"

definition channel_open :: "sodium \<Rightarrow> channel \<Rightarrow> bytes \<Rightarrow> nat \<Rightarrow> bytes option" where
  "channel_open sd c ct outcap =
     (if \<not> established c then None
      else if length ct < 24 + 16 then None
      else if outcap < length ct - 24 - 16 then None
      else sbox_open sd (drop 24 ct) (take 24 ct) (rx_key c))"

fun channel_open_any_from :: "sodium \<Rightarrow> nat \<Rightarrow> channel option list \<Rightarrow> bytes \<Rightarrow> nat \<Rightarrow> (nat \<times> bytes) option" where
  "channel_open_any_from sd i [] ct outcap = None"
| "channel_open_any_from sd i (None # cs) ct outcap = channel_open_any_from sd (Suc i) cs ct outcap"
| "channel_open_any_from sd i (Some c # cs) ct outcap =
     (case channel_open sd c ct outcap of
        Some pt \<Rightarrow> Some (i, pt)
      | None \<Rightarrow> channel_open_any_from sd (Suc i) cs ct outcap)"

definition channel_open_any :: "sodium \<Rightarrow> channel option list \<Rightarrow> bytes \<Rightarrow> nat \<Rightarrow> (nat \<times> bytes) option" where
  "channel_open_any sd chs ct outcap = channel_open_any_from sd 0 chs ct outcap"

section \<open>Handshake\<close>

definition auth_sign_with :: "(bytes \<Rightarrow> bytes option) \<Rightarrow> bytes \<Rightarrow> bytes \<Rightarrow> bytes option" where
  "auth_sign_with signer init_eph resp_eph = signer (init_eph @ resp_eph)"

definition secret_signer :: "sodium \<Rightarrow> bytes \<Rightarrow> bytes \<Rightarrow> bytes option" where
  "secret_signer sd sk msg = Some (sig_sign sd msg sk)"

definition channel_auth_sign :: "sodium \<Rightarrow> bytes \<Rightarrow> bytes \<Rightarrow> bytes \<Rightarrow> bytes option" where
  "channel_auth_sign sd sk init_eph resp_eph = auth_sign_with (secret_signer sd sk) init_eph resp_eph"

definition channel_auth_verify :: "sodium \<Rightarrow> bytes \<Rightarrow> bytes \<Rightarrow> bytes \<Rightarrow> bytes \<Rightarrow> int" where
  "channel_auth_verify sd sg pk init_eph resp_eph = (if sig_verify sd sg (init_eph @ resp_eph) pk then 0 else -1)"

definition channel_transcript :: "channel \<Rightarrow> bytes \<times> bytes" where
  "channel_transcript c = (if is_initiator c then (eph_pub c, peer_eph c) else (peer_eph c, eph_pub c))"

definition channel_hs_build_init_ex :: "sodium \<Rightarrow> bytes \<Rightarrow> channel \<Rightarrow> bytes \<Rightarrow> byte \<Rightarrow> nat \<Rightarrow> int \<times> channel \<times> bytes" where
  "channel_hs_build_init_ex sd sec c self_pub typ outcap =
     (if outcap < CHANNEL_INIT_LEN then (-1, c, [])
      else let c1 = channel_gen_ephemeral sd sec
           in (int CHANNEL_INIT_LEN, c1, be32 CHANNEL_MAGIC @ [typ] @ self_pub @ eph_pub c1))"

definition channel_hs_build_init :: "sodium \<Rightarrow> bytes \<Rightarrow> channel \<Rightarrow> bytes \<Rightarrow> nat \<Rightarrow> int \<times> channel \<times> bytes" where
  "channel_hs_build_init sd sec c self_pub outcap = channel_hs_build_init_ex sd sec c self_pub CHANNEL_MSG_INIT outcap"

definition channel_hs_accept_signed ::
  "sodium \<Rightarrow> bytes \<Rightarrow> channel \<Rightarrow> bytes \<Rightarrow> (bytes \<Rightarrow> bytes option) \<Rightarrow> bytes \<Rightarrow> nat \<Rightarrow> int \<times> channel \<times> bytes \<times> bytes" where
  "channel_hs_accept_signed sd sec c self_pub signer msg outcap =
     (if length msg \<noteq> CHANNEL_INIT_LEN \<or> outcap < CHANNEL_RESP_LEN then (-1, c, [], [])
      else if un_be32 msg \<noteq> CHANNEL_MAGIC then (-1, c, [], [])
      else if msg ! 4 \<noteq> CHANNEL_MSG_INIT \<and> msg ! 4 \<noteq> CHANNEL_MSG_INIT_VPN then (-1, c, [], [])
      else
        let peer_pub = take 32 (drop 5 msg); init_eph = drop 37 msg;
            (rc, c2) = channel_derive sd (channel_gen_ephemeral sd sec) init_eph False
        in if rc \<noteq> 0 then (-1, c2, peer_pub, [])
           else case auth_sign_with signer init_eph (eph_pub c2) of
             None \<Rightarrow> (-1, c2, peer_pub, [])
           | Some sg \<Rightarrow>
               (int CHANNEL_RESP_LEN, c2, peer_pub,
                be32 CHANNEL_MAGIC @ [CHANNEL_MSG_RESP] @ self_pub @ eph_pub c2 @ sg))"

definition channel_hs_accept ::
  "sodium \<Rightarrow> bytes \<Rightarrow> channel \<Rightarrow> bytes \<Rightarrow> bytes \<Rightarrow> bytes \<Rightarrow> nat \<Rightarrow> int \<times> channel \<times> bytes \<times> bytes" where
  "channel_hs_accept sd sec c self_pub self_sk msg outcap =
     channel_hs_accept_signed sd sec c self_pub (secret_signer sd self_sk) msg outcap"

definition channel_hs_confirm_signed ::
  "sodium \<Rightarrow> bytes \<Rightarrow> channel \<Rightarrow> bytes \<Rightarrow> (bytes \<Rightarrow> bytes option) \<Rightarrow> bytes \<Rightarrow> nat \<Rightarrow> int \<times> channel \<times> bytes \<times> bytes" where
  "channel_hs_confirm_signed sd nonce c self_pub signer msg outcap =
     (if length msg \<noteq> CHANNEL_RESP_LEN \<or> outcap < CHANNEL_CONFIRM_LEN then (-1, c, [], [])
      else if un_be32 msg \<noteq> CHANNEL_MAGIC then (-1, c, [], [])
      else if msg ! 4 \<noteq> CHANNEL_MSG_RESP then (-1, c, [], [])
      else
        let peer_pub = take 32 (drop 5 msg); resp_eph = take 32 (drop 37 msg); resp_sig = drop 69 msg
        in if channel_auth_verify sd resp_sig peer_pub (eph_pub c) resp_eph \<noteq> 0 then (-1, c, peer_pub, [])
           else let (rc, c1) = channel_derive sd c resp_eph True
             in if rc \<noteq> 0 then (-1, c1, peer_pub, [])
                else case auth_sign_with signer (eph_pub c1) resp_eph of
                  None \<Rightarrow> (-1, c1, peer_pub, [])
                | Some sg \<Rightarrow>
                    (case channel_seal sd nonce c1 sg (outcap - 5) of
                       None \<Rightarrow> (-1, c1, peer_pub, [])
                     | Some sl \<Rightarrow>
                         if length sl \<noteq> CHANNEL_SIGBYTES + CHANNEL_OVERHEAD then (-1, c1, peer_pub, [])
                         else (int CHANNEL_CONFIRM_LEN, c1, peer_pub, be32 CHANNEL_MAGIC @ [CHANNEL_MSG_CONFIRM] @ sl)))"

definition channel_hs_confirm ::
  "sodium \<Rightarrow> bytes \<Rightarrow> channel \<Rightarrow> bytes \<Rightarrow> bytes \<Rightarrow> bytes \<Rightarrow> nat \<Rightarrow> int \<times> channel \<times> bytes \<times> bytes" where
  "channel_hs_confirm sd nonce c self_pub self_sk msg outcap =
     channel_hs_confirm_signed sd nonce c self_pub (secret_signer sd self_sk) msg outcap"

definition channel_hs_finish :: "sodium \<Rightarrow> channel \<Rightarrow> bytes \<Rightarrow> bytes \<Rightarrow> int" where
  "channel_hs_finish sd c init_pub msg =
     (if \<not> established c then -1
      else if length msg \<noteq> CHANNEL_CONFIRM_LEN then -1
      else if un_be32 msg \<noteq> CHANNEL_MAGIC then -1
      else if msg ! 4 \<noteq> CHANNEL_MSG_CONFIRM then -1
      else case channel_open sd c (drop 5 msg) CHANNEL_SIGBYTES of
        None \<Rightarrow> -1
      | Some sg \<Rightarrow>
          if length sg \<noteq> CHANNEL_SIGBYTES then -1
          else let (init_eph, resp_eph) = channel_transcript c in channel_auth_verify sd sg init_pub init_eph resp_eph)"

section \<open>Early data\<close>

datatype rtt_status = RTT_OK | RTT_NOPSK | RTT_BADPSK | RTT_REPLAY

definition channel_hs_build_init_0rtt ::
  "sodium \<Rightarrow> bytes \<Rightarrow> bytes \<Rightarrow> channel \<Rightarrow> bytes \<Rightarrow> bytes \<Rightarrow> bytes \<Rightarrow> nat \<Rightarrow> int \<times> channel \<times> bytes" where
  "channel_hs_build_init_0rtt sd sec nonce c self_pub psk early outcap =
     (if outcap < CHANNEL_INIT_LEN + CHANNEL_OVERHEAD + length early then (-1, c, [])
      else let (n, c1, hdr) = channel_hs_build_init_ex sd sec c self_pub CHANNEL_MSG_INIT_0RTT outcap
        in if n \<noteq> int CHANNEL_INIT_LEN then (-1, c1, hdr)
           else case channel_seal sd nonce (channel_derive_0rtt sd channel_zero (eph_pub c1) True psk) early (outcap - CHANNEL_INIT_LEN) of
             None \<Rightarrow> (-1, c1, hdr)
           | Some sl \<Rightarrow> (int (CHANNEL_INIT_LEN + length sl), c1, hdr @ sl))"

definition open_early ::
  "sodium \<Rightarrow> bytes \<Rightarrow> bytes \<Rightarrow> bytes option \<Rightarrow> replaycache option \<Rightarrow> int \<Rightarrow> nat \<Rightarrow> rtt_status \<times> bytes \<times> replaycache option" where
  "open_early sd init_eph sealed psk rpc now early_cap =
     (case psk of
        None \<Rightarrow> (RTT_NOPSK, [], rpc)
      | Some k \<Rightarrow>
          (case (if early_cap > 0 then channel_open sd (channel_derive_0rtt sd channel_zero init_eph False k) sealed early_cap else None) of
             None \<Rightarrow> (RTT_BADPSK, [], rpc)
           | Some early \<Rightarrow>
               (case rpc of
                  None \<Rightarrow> (RTT_OK, early, None)
                | Some rc \<Rightarrow>
                    let (seen, rc') = replaycache_seen sealed now rc
                    in if seen then (RTT_REPLAY, [], Some rc') else (RTT_OK, early, Some rc'))))"

definition channel_hs_accept_0rtt ::
  "sodium \<Rightarrow> bytes \<Rightarrow> channel \<Rightarrow> bytes \<Rightarrow> bytes \<Rightarrow> bytes \<Rightarrow> bytes option \<Rightarrow> replaycache option \<Rightarrow> int \<Rightarrow> nat \<Rightarrow> nat \<Rightarrow>
     int \<times> channel \<times> bytes \<times> bytes \<times> rtt_status option \<times> bytes \<times> replaycache option" where
  "channel_hs_accept_0rtt sd sec c self_pub self_sk msg psk rpc now early_cap outcap =
     (if length msg < CHANNEL_INIT_LEN then (-1, c, [], [], None, [], rpc)
      else if msg ! 4 \<noteq> CHANNEL_MSG_INIT_0RTT then (-1, c, [], [], None, [], rpc)
      else
        let hdr = (take CHANNEL_INIT_LEN msg)[4 := CHANNEL_MSG_INIT];
            (n, c1, peer_pub, out) = channel_hs_accept sd sec c self_pub self_sk hdr outcap
        in if n \<noteq> int CHANNEL_RESP_LEN then (-1, c1, peer_pub, out, None, [], rpc)
           else let (st, early, rpc') = open_early sd (take 32 (drop 37 msg)) (drop CHANNEL_INIT_LEN msg) psk rpc now early_cap
             in (int CHANNEL_RESP_LEN, c1, peer_pub, out, Some st, early, rpc'))"

section \<open>An honest handshake\<close>

lemmas channel_lens = CHANNEL_INIT_LEN_def CHANNEL_RESP_LEN_def CHANNEL_CONFIRM_LEN_def CHANNEL_SIGBYTES_def CHANNEL_OVERHEAD_def

lemma sodium_okD:
  assumes "sodium_ok sd"
  shows "kx_server sd (kx_pub sd b) b (kx_pub sd a) = map_option (\<lambda>(r, t). (t, r)) (kx_client sd (kx_pub sd a) a (kx_pub sd b))"
    "length (kx_pub sd a) = 32" "length (sbox sd m n k) = length m + 16" "sbox_open sd (sbox sd m n k) n k = Some m"
    "length (sig_sign sd m k) = 64" "sig_verify sd (sig_sign sd m k) m (sig_pub sd k)"
  using assms unfolding sodium_ok_def by blast+

definition init_chan :: "sodium \<Rightarrow> bytes \<Rightarrow> bytes \<Rightarrow> bytes \<times> bytes \<Rightarrow> channel" where
  "init_chan sd a b ks = \<lparr>eph_pub = kx_pub sd a, eph_sec = a, peer_eph = kx_pub sd b, rx_key = fst ks, tx_key = snd ks,
     is_initiator = True, established = True\<rparr>"

definition resp_chan :: "sodium \<Rightarrow> bytes \<Rightarrow> bytes \<Rightarrow> bytes \<times> bytes \<Rightarrow> channel" where
  "resp_chan sd a b ks = \<lparr>eph_pub = kx_pub sd b, eph_sec = b, peer_eph = kx_pub sd a, rx_key = snd ks, tx_key = fst ks,
     is_initiator = False, established = True\<rparr>"

lemma build_init_ok:
  assumes "sodium_ok sd" "CHANNEL_INIT_LEN \<le> cap"
  shows "channel_hs_build_init_ex sd a c pub typ cap =
    (int CHANNEL_INIT_LEN, channel_gen_ephemeral sd a, be32 CHANNEL_MAGIC @ [typ] @ pub @ kx_pub sd a)"
  using assms by (simp add: channel_hs_build_init_ex_def Let_def channel_gen_ephemeral_def)

lemma nth_hdr [simp]: "(be32 m @ t # xs) ! 4 = t" "drop 5 (be32 m @ t # xs) = xs" "un_be32 (be32 m @ t # xs) = m"
  by (simp_all add: nth_append)

lemma accept_ok:
  assumes ok: "sodium_ok sd" and kx: "kx_client sd (kx_pub sd a) a (kx_pub sd b) = Some ks"
    and len: "length ipub = 32" "CHANNEL_RESP_LEN \<le> cap" and t: "typ = CHANNEL_MSG_INIT \<or> typ = CHANNEL_MSG_INIT_VPN"
  shows "channel_hs_accept sd b d rpub rsk (be32 CHANNEL_MAGIC @ [typ] @ ipub @ kx_pub sd a) cap =
    (int CHANNEL_RESP_LEN, resp_chan sd a b ks, ipub,
     be32 CHANNEL_MAGIC @ [CHANNEL_MSG_RESP] @ rpub @ kx_pub sd b @ sig_sign sd (kx_pub sd a @ kx_pub sd b) rsk)"
proof -
  let ?m = "be32 CHANNEL_MAGIC @ [typ] @ ipub @ kx_pub sd a"
  have l: "length ?m = CHANNEL_INIT_LEN" using sodium_okD(2) [OF ok, of a] len by (simp add: channel_lens)
  have e: "drop 37 ?m = kx_pub sd a" "take 32 (drop 5 ?m) = ipub" using len by simp_all
  have s: "kx_server sd (kx_pub sd b) b (kx_pub sd a) = Some (snd ks, fst ks)" using sodium_okD(1) [OF ok] kx by (simp add: split_beta)
  have d: "channel_derive sd (channel_gen_ephemeral sd b) (kx_pub sd a) False = (0, resp_chan sd a b ks)"
    by (simp add: channel_derive_def channel_gen_ephemeral_def channel_zero_def s resp_chan_def)
  show ?thesis using len(2) t unfolding channel_hs_accept_def channel_hs_accept_signed_def l e Let_def d
    by (auto simp: auth_sign_with_def secret_signer_def resp_chan_def)
qed

lemma confirm_ok:
  assumes ok: "sodium_ok sd" and kx: "kx_client sd (kx_pub sd a) a (kx_pub sd b) = Some ks"
    and len: "length (sig_pub sd rsk) = 32" "CHANNEL_CONFIRM_LEN \<le> cap" "length nonce = 24"
  shows "channel_hs_confirm sd nonce (channel_gen_ephemeral sd a) ipub isk
      (be32 CHANNEL_MAGIC @ [CHANNEL_MSG_RESP] @ sig_pub sd rsk @ kx_pub sd b @ sig_sign sd (kx_pub sd a @ kx_pub sd b) rsk) cap =
    (int CHANNEL_CONFIRM_LEN, init_chan sd a b ks, sig_pub sd rsk,
     be32 CHANNEL_MAGIC @ [CHANNEL_MSG_CONFIRM] @ nonce @ sbox sd (sig_sign sd (kx_pub sd a @ kx_pub sd b) isk) nonce (snd ks))"
proof -
  let ?sig = "sig_sign sd (kx_pub sd a @ kx_pub sd b) rsk"
  let ?m = "be32 CHANNEL_MAGIC @ [CHANNEL_MSG_RESP] @ sig_pub sd rsk @ kx_pub sd b @ ?sig"
  have kl: "length (kx_pub sd b) = 32" using sodium_okD(2) [OF ok] .
  have l: "length ?m = CHANNEL_RESP_LEN" using kl len sodium_okD(5) [OF ok] by (simp add: channel_lens)
  have e: "take 32 (drop 5 ?m) = sig_pub sd rsk" "take 32 (drop 37 ?m) = kx_pub sd b" "drop 69 ?m = ?sig" using len kl by simp_all
  have v: "channel_auth_verify sd ?sig (sig_pub sd rsk) (kx_pub sd a) (kx_pub sd b) = 0"
    using sodium_okD(6) [OF ok] by (simp add: channel_auth_verify_def)
  have g: "eph_pub (channel_gen_ephemeral sd a) = kx_pub sd a" by (simp add: channel_gen_ephemeral_def)
  have d: "channel_derive sd (channel_gen_ephemeral sd a) (kx_pub sd b) True = (0, init_chan sd a b ks)"
    by (simp add: channel_derive_def channel_gen_ephemeral_def channel_zero_def kx init_chan_def split_beta)
  show ?thesis using len(2,3) sodium_okD(3,5) [OF ok]
    unfolding channel_hs_confirm_def channel_hs_confirm_signed_def l e Let_def g v d
    by (auto simp: auth_sign_with_def secret_signer_def channel_seal_def init_chan_def channel_lens)
qed

lemma seal_open:
  assumes ok: "sodium_ok sd" and "established c" "established d" "rx_key d = tx_key c" "length nonce = 24"
    and "length pt + CHANNEL_OVERHEAD \<le> cap" "length pt \<le> cap'"
  shows "\<exists>ct. channel_seal sd nonce c pt cap = Some ct \<and> length ct = length pt + CHANNEL_OVERHEAD \<and> channel_open sd d ct cap' = Some pt"
  using assms sodium_okD(3,4) [OF ok] by (simp add: channel_seal_def channel_open_def CHANNEL_OVERHEAD_def)

lemma finish_ok:
  assumes ok: "sodium_ok sd" and len: "length nonce = 24"
  shows "channel_hs_finish sd (resp_chan sd a b ks) (sig_pub sd isk)
    (be32 CHANNEL_MAGIC @ [CHANNEL_MSG_CONFIRM] @ nonce @ sbox sd (sig_sign sd (kx_pub sd a @ kx_pub sd b) isk) nonce (snd ks)) = 0"
  using len sodium_okD(3-6) [OF ok]
  by (simp add: channel_hs_finish_def channel_open_def resp_chan_def channel_transcript_def channel_auth_verify_def channel_lens nth_append)

lemma bytes_gt_antisym: "length a = length b \<Longrightarrow> \<not> bytes_gt a b \<Longrightarrow> \<not> bytes_gt b a \<Longrightarrow> a = b"
proof (induction a b rule: bytes_gt.induct)
  case (1 a as b bs)
  then have "a = b" by (auto simp: not_less)
  then show ?case using 1 by simp
qed simp_all

lemma bytes_gt_asym: "bytes_gt a b \<Longrightarrow> \<not> bytes_gt b a"
  by (induction a b rule: bytes_gt.induct) auto

lemma resumption_swap:
  assumes "established c" "established d" "rx_key c = tx_key d" "tx_key c = rx_key d" "length (rx_key c) = length (tx_key c)"
  shows "channel_resumption_secret sd c = channel_resumption_secret sd d"
  using assms bytes_gt_asym [of "rx_key d" "tx_key d"] bytes_gt_antisym [of "rx_key d" "tx_key d"]
  by (auto simp: channel_resumption_secret_def)

section \<open>Replay cache\<close>

lemma replay_record:
  assumes "fst (replaycache_seen n t rc) = False"
  shows "snd (replaycache_seen n t rc) = rc\<lparr>rc_slots := (rc_slots rc)[rc_next rc := \<lparr>rs_nonce = take 16 n, rs_t = t\<rparr>],
    rc_next := (rc_next rc + 1) mod REPLAY_SLOTS\<rparr>"
  using assms by (auto simp: replaycache_seen_def split: if_splits)

definition rc_wf :: "replaycache \<Rightarrow> bool" where
  "rc_wf rc \<longleftrightarrow> length (rc_slots rc) = REPLAY_SLOTS \<and> rc_next rc < REPLAY_SLOTS"

lemma replaycache_wf: "rc_wf rc \<Longrightarrow> rc_wf (snd (replaycache_seen n t rc))" "rc_wf (replaycache_init w)"
  "rc_window (snd (replaycache_seen n t rc)) = rc_window rc"
  by (simp_all add: rc_wf_def replaycache_seen_def replaycache_init_def REPLAY_SLOTS_def)

text \<open>A recorded slot survives while fewer than all other slots have been written since.\<close>

definition rc_keeps :: "nat \<Rightarrow> replay_slot \<Rightarrow> nat \<Rightarrow> replaycache \<Rightarrow> bool" where
  "rc_keeps p s k rc \<longleftrightarrow> rc_wf rc \<and> p < REPLAY_SLOTS \<and> rc_slots rc ! p = s \<and> (\<exists>j \<le> k. rc_next rc = (p + 1 + j) mod REPLAY_SLOTS)"

lemma replay_ring_neq:
  assumes "p < REPLAY_SLOTS" "j + 1 < REPLAY_SLOTS"
  shows "(p + 1 + j) mod REPLAY_SLOTS \<noteq> p"
proof (cases "p + 1 + j < REPLAY_SLOTS")
  case False
  then have "(p + 1 + j) mod REPLAY_SLOTS = p + 1 + j - REPLAY_SLOTS" using assms by (subst le_mod_geq) simp_all
  then show ?thesis using assms False by linarith
qed simp

lemma rc_keeps_step:
  assumes "rc_keeps p s k rc" "k + 1 < REPLAY_SLOTS"
  shows "rc_keeps p s (k + 1) (snd (replaycache_seen n t rc))"
proof (cases "fst (replaycache_seen n t rc)")
  case True
  then have "snd (replaycache_seen n t rc) = rc" by (auto simp: replaycache_seen_def split: if_splits)
  then show ?thesis using assms(1) by (auto simp: rc_keeps_def intro: le_SucI)
next
  case False
  obtain j where j: "j \<le> k" "rc_next rc = (p + 1 + j) mod REPLAY_SLOTS" using assms(1) by (auto simp: rc_keeps_def)
  have "p < REPLAY_SLOTS" using assms(1) by (simp add: rc_keeps_def)
  then have "rc_next rc \<noteq> p" using j assms(2) replay_ring_neq [of p j] by simp
  moreover have "(rc_next rc + 1) mod REPLAY_SLOTS = (p + 1 + (j + 1)) mod REPLAY_SLOTS" by (simp add: j(2) mod_Suc_eq)
  moreover have "rc_wf (snd (replaycache_seen n t rc))" using replaycache_wf(1) assms(1) by (simp add: rc_keeps_def)
  moreover have "rc_slots (snd (replaycache_seen n t rc)) = (rc_slots rc)[rc_next rc := \<lparr>rs_nonce = take 16 n, rs_t = t\<rparr>]"
    "rc_next (snd (replaycache_seen n t rc)) = (rc_next rc + 1) mod REPLAY_SLOTS"
    using replay_record [of n t rc] False by simp_all
  ultimately show ?thesis using assms(1) j(1) unfolding rc_keeps_def by (metis add_le_mono1 nth_list_update_neq)
qed

definition rc_run :: "(bytes \<times> int) list \<Rightarrow> replaycache \<Rightarrow> replaycache" where
  "rc_run qs rc = fold (\<lambda>(n, t) rc. snd (replaycache_seen n t rc)) qs rc"

lemma rc_run_keeps:
  "rc_keeps p s k rc \<Longrightarrow> k + length qs < REPLAY_SLOTS \<Longrightarrow> rc_keeps p s (k + length qs) (rc_run qs rc) \<and> rc_window (rc_run qs rc) = rc_window rc"
proof (induction qs arbitrary: k rc)
  case (Cons q qs)
  have "rc_keeps p s (k + 1) (snd (replaycache_seen (fst q) (snd q) rc))" using Cons.prems by (intro rc_keeps_step) simp_all
  from Cons.IH [OF this] Cons.prems show ?case by (simp add: rc_run_def split_beta replaycache_wf(3))
qed (simp add: rc_run_def)

lemma replay_hit: "s \<in> set (rc_slots rc) \<Longrightarrow> slot_hit (rc_window rc) n t s \<Longrightarrow> fst (replaycache_seen n t rc)"
  by (auto simp: replaycache_seen_def list_ex_iff)

lemma replay_after_run:
  assumes wf: "rc_wf rc" and fresh: "fst (replaycache_seen n t rc) = False" and t: "t \<noteq> 0"
    and few: "length qs < REPLAY_SLOTS" and soon: "t' - t < rc_window rc" and n': "take 16 n' = take 16 n"
  shows "fst (replaycache_seen n' t' (rc_run qs (snd (replaycache_seen n t rc))))"
proof -
  let ?rc = "snd (replaycache_seen n t rc)" and ?s = "\<lparr>rs_nonce = take 16 n, rs_t = t\<rparr>"
  have "rc_keeps (rc_next rc) ?s 0 ?rc"
    using wf replay_record [OF fresh] replaycache_wf(1) [OF wf] by (auto simp: rc_keeps_def rc_wf_def)
  then have k: "rc_keeps (rc_next rc) ?s (length qs) (rc_run qs ?rc)" "rc_window (rc_run qs ?rc) = rc_window rc"
    using rc_run_keeps [of "rc_next rc" ?s 0 ?rc qs] few replaycache_wf(3) by simp_all
  have "?s \<in> set (rc_slots (rc_run qs ?rc))" using k(1) by (auto simp: rc_keeps_def rc_wf_def in_set_conv_nth)
  moreover have "slot_hit (rc_window (rc_run qs ?rc)) n' t' ?s" using t soon n' k(2) by (simp add: slot_hit_def)
  ultimately show ?thesis by (rule replay_hit)
qed

section \<open>Properties\<close>

text \<open>
  C16: the handshake. When both ends are honest and the key exchange of the library succeeds,
  INIT, RESP and CONFIRM are built and accepted, each end learns the other's identity key,
  the responder's final check authenticates the initiator, the two directions' session keys
  match crosswise, both derive the same resumption secret, and whatever one end seals the
  other opens to the same bytes.
\<close>
theorem channel_handshake:
  assumes ok: "sodium_ok sd" and kx: "kx_client sd (kx_pub sd a) a (kx_pub sd b) = Some ks" "length (fst ks) = length (snd ks)"
    and len: "length (sig_pub sd isk) = 32" "length (sig_pub sd rsk) = 32" "length nonce = 24"
    and cap: "CHANNEL_INIT_LEN \<le> cap1" "CHANNEL_RESP_LEN \<le> cap2" "CHANNEL_CONFIRM_LEN \<le> cap3"
  shows "let (n1, c1, init) = channel_hs_build_init sd a c (sig_pub sd isk) cap1;
             (n2, d, who_i, resp) = channel_hs_accept sd b d0 (sig_pub sd rsk) rsk init cap2;
             (n3, c2, who_r, conf) = channel_hs_confirm sd nonce c1 (sig_pub sd isk) isk resp cap3
         in n1 = int CHANNEL_INIT_LEN \<and> n2 = int CHANNEL_RESP_LEN \<and> n3 = int CHANNEL_CONFIRM_LEN \<and>
            who_i = sig_pub sd isk \<and> who_r = sig_pub sd rsk \<and> channel_hs_finish sd d who_i conf = 0 \<and>
            rx_key d = tx_key c2 \<and> rx_key c2 = tx_key d \<and>
            channel_resumption_secret sd c2 = channel_resumption_secret sd d \<and> channel_resumption_secret sd d \<noteq> None \<and>
            (\<forall>m pt. length m = 24 \<longrightarrow>
               (\<exists>ct. channel_seal sd m c2 pt (length pt + CHANNEL_OVERHEAD) = Some ct \<and> channel_open sd d ct (length pt) = Some pt) \<and>
               (\<exists>ct. channel_seal sd m d pt (length pt + CHANNEL_OVERHEAD) = Some ct \<and> channel_open sd c2 ct (length pt) = Some pt))"
proof -
  let ?c2 = "init_chan sd a b ks" and ?d = "resp_chan sd a b ks"
  have keys: "rx_key ?d = tx_key ?c2" "rx_key ?c2 = tx_key ?d" "established ?c2" "established ?d"
    by (simp_all add: init_chan_def resp_chan_def)
  have so: "\<exists>ct. channel_seal sd m ?c2 pt (length pt + CHANNEL_OVERHEAD) = Some ct \<and> channel_open sd ?d ct (length pt) = Some pt"
    "\<exists>ct. channel_seal sd m ?d pt (length pt + CHANNEL_OVERHEAD) = Some ct \<and> channel_open sd ?c2 ct (length pt) = Some pt"
    if "length m = 24" for m pt
    using seal_open [OF ok, of ?c2 ?d m pt] seal_open [OF ok, of ?d ?c2 m pt] keys that by blast+
  have rs: "channel_resumption_secret sd ?c2 = channel_resumption_secret sd ?d"
    by (rule resumption_swap) (use keys kx(2) in \<open>simp_all add: init_chan_def\<close>)
  have "channel_resumption_secret sd ?d \<noteq> None" using keys(4) by (simp add: channel_resumption_secret_def split_beta)
  then show ?thesis
    unfolding channel_hs_build_init_def build_init_ok [OF ok cap(1)] accept_ok [OF ok kx(1) len(1) cap(2) disjI1 [OF refl]] Let_def prod.case
      confirm_ok [OF ok kx(1) len(2) cap(3) len(3)]
    using keys so rs finish_ok [OF ok len(3)] by simp
qed

text \<open>
  C4: authentication is mandatory. Whatever bytes are taken for a RESP, \<open>channel_hs_confirm_signed\<close>
  succeeds only if they carry a signature that verifies, under the identity key it reports, over
  this initiator's own ephemeral key and the ephemeral key the session keys were derived from.
  Whatever bytes are taken for a CONFIRM, \<open>channel_hs_finish\<close> accepts only a message that opens
  under the session key to such a signature of the initiator.
\<close>
theorem channel_authenticates:
  "(fst (channel_hs_confirm_signed sd nonce c pub signer msg cap) = int CHANNEL_CONFIRM_LEN \<longrightarrow>
      sig_verify sd (drop 69 msg) (eph_pub c @ take 32 (drop 37 msg)) (fst (snd (snd (channel_hs_confirm_signed sd nonce c pub signer msg cap)))) \<and>
      kx_client sd (eph_pub c) (eph_sec c) (take 32 (drop 37 msg)) =
        Some (rx_key (fst (snd (channel_hs_confirm_signed sd nonce c pub signer msg cap))), tx_key (fst (snd (channel_hs_confirm_signed sd nonce c pub signer msg cap))))) \<and>
   (channel_hs_finish sd d who conf = 0 \<longrightarrow>
      (\<exists>sg. sbox_open sd (drop 29 conf) (take 24 (drop 5 conf)) (rx_key d) = Some sg \<and>
        sig_verify sd sg (fst (channel_transcript d) @ snd (channel_transcript d)) who))"
proof (intro conjI impI)
  let ?r = "channel_hs_confirm_signed sd nonce c pub signer msg cap"
  assume "fst ?r = int CHANNEL_CONFIRM_LEN"
  then show "sig_verify sd (drop 69 msg) (eph_pub c @ take 32 (drop 37 msg)) (fst (snd (snd ?r)))"
    "kx_client sd (eph_pub c) (eph_sec c) (take 32 (drop 37 msg)) = Some (rx_key (fst (snd ?r)), tx_key (fst (snd ?r)))"
    by (auto simp: channel_hs_confirm_signed_def channel_auth_verify_def channel_derive_def Let_def channel_lens
      split: if_splits option.splits prod.splits)
next
  assume "channel_hs_finish sd d who conf = 0"
  then show "\<exists>sg. sbox_open sd (drop 29 conf) (take 24 (drop 5 conf)) (rx_key d) = Some sg \<and>
      sig_verify sd sg (fst (channel_transcript d) @ snd (channel_transcript d)) who"
    by (auto simp: channel_hs_finish_def channel_open_def channel_auth_verify_def split_beta Let_def split: if_splits option.splits)
qed

lemma hdr_0rtt:
  assumes "length pub = 32" "length eph = 32"
  shows "(take CHANNEL_INIT_LEN (be32 CHANNEL_MAGIC @ [t] @ pub @ eph @ sl))[4 := t'] = be32 CHANNEL_MAGIC @ [t'] @ pub @ eph"
    "take 32 (drop 37 (be32 CHANNEL_MAGIC @ [t] @ pub @ eph @ sl)) = eph"
    "drop CHANNEL_INIT_LEN (be32 CHANNEL_MAGIC @ [t] @ pub @ eph @ sl) = sl"
  using assms by (simp_all add: channel_lens list_update_append)

lemma build_0rtt_ok:
  assumes ok: "sodium_ok sd" and cap: "CHANNEL_INIT_LEN + CHANNEL_OVERHEAD + length early \<le> cap" and n: "length nonce = 24" "length pub = 32"
  shows "channel_hs_build_init_0rtt sd a nonce c pub psk early cap =
    (int (CHANNEL_INIT_LEN + CHANNEL_OVERHEAD + length early), channel_gen_ephemeral sd a,
     be32 CHANNEL_MAGIC @ [CHANNEL_MSG_INIT_0RTT] @ pub @ kx_pub sd a @ nonce @ sbox sd early nonce (early_key sd label_i2r psk (kx_pub sd a)))"
proof -
  have e: "eph_pub (channel_gen_ephemeral sd a) = kx_pub sd a" by (simp add: channel_gen_ephemeral_def)
  have "CHANNEL_INIT_LEN \<le> cap" using cap by simp
  note b = build_init_ok [OF ok this, of a c pub CHANNEL_MSG_INIT_0RTT]
  show ?thesis using cap n sodium_okD(3) [OF ok]
    unfolding channel_hs_build_init_0rtt_def b Let_def prod.case e
    by (auto simp: channel_seal_def channel_derive_0rtt_def Let_def channel_lens)
qed

lemma open_early_ok:
  assumes ok: "sodium_ok sd" and n: "length nonce = 24" and cap: "0 < ecap" "length early \<le> ecap"
  shows "open_early sd eph (nonce @ sbox sd early nonce (early_key sd label_i2r psk eph)) (Some psk) (Some rc) now ecap =
    (let (seen, rc') = replaycache_seen nonce now rc in if seen then (RTT_REPLAY, [], Some rc') else (RTT_OK, early, Some rc'))"
proof -
  have r: "replaycache_seen (nonce @ xs) now rc = replaycache_seen nonce now rc" for xs
    using n by (simp add: replaycache_seen_def slot_hit_def [abs_def])
  show ?thesis using n cap sodium_okD(3,4) [OF ok]
    by (simp add: open_early_def channel_open_def channel_derive_0rtt_def Let_def r)
qed

text \<open>
  early data is delivered once. A first flight built under the shared resumption secret is
  opened by the responder to the same bytes, beside the normal RESP; the identical datagram
  presented again within the window, after any fewer than 512 other packets, still gets a RESP
  but is reported as a replay and yields no early data.
\<close>
theorem channel_early_data_once:
  assumes ok: "sodium_ok sd" and kx: "kx_client sd (kx_pub sd a) a (kx_pub sd b) = Some ks" "kx_client sd (kx_pub sd a) a (kx_pub sd b') = Some ks'"
    and len: "length ipub = 32" "length nonce = 24" "0 < ecap" "length early \<le> ecap"
    and cap: "CHANNEL_INIT_LEN + CHANNEL_OVERHEAD + length early \<le> cap1" "CHANNEL_RESP_LEN \<le> cap2"
    and rc: "rc_wf rc" "fst (replaycache_seen nonce t rc) = False" "t \<noteq> 0"
    and later: "length qs < REPLAY_SLOTS" "t' - t < rc_window rc"
  shows "let (n1, c1, msg) = channel_hs_build_init_0rtt sd a nonce c ipub psk early cap1;
             (n2, d, who, resp, st, dat, rpc) = channel_hs_accept_0rtt sd b d0 rpub rsk msg (Some psk) (Some rc) t ecap cap2;
             rc' = rc_run qs (the rpc);
             (n3, e, who', resp', st', dat', rpc') = channel_hs_accept_0rtt sd b' d0 rpub rsk msg (Some psk) (Some rc') t' ecap cap2
         in n2 = int CHANNEL_RESP_LEN \<and> who = ipub \<and> st = Some RTT_OK \<and> dat = early \<and>
            n3 = int CHANNEL_RESP_LEN \<and> st' = Some RTT_REPLAY \<and> dat' = []"
proof -
  let ?sl = "nonce @ sbox sd early nonce (early_key sd label_i2r psk (kx_pub sd a))"
  let ?m = "be32 CHANNEL_MAGIC @ [CHANNEL_MSG_INIT_0RTT] @ ipub @ kx_pub sd a @ ?sl"
  have kl: "length (kx_pub sd a) = 32" using sodium_okD(2) [OF ok] .
  note h = hdr_0rtt [OF len(1) kl]
  have m: "\<not> length ?m < CHANNEL_INIT_LEN" "\<not> ?m ! 4 \<noteq> CHANNEL_MSG_INIT_0RTT" using kl len by (simp_all add: channel_lens)
  have acc: "channel_hs_accept_0rtt sd x d0 rpub rsk ?m (Some psk) (Some r) now ecap cap2 =
      (let (seen, r') = replaycache_seen nonce now r in
       (int CHANNEL_RESP_LEN, resp_chan sd a x k, ipub,
        be32 CHANNEL_MAGIC @ [CHANNEL_MSG_RESP] @ rpub @ kx_pub sd x @ sig_sign sd (kx_pub sd a @ kx_pub sd x) rsk,
        Some (if seen then RTT_REPLAY else RTT_OK), if seen then [] else early, Some r'))"
    if "kx_client sd (kx_pub sd a) a (kx_pub sd x) = Some k" for x k r now
    using m unfolding channel_hs_accept_0rtt_def h Let_def accept_ok [OF ok that len(1) cap(2) disjI1 [OF refl]] open_early_ok [OF ok len(2-4)]
    by (simp add: split_beta)
  have "fst (replaycache_seen nonce t' (rc_run qs (snd (replaycache_seen nonce t rc))))"
    by (rule replay_after_run [OF rc later refl])
  then show ?thesis unfolding build_0rtt_ok [OF ok cap(1) len(2,1)] Let_def prod.case acc [OF kx(1)] acc [OF kx(2)]
    using rc(2) by (simp add: split_beta)
qed

section \<open>A library for which the hypotheses hold\<close>

text \<open>A stand-in for the library that satisfies the documented laws, and computes.\<close>

definition toy_sodium :: sodium where
  "toy_sodium = \<lparr>kx_pub = (\<lambda>s. take 32 (s @ replicate 32 0)), kx_client = (\<lambda>p s q. Some (p @ q, q @ p)), kx_server = (\<lambda>p s q. Some (p @ q, q @ p)),
     sbox = (\<lambda>m n k. m @ replicate 16 0), sbox_open = (\<lambda>c n k. Some (take (length c - 16) c)),
     sig_pub = (\<lambda>k. take 32 (k @ replicate 32 0)), sig_sign = (\<lambda>m k. take 64 (take 32 (k @ replicate 32 0) @ m @ replicate 64 0)),
     sig_verify = (\<lambda>s m pk. s = take 64 (pk @ m @ replicate 64 0)), ghash = (\<lambda>m. m)\<rparr>"

lemma toy_ok: "sodium_ok toy_sodium"
  by (auto simp: sodium_ok_def toy_sodium_def min_def)

lemma toy_kx: "kx_client toy_sodium (kx_pub toy_sodium a) a (kx_pub toy_sodium b) =
    Some (kx_pub toy_sodium a @ kx_pub toy_sodium b, kx_pub toy_sodium b @ kx_pub toy_sodium a)"
  by (simp add: toy_sodium_def)

lemma toy_len: "length (kx_pub toy_sodium a) = 32" "length (sig_pub toy_sodium a) = 32"
  by (simp_all add: toy_sodium_def)

lemma channel_handshake_witness:
  "let (n1, c1, init) = channel_hs_build_init toy_sodium [1] channel_zero (sig_pub toy_sodium [7]) 69;
       (n2, d, who_i, resp) = channel_hs_accept toy_sodium [2] channel_zero (sig_pub toy_sodium [8]) [8] init 133
   in n2 = 133 \<and> who_i = sig_pub toy_sodium [7]"
  using channel_handshake [OF toy_ok toy_kx, of "[1]" "[2]" "[7]" "[8]" "replicate 24 0" 69 133 109 channel_zero channel_zero] toy_len
  by (simp add: channel_lens split_beta Let_def)

definition toy_conf :: bytes where
  "toy_conf = be32 CHANNEL_MAGIC @ [CHANNEL_MSG_CONFIRM] @ replicate 24 0 @
     sbox toy_sodium (sig_sign toy_sodium (kx_pub toy_sodium [1] @ kx_pub toy_sodium [2]) [7]) (replicate 24 0) []"

lemma channel_authenticates_witness:
  "\<exists>sg. sbox_open toy_sodium (drop 29 toy_conf) (take 24 (drop 5 toy_conf)) (rx_key (resp_chan toy_sodium [1] [2] ([], []))) = Some sg \<and>
      sig_verify toy_sodium sg (kx_pub toy_sodium [1] @ kx_pub toy_sodium [2]) (sig_pub toy_sodium [7])"
proof -
  let ?d = "resp_chan toy_sodium [1] [2] ([], [])"
  have f: "channel_hs_finish toy_sodium ?d (sig_pub toy_sodium [7]) toy_conf = 0"
    using finish_ok [OF toy_ok, of "replicate 24 0" "[1]" "[2]" "([], [])" "[7]"] by (simp add: toy_conf_def)
  have "channel_transcript ?d = (kx_pub toy_sodium [1], kx_pub toy_sodium [2])" by (simp add: channel_transcript_def resp_chan_def)
  then show ?thesis using mp [OF conjunct2 [OF channel_authenticates] f] by simp
qed

lemma channel_early_data_once_witness:
  "let (n1, c1, msg) = channel_hs_build_init_0rtt toy_sodium [1] (replicate 24 9) channel_zero (replicate 32 4) [5] [10, 11] 200;
       (n2, d, who, resp, st, dat, rpc) = channel_hs_accept_0rtt toy_sodium [2] channel_zero [] [8] msg (Some [5]) (Some (replaycache_init 60)) 1000 64 200;
       (n3, e, who', resp', st', dat', rpc') = channel_hs_accept_0rtt toy_sodium [3] channel_zero [] [8] msg (Some [5]) (Some (rc_run [] (the rpc))) 1030 64 200
   in st = Some RTT_OK \<and> dat = [10, 11] \<and> st' = Some RTT_REPLAY \<and> dat' = []"
proof -
  let ?rc = "replaycache_init 60"
  have rc: "rc_wf ?rc" "fst (replaycache_seen (replicate 24 9) 1000 ?rc) = False" "rc_window ?rc = 60"
    by (simp_all add: rc_wf_def replaycache_seen_def replaycache_init_def list_ex_iff slot_hit_def REPLAY_SLOTS_def)
  show ?thesis
    using channel_early_data_once [where sd = toy_sodium and a = "[1]" and b = "[2]" and b' = "[3]" and ipub = "replicate 32 4" and
      nonce = "replicate 24 9" and ecap = 64 and early = "[10, 11]" and ?cap1.0 = 200 and ?cap2.0 = 200 and rc = ?rc and t = 1000 and
      qs = "[]" and t' = 1030 and c = channel_zero and psk = "[5]" and ?d0.0 = channel_zero and rpub = "[]" and rsk = "[8]",
      OF toy_ok toy_kx toy_kx] rc
    by (simp add: channel_lens REPLAY_SLOTS_def split_beta Let_def)
qed

end
