(* ===== verification/Norn_Kad.thy ===== *)
theory Norn_Kad
  imports Norn_Prelude
begin

text \<open>
  The Kademlia routing tables: \<open>src/libnorn/norn_kad.c\<close>, parameterised by the length of a
  node id, and \<open>src/libnorn/kademlia.c\<close>, with fixed buckets of eight nodes; and the id
  arithmetic of \<open>src/libnorn/crypto.c\<close> they rest on (CRC-32C, XOR distance, node ids).

  A bucket array with its count is a list, so \<open>count\<close> is its length. The clock is an
  argument. The locale \<open>bucket_index\<close> is the contract both tables use: an index function
  that stays below the number of buckets, and buckets that only hold the nodes it sends
  there.
\<close>

section \<open>Id arithmetic of crypto.c\<close>

definition NODE_ID_BYTES :: nat where "NODE_ID_BYTES = 32"

definition crc_step :: "u32 \<Rightarrow> u32" where
  "crc_step crc = (if crc AND 1 \<noteq> 0 then drop_bit 1 crc XOR 0x82F63B78 else drop_bit 1 crc)"

definition crc32c_table :: "u32 list" where
  "crc32c_table = map (\<lambda>i. (crc_step ^^ 8) (word_of_nat i)) [0..<256]"

fun crc_loop :: "bytes \<Rightarrow> u32 \<Rightarrow> u32" where
  "crc_loop [] crc = crc"
| "crc_loop (d # ds) crc =
     crc_loop ds (crc32c_table ! unat ((crc XOR ucast d) AND 0xFF) XOR drop_bit 8 crc)"

definition crypto_crc32c :: "bytes \<Rightarrow> u32" where
  "crypto_crc32c data = crc_loop data 0xFFFFFFFF XOR 0xFFFFFFFF"

definition crypto_xor_distance :: "bytes \<Rightarrow> bytes \<Rightarrow> nat \<Rightarrow> bytes" where
  "crypto_xor_distance a b len = map2 (\<lambda>x y. x XOR y) (take len a) (take len b)"

fun cmp_bytes :: "nat \<Rightarrow> bytes \<Rightarrow> bytes \<Rightarrow> int" where
  "cmp_bytes (Suc n) (x # xs) (y # ys) = (if x < y then - 1 else if x > y then 1 else cmp_bytes n xs ys)"
| "cmp_bytes _ _ _ = 0"

definition crypto_compare_distance :: "bytes \<Rightarrow> bytes \<Rightarrow> int" where
  "crypto_compare_distance a b = cmp_bytes NODE_ID_BYTES a b"

text \<open>The id keeps the low bits of the checksum bytes, least significant byte first.\<close>

definition crypto_generate_node_id :: "u32 \<Rightarrow> byte \<Rightarrow> bytes \<Rightarrow> bytes" where
  "crypto_generate_node_id ip seed pubkey =
     (let crc = crypto_crc32c (be32 ip @ [seed])
      in [ucast crc AND 0x03 OR (drop_bit 0 seed AND 0x03),
          ucast (drop_bit 8 crc) AND 0x07 OR (drop_bit 2 seed AND 0x07),
          ucast (drop_bit 16 crc) AND 0x07 OR (drop_bit 5 seed AND 0x07)] @
         take (NODE_ID_BYTES - 3) pubkey)"

text \<open>\<open>bf_is_fqdn\<close>: the loop over adjacent characters.\<close>

fun fqdn_loop :: "string \<Rightarrow> bool \<Rightarrow> bool" where
  "fqdn_loop (a # b # cs) dot =
     (if a = CHR ''.'' then (if b = CHR ''.'' then False else fqdn_loop (b # cs) True)
      else fqdn_loop (b # cs) dot)"
| "fqdn_loop _ dot = dot"

definition bf_is_fqdn :: "string \<Rightarrow> bool" where
  "bf_is_fqdn name =
     (if name = [] then False
      else if hd name = CHR ''.'' \<or> last name = CHR ''.'' then False
      else fqdn_loop name False)"

section \<open>Bucket index\<close>

text \<open>The inner loop from bit 7 down to 0, and the loop over the bytes of the distance.\<close>

fun scan_byte :: "byte \<Rightarrow> nat \<Rightarrow> nat option" where
  "scan_byte d 0 = None"
| "scan_byte d (Suc b) = (if drop_bit b d AND 1 \<noteq> 0 then Some (7 - b) else scan_byte d b)"

fun scan_distance :: "nat \<Rightarrow> bytes \<Rightarrow> nat option" where
  "scan_distance i [] = None"
| "scan_distance i (d # ds) =
     (case scan_byte d 8 of Some b \<Rightarrow> Some (i * 8 + b) | None \<Rightarrow> scan_distance (Suc i) ds)"

fun clz_byte :: "byte \<Rightarrow> nat \<Rightarrow> nat \<Rightarrow> nat + nat" where
  "clz_byte d 0 cnt = Inl cnt"
| "clz_byte d (Suc b) cnt = (if drop_bit b d AND 1 \<noteq> 0 then Inr cnt else clz_byte d b (cnt + 1))"

fun clz_loop :: "bytes \<Rightarrow> nat \<Rightarrow> nat" where
  "clz_loop [] cnt = cnt"
| "clz_loop (d # ds) cnt =
     (if d = 0 then clz_loop ds (cnt + 8)
      else case clz_byte d 8 cnt of Inr r \<Rightarrow> r | Inl c \<Rightarrow> clz_loop ds c)"

definition kad_count_leading_zeros :: "bytes \<Rightarrow> nat" where
  "kad_count_leading_zeros nid = clz_loop nid 0"

section \<open>The parameterised table\<close>

definition KAD_K_DEFAULT :: nat where "KAD_K_DEFAULT = 8"

record kad_node =
  kn_id :: bytes
  kn_ip :: u32
  kn_port :: u16
  kn_seed :: byte
  kn_last_seen :: int
  kn_bucket_idx :: nat

record k_bucket =
  kb_nodes :: "kad_node list"
  kb_capacity :: nat
  kb_last_update :: int

record kad_table =
  kt_self_id :: bytes
  kt_nodeid_len :: nat
  kt_k :: nat
  kt_buckets :: "k_bucket list"
  kt_bucket_count :: nat
  kt_created :: int

definition kad_table_new :: "nat \<Rightarrow> bytes \<Rightarrow> int \<Rightarrow> kad_table option" where
  "kad_table_new nodeid_len self_id now =
     (if nodeid_len = 0 then None
      else Some \<lparr>kt_self_id = take nodeid_len self_id, kt_nodeid_len = nodeid_len, kt_k = KAD_K_DEFAULT,
                 kt_buckets = replicate (nodeid_len * 8) \<lparr>kb_nodes = [], kb_capacity = 0, kb_last_update = 0\<rparr>,
                 kt_bucket_count = nodeid_len * 8, kt_created = now\<rparr>)"

definition kad_table_xor_distance :: "kad_table \<Rightarrow> bytes \<Rightarrow> bytes \<Rightarrow> bytes" where
  "kad_table_xor_distance t a b = map2 (\<lambda>x y. x XOR y) (take (kt_nodeid_len t) a) (take (kt_nodeid_len t) b)"

definition kad_table_compare_distance :: "kad_table \<Rightarrow> bytes \<Rightarrow> bytes \<Rightarrow> int" where
  "kad_table_compare_distance t a b = cmp_bytes (kt_nodeid_len t) a b"

definition kad_table_bucket_index :: "kad_table \<Rightarrow> bytes \<Rightarrow> nat" where
  "kad_table_bucket_index t nid =
     (case scan_distance 0 (kad_table_xor_distance t (kt_self_id t) nid) of
        Some i \<Rightarrow> i
      | None \<Rightarrow> kt_bucket_count t - 1)"

definition grow_capacity :: "kad_table \<Rightarrow> k_bucket \<Rightarrow> k_bucket" where
  "grow_capacity t b =
     (if length (kb_nodes b) \<ge> kb_capacity b
      then b\<lparr>kb_capacity := if kb_capacity b = 0 then kt_k t else kb_capacity b * 2\<rparr> else b)"

definition kad_table_insert :: "kad_table \<Rightarrow> bytes \<Rightarrow> u32 \<Rightarrow> u16 \<Rightarrow> byte \<Rightarrow> int \<Rightarrow> int \<times> kad_table" where
  "kad_table_insert t nid ip port seed now =
     (let bi = kad_table_bucket_index t nid in
      if bi \<ge> kt_bucket_count t then (-1, t)
      else let b = kt_buckets t ! bi in
      case find_idx (\<lambda>n. kn_id n = nid) (kb_nodes b) of
        Some i \<Rightarrow>
          (0, t\<lparr>kt_buckets := (kt_buckets t)[bi :=
             b\<lparr>kb_nodes := (kb_nodes b)[i := (kb_nodes b ! i)\<lparr>kn_ip := ip, kn_port := port,
                                            kn_seed := seed, kn_last_seen := now\<rparr>],
                kb_last_update := now\<rparr>]\<rparr>)
      | None \<Rightarrow>
          let b1 = grow_capacity t b in
          (0, t\<lparr>kt_buckets := (kt_buckets t)[bi :=
             b1\<lparr>kb_nodes := kb_nodes b1 @ [\<lparr>kn_id = nid, kn_ip = ip, kn_port = port, kn_seed = seed,
                                              kn_last_seen = now, kn_bucket_idx = bi\<rparr>],
                kb_last_update := now\<rparr>]\<rparr>))"

definition kad_table_remove :: "kad_table \<Rightarrow> bytes \<Rightarrow> int \<times> kad_table" where
  "kad_table_remove t nid =
     (let bi = kad_table_bucket_index t nid in
      if bi \<ge> kt_bucket_count t then (-1, t)
      else let b = kt_buckets t ! bi in
      case find_idx (\<lambda>n. kn_id n = nid) (kb_nodes b) of
        Some i \<Rightarrow>
          (0, t\<lparr>kt_buckets := (kt_buckets t)[bi :=
             b\<lparr>kb_nodes := take i (kb_nodes b) @ drop (Suc i) (kb_nodes b)\<rparr>]\<rparr>)
      | None \<Rightarrow> (-1, t))"

definition all_nodes :: "kad_table \<Rightarrow> kad_node list" where
  "all_nodes t = concat (map kb_nodes (kt_buckets t))"

text \<open>
  The insertion sort. The sorted prefix is held last node first, so the inner \<open>while\<close> that
  walks \<open>j\<close> downwards walks this list; it stops at the first node that is not farther than
  the key.
\<close>

fun sift_in :: "kad_table \<Rightarrow> bytes \<Rightarrow> kad_node \<Rightarrow> kad_node list \<Rightarrow> kad_node list" where
  "sift_in t target key [] = [key]"
| "sift_in t target key (x # xs) =
     (if kad_table_compare_distance t (kad_table_xor_distance t target (kn_id key))
                                      (kad_table_xor_distance t target (kn_id x)) \<ge> 0
      then key # x # xs
      else x # sift_in t target key xs)"

definition sort_by_distance :: "kad_table \<Rightarrow> bytes \<Rightarrow> kad_node list \<Rightarrow> kad_node list" where
  "sort_by_distance t target ns = rev (fold (sift_in t target) ns [])"

text \<open>
  Distances are computed into two buffers of 264 bytes, from the second node on. A longer id
  is written behind them: no result. Otherwise the return code and the nodes stored through
  the pointer.
\<close>

definition KAD_DIST_BUF :: nat where "KAD_DIST_BUF = 264"

definition kad_table_closest :: "kad_table \<Rightarrow> bytes \<Rightarrow> int \<Rightarrow> (int \<times> kad_node list) option" where
  "kad_table_closest t target k =
     (if k \<le> 0 then Some (-1, [])
      else let ns = all_nodes t in
      if ns = [] then Some (0, [])
      else if length ns > 1 \<and> kt_nodeid_len t > KAD_DIST_BUF then None
      else let r = take (nat k) (sort_by_distance t target ns) in Some (int (length r), r))"

definition kad_table_size :: "kad_table \<Rightarrow> nat" where
  "kad_table_size t = sum_list (map (\<lambda>b. length (kb_nodes b)) (kt_buckets t))"

definition kad_table_refresh :: "kad_table \<Rightarrow> int \<Rightarrow> kad_table" where
  "kad_table_refresh t now =
     t\<lparr>kt_buckets := map (\<lambda>b. if kb_nodes b \<noteq> [] \<and> now - kb_last_update b > 900
                              then b\<lparr>kb_last_update := now\<rparr> else b) (kt_buckets t)\<rparr>"

section \<open>The fixed table of kademlia.c\<close>

definition K_BUCKET_SIZE :: nat where "K_BUCKET_SIZE = 8"
definition MAX_BUCKETS :: nat where "MAX_BUCKETS = 256"

record fixed_node =
  fn_id :: bytes
  fn_ip :: u32
  fn_port :: u16
  fn_seed :: byte
  fn_last_seen :: int

record fixed_bucket =
  fb_nodes :: "fixed_node list"
  fb_last_update :: int

record kad_state =
  ks_self_id :: bytes
  ks_self_seed :: byte
  ks_buckets :: "fixed_bucket list"
  ks_created :: int

definition kad_init :: "bytes \<Rightarrow> u32 \<Rightarrow> int \<Rightarrow> kad_state" where
  "kad_init pubkey external_ip now =
     \<lparr>ks_self_id = crypto_generate_node_id external_ip 1 pubkey, ks_self_seed = 1,
      ks_buckets = replicate MAX_BUCKETS \<lparr>fb_nodes = [], fb_last_update = 0\<rparr>, ks_created = now\<rparr>"

definition kad_get_bucket_index :: "kad_state \<Rightarrow> bytes \<Rightarrow> nat" where
  "kad_get_bucket_index s nid =
     (case scan_distance 0 (crypto_xor_distance (ks_self_id s) nid NODE_ID_BYTES) of
        Some i \<Rightarrow> i
      | None \<Rightarrow> MAX_BUCKETS - 1)"

definition kad_update_node :: "kad_state \<Rightarrow> bytes \<Rightarrow> u32 \<Rightarrow> u16 \<Rightarrow> byte \<Rightarrow> int \<Rightarrow> int \<times> kad_state" where
  "kad_update_node s nid ip port seed now =
     (let bi = kad_get_bucket_index s nid in
      if bi \<ge> MAX_BUCKETS then (-1, s)
      else let b = ks_buckets s ! bi in
      case find_idx (\<lambda>n. fn_id n = nid) (fb_nodes b) of
        Some i \<Rightarrow>
          (0, s\<lparr>ks_buckets := (ks_buckets s)[bi :=
             b\<lparr>fb_nodes := (fb_nodes b)[i := (fb_nodes b ! i)\<lparr>fn_ip := ip, fn_port := port,
                                            fn_seed := seed, fn_last_seen := now\<rparr>],
                fb_last_update := now\<rparr>]\<rparr>)
      | None \<Rightarrow>
          if length (fb_nodes b) < K_BUCKET_SIZE
          then (0, s\<lparr>ks_buckets := (ks_buckets s)[bi :=
                 b\<lparr>fb_nodes := fb_nodes b @ [\<lparr>fn_id = nid, fn_ip = ip, fn_port = port, fn_seed = seed,
                                                fn_last_seen = now\<rparr>],
                    fb_last_update := now\<rparr>]\<rparr>)
          else (-1, s))"

definition kad_refresh_buckets :: "kad_state \<Rightarrow> int \<Rightarrow> kad_state" where
  "kad_refresh_buckets s now =
     s\<lparr>ks_buckets := map (\<lambda>b. if fb_nodes b \<noteq> [] \<and> now - fb_last_update b > 900
                              then b\<lparr>fb_last_update := now\<rparr> else b) (ks_buckets s)\<rparr>"

definition kad_routing_table_size :: "kad_state \<Rightarrow> nat" where
  "kad_routing_table_size s = sum_list (map (\<lambda>b. length (fb_nodes b)) (ks_buckets s))"


section \<open>Host names\<close>

text \<open>A name is fully qualified when its dot-separated labels are at least two and none is empty.\<close>

fun labels :: "string \<Rightarrow> string list" where
  "labels [] = [[]]"
| "labels (c # cs) = (if c = CHR ''.'' then [] # labels cs else (c # hd (labels cs)) # tl (labels cs))"

lemma labels_not_Nil [simp]: "labels s \<noteq> []"
  by (induction s) auto

lemma labels_length: "length (labels (c # cs)) = (if c = CHR ''.'' then Suc (length (labels cs)) else length (labels cs))"
  by simp

lemma hd_labels: "s \<noteq> [] \<Longrightarrow> hd (labels s) = [] \<longleftrightarrow> hd s = CHR ''.''"
  by (cases s) auto

lemma set_labels: "set (labels s) = insert (hd (labels s)) (set (tl (labels s)))"
  by (metis labels_not_Nil list.collapse list.simps(15))

lemma fqdn_loop_labels:
  "s \<noteq> [] \<Longrightarrow> last s \<noteq> CHR ''.'' \<Longrightarrow>
     fqdn_loop s dot \<longleftrightarrow> [] \<notin> set (tl (labels s)) \<and> (dot \<or> 2 \<le> length (labels s))"
proof (induction s dot rule: fqdn_loop.induct)
  case (1 a b cs dot)
  show ?case
  proof (cases "a = CHR ''.''")
    case True
    have l: "labels (a # b # cs) = [] # labels (b # cs)" using True by simp
    have "fqdn_loop (b # cs) True \<longleftrightarrow> [] \<notin> set (tl (labels (b # cs)))" if "b \<noteq> CHR ''.''"
      using "1.IH"(1) [OF True that] "1.prems" by simp
    moreover have "[] \<in> set (labels (b # cs)) \<longleftrightarrow> b = CHR ''.'' \<or> [] \<in> set (tl (labels (b # cs)))"
      unfolding set_labels [of "b # cs"] using hd_labels [of "b # cs"] by (metis insert_iff list.discI list.sel(1))
    ultimately show ?thesis unfolding l fqdn_loop.simps using True by (simp del: labels.simps add: Suc_le_eq)
  next
    case False
    have l: "labels (a # b # cs) = (a # hd (labels (b # cs))) # tl (labels (b # cs))" using False by simp
    show ?thesis unfolding l fqdn_loop.simps using "1.IH"(2) [OF False] "1.prems" False by (simp del: labels.simps)
  qed
qed auto

lemma labels_last_dot: "last s = CHR ''.'' \<Longrightarrow> s \<noteq> [] \<Longrightarrow> [] \<in> set (tl (labels s))"
proof (induction s)
  case (Cons c cs)
  show ?case
  proof (cases "cs = []")
    case False
    then have "[] \<in> set (tl (labels cs))" using Cons by simp
    moreover from this have "[] \<in> set (labels cs)" unfolding set_labels [of cs] by simp
    ultimately show ?thesis by simp
  qed (use Cons.prems in simp)
qed simp

lemma bf_is_fqdn_labels: "bf_is_fqdn name \<longleftrightarrow> 2 \<le> length (labels name) \<and> [] \<notin> set (labels name)"
proof -
  consider "name = []" | "name \<noteq> []" "last name = CHR ''.''" | "name \<noteq> []" "last name \<noteq> CHR ''.''" by blast
  then show ?thesis
  proof cases
    case 2
    then have "[] \<in> set (labels name)" unfolding set_labels [of name] using labels_last_dot by blast
    with 2 show ?thesis by (simp add: bf_is_fqdn_def)
  next
    case 3
    then show ?thesis unfolding set_labels [of name] using fqdn_loop_labels [of name False] hd_labels [of name]
      by (simp add: bf_is_fqdn_def) metis
  qed (simp add: bf_is_fqdn_def)
qed

section \<open>Distance\<close>

text \<open>The XOR metric as a number; \<open>cmp_bytes\<close> compares these numbers.\<close>

fun bytes_nat :: "bytes \<Rightarrow> nat" where
  "bytes_nat [] = 0"
| "bytes_nat (b # bs) = unat b * 256 ^ length bs + bytes_nat bs"

definition xor_metric :: "bytes \<Rightarrow> bytes \<Rightarrow> nat" where
  "xor_metric a b = bytes_nat (map2 (\<lambda>x y. x XOR y) a b)"

definition id_bit :: "bytes \<Rightarrow> nat \<Rightarrow> bool" where
  "id_bit nid j = bit (nid ! (j div 8)) (7 - j mod 8)"

lemma bytes_nat_less: "bytes_nat bs < 256 ^ length bs"
proof (induction bs)
  case (Cons b bs)
  have "unat b < 256" using unsigned_less [of b, where ?'a = nat] by simp
  then have "(unat b + 1) * 256 ^ length bs \<le> 256 * 256 ^ length bs" by (intro mult_right_mono) auto
  moreover have "unat b * 256 ^ length bs + bytes_nat bs < (unat b + 1) * 256 ^ length bs"
    using Cons.IH by (simp add: algebra_simps)
  ultimately have "unat b * 256 ^ length bs + bytes_nat bs < 256 * 256 ^ length bs" by (rule less_le_trans [rotated])
  then show ?case by simp
qed simp

lemma bytes_nat_lead:
  assumes "length xs = length ys" "x < y"
  shows "bytes_nat (x # xs) < bytes_nat (y # ys)"
proof -
  have "(unat x + 1) * 256 ^ length xs \<le> unat y * 256 ^ length xs"
    using \<open>x < y\<close> by (intro mult_right_mono) (auto simp: word_less_nat_alt)
  moreover have "unat x * 256 ^ length xs + bytes_nat xs < (unat x + 1) * 256 ^ length xs"
    using bytes_nat_less [of xs] by (simp add: algebra_simps)
  ultimately have "unat x * 256 ^ length xs + bytes_nat xs < unat y * 256 ^ length xs" by (rule less_le_trans [rotated])
  with assms(1) show ?thesis by simp
qed

lemma cmp_bytes_nat:
  "length a = n \<Longrightarrow> length b = n \<Longrightarrow> 0 \<le> cmp_bytes n a b \<longleftrightarrow> bytes_nat b \<le> bytes_nat a"
proof (induction n a b rule: cmp_bytes.induct)
  case (1 n x xs y ys)
  consider "x < y" | "y < x" | "x = y" by fastforce
  then show ?case
  proof cases
    case 1
    then show ?thesis using bytes_nat_lead [of xs ys x y] "1.prems" by simp
  next
    case 2
    then show ?thesis using bytes_nat_lead [of ys xs y x] "1.prems" by simp
  next
    case 3
    then show ?thesis using "1.IH" "1.prems" by simp
  qed
qed auto

lemma bytes_nat_inj: "length a = length b \<Longrightarrow> bytes_nat a = bytes_nat b \<Longrightarrow> a = b"
proof (induction a b rule: list_induct2)
  case (Cons x xs y ys)
  have "\<not> x < y" "\<not> y < x"
    using bytes_nat_lead [of xs ys x y] bytes_nat_lead [of ys xs y x] Cons by auto
  then have "x = y" by simp
  with Cons show ?case by simp
qed simp

lemma map2_xor_cancel:
  "length c = length a \<Longrightarrow> length c = length b \<Longrightarrow>
     map2 (\<lambda>x y. x XOR y) c a = map2 (\<lambda>x y. x XOR y) c b \<Longrightarrow> a = b" for a b c :: bytes
proof (induction c arbitrary: a b)
  case (Cons z zs)
  obtain x xs y ys where ab: "a = x # xs" "b = y # ys"
    using Cons.prems(1,2) by (cases a; cases b) simp_all
  have h: "z XOR x = z XOR y" and t: "map2 (\<lambda>x y. x XOR y) zs xs = map2 (\<lambda>x y. x XOR y) zs ys"
    using Cons.prems(3) unfolding ab zip_Cons_Cons list.map case_prod_conv list.inject by blast+
  have "bit (z XOR x) n = bit (z XOR y) n" for n using h by (rule arg_cong)
  then have "x = y" by (intro bit_word_eqI) (auto simp: bit_xor_iff)
  moreover have "xs = ys" by (rule Cons.IH [OF _ _ t]) (use Cons.prems ab in simp_all)
  ultimately show ?case by (simp add: ab)
qed simp

lemma xor_metric_inj:
  "length a = length t \<Longrightarrow> length b = length t \<Longrightarrow> xor_metric t a = xor_metric t b \<longleftrightarrow> a = b"
  unfolding xor_metric_def
  by (metis bytes_nat_inj map2_xor_cancel length_map length_zip)

section \<open>The index names the first bit that differs\<close>

lemma drop_bit_and_1 [simp]: "drop_bit b d AND 1 \<noteq> 0 \<longleftrightarrow> bit d b" for d :: byte
  by (simp add: and_one_eq bit_iff_odd_drop_bit odd_iff_mod_2_eq_one)

lemma scan_byte_None: "scan_byte d n = None \<longleftrightarrow> (\<forall>j < n. \<not> bit d j)"
  by (induction n) (auto simp: less_Suc_eq)

lemma scan_byte_SomeD:
  "scan_byte d n = Some k \<Longrightarrow> n \<le> 8 \<Longrightarrow> k < 8 \<and> bit d (7 - k) \<and> (\<forall>j < n. 7 - k < j \<longrightarrow> \<not> bit d j)"
  by (induction n) (auto split: if_splits simp: less_Suc_eq)

lemma byte_zero_scan: "scan_byte d 8 = None \<longleftrightarrow> d = 0" for d :: byte
  unfolding scan_byte_None by (auto simp: bit_eq_iff dest: bit_imp_le_length)

lemma scan_byte_0 [simp]: "scan_byte 0 8 = None"
  by (simp only: byte_zero_scan)

lemma scan_distance_None: "scan_distance i ds = None \<longleftrightarrow> (\<forall>d \<in> set ds. d = 0)"
  by (induction ds arbitrary: i) (auto simp: byte_zero_scan split: option.splits)

lemma scan_distance_bits:
  "scan_distance i ds = Some k \<Longrightarrow>
     i * 8 \<le> k \<and> k < (i + length ds) * 8 \<and> id_bit ds (k - i * 8) \<and> (\<forall>j < k - i * 8. \<not> id_bit ds j)"
proof (induction ds arbitrary: i)
  case (Cons d ds)
  show ?case
  proof (cases "scan_byte d 8")
    case None
    then have d: "d = 0" by (simp add: byte_zero_scan)
    have IH: "Suc i * 8 \<le> k" "k < (Suc i + length ds) * 8" "id_bit ds (k - Suc i * 8)"
      "\<forall>j < k - Suc i * 8. \<not> id_bit ds j"
      using Cons.IH [of "Suc i"] Cons.prems None by simp_all
    have sh: "id_bit (d # ds) j = id_bit ds (j - 8)" if "8 \<le> j" for j
      using that by (simp add: id_bit_def div_if [of j 8] le_mod_geq)
    have lo: "\<not> id_bit (d # ds) j" if "j < 8" for j using that d by (simp add: id_bit_def)
    have "\<not> id_bit (d # ds) j" if "j < k - i * 8" for j
      by (cases "j < 8") (use that IH lo sh in auto)
    then show ?thesis using IH sh [of "k - i * 8"] by (auto simp: algebra_simps)
  next
    case (Some b)
    then have k: "k = i * 8 + b" using Cons by simp
    have b: "b < 8" "bit d (7 - b)" "\<forall>j < 8. 7 - b < j \<longrightarrow> \<not> bit d j"
      using scan_byte_SomeD [OF Some] by auto
    have "\<not> id_bit (d # ds) j" if "j < b" for j using that b by (simp add: id_bit_def)
    then show ?thesis using k b by (auto simp: id_bit_def)
  qed
qed simp

lemma id_bit_xor:
  "length a = length b \<Longrightarrow> j < length a * 8 \<Longrightarrow>
     id_bit (map2 (\<lambda>x y. x XOR y) a b) j \<longleftrightarrow> id_bit a j \<noteq> id_bit b j" for a b :: bytes
  by (simp add: id_bit_def bit_xor_iff less_mult_imp_div_less)

lemma clz_byte_scan:
  "n \<le> 8 \<Longrightarrow> clz_byte d n c = (case scan_byte d n of Some k \<Rightarrow> Inr (c + n - (8 - k)) | None \<Rightarrow> Inl (c + n))"
proof (induction n arbitrary: c)
  case (Suc n)
  then have "clz_byte d n (Suc c) = (case scan_byte d n of Some k \<Rightarrow> Inr (Suc c + n - (8 - k)) | None \<Rightarrow> Inl (Suc c + n))"
    by (intro Suc.IH) simp
  with Suc.prems show ?case by (auto split: option.split)
qed simp

lemma clz_loop_scan:
  "clz_loop ds (i * 8) = (case scan_distance i ds of Some k \<Rightarrow> k | None \<Rightarrow> (i + length ds) * 8)"
proof (induction ds arbitrary: i)
  case (Cons d ds)
  have "clz_byte d 8 (i * 8) = (case scan_byte d 8 of Some k \<Rightarrow> Inr (i * 8 + 8 - (8 - k)) | None \<Rightarrow> Inl (i * 8 + 8))"
    by (rule clz_byte_scan) simp
  then have "clz_loop (d # ds) (i * 8) = (case scan_byte d 8 of Some k \<Rightarrow> i * 8 + 8 - (8 - k) | None \<Rightarrow> clz_loop ds (Suc i * 8))"
    by (cases "d = 0") (simp_all add: byte_zero_scan [THEN iffD2] add.commute split: option.split)
  moreover have "i * 8 + 8 - (8 - k) = i * 8 + k" if "scan_byte d 8 = Some k" for k
    using scan_byte_SomeD [OF that] by simp
  ultimately show ?case unfolding Cons.IH by (simp split: option.split)
qed simp

section \<open>CRC-32C\<close>

text \<open>The checksum one byte at a time, eight shift steps per byte, with no table.\<close>

definition crc_ref :: "bytes \<Rightarrow> u32" where
  "crc_ref data = fold (\<lambda>d c. (crc_step ^^ 8) (c XOR ucast d)) data 0xFFFFFFFF XOR 0xFFFFFFFF"

lemma crc_step_alt: "crc_step x = drop_bit 1 x XOR (if bit x 0 then 0x82F63B78 else 0)"
  by (simp add: crc_step_def and_one_eq bit_0 odd_iff_mod_2_eq_one)

lemma cond_xor:
  "drop_bit 1 (x XOR y) XOR (if bit (x XOR y) 0 then P else 0) =
     (drop_bit 1 x XOR (if bit x 0 then P else 0)) XOR (drop_bit 1 y XOR (if bit y 0 then P else 0))"
  for x y P :: u32
  by (rule bit_word_eqI) (auto simp: bit_xor_iff bit_drop_bit_eq)

lemma crc_step_xor: "crc_step (x XOR y) = crc_step x XOR crc_step y"
  unfolding crc_step_alt by (rule cond_xor)

lemma crc_steps_xor: "(crc_step ^^ n) (x XOR y) = (crc_step ^^ n) x XOR (crc_step ^^ n) y"
  by (induction n) (simp_all add: crc_step_xor)

lemma crc_steps_high: "\<forall>i < n. \<not> bit x i \<Longrightarrow> (crc_step ^^ n) x = drop_bit n x"
proof (induction n arbitrary: x)
  case (Suc n)
  have "crc_step x = drop_bit 1 x" using Suc.prems by (simp add: crc_step_alt)
  moreover have "\<forall>i < n. \<not> bit (drop_bit 1 x) i" using Suc.prems by (simp add: bit_drop_bit_eq)
  ultimately have "(crc_step ^^ n) (crc_step x) = drop_bit n (drop_bit 1 x)" using Suc.IH by simp
  then show ?case by (simp add: funpow_swap1)
qed simp

lemma crc_table_step:
  "(crc_step ^^ 8) x = crc32c_table ! unat (x AND 0xFF) XOR drop_bit 8 x"
proof -
  have lo: "x AND 0xFF = take_bit 8 x" by (simp add: take_bit_eq_mask mask_eq_exp_minus_1)
  have split: "x = take_bit 8 x XOR push_bit 8 (drop_bit 8 x)"
    by (rule bit_word_eqI) (auto simp: bit_simps)
  have "unat (take_bit 8 x) < 256"
    using take_bit_nat_less_exp [of 8 "unat x"] by (simp add: unsigned_take_bit_eq)
  then have tab: "crc32c_table ! unat (x AND 0xFF) = (crc_step ^^ 8) (take_bit 8 x)"
    unfolding lo crc32c_table_def by simp
  have top: "n < 24" if "bit x (8 + n)" for n using bit_imp_le_length [OF that] by simp
  have hi: "(crc_step ^^ 8) (push_bit 8 (drop_bit 8 x)) = drop_bit 8 x"
    by (subst crc_steps_high) (auto simp: bit_simps intro!: bit_word_eqI top)
  show ?thesis using split crc_steps_xor [of 8 "take_bit 8 x" "push_bit 8 (drop_bit 8 x)"]
    unfolding tab hi by metis
qed

lemma crc_loop_ref: "crc_loop data c = fold (\<lambda>d c. (crc_step ^^ 8) (c XOR ucast d)) data c"
proof (induction data arbitrary: c)
  case (Cons d ds)
  have "drop_bit 8 (c XOR ucast d) = drop_bit 8 c" for c :: u32 and d :: byte
    by (rule bit_word_eqI) (auto simp: bit_simps dest: bit_imp_le_length)
  with Cons.IH show ?case by (simp only: crc_loop.simps fold_simps crc_table_step)
qed simp

lemma crc_step_eq_0: "crc_step x = 0 \<Longrightarrow> x = 0"
proof -
  assume z: "crc_step x = 0"
  have "\<not> bit x 0"
  proof
    assume "bit x 0"
    then have "bit (crc_step x) 31 = (bit (drop_bit 1 x) 31 \<noteq> bit (0x82F63B78 :: u32) 31)"
      by (simp add: crc_step_alt bit_xor_iff)
    moreover have "\<not> bit (drop_bit 1 x) 31" by (auto simp: bit_drop_bit_eq dest: bit_imp_le_length)
    moreover have "bit (0x82F63B78 :: u32) 31" by simp
    ultimately show False using z by simp
  qed
  moreover from this have "drop_bit 1 x = 0" using z by (simp add: crc_step_alt)
  then have "bit (drop_bit 1 x) n = False" for n by simp
  then have "\<not> bit x (Suc n)" for n by (simp add: bit_drop_bit_eq)
  ultimately show "x = 0" by (intro bit_word_eqI) (metis bit_0_eq bot_apply not0_implies_Suc bot_bool_def)
qed

lemma u32_xor_eq_0: "x XOR y = 0 \<longleftrightarrow> x = y" for x y :: u32
  by (auto simp: bit_eq_iff bit_xor_iff)

lemma u32_xor_cancel [simp]: "x XOR z = y XOR z \<longleftrightarrow> x = y" "z XOR x = z XOR y \<longleftrightarrow> x = y" for x y z :: u32
  by (auto simp: bit_eq_iff bit_xor_iff)

lemma ucast_byte_inj: "(ucast d :: u32) = ucast e \<longleftrightarrow> d = e" for d e :: byte
proof -
  have "ucast (ucast d :: u32) = d" for d :: byte by (rule bit_word_eqI) (simp add: bit_simps)
  then show ?thesis by metis
qed

lemma crc_steps_inj: "(crc_step ^^ n) x = (crc_step ^^ n) y \<longleftrightarrow> x = y"
proof -
  have "(crc_step ^^ n) z = 0 \<Longrightarrow> z = 0" for z by (induction n) (auto dest: crc_step_eq_0)
  then show ?thesis by (metis crc_steps_xor xor_self_eq u32_xor_eq_0)
qed

section \<open>Buckets\<close>

text \<open>
  The contract of a bucket array: every node lies in the bucket the index function names and
  no id occurs twice. \<open>buckets_get\<close> is the node with an id, wherever it lies.
\<close>

definition buckets_wf :: "(bytes \<Rightarrow> nat) \<Rightarrow> (bytes \<Rightarrow> bool) \<Rightarrow> ('n \<Rightarrow> bytes) \<Rightarrow> 'n list list \<Rightarrow> bool" where
  "buckets_wf idx ok key bs \<longleftrightarrow>
     (\<forall>i < length bs. distinct (map key (bs ! i)) \<and> (\<forall>n \<in> set (bs ! i). ok (key n) \<and> idx (key n) = i))"

definition buckets_get :: "('n \<Rightarrow> bytes) \<Rightarrow> 'n list list \<Rightarrow> bytes \<Rightarrow> 'n option" where
  "buckets_get key bs nid = List.find (\<lambda>n. key n = nid) (concat bs)"

lemma find_append: "List.find P (xs @ ys) = (case List.find P xs of Some x \<Rightarrow> Some x | None \<Rightarrow> List.find P ys)"
  by (induction xs) auto

lemma find_concat_one:
  "i < length bs \<Longrightarrow> \<forall>j < length bs. j \<noteq> i \<longrightarrow> (\<forall>n \<in> set (bs ! j). \<not> P n) \<Longrightarrow>
     List.find P (concat bs) = List.find P (bs ! i)"
proof (induction bs arbitrary: i)
  case (Cons b bs)
  show ?case
  proof (cases i)
    case 0
    have "\<forall>n \<in> set (concat bs). \<not> P n"
    proof
      fix n assume "n \<in> set (concat bs)"
      then obtain j where "j < length bs" "n \<in> set (bs ! j)" by (auto simp: in_set_conv_nth [of _ bs])
      with Cons.prems(2) [rule_format, of "Suc j" n] 0 show "\<not> P n" by simp
    qed
    then have "List.find P (concat bs) = None" unfolding find_None_iff by blast
    with 0 show ?thesis by (simp add: find_append split: option.split)
  next
    case (Suc k)
    have "\<forall>n \<in> set b. \<not> P n" using Cons.prems(2) [rule_format, of 0] Suc by simp
    then have "List.find P b = None" unfolding find_None_iff by blast
    moreover have "\<forall>j < length bs. j \<noteq> k \<longrightarrow> (\<forall>n \<in> set (bs ! j). \<not> P n)"
      using Cons.prems(2) [rule_format, of "Suc j" for j] Suc by simp
    ultimately show ?thesis using Cons.IH [of k] Cons.prems(1) Suc by (simp add: find_append)
  qed
qed simp

lemma distinct_concat_map:
  "(\<And>i. i < length bs \<Longrightarrow> distinct (map key (bs ! i))) \<Longrightarrow>
   (\<And>i j n m. i < length bs \<Longrightarrow> j < length bs \<Longrightarrow> n \<in> set (bs ! i) \<Longrightarrow> m \<in> set (bs ! j) \<Longrightarrow>
      key n = key m \<Longrightarrow> i = j) \<Longrightarrow>
   distinct (map key (concat bs))"
proof (induction bs)
  case (Cons b bs)
  have "distinct (map key b)" using Cons.prems(1) [of 0] by simp
  moreover have "distinct (map key (concat bs))"
  proof (rule Cons.IH)
    show "distinct (map key (bs ! i))" if "i < length bs" for i using Cons.prems(1) [of "Suc i"] that by simp
    show "i = j" if "i < length bs" "j < length bs" "n \<in> set (bs ! i)" "m \<in> set (bs ! j)" "key n = key m" for i j n m
      using Cons.prems(2) [of "Suc i" "Suc j" n m] that by simp
  qed
  moreover have "key n \<noteq> key m" if n: "n \<in> set b" and m: "m \<in> set (concat bs)" for n m
  proof
    assume e: "key n = key m"
    obtain j where "j < length bs" "m \<in> set (bs ! j)" using m by (auto simp: in_set_conv_nth [of _ bs])
    with Cons.prems(2) [of 0 "Suc j" n m] n e show False by simp
  qed
  then have "key ` set b \<inter> key ` set (concat bs) = {}" by blast
  ultimately show ?case by simp
qed simp

lemma buckets_wfD:
  "buckets_wf idx ok key bs \<Longrightarrow> i < length bs \<Longrightarrow> distinct (map key (bs ! i))"
  "buckets_wf idx ok key bs \<Longrightarrow> i < length bs \<Longrightarrow> n \<in> set (bs ! i) \<Longrightarrow> ok (key n)"
  "buckets_wf idx ok key bs \<Longrightarrow> i < length bs \<Longrightarrow> n \<in> set (bs ! i) \<Longrightarrow> idx (key n) = i"
  by (simp_all add: buckets_wf_def)

text \<open>The three ways a bucket changes: a node overwritten, appended, or taken out.\<close>

lemma find_overwrite:
  "find_idx (\<lambda>n. key n = nid) b = Some i \<Longrightarrow> key v = nid \<Longrightarrow>
     List.find (\<lambda>n. key n = m) (b[i := v]) = (if m = nid then Some v else List.find (\<lambda>n. key n = m) b)"
proof (induction b arbitrary: i)
  case (Cons x xs)
  then show ?case by (cases "key x = nid") auto
qed simp

lemma find_snoc:
  "find_idx (\<lambda>n. key n = nid) b = None \<Longrightarrow> key v = nid \<Longrightarrow>
     List.find (\<lambda>n. key n = m) (b @ [v]) = (if m = nid then Some v else List.find (\<lambda>n. key n = m) b)"
  by (induction b) auto

lemma find_take_out:
  "find_idx (\<lambda>n. key n = nid) b = Some i \<Longrightarrow> distinct (map key b) \<Longrightarrow>
     List.find (\<lambda>n. key n = m) (take i b @ drop (Suc i) b) =
       (if m = nid then None else List.find (\<lambda>n. key n = m) b)"
proof (induction b arbitrary: i)
  case (Cons x xs)
  show ?case
  proof (cases "key x = nid")
    case True
    with Cons.prems have "i = 0" "nid \<notin> key ` set xs" by auto
    then show ?thesis using True by (auto simp: find_None_iff image_iff)
  next
    case False
    with Cons.prems obtain k where "i = Suc k" "find_idx (\<lambda>n. key n = nid) xs = Some k" by auto
    then show ?thesis using Cons.IH [of k] Cons.prems(2) False by (cases "m = nid") auto
  qed
qed simp

lemma keys_overwrite:
  "find_idx (\<lambda>n. key n = nid) b = Some i \<Longrightarrow> key v = nid \<Longrightarrow> map key (b[i := v]) = map key b"
  by (frule find_idx_less, drule find_idx_holds) (simp add: map_update list_update_same_conv)

lemma distinct_take_out: "distinct (map key b) \<Longrightarrow> distinct (map key (take i b @ drop (Suc i) b))"
  by (simp add: distinct_drop set_take_disj_set_drop_if_distinct flip: take_map drop_map set_map)

locale bucket_index =
  fixes idx :: "bytes \<Rightarrow> nat" and nb :: nat and ok :: "bytes \<Rightarrow> bool" and key :: "'n \<Rightarrow> bytes"
  assumes idx_less: "ok nid \<Longrightarrow> idx nid < nb"
begin

lemma ids_distinct: "buckets_wf idx ok key bs \<Longrightarrow> distinct (map key (concat bs))"
  by (rule distinct_concat_map) (use buckets_wfD in metis)+

lemma get_local:
  assumes "buckets_wf idx ok key bs" "length bs = nb" "ok nid"
  shows "buckets_get key bs nid = List.find (\<lambda>n. key n = nid) (bs ! idx nid)"
  unfolding buckets_get_def
  by (rule find_concat_one) (use assms idx_less in \<open>auto simp: buckets_wf_def\<close>)

lemma get_invalid: "buckets_wf idx ok key bs \<Longrightarrow> \<not> ok nid \<Longrightarrow> buckets_get key bs nid = None"
  by (fastforce simp: buckets_get_def find_None_iff buckets_wf_def in_set_conv_nth [of _ bs])

lemma wf_update:
  assumes "buckets_wf idx ok key bs" "distinct (map key b)" "\<And>n. n \<in> set b \<Longrightarrow> ok (key n) \<and> idx (key n) = i"
  shows "buckets_wf idx ok key (bs[i := b])"
  unfolding buckets_wf_def
proof (intro allI impI)
  fix j assume "j < length (bs[i := b])"
  then show "distinct (map key (bs[i := b] ! j)) \<and> (\<forall>n \<in> set (bs[i := b] ! j). ok (key n) \<and> idx (key n) = j)"
    using assms by (cases "j = i") (auto simp: buckets_wf_def)
qed

lemma get_update:
  assumes wf: "buckets_wf idx ok key bs" and len: "length bs = nb" and ok: "ok nid"
    and wf': "buckets_wf idx ok key (bs[idx nid := b])"
    and keep: "\<And>m. m \<noteq> nid \<Longrightarrow> List.find (\<lambda>n. key n = m) b = List.find (\<lambda>n. key n = m) (bs ! idx nid)"
  shows "buckets_get key (bs[idx nid := b]) = (buckets_get key bs)(nid := List.find (\<lambda>n. key n = nid) b)"
proof
  fix m
  have len': "length (bs[idx nid := b]) = nb" using len by simp
  show "buckets_get key (bs[idx nid := b]) m = ((buckets_get key bs)(nid := List.find (\<lambda>n. key n = nid) b)) m"
  proof (cases "ok m")
    case True
    then show ?thesis
      using get_local [OF wf len True] get_local [OF wf' len' True] keep [of m] idx_less [OF ok] len
      by (cases "m = nid"; cases "idx m = idx nid") auto
  next
    case False
    then show ?thesis using get_invalid [OF wf] get_invalid [OF wf'] ok by auto
  qed
qed

end

section \<open>The parameterised table is a map from ids to contacts\<close>

definition kad_geometry :: "kad_table \<Rightarrow> bool" where
  "kad_geometry t \<longleftrightarrow> 0 < kt_nodeid_len t \<and> length (kt_self_id t) = kt_nodeid_len t \<and>
     kt_bucket_count t = kt_nodeid_len t * 8"

definition kad_id_ok :: "kad_table \<Rightarrow> bytes \<Rightarrow> bool" where
  "kad_id_ok t nid \<longleftrightarrow> kad_geometry t \<and> length nid = kt_nodeid_len t"

definition kad_nodes :: "kad_table \<Rightarrow> kad_node list list" where
  "kad_nodes t = map kb_nodes (kt_buckets t)"

lemma kad_index_less: "kad_id_ok t nid \<Longrightarrow> kad_table_bucket_index t nid < kt_bucket_count t"
  using scan_distance_bits [of 0 "kad_table_xor_distance t (kt_self_id t) nid"]
  by (auto simp: kad_table_bucket_index_def kad_id_ok_def kad_geometry_def kad_table_xor_distance_def split: option.split)

interpretation ktb: bucket_index "kad_table_bucket_index t" "kt_bucket_count t" "kad_id_ok t" kn_id for t
  by unfold_locales (rule kad_index_less)

lemma kad_frame [simp]:
  "kad_table_bucket_index (t\<lparr>kt_buckets := bs\<rparr>) = kad_table_bucket_index t"
  "kad_id_ok (t\<lparr>kt_buckets := bs\<rparr>) = kad_id_ok t"
  "kad_geometry (t\<lparr>kt_buckets := bs\<rparr>) = kad_geometry t"
  "kad_nodes (t\<lparr>kt_buckets := bs\<rparr>) = map kb_nodes bs"
  by (auto simp: fun_eq_iff kad_table_bucket_index_def kad_table_xor_distance_def kad_id_ok_def kad_geometry_def kad_nodes_def split: option.split)

definition kad_inv :: "kad_table \<Rightarrow> bool" where
  "kad_inv t \<longleftrightarrow> kad_geometry t \<and> length (kt_buckets t) = kt_bucket_count t \<and>
     buckets_wf (kad_table_bucket_index t) (kad_id_ok t) kn_id (kad_nodes t)"

definition kad_map :: "kad_table \<Rightarrow> bytes \<Rightarrow> (u32 \<times> u16 \<times> byte \<times> int) option" where
  "kad_map t nid = map_option (\<lambda>n. (kn_ip n, kn_port n, kn_seed n, kn_last_seen n)) (buckets_get kn_id (kad_nodes t) nid)"

lemma kad_bucket_change:
  assumes inv: "kad_inv t" and ok: "kad_id_ok t nid"
    and dist: "distinct (map kn_id (kb_nodes b))"
    and home: "\<And>n. n \<in> set (kb_nodes b) \<Longrightarrow> kn_id n = nid \<or> n \<in> set (kad_nodes t ! kad_table_bucket_index t nid)"
    and find: "\<And>m. List.find (\<lambda>n. kn_id n = m) (kb_nodes b) =
        (if m = nid then r else List.find (\<lambda>n. kn_id n = m) (kad_nodes t ! kad_table_bucket_index t nid))"
  shows "kad_inv (t\<lparr>kt_buckets := (kt_buckets t)[kad_table_bucket_index t nid := b]\<rparr>)"
    and "kad_map (t\<lparr>kt_buckets := (kt_buckets t)[kad_table_bucket_index t nid := b]\<rparr>) =
      (kad_map t)(nid := map_option (\<lambda>n. (kn_ip n, kn_port n, kn_seed n, kn_last_seen n)) r)"
proof -
  have wf: "buckets_wf (kad_table_bucket_index t) (kad_id_ok t) kn_id (kad_nodes t)"
    and len: "length (kad_nodes t) = kt_bucket_count t"
    using inv by (simp_all add: kad_inv_def kad_nodes_def)
  have i: "kad_table_bucket_index t nid < length (kad_nodes t)" using kad_index_less [OF ok] len by simp
  have wf': "buckets_wf (kad_table_bucket_index t) (kad_id_ok t) kn_id ((kad_nodes t)[kad_table_bucket_index t nid := kb_nodes b])"
    by (rule ktb.wf_update [OF wf dist]) (use home ok buckets_wfD(2,3) [OF wf i] in metis)
  have nodes: "map kb_nodes ((kt_buckets t)[kad_table_bucket_index t nid := b]) = (kad_nodes t)[kad_table_bucket_index t nid := kb_nodes b]"
    by (simp add: kad_nodes_def map_update)
  show "kad_inv (t\<lparr>kt_buckets := (kt_buckets t)[kad_table_bucket_index t nid := b]\<rparr>)"
    using inv wf' by (simp add: kad_inv_def nodes)
  have "buckets_get kn_id ((kad_nodes t)[kad_table_bucket_index t nid := kb_nodes b]) = (buckets_get kn_id (kad_nodes t))(nid := r)"
    using ktb.get_update [OF wf len ok wf'] find by simp
  then show "kad_map (t\<lparr>kt_buckets := (kt_buckets t)[kad_table_bucket_index t nid := b]\<rparr>) =
      (kad_map t)(nid := map_option (\<lambda>n. (kn_ip n, kn_port n, kn_seed n, kn_last_seen n)) r)"
    by (simp add: fun_eq_iff kad_map_def nodes)
qed

lemma kad_bucket_wf:
  assumes "kad_inv t" "kad_id_ok t nid"
  shows "distinct (map kn_id (kb_nodes (kt_buckets t ! kad_table_bucket_index t nid)))"
    and "kad_nodes t ! kad_table_bucket_index t nid = kb_nodes (kt_buckets t ! kad_table_bucket_index t nid)"
proof -
  have i: "kad_table_bucket_index t nid < length (kt_buckets t)"
    using kad_index_less [OF assms(2)] assms(1) by (simp add: kad_inv_def)
  then show "kad_nodes t ! kad_table_bucket_index t nid = kb_nodes (kt_buckets t ! kad_table_bucket_index t nid)"
    by (simp add: kad_nodes_def)
  moreover have "distinct (map kn_id (kad_nodes t ! kad_table_bucket_index t nid))"
    by (rule buckets_wfD(1) [of "kad_table_bucket_index t" "kad_id_ok t"]) (use assms(1) i in \<open>simp_all add: kad_inv_def kad_nodes_def\<close>)
  ultimately show "distinct (map kn_id (kb_nodes (kt_buckets t ! kad_table_bucket_index t nid)))" by simp
qed

lemma kad_insert_ok:
  assumes inv: "kad_inv t" and ok: "kad_id_ok t nid" and r: "kad_table_insert t nid ip port seed now = (rc, t')"
  shows "rc = 0 \<and> kad_inv t' \<and> kad_map t' = (kad_map t)(nid \<mapsto> (ip, port, seed, now))"
proof -
  let ?i = "kad_table_bucket_index t nid"
  let ?b = "kt_buckets t ! ?i"
  note b = kad_bucket_wf [OF inv ok]
  have lt: "\<not> kt_bucket_count t \<le> ?i" using kad_index_less [OF ok] by simp
  show ?thesis
  proof (cases "find_idx (\<lambda>n. kn_id n = nid) (kb_nodes ?b)")
    case None
    define v where "v = \<lparr>kn_id = nid, kn_ip = ip, kn_port = port, kn_seed = seed, kn_last_seen = now, kn_bucket_idx = ?i\<rparr>"
    define c where "c = (grow_capacity t ?b)\<lparr>kb_nodes := kb_nodes ?b @ [v], kb_last_update := now\<rparr>"
    have t': "rc = 0" "t' = t\<lparr>kt_buckets := (kt_buckets t)[?i := c]\<rparr>"
      using r None lt by (auto simp: kad_table_insert_def Let_def c_def v_def grow_capacity_def)
    have d: "distinct (map kn_id (kb_nodes c))" using b None by (auto simp: c_def v_def)
    have f: "List.find (\<lambda>n. kn_id n = m) (kb_nodes c) = (if m = nid then Some v else List.find (\<lambda>n. kn_id n = m) (kad_nodes t ! ?i))" for m
      using find_snoc [OF None, of v m] b(2) by (simp add: c_def v_def)
    have h: "n \<in> set (kb_nodes c) \<Longrightarrow> kn_id n = nid \<or> n \<in> set (kad_nodes t ! ?i)" for n
      using b(2) by (auto simp: c_def v_def)
    show ?thesis unfolding t'(2) using kad_bucket_change [OF inv ok d h f] t'(1)
      by (simp add: v_def)
  next
    case (Some i)
    define v where "v = (kb_nodes ?b ! i)\<lparr>kn_ip := ip, kn_port := port, kn_seed := seed, kn_last_seen := now\<rparr>"
    define c where "c = ?b\<lparr>kb_nodes := (kb_nodes ?b)[i := v], kb_last_update := now\<rparr>"
    have v: "kn_id v = nid" using find_idx_holds [OF Some] by (simp add: v_def)
    have t': "rc = 0" "t' = t\<lparr>kt_buckets := (kt_buckets t)[?i := c]\<rparr>"
      using r Some lt by (auto simp: kad_table_insert_def Let_def c_def v_def)
    have d: "distinct (map kn_id (kb_nodes c))" using b keys_overwrite [OF Some v] by (simp add: c_def)
    have f: "List.find (\<lambda>n. kn_id n = m) (kb_nodes c) = (if m = nid then Some v else List.find (\<lambda>n. kn_id n = m) (kad_nodes t ! ?i))" for m
      using find_overwrite [OF Some v, of m] b(2) by (simp add: c_def)
    have h: "n \<in> set (kb_nodes c) \<Longrightarrow> kn_id n = nid \<or> n \<in> set (kad_nodes t ! ?i)" for n
      using set_update_subset_insert [of "kb_nodes ?b" i v] v b(2) by (auto simp: c_def)
    show ?thesis unfolding t'(2) using kad_bucket_change [OF inv ok d h f] t'(1)
      by (auto simp: v_def)
  qed
qed

lemma kad_remove_ok:
  assumes inv: "kad_inv t" and ok: "kad_id_ok t nid" and r: "kad_table_remove t nid = (rc, t')"
  shows "rc = (if kad_map t nid = None then -1 else 0) \<and> kad_inv t' \<and> kad_map t' = (kad_map t)(nid := None)"
proof -
  let ?i = "kad_table_bucket_index t nid"
  let ?b = "kt_buckets t ! ?i"
  note b = kad_bucket_wf [OF inv ok]
  have lt: "\<not> kt_bucket_count t \<le> ?i" using kad_index_less [OF ok] by simp
  have get: "buckets_get kn_id (kad_nodes t) nid = List.find (\<lambda>n. kn_id n = nid) (kb_nodes ?b)"
    using ktb.get_local [of t "kad_nodes t" nid] inv ok b(2) by (simp add: kad_inv_def kad_nodes_def)
  show ?thesis
  proof (cases "find_idx (\<lambda>n. kn_id n = nid) (kb_nodes ?b)")
    case None
    then have "List.find (\<lambda>n. kn_id n = nid) (kb_nodes ?b) = None" unfolding find_None_iff by auto
    then have "kad_map t nid = None" by (simp add: kad_map_def get)
    moreover have "rc = -1" "t' = t" using r None lt by (auto simp: kad_table_remove_def Let_def)
    ultimately show ?thesis using inv by (auto simp: fun_eq_iff)
  next
    case (Some i)
    define c where "c = ?b\<lparr>kb_nodes := take i (kb_nodes ?b) @ drop (Suc i) (kb_nodes ?b)\<rparr>"
    have t': "rc = 0" "t' = t\<lparr>kt_buckets := (kt_buckets t)[?i := c]\<rparr>"
      using r Some lt by (auto simp: kad_table_remove_def Let_def c_def)
    have d: "distinct (map kn_id (kb_nodes c))" using distinct_take_out [OF b(1)] by (simp add: c_def)
    have f: "List.find (\<lambda>n. kn_id n = m) (kb_nodes c) = (if m = nid then None else List.find (\<lambda>n. kn_id n = m) (kad_nodes t ! ?i))" for m
      using find_take_out [OF Some b(1), of m] b(2) by (simp add: c_def)
    have h: "n \<in> set (kb_nodes c) \<Longrightarrow> kn_id n = nid \<or> n \<in> set (kad_nodes t ! ?i)" for n
      using b(2) by (auto simp: c_def dest: in_set_takeD in_set_dropD)
    have "List.find (\<lambda>n. kn_id n = nid) (kb_nodes ?b) \<noteq> None"
      using find_idx_holds [OF Some] find_idx_less [OF Some] unfolding find_None_iff by (meson nth_mem)
    then have "kad_map t nid \<noteq> None" by (simp add: kad_map_def get)
    then show ?thesis unfolding t'(2) using kad_bucket_change [OF inv ok d h f] t'(1) by simp
  qed
qed

lemma kad_refresh_ok: "kad_inv t \<Longrightarrow> kad_inv (kad_table_refresh t now) \<and> kad_map (kad_table_refresh t now) = kad_map t"
proof -
  have "kb_nodes (if kb_nodes b \<noteq> [] \<and> now - kb_last_update b > 900 then b\<lparr>kb_last_update := now\<rparr> else b) = kb_nodes b" for b
    by simp
  then have n: "kad_nodes (kad_table_refresh t now) = kad_nodes t"
    by (simp add: kad_table_refresh_def kad_nodes_def)
  show "kad_inv t \<Longrightarrow> ?thesis" unfolding kad_inv_def fun_eq_iff kad_map_def n by (simp add: kad_table_refresh_def)
qed

lemma kad_new_ok: "kad_table_new n self now = Some t \<Longrightarrow> length self = n \<Longrightarrow> kad_inv t \<and> kad_map t = Map.empty"
  by (auto simp: kad_table_new_def kad_inv_def kad_geometry_def buckets_wf_def kad_nodes_def kad_map_def
        buckets_get_def fun_eq_iff find_None_iff split: if_splits)

text \<open>Runs of the public operations, and the map they are meant to maintain.\<close>

datatype kad_op =
  KInsert bytes u32 u16 byte int
| KRemove bytes
| KRefresh int

fun kad_op_id :: "kad_op \<Rightarrow> bytes option" where
  "kad_op_id (KInsert nid _ _ _ _) = Some nid"
| "kad_op_id (KRemove nid) = Some nid"
| "kad_op_id (KRefresh _) = None"

fun kad_step :: "kad_op \<Rightarrow> kad_table \<Rightarrow> int \<times> kad_table" where
  "kad_step (KInsert nid ip port seed now) t = kad_table_insert t nid ip port seed now"
| "kad_step (KRemove nid) t = kad_table_remove t nid"
| "kad_step (KRefresh now) t = (0, kad_table_refresh t now)"

fun kad_spec :: "kad_op \<Rightarrow> (bytes \<rightharpoonup> u32 \<times> u16 \<times> byte \<times> int) \<Rightarrow> int \<times> (bytes \<rightharpoonup> u32 \<times> u16 \<times> byte \<times> int)" where
  "kad_spec (KInsert nid ip port seed now) m = (0, m(nid \<mapsto> (ip, port, seed, now)))"
| "kad_spec (KRemove nid) m = (if m nid = None then -1 else 0, m(nid := None))"
| "kad_spec (KRefresh now) m = (0, m)"

fun run_ops :: "('o \<Rightarrow> 's \<Rightarrow> int \<times> 's) \<Rightarrow> 'o list \<Rightarrow> 's \<Rightarrow> int list \<times> 's" where
  "run_ops f [] s = ([], s)"
| "run_ops f (x # xs) s = (let (rc, s1) = f x s; (rcs, s2) = run_ops f xs s1 in (rc # rcs, s2))"

lemma kad_op_len:
  "kt_nodeid_len (snd (kad_table_insert t nid ip port seed now)) = kt_nodeid_len t"
  "kt_nodeid_len (snd (kad_table_remove t nid)) = kt_nodeid_len t"
  "kt_nodeid_len (kad_table_refresh t now) = kt_nodeid_len t"
  by (simp_all add: kad_table_insert_def kad_table_remove_def kad_table_refresh_def Let_def split: option.split)

lemma kad_step_ok:
  assumes "kad_inv t" "\<forall>nid. kad_op_id p = Some nid \<longrightarrow> length nid = kt_nodeid_len t" "kad_step p t = (rc, t')"
  shows "kad_inv t' \<and> kt_nodeid_len t' = kt_nodeid_len t \<and> kad_spec p (kad_map t) = (rc, kad_map t')"
proof (cases p)
  case (KInsert nid ip port seed now)
  then have "kad_id_ok t nid" using assms by (simp add: kad_id_ok_def kad_inv_def)
  then show ?thesis using kad_insert_ok [OF assms(1), of nid ip port seed now rc t'] assms(3) KInsert
      kad_op_len(1) [of t nid ip port seed now] by simp
next
  case (KRemove nid)
  then have "kad_id_ok t nid" using assms by (simp add: kad_id_ok_def kad_inv_def)
  then show ?thesis using kad_remove_ok [OF assms(1), of nid rc t'] assms(3) KRemove
      kad_op_len(2) [of t nid] by simp
next
  case (KRefresh now)
  then show ?thesis using kad_refresh_ok [OF assms(1), of now] assms(3) kad_op_len(3) [of t now] by auto
qed

lemma kad_run_ok:
  "kad_inv t \<Longrightarrow> \<forall>p \<in> set ps. \<forall>nid. kad_op_id p = Some nid \<longrightarrow> length nid = kt_nodeid_len t \<Longrightarrow>
     run_ops kad_step ps t = (rcs, t') \<Longrightarrow>
     kad_inv t' \<and> kt_nodeid_len t' = kt_nodeid_len t \<and> run_ops kad_spec ps (kad_map t) = (rcs, kad_map t')"
proof (induction ps arbitrary: t rcs t')
  case (Cons p ps)
  obtain rc t1 where s: "kad_step p t = (rc, t1)" by fastforce
  obtain rcs1 t2 where r: "run_ops kad_step ps t1 = (rcs1, t2)" by fastforce
  have 1: "kad_inv t1" "kt_nodeid_len t1 = kt_nodeid_len t" "kad_spec p (kad_map t) = (rc, kad_map t1)"
    using kad_step_ok [OF Cons.prems(1) _ s] Cons.prems(2) by simp_all
  then show ?case using Cons.IH [OF 1(1) _ r] Cons.prems s r by simp
qed simp

section \<open>Closest nodes\<close>

lemma all_nodes_concat: "all_nodes t = concat (kad_nodes t)"
  by (simp add: all_nodes_def kad_nodes_def)

lemma kad_ids: "kad_inv t \<Longrightarrow> distinct (map kn_id (all_nodes t))"
  unfolding all_nodes_concat by (rule ktb.ids_distinct [of t]) (simp add: kad_inv_def)

lemma kad_id_len: "kad_inv t \<Longrightarrow> n \<in> set (all_nodes t) \<Longrightarrow> length (kn_id n) = kt_nodeid_len t"
  by (fastforce simp: all_nodes_concat kad_inv_def buckets_wf_def kad_id_ok_def in_set_conv_nth [of _ "kad_nodes t"])

lemma find_distinct:
  "distinct (map key xs) \<Longrightarrow> List.find (\<lambda>n. key n = k) xs = Some n \<longleftrightarrow> n \<in> set xs \<and> key n = k"
  by (induction xs) (auto simp: image_iff)

lemma kad_map_iff:
  "kad_inv t \<Longrightarrow> kad_map t nid = Some c \<longleftrightarrow>
     (\<exists>n \<in> set (all_nodes t). kn_id n = nid \<and> c = (kn_ip n, kn_port n, kn_seed n, kn_last_seen n))"
  using find_distinct [OF kad_ids, of t nid]
  by (auto simp: kad_map_def buckets_get_def all_nodes_concat)

lemma kad_map_dom: "kad_inv t \<Longrightarrow> dom (kad_map t) = kn_id ` set (all_nodes t)"
  unfolding dom_def using kad_map_iff [of t] by (auto simp only: not_None_eq)

lemma kad_size_card: "kad_inv t \<Longrightarrow> length (all_nodes t) = card (dom (kad_map t))"
  using distinct_card [OF kad_ids, of t] by (simp add: kad_map_dom)

lemma kad_table_size_nodes: "kad_table_size t = length (all_nodes t)"
  by (simp add: kad_table_size_def all_nodes_def length_concat o_def)

lemma sift_test:
  assumes "length target = kt_nodeid_len t" "length (kn_id a) = kt_nodeid_len t" "length (kn_id b) = kt_nodeid_len t"
  shows "0 \<le> kad_table_compare_distance t (kad_table_xor_distance t target (kn_id a)) (kad_table_xor_distance t target (kn_id b))
    \<longleftrightarrow> xor_metric target (kn_id b) \<le> xor_metric target (kn_id a)"
  unfolding kad_table_compare_distance_def kad_table_xor_distance_def xor_metric_def
  using assms by (subst cmp_bytes_nat) simp_all

lemma sift_in_mset: "mset (sift_in t target key xs) = add_mset key (mset xs)"
  by (induction xs) auto

lemma sift_in_set: "set (sift_in t target key xs) = insert key (set xs)"
  by (metis sift_in_mset set_mset_add_mset_insert set_mset_mset)

lemma sift_in_sorted:
  assumes "length target = kt_nodeid_len t"
  shows "\<forall>n \<in> insert key (set xs). length (kn_id n) = kt_nodeid_len t \<Longrightarrow>
     sorted_wrt (\<lambda>a b. xor_metric target (kn_id b) \<le> xor_metric target (kn_id a)) xs \<Longrightarrow>
     sorted_wrt (\<lambda>a b. xor_metric target (kn_id b) \<le> xor_metric target (kn_id a)) (sift_in t target key xs)"
proof (induction xs)
  case (Cons x xs)
  then show ?case using sift_test [OF assms, of key x] by (auto simp: sift_in_set)
qed simp

lemma sort_fold_sorted:
  assumes "length target = kt_nodeid_len t"
  shows "\<forall>n \<in> set ns \<union> set acc. length (kn_id n) = kt_nodeid_len t \<Longrightarrow>
     sorted_wrt (\<lambda>a b. xor_metric target (kn_id b) \<le> xor_metric target (kn_id a)) acc \<Longrightarrow>
     sorted_wrt (\<lambda>a b. xor_metric target (kn_id b) \<le> xor_metric target (kn_id a)) (fold (sift_in t target) ns acc) \<and>
     mset (fold (sift_in t target) ns acc) = mset ns + mset acc"
proof (induction ns arbitrary: acc)
  case (Cons n ns)
  have "\<forall>m \<in> set ns \<union> set (sift_in t target n acc). length (kn_id m) = kt_nodeid_len t"
    using Cons.prems(1) by (auto simp: sift_in_set)
  moreover have "sorted_wrt (\<lambda>a b. xor_metric target (kn_id b) \<le> xor_metric target (kn_id a)) (sift_in t target n acc)"
    using sift_in_sorted [OF assms] Cons.prems by simp
  ultimately show ?case using Cons.IH by (simp add: sift_in_mset)
qed simp

lemma sort_by_distance_ok:
  assumes "kad_inv t" "length target = kt_nodeid_len t"
  shows "sorted_wrt (\<lambda>a b. xor_metric target (kn_id a) < xor_metric target (kn_id b)) (sort_by_distance t target (all_nodes t))"
    and "mset (sort_by_distance t target (all_nodes t)) = mset (all_nodes t)"
proof -
  let ?s = "sort_by_distance t target (all_nodes t)"
  have f: "sorted_wrt (\<lambda>a b. xor_metric target (kn_id a) \<le> xor_metric target (kn_id b)) ?s" "mset ?s = mset (all_nodes t)"
    using sort_fold_sorted [OF assms(2), of "all_nodes t" "[]"] kad_id_len [OF assms(1)]
    by (simp_all add: sort_by_distance_def sorted_wrt_rev)
  then show "mset ?s = mset (all_nodes t)" by simp
  have "distinct (map kn_id ?s)" using kad_ids [OF assms(1)] f(2) by (metis mset_map mset_eq_imp_distinct_iff)
  then have d: "kn_id (?s ! i) \<noteq> kn_id (?s ! j)" if "i < j" "j < length ?s" for i j
    using that nth_eq_iff_index_eq [of "map kn_id ?s" i j] by simp
  have len: "length (kn_id n) = length target" if "n \<in> set ?s" for n
    using that f(2) kad_id_len [OF assms(1)] assms(2) by (metis set_mset_mset)
  show "sorted_wrt (\<lambda>a b. xor_metric target (kn_id a) < xor_metric target (kn_id b)) ?s"
    unfolding sorted_wrt_iff_nth_less
  proof (intro allI impI)
    fix i j assume ij: "i < j" "j < length ?s"
    then have "xor_metric target (kn_id (?s ! i)) \<le> xor_metric target (kn_id (?s ! j))"
      using f(1) by (simp add: sorted_wrt_iff_nth_less)
    moreover have "xor_metric target (kn_id (?s ! i)) \<noteq> xor_metric target (kn_id (?s ! j))"
      using xor_metric_inj [of _ target] len d [OF ij] ij by simp
    ultimately show "xor_metric target (kn_id (?s ! i)) < xor_metric target (kn_id (?s ! j))" by simp
  qed
qed

section \<open>The fixed table\<close>

definition ks_geometry :: "kad_state \<Rightarrow> bool" where
  "ks_geometry s \<longleftrightarrow> length (ks_self_id s) = NODE_ID_BYTES \<and> length (ks_buckets s) = MAX_BUCKETS"

definition ks_id_ok :: "kad_state \<Rightarrow> bytes \<Rightarrow> bool" where
  "ks_id_ok s nid \<longleftrightarrow> ks_geometry s \<and> length nid = NODE_ID_BYTES"

definition ks_nodes :: "kad_state \<Rightarrow> fixed_node list list" where
  "ks_nodes s = map fb_nodes (ks_buckets s)"

lemma ks_index_less: "ks_id_ok s nid \<Longrightarrow> kad_get_bucket_index s nid < MAX_BUCKETS"
  using scan_distance_bits [of 0 "crypto_xor_distance (ks_self_id s) nid NODE_ID_BYTES"]
  by (auto simp: kad_get_bucket_index_def ks_id_ok_def ks_geometry_def crypto_xor_distance_def
        NODE_ID_BYTES_def MAX_BUCKETS_def split: option.split)

interpretation ksb: bucket_index "kad_get_bucket_index s" MAX_BUCKETS "ks_id_ok s" fn_id for s
  by unfold_locales (rule ks_index_less)

definition ks_inv :: "kad_state \<Rightarrow> bool" where
  "ks_inv s \<longleftrightarrow> ks_geometry s \<and> (\<forall>b \<in> set (ks_buckets s). length (fb_nodes b) \<le> K_BUCKET_SIZE) \<and>
     buckets_wf (kad_get_bucket_index s) (ks_id_ok s) fn_id (ks_nodes s)"

definition ks_map :: "kad_state \<Rightarrow> bytes \<Rightarrow> (u32 \<times> u16 \<times> byte \<times> int) option" where
  "ks_map s nid = map_option (\<lambda>n. (fn_ip n, fn_port n, fn_seed n, fn_last_seen n)) (buckets_get fn_id (ks_nodes s) nid)"

lemma ks_frame [simp]:
  "kad_get_bucket_index (s\<lparr>ks_buckets := bs\<rparr>) = kad_get_bucket_index s"
  "ks_nodes (s\<lparr>ks_buckets := bs\<rparr>) = map fb_nodes bs"
  "ks_geometry (s\<lparr>ks_buckets := bs\<rparr>) = (length (ks_self_id s) = NODE_ID_BYTES \<and> length bs = MAX_BUCKETS)"
  by (auto simp: fun_eq_iff kad_get_bucket_index_def ks_nodes_def ks_geometry_def split: option.split)

lemma ks_bucket_change:
  assumes inv: "ks_inv s" and ok: "ks_id_ok s nid"
    and dist: "distinct (map fn_id (fb_nodes b))" and le: "length (fb_nodes b) \<le> K_BUCKET_SIZE"
    and home: "\<And>n. n \<in> set (fb_nodes b) \<Longrightarrow> fn_id n = nid \<or> n \<in> set (ks_nodes s ! kad_get_bucket_index s nid)"
    and find: "\<And>m. List.find (\<lambda>n. fn_id n = m) (fb_nodes b) =
        (if m = nid then r else List.find (\<lambda>n. fn_id n = m) (ks_nodes s ! kad_get_bucket_index s nid))"
  shows "ks_inv (s\<lparr>ks_buckets := (ks_buckets s)[kad_get_bucket_index s nid := b]\<rparr>)"
    and "ks_map (s\<lparr>ks_buckets := (ks_buckets s)[kad_get_bucket_index s nid := b]\<rparr>) =
      (ks_map s)(nid := map_option (\<lambda>n. (fn_ip n, fn_port n, fn_seed n, fn_last_seen n)) r)"
proof -
  have wf: "buckets_wf (kad_get_bucket_index s) (ks_id_ok s) fn_id (ks_nodes s)"
    and len: "length (ks_nodes s) = MAX_BUCKETS" and g: "length (ks_self_id s) = NODE_ID_BYTES" "length (ks_buckets s) = MAX_BUCKETS"
    using inv by (simp_all add: ks_inv_def ks_nodes_def ks_geometry_def)
  have i: "kad_get_bucket_index s nid < length (ks_nodes s)" using ks_index_less [OF ok] len by simp
  have wf': "buckets_wf (kad_get_bucket_index s) (ks_id_ok s) fn_id ((ks_nodes s)[kad_get_bucket_index s nid := fb_nodes b])"
    by (rule ksb.wf_update [OF wf dist]) (use home ok buckets_wfD(2,3) [OF wf i] in metis)
  have nodes: "map fb_nodes ((ks_buckets s)[kad_get_bucket_index s nid := b]) = (ks_nodes s)[kad_get_bucket_index s nid := fb_nodes b]"
    by (simp add: ks_nodes_def map_update)
  have ok': "ks_id_ok (s\<lparr>ks_buckets := (ks_buckets s)[kad_get_bucket_index s nid := b]\<rparr>) = ks_id_ok s"
    by (simp add: fun_eq_iff ks_id_ok_def g) (simp add: ks_geometry_def g)
  show "ks_inv (s\<lparr>ks_buckets := (ks_buckets s)[kad_get_bucket_index s nid := b]\<rparr>)"
    using inv wf' le set_update_subset_insert [of "ks_buckets s" "kad_get_bucket_index s nid" b]
    by (auto simp: ks_inv_def nodes ok' g)
  have "buckets_get fn_id ((ks_nodes s)[kad_get_bucket_index s nid := fb_nodes b]) = (buckets_get fn_id (ks_nodes s))(nid := r)"
    using ksb.get_update [OF wf len ok wf'] find by simp
  then show "ks_map (s\<lparr>ks_buckets := (ks_buckets s)[kad_get_bucket_index s nid := b]\<rparr>) =
      (ks_map s)(nid := map_option (\<lambda>n. (fn_ip n, fn_port n, fn_seed n, fn_last_seen n)) r)"
    by (simp add: fun_eq_iff ks_map_def nodes)
qed

lemma ks_ids: "ks_inv s \<Longrightarrow> distinct (map fn_id (concat (ks_nodes s)))"
  by (rule ksb.ids_distinct [of s]) (simp add: ks_inv_def)

lemma ks_map_dom: "dom (ks_map s) = fn_id ` set (concat (ks_nodes s))"
proof -
  have "ks_map s nid = None \<longleftrightarrow> nid \<notin> fn_id ` set (concat (ks_nodes s))" for nid
    unfolding ks_map_def buckets_get_def map_option_is_None find_None_iff by auto
  then show ?thesis by (auto simp: dom_def)
qed

lemma ks_size_card: "ks_inv s \<Longrightarrow> kad_routing_table_size s = card (dom (ks_map s))"
  using distinct_card [OF ks_ids, of s]
  by (simp add: ks_map_dom kad_routing_table_size_def ks_nodes_def length_concat o_def)

lemma ks_size_bound: "ks_inv s \<Longrightarrow> kad_routing_table_size s \<le> MAX_BUCKETS * K_BUCKET_SIZE"
  using sum_list_mono [of "ks_buckets s" "\<lambda>b. length (fb_nodes b)" "\<lambda>_. K_BUCKET_SIZE"]
  by (simp add: ks_inv_def kad_routing_table_size_def ks_geometry_def sum_list_triv)

lemma ks_update_ok:
  assumes inv: "ks_inv s" and ok: "ks_id_ok s nid" and r: "kad_update_node s nid ip port seed now = (rc, s')"
  shows "ks_inv s' \<and> ks_self_id s' = ks_self_id s \<and>
    (if ks_map s nid \<noteq> None \<or> length (ks_nodes s ! kad_get_bucket_index s nid) < K_BUCKET_SIZE
     then rc = 0 \<and> ks_map s' = (ks_map s)(nid \<mapsto> (ip, port, seed, now))
     else rc = -1 \<and> s' = s)"
proof -
  let ?i = "kad_get_bucket_index s nid"
  let ?b = "ks_buckets s ! ?i"
  have lt: "\<not> MAX_BUCKETS \<le> ?i" "?i < length (ks_buckets s)"
    using ks_index_less [OF ok] inv by (simp_all add: ks_inv_def ks_geometry_def)
  then have bn: "ks_nodes s ! ?i = fb_nodes ?b" and le: "length (fb_nodes ?b) \<le> K_BUCKET_SIZE"
    using inv by (simp_all add: ks_nodes_def ks_inv_def)
  have bd: "distinct (map fn_id (fb_nodes ?b))"
    using buckets_wfD(1) [of "kad_get_bucket_index s" "ks_id_ok s" fn_id "ks_nodes s" ?i] inv lt(2) bn
    by (simp add: ks_inv_def ks_nodes_def)
  have get: "buckets_get fn_id (ks_nodes s) nid = List.find (\<lambda>n. fn_id n = nid) (fb_nodes ?b)"
    using ksb.get_local [of s "ks_nodes s" nid] inv ok bn by (simp add: ks_inv_def ks_nodes_def ks_geometry_def)
  show ?thesis
  proof (cases "find_idx (\<lambda>n. fn_id n = nid) (fb_nodes ?b)")
    case None
    then have "List.find (\<lambda>n. fn_id n = nid) (fb_nodes ?b) = None" unfolding find_None_iff by auto
    then have m: "ks_map s nid = None" by (simp add: ks_map_def get)
    define v where "v = \<lparr>fn_id = nid, fn_ip = ip, fn_port = port, fn_seed = seed, fn_last_seen = now\<rparr>"
    define c where "c = ?b\<lparr>fb_nodes := fb_nodes ?b @ [v], fb_last_update := now\<rparr>"
    have d: "distinct (map fn_id (fb_nodes c))" using bd None by (auto simp: c_def v_def)
    have f: "List.find (\<lambda>n. fn_id n = m) (fb_nodes c) = (if m = nid then Some v else List.find (\<lambda>n. fn_id n = m) (ks_nodes s ! ?i))" for m
      using find_snoc [OF None, of v m] bn by (simp add: c_def v_def)
    have h: "n \<in> set (fb_nodes c) \<Longrightarrow> fn_id n = nid \<or> n \<in> set (ks_nodes s ! ?i)" for n
      using bn by (auto simp: c_def v_def)
    show ?thesis
    proof (cases "length (fb_nodes ?b) < K_BUCKET_SIZE")
      case True
      then have "rc = 0" "s' = s\<lparr>ks_buckets := (ks_buckets s)[?i := c]\<rparr>"
        using r None lt by (auto simp: kad_update_node_def Let_def c_def v_def)
      moreover have "length (fb_nodes c) \<le> K_BUCKET_SIZE" using True by (simp add: c_def)
      ultimately show ?thesis using ks_bucket_change [OF inv ok d _ h f] True m bn by (simp add: v_def)
    next
      case False
      then show ?thesis using r None lt m bn inv by (simp add: kad_update_node_def Let_def)
    qed
  next
    case (Some i)
    define v where "v = (fb_nodes ?b ! i)\<lparr>fn_ip := ip, fn_port := port, fn_seed := seed, fn_last_seen := now\<rparr>"
    define c where "c = ?b\<lparr>fb_nodes := (fb_nodes ?b)[i := v], fb_last_update := now\<rparr>"
    have v: "fn_id v = nid" using find_idx_holds [OF Some] by (simp add: v_def)
    have s': "rc = 0" "s' = s\<lparr>ks_buckets := (ks_buckets s)[?i := c]\<rparr>"
      using r Some lt by (auto simp: kad_update_node_def Let_def c_def v_def)
    have d: "distinct (map fn_id (fb_nodes c))" using bd keys_overwrite [OF Some v] by (simp add: c_def)
    have f: "List.find (\<lambda>n. fn_id n = m) (fb_nodes c) = (if m = nid then Some v else List.find (\<lambda>n. fn_id n = m) (ks_nodes s ! ?i))" for m
      using find_overwrite [OF Some v, of m] bn by (simp add: c_def)
    have h: "n \<in> set (fb_nodes c) \<Longrightarrow> fn_id n = nid \<or> n \<in> set (ks_nodes s ! ?i)" for n
      using set_update_subset_insert [of "fb_nodes ?b" i v] v bn by (auto simp: c_def)
    have "List.find (\<lambda>n. fn_id n = nid) (fb_nodes ?b) \<noteq> None"
      using find_idx_holds [OF Some] find_idx_less [OF Some] unfolding find_None_iff by (meson nth_mem)
    then have "ks_map s nid \<noteq> None" by (simp add: ks_map_def get)
    moreover have "length (fb_nodes c) \<le> K_BUCKET_SIZE" using le by (simp add: c_def)
    ultimately show ?thesis using ks_bucket_change [OF inv ok d _ h f] s' by (simp add: v_def)
  qed
qed

lemma xor_all_0: "length a = length b \<Longrightarrow> \<forall>d \<in> set (map2 (\<lambda>x y. x XOR y) a b). d = 0 \<Longrightarrow> a = b" for a b :: bytes
proof (induction a b rule: list_induct2)
  case (Cons x xs y ys)
  have "x XOR y = 0" using Cons.prems by simp
  then have "bit (x XOR y) n = False" for n by simp
  then have "x = y" by (intro bit_word_eqI) (simp add: bit_xor_iff)
  with Cons show ?case by simp
qed simp

lemma kad_index_prefix:
  assumes "kad_id_ok t nid" "nid \<noteq> kt_self_id t"
  shows "(\<forall>j < kad_table_bucket_index t nid. id_bit nid j = id_bit (kt_self_id t) j) \<and>
    id_bit nid (kad_table_bucket_index t nid) \<noteq> id_bit (kt_self_id t) (kad_table_bucket_index t nid)"
proof -
  let ?d = "map2 (\<lambda>x y. x XOR y) (kt_self_id t) nid"
  have len: "length (kt_self_id t) = length nid" and d: "kad_table_xor_distance t (kt_self_id t) nid = ?d"
    using assms(1) by (simp_all add: kad_id_ok_def kad_geometry_def kad_table_xor_distance_def)
  have "scan_distance 0 ?d \<noteq> None" unfolding scan_distance_None using xor_all_0 [OF len] assms(2) by auto
  then obtain k where k: "scan_distance 0 ?d = Some k" by auto
  then have i: "kad_table_bucket_index t nid = k" by (simp add: kad_table_bucket_index_def d)
  have b: "k < length (kt_self_id t) * 8" "id_bit ?d k" "\<forall>j < k. \<not> id_bit ?d j"
    using scan_distance_bits [OF k] len by simp_all
  have "id_bit nid j = id_bit (kt_self_id t) j" if "j < k" for j
    using id_bit_xor [OF len, of j] b(1) b(3) that by simp
  moreover have "id_bit nid k \<noteq> id_bit (kt_self_id t) k" using id_bit_xor [OF len b(1)] b(2) by simp
  ultimately show ?thesis unfolding i by simp
qed

lemma kad_step_self: "kt_self_id (snd (kad_step p t)) = kt_self_id t"
  by (cases p) (simp_all add: kad_table_insert_def kad_table_remove_def kad_table_refresh_def Let_def split: option.split)

lemma kad_run_self: "kt_self_id (snd (run_ops kad_step ps t)) = kt_self_id t"
proof (induction ps arbitrary: t)
  case (Cons p ps)
  then show ?case using kad_step_self [of p t] by (simp add: split_beta Let_def)
qed simp

section \<open>Properties\<close>

text \<open>A routing table made by \<open>kad_table_new\<close> and changed by any sequence of
  \<open>kad_table_insert\<close>, \<open>kad_table_remove\<close> and \<open>kad_table_refresh\<close> is a map from node ids to
  contacts: every return code and the contact stored under every id are those of the map with
  the same operations; \<open>kad_table_size\<close> counts its ids; and a node in bucket \<open>i\<close>, other than
  one with the table's own id, agrees with the own id in exactly the first \<open>i\<close> bits.\<close>

theorem kad_table_refines_map:
  assumes "kad_table_new n self now = Some t0" "length self = n"
    and "\<forall>p \<in> set ps. \<forall>nid. kad_op_id p = Some nid \<longrightarrow> length nid = n"
    and "run_ops kad_step ps t0 = (rcs, t)"
  shows "run_ops kad_spec ps Map.empty = (rcs, kad_map t) \<and>
    kad_table_size t = card (dom (kad_map t)) \<and>
    (\<forall>i < length (kt_buckets t). \<forall>x \<in> set (kb_nodes (kt_buckets t ! i)).
       kn_id x = self \<or>
       (\<forall>j < i. id_bit (kn_id x) j = id_bit self j) \<and> id_bit (kn_id x) i \<noteq> id_bit self i)"
proof -
  have t0: "kad_inv t0" "kad_map t0 = Map.empty" "kt_nodeid_len t0 = n" "kt_self_id t0 = self"
    using kad_new_ok [OF assms(1,2)] assms(1,2) by (auto simp: kad_table_new_def split: if_splits)
  have r: "kad_inv t" "run_ops kad_spec ps Map.empty = (rcs, kad_map t)"
    using kad_run_ok [OF t0(1) _ assms(4)] assms(3) t0 by simp_all
  have self: "kt_self_id t = self" using kad_run_self [of ps t0] assms(4) t0(4) by simp
  have "kn_id x = self \<or> (\<forall>j < i. id_bit (kn_id x) j = id_bit self j) \<and> id_bit (kn_id x) i \<noteq> id_bit self i"
    if "i < length (kt_buckets t)" "x \<in> set (kb_nodes (kt_buckets t ! i))" for i x
  proof -
    have x: "i < length (kad_nodes t)" "x \<in> set (kad_nodes t ! i)" using that by (simp_all add: kad_nodes_def)
    have wf: "buckets_wf (kad_table_bucket_index t) (kad_id_ok t) kn_id (kad_nodes t)" using r(1) by (simp add: kad_inv_def)
    have "kad_id_ok t (kn_id x)" "kad_table_bucket_index t (kn_id x) = i"
      using buckets_wfD(2) [OF wf x] buckets_wfD(3) [OF wf x] by simp_all
    then show ?thesis using kad_index_prefix [of t "kn_id x"] self by auto
  qed
  then show ?thesis using r kad_size_card [OF r(1)] by (simp add: kad_table_size_nodes)
qed

text \<open>C10: \<open>kad_table_closest\<close> answers with the \<open>k\<close> known nodes nearest to the target, or with
  all of them when fewer are known, and returns their number: the contacts are those the
  table holds, in strictly increasing XOR distance, and every known id that is left out is
  farther than every id returned. The exception is a table of ids above 264 bytes, which
  \<open>kad_table_new\<close> accepts: once two nodes are known the call writes behind its buffers.\<close>

theorem kad_closest_correct:
  assumes "kad_table_new n self now = Some t0" "length self = n"
    and "\<forall>p \<in> set ps. \<forall>nid. kad_op_id p = Some nid \<longrightarrow> length nid = n"
    and "run_ops kad_step ps t0 = (rcs, t)" "length target = n" "0 < k"
  shows "if 264 < n \<and> 1 < card (dom (kad_map t)) then kad_table_closest t target k = None
    else \<exists>r. kad_table_closest t target k = Some (int (length r), r) \<and>
    length r = min (nat k) (card (dom (kad_map t))) \<and>
    sorted_wrt (\<lambda>a b. xor_metric target (kn_id a) < xor_metric target (kn_id b)) r \<and>
    (\<forall>x \<in> set r. kad_map t (kn_id x) = Some (kn_ip x, kn_port x, kn_seed x, kn_last_seen x)) \<and>
    (\<forall>nid \<in> dom (kad_map t). nid \<notin> kn_id ` set r \<longrightarrow>
       (\<forall>x \<in> set r. xor_metric target (kn_id x) < xor_metric target nid))"
proof -
  have t0: "kad_inv t0" "kt_nodeid_len t0 = n"
    using kad_new_ok [OF assms(1,2)] assms(1) by (auto simp: kad_table_new_def split: if_splits)
  have r: "kad_inv t" "length target = kt_nodeid_len t"
    using kad_run_ok [OF t0(1) _ assms(4)] assms(3,5) t0 by simp_all
  define S where "S = sort_by_distance t target (all_nodes t)"
  have S: "sorted_wrt (\<lambda>a b. xor_metric target (kn_id a) < xor_metric target (kn_id b)) S" "mset S = mset (all_nodes t)"
    using sort_by_distance_ok [OF r] by (simp_all add: S_def)
  then have set: "set S = set (all_nodes t)" and len: "length S = card (dom (kad_map t))"
    using kad_size_card [OF r(1)] by (metis set_mset_mset, metis size_mset)
  have lens: "length (all_nodes t) = length S" using S(2) by (metis size_mset)
  have c: "kad_table_closest t target k =
      (if 1 < length S \<and> 264 < n then None else Some (int (length (take (nat k) S)), take (nat k) S))"
    using assms(5,6) r(2) lens by (auto simp: kad_table_closest_def KAD_DIST_BUF_def Let_def S_def [symmetric])
  have "xor_metric target (kn_id x) < xor_metric target nid"
    if nid: "nid \<in> dom (kad_map t)" "nid \<notin> kn_id ` set (take (nat k) S)" and x: "x \<in> set (take (nat k) S)" for nid x
  proof -
    obtain y where "y \<in> set S" "kn_id y = nid" using nid(1) kad_map_dom [OF r(1)] set by auto
    moreover from this have "y \<in> set (drop (nat k) S)" using nid(2) by (metis Un_iff append_take_drop_id image_eqI set_append)
    ultimately show ?thesis using x S(1) by (metis append_take_drop_id sorted_wrt_append)
  qed
  moreover have "kad_map t (kn_id x) = Some (kn_ip x, kn_port x, kn_seed x, kn_last_seen x)" if "x \<in> set (take (nat k) S)" for x
    using kad_map_iff [OF r(1)] in_set_takeD [OF that] set by auto
  ultimately show ?thesis using S(1) len c by (auto simp: sorted_wrt_take)
qed

text \<open>The fixed table: what a run of \<open>kad_update_node\<close> maintains. A bucket of an id is the set
  of known ids with its index.\<close>

type_synonym ks_update = "bytes \<times> u32 \<times> u16 \<times> byte \<times> int"

fun ks_step :: "ks_update + int \<Rightarrow> kad_state \<Rightarrow> int \<times> kad_state" where
  "ks_step (Inl (nid, ip, port, seed, now)) s = kad_update_node s nid ip port seed now"
| "ks_step (Inr now) s = (0, kad_refresh_buckets s now)"

fun ks_spec :: "(bytes \<Rightarrow> nat) \<Rightarrow> ks_update + int \<Rightarrow> (bytes \<rightharpoonup> u32 \<times> u16 \<times> byte \<times> int) \<Rightarrow>
    int \<times> (bytes \<rightharpoonup> u32 \<times> u16 \<times> byte \<times> int)" where
  "ks_spec idx (Inl (nid, c)) m =
     (if nid \<in> dom m \<or> card {x \<in> dom m. idx x = idx nid} < K_BUCKET_SIZE then (0, m(nid \<mapsto> c)) else (-1, m))"
| "ks_spec idx (Inr now) m = (0, m)"

lemma ks_bucket_card:
  assumes "ks_inv s" "ks_id_ok s nid"
  shows "card {x \<in> dom (ks_map s). kad_get_bucket_index s x = kad_get_bucket_index s nid} =
    length (ks_nodes s ! kad_get_bucket_index s nid)"
proof -
  let ?i = "kad_get_bucket_index s nid"
  have wf: "buckets_wf (kad_get_bucket_index s) (ks_id_ok s) fn_id (ks_nodes s)" using assms(1) by (simp add: ks_inv_def)
  have i: "?i < length (ks_nodes s)"
    using ks_index_less [OF assms(2)] assms(1) by (simp add: ks_inv_def ks_nodes_def ks_geometry_def)
  have "{x \<in> dom (ks_map s). kad_get_bucket_index s x = ?i} = fn_id ` set (ks_nodes s ! ?i)"
  proof (intro set_eqI iffI)
    fix x assume x: "x \<in> {x \<in> dom (ks_map s). kad_get_bucket_index s x = ?i}"
    then obtain n b where "n \<in> set b" "b \<in> set (ks_nodes s)" "fn_id n = x" by (auto simp: ks_map_dom)
    moreover from this obtain j where "j < length (ks_nodes s)" "b = ks_nodes s ! j" by (auto simp: in_set_conv_nth)
    ultimately show "x \<in> fn_id ` set (ks_nodes s ! ?i)" using buckets_wfD(3) [OF wf, of j n] x by auto
  next
    fix x assume "x \<in> fn_id ` set (ks_nodes s ! ?i)"
    then show "x \<in> {x \<in> dom (ks_map s). kad_get_bucket_index s x = ?i}"
      using buckets_wfD(3) [OF wf i] nth_mem [OF i] by (auto simp: ks_map_dom)
  qed
  then show ?thesis using distinct_card [OF buckets_wfD(1) [OF wf i]] by simp
qed

lemma ks_refresh_ok:
  "ks_inv s \<Longrightarrow> ks_inv (kad_refresh_buckets s now) \<and> ks_map (kad_refresh_buckets s now) = ks_map s \<and>
     ks_self_id (kad_refresh_buckets s now) = ks_self_id s"
proof -
  have n: "ks_nodes (kad_refresh_buckets s now) = ks_nodes s" by (simp add: kad_refresh_buckets_def ks_nodes_def)
  have ok: "ks_id_ok (kad_refresh_buckets s now) = ks_id_ok s"
    by (simp add: fun_eq_iff ks_id_ok_def ks_geometry_def kad_refresh_buckets_def)
  show "ks_inv s \<Longrightarrow> ?thesis"
    unfolding ks_inv_def fun_eq_iff ks_map_def n ok
    by (auto simp: kad_refresh_buckets_def ks_geometry_def)
qed

lemma ks_index_self: "ks_self_id s = ks_self_id s' \<Longrightarrow> kad_get_bucket_index s = kad_get_bucket_index s'"
  by (simp add: fun_eq_iff kad_get_bucket_index_def)

lemma ks_step_ok:
  assumes "ks_inv s" "\<forall>u. p = Inl u \<longrightarrow> length (fst u) = NODE_ID_BYTES" "ks_step p s = (rc, s')"
  shows "ks_inv s' \<and> ks_self_id s' = ks_self_id s \<and> ks_spec (kad_get_bucket_index s) p (ks_map s) = (rc, ks_map s')"
proof (cases p)
  case (Inl u)
  obtain nid ip port seed now where u: "u = (nid, ip, port, seed, now)" by (cases u) auto
  have ok: "ks_id_ok s nid" using assms(1,2) Inl u by (simp add: ks_id_ok_def ks_inv_def)
  have "nid \<in> dom (ks_map s) \<longleftrightarrow> ks_map s nid \<noteq> None" by auto
  then show ?thesis
    using ks_update_ok [OF assms(1) ok, of ip port seed now rc s'] assms(3) Inl u ks_bucket_card [OF assms(1) ok]
    by (simp split: if_splits)
next
  case (Inr now)
  then show ?thesis using assms ks_refresh_ok [OF assms(1), of now] by auto
qed

lemma ks_run_ok:
  "ks_inv s \<Longrightarrow> \<forall>p \<in> set ps. \<forall>u. p = Inl u \<longrightarrow> length (fst u) = NODE_ID_BYTES \<Longrightarrow> run_ops ks_step ps s = (rcs, s') \<Longrightarrow>
     ks_inv s' \<and> run_ops (ks_spec (kad_get_bucket_index s)) ps (ks_map s) = (rcs, ks_map s')"
proof (induction ps arbitrary: s rcs s')
  case (Cons p ps)
  obtain rc s1 where st: "ks_step p s = (rc, s1)" by fastforce
  obtain rcs1 s2 where r: "run_ops ks_step ps s1 = (rcs1, s2)" by fastforce
  have 1: "ks_inv s1" "ks_self_id s1 = ks_self_id s" "ks_spec (kad_get_bucket_index s) p (ks_map s) = (rc, ks_map s1)"
    using ks_step_ok [OF Cons.prems(1) _ st] Cons.prems(2) by simp_all
  show ?case using Cons.IH [OF 1(1) _ r] Cons.prems st r 1 ks_index_self [OF 1(2)] by simp
qed simp

lemma ks_init_ok:
  assumes "NODE_ID_BYTES - 3 \<le> length pubkey"
  shows "ks_inv (kad_init pubkey ip now) \<and> ks_map (kad_init pubkey ip now) = Map.empty"
proof -
  have n: "ks_nodes (kad_init pubkey ip now) = replicate MAX_BUCKETS []" by (simp add: ks_nodes_def kad_init_def)
  have "length (ks_self_id (kad_init pubkey ip now)) = NODE_ID_BYTES"
    using assms by (simp add: kad_init_def crypto_generate_node_id_def NODE_ID_BYTES_def Let_def)
  then show ?thesis
    by (simp add: ks_inv_def ks_map_def fun_eq_iff n buckets_get_def ks_geometry_def buckets_wf_def)
       (simp add: kad_init_def K_BUCKET_SIZE_def)
qed

text \<open>The fixed routing table of \<open>kademlia.c\<close>, from \<open>kad_init\<close> through any sequence of
  \<open>kad_update_node\<close> and \<open>kad_refresh_buckets\<close>, is a map from ids to contacts in which an
  update of a known id always succeeds, a new id is refused with \<open>-1\<close> exactly when eight known
  ids already have its bucket index, and no update drops another id; the table never holds
  more than 256 times 8 nodes and \<open>kad_routing_table_size\<close> counts them.\<close>

theorem kad_state_refines_map:
  assumes "NODE_ID_BYTES - 3 \<le> length pubkey"
    and "\<forall>p \<in> set ps. \<forall>u. p = Inl u \<longrightarrow> length (fst u) = NODE_ID_BYTES"
    and "run_ops ks_step ps (kad_init pubkey ip now) = (rcs, s)"
  shows "run_ops (ks_spec (kad_get_bucket_index (kad_init pubkey ip now))) ps Map.empty = (rcs, ks_map s) \<and>
    kad_routing_table_size s = card (dom (ks_map s)) \<and> kad_routing_table_size s \<le> MAX_BUCKETS * K_BUCKET_SIZE"
  using ks_run_ok [OF _ assms(2,3)] ks_init_ok [OF assms(1), of ip now] ks_size_card ks_size_bound by auto

theorem kad_state_refines_map_witness:
  "\<exists>rcs s. run_ops ks_step [Inl (replicate 32 9, 1, 2, 3, 4), Inr 2000, Inl (replicate 32 9, 5, 6, 7, 8)]
      (kad_init (replicate 32 7) 0x7F000001 0) = (rcs, s) \<and>
     rcs = [0, 0, 0] \<and> ks_map s (replicate 32 9) = Some (5, 6, 7, 8) \<and> kad_routing_table_size s = 1"
proof -
  define n9 :: bytes where "n9 = replicate 32 9"
  define ps :: "(ks_update + int) list" where "ps = [Inl (n9, 1, 2, 3, 4), Inr 2000, Inl (n9, 5, 6, 7, 8)]"
  define s0 where "s0 = kad_init (replicate 32 7) 0x7F000001 0"
  obtain rcs s where r: "run_ops ks_step ps s0 = (rcs, s)" by fastforce
  have "run_ops (ks_spec (kad_get_bucket_index s0)) ps Map.empty = (rcs, ks_map s) \<and>
      kad_routing_table_size s = card (dom (ks_map s)) \<and> kad_routing_table_size s \<le> MAX_BUCKETS * K_BUCKET_SIZE"
    unfolding s0_def
    by (rule kad_state_refines_map [OF _ _ r [unfolded s0_def]]) (simp_all add: NODE_ID_BYTES_def ps_def n9_def)
  then have "rcs = [0, 0, 0]" "ks_map s = [n9 \<mapsto> (5, 6, 7, 8)]" "kad_routing_table_size s = card (dom (ks_map s))"
    by (auto simp: ps_def K_BUCKET_SIZE_def)
  then have "rcs = [0, 0, 0] \<and> ks_map s n9 = Some (5, 6, 7, 8) \<and> kad_routing_table_size s = 1" by simp
  with r show ?thesis unfolding ps_def s0_def n9_def by blast
qed

theorem kad_table_refines_map_witness:
  "\<exists>t0 rcs t. kad_table_new 1 [0] 7 = Some t0 \<and>
     run_ops kad_step [KInsert [1] 10 11 12 13, KInsert [128] 20 21 22 23, KRefresh 2000,
                       KInsert [1] 30 31 32 33, KRemove [5], KRemove [128]] t0 = (rcs, t) \<and>
     rcs = [0, 0, 0, 0, -1, 0] \<and> kad_map t [1] = Some (30, 31, 32, 33) \<and> kad_table_size t = 1"
proof -
  define ps where "ps = [KInsert [1] 10 11 12 13, KInsert [128] 20 21 22 23, KRefresh 2000,
                       KInsert [1] 30 31 32 33, KRemove [5], KRemove [128]]"
  obtain t0 where t0: "kad_table_new 1 [0] 7 = Some t0" by (simp add: kad_table_new_def)
  obtain rcs t where r: "run_ops kad_step ps t0 = (rcs, t)" by fastforce
  have "run_ops kad_spec ps Map.empty = (rcs, kad_map t) \<and> kad_table_size t = card (dom (kad_map t)) \<and>
    (\<forall>i < length (kt_buckets t). \<forall>x \<in> set (kb_nodes (kt_buckets t ! i)). kn_id x = [0] \<or>
       (\<forall>j < i. id_bit (kn_id x) j = id_bit [0] j) \<and> id_bit (kn_id x) i \<noteq> id_bit [0] i)"
    by (rule kad_table_refines_map [OF t0 _ _ r]) (simp_all add: ps_def)
  then have "rcs = [0, 0, 0, 0, -1, 0] \<and> kad_map t = [[1] \<mapsto> (30, 31, 32, 33)] \<and> kad_table_size t = card (dom (kad_map t))"
    by (auto simp: ps_def fun_eq_iff)
  with t0 r show ?thesis unfolding ps_def by auto
qed

theorem kad_closest_correct_witness:
  "\<exists>t0 rcs t r. kad_table_new 1 [0] 7 = Some t0 \<and>
     run_ops kad_step [KInsert [1] 10 11 12 13, KInsert [128] 20 21 22 23] t0 = (rcs, t) \<and>
     kad_table_closest t [129] 1 = Some (1, r) \<and> map kn_id r = [[128]]"
proof -
  define ps where "ps = [KInsert [1] 10 11 12 13, KInsert [128] 20 21 22 23]"
  obtain t0 where t0: "kad_table_new 1 [0] 7 = Some t0" by (simp add: kad_table_new_def)
  obtain rcs t where r: "run_ops kad_step ps t0 = (rcs, t)" by fastforce
  have "kad_map t = [[1] \<mapsto> (10, 11, 12, 13), [128] \<mapsto> (20, 21, 22, 23)]"
    using kad_run_ok [OF _ _ r] kad_new_ok [OF t0] t0 by (auto simp: ps_def kad_table_new_def)
  then have dom: "dom (kad_map t) = {[1], [128]}" by auto
  obtain q where q: "kad_table_closest t [129] 1 = Some (int (length q), q)" "length q = min (nat 1) (card (dom (kad_map t)))"
    "\<forall>x \<in> set q. kad_map t (kn_id x) = Some (kn_ip x, kn_port x, kn_seed x, kn_last_seen x)"
    "\<forall>nid \<in> dom (kad_map t). nid \<notin> kn_id ` set q \<longrightarrow> (\<forall>x \<in> set q. xor_metric [129] (kn_id x) < xor_metric [129] nid)"
    using kad_closest_correct [OF t0 _ _ r, of "[129]" 1] by (auto simp: ps_def)
  then obtain x where x: "q = [x]" using dom by (auto simp: length_Suc_conv)
  then have "kn_id x = [1] \<or> kn_id x = [128]" using q(3) dom by auto
  moreover have "kn_id x \<noteq> [1]"
  proof
    assume "kn_id x = [1]"
    then have "xor_metric [129] [1] < xor_metric [129] [128]" using q(4) x dom by auto
    then show False by (simp add: xor_metric_def)
  qed
  ultimately have "map kn_id q = [[128]]" using x by simp
  moreover have "kad_table_closest t [129] 1 = Some (1, q)" using q(1) x by simp
  ultimately show ?thesis using t0 r unfolding ps_def by (intro exI conjI)
qed

text \<open>The table driven \<open>crypto_crc32c\<close> computes the CRC-32C defined by the eight shift
  steps per byte, and it separates any two inputs that differ in one byte.\<close>

lemma crypto_crc32c_correct:
  "crypto_crc32c data = crc_ref data \<and>
   (crypto_crc32c (xs @ d # ys) = crypto_crc32c (xs @ e # ys) \<longleftrightarrow> d = e)"
proof -
  let ?f = "\<lambda>d c. (crc_step ^^ 8) (c XOR ucast d) :: u32"
  have inj: "fold ?f zs a = fold ?f zs b \<longleftrightarrow> a = b" for zs and a b :: u32
    by (induction zs arbitrary: a b) (auto simp: crc_steps_inj)
  have "fold ?f (xs @ d # ys) c = fold ?f (xs @ e # ys) c \<longleftrightarrow> d = e" for c
  proof -
    have "fold ?f (xs @ d # ys) c = fold ?f (xs @ e # ys) c \<longleftrightarrow>
        ?f d (fold ?f xs c) = ?f e (fold ?f xs c)" using inj [of ys] by simp
    also have "\<dots> \<longleftrightarrow> (ucast d :: u32) = ucast e" by (simp only: crc_steps_inj u32_xor_cancel)
    also have "\<dots> \<longleftrightarrow> d = e" by (rule ucast_byte_inj)
    finally show ?thesis .
  qed
  then show ?thesis unfolding crypto_crc32c_def crc_ref_def crc_loop_ref u32_xor_cancel by blast
qed

end
