(* ===== verification/Norn_Bep44.thy ===== *)
theory Norn_Bep44
  imports Norn_Bencode Norn_Channel
begin

text \<open>
  SHA-1, \<open>src/libnorn/sha1.c\<close>, and the signed records of BEP-44, \<open>src/libnorn/bep44.c\<close>.
  Signatures are those of the library record \<open>sodium\<close>. A salt is a byte list, empty for
  \<open>NULL\<close> or length 0. The addresses a record carries are kept as the four bytes the code
  copies; its version is the C string up to the terminating NUL, and the service blob is the
  list of its \<open>svc_len\<close> bytes.
\<close>

section \<open>SHA-1\<close>

type_synonym sha1_state = "u32 \<times> u32 \<times> u32 \<times> u32 \<times> u32"

definition ROL :: "u32 \<Rightarrow> nat \<Rightarrow> u32" where
  "ROL v b = (push_bit b v OR drop_bit (32 - b) v)"

definition sha1_schedule :: "bytes \<Rightarrow> u32 list" where
  "sha1_schedule buffer =
     fold (\<lambda>i w. w @ [ROL (w ! (i - 3) XOR w ! (i - 8) XOR w ! (i - 14) XOR w ! (i - 16)) 1]) [16..<80]
       (map (\<lambda>i. un_be32 (drop (i * 4) buffer)) [0..<16])"

definition sha1_round :: "u32 list \<Rightarrow> nat \<Rightarrow> sha1_state \<Rightarrow> sha1_state" where
  "sha1_round w i = (\<lambda>(a, b, c, d, e).
     let (f, k) =
       (if i < 20 then ((b AND c) OR (NOT b AND d), 0x5A827999)
        else if i < 40 then (b XOR c XOR d, 0x6ED9EBA1)
        else if i < 60 then ((b AND c) OR (b AND d) OR (c AND d), 0x8F1BBCDC)
        else (b XOR c XOR d, 0xCA62C1D6));
       t = ROL a 5 + f + e + k + w ! i
     in (t, a, ROL b 30, c, d))"

definition sha1_transform :: "sha1_state \<Rightarrow> bytes \<Rightarrow> sha1_state" where
  "sha1_transform st buffer =
     (case (st, fold (sha1_round (sha1_schedule buffer)) [0..<80] st) of
        ((s0, s1, s2, s3, s4), (a, b, c, d, e)) \<Rightarrow> (s0 + a, s1 + b, s2 + c, s3 + d, s4 + e))"

function sha1_blocks :: "sha1_state \<Rightarrow> bytes \<Rightarrow> sha1_state \<times> bytes" where
  "sha1_blocks st data =
     (if length data \<ge> 64 then sha1_blocks (sha1_transform st (take 64 data)) (drop 64 data) else (st, data))"
  by pat_completeness auto
termination by (relation "measure (\<lambda>(st, data). length data)") auto

declare sha1_blocks.simps [simp del]

definition sha1_init :: sha1_state where
  "sha1_init = (0x67452301, 0xEFCDAB89, 0x98BADCFE, 0x10325476, 0xC3D2E1F0)"

definition sha1_pad :: "sha1_state \<Rightarrow> bytes \<Rightarrow> u64 \<Rightarrow> sha1_state" where
  "sha1_pad st buf bits =
     (let buf1 = buf @ [0x80];
          (st1, buf2) = (if length buf1 > 56 then (sha1_transform st (buf1 @ replicate (64 - length buf1) 0), []) else (st, buf1))
      in sha1_transform st1 (buf2 @ replicate (56 - length buf2) 0 @ be64 bits))"

definition sha1 :: "bytes \<Rightarrow> bytes" where
  "sha1 data =
     (let (st, rem) = sha1_blocks sha1_init data;
          (s0, s1, s2, s3, s4) = sha1_pad st rem (word_of_nat (length data) * 8)
      in be32 s0 @ be32 s1 @ be32 s2 @ be32 s3 @ be32 s4)"

lemma length_sha1 [simp]: "length (sha1 data) = 20"
  by (simp add: sha1_def Let_def split: prod.split)

section \<open>Signing helpers of crypto.c\<close>

definition bf_sign :: "sodium \<Rightarrow> bytes \<Rightarrow> bytes \<Rightarrow> bytes" where
  "bf_sign sd msg secret_key = sig_sign sd msg secret_key"

definition bf_verify :: "sodium \<Rightarrow> bytes \<Rightarrow> bytes \<Rightarrow> bytes \<Rightarrow> int" where
  "bf_verify sd sig msg public_key = (if sig_verify sd sig msg public_key then 0 else -1)"

section \<open>Targets and the signed buffer\<close>

definition bep44_target :: "bytes \<Rightarrow> bytes" where
  "bep44_target pubkey = sha1 pubkey"

definition bep44_target_for_pubkey :: "bytes \<Rightarrow> bytes" where
  "bep44_target_for_pubkey pubkey = sha1 (107 # pubkey)"

definition bep44_target_salted :: "bytes \<Rightarrow> bytes \<Rightarrow> bytes" where
  "bep44_target_salted pubkey salt = sha1 (pubkey @ take 64 salt)"

definition bep44_immutable_target :: "bytes \<Rightarrow> bytes option" where
  "bep44_immutable_target v =
     (if length v > 1000 then None else Some (sha1 (nat_dec (length v) @ [58] @ v)))"

text \<open>\<open>"4:salt%zu:"\<close> and \<open>"3:seqi%lue1:v%zu:"\<close>\<close>

definition salt_head :: "nat \<Rightarrow> bytes" where
  "salt_head n = [52,58,115,97,108,116] @ nat_dec n @ [58]"

definition seq_head :: "u32 \<Rightarrow> nat \<Rightarrow> bytes" where
  "seq_head seq n = [51,58,115,101,113,105] @ nat_dec (unat seq) @ [101,49,58,118] @ nat_dec n @ [58]"

definition bep44_signbuf_salted :: "bytes \<Rightarrow> u32 \<Rightarrow> bytes \<Rightarrow> nat \<Rightarrow> bytes option" where
  "bep44_signbuf_salted salt seq value outcap =
     (let s = take 64 salt;
          pre = (if salt \<noteq> [] then salt_head (length s) @ s else [])
      in if salt \<noteq> [] \<and> length pre > outcap then None
         else let all = pre @ seq_head seq (length value) @ value
              in if length all > outcap then None else Some all)"

definition bep44_signbuf :: "u32 \<Rightarrow> bytes \<Rightarrow> nat \<Rightarrow> bytes option" where
  "bep44_signbuf seq value outcap = bep44_signbuf_salted [] seq value outcap"

section \<open>Address records\<close>

definition BEP44_REC_SVC_MAX :: nat where "BEP44_REC_SVC_MAX = 140"

record bep44_record =
  br_version :: bytes
  br_ip :: bytes
  br_port :: u16
  br_ula :: bytes
  br_caps :: u32
  br_host_pubkey :: bytes
  br_node_id :: bytes
  br_route_ip :: bytes
  br_route_port :: u16
  br_nsvc :: byte
  br_svc :: bytes

definition have_svc :: "bep44_record \<Rightarrow> bool" where
  "have_svc r \<longleftrightarrow> br_nsvc r > 0 \<and> length (br_svc r) > 0 \<and> length (br_svc r) \<le> BEP44_REC_SVC_MAX"

definition bep44_record_encode :: "bep44_record \<Rightarrow> nat \<Rightarrow> bytes option" where
  "bep44_record_encode r outcap =
     (let vl = min (length (br_version r)) 23;
          need = 1 + vl + 4 + 2 + 16 + 4 + 32 + 20 + 6 + (if have_svc r then 1 + length (br_svc r) else 0)
      in if need > outcap then None
         else Some (word_of_nat vl # take vl (br_version r) @ br_ip r @ be16 (br_port r) @ br_ula r @
                    be32 (br_caps r) @ br_host_pubkey r @ br_node_id r @ br_route_ip r @ be16 (br_route_port r) @
                    (if have_svc r then br_nsvc r # br_svc r else [])))"

definition bep44_record_decode :: "bytes \<Rightarrow> bep44_record option" where
  "bep44_record_decode inp =
     (if inp = [] then None
      else let vl = unat (hd inp); p = tl inp in
      if vl > 23 \<or> vl + 4 + 2 + 16 + 4 + 32 > length p then None
      else let
        p1 = drop vl p; p2 = drop 4 p1; p3 = drop 2 p2; p4 = drop 16 p3; p5 = drop 4 p4; p6 = drop 32 p5;
        (nodeid, p7) = (if 20 \<le> length p6 then (take 20 p6, drop 20 p6) else (replicate 20 0, p6));
        (rip, rport, p8) = (if 6 \<le> length p7 then (take 4 p7, un_be16 (drop 4 p7), drop 6 p7) else (replicate 4 0, 0, p7));
        (ns, sv) = (if 1 \<le> length p8 then (hd p8, take BEP44_REC_SVC_MAX (tl p8)) else (0, []))
      in Some \<lparr>br_version = c_string (take vl p), br_ip = take 4 p1, br_port = un_be16 p2, br_ula = take 16 p3,
               br_caps = un_be32 p4, br_host_pubkey = take 32 p5, br_node_id = nodeid,
               br_route_ip = rip, br_route_port = rport, br_nsvc = ns, br_svc = sv\<rparr>)"

section \<open>Signed items\<close>

definition bep44_encode :: "sodium \<Rightarrow> nat \<Rightarrow> bytes \<Rightarrow> bytes \<Rightarrow> u32 \<Rightarrow> bytes \<Rightarrow> bytes option" where
  "bep44_encode sd outcap pk value seq sk =
     (if length value > 1000 then None
      else case bep44_signbuf seq value 2048 of
        None \<Rightarrow> None
      | Some sb \<Rightarrow>
          if outcap < 32 + 4 + 2 + length value + 64 then None
          else Some (pk @ be32 seq @ be16 (word_of_nat (length value)) @ value @ sig_sign sd sb sk))"

definition bep44_decode :: "sodium \<Rightarrow> bytes \<Rightarrow> (bytes \<times> bytes \<times> u32 \<times> bytes) option" where
  "bep44_decode sd inp =
     (if length inp < 32 + 4 + 2 + 64 then None
      else let pk = take 32 inp; seq = un_be32 (drop 32 inp); vl = unat (un_be16 (drop 36 inp)) in
      if 38 + vl + 64 > length inp then None
      else let value = take vl (drop 38 inp); sig = take 64 (drop (38 + vl) inp) in
      case bep44_signbuf seq value 2048 of
        None \<Rightarrow> None
      | Some sb \<Rightarrow> if sig_verify sd sig sb pk then Some (pk, value, seq, sig) else None)"

section \<open>The signed buffer determines what is signed\<close>

lemma nat_dec_split:
  assumes "nat_dec a @ x # r = nat_dec b @ y # s" "\<not> is_digit x" "\<not> is_digit y"
  shows "a = b \<and> x # r = y # s"
proof -
  have tw: "takeWhile is_digit (nat_dec n @ z # t) = nat_dec n" if "\<not> is_digit z" for n z t
    using nat_dec_digits [of n] that by (simp add: takeWhile_append2)
  have "nat_dec a = nat_dec b" using tw [OF assms(2), of a r] tw [OF assms(3), of b s] assms(1) by simp
  then show ?thesis using nat_dec_digits [of a] nat_dec_digits [of b] assms(1) by (metis append_same_eq same_append_eq)
qed

lemma seq_head_split:
  assumes "seq_head q1 (length v1) @ v1 = seq_head q2 (length v2) @ v2"
  shows "q1 = q2 \<and> v1 = v2"
proof -
  have "nat_dec (unat q1) @ 101 # [49,58,118] @ nat_dec (length v1) @ 58 # v1 =
        nat_dec (unat q2) @ 101 # [49,58,118] @ nat_dec (length v2) @ 58 # v2"
    using assms by (simp add: seq_head_def del: nat_dec.simps)
  from nat_dec_split [OF this] have q: "unat q1 = unat q2"
    and "nat_dec (length v1) @ 58 # v1 = nat_dec (length v2) @ 58 # v2" by (simp_all del: nat_dec.simps)
  from nat_dec_split [OF this(2)] q show ?thesis by (simp add: word_unat_eq_iff)
qed

lemma salt_head_split:
  assumes "salt_head (length s1) @ s1 @ r1 = salt_head (length s2) @ s2 @ r2"
  shows "s1 = s2 \<and> r1 = r2"
proof -
  have "nat_dec (length s1) @ 58 # (s1 @ r1) = nat_dec (length s2) @ 58 # (s2 @ r2)"
    using assms by (simp add: salt_head_def del: nat_dec.simps)
  from nat_dec_split [OF this] have "length s1 = length s2" "s1 @ r1 = s2 @ r2" by simp_all
  then show ?thesis using append_eq_append_conv [of s1 s2 r1 r2] by blast
qed

lemma signbuf_shape:
  "bep44_signbuf_salted salt seq value cap = Some b \<Longrightarrow>
     b = (if salt \<noteq> [] then salt_head (length (take 64 salt)) @ take 64 salt else []) @ seq_head seq (length value) @ value"
  unfolding bep44_signbuf_salted_def Let_def by (simp split: if_splits del: nat_dec.simps)

text \<open>The canonical buffer that is signed determines the salt (its first 64 bytes), the
  sequence number and the value: two signable triples never share a buffer, so a signature on
  an unsalted item cannot be presented for a salted one or for another version or value.\<close>

theorem bep44_signbuf_injective:
  assumes "bep44_signbuf_salted s1 q1 v1 cap1 = Some b" "bep44_signbuf_salted s2 q2 v2 cap2 = Some b"
  shows "take 64 s1 = take 64 s2 \<and> q1 = q2 \<and> v1 = v2"
proof -
  have b: "(if s1 \<noteq> [] then salt_head (length (take 64 s1)) @ take 64 s1 else []) @ seq_head q1 (length v1) @ v1 =
      (if s2 \<noteq> [] then salt_head (length (take 64 s2)) @ take 64 s2 else []) @ seq_head q2 (length v2) @ v2"
    using signbuf_shape [OF assms(1)] signbuf_shape [OF assms(2)] by metis
  have ne: "salt_head n @ x \<noteq> seq_head q m @ y" for n x q m y by (simp add: salt_head_def seq_head_def)
  consider "s1 = []" "s2 = []" | "s1 \<noteq> []" "s2 \<noteq> []" | "s1 = []" "s2 \<noteq> []" | "s1 \<noteq> []" "s2 = []" by blast
  then show ?thesis
  proof cases
    case 1
    then show ?thesis using b seq_head_split [of q1 v1 q2 v2] by simp
  next
    case 2
    then have "salt_head (length (take 64 s1)) @ take 64 s1 @ seq_head q1 (length v1) @ v1 =
        salt_head (length (take 64 s2)) @ take 64 s2 @ seq_head q2 (length v2) @ v2"
      using b by (simp del: length_take)
    note sp = salt_head_split [OF this]
    from seq_head_split [OF sp [THEN conjunct2]] sp show ?thesis by simp
  next
    case 3
    then show ?thesis using b ne [THEN not_sym] by simp
  next
    case 4
    then show ?thesis using b ne by simp
  qed
qed

theorem bep44_signbuf_injective_witness:
  "\<exists>b. bep44_signbuf_salted [1, 2] 7 [9] 100 = Some b \<and> bep44_signbuf_salted [] 7 [9] 100 \<noteq> Some b \<and>
     bep44_signbuf_salted [1, 2] 7 [9] 200 = Some b"
proof -
  obtain b where b: "bep44_signbuf_salted [1, 2] 7 [9] 100 = Some b"
    by (simp add: bep44_signbuf_salted_def salt_head_def seq_head_def nat_dec.simps Let_def)
  moreover have "bep44_signbuf_salted [1, 2] 7 [9] 200 = Some b"
    using b by (auto simp add: bep44_signbuf_salted_def salt_head_def seq_head_def nat_dec.simps Let_def)
  moreover have "bep44_signbuf_salted [] 7 [9] 100 \<noteq> Some b"
    using bep44_signbuf_injective [OF b, of "[]" 7 "[9]" 100] by auto
  ultimately show ?thesis by blast
qed

section \<open>Round trips\<close>

text \<open>A record the code can carry without loss.\<close>

definition record_wf :: "bep44_record \<Rightarrow> bool" where
  "record_wf r \<longleftrightarrow> length (br_version r) \<le> 23 \<and> 0 \<notin> set (br_version r) \<and> length (br_ip r) = 4 \<and>
     length (br_ula r) = 16 \<and> length (br_host_pubkey r) = 32 \<and> length (br_node_id r) = 20 \<and>
     length (br_route_ip r) = 4 \<and> length (br_svc r) \<le> BEP44_REC_SVC_MAX \<and>
     (br_nsvc r = 0 \<longleftrightarrow> br_svc r = [])"

lemma record_decode_encode:
  assumes wf: "record_wf r" and "bep44_record_encode r outcap = Some out"
  shows "bep44_record_decode out = Some r"
proof -
  let ?tail = "if have_svc r then br_nsvc r # br_svc r else []"
  have vl: "min (length (br_version r)) 23 = length (br_version r)" using wf by (simp add: record_wf_def)
  have out: "out = word_of_nat (length (br_version r)) # br_version r @ br_ip r @ be16 (br_port r) @ br_ula r @
      be32 (br_caps r) @ br_host_pubkey r @ br_node_id r @ br_route_ip r @ be16 (br_route_port r) @ ?tail"
    using assms(2) unfolding bep44_record_encode_def Let_def vl by (simp split: if_splits)
  have n: "unat (word_of_nat (length (br_version r)) :: byte) = length (br_version r)"
    using wf by (simp add: record_wf_def unat_of_nat take_bit_nat_eq_self)
  have svc: "have_svc r \<longleftrightarrow> br_svc r \<noteq> []" using wf by (auto simp: have_svc_def record_wf_def word_neq_0_conv)
  have c: "c_string (br_version r) = br_version r" using wf by (simp add: record_wf_def c_string_id)
  show ?thesis
    unfolding out bep44_record_decode_def Let_def list.sel n
    using wf by (simp add: record_wf_def svc c)
qed

text \<open>An address record with fields of their declared sizes that fits the buffer is
  encoded, and decoding the bytes gives the same record back; a record without services
  decodes to one without services.\<close>

theorem bep44_record_round_trip:
  assumes "record_wf r" "86 + length (br_version r) + length (br_svc r) \<le> outcap"
  shows "\<exists>out. bep44_record_encode r outcap = Some out \<and> bep44_record_decode out = Some r \<and>
    length out = 85 + length (br_version r) + (if br_svc r = [] then 0 else 1 + length (br_svc r))"
proof -
  have svc: "have_svc r \<longleftrightarrow> br_svc r \<noteq> []"
    using assms(1) by (auto simp: have_svc_def record_wf_def word_neq_0_conv)
  obtain out where out: "bep44_record_encode r outcap = Some out"
    using assms by (cases "have_svc r") (simp_all add: bep44_record_encode_def Let_def record_wf_def)
  moreover have "length out = 85 + length (br_version r) + (if br_svc r = [] then 0 else 1 + length (br_svc r))"
    using assms(1) out by (auto simp: bep44_record_encode_def Let_def svc record_wf_def split: if_splits)
  ultimately show ?thesis using record_decode_encode [OF assms(1) out] by blast
qed

definition sample_record :: bep44_record where
  "sample_record = \<lparr>br_version = [49, 46, 48], br_ip = [10, 0, 0, 1], br_port = 6881, br_ula = replicate 16 253,
     br_caps = 5, br_host_pubkey = replicate 32 7, br_node_id = replicate 20 3, br_route_ip = [10, 0, 0, 2],
     br_route_port = 443, br_nsvc = 1, br_svc = [80, 0]\<rparr>"

theorem bep44_record_round_trip_witness:
  "\<exists>out. bep44_record_encode sample_record 256 = Some out \<and> bep44_record_decode out = Some sample_record \<and> length out = 91"
  using bep44_record_round_trip [of sample_record 256]
  by (simp add: record_wf_def sample_record_def BEP44_REC_SVC_MAX_def)

lemma signbuf_exists:
  "length value \<le> 1000 \<Longrightarrow> \<exists>b. bep44_signbuf seq value 2048 = Some b"
proof -
  assume v: "length value \<le> 1000"
  have "unat seq < 2 ^ 32" using unsigned_less [of seq, where ?'a = nat] by simp
  then have "length (nat_dec (unat seq)) \<le> 10" "length (nat_dec (length value)) \<le> 10"
    using v length_nat_dec [of "unat seq" 10] length_nat_dec [of "length value" 10] by simp_all
  then show ?thesis using v
    by (simp add: bep44_signbuf_def bep44_signbuf_salted_def seq_head_def Let_def del: nat_dec.simps)
qed

lemma bep44_decode_encode:
  assumes "sodium_ok sd" "length pk = 32" "pk = sig_pub sd sk" "bep44_encode sd outcap pk value seq sk = Some out"
  shows "\<exists>sig. bep44_decode sd out = Some (pk, value, seq, sig)"
proof -
  have v: "length value \<le> 1000" using assms(4) by (auto simp: bep44_encode_def split: if_splits)
  obtain sb where sb: "bep44_signbuf seq value 2048 = Some sb" using signbuf_exists [OF v] by blast
  have out: "out = pk @ be32 seq @ be16 (word_of_nat (length value)) @ value @ sig_sign sd sb sk"
    using assms(4) sb v by (simp add: bep44_encode_def split: if_splits)
  have sig: "length (sig_sign sd sb sk) = 64" "sig_verify sd (sig_sign sd sb sk) sb pk"
    using assms(1,3) by (simp_all add: sodium_ok_def)
  have "drop 36 out = be16 (word_of_nat (length value)) @ value @ sig_sign sd sb sk"
    "drop 38 out = value @ sig_sign sd sb sk" "drop 32 out = be32 seq @ be16 (word_of_nat (length value)) @ value @ sig_sign sd sb sk"
    using assms(2) by (simp_all add: out)
  moreover have "drop (38 + length value) out = sig_sign sd sb sk" using assms(2) by (simp add: out)
  moreover have "take 32 out = pk" "length out = 102 + length value" using assms(2) sig by (simp_all add: out)
  ultimately show ?thesis using v sb sig by (simp add: bep44_decode_def Let_def)
qed

lemma bep44_decode_verified:
  "bep44_decode sd inp = Some (pk, value, seq, sig) \<Longrightarrow>
     \<exists>sb. bep44_signbuf seq value 2048 = Some sb \<and> sig_verify sd sig sb pk \<and> pk = take 32 inp"
  by (auto simp: bep44_decode_def Let_def split: if_splits option.splits)

end
