(* ===== verification/Norn_Dhtstore.thy ===== *)
theory Norn_Dhtstore
  imports Norn_Bep44
begin

text \<open>
  The bounded store of items held for the network, \<open>src/libnorn/dhtstore.c\<close>. The file-scope
  variables are the record \<open>dhtstore\<close>; the array with its count is a list. The clock, the
  physical memory of the host and the signature library are arguments. \<open>g_bytes\<close> is a natural
  number: it is shown to be the sum of the value lengths, so no subtraction from it wraps.
\<close>

section \<open>State\<close>

definition DHTSTORE_VMAX :: nat where "DHTSTORE_VMAX = 1000"
definition DHTSTORE_TTL :: int where "DHTSTORE_TTL = 7200"
definition DHTSTORE_PER_IP :: nat where "DHTSTORE_PER_IP = 32"
definition DHTSTORE_MAX :: nat where "DHTSTORE_MAX = 4096"

record item =
  it_used :: bool
  it_immutable :: bool
  it_target :: bytes
  it_k :: bytes
  it_seq :: u32
  it_v :: bytes
  it_sig :: bytes
  it_src_ip :: u32
  it_stored :: int

record dhtstore =
  g_items :: "item list"
  g_bytes :: nat
  g_budget :: nat

definition dhtstore_init :: "nat \<Rightarrow> int \<Rightarrow> bool \<Rightarrow> dhtstore" where
  "dhtstore_init total_ram budget_mb client_only =
     \<lparr>g_items = [], g_bytes = 0,
      g_budget = (if client_only then 0
                  else if budget_mb > 0 then nat budget_mb * 1024 * 1024
                  else let b = (if total_ram \<noteq> 0 then total_ram div 512 else 2 * 1024 * 1024);
                           b1 = (if b < 2 * 1024 * 1024 then 2 * 1024 * 1024 else b)
                       in if b1 > 64 * 1024 * 1024 then 64 * 1024 * 1024 else b1)\<rparr>"

section \<open>Operations\<close>

definition find_item :: "dhtstore \<Rightarrow> bytes \<Rightarrow> nat option" where
  "find_item d target = find_idx (\<lambda>e. it_used e \<and> it_target e = target) (g_items d)"

definition remove_at :: "nat \<Rightarrow> dhtstore \<Rightarrow> dhtstore" where
  "remove_at i d = d\<lparr>g_bytes := g_bytes d - length (it_v (g_items d ! i)), g_items := swap_remove i (g_items d)\<rparr>"

function expire_from :: "int \<Rightarrow> nat \<Rightarrow> dhtstore \<Rightarrow> dhtstore" where
  "expire_from now i d =
     (if i < length (g_items d) then
        if now - it_stored (g_items d ! i) > DHTSTORE_TTL then expire_from now i (remove_at i d)
        else expire_from now (Suc i) d
      else d)"
  by pat_completeness auto
termination
  by (relation "measure (\<lambda>(now, i, d). length (g_items d) - i)") (auto simp: remove_at_def)

declare expire_from.simps [simp del]

definition expire :: "int \<Rightarrow> dhtstore \<Rightarrow> dhtstore" where
  "expire now d = expire_from now 0 d"

definition oldest_idx :: "item list \<Rightarrow> nat" where
  "oldest_idx es = foldl (\<lambda>b i. if it_stored (es ! i) < it_stored (es ! b) then i else b) 0 [1..<length es]"

definition evict_lru :: "dhtstore \<Rightarrow> dhtstore" where
  "evict_lru d = (if g_items d = [] then d else remove_at (oldest_idx (g_items d)) d)"

lemma evict_lru_length: "g_items d \<noteq> [] \<Longrightarrow> length (g_items (evict_lru d)) < length (g_items d)"
  by (simp add: evict_lru_def remove_at_def)

function make_room :: "nat \<Rightarrow> dhtstore \<Rightarrow> dhtstore" where
  "make_room vlen d =
     (if (g_bytes d + vlen > g_budget d \<or> length (g_items d) \<ge> DHTSTORE_MAX) \<and> g_items d \<noteq> []
      then make_room vlen (evict_lru d) else d)"
  by pat_completeness auto
termination
  by (relation "measure (\<lambda>(vlen, d). length (g_items d))") (auto intro: evict_lru_length)

declare make_room.simps [simp del]

definition per_ip_count :: "dhtstore \<Rightarrow> u32 \<Rightarrow> nat" where
  "per_ip_count d ip = length (filter (\<lambda>e. it_used e \<and> it_src_ip e = ip) (g_items d))"

definition store_item :: "int \<Rightarrow> bytes \<Rightarrow> bytes \<Rightarrow> u32 \<Rightarrow> bytes \<Rightarrow> bytes \<Rightarrow> bool \<Rightarrow> u32 \<Rightarrow> dhtstore \<Rightarrow> int \<times> dhtstore" where
  "store_item now target k seq v sig immutable src_ip d0 =
     (let d = expire now d0;
          e = \<lparr>it_used = True, it_immutable = immutable, it_target = target, it_k = k, it_seq = seq, it_v = v,
               it_sig = sig, it_src_ip = src_ip, it_stored = now\<rparr> in
      case find_item d target of
        Some i \<Rightarrow>
          if immutable then (1, d\<lparr>g_items := (g_items d)[i := (g_items d ! i)\<lparr>it_stored := now\<rparr>]\<rparr>)
          else if seq \<le> it_seq (g_items d ! i) then (0, d)
          else (1, d\<lparr>g_bytes := g_bytes d - length (it_v (g_items d ! i)) + length v,
                     g_items := (g_items d)[i := e\<lparr>it_used := it_used (g_items d ! i)\<rparr>]\<rparr>)
      | None \<Rightarrow>
          if per_ip_count d src_ip \<ge> DHTSTORE_PER_IP then (0, d)
          else let d1 = make_room (length v) d in
          if g_bytes d1 + length v > g_budget d1 then (0, d1)
          else (1, d1\<lparr>g_bytes := g_bytes d1 + length v, g_items := g_items d1 @ [e]\<rparr>))"

definition dhtstore_put :: "sodium \<Rightarrow> int \<Rightarrow> bytes \<Rightarrow> bytes \<Rightarrow> u32 \<Rightarrow> bytes \<Rightarrow> bytes \<Rightarrow> bytes \<Rightarrow> u32 \<Rightarrow> dhtstore \<Rightarrow> int \<times> dhtstore" where
  "dhtstore_put sd now target k seq v sig salt src_ip d =
     (if g_budget d = 0 then (0, d)
      else if length v = 0 \<or> length v > DHTSTORE_VMAX then (0, d)
      else case bep44_signbuf_salted salt seq v (64 + DHTSTORE_VMAX) of
        None \<Rightarrow> (0, d)
      | Some buf \<Rightarrow>
          if bf_verify sd sig buf k \<noteq> 0 then (0, d)
          else if (if salt \<noteq> [] then bep44_target_salted k salt else bep44_target k) \<noteq> target then (0, d)
          else store_item now target k seq v sig False src_ip d)"

definition dhtstore_put_immutable :: "int \<Rightarrow> bytes \<Rightarrow> u32 \<Rightarrow> dhtstore \<Rightarrow> (int \<times> bytes option) \<times> dhtstore" where
  "dhtstore_put_immutable now v src_ip d =
     (if g_budget d = 0 then ((0, None), d)
      else if length v = 0 \<or> length v > DHTSTORE_VMAX then ((0, None), d)
      else case bep44_immutable_target v of
        None \<Rightarrow> ((0, None), d)
      | Some tgt \<Rightarrow>
          let (rc, d1) = store_item now tgt (replicate 32 0) 0 v (replicate 64 0) True src_ip d
          in ((rc, Some tgt), d1))"

definition dhtstore_get_ex :: "int \<Rightarrow> bytes \<Rightarrow> nat \<Rightarrow> dhtstore \<Rightarrow> (bytes \<times> u32 \<times> bytes \<times> bytes \<times> bool) option \<times> dhtstore" where
  "dhtstore_get_ex now target vcap d0 =
     (let d = expire now d0 in
      case find_item d target of
        None \<Rightarrow> (None, d)
      | Some i \<Rightarrow> let e = g_items d ! i in
          (Some (it_k e, it_seq e, take vcap (it_v e), it_sig e, it_immutable e), d))"

definition dhtstore_get :: "int \<Rightarrow> bytes \<Rightarrow> nat \<Rightarrow> dhtstore \<Rightarrow> (bytes \<times> u32 \<times> bytes \<times> bytes) option \<times> dhtstore" where
  "dhtstore_get now target vcap d =
     (let (r, d1) = dhtstore_get_ex now target vcap d
      in (map_option (\<lambda>(k, seq, v, sig, imm). (k, seq, v, sig)) r, d1))"

definition dhtstore_bytes :: "dhtstore \<Rightarrow> nat" where "dhtstore_bytes d = g_bytes d"
definition dhtstore_count :: "dhtstore \<Rightarrow> nat" where "dhtstore_count d = length (g_items d)"

definition dhtstore_del :: "bytes \<Rightarrow> dhtstore \<Rightarrow> int \<times> dhtstore" where
  "dhtstore_del target d =
     (case find_item d target of Some i \<Rightarrow> (1, remove_at i d) | None \<Rightarrow> (0, d))"

record dht_item_info =
  di_target :: bytes
  di_immutable :: bool
  di_vlen :: nat
  di_seq :: u32
  di_stored :: int

definition dhtstore_list :: "bool \<Rightarrow> nat \<Rightarrow> dhtstore \<Rightarrow> dht_item_info list" where
  "dhtstore_list want_immutable mx d =
     take mx (map (\<lambda>e. \<lparr>di_target = it_target e, di_immutable = it_immutable e, di_vlen = length (it_v e),
                        di_seq = it_seq e, di_stored = it_stored e\<rparr>)
               (filter (\<lambda>e. it_used e \<and> it_immutable e = want_immutable) (g_items d)))"

section \<open>Invariant\<close>

text \<open>An item is authentic when its target names its content: the hash of the value, or of the
  key and salt under which its signature verifies.\<close>

definition authentic :: "sodium \<Rightarrow> item \<Rightarrow> bool" where
  "authentic sd e \<longleftrightarrow> it_used e \<and> 0 < length (it_v e) \<and> length (it_v e) \<le> DHTSTORE_VMAX \<and>
     (if it_immutable e then bep44_immutable_target (it_v e) = Some (it_target e)
      else \<exists>salt buf. bep44_signbuf_salted salt (it_seq e) (it_v e) (64 + DHTSTORE_VMAX) = Some buf \<and>
             sig_verify sd (it_sig e) buf (it_k e) \<and>
             it_target e = (if salt = [] then bep44_target (it_k e) else bep44_target_salted (it_k e) salt))"

definition dht_inv :: "sodium \<Rightarrow> dhtstore \<Rightarrow> bool" where
  "dht_inv sd d \<longleftrightarrow> (\<forall>e \<in> set (g_items d). authentic sd e) \<and> distinct (map it_target (g_items d)) \<and>
     g_bytes d = sum_list (map (\<lambda>e. length (it_v e)) (g_items d)) \<and>
     length (g_items d) \<le> DHTSTORE_MAX \<and> (g_budget d = 0 \<longrightarrow> g_items d = []) \<and>
     (g_budget d = 0 \<or> DHTSTORE_VMAX \<le> g_budget d)"

lemma sum_swap_remove:
  "i < length xs \<Longrightarrow> sum_list (map f (swap_remove i xs)) + f (xs ! i) = sum_list (map f xs)" for f :: "'a \<Rightarrow> nat"
proof -
  assume i: "i < length xs"
  have "sum_list (map f ys) = sum_mset (image_mset f (mset ys))" for ys by (metis mset_map sum_mset_sum_list)
  moreover have "mset xs = add_mset (xs ! i) (mset (swap_remove i xs))"
    using mset_swap_remove [OF i] i by (simp add: insert_DiffM)
  ultimately show ?thesis by simp
qed

lemma remove_at_inv:
  assumes "dht_inv sd d" "i < length (g_items d)"
  shows "dht_inv sd (remove_at i d)"
  using assms sum_swap_remove [OF assms(2), of "\<lambda>e. length (it_v e)"] set_swap_remove_subset [OF assms(2)]
    distinct_map_swap_remove(1) [of it_target, OF _ assms(2)]
  by (auto simp: dht_inv_def remove_at_def)

lemma expire_from_inv: "dht_inv sd d \<Longrightarrow> dht_inv sd (expire_from now i d) \<and> g_budget (expire_from now i d) = g_budget d"
proof (induction now i d rule: expire_from.induct)
  case (1 now i d)
  have "g_budget (remove_at i d) = g_budget d" by (simp add: remove_at_def)
  then show ?case using 1 remove_at_inv [of sd d i] by (subst (1 2) expire_from.simps) auto
qed

lemma expire_inv: "dht_inv sd d \<Longrightarrow> dht_inv sd (expire now d)" "dht_inv sd d \<Longrightarrow> g_budget (expire now d) = g_budget d"
  using expire_from_inv by (auto simp: expire_def)

lemma oldest_idx_less: "es \<noteq> [] \<Longrightarrow> oldest_idx es < length es"
proof -
  have "b < n \<Longrightarrow> \<forall>i \<in> set is. i < n \<Longrightarrow> foldl (\<lambda>b i. if P i b then i else b) b is < n" for n b "is" and P :: "nat \<Rightarrow> nat \<Rightarrow> bool"
    by (induction "is" arbitrary: b) auto
  then show "es \<noteq> [] \<Longrightarrow> ?thesis" by (simp add: oldest_idx_def)
qed

lemma make_room_inv:
  "dht_inv sd d \<Longrightarrow> dht_inv sd (make_room vlen d) \<and> g_budget (make_room vlen d) = g_budget d \<and>
     set (g_items (make_room vlen d)) \<subseteq> set (g_items d) \<and>
     (g_items (make_room vlen d) = [] \<or>
      g_bytes (make_room vlen d) + vlen \<le> g_budget d \<and> length (g_items (make_room vlen d)) < DHTSTORE_MAX)"
proof (induction vlen d rule: make_room.induct)
  case (1 vlen d)
  show ?case
  proof (cases "(g_bytes d + vlen > g_budget d \<or> length (g_items d) \<ge> DHTSTORE_MAX) \<and> g_items d \<noteq> []")
    case True
    then have i: "oldest_idx (g_items d) < length (g_items d)" by (simp add: oldest_idx_less)
    then have e: "evict_lru d = remove_at (oldest_idx (g_items d)) d" using True by (simp add: evict_lru_def)
    have "dht_inv sd (evict_lru d)" "g_budget (evict_lru d) = g_budget d" "set (g_items (evict_lru d)) \<subseteq> set (g_items d)"
      unfolding e using remove_at_inv [OF "1.prems" i] set_swap_remove_subset [OF i] by (simp_all add: remove_at_def)
    then show ?thesis using "1.IH" [OF True] True by (subst (1 2 3 4 5 6) make_room.simps) auto
  next
    case False
    then show ?thesis using "1.prems" by (subst (1 2 3 4 5 6) make_room.simps) auto
  qed
qed

lemma make_room_fits:
  assumes "dht_inv sd d" "vlen \<le> g_budget d"
  shows "g_bytes (make_room vlen d) + vlen \<le> g_budget d \<and> length (g_items (make_room vlen d)) < DHTSTORE_MAX"
proof -
  have m: "dht_inv sd (make_room vlen d)"
    "g_items (make_room vlen d) = [] \<or>
     g_bytes (make_room vlen d) + vlen \<le> g_budget d \<and> length (g_items (make_room vlen d)) < DHTSTORE_MAX"
    using make_room_inv [OF assms(1), of vlen] by simp_all
  have "g_bytes (make_room vlen d) = 0 \<and> length (g_items (make_room vlen d)) < DHTSTORE_MAX" if "g_items (make_room vlen d) = []"
    using that m(1) by (simp add: dht_inv_def DHTSTORE_MAX_def)
  then show ?thesis using m(2) assms(2) by auto
qed

lemma find_item_Some:
  assumes "find_item d target = Some i"
  shows "i < length (g_items d)" "it_used (g_items d ! i)" "it_target (g_items d ! i) = target"
  using find_idx_less [OF assms [unfolded find_item_def]] find_idx_holds [OF assms [unfolded find_item_def]] by auto

text \<open>What holds the place of a target; unique, because targets are distinct.\<close>

definition held :: "dhtstore \<Rightarrow> bytes \<Rightarrow> item option" where
  "held d target = map_option (\<lambda>i. g_items d ! i) (find_item d target)"

lemma held_iff:
  assumes "dht_inv sd d"
  shows "held d t = Some e \<longleftrightarrow> e \<in> set (g_items d) \<and> it_target e = t"
proof
  assume "held d t = Some e"
  then obtain i where "find_item d t = Some i" "e = g_items d ! i" by (auto simp: held_def)
  then show "e \<in> set (g_items d) \<and> it_target e = t" using find_item_Some [of d t i] by simp
next
  assume e: "e \<in> set (g_items d) \<and> it_target e = t"
  then obtain i where i: "i < length (g_items d)" "e = g_items d ! i" by (auto simp: in_set_conv_nth)
  have "find_idx (\<lambda>x. it_target x = it_target (g_items d ! i)) (g_items d) = Some i"
    by (rule find_idx_distinct) (use assms i in \<open>simp_all add: dht_inv_def\<close>)
  moreover have "find_item d t = find_idx (\<lambda>x. it_target x = t) (g_items d)"
    unfolding find_item_def by (rule find_idx_cong) (use assms in \<open>auto simp: dht_inv_def authentic_def\<close>)
  ultimately show "held d t = Some e" using e i by (simp add: held_def)
qed

lemma held_None: "dht_inv sd d \<Longrightarrow> find_item d t = None \<longleftrightarrow> t \<notin> it_target ` set (g_items d)"
  by (auto simp: find_item_def dht_inv_def authentic_def)

lemma sum_list_update:
  "i < length xs \<Longrightarrow> sum_list (map f (xs[i := x])) + f (xs ! i) = sum_list (map f xs) + f x" for f :: "'a \<Rightarrow> nat"
  by (induction xs arbitrary: i) (auto split: nat.split)

text \<open>One slot rewritten under the same target.\<close>

lemma rewrite_inv:
  assumes inv: "dht_inv sd d" and i: "i < length (g_items d)" and e: "authentic sd e" "it_target e = it_target (g_items d ! i)"
  shows "dht_inv sd (d\<lparr>g_bytes := g_bytes d - length (it_v (g_items d ! i)) + length (it_v e), g_items := (g_items d)[i := e]\<rparr>)"
proof -
  have "map it_target ((g_items d)[i := e]) = map it_target (g_items d)"
    using i e(2) by (simp add: map_update list_update_same_conv)
  then have "distinct (map it_target ((g_items d)[i := e]))" using inv by (simp only: dht_inv_def)
  moreover have "\<forall>x \<in> set ((g_items d)[i := e]). authentic sd x"
    using inv e(1) set_update_subset_insert [of "g_items d" i e] by (auto simp: dht_inv_def)
  moreover have "length (it_v (g_items d ! i)) \<le> sum_list (map (\<lambda>e. length (it_v e)) (g_items d))"
    using i by (intro member_le_sum_list) auto
  then have "g_bytes d - length (it_v (g_items d ! i)) + length (it_v e) = sum_list (map (\<lambda>e. length (it_v e)) ((g_items d)[i := e]))"
    using sum_list_update [OF i, of "\<lambda>e. length (it_v e)" e] inv by (simp add: dht_inv_def)
  ultimately show ?thesis using inv i by (auto simp: dht_inv_def)
qed

lemma append_inv:
  assumes "dht_inv sd d" "authentic sd e" "it_target e \<notin> it_target ` set (g_items d)"
    "length (g_items d) < DHTSTORE_MAX" "g_budget d \<noteq> 0"
  shows "dht_inv sd (d\<lparr>g_bytes := g_bytes d + length (it_v e), g_items := g_items d @ [e]\<rparr>)"
  using assms by (auto simp: dht_inv_def)

text \<open>What \<open>store_item\<close> does, whichever branch it takes.\<close>

lemma authentic_stored: "authentic sd (e\<lparr>it_stored := n\<rparr>) = authentic sd e"
  unfolding authentic_def by simp

lemma store_item_ok:
  assumes inv: "dht_inv sd d" and b: "g_budget d \<noteq> 0"
    and e: "e = \<lparr>it_used = True, it_immutable = imm, it_target = target, it_k = k, it_seq = seq, it_v = v,
               it_sig = sig, it_src_ip = src_ip, it_stored = now\<rparr>" "authentic sd e"
    and r: "store_item now target k seq v sig imm src_ip d = (rc, d')"
  shows "dht_inv sd d' \<and> g_budget d' = g_budget d \<and>
    (if rc = 1
     then (\<exists>x. held d' target = Some x \<and> (imm \<or> x = e)) \<and>
          (\<forall>old. held (expire now d) target = Some old \<longrightarrow> imm \<or> it_seq old < seq) \<and>
          (\<forall>t x. t \<noteq> target \<longrightarrow> held d' t = Some x \<longrightarrow> held (expire now d) t = Some x) \<and>
          (held (expire now d) target = None \<longrightarrow> g_bytes d' \<le> g_budget d')
     else rc = 0 \<and> d' = expire now d)"
proof -
  let ?d = "expire now d"
  have x: "dht_inv sd ?d" "g_budget ?d = g_budget d" using expire_inv [OF inv] by auto
  show ?thesis
  proof (cases "find_item ?d target")
    case (Some i)
    note f = find_item_Some [OF Some]
    have old: "held ?d target = Some (g_items ?d ! i)" using Some by (simp add: held_def)
    consider "imm" | "\<not> imm" "seq \<le> it_seq (g_items ?d ! i)" | "\<not> imm" "\<not> seq \<le> it_seq (g_items ?d ! i)" by blast
    then show ?thesis
    proof cases
      case 1
      define y where "y = (g_items ?d ! i)\<lparr>it_stored := now\<rparr>"
      define d1 where "d1 = ?d\<lparr>g_bytes := g_bytes ?d - length (it_v (g_items ?d ! i)) + length (it_v y), g_items := (g_items ?d)[i := y]\<rparr>"
      have "authentic sd (g_items ?d ! i)" using x(1) f(1) by (simp add: dht_inv_def)
      then have y: "authentic sd y" "it_target y = it_target (g_items ?d ! i)" by (simp_all add: y_def authentic_stored)
      have i1: "dht_inv sd d1" unfolding d1_def by (rule rewrite_inv [OF x(1) f(1) y])
      have "length (it_v (g_items ?d ! i)) \<le> g_bytes ?d" using x(1) f(1) by (auto simp: dht_inv_def intro!: member_le_sum_list)
      then have d': "rc = 1" "d' = d1" using r Some 1 by (auto simp: store_item_def d1_def y_def Let_def)
      have "held d1 target = Some y" unfolding held_iff [OF i1] using f y by (auto simp: d1_def set_update_memI)
      moreover have "held ?d t = Some z" if "t \<noteq> target" "held d1 t = Some z" for t z
        using that unfolding held_iff [OF i1] held_iff [OF x(1)]
        using set_update_subset_insert [of "g_items ?d" i y] y(2) f(3) by (auto simp: d1_def)
      ultimately show ?thesis using d' i1 x(2) 1 old by (simp add: d1_def)
    next
      case 2
      then show ?thesis using r Some x by (simp add: store_item_def)
    next
      case 3
      define d1 where "d1 = ?d\<lparr>g_bytes := g_bytes ?d - length (it_v (g_items ?d ! i)) + length (it_v e), g_items := (g_items ?d)[i := e]\<rparr>"
      have et: "it_target e = it_target (g_items ?d ! i)" using e(1) f(3) by simp
      have i1: "dht_inv sd d1" unfolding d1_def by (rule rewrite_inv [OF x(1) f(1) e(2) et])
      have d': "rc = 1" "d' = d1" using r Some 3 f(2) by (auto simp: store_item_def d1_def e(1) Let_def)
      have "held d1 target = Some e" unfolding held_iff [OF i1] using f e(1) by (auto simp: d1_def set_update_memI)
      moreover have "held ?d t = Some z" if "t \<noteq> target" "held d1 t = Some z" for t z
        using that unfolding held_iff [OF i1] held_iff [OF x(1)]
        using set_update_subset_insert [of "g_items ?d" i e] e(1) by (auto simp: d1_def)
      ultimately show ?thesis using d' i1 x(2) 3 old by (simp add: d1_def)
    qed
  next
    case None
    show ?thesis
    proof (cases "per_ip_count ?d src_ip \<ge> DHTSTORE_PER_IP")
      case True
      then show ?thesis using r None x by (simp add: store_item_def)
    next
      case False
      let ?m = "make_room (length v) ?d"
      have v: "length v \<le> g_budget ?d" using e x b inv by (auto simp: authentic_def dht_inv_def)
      have m: "dht_inv sd ?m" "g_budget ?m = g_budget ?d" "set (g_items ?m) \<subseteq> set (g_items ?d)"
        using make_room_inv [OF x(1), of "length v"] by simp_all
      have fit: "g_bytes ?m + length v \<le> g_budget ?d" "length (g_items ?m) < DHTSTORE_MAX"
        using make_room_fits [OF x(1) v] by simp_all
      define d1 where "d1 = ?m\<lparr>g_bytes := g_bytes ?m + length (it_v e), g_items := g_items ?m @ [e]\<rparr>"
      have d': "rc = 1" "d' = d1" using r None False fit m(2) by (simp_all add: store_item_def Let_def d1_def e(1))
      have nt: "it_target e \<notin> it_target ` set (g_items ?m)" using None m(3) e(1) unfolding held_None [OF x(1)] by auto
      have i1: "dht_inv sd d1" unfolding d1_def by (rule append_inv [OF m(1) e(2) nt fit(2)]) (use b m(2) x(2) in simp)
      have "held d1 target = Some e" unfolding held_iff [OF i1] using e(1) by (simp add: d1_def)
      moreover have "held ?d t = Some z" if "t \<noteq> target" "held d1 t = Some z" for t z
        using that m(3) e(1) unfolding held_iff [OF i1] held_iff [OF x(1)] by (auto simp: d1_def)
      moreover have "held ?d target = None" using None by (simp add: held_def)
      ultimately show ?thesis using d' i1 x(2) m(2) fit(1) e(1) by (simp add: d1_def)
    qed
  qed
qed

section \<open>Runs\<close>

datatype dht_op =
  DPut int bytes bytes u32 bytes bytes bytes u32
| DPutImmutable int bytes u32
| DGet int bytes nat
| DDel bytes

fun dht_step :: "sodium \<Rightarrow> dhtstore \<Rightarrow> dht_op \<Rightarrow> dhtstore" where
  "dht_step sd d (DPut now target k seq v sig salt ip) = snd (dhtstore_put sd now target k seq v sig salt ip d)"
| "dht_step sd d (DPutImmutable now v ip) = snd (dhtstore_put_immutable now v ip d)"
| "dht_step sd d (DGet now target vcap) = snd (dhtstore_get_ex now target vcap d)"
| "dht_step sd d (DDel target) = snd (dhtstore_del target d)"

lemma put_authentic:
  assumes "length v \<noteq> 0" "\<not> length v > DHTSTORE_VMAX" "bep44_signbuf_salted salt seq v (64 + DHTSTORE_VMAX) = Some buf"
    "bf_verify sd sig buf k = 0" "(if salt \<noteq> [] then bep44_target_salted k salt else bep44_target k) = target"
  shows "authentic sd \<lparr>it_used = True, it_immutable = False, it_target = target, it_k = k, it_seq = seq, it_v = v,
           it_sig = sig, it_src_ip = src_ip, it_stored = now\<rparr>"
  using assms unfolding authentic_def by (auto simp: bf_verify_def split: if_splits)

lemma dhtstore_put_cases:
  assumes "dhtstore_put sd now target k seq v sig salt ip d = (rc, d')"
  obtains "rc = 0" "d' = d"
  | "g_budget d \<noteq> 0"
    "authentic sd \<lparr>it_used = True, it_immutable = False, it_target = target, it_k = k, it_seq = seq, it_v = v,
           it_sig = sig, it_src_ip = ip, it_stored = now\<rparr>"
    "store_item now target k seq v sig False ip d = (rc, d')"
  using assms put_authentic [of v salt seq _ sd sig k target ip now]
  unfolding dhtstore_put_def by (auto split: if_splits option.splits)

lemma dht_step_inv:
  assumes "dht_inv sd d"
  shows "dht_inv sd (dht_step sd d p)"
proof (cases p)
  case (DPut now target k seq v sig salt ip)
  obtain rc d' where r: "dhtstore_put sd now target k seq v sig salt ip d = (rc, d')" by fastforce
  then have "dht_inv sd d'"
  proof (cases rule: dhtstore_put_cases)
    case 2
    from store_item_ok [OF assms 2(1) refl 2(2,3)] show ?thesis by blast
  qed (use assms in simp)
  with r DPut show ?thesis by simp
next
  case (DPutImmutable now v ip)
  show ?thesis
  proof (cases "g_budget d = 0 \<or> length v = 0 \<or> length v > DHTSTORE_VMAX \<or> bep44_immutable_target v = None")
    case True
    then show ?thesis using assms DPutImmutable by (auto simp: dhtstore_put_immutable_def split: option.split)
  next
    case False
    then obtain t where t: "bep44_immutable_target v = Some t" by auto
    let ?e = "\<lparr>it_used = True, it_immutable = True, it_target = t, it_k = replicate 32 0, it_seq = 0, it_v = v,
           it_sig = replicate 64 0, it_src_ip = ip, it_stored = now\<rparr>"
    obtain rc d' where r: "store_item now t (replicate 32 0) 0 v (replicate 64 0) True ip d = (rc, d')" by fastforce
    have "authentic sd ?e" using False t by (simp add: authentic_def)
    from store_item_ok [OF assms _ refl this r] have "dht_inv sd d'" using False by simp
    then show ?thesis using DPutImmutable False t r by (simp add: dhtstore_put_immutable_def)
  qed
next
  case (DGet now target vcap)
  then show ?thesis using expire_inv [OF assms] by (simp add: dhtstore_get_ex_def Let_def split: option.split)
next
  case (DDel target)
  then show ?thesis using assms remove_at_inv find_item_Some(1) by (auto simp: dhtstore_del_def split: option.split)
qed

lemma dht_init_inv: "dht_inv sd (dhtstore_init ram mb client)"
proof -
  have "1000 \<le> nat mb * 1024 * 1024" if "mb > 0"
  proof -
    have "1 \<le> nat mb" using that by simp
    then have "1 * (1024 * 1024) \<le> nat mb * (1024 * 1024)" by (rule mult_le_mono1)
    then show ?thesis by simp
  qed
  then show ?thesis by (auto simp: dht_inv_def dhtstore_init_def DHTSTORE_VMAX_def Let_def)
qed

lemma dht_run_inv: "dht_inv sd d \<Longrightarrow> dht_inv sd (foldl (dht_step sd) d ps)"
  by (induction ps arbitrary: d) (auto intro: dht_step_inv)

text \<open>C17: Whatever the network sends, a store that started from \<open>dhtstore_init\<close> only holds
  authentic items: an immutable item lies under the hash of its value, a mutable one under
  the hash of a key (and salt) whose signature over its sequence number and value verifies.
  No target is held twice, the byte count is the sum of the value lengths, at most 4096 items
  are held, and a client-only store holds none.\<close>

theorem dhtstore_authentic:
  "dht_inv sd (foldl (dht_step sd) (dhtstore_init ram mb client) ps)"
  by (rule dht_run_inv [OF dht_init_inv])

section \<open>Reading back\<close>

lemma nth_swap_remove: "j < i \<Longrightarrow> i < length xs \<Longrightarrow> swap_remove i xs ! j = xs ! j"
  by (cases xs rule: rev_cases) (auto simp: swap_remove_snoc nth_append)

lemma set_swap_remove: "i < length xs \<Longrightarrow> set xs = insert (xs ! i) (set (swap_remove i xs))"
  using mset_swap_remove [of i xs] by (metis insert_DiffM nth_mem_mset set_mset_add_mset_insert set_mset_mset)

lemma expire_from_set:
  "\<forall>j < i. now - it_stored (g_items d ! j) \<le> DHTSTORE_TTL \<Longrightarrow>
     set (g_items (expire_from now i d)) = {e \<in> set (g_items d). now - it_stored e \<le> DHTSTORE_TTL}"
proof (induction now i d rule: expire_from.induct)
  case (1 now i d)
  consider "i < length (g_items d)" "now - it_stored (g_items d ! i) > DHTSTORE_TTL"
    | "i < length (g_items d)" "\<not> now - it_stored (g_items d ! i) > DHTSTORE_TTL" | "\<not> i < length (g_items d)" by blast
  then show ?case
  proof cases
    case c: 1
    have "\<forall>j < i. now - it_stored (g_items (remove_at i d) ! j) \<le> DHTSTORE_TTL"
      using "1.prems" c(1) by (simp add: remove_at_def nth_swap_remove)
    from "1.IH"(1) [OF c this] have "set (g_items (expire_from now i (remove_at i d))) =
        {e \<in> set (swap_remove i (g_items d)). now - it_stored e \<le> DHTSTORE_TTL}" by (simp add: remove_at_def)
    then show ?thesis using c set_swap_remove [OF c(1)] by (subst expire_from.simps) auto
  next
    case c: 2
    have "\<forall>j < Suc i. now - it_stored (g_items d ! j) \<le> DHTSTORE_TTL" using "1.prems" c(2) by (auto simp: less_Suc_eq)
    from "1.IH"(2) [OF c this] show ?thesis using c by (subst expire_from.simps) simp
  next
    case c: 3
    then have "\<forall>e \<in> set (g_items d). now - it_stored e \<le> DHTSTORE_TTL"
      using "1.prems" by (auto simp: in_set_conv_nth)
    then show ?thesis using c by (subst expire_from.simps) auto
  qed
qed

lemma held_expire:
  assumes "dht_inv sd d"
  shows "held (expire now d) t = Some e \<longleftrightarrow> held d t = Some e \<and> now - it_stored e \<le> DHTSTORE_TTL"
proof -
  have "set (g_items (expire now d)) = {e \<in> set (g_items d). now - it_stored e \<le> DHTSTORE_TTL}"
    unfolding expire_def by (rule expire_from_set) simp
  then show ?thesis unfolding held_iff [OF assms] held_iff [OF expire_inv(1) [OF assms]] by auto
qed

lemma get_held:
  "fst (dhtstore_get_ex now t vcap d) =
     map_option (\<lambda>e. (it_k e, it_seq e, take vcap (it_v e), it_sig e, it_immutable e)) (held (expire now d) t)"
  by (simp add: dhtstore_get_ex_def held_def Let_def split: option.split)

lemma held_expire_twice: "dht_inv sd d \<Longrightarrow> held (expire now (expire now d)) t = held (expire now d) t"
  using held_expire [OF expire_inv(1), of sd d now now t] held_expire [of sd d now t]
  by (metis not_Some_eq)

text \<open>C9: A mutable item a reachable store accepts is what a read then returns, with its key,
  sequence number, value and signature; it never replaces an item with the same or a later
  sequence number, no item under another target appears or changes, and a target that is new
  to the store leaves it within its byte budget. An item it refuses changes no answer.\<close>

theorem dhtstore_put_get:
  assumes d: "d = foldl (dht_step sd) (dhtstore_init ram mb client) ps"
    and r: "dhtstore_put sd now target k seq v sig salt ip d = (rc, d')" and cap: "length v \<le> vcap"
  shows "if rc = 1
    then fst (dhtstore_get_ex now target vcap d') = Some (k, seq, v, sig, False) \<and>
         (\<forall>k0 seq0 v0 sig0 imm. fst (dhtstore_get_ex now target vcap d) = Some (k0, seq0, v0, sig0, imm) \<longrightarrow> seq0 < seq) \<and>
         (\<forall>t x. t \<noteq> target \<longrightarrow> fst (dhtstore_get_ex now t vcap d') = Some x \<longrightarrow> fst (dhtstore_get_ex now t vcap d) = Some x) \<and>
         (fst (dhtstore_get_ex now target vcap d) = None \<longrightarrow> dhtstore_bytes d' \<le> g_budget d')
    else rc = 0 \<and> (\<forall>t. fst (dhtstore_get_ex now t vcap d') = fst (dhtstore_get_ex now t vcap d))"
proof -
  have inv: "dht_inv sd d" unfolding d by (rule dht_run_inv [OF dht_init_inv])
  from r show ?thesis
  proof (cases rule: dhtstore_put_cases)
    case 2
    note s = store_item_ok [OF inv 2(1) refl 2(2,3)]
    then have inv': "dht_inv sd d'" by blast
    show ?thesis
    proof (cases "rc = 1")
      case True
      then obtain x where x: "held d' target = Some x" "x = \<lparr>it_used = True, it_immutable = False, it_target = target,
          it_k = k, it_seq = seq, it_v = v, it_sig = sig, it_src_ip = ip, it_stored = now\<rparr>" using s by auto
      then have "held (expire now d') target = Some x" unfolding held_expire [OF inv'] by (simp add: DHTSTORE_TTL_def)
      then have "fst (dhtstore_get_ex now target vcap d') = Some (k, seq, v, sig, False)"
        using x(2) cap by (simp add: get_held)
      moreover have "fst (dhtstore_get_ex now t vcap d) = Some z"
        if t: "t \<noteq> target" and z: "fst (dhtstore_get_ex now t vcap d') = Some z" for t z
      proof -
        obtain y where y: "held (expire now d') t = Some y"
          "z = (it_k y, it_seq y, take vcap (it_v y), it_sig y, it_immutable y)" using z by (auto simp: get_held)
        then have "held d' t = Some y" unfolding held_expire [OF inv'] by simp
        then have "held (expire now d) t = Some y" using s True t by auto
        then show ?thesis using y(2) by (simp add: get_held)
      qed
      moreover have "\<forall>old. held (expire now d) target = Some old \<longrightarrow> it_seq old < seq"
        and "held (expire now d) target = None \<longrightarrow> g_bytes d' \<le> g_budget d'" using s True by auto
      ultimately show ?thesis using True by (auto simp: get_held dhtstore_bytes_def)
    next
      case False
      then have "rc = 0" "d' = expire now d" using s by auto
      then show ?thesis by (simp add: get_held held_expire_twice [OF inv])
    qed
  qed simp
qed

definition tiny_put :: "sodium \<Rightarrow> u32 \<Rightarrow> bytes \<Rightarrow> dhtstore \<Rightarrow> int \<times> dhtstore" where
  "tiny_put sd seq v d = dhtstore_put sd 1000 (bep44_target (sig_pub sd [1])) (sig_pub sd [1]) seq v
     (sig_sign sd (the (bep44_signbuf seq v 1064)) [1]) [] 7 d"

theorem dhtstore_put_get_witness:
  "let d = dhtstore_init 0 0 False; (rc, d') = tiny_put toy_sodium 1 [5, 6] d in
     rc = 1 \<and> fst (dhtstore_get_ex 1000 (bep44_target (sig_pub toy_sodium [1])) 1000 d') =
       Some (sig_pub toy_sodium [1], 1, [5, 6], sig_sign toy_sodium (the (bep44_signbuf 1 [5, 6] 1064)) [1], False)"
proof -
  define d where "d = dhtstore_init 0 0 False"
  obtain rc d' where r: "tiny_put toy_sodium 1 [5, 6] d = (rc, d')" by fastforce
  obtain buf where buf: "bep44_signbuf_salted [] 1 [5, 6] 1064 = Some buf"
    by (simp add: bep44_signbuf_salted_def seq_head_def nat_dec.simps Let_def)
  have ok: "sig_verify toy_sodium (sig_sign toy_sodium buf [1]) buf (sig_pub toy_sodium [1])"
    using toy_ok by (simp add: sodium_ok_def)
  have "rc = 1"
    using r buf ok by (simp add: tiny_put_def d_def dhtstore_put_def dhtstore_init_def DHTSTORE_VMAX_def bep44_signbuf_def
        bf_verify_def store_item_def expire_def expire_from.simps find_item_def per_ip_count_def DHTSTORE_PER_IP_def
        make_room.simps DHTSTORE_MAX_def Let_def)
  moreover have "d = foldl (dht_step toy_sodium) (dhtstore_init 0 0 False) []" by (simp add: d_def)
  note dhtstore_put_get [OF this r [unfolded tiny_put_def], of 1000]
  ultimately show ?thesis unfolding d_def [symmetric] by (simp add: r bep44_signbuf_def buf)
qed

end
