(* ===== verification/Norn_Recstore.thy ===== *)
theory Norn_Recstore
  imports Norn_Bep44
begin

text \<open>
  The store of signed records with its text file, \<open>src/libnorn/recstore.c\<close>. The file-scope
  variables are the record \<open>recstore\<close>: all \<open>RECSTORE_MAX\<close> slots, so that a slot taken again
  after \<open>recstore_init\<close> keeps what the code does not overwrite, the count, the path and the
  file: its content, if it exists, and whether it can be written. The conversions of
  \<open>sscanf\<close> are written out as glibc performs them, with the 64-bit saturation of its
  integer conversions.
\<close>

section \<open>State\<close>

definition RECSTORE_MAX :: nat where "RECSTORE_MAX = 256"
definition RECSTORE_VMAX :: nat where "RECSTORE_VMAX = 256"

record rec_t =
  re_target :: bytes
  re_k :: bytes
  re_seq :: u32
  re_v :: bytes
  re_sig :: bytes
  re_last_seen :: int
  re_via :: bytes
  re_priv :: int

record recstore =
  rs_slots :: "rec_t list"
  rs_count :: nat
  rs_path :: bytes
  rs_file :: "bytes option"
  rs_writable :: bool

definition rec_zero :: rec_t where
  "rec_zero = \<lparr>re_target = replicate 20 0, re_k = replicate 32 0, re_seq = 0, re_v = [], re_sig = replicate 64 0,
     re_last_seen = 0, re_via = [], re_priv = 0\<rparr>"

abbreviation live :: "recstore \<Rightarrow> rec_t list" where
  "live st \<equiv> take (rs_count st) (rs_slots st)"

section \<open>Hexadecimal\<close>

definition hexdigit :: "byte \<Rightarrow> byte" where
  "hexdigit n = (if n < 10 then 48 + n else 97 + (n - 10))"

definition hexenc :: "bytes \<Rightarrow> bytes" where
  "hexenc inp = concat (map (\<lambda>b. [hexdigit (drop_bit 4 b), hexdigit (b AND 0xf)]) inp)"

definition hexval :: "byte \<Rightarrow> int" where
  "hexval c = (if sint c \<le> 57 then sint c - 48 else sint (c OR 0x20) - 97 + 10)"

fun hexdec :: "bytes \<Rightarrow> nat \<Rightarrow> bytes option" where
  "hexdec _ 0 = Some []"
| "hexdec (c # e # r) (Suc n) =
     (if c = 0 \<or> e = 0 then None
      else let hi = hexval c; lo = hexval e in
      if hi < 0 \<or> hi > 15 \<or> lo < 0 \<or> lo > 15 then None
      else map_option (\<lambda>bs. word_of_int (hi * 16 + lo) # bs) (hexdec r n))"
| "hexdec _ (Suc n) = None"

section \<open>The file\<close>

definition rec_line :: "rec_t \<Rightarrow> bytes" where
  "rec_line r = hexenc (re_target r) @ 32 # hexenc (re_k r) @ 32 # nat_dec (unat (re_seq r)) @ 32 #
     nat_dec (length (re_v r)) @ 32 # hexenc (re_v r) @ 32 # hexenc (re_sig r) @ 32 # int_dec (re_last_seen r) @ [10]"

definition save :: "recstore \<Rightarrow> recstore" where
  "save st =
     (if rs_path st = [] then st
      else if \<not> rs_writable st then st
      else st\<lparr>rs_file := Some (concat (map rec_line (filter (\<lambda>r. re_priv r = 0) (live st))))\<rparr>)"

definition is_space :: "byte \<Rightarrow> bool" where
  "is_space c \<longleftrightarrow> c = 32 \<or> 9 \<le> c \<and> c \<le> 13"

definition scan_s :: "nat \<Rightarrow> bytes \<Rightarrow> (bytes \<times> bytes) option" where
  "scan_s w s =
     (let s1 = dropWhile is_space s; tok = take w (takeWhile (\<lambda>c. \<not> is_space c) s1)
      in if tok = [] then None else Some (tok, drop (length tok) s1))"

definition scan_num :: "bytes \<Rightarrow> (bool \<times> nat \<times> bytes) option" where
  "scan_num s =
     (let s1 = dropWhile is_space s;
          neg = (s1 \<noteq> [] \<and> hd s1 = 45);
          s2 = (if s1 \<noteq> [] \<and> (hd s1 = 45 \<or> hd s1 = 43) then tl s1 else s1);
          ds = takeWhile is_digit s2
      in if ds = [] then None else Some (neg, dval 0 ds, drop (length ds) s2))"

definition scan_ul :: "bytes \<Rightarrow> (u64 \<times> bytes) option" where
  "scan_ul s =
     (case scan_num s of
        None \<Rightarrow> None
      | Some (neg, n, r) \<Rightarrow>
          Some (if n > 2 ^ 64 - 1 then - 1 else if neg then - word_of_nat n else word_of_nat n, r))"

definition scan_l :: "bytes \<Rightarrow> (int \<times> bytes) option" where
  "scan_l s =
     (case scan_num s of
        None \<Rightarrow> None
      | Some (neg, n, r) \<Rightarrow>
          Some (if neg then max (- int n) (- (2 ^ 63)) else min (int n) (2 ^ 63 - 1), r))"

text \<open>\<open>sscanf(line, "%63s %79s %u %zu %519s %159s %ld")\<close>, all seven conversions.\<close>

definition scan_line :: "bytes \<Rightarrow> (bytes \<times> bytes \<times> u32 \<times> u64 \<times> bytes \<times> bytes \<times> int) option" where
  "scan_line line =
     (case scan_s 63 (c_string line) of None \<Rightarrow> None | Some (tg, s1) \<Rightarrow>
      case scan_s 79 s1 of None \<Rightarrow> None | Some (kk, s2) \<Rightarrow>
      case scan_ul s2 of None \<Rightarrow> None | Some (seq, s3) \<Rightarrow>
      case scan_ul s3 of None \<Rightarrow> None | Some (vlen, s4) \<Rightarrow>
      case scan_s 519 s4 of None \<Rightarrow> None | Some (vv, s5) \<Rightarrow>
      case scan_s 159 s5 of None \<Rightarrow> None | Some (sg, s6) \<Rightarrow>
      case scan_l s6 of None \<Rightarrow> None | Some (ls, s7) \<Rightarrow> Some (tg, kk, ucast seq, vlen, vv, sg, ls))"

definition parse_rec :: "bytes \<Rightarrow> rec_t option" where
  "parse_rec line =
     (case scan_line line of
        None \<Rightarrow> None
      | Some (tg, kk, seq, vlen, vv, sg, ls) \<Rightarrow>
          if vlen > word_of_nat RECSTORE_VMAX then None
          else case (hexdec tg 20, hexdec kk 32, hexdec vv (unat vlen), hexdec sg 64) of
            (Some t, Some k, Some v, Some s) \<Rightarrow>
              Some \<lparr>re_target = t, re_k = k, re_seq = seq, re_v = v, re_sig = s, re_last_seen = ls, re_via = [], re_priv = 0\<rparr>
          | _ \<Rightarrow> None)"

text \<open>\<open>fgets\<close> with the line buffer of \<open>RECSTORE_VMAX * 2 + 512\<close> bytes.\<close>

definition fgets_chunk :: "bytes \<Rightarrow> bytes" where
  "fgets_chunk s =
     (let l = length (takeWhile (\<lambda>c. c \<noteq> 10) s); n = RECSTORE_VMAX * 2 + 512 - 1
      in if l < n \<and> l < length s then take (l + 1) s else take n s)"

function file_lines :: "bytes \<Rightarrow> bytes list" where
  "file_lines s = (if s = [] then [] else fgets_chunk s # file_lines (drop (length (fgets_chunk s)) s))"
  by pat_completeness auto
termination
  by (relation "measure length") (auto simp: fgets_chunk_def Let_def RECSTORE_VMAX_def)

declare file_lines.simps [simp del]

fun load_lines :: "bytes list \<Rightarrow> rec_t list \<Rightarrow> nat \<Rightarrow> rec_t list \<times> nat" where
  "load_lines [] slots n = (slots, n)"
| "load_lines (l # ls) slots n =
     (if n \<ge> RECSTORE_MAX then (slots, n)
      else case parse_rec l of None \<Rightarrow> load_lines ls slots n | Some r \<Rightarrow> load_lines ls (slots[n := r]) (Suc n))"

definition recstore_init :: "bytes \<Rightarrow> recstore \<Rightarrow> int \<times> recstore" where
  "recstore_init path st =
     (let st1 = st\<lparr>rs_count := 0, rs_path := take 511 path\<rparr> in
      if take 511 path = [] then (-1, st1)
      else case rs_file st1 of
        None \<Rightarrow> (0, st1)
      | Some f \<Rightarrow> let (slots, n) = load_lines (file_lines f) (rs_slots st1) 0
                  in (int n, st1\<lparr>rs_slots := slots, rs_count := n\<rparr>))"

section \<open>Operations\<close>

definition find_rec :: "recstore \<Rightarrow> bytes \<Rightarrow> nat option" where
  "find_rec st target = find_idx (\<lambda>r. re_target r = target) (live st)"

definition recstore_accept :: "sodium \<Rightarrow> int \<Rightarrow> bytes \<Rightarrow> u32 \<Rightarrow> bytes \<Rightarrow> bytes \<Rightarrow> recstore \<Rightarrow> int \<times> recstore" where
  "recstore_accept sd now k seq v sig st =
     (if length v = 0 \<or> length v > RECSTORE_VMAX then (0, st)
      else case bep44_signbuf seq v (64 + RECSTORE_VMAX) of
        None \<Rightarrow> (0, st)
      | Some buf \<Rightarrow>
        if bf_verify sd sig buf k \<noteq> 0 then (0, st)
        else let target = bep44_target k;
                 fields = (\<lambda>r. r\<lparr>re_k := k, re_seq := seq, re_v := v, re_sig := sig, re_last_seen := now, re_priv := 0\<rparr>)
        in case find_rec st target of
          Some i \<Rightarrow>
            if seq \<le> re_seq (rs_slots st ! i) then (0, st)
            else (1, save (st\<lparr>rs_slots := (rs_slots st)[i := fields (rs_slots st ! i)]\<rparr>))
        | None \<Rightarrow>
            if rs_count st \<ge> RECSTORE_MAX then (0, st)
            else (1, save (st\<lparr>rs_slots := (rs_slots st)[rs_count st := fields ((rs_slots st ! rs_count st)\<lparr>re_target := target\<rparr>)],
                              rs_count := rs_count st + 1\<rparr>)))"

definition recstore_set_private :: "bytes \<Rightarrow> int \<Rightarrow> recstore \<Rightarrow> recstore" where
  "recstore_set_private k val st =
     (case find_rec st (bep44_target k) of
        None \<Rightarrow> st
      | Some i \<Rightarrow> if re_priv (rs_slots st ! i) \<noteq> val
                  then save (st\<lparr>rs_slots := (rs_slots st)[i := (rs_slots st ! i)\<lparr>re_priv := val\<rparr>]\<rparr>) else st)"

definition recstore_set_via :: "int \<Rightarrow> bytes \<Rightarrow> bytes \<Rightarrow> recstore \<Rightarrow> recstore" where
  "recstore_set_via now k via st =
     (case find_rec st (bep44_target k) of
        None \<Rightarrow> st
      | Some i \<Rightarrow> st\<lparr>rs_slots := (rs_slots st)[i := (rs_slots st ! i)\<lparr>re_via := take 63 via, re_last_seen := now\<rparr>]\<rparr>)"

definition recstore_get :: "bytes \<Rightarrow> recstore \<Rightarrow> rec_t option" where
  "recstore_get target st = map_option (\<lambda>i. rs_slots st ! i) (find_rec st target)"

definition recstore_get_by_pubkey :: "bytes \<Rightarrow> recstore \<Rightarrow> rec_t option" where
  "recstore_get_by_pubkey k st = recstore_get (bep44_target k) st"

definition recstore_get_by_node_id :: "bytes \<Rightarrow> recstore \<Rightarrow> rec_t option" where
  "recstore_get_by_node_id nid st =
     (if nid = replicate 20 0 then None
      else List.find (\<lambda>r. case bep44_record_decode (re_v r) of None \<Rightarrow> False | Some b \<Rightarrow> br_node_id b = nid) (live st))"

definition recstore_count :: "recstore \<Rightarrow> nat" where "recstore_count st = rs_count st"

definition recstore_list :: "int \<Rightarrow> recstore \<Rightarrow> rec_t list" where
  "recstore_list mx st = (if mx \<le> 0 then [] else take (nat mx) (live st))"

section \<open>Reading a written line\<close>

lemma hexdigit_val:
  assumes "n < 16"
  shows "hexval (hexdigit n) = uint n \<and> hexdigit n \<noteq> 0 \<and> \<not> is_space (hexdigit n) \<and> hexdigit n \<noteq> 10"
proof -
  have "unat n < 16" using assms by (simp add: word_less_nat_alt)
  then obtain m where m: "n = word_of_nat m" "m < 16" by (intro that [of "unat n"]) simp_all
  then have "m = 0 \<or> m = 1 \<or> m = 2 \<or> m = 3 \<or> m = 4 \<or> m = 5 \<or> m = 6 \<or> m = 7 \<or> m = 8 \<or>
    m = 9 \<or> m = 10 \<or> m = 11 \<or> m = 12 \<or> m = 13 \<or> m = 14 \<or> m = 15" by presburger
  then show ?thesis using m(1) by (auto simp: hexval_def hexdigit_def is_space_def)
qed

lemma nibbles: "drop_bit 4 b < 16" "b AND 0xf < 16" "uint (drop_bit 4 b) * 16 + uint (b AND 0xf) = uint b" for b :: byte
proof -
  have hi: "uint (drop_bit 4 b) = uint b div 16" by (simp add: drop_bit_eq_div uint_div)
  have "uint b AND 15 = uint b mod 16"
    using take_bit_eq_mask [of 4 "uint b"] by (simp add: mask_eq_exp_minus_1 take_bit_eq_mod)
  then have lo: "uint (b AND 0xf) = uint b mod 16" by (simp add: unsigned_and_eq)
  have "uint b < 256" "0 \<le> uint b" using unsigned_less [of b, where ?'a = int] by simp_all
  then show "drop_bit 4 b < 16" "b AND 0xf < 16" "uint (drop_bit 4 b) * 16 + uint (b AND 0xf) = uint b"
    unfolding word_less_def hi lo by auto
qed

lemma hexdec_hexenc: "hexdec (hexenc bs @ r) (length bs) = Some bs"
proof (induction bs)
  case (Cons b bs)
  have "hexval (hexdigit (drop_bit 4 b)) * 16 + hexval (hexdigit (b AND 0xf)) = uint b"
    "hexval (hexdigit (drop_bit 4 b)) \<in> {0..15}" "hexval (hexdigit (b AND 0xf)) \<in> {0..15}"
    "hexdigit (drop_bit 4 b) \<noteq> 0" "hexdigit (b AND 0xf) \<noteq> 0"
    using hexdigit_val [OF nibbles(1) [of b]] hexdigit_val [OF nibbles(2) [of b]] nibbles [of b]
    by (simp_all add: word_less_def)
  then show ?case using Cons by (simp add: hexenc_def Let_def)
qed (simp add: hexenc_def)

lemma hexenc_chars: "c \<in> set (hexenc bs) \<Longrightarrow> c \<noteq> 0 \<and> \<not> is_space c \<and> c \<noteq> 10"
  using hexdigit_val [OF nibbles(1)] hexdigit_val [OF nibbles(2)] by (auto simp: hexenc_def)

lemma length_hexenc [simp]: "length (hexenc bs) = 2 * length bs"
  by (induction bs) (auto simp: hexenc_def)

lemma digit_chars: "is_digit c \<Longrightarrow> c \<noteq> 0 \<and> \<not> is_space c \<and> c \<noteq> 10 \<and> c \<noteq> 45 \<and> c \<noteq> 43"
  by (auto simp: is_digit_def is_space_def word_le_nat_alt)

lemma scan_s_tok:
  assumes "tok \<noteq> []" "length tok \<le> w" "\<forall>c \<in> set tok. \<not> is_space c"
  shows "scan_s w (tok @ 32 # r) = Some (tok, 32 # r)" "scan_s w (32 # tok @ 32 # r) = Some (tok, 32 # r)"
proof -
  have d: "dropWhile is_space (tok @ 32 # r) = tok @ 32 # r" using assms(1,3) by (cases tok) auto
  have t: "takeWhile (\<lambda>c. \<not> is_space c) (tok @ 32 # r) = tok"
    using assms(3) by (simp add: takeWhile_append2 is_space_def)
  have sp: "is_space 32" by (simp add: is_space_def)
  have w: "take w tok = tok" "tok \<noteq> []" using assms(1,2) by simp_all
  show "scan_s w (tok @ 32 # r) = Some (tok, 32 # r)" unfolding scan_s_def Let_def d t w using w by simp
  have d': "dropWhile is_space (32 # tok @ 32 # r) = tok @ 32 # r" using sp d by simp
  show "scan_s w (32 # tok @ 32 # r) = Some (tok, 32 # r)" unfolding scan_s_def Let_def d' t w using w by simp
qed

lemma scan_num_dec:
  assumes "no_digit r"
  shows "scan_num (32 # nat_dec n @ r) = Some (False, n, r)" "scan_num (32 # 45 # nat_dec n @ r) = Some (True, n, r)"
proof -
  have ds: "\<forall>c \<in> set (nat_dec n). is_digit c" "nat_dec n \<noteq> []" "dval 0 (nat_dec n) = n" using nat_dec_digits [of n] by auto
  have t: "takeWhile is_digit (nat_dec n @ r) = nat_dec n"
    using ds(1) assms by (cases r) (auto simp: no_digit_def takeWhile_append2 takeWhile_eq_all_conv)
  obtain c cs where c: "nat_dec n = c # cs" "is_digit c" using ds by (cases "nat_dec n") auto
  have sp: "is_space 32" "\<not> is_space 45" by (simp_all add: is_space_def)
  have d: "dropWhile is_space (32 # nat_dec n @ r) = nat_dec n @ r" using sp c digit_chars [OF c(2)] by simp
  have h: "hd (nat_dec n @ r) \<noteq> 45" "hd (nat_dec n @ r) \<noteq> 43" "nat_dec n @ r \<noteq> []" using c digit_chars [OF c(2)] by simp_all
  show "scan_num (32 # nat_dec n @ r) = Some (False, n, r)"
    unfolding scan_num_def Let_def d using h t ds by simp
  have d2: "dropWhile is_space (32 # 45 # nat_dec n @ r) = 45 # nat_dec n @ r" using sp by simp
  show "scan_num (32 # 45 # nat_dec n @ r) = Some (True, n, r)"
    unfolding scan_num_def Let_def d2 using t ds by simp
qed

text \<open>A record the store keeps: sizes as the arrays have them, a time that fits \<open>long\<close>.\<close>

definition rec_wf :: "rec_t \<Rightarrow> bool" where
  "rec_wf r \<longleftrightarrow> length (re_target r) = 20 \<and> length (re_k r) = 32 \<and> length (re_sig r) = 64 \<and>
     0 < length (re_v r) \<and> length (re_v r) \<le> RECSTORE_VMAX \<and> - (2 ^ 63) \<le> re_last_seen r \<and> re_last_seen r < 2 ^ 63"

lemma scan_ul_dec: "n < 2 ^ 64 \<Longrightarrow> scan_ul (32 # nat_dec n @ 32 # r) = Some (word_of_nat n, 32 # r)"
  by (simp add: scan_ul_def scan_num_dec no_digit_def is_digit_def)

lemma scan_l_dec:
  assumes "- (2 ^ 63) \<le> i" "i < 2 ^ 63"
  shows "scan_l (32 # int_dec i @ [10]) = Some (i, [10])"
proof -
  have nd: "no_digit [10]" by (simp add: no_digit_def is_digit_def)
  show ?thesis
    using assms scan_num_dec [OF nd, of "nat i"] scan_num_dec [OF nd, of "nat (- i)"]
    by (auto simp: scan_l_def int_dec_def)
qed

lemma int_dec_chars: "c \<in> set (int_dec i) \<Longrightarrow> c \<noteq> 0 \<and> c \<noteq> 10"
  using nat_dec_digits [of "nat i"] nat_dec_digits [of "nat (- i)"] digit_chars
  by (auto simp: int_dec_def split: if_splits)

lemma rec_line_chars: "\<exists>l. rec_line r = l @ [10] \<and> (\<forall>c \<in> set l. c \<noteq> 0 \<and> c \<noteq> 10)"
proof -
  have dec: "c \<noteq> 0 \<and> c \<noteq> 10" if "c \<in> set (nat_dec n)" for c n using that nat_dec_digits [of n] digit_chars by blast
  have hex: "c \<noteq> 0 \<and> c \<noteq> 10" if "c \<in> set (hexenc bs)" for c bs using hexenc_chars [OF that] by simp
  show ?thesis
    by (rule exI [of _ "butlast (rec_line r)"])
       (auto simp: rec_line_def butlast_append dest: dec hex int_dec_chars)
qed

lemma c_string_line: "c_string (rec_line r) = rec_line r"
  using rec_line_chars [of r] by (intro c_string_id) auto

lemma scan_rec_line:
  assumes "rec_wf r"
  shows "scan_line (rec_line r) = Some (hexenc (re_target r), hexenc (re_k r), re_seq r, word_of_nat (length (re_v r)),
           hexenc (re_v r), hexenc (re_sig r), re_last_seen r)"
proof -
  have hs: "\<forall>c \<in> set (hexenc bs). \<not> is_space c" for bs using hexenc_chars by blast
  have ne: "bs \<noteq> [] \<Longrightarrow> hexenc bs \<noteq> []" for bs by (auto simp: hexenc_def)
  have wf: "re_target r \<noteq> []" "re_k r \<noteq> []" "re_v r \<noteq> []" "re_sig r \<noteq> []"
    "length (hexenc (re_target r)) \<le> 63" "length (hexenc (re_k r)) \<le> 79" "length (hexenc (re_v r)) \<le> 519" "length (hexenc (re_sig r)) \<le> 159"
    using assms by (auto simp: rec_wf_def RECSTORE_VMAX_def)
  have seq: "unat (re_seq r) < 2 ^ 64" "length (re_v r) < 2 ^ 64"
    using unsigned_less [of "re_seq r", where ?'a = nat] assms by (auto simp: rec_wf_def RECSTORE_VMAX_def)
  have u: "ucast (word_of_nat (unat (re_seq r)) :: u64) = re_seq r"
    by (rule bit_word_eqI) (simp add: bit_simps)
  show ?thesis
    unfolding scan_line_def c_string_line
    unfolding rec_line_def
    using scan_s_tok(1) [OF ne [OF wf(1)] wf(5) hs] scan_s_tok(2) [OF ne [OF wf(2)] wf(6) hs]
      scan_s_tok(2) [OF ne [OF wf(3)] wf(7) hs] scan_s_tok(2) [OF ne [OF wf(4)] wf(8) hs]
      scan_ul_dec [OF seq(1)] scan_ul_dec [OF seq(2)] scan_l_dec [of "re_last_seen r"] assms u
    by (simp add: rec_wf_def)
qed

lemma parse_rec_line:
  assumes "rec_wf r"
  shows "parse_rec (rec_line r) = Some (r\<lparr>re_via := [], re_priv := 0\<rparr>)"
proof -
  have n: "unat (word_of_nat (length (re_v r)) :: u64) = length (re_v r)"
    using assms by (intro unat_of_nat_u64) (simp add: rec_wf_def RECSTORE_VMAX_def)
  have le: "\<not> (word_of_nat (length (re_v r)) :: u64) > word_of_nat RECSTORE_VMAX"
    using assms n by (simp add: word_less_nat_alt rec_wf_def RECSTORE_VMAX_def)
  have h: "hexdec (hexenc bs) (length bs) = Some bs" for bs using hexdec_hexenc [of bs "[]"] by simp
  have "hexdec (hexenc (re_target r)) 20 = Some (re_target r)" "hexdec (hexenc (re_k r)) 32 = Some (re_k r)"
    "hexdec (hexenc (re_sig r)) 64 = Some (re_sig r)"
    using h [of "re_target r"] h [of "re_k r"] h [of "re_sig r"] assms by (simp_all add: rec_wf_def)
  then show ?thesis using le n h [of "re_v r"] by (simp add: parse_rec_def scan_rec_line [OF assms])
qed

lemma length_rec_line: "rec_wf r \<Longrightarrow> length (rec_line r) \<le> 1000"
proof -
  assume wf: "rec_wf r"
  have "nat (re_last_seen r) < 10 ^ 19" "nat (- re_last_seen r) < 10 ^ 19" using wf by (auto simp: rec_wf_def nat_less_iff)
  then have i: "length (int_dec (re_last_seen r)) \<le> 20"
    using length_nat_dec [of "nat (re_last_seen r)" 19] length_nat_dec [of "nat (- re_last_seen r)" 19]
    by (auto simp: int_dec_def)
  have "unat (re_seq r) < 10 ^ 10" using unsigned_less [of "re_seq r", where ?'a = nat] by simp
  then have "length (nat_dec (unat (re_seq r))) \<le> 10" by (rule length_nat_dec) simp
  moreover have "length (nat_dec (length (re_v r))) \<le> 10"
    using wf by (intro length_nat_dec) (simp_all add: rec_wf_def RECSTORE_VMAX_def)
  ultimately show ?thesis using wf i by (simp add: rec_line_def rec_wf_def RECSTORE_VMAX_def)
qed

lemma fgets_rec_line:
  assumes "rec_wf r"
  shows "fgets_chunk (rec_line r @ s) = rec_line r"
proof -
  obtain l where l: "rec_line r = l @ [10]" "\<forall>c \<in> set l. c \<noteq> 0 \<and> c \<noteq> 10" using rec_line_chars by blast
  have t: "takeWhile (\<lambda>c. c \<noteq> 10) (rec_line r @ s) = l" using l by (simp add: takeWhile_append2)
  have "length l < 1023" using length_rec_line [OF assms] l by simp
  then show ?thesis unfolding fgets_chunk_def Let_def t by (simp add: l(1) RECSTORE_VMAX_def)
qed

lemma file_lines_rec: "\<forall>r \<in> set rs. rec_wf r \<Longrightarrow> file_lines (concat (map rec_line rs)) = map rec_line rs"
proof (induction rs)
  case (Cons r rs)
  then have f: "fgets_chunk (rec_line r @ concat (map rec_line rs)) = rec_line r" by (simp add: fgets_rec_line)
  have "rec_line r \<noteq> []" by (simp add: rec_line_def)
  then show ?case using Cons f by (subst file_lines.simps) simp
qed (simp add: file_lines.simps)

lemma load_lines_rec:
  "\<forall>r \<in> set rs. rec_wf r \<Longrightarrow> n + length rs \<le> RECSTORE_MAX \<Longrightarrow> length slots = RECSTORE_MAX \<Longrightarrow>
     load_lines (map rec_line rs) slots n = (slots', m) \<Longrightarrow>
     m = n + length rs \<and> length slots' = RECSTORE_MAX \<and>
     take m slots' = take n slots @ map (\<lambda>r. r\<lparr>re_via := [], re_priv := 0\<rparr>) rs"
proof (induction rs arbitrary: slots n)
  case (Cons r rs)
  have n: "\<not> n \<ge> RECSTORE_MAX" using Cons.prems by simp
  have "load_lines (map rec_line rs) (slots[n := r\<lparr>re_via := [], re_priv := 0\<rparr>]) (Suc n) = (slots', m)"
    using Cons.prems n by (simp add: parse_rec_line)
  from Cons.IH [OF _ _ _ this] Cons.prems have
    "m = Suc n + length rs" "length slots' = RECSTORE_MAX"
    "take m slots' = take (Suc n) (slots[n := r\<lparr>re_via := [], re_priv := 0\<rparr>]) @ map (\<lambda>r. r\<lparr>re_via := [], re_priv := 0\<rparr>) rs"
    by auto
  then show ?case using n Cons.prems(3) by (simp add: take_Suc_conv_app_nth)
qed simp

section \<open>Invariant\<close>

definition rec_authentic :: "sodium \<Rightarrow> rec_t \<Rightarrow> bool" where
  "rec_authentic sd r \<longleftrightarrow> re_target r = bep44_target (re_k r) \<and>
     (\<exists>buf. bep44_signbuf (re_seq r) (re_v r) (64 + RECSTORE_VMAX) = Some buf \<and> sig_verify sd (re_sig r) buf (re_k r))"

definition rec_inv :: "sodium \<Rightarrow> recstore \<Rightarrow> bool" where
  "rec_inv sd st \<longleftrightarrow> length (rs_slots st) = RECSTORE_MAX \<and> rs_count st \<le> RECSTORE_MAX \<and>
     distinct (map re_target (live st)) \<and> (\<forall>r \<in> set (live st). rec_wf r \<and> rec_authentic sd r)"

lemma save_frame [simp]: "rs_slots (save st) = rs_slots st" "rs_count (save st) = rs_count st" "rs_path (save st) = rs_path st"
  "rs_writable (save st) = rs_writable st"
  by (simp_all add: save_def)

lemma save_inv [simp]: "rec_inv sd (save st) = rec_inv sd st"
  by (simp add: rec_inv_def)

text \<open>What was written is what a start reads.\<close>

lemma reload_save:
  assumes "rec_inv sd st" "rs_path st \<noteq> []" "rs_writable st" "take 511 path \<noteq> []" "rs_file st0 = rs_file (save st)"
    "length (rs_slots st0) = RECSTORE_MAX"
  shows "live (snd (recstore_init path st0)) =
    map (\<lambda>r. r\<lparr>re_via := [], re_priv := 0\<rparr>) (filter (\<lambda>r. re_priv r = 0) (live st))"
proof -
  let ?rs = "filter (\<lambda>r. re_priv r = 0) (live st)"
  have f: "rs_file st0 = Some (concat (map rec_line ?rs))" using assms(2,3,5) by (simp add: save_def)
  have wf: "\<forall>r \<in> set ?rs. rec_wf r" using assms(1) by (auto simp: rec_inv_def)
  have len: "0 + length ?rs \<le> RECSTORE_MAX"
    using assms(1) length_filter_le [of "\<lambda>r. re_priv r = 0" "live st"] by (simp add: rec_inv_def)
  obtain slots n where l: "load_lines (map rec_line ?rs) (rs_slots st0) 0 = (slots, n)" by fastforce
  from load_lines_rec [OF wf len assms(6) l] show ?thesis
    using f l assms(4) by (auto simp: recstore_init_def file_lines_rec [OF wf])
qed

lemma find_rec_Some:
  assumes "find_rec st t = Some i"
  shows "i < rs_count st" "i < length (rs_slots st)" "re_target (rs_slots st ! i) = t" "rs_slots st ! i \<in> set (live st)"
  using find_idx_less [OF assms [unfolded find_rec_def]] find_idx_holds [OF assms [unfolded find_rec_def]]
    find_idx_in_set [OF assms [unfolded find_rec_def]] by auto

lemma find_idx_update_other:
  "i < length xs \<Longrightarrow> \<not> P (xs ! i) \<Longrightarrow> \<not> P x \<Longrightarrow> find_idx P (xs[i := x]) = find_idx P xs"
proof (induction xs arbitrary: i)
  case (Cons y ys)
  then show ?case by (cases i) auto
qed simp

lemma live_update: "i < rs_count st \<Longrightarrow> take (rs_count st) ((rs_slots st)[i := r]) = (live st)[i := r]"
  by (simp add: take_update_swap)

lemma rec_rewrite_inv:
  assumes inv: "rec_inv sd st" and i: "i < rs_count st" and r: "re_target r = re_target (rs_slots st ! i)" "rec_wf r" "rec_authentic sd r"
  shows "rec_inv sd (st\<lparr>rs_slots := (rs_slots st)[i := r]\<rparr>)"
proof -
  have i': "i < length (live st)" using inv i by (simp add: rec_inv_def)
  have "map re_target ((live st)[i := r]) = map re_target (live st)"
    using i i' r(1) by (simp add: map_update list_update_same_conv)
  then have "distinct (map re_target ((live st)[i := r]))" using inv by (simp only: rec_inv_def)
  moreover have "\<forall>x \<in> set ((live st)[i := r]). rec_wf x \<and> rec_authentic sd x"
    using inv r set_update_subset_insert [of "live st" i r] by (auto simp: rec_inv_def)
  ultimately show ?thesis using inv live_update [OF i, of r] by (simp add: rec_inv_def)
qed

lemma rec_append_inv:
  assumes inv: "rec_inv sd st" and c: "rs_count st < RECSTORE_MAX"
    and r: "re_target r \<notin> re_target ` set (live st)" "rec_wf r" "rec_authentic sd r"
  shows "rec_inv sd (st\<lparr>rs_slots := (rs_slots st)[rs_count st := r], rs_count := rs_count st + 1\<rparr>)"
    "take (rs_count st + 1) ((rs_slots st)[rs_count st := r]) = live st @ [r]"
proof -
  have len: "rs_count st < length (rs_slots st)" using inv c by (simp add: rec_inv_def)
  then show l: "take (rs_count st + 1) ((rs_slots st)[rs_count st := r]) = live st @ [r]"
    by (simp add: take_Suc_conv_app_nth)
  then show "rec_inv sd (st\<lparr>rs_slots := (rs_slots st)[rs_count st := r], rs_count := rs_count st + 1\<rparr>)"
    using inv c r by (auto simp: rec_inv_def)
qed

lemma find_rec_None: "find_rec st t = None \<longleftrightarrow> t \<notin> re_target ` set (live st)"
  by (auto simp: find_rec_def)

lemma get_rec_iff:
  assumes "rec_inv sd st"
  shows "recstore_get t st = Some r \<longleftrightarrow> r \<in> set (live st) \<and> re_target r = t"
proof
  assume "recstore_get t st = Some r"
  then show "r \<in> set (live st) \<and> re_target r = t" using find_rec_Some by (auto simp: recstore_get_def)
next
  assume r: "r \<in> set (live st) \<and> re_target r = t"
  then obtain i where i: "i < length (live st)" "r = live st ! i" by (auto simp: in_set_conv_nth)
  have "find_idx (\<lambda>x. re_target x = re_target (live st ! i)) (live st) = Some i"
    by (rule find_idx_distinct) (use assms i in \<open>auto simp: rec_inv_def\<close>)
  then show "recstore_get t st = Some r" using r i by (simp add: recstore_get_def find_rec_def)
qed

section \<open>Accepting a record\<close>

lemma save_save: "rs_path st \<noteq> [] \<Longrightarrow> rs_writable st \<Longrightarrow> rs_file (save (save st)) = rs_file (save st)"
  by (simp add: save_def)

lemma get_save [simp]: "recstore_get t (save st) = recstore_get t st"
  by (simp add: recstore_get_def find_rec_def)

definition accepted :: "int \<Rightarrow> bytes \<Rightarrow> u32 \<Rightarrow> bytes \<Rightarrow> bytes \<Rightarrow> rec_t \<Rightarrow> bool" where
  "accepted now k seq v sig r \<longleftrightarrow> re_target r = bep44_target k \<and> re_k r = k \<and> re_seq r = seq \<and> re_v r = v \<and>
     re_sig r = sig \<and> re_last_seen r = now \<and> re_priv r = 0"

lemma accepted_wf:
  assumes "accepted now k seq v sig r" "length k = 32" "length sig = 64" "- (2 ^ 63) \<le> now" "now < 2 ^ 63"
    "length v \<noteq> 0" "\<not> length v > RECSTORE_VMAX" "bep44_signbuf seq v (64 + RECSTORE_VMAX) = Some buf" "bf_verify sd sig buf k = 0"
  shows "rec_wf r \<and> rec_authentic sd r"
  using assms by (auto simp: accepted_def rec_wf_def rec_authentic_def bf_verify_def bep44_target_def split: if_splits)

lemma rec_accept_cases:
  assumes "recstore_accept sd now k seq v sig st = (rc, st')" "length k = 32" "length sig = 64" "- (2 ^ 63) \<le> now" "now < 2 ^ 63"
  obtains "rc = 0" "st' = st"
  | i r where "find_rec st (bep44_target k) = Some i" "re_seq (rs_slots st ! i) < seq" "accepted now k seq v sig r"
      "rec_wf r" "rec_authentic sd r" "rc = 1" "st' = save (st\<lparr>rs_slots := (rs_slots st)[i := r]\<rparr>)"
  | r where "find_rec st (bep44_target k) = None" "rs_count st < RECSTORE_MAX" "accepted now k seq v sig r"
      "rec_wf r" "rec_authentic sd r" "rc = 1"
      "st' = save (st\<lparr>rs_slots := (rs_slots st)[rs_count st := r], rs_count := rs_count st + 1\<rparr>)"
proof (cases "\<exists>buf. length v \<noteq> 0 \<and> \<not> length v > RECSTORE_VMAX \<and> bep44_signbuf seq v (64 + RECSTORE_VMAX) = Some buf \<and> bf_verify sd sig buf k = 0")
  case False
  then show thesis using assms(1) that(1) unfolding recstore_accept_def by (auto split: if_splits option.splits)
next
  case True
  then obtain buf where buf: "length v \<noteq> 0" "\<not> length v > RECSTORE_VMAX" "bep44_signbuf seq v (64 + RECSTORE_VMAX) = Some buf" "bf_verify sd sig buf k = 0" by blast
  note wf = accepted_wf [OF _ assms(2-5) buf]
  show thesis
  proof (cases "find_rec st (bep44_target k)")
    case None
    define r where "r = (rs_slots st ! rs_count st)\<lparr>re_target := bep44_target k, re_k := k, re_seq := seq, re_v := v, re_sig := sig, re_last_seen := now, re_priv := 0\<rparr>"
    have a: "accepted now k seq v sig r" by (simp add: accepted_def r_def)
    show thesis
      using assms(1) None buf wf [OF a] a that(1) that(3) [OF None _ a]
      by (auto simp: recstore_accept_def r_def not_le split: if_splits)
  next
    case (Some i)
    define r where "r = (rs_slots st ! i)\<lparr>re_k := k, re_seq := seq, re_v := v, re_sig := sig, re_last_seen := now, re_priv := 0\<rparr>"
    have a: "accepted now k seq v sig r" using find_rec_Some(3) [OF Some] by (simp add: accepted_def r_def)
    show thesis
      using assms(1) Some buf wf [OF a] a that(1) that(2) [OF Some _ a]
      by (auto simp: recstore_accept_def r_def not_le split: if_splits)
  qed
qed

lemma rec_accept_ok:
  assumes inv: "rec_inv sd st" and r: "recstore_accept sd now k seq v sig st = (rc, st')"
    and arg: "length k = 32" "length sig = 64" "- (2 ^ 63) \<le> now" "now < 2 ^ 63"
  shows "rec_inv sd st' \<and> rs_path st' = rs_path st \<and> rs_writable st' = rs_writable st \<and>
    (if rc = 1
     then (\<exists>x. recstore_get (bep44_target k) st' = Some x \<and> accepted now k seq v sig x) \<and>
          (\<forall>old. recstore_get (bep44_target k) st = Some old \<longrightarrow> re_seq old < seq) \<and>
          (\<forall>t. t \<noteq> bep44_target k \<longrightarrow> recstore_get t st' = recstore_get t st) \<and>
          (rs_path st \<noteq> [] \<longrightarrow> rs_writable st \<longrightarrow> rs_file st' = rs_file (save st'))
     else rc = 0 \<and> st' = st)"
  using r arg
proof (cases rule: rec_accept_cases)
  case 1
  then show ?thesis using inv by simp
next
  case (2 i x)
  note f = find_rec_Some [OF 2(1)]
  let ?s = "st\<lparr>rs_slots := (rs_slots st)[i := x]\<rparr>"
  have t: "re_target x = re_target (rs_slots st ! i)" using 2(3) f(3) by (simp add: accepted_def)
  have inv': "rec_inv sd ?s" by (rule rec_rewrite_inv [OF inv f(1) t 2(4,5)])
  have lv: "live ?s = (live st)[i := x]" using live_update [OF f(1)] by simp
  have ix: "(live st)[i := x] ! i = x" "i < length (live st)" using f(1,2) by simp_all
  have "recstore_get (bep44_target k) ?s = Some x" unfolding get_rec_iff [OF inv'] lv
    using ix set_update_memI [OF ix(2)] 2(3) by (simp add: accepted_def)
  moreover have "recstore_get t ?s = recstore_get t st" if "t \<noteq> bep44_target k" for t
  proof -
    have "find_rec ?s t = find_rec st t"
      unfolding find_rec_def lv
      using find_idx_update_other [of i "live st" "\<lambda>r. re_target r = t" x] ix(2) f 2(3) that by (simp add: accepted_def)
    moreover have "j \<noteq> i" if "find_rec st t = Some j" for j using find_rec_Some(3) [OF that] f(3) \<open>t \<noteq> bep44_target k\<close> by auto
    ultimately show ?thesis by (cases "find_rec st t") (auto simp: recstore_get_def)
  qed
  moreover have "recstore_get (bep44_target k) st = Some (rs_slots st ! i)" using 2(1) by (simp add: recstore_get_def)
  ultimately show ?thesis using 2 inv' save_save [of ?s] by auto
next
  case (3 x)
  let ?s = "st\<lparr>rs_slots := (rs_slots st)[rs_count st := x], rs_count := rs_count st + 1\<rparr>"
  have nt: "re_target x \<notin> re_target ` set (live st)" using 3(1,3) unfolding find_rec_None by (simp add: accepted_def)
  note a = rec_append_inv [OF inv 3(2) nt 3(4,5)]
  have lv: "live ?s = live st @ [x]" using a(2) by simp
  have g: "recstore_get t ?s = Some r \<longleftrightarrow> r \<in> insert x (set (live st)) \<and> re_target r = t" for t r
    unfolding get_rec_iff [OF a(1)] lv by auto
  have "recstore_get (bep44_target k) ?s = Some x" unfolding g using 3(3) by (simp add: accepted_def)
  moreover have "recstore_get t ?s = recstore_get t st" if "t \<noteq> bep44_target k" for t
  proof -
    have "recstore_get t ?s = Some r \<longleftrightarrow> recstore_get t st = Some r" for r
      unfolding g get_rec_iff [OF inv] using 3(3) that by (auto simp: accepted_def)
    then show ?thesis by (metis not_Some_eq)
  qed
  moreover have "recstore_get (bep44_target k) st = None" using 3(1) by (simp add: recstore_get_def)
  ultimately show ?thesis using 3 a(1) save_save [of ?s] by auto
qed

section \<open>Runs\<close>

datatype rec_op =
  RAccept int bytes u32 bytes bytes
| RPrivate bytes int
| RVia int bytes bytes

fun rec_op_ok :: "rec_op \<Rightarrow> bool" where
  "rec_op_ok (RAccept now k seq v sig) \<longleftrightarrow> length k = 32 \<and> length sig = 64 \<and> - (2 ^ 63) \<le> now \<and> now < 2 ^ 63"
| "rec_op_ok (RPrivate k val) \<longleftrightarrow> True"
| "rec_op_ok (RVia now k via) \<longleftrightarrow> - (2 ^ 63) \<le> now \<and> now < 2 ^ 63"

fun rec_step :: "sodium \<Rightarrow> recstore \<Rightarrow> rec_op \<Rightarrow> recstore" where
  "rec_step sd st (RAccept now k seq v sig) = snd (recstore_accept sd now k seq v sig st)"
| "rec_step sd st (RPrivate k val) = recstore_set_private k val st"
| "rec_step sd st (RVia now k via) = recstore_set_via now k via st"

definition rec_start :: "bytes \<Rightarrow> bool \<Rightarrow> recstore" where
  "rec_start path w = snd (recstore_init path \<lparr>rs_slots = replicate RECSTORE_MAX rec_zero, rs_count = 0, rs_path = [],
     rs_file = None, rs_writable = w\<rparr>)"

lemma rec_step_ok:
  assumes "rec_inv sd st" "rec_op_ok p"
  shows "rec_inv sd (rec_step sd st p) \<and> rs_path (rec_step sd st p) = rs_path st \<and> rs_writable (rec_step sd st p) = rs_writable st"
proof -
  have slot: "rec_wf (rs_slots st ! i)" "rec_authentic sd (rs_slots st ! i)" if "find_rec st t = Some i" for t i
    using find_rec_Some(4) [OF that] assms(1) by (simp_all add: rec_inv_def)
  show ?thesis
proof (cases p)
  case (RAccept now k seq v sig)
  obtain rc st' where r: "recstore_accept sd now k seq v sig st = (rc, st')" by fastforce
  then show ?thesis using rec_accept_ok [OF assms(1) r] assms(2) RAccept by simp
next
  case (RPrivate k val)
  have "rec_inv sd (st\<lparr>rs_slots := (rs_slots st)[i := (rs_slots st ! i)\<lparr>re_priv := val\<rparr>]\<rparr>)"
    if "find_rec st (bep44_target k) = Some i" for i
    by (rule rec_rewrite_inv [OF assms(1) find_rec_Some(1) [OF that]])
       (use slot [OF that] in \<open>simp_all add: rec_wf_def rec_authentic_def\<close>)
  then show ?thesis using assms(1) RPrivate by (auto simp: recstore_set_private_def split: option.split)
next
  case (RVia now k via)
  have "rec_inv sd (st\<lparr>rs_slots := (rs_slots st)[i := (rs_slots st ! i)\<lparr>re_via := take 63 via, re_last_seen := now\<rparr>]\<rparr>)"
    if "find_rec st (bep44_target k) = Some i" for i
    by (rule rec_rewrite_inv [OF assms(1) find_rec_Some(1) [OF that]])
       (use slot [OF that] assms(2) RVia in \<open>simp_all add: rec_wf_def rec_authentic_def\<close>)
  then show ?thesis using assms(1) RVia by (auto simp: recstore_set_via_def split: option.split)
qed
qed

lemma rec_run_ok:
  "rec_inv sd st \<Longrightarrow> list_all rec_op_ok ps \<Longrightarrow>
     rec_inv sd (foldl (rec_step sd) st ps) \<and> rs_path (foldl (rec_step sd) st ps) = rs_path st \<and>
     rs_writable (foldl (rec_step sd) st ps) = rs_writable st"
proof (induction ps arbitrary: st)
  case (Cons p ps)
  then show ?case using rec_step_ok [of sd st p] Cons.IH [of "rec_step sd st p"] by simp
qed simp

lemma rec_start_inv: "rec_inv sd (rec_start path w)" "rs_path (rec_start path w) = take 511 path" "rs_writable (rec_start path w) = w"
  by (simp_all add: rec_start_def recstore_init_def rec_inv_def Let_def)

text \<open>C12: A record store that started without a file and took any sequence of records, privacy
  marks and sightings holds, for each key, one record whose signature verifies. A record it
  accepts is then the one it returns for that key, its sequence number is greater than that
  of the record it replaces, and every other key keeps its record; a record it refuses
  changes nothing. With a path that can be written, a restart on the file reads back exactly
  the public records it held after accepting.\<close>

theorem recstore_accept_persists:
  assumes "list_all rec_op_ok ps" and st: "st = foldl (rec_step sd) (rec_start path w) ps"
    and r: "recstore_accept sd now k seq v sig st = (rc, st')" and arg: "rec_op_ok (RAccept now k seq v sig)"
  shows "(\<forall>x \<in> set (live st'). rec_authentic sd x) \<and>
    (if rc = 1
     then (\<exists>x. recstore_get_by_pubkey k st' = Some x \<and> accepted now k seq v sig x) \<and>
          (\<forall>old. recstore_get_by_pubkey k st = Some old \<longrightarrow> re_seq old < seq) \<and>
          (\<forall>t. t \<noteq> bep44_target k \<longrightarrow> recstore_get t st' = recstore_get t st) \<and>
          (path \<noteq> [] \<and> w \<longrightarrow> live (snd (recstore_init path st')) =
             map (\<lambda>x. x\<lparr>re_via := [], re_priv := 0\<rparr>) (filter (\<lambda>x. re_priv x = 0) (live st')))
     else rc = 0 \<and> st' = st)"
proof -
  have inv: "rec_inv sd st" "rs_path st = take 511 path" "rs_writable st = w"
    using rec_run_ok [OF rec_start_inv(1) assms(1), of sd path w] rec_start_inv(2,3) unfolding st by simp_all
  have a: "rec_inv sd st'" "rs_path st' = rs_path st" "rs_writable st' = rs_writable st"
    using rec_accept_ok [OF inv(1) r] arg by simp_all
  have "live (snd (recstore_init path st')) = map (\<lambda>x. x\<lparr>re_via := [], re_priv := 0\<rparr>) (filter (\<lambda>x. re_priv x = 0) (live st'))"
    if "path \<noteq> []" "w" "rc = 1"
  proof (rule reload_save [OF a(1)])
    show "rs_file st' = rs_file (save st')" using rec_accept_ok [OF inv(1) r] arg that inv by simp
  qed (use a inv that in \<open>simp_all add: rec_inv_def\<close>)
  then show ?thesis using rec_accept_ok [OF inv(1) r] arg a(1) by (auto simp: recstore_get_by_pubkey_def rec_inv_def)
qed

theorem recstore_accept_persists_witness:
  "let sd = toy_sodium; k = sig_pub sd [1]; sig = sig_sign sd (the (bep44_signbuf 3 [9, 8] 320)) [1];
       (rc, st) = recstore_accept sd 77 k 3 [9, 8] sig (rec_start [47, 114] True) in
     rc = 1 \<and> map re_v (live (snd (recstore_init [47, 114] st))) = [[9, 8]]"
proof -
  define sd where "sd = toy_sodium"
  obtain buf where buf: "bep44_signbuf 3 [9, 8] 320 = Some buf"
    by (simp add: bep44_signbuf_def bep44_signbuf_salted_def seq_head_def nat_dec.simps Let_def)
  define k sig where ks: "k = sig_pub sd [1]" "sig = sig_sign sd buf [1]"
  obtain rc st where r: "recstore_accept sd 77 k 3 [9, 8] sig (rec_start [47, 114] True) = (rc, st)" by fastforce
  have ok: "sig_verify sd sig buf k" "length k = 32" "length sig = 64"
    using toy_ok toy_len by (simp_all add: sodium_ok_def ks sd_def)
  have rc: "rc = 1" "live st = [(rec_zero)\<lparr>re_target := bep44_target k, re_k := k, re_seq := 3, re_v := [9, 8],
      re_sig := sig, re_last_seen := 77, re_priv := 0\<rparr>]"
    using r buf ok by (auto simp: recstore_accept_def RECSTORE_VMAX_def RECSTORE_MAX_def bf_verify_def find_rec_def
        rec_start_def recstore_init_def Let_def numeral_eq_Suc)
  have "(\<forall>x \<in> set (live st). rec_authentic sd x) \<and>
    (if rc = 1 then (\<exists>x. recstore_get_by_pubkey k st = Some x \<and> accepted 77 k 3 [9, 8] sig x) \<and>
          (\<forall>old. recstore_get_by_pubkey k (rec_start [47, 114] True) = Some old \<longrightarrow> re_seq old < 3) \<and>
          (\<forall>t. t \<noteq> bep44_target k \<longrightarrow> recstore_get t st = recstore_get t (rec_start [47, 114] True)) \<and>
          ([47, 114] \<noteq> ([] :: bytes) \<and> True \<longrightarrow> live (snd (recstore_init [47, 114] st)) =
             map (\<lambda>x. x\<lparr>re_via := [], re_priv := 0\<rparr>) (filter (\<lambda>x. re_priv x = 0) (live st)))
     else rc = 0 \<and> st = rec_start [47, 114] True)"
    by (rule recstore_accept_persists [where ps = "[]"]) (use r ok in simp_all)
  then show ?thesis using rc r by (simp add: buf ks sd_def [symmetric] Let_def)
qed

end
