(* ===== verification/Norn_Slots.thy ===== *)
theory Norn_Slots
  imports Norn_Prelude
begin

text \<open>
  The two loops the small tables share: replace the value of a used slot with the key, or
  else fill the first free slot; and clear the slot with the key. The lemmas are proved once
  in the locale \<open>slot_table\<close>: storing and removing are update and deletion of the map the
  table stands for, and storing fails only on a full table without the key.
\<close>

definition slot_put ::
  "('e \<Rightarrow> bool) \<Rightarrow> ('e \<Rightarrow> 'k) \<Rightarrow> ('k \<Rightarrow> 'v \<Rightarrow> 'e \<Rightarrow> 'e) \<Rightarrow> ('v \<Rightarrow> 'e \<Rightarrow> 'e) \<Rightarrow> 'k \<Rightarrow> 'v \<Rightarrow> 'e list \<Rightarrow> 'e list option" where
  "slot_put used key fill set_val k v es =
     (case find_idx (\<lambda>e. used e \<and> key e = k) es of
        Some i \<Rightarrow> Some (es[i := set_val v (es ! i)])
      | None \<Rightarrow>
          (case find_idx (\<lambda>e. \<not> used e) es of
             Some i \<Rightarrow> Some (es[i := fill k v (es ! i)])
           | None \<Rightarrow> None))"

definition slot_del :: "('e \<Rightarrow> bool) \<Rightarrow> ('e \<Rightarrow> 'k) \<Rightarrow> ('e \<Rightarrow> 'e) \<Rightarrow> 'k \<Rightarrow> 'e list \<Rightarrow> 'e list option" where
  "slot_del used key clear k es =
     (case find_idx (\<lambda>e. used e \<and> key e = k) es of
        Some i \<Rightarrow> Some (es[i := clear (es ! i)])
      | None \<Rightarrow> None)"

lemma slot_map_find:
  "find_idx (\<lambda>e. used e \<and> key e = k) es = None \<Longrightarrow> slot_map used key val es k = None"
  "find_idx (\<lambda>e. used e \<and> key e = k) es = Some i \<Longrightarrow> slot_map used key val es k = Some (val (es ! i))"
  by (simp_all add: slot_map_def del: find_idx_None_iff)

lemma slots_distinct_replicate: "\<not> used e \<Longrightarrow> slots_distinct used key (replicate n e)"
  by (induction n) auto

lemma slot_map_replicate: "\<not> used e \<Longrightarrow> slot_map used key val (replicate n e) = Map.empty"
  by (induction n) auto

lemma filter_free: "find_idx (\<lambda>e. \<not> used e) es = None \<longleftrightarrow> length (filter used es) = length es"
proof -
  have "(length (filter used es) = length es) = (\<forall>e \<in> set es. used e)"
    by (induction es) (auto, metis Suc_n_not_le_n length_filter_le)
  then show ?thesis by simp
qed

text \<open>Entries may be cleared by a sweep; the map then keeps the entries that stay used.\<close>

lemma slot_map_sweep:
  assumes "slots_distinct used key es" "\<And>e. used (f e) \<longleftrightarrow> used e \<and> \<not> P e" "\<And>e. used (f e) \<Longrightarrow> key (f e) = key e \<and> val (f e) = val e"
    "\<And>e. P e \<longleftrightarrow> Q (val e)"
  shows "slots_distinct used key (map f es)"
    and "slot_map used key val (map f es) k = (case slot_map used key val es k of None \<Rightarrow> None | Some v \<Rightarrow> if Q v then None else Some v)"
proof -
  have k: "used e \<Longrightarrow> \<not> P e \<Longrightarrow> key (f e) = key e" for e using assms(2,3) by blast
  show "slots_distinct used key (map f es)"
    using assms(1) by (induction es) (auto simp: assms(2) k)
  show "slot_map used key val (map f es) k = (case slot_map used key val es k of None \<Rightarrow> None | Some v \<Rightarrow> if Q v then None else Some v)"
    using assms(1)
  proof (induction es)
    case (Cons e es)
    have no: "used e \<Longrightarrow> slot_map used key val es (key e) = None" using Cons.prems by (auto simp: slot_map_None_iff)
    show ?case
      using Cons no assms(3) [of e] by (auto simp: assms(2,4) split: option.split)
  qed simp
qed

lemma slot_put_all:
  assumes "slot_put used key fill sv k v es = Some es'" "\<forall>e \<in> set es. Q e" "\<And>e. Q (fill k v e)" "\<And>e. Q (sv v e)"
  shows "\<forall>e \<in> set es'. Q e"
  using assms by (auto simp: slot_put_def split: option.splits dest!: set_update_subset [THEN subsetD])

lemma slot_map_found:
  assumes "slot_map used key val es k = Some v"
  obtains i where "find_idx (\<lambda>e. used e \<and> key e = k) es = Some i" "v = val (es ! i)" "i < length es"
  using assms slot_map_find(1) [of used key k es val] slot_map_find(2) [of used key k es _ val] find_idx_less
  by (cases "find_idx (\<lambda>e. used e \<and> key e = k) es") (auto simp del: find_idx_None_iff)

context slot_table
begin

lemma put_map:
  assumes "slots_distinct used key es" "slot_put used key fill set_val k v es = Some es'"
  shows "slot_map used key val es' = (slot_map used key val es)(k \<mapsto> v)"
    and "slots_distinct used key es'" and "length es' = length es"
proof -
  have "slot_map used key val es' = (slot_map used key val es)(k \<mapsto> v) \<and> slots_distinct used key es' \<and> length es' = length es"
  proof (cases "find_idx (\<lambda>e. used e \<and> key e = k) es")
    case (Some i)
    then show ?thesis using assms map_overwrite [OF Some] distinct_overwrite [OF find_idx_less [OF Some] assms(1)]
      by (auto simp: slot_put_def)
  next
    case None
    then obtain i where i: "find_idx (\<lambda>e. \<not> used e) es = Some i" "es' = es[i := fill k v (es ! i)]"
      using assms(2) by (auto simp: slot_put_def simp del: find_idx_None_iff split: option.splits)
    have m: "slot_map used key val es k = None" by (rule slot_map_find(1) [OF None])
    show ?thesis
      using i find_idx_less [OF i(1)] find_idx_holds [OF i(1)] map_insert_free [OF _ _ m] distinct_insert_free [OF _ _ m assms(1)]
      by auto
  qed
  then show "slot_map used key val es' = (slot_map used key val es)(k \<mapsto> v)"
    and "slots_distinct used key es'" and "length es' = length es" by auto
qed

lemma put_fails:
  assumes "slots_distinct used key es"
  shows "slot_put used key fill set_val k v es = None \<longleftrightarrow>
    slot_map used key val es k = None \<and> card (dom (slot_map used key val es)) = length es"
proof (cases "find_idx (\<lambda>e. used e \<and> key e = k) es")
  case (Some i)
  then show ?thesis using slot_map_find(2) [OF Some, of val] by (simp add: slot_put_def)
next
  case None
  have "slot_put used key fill set_val k v es = None \<longleftrightarrow> find_idx (\<lambda>e. \<not> used e) es = None"
    using None by (simp add: slot_put_def del: find_idx_None_iff split: option.split)
  then show ?thesis using slot_map_find(1) [OF None, of val] card_dom_slot_map [OF assms, of val]
    by (simp only: filter_free) simp
qed

lemma put_count:
  assumes "slots_distinct used key es" "slot_put used key fill set_val k v es = Some es'"
  shows "length (filter used es') = length (filter used es) + (if slot_map used key val es k = None then 1 else 0)"
proof (cases "find_idx (\<lambda>e. used e \<and> key e = k) es")
  case (Some i)
  then show ?thesis using assms slot_map_find(2) [OF Some, of val] count_overwrite [OF find_idx_less [OF Some]]
    by (auto simp: slot_put_def)
next
  case None
  then obtain i where i: "find_idx (\<lambda>e. \<not> used e) es = Some i" "es' = es[i := fill k v (es ! i)]"
    using assms(2) by (auto simp: slot_put_def simp del: find_idx_None_iff split: option.splits)
  then show ?thesis using slot_map_find(1) [OF None, of val] count_insert_free [of i es] find_idx_less [OF i(1)] find_idx_holds [OF i(1)]
    by simp
qed

lemma del_map:
  assumes "slots_distinct used key es" "slot_del used key clear k es = Some es'"
  shows "slot_map used key val es' = (slot_map used key val es)(k := None)"
    and "slots_distinct used key es'" and "length es' = length es" and "slot_map used key val es k \<noteq> None"
    and "Suc (length (filter used es')) = length (filter used es)"
proof -
  obtain i where i: "find_idx (\<lambda>e. used e \<and> key e = k) es = Some i" "es' = es[i := clear (es ! i)]"
    using assms(2) by (auto simp: slot_del_def simp del: find_idx_None_iff split: option.splits)
  note lt = find_idx_less [OF i(1)]
  show "slot_map used key val es' = (slot_map used key val es)(k := None)" using map_clear [OF i(1) assms(1)] i(2) by simp
  show "slots_distinct used key es'" using distinct_clear [OF lt assms(1)] i(2) by simp
  show "length es' = length es" using i(2) by simp
  show "slot_map used key val es k \<noteq> None" using slot_map_find(2) [OF i(1), of val] by simp
  show "Suc (length (filter used es')) = length (filter used es)"
    using count_clear [OF lt] find_idx_holds [OF i(1)] i(2) by simp
qed

lemma del_fails: "slot_del used key clear k es = None \<longleftrightarrow> slot_map used key val es k = None"
  by (simp add: slot_del_def slot_map_def del: find_idx_None_iff split: option.split)

end

end
