(* ===== verification/Norn_Caches.thy ===== *)
theory Norn_Caches
  imports Norn_Slots
begin

text \<open>
  The endpoint cache, \<open>src/libnorn/norn_endpoint_cache.c\<close>: a table of slots with a time to live.
  The clock is an argument. An endpoint is a value, copied whole.
\<close>

section \<open>Endpoint cache\<close>

definition NORN_ENDPOINT_CACHE_SIZE :: nat where "NORN_ENDPOINT_CACHE_SIZE = 256"
definition NORN_ENDPOINT_TTL_DEFAULT :: int where "NORN_ENDPOINT_TTL_DEFAULT = 300"

record norn_endpoint =
  ep_pubkey :: bytes
  ep_ip :: u32
  ep_port :: u16
  ep_caps :: u16
  ep_payload :: bytes

record norn_cached_endpoint =
  ce_pubkey :: bytes
  ce_endpoint :: norn_endpoint
  ce_expires :: int
  ce_valid :: bool

record norn_endpoint_cache =
  ec_entries :: "norn_cached_endpoint list"
  ec_count :: int
  ec_default_ttl :: int

definition endpoint_zero :: norn_endpoint where
  "endpoint_zero = \<lparr>ep_pubkey = replicate 32 0, ep_ip = 0, ep_port = 0, ep_caps = 0, ep_payload = []\<rparr>"

definition norn_endpoint_cache_init :: norn_endpoint_cache where
  "norn_endpoint_cache_init =
     \<lparr>ec_entries = replicate NORN_ENDPOINT_CACHE_SIZE
        \<lparr>ce_pubkey = replicate 32 0, ce_endpoint = endpoint_zero, ce_expires = 0, ce_valid = False\<rparr>,
      ec_count = 0, ec_default_ttl = NORN_ENDPOINT_TTL_DEFAULT\<rparr>"

text \<open>The lookup loop invalidates the expired entries it passes and counts them.\<close>

fun lookup_loop :: "bytes \<Rightarrow> int \<Rightarrow> norn_cached_endpoint list \<Rightarrow> norn_endpoint option \<times> norn_cached_endpoint list \<times> int" where
  "lookup_loop pubkey now [] = (None, [], 0)"
| "lookup_loop pubkey now (e # es) =
     (if \<not> ce_valid e then (let (r, es', n) = lookup_loop pubkey now es in (r, e # es', n))
      else if ce_expires e < now
      then (let (r, es', n) = lookup_loop pubkey now es in (r, e\<lparr>ce_valid := False\<rparr> # es', n + 1))
      else if ce_pubkey e = pubkey then (Some (ce_endpoint e), e # es, 0)
      else (let (r, es', n) = lookup_loop pubkey now es in (r, e # es', n)))"

definition norn_endpoint_cache_lookup :: "bytes \<Rightarrow> int \<Rightarrow> norn_endpoint_cache \<Rightarrow> norn_endpoint option \<times> norn_endpoint_cache" where
  "norn_endpoint_cache_lookup pubkey now c =
     (let (r, es, n) = lookup_loop pubkey now (ec_entries c)
      in (r, c\<lparr>ec_entries := es, ec_count := ec_count c - n\<rparr>))"

definition ce_sweep :: "int \<Rightarrow> norn_cached_endpoint \<Rightarrow> norn_cached_endpoint" where
  "ce_sweep now e = (if ce_valid e \<and> ce_expires e < now then e\<lparr>ce_valid := False\<rparr> else e)"

definition norn_endpoint_cache_expire :: "int \<Rightarrow> norn_endpoint_cache \<Rightarrow> int \<times> norn_endpoint_cache" where
  "norn_endpoint_cache_expire now c =
     (let expired = int (length (filter (\<lambda>e. ce_valid e \<and> ce_expires e < now) (ec_entries c)))
      in (expired, c\<lparr>ec_entries := map (ce_sweep now) (ec_entries c), ec_count := ec_count c - expired\<rparr>))"

definition ce_set :: "norn_endpoint \<times> int \<Rightarrow> norn_cached_endpoint \<Rightarrow> norn_cached_endpoint" where
  "ce_set v e = e\<lparr>ce_endpoint := fst v, ce_expires := snd v\<rparr>"

definition ce_fill :: "bytes \<Rightarrow> norn_endpoint \<times> int \<Rightarrow> norn_cached_endpoint \<Rightarrow> norn_cached_endpoint" where
  "ce_fill pubkey v e = e\<lparr>ce_pubkey := pubkey, ce_endpoint := fst v, ce_expires := snd v, ce_valid := True\<rparr>"

definition ce_clear :: "norn_cached_endpoint \<Rightarrow> norn_cached_endpoint" where
  "ce_clear e = e\<lparr>ce_valid := False\<rparr>"

definition norn_endpoint_cache_store :: "bytes \<Rightarrow> norn_endpoint \<Rightarrow> int \<Rightarrow> int \<Rightarrow> norn_endpoint_cache \<Rightarrow> int \<times> norn_endpoint_cache" where
  "norn_endpoint_cache_store pubkey endpoint ttl now c =
     (let v = (endpoint, now + (if ttl > 0 then ttl else ec_default_ttl c)) in
      case find_idx (\<lambda>e. ce_valid e \<and> ce_pubkey e = pubkey) (ec_entries c) of
        Some i \<Rightarrow> (0, c\<lparr>ec_entries := (ec_entries c)[i := ce_set v (ec_entries c ! i)]\<rparr>)
      | None \<Rightarrow>
          let (c1, slot) =
            (case find_idx (\<lambda>e. \<not> ce_valid e) (ec_entries c) of
               Some i \<Rightarrow> (c, Some i)
             | None \<Rightarrow> let c1 = snd (norn_endpoint_cache_expire now c)
                       in (c1, find_idx (\<lambda>e. \<not> ce_valid e) (ec_entries c1)))
          in case slot of
               None \<Rightarrow> (-1, c1)
             | Some i \<Rightarrow> (0, c1\<lparr>ec_entries := (ec_entries c1)[i := ce_fill pubkey v (ec_entries c1 ! i)],
                               ec_count := ec_count c1 + 1\<rparr>))"

definition norn_endpoint_cache_remove :: "bytes \<Rightarrow> norn_endpoint_cache \<Rightarrow> int \<times> norn_endpoint_cache" where
  "norn_endpoint_cache_remove pubkey c =
     (case slot_del ce_valid ce_pubkey ce_clear pubkey (ec_entries c) of
        Some es \<Rightarrow> (0, c\<lparr>ec_entries := es, ec_count := ec_count c - 1\<rparr>)
      | None \<Rightarrow> (-1, c))"

subsection \<open>The cache is a map with expiry\<close>

interpretation ect: slot_table ce_valid ce_pubkey "\<lambda>e. (ce_endpoint e, ce_expires e)" ce_fill ce_set ce_clear
  by unfold_locales (simp_all add: ce_fill_def ce_set_def ce_clear_def)

definition ep_map :: "norn_cached_endpoint list \<Rightarrow> bytes \<Rightarrow> (norn_endpoint \<times> int) option" where
  "ep_map es = slot_map ce_valid ce_pubkey (\<lambda>e. (ce_endpoint e, ce_expires e)) es"

lemma ep_map_simps [simp]:
  "ep_map [] k = None"
  "ep_map (e # es) k = (if ce_valid e \<and> ce_pubkey e = k then Some (ce_endpoint e, ce_expires e) else ep_map es k)"
  by (auto simp: ep_map_def)

definition ec_map :: "norn_endpoint_cache \<Rightarrow> bytes \<Rightarrow> (norn_endpoint \<times> int) option" where
  "ec_map c = ep_map (ec_entries c)"

definition ec_inv :: "norn_endpoint_cache \<Rightarrow> bool" where
  "ec_inv c \<longleftrightarrow> length (ec_entries c) = NORN_ENDPOINT_CACHE_SIZE \<and> slots_distinct ce_valid ce_pubkey (ec_entries c) \<and>
     ec_count c = int (length (filter ce_valid (ec_entries c))) \<and> ec_default_ttl c = NORN_ENDPOINT_TTL_DEFAULT"

text \<open>What a reader at a time may see of an entry.\<close>

definition fresh :: "int \<Rightarrow> (norn_endpoint \<times> int) option \<Rightarrow> norn_endpoint option" where
  "fresh now v = (case v of None \<Rightarrow> None | Some (ep, x) \<Rightarrow> if x < now then None else Some ep)"

lemma ec_init_ok: "ec_inv norn_endpoint_cache_init" "ec_map norn_endpoint_cache_init = Map.empty"
  by (simp_all add: ec_inv_def ec_map_def ep_map_def norn_endpoint_cache_init_def slots_distinct_replicate slot_map_replicate)

lemma sweep_count:
  "int (length (filter ce_valid (map (ce_sweep now) es))) =
     int (length (filter ce_valid es)) - int (length (filter (\<lambda>e. ce_valid e \<and> ce_expires e < now) es))"
  by (induction es) (auto simp: ce_sweep_def)

lemma ec_expire_ok:
  assumes "ec_inv c"
  shows "ec_inv (snd (norn_endpoint_cache_expire now c))"
    and "ec_map (snd (norn_endpoint_cache_expire now c)) k =
      (case ec_map c k of None \<Rightarrow> None | Some v \<Rightarrow> if snd v < now then None else Some v)"
proof -
  have d: "slots_distinct ce_valid ce_pubkey (ec_entries c)" using assms by (simp add: ec_inv_def)
  have f: "ce_valid (ce_sweep now e) \<longleftrightarrow> ce_valid e \<and> \<not> ce_expires e < now"
    "ce_valid (ce_sweep now e) \<Longrightarrow> ce_pubkey (ce_sweep now e) = ce_pubkey e \<and>
       (ce_endpoint (ce_sweep now e), ce_expires (ce_sweep now e)) = (ce_endpoint e, ce_expires e)"
    "ce_expires e < now \<longleftrightarrow> snd (ce_endpoint e, ce_expires e) < now" for e
    by (auto simp: ce_sweep_def split: if_splits)
  note s = slot_map_sweep [where f = "ce_sweep now" and P = "\<lambda>e. ce_expires e < now" and Q = "\<lambda>v. snd v < now"
      and val = "\<lambda>e. (ce_endpoint e, ce_expires e)", OF d f]
  show "ec_inv (snd (norn_endpoint_cache_expire now c))"
    using assms s(1) sweep_count [of now "ec_entries c"]
    by (simp add: ec_inv_def norn_endpoint_cache_expire_def Let_def)
  show "ec_map (snd (norn_endpoint_cache_expire now c)) k =
      (case ec_map c k of None \<Rightarrow> None | Some v \<Rightarrow> if snd v < now then None else Some v)"
    using s(2) [of k] by (simp add: ec_map_def ep_map_def norn_endpoint_cache_expire_def Let_def)
qed

lemma lookup_loop_ok:
  assumes "slots_distinct ce_valid ce_pubkey es" "lookup_loop k now es = (r, es', n)"
  shows "r = fresh now (ep_map es k) \<and>
    slots_distinct ce_valid ce_pubkey es' \<and> length es' = length es \<and>
    int (length (filter ce_valid es')) = int (length (filter ce_valid es)) - n \<and>
    (\<forall>e \<in> set es'. ce_valid e \<longrightarrow> e \<in> set es) \<and>
    (\<forall>q. fresh now (ep_map es' q) =
         fresh now (ep_map es q))"
  using assms
proof (induction es arbitrary: r es' n)
  case (Cons e es)
  obtain r1 es1 n1 where l: "lookup_loop k now es = (r1, es1, n1)" by (metis prod_cases3)
  have d: "slots_distinct ce_valid ce_pubkey es" using Cons.prems by simp
  note IH = Cons.IH [OF d l]
  have no: "ce_valid e \<Longrightarrow> ep_map es (ce_pubkey e) = None"
    using Cons.prems(1) by (auto simp: ep_map_def slot_map_None_iff)
  consider "\<not> ce_valid e" | "ce_valid e" "ce_expires e < now" | "ce_valid e" "\<not> ce_expires e < now" "ce_pubkey e = k"
    | "ce_valid e" "\<not> ce_expires e < now" "ce_pubkey e \<noteq> k" by blast
  then show ?case
  proof cases
    case 1
    then show ?thesis using IH Cons.prems l by auto
  next
    case 2
    then show ?thesis using IH Cons.prems l no by (auto simp: fresh_def)
  next
    case 3
    then show ?thesis using Cons.prems by (auto simp: fresh_def)
  next
    case 4
    then show ?thesis using IH Cons.prems l by auto
  qed
qed (simp add: fresh_def)

lemma ec_lookup_ok:
  assumes "ec_inv c" "norn_endpoint_cache_lookup k now c = (r, c')"
  shows "r = fresh now (ec_map c k)" and "ec_inv c'" and "fresh now (ec_map c' q) = fresh now (ec_map c q)"
    and "ec_map c' q = Some v \<Longrightarrow> ec_map c q = Some v"
proof -
  obtain es n where l: "lookup_loop k now (ec_entries c) = (r, es, n)" "c' = c\<lparr>ec_entries := es, ec_count := ec_count c - n\<rparr>"
    using assms(2) by (auto simp: norn_endpoint_cache_lookup_def split: prod.splits)
  have d: "slots_distinct ce_valid ce_pubkey (ec_entries c)" using assms(1) by (simp add: ec_inv_def)
  note o = lookup_loop_ok [OF d l(1)]
  show "r = fresh now (ec_map c k)" "ec_inv c'" "fresh now (ec_map c' q) = fresh now (ec_map c q)"
    using o l(2) assms(1) by (auto simp: ec_map_def ec_inv_def)
  show "ec_map c q = Some v" if q: "ec_map c' q = Some v"
  proof -
    obtain e where "e \<in> set es" "ce_valid e" "ce_pubkey e = q" "(ce_endpoint e, ce_expires e) = v"
      using q slot_map_SomeD [of ce_valid ce_pubkey "\<lambda>e. (ce_endpoint e, ce_expires e)" es q v]
      by (auto simp: ec_map_def ep_map_def l(2))
    with o slot_map_of_used [OF d, of e "\<lambda>e. (ce_endpoint e, ce_expires e)"] show ?thesis
      by (auto simp: ec_map_def ep_map_def)
  qed
qed

lemma ec_fill_ok:
  assumes inv: "ec_inv c" and i: "find_idx (\<lambda>e. \<not> ce_valid e) (ec_entries c) = Some i" and k: "ec_map c k = None"
  shows "ec_inv (c\<lparr>ec_entries := (ec_entries c)[i := ce_fill k v (ec_entries c ! i)], ec_count := ec_count c + 1\<rparr>)"
    and "ec_map (c\<lparr>ec_entries := (ec_entries c)[i := ce_fill k v (ec_entries c ! i)], ec_count := ec_count c + 1\<rparr>) = (ec_map c)(k \<mapsto> v)"
proof -
  have p: "i < length (ec_entries c)" "\<not> ce_valid (ec_entries c ! i)" using find_idx_less [OF i] find_idx_holds [OF i] by auto
  have m: "slot_map ce_valid ce_pubkey (\<lambda>e. (ce_endpoint e, ce_expires e)) (ec_entries c) k = None"
    using k by (simp add: ec_map_def ep_map_def)
  show "ec_inv (c\<lparr>ec_entries := (ec_entries c)[i := ce_fill k v (ec_entries c ! i)], ec_count := ec_count c + 1\<rparr>)"
    using inv ect.distinct_insert_free [OF p m] ect.count_insert_free [OF p] by (simp add: ec_inv_def)
  show "ec_map (c\<lparr>ec_entries := (ec_entries c)[i := ce_fill k v (ec_entries c ! i)], ec_count := ec_count c + 1\<rparr>) = (ec_map c)(k \<mapsto> v)"
    using ect.map_insert_free [OF p m] by (simp add: ec_map_def ep_map_def)
qed

lemma ec_store_ok:
  assumes inv: "ec_inv c" and r: "norn_endpoint_cache_store k ep ttl now c = (rc, c')"
  defines "v \<equiv> (ep, now + (if ttl > 0 then ttl else NORN_ENDPOINT_TTL_DEFAULT))"
  shows "ec_inv c' \<and>
    (if rc = 0 then ec_map c' = (ec_map c)(k \<mapsto> v) \<or> ec_map c' = (ec_map (snd (norn_endpoint_cache_expire now c)))(k \<mapsto> v)
     else rc = -1 \<and> c' = snd (norn_endpoint_cache_expire now c) \<and> card (dom (ec_map c')) = NORN_ENDPOINT_CACHE_SIZE)"
proof (cases "find_idx (\<lambda>e. ce_valid e \<and> ce_pubkey e = k) (ec_entries c)")
  case (Some i)
  have d: "slots_distinct ce_valid ce_pubkey (ec_entries c)" using inv by (simp add: ec_inv_def)
  have "rc = 0" "c' = c\<lparr>ec_entries := (ec_entries c)[i := ce_set v (ec_entries c ! i)]\<rparr>"
    using r Some inv by (auto simp: norn_endpoint_cache_store_def v_def Let_def ec_inv_def)
  then show ?thesis
    using ect.map_overwrite [OF Some, of v] ect.distinct_overwrite [OF find_idx_less [OF Some] d, of v]
      ect.count_overwrite [OF find_idx_less [OF Some], of v] inv by (auto simp: ec_inv_def ec_map_def ep_map_def)
next
  case None
  then have k: "ec_map c k = None" by (simp add: ec_map_def ep_map_def slot_map_find(1) del: find_idx_None_iff)
  have dt: "ec_default_ttl c = NORN_ENDPOINT_TTL_DEFAULT" using inv by (simp add: ec_inv_def)
  let ?x = "snd (norn_endpoint_cache_expire now c)"
  show ?thesis
  proof (cases "find_idx (\<lambda>e. \<not> ce_valid e) (ec_entries c)")
    case (Some i)
    then show ?thesis using r None dt ec_fill_ok [OF inv Some k, of v]
      by (auto simp: norn_endpoint_cache_store_def v_def Let_def simp del: find_idx_None_iff)
  next
    case full: None
    have x: "ec_inv ?x" "ec_map ?x k = None" using ec_expire_ok [OF inv, of now] k by simp_all
    show ?thesis
    proof (cases "find_idx (\<lambda>e. \<not> ce_valid e) (ec_entries ?x)")
      case (Some i)
      then show ?thesis using r None full dt ec_fill_ok [OF x(1) Some x(2), of v]
        by (auto simp: norn_endpoint_cache_store_def v_def Let_def simp del: find_idx_None_iff)
    next
      case n: None
      have "card (dom (ec_map ?x)) = NORN_ENDPOINT_CACHE_SIZE"
        using n x(1) card_dom_slot_map [of ce_valid ce_pubkey "ec_entries ?x"]
        by (simp add: filter_free ec_map_def ep_map_def ec_inv_def del: find_idx_None_iff)
      then show ?thesis using r None full n x(1)
        by (auto simp: norn_endpoint_cache_store_def Let_def simp del: find_idx_None_iff)
    qed
  qed
qed

lemma ec_remove_ok:
  assumes "ec_inv c" "norn_endpoint_cache_remove k c = (rc, c')"
  shows "ec_inv c'" and "ec_map c' = (ec_map c)(k := None)" and "rc = (if ec_map c k = None then -1 else 0)"
proof -
  have d: "slots_distinct ce_valid ce_pubkey (ec_entries c)" using assms(1) by (simp add: ec_inv_def)
  have "ec_inv c' \<and> ec_map c' = (ec_map c)(k := None) \<and> rc = (if ec_map c k = None then -1 else 0)"
  proof (cases "slot_del ce_valid ce_pubkey ce_clear k (ec_entries c)")
    case None
    then show ?thesis using assms ect.del_fails [of k "ec_entries c"]
      by (auto simp: norn_endpoint_cache_remove_def ec_map_def ep_map_def fun_eq_iff)
  next
    case (Some es)
    then show ?thesis using assms ect.del_map [OF d Some]
      by (auto simp: norn_endpoint_cache_remove_def ec_map_def ep_map_def ec_inv_def)
  qed
  then show "ec_inv c'" and "ec_map c' = (ec_map c)(k := None)" and "rc = (if ec_map c k = None then -1 else 0)" by auto
qed

text \<open>
  Runs of the cache against a clock that does not go back, beside the map of what was stored
  and not removed, with its expiry times.
\<close>

inductive ec_run :: "int \<Rightarrow> norn_endpoint_cache \<Rightarrow> (bytes \<rightharpoonup> norn_endpoint \<times> int) \<Rightarrow> bool" where
  ec_run_init: "ec_run t norn_endpoint_cache_init Map.empty"
| ec_run_store: "ec_run t c m \<Longrightarrow> t \<le> now \<Longrightarrow> norn_endpoint_cache_store k ep ttl now c = (rc, c') \<Longrightarrow>
    ec_run now c' (if rc = 0 then m(k \<mapsto> (ep, now + (if ttl > 0 then ttl else NORN_ENDPOINT_TTL_DEFAULT))) else m)"
| ec_run_remove: "ec_run t c m \<Longrightarrow> norn_endpoint_cache_remove k c = (rc, c') \<Longrightarrow> ec_run t c' (m(k := None))"
| ec_run_lookup: "ec_run t c m \<Longrightarrow> t \<le> now \<Longrightarrow> norn_endpoint_cache_lookup k now c = (r, c') \<Longrightarrow> ec_run now c' m"
| ec_run_expire: "ec_run t c m \<Longrightarrow> t \<le> now \<Longrightarrow> norn_endpoint_cache_expire now c = (n, c') \<Longrightarrow> ec_run now c' m"

definition ec_agrees :: "int \<Rightarrow> norn_endpoint_cache \<Rightarrow> (bytes \<rightharpoonup> norn_endpoint \<times> int) \<Rightarrow> bool" where
  "ec_agrees t c m \<longleftrightarrow> (\<forall>k. ec_map c k = m k \<or> ec_map c k = None \<and> (\<exists>v. m k = Some v \<and> snd v < t))"

lemma ec_agrees_mono: "ec_agrees t c m \<Longrightarrow> t \<le> t' \<Longrightarrow> ec_agrees t' c m"
  unfolding ec_agrees_def by (meson order_less_le_trans)

lemma ec_agrees_fresh:
  assumes "ec_agrees t c m" "t \<le> now"
  shows "fresh now (ec_map c k) = fresh now (m k)"
proof -
  consider "ec_map c k = m k" | v where "ec_map c k = None" "m k = Some v" "snd v < t"
    using assms(1) unfolding ec_agrees_def by blast
  then show ?thesis using assms(2) by cases (simp_all add: fresh_def case_prod_beta)
qed

lemma ec_expire_agrees:
  assumes "ec_agrees t c m" "t \<le> now" "ec_inv c"
  shows "ec_agrees now (snd (norn_endpoint_cache_expire now c)) m"
  unfolding ec_agrees_def
proof
  fix k
  consider "ec_map c k = m k" | v where "ec_map c k = None" "m k = Some v" "snd v < t"
    using assms(1) unfolding ec_agrees_def by blast
  then show "ec_map (snd (norn_endpoint_cache_expire now c)) k = m k \<or>
      ec_map (snd (norn_endpoint_cache_expire now c)) k = None \<and> (\<exists>v. m k = Some v \<and> snd v < now)"
  proof cases
    case 1
    then show ?thesis using ec_expire_ok(2) [OF assms(3), of now k] by (cases "m k") auto
  next
    case (2 v)
    then show ?thesis using ec_expire_ok(2) [OF assms(3), of now k] assms(2) by auto
  qed
qed

lemma ec_run_ok: "ec_run t c m \<Longrightarrow> ec_inv c \<and> ec_agrees t c m"
proof (induction rule: ec_run.induct)
  case (ec_run_init t)
  show ?case using ec_init_ok by (simp add: ec_agrees_def)
next
  case (ec_run_store t c m now k ep ttl rc c')
  have a: "ec_inv c" "ec_agrees now c m" "ec_agrees now (snd (norn_endpoint_cache_expire now c)) m"
    using ec_run_store ec_agrees_mono ec_expire_agrees by blast+
  from ec_store_ok [OF a(1) ec_run_store.hyps(3)] a(2,3) show ?case by (auto simp: ec_agrees_def split: if_splits)
next
  case (ec_run_remove t c m k rc c')
  note r = ec_remove_ok [OF conjunct1 [OF ec_run_remove.IH] ec_run_remove.hyps(2)]
  show ?case using r(1,2) conjunct2 [OF ec_run_remove.IH] by (simp add: ec_agrees_def)
next
  case (ec_run_lookup t c m now k r c')
  note l = ec_lookup_ok [OF conjunct1 [OF ec_run_lookup.IH] ec_run_lookup.hyps(3)]
  have a: "ec_agrees now c m" using ec_run_lookup ec_agrees_mono by blast
  have "ec_map c' q = m q \<or> ec_map c' q = None \<and> (\<exists>v. m q = Some v \<and> snd v < now)" for q
  proof (cases "ec_map c' q")
    case None
    then have "fresh now (m q) = None" using l(3) [of q] ec_agrees_fresh [OF a order_refl, of q] by (simp add: fresh_def)
    then show ?thesis using None by (cases "m q") (auto simp: fresh_def split: if_splits)
  next
    case (Some v)
    then show ?thesis using l(4) a by (metis ec_agrees_def not_Some_eq)
  qed
  then show ?case using l(2) by (simp add: ec_agrees_def)
next
  case (ec_run_expire t c m now n c')
  then show ?case using ec_expire_ok(1) [of c now] ec_expire_agrees [of t c m now] by simp
qed

text \<open>For any run of stores, removals, lookups and sweeps with a clock that does not go
  back, a lookup returns exactly the endpoint last stored for the key if it has not been
  removed and its time has not passed, and nothing otherwise; the count field is the number
  of valid entries, never more than 256; and a store fails only when 256 other keys hold
  endpoints that have not expired.\<close>

theorem endpoint_cache_correct:
  assumes "ec_run t c m" "t \<le> now"
  shows "fst (norn_endpoint_cache_lookup k now c) = fresh now (m k) \<and>
    ec_count c = int (card (dom (ec_map c))) \<and> ec_count c \<le> int NORN_ENDPOINT_CACHE_SIZE \<and>
    (fst (norn_endpoint_cache_store k ep ttl now c) \<noteq> 0 \<longrightarrow>
       NORN_ENDPOINT_CACHE_SIZE \<le> card {q. fresh now (m q) \<noteq> None})"
proof -
  have i: "ec_inv c" "ec_agrees t c m" using ec_run_ok [OF assms(1)] by auto
  note l = ec_lookup_ok(1) [OF i(1), of k now] ec_agrees_fresh [OF i(2) assms(2)]
  have d: "slots_distinct ce_valid ce_pubkey (ec_entries c)" using i(1) by (simp add: ec_inv_def)
  have n: "ec_count c = int (card (dom (ec_map c)))" "ec_count c \<le> int NORN_ENDPOINT_CACHE_SIZE"
    using i(1) length_filter_le [of ce_valid "ec_entries c"]
    by (simp_all add: ec_inv_def ec_map_def ep_map_def card_dom_slot_map [OF d])
  have "NORN_ENDPOINT_CACHE_SIZE \<le> card {q. fresh now (m q) \<noteq> None}" if f: "fst (norn_endpoint_cache_store k ep ttl now c) \<noteq> 0"
  proof -
    let ?x = "snd (norn_endpoint_cache_expire now c)"
    obtain rc c' where s: "norn_endpoint_cache_store k ep ttl now c = (rc, c')" by fastforce
    have "card (dom (ec_map ?x)) = NORN_ENDPOINT_CACHE_SIZE" using ec_store_ok [OF i(1) s] f s by auto
    moreover have "ec_map ?x q = None \<longleftrightarrow> fresh now (m q) = None" for q
      unfolding l(2) [symmetric] ec_expire_ok(2) [OF i(1)] by (cases "ec_map c q") (simp_all add: fresh_def case_prod_beta)
    ultimately show ?thesis by (simp add: dom_def)
  qed
  then show ?thesis using l n by (metis prod.collapse)
qed

theorem endpoint_cache_correct_witness:
  "\<exists>c. ec_run 5 c [[1] \<mapsto> (endpoint_zero, 15)] \<and> fst (norn_endpoint_cache_lookup [1] 15 c) = Some endpoint_zero \<and>
     fst (norn_endpoint_cache_lookup [1] 16 c) = None"
proof -
  define r where "r = norn_endpoint_cache_store [1] endpoint_zero 10 5 norn_endpoint_cache_init"
  have z: "fst r = 0" unfolding r_def by code_simp
  have "ec_run 5 (snd r) [[1] \<mapsto> (endpoint_zero, 15)]"
    using ec_run_store [OF ec_run_init [of 0], of 5 "[1]" endpoint_zero 10 "fst r" "snd r"] z by (simp add: r_def)
  moreover note endpoint_cache_correct [OF this, of 15 "[1]"] endpoint_cache_correct [OF this, of 16 "[1]"]
  ultimately show ?thesis by (intro exI [of _ "snd r"]) (simp add: fresh_def)
qed

end
