(* ===== verification/Norn_Txn.thy ===== *)
theory Norn_Txn
  imports Norn_Slots
begin

text \<open>
  Two small tables of the library. Outstanding requests (\<open>norn_transaction.c\<close>): all 256
  slots of the array are kept, those past the count with what they last held, since a new
  transaction takes over some of their fields. Node attributes (\<open>attr.c\<close>): 64 slots with a
  used flag. A callback or user pointer is an optional number, \<open>None\<close> for NULL; what
  \<open>time\<close> returns is an argument.
\<close>

section \<open>Transactions\<close>

definition NORN_MAX_TRANSACTIONS :: nat where "NORN_MAX_TRANSACTIONS = 256"

datatype norn_transaction_type =
  TXN_GET_MUTABLE | TXN_GET_IMMUTABLE | TXN_DISCOVER | TXN_ANNOUNCE | TXN_FIND_NODE |
  TXN_RESOLVE_ENDPOINT | TXN_ANNOUNCE_ENDPOINT

type_synonym ptr = "nat option"

record norn_transaction =
  tx_id :: u32
  tx_type :: norn_transaction_type
  tx_created :: int
  tx_target :: bytes
  tx_get_callback :: ptr
  tx_peer_callback :: ptr
  tx_user_data :: ptr
  tx_completed :: bool
  tx_resolve_callback :: ptr
  tx_suite :: ptr

record norn_transaction_state =
  ts_transactions :: "norn_transaction list"
  ts_count :: nat
  ts_next_id :: u32

definition txn_zero :: norn_transaction where
  "txn_zero = \<lparr>tx_id = 0, tx_type = TXN_GET_MUTABLE, tx_created = 0, tx_target = replicate 32 0, tx_get_callback = None,
     tx_peer_callback = None, tx_user_data = None, tx_completed = False, tx_resolve_callback = None, tx_suite = None\<rparr>"

definition norn_transaction_init :: norn_transaction_state where
  "norn_transaction_init = \<lparr>ts_transactions = replicate NORN_MAX_TRANSACTIONS txn_zero, ts_count = 0, ts_next_id = 1\<rparr>"

definition norn_transaction_next_id :: "norn_transaction_state \<Rightarrow> u32 \<times> norn_transaction_state" where
  "norn_transaction_next_id s =
     (let n = ts_next_id s + 1 in (ts_next_id s, s\<lparr>ts_next_id := if n = 0 then 1 else n\<rparr>))"

text \<open>The result is the index of the new transaction. A NULL target leaves the slot's old one.\<close>

definition norn_transaction_new ::
  "int \<Rightarrow> norn_transaction_type \<Rightarrow> bytes option \<Rightarrow> norn_transaction_state \<Rightarrow> nat option \<times> norn_transaction_state" where
  "norn_transaction_new now type target s =
     (if ts_count s \<ge> NORN_MAX_TRANSACTIONS then (None, s)
      else let i = ts_count s;
               (tid, s1) = norn_transaction_next_id s;
               t = ts_transactions s ! i;
               t1 = t\<lparr>tx_id := tid, tx_type := type, tx_created := now,
                      tx_target := (case target of None \<Rightarrow> tx_target t | Some b \<Rightarrow> take 32 b),
                      tx_get_callback := None, tx_peer_callback := None, tx_user_data := None, tx_completed := False\<rparr>
           in (Some i, s1\<lparr>ts_transactions := (ts_transactions s)[i := t1], ts_count := ts_count s + 1\<rparr>))"

definition norn_transaction_find :: "u32 \<Rightarrow> norn_transaction_state \<Rightarrow> nat option" where
  "norn_transaction_find tid s = find_idx (\<lambda>t. tx_id t = tid) (take (ts_count s) (ts_transactions s))"

definition norn_transaction_remove :: "nat \<Rightarrow> norn_transaction_state \<Rightarrow> norn_transaction_state" where
  "norn_transaction_remove i s =
     (if i \<ge> ts_count s then s
      else s\<lparr>ts_transactions := (ts_transactions s)[i := ts_transactions s ! (ts_count s - 1)], ts_count := ts_count s - 1\<rparr>)"

text \<open>The sweep with its read and write indices; it ends when the read index reaches the count.\<close>

function expire_loop ::
  "int \<Rightarrow> int \<Rightarrow> nat \<Rightarrow> nat \<Rightarrow> nat \<Rightarrow> nat \<Rightarrow> norn_transaction list \<Rightarrow> nat \<times> nat \<times> norn_transaction list" where
  "expire_loop now max_age n ri wi expired ts =
     (if ri < n then
        if now - tx_created (ts ! ri) > max_age
        then expire_loop now max_age n (ri + 1) wi (expired + 1) ts
        else expire_loop now max_age n (ri + 1) (wi + 1) expired
               (if wi \<noteq> ri then ts[wi := ts ! ri] else ts)
      else (expired, wi, ts))"
  by pat_completeness auto
termination expire_loop
  by (relation "measure (\<lambda>(_, _, n, ri, _). n - ri)") auto

declare expire_loop.simps [simp del]

definition norn_transaction_expire :: "int \<Rightarrow> int \<Rightarrow> norn_transaction_state \<Rightarrow> nat \<times> norn_transaction_state" where
  "norn_transaction_expire now max_age s =
     (case expire_loop now max_age (ts_count s) 0 0 0 (ts_transactions s) of
        (expired, w, ts) \<Rightarrow> (expired, s\<lparr>ts_transactions := ts, ts_count := w\<rparr>))"

section \<open>Attributes\<close>

definition MAX_ATTRS :: nat where "MAX_ATTRS = 64"
definition MAX_KEY_LEN :: nat where "MAX_KEY_LEN = 128"
definition MAX_VALUE_LEN :: nat where "MAX_VALUE_LEN = 256"

record attr_entry =
  at_key :: bytes
  at_value :: bytes
  at_value_len :: nat
  at_used :: bool

text \<open>The static state: the slots and the flag that says they have been cleared once.\<close>

record attr_state =
  attrs :: "attr_entry list"
  initialized :: bool

definition attrs_zero :: "attr_entry list" where
  "attrs_zero = replicate MAX_ATTRS \<lparr>at_key = [], at_value = replicate MAX_VALUE_LEN 0, at_value_len = 0, at_used = False\<rparr>"

definition init_attrs :: "attr_state \<Rightarrow> attr_state" where
  "init_attrs a = (if \<not> initialized a then a\<lparr>attrs := attrs_zero, initialized := True\<rparr> else a)"

text \<open>Copying a value overwrites the front of the slot's buffer.\<close>

definition at_set :: "bytes \<Rightarrow> attr_entry \<Rightarrow> attr_entry" where
  "at_set v e = e\<lparr>at_value := v @ drop (length v) (at_value e), at_value_len := length v\<rparr>"

definition at_fill :: "bytes \<Rightarrow> bytes \<Rightarrow> attr_entry \<Rightarrow> attr_entry" where
  "at_fill k v e = (at_set v e)\<lparr>at_key := k, at_used := True\<rparr>"

definition at_clear :: "attr_entry \<Rightarrow> attr_entry" where
  "at_clear e = e\<lparr>at_used := False\<rparr>"

definition norn_set_attr :: "bytes \<Rightarrow> bytes \<Rightarrow> attr_state \<Rightarrow> int \<times> attr_state" where
  "norn_set_attr key v a0 =
     (if length v > MAX_VALUE_LEN then (-1, a0)
      else if length key = 0 \<or> length key \<ge> MAX_KEY_LEN then (-1, a0)
      else let a = init_attrs a0 in
        case find_idx (\<lambda>e. at_used e \<and> at_key e = key) (attrs a) of
          Some i \<Rightarrow> (0, a\<lparr>attrs := (attrs a)[i := at_set v (attrs a ! i)]\<rparr>)
        | None \<Rightarrow>
            (case find_idx (\<lambda>e. \<not> at_used e) (attrs a) of
               Some i \<Rightarrow> (0, a\<lparr>attrs := (attrs a)[i := at_fill key v (attrs a ! i)]\<rparr>)
             | None \<Rightarrow> (-1, a)))"

definition norn_get_attr :: "bytes \<Rightarrow> nat \<Rightarrow> attr_state \<Rightarrow> (int \<times> bytes) \<times> attr_state" where
  "norn_get_attr key cap a0 =
     (let a = init_attrs a0 in
      case find_idx (\<lambda>e. at_used e \<and> at_key e = key) (attrs a) of
        Some i \<Rightarrow>
          let e = attrs a ! i in
          if cap < at_value_len e then ((-1, []), a)
          else ((int (at_value_len e), take (at_value_len e) (at_value e)), a)
      | None \<Rightarrow> ((-1, []), a))"

definition norn_del_attr :: "bytes \<Rightarrow> attr_state \<Rightarrow> int \<times> attr_state" where
  "norn_del_attr key a0 =
     (let a = init_attrs a0 in
      case find_idx (\<lambda>e. at_used e \<and> at_key e = key) (attrs a) of
        Some i \<Rightarrow> (0, a\<lparr>attrs := (attrs a)[i := at_clear (attrs a ! i)]\<rparr>)
      | None \<Rightarrow> (-1, a))"

definition norn_attr_count :: "attr_state \<Rightarrow> nat \<times> attr_state" where
  "norn_attr_count a0 = (let a = init_attrs a0 in (length (filter at_used (attrs a)), a))"

definition norn_attr_clear :: "attr_state \<Rightarrow> attr_state" where
  "norn_attr_clear a = a\<lparr>attrs := attrs_zero, initialized := True\<rparr>"

section \<open>Transactions: the live ones\<close>

definition txn_live :: "norn_transaction_state \<Rightarrow> norn_transaction list" where
  "txn_live s = take (ts_count s) (ts_transactions s)"

definition ts_wf :: "norn_transaction_state \<Rightarrow> bool" where
  "ts_wf s \<longleftrightarrow> length (ts_transactions s) = NORN_MAX_TRANSACTIONS \<and> ts_count s \<le> NORN_MAX_TRANSACTIONS"

lemma ts_init_ok: "ts_wf norn_transaction_init" "txn_live norn_transaction_init = []"
  by (simp_all add: ts_wf_def txn_live_def norn_transaction_init_def)

lemma ts_new_full:
  "ts_wf s \<Longrightarrow> fst (norn_transaction_new now ty tg s) = None \<longleftrightarrow> length (txn_live s) = NORN_MAX_TRANSACTIONS"
  "fst (norn_transaction_new now ty tg s) = None \<Longrightarrow> snd (norn_transaction_new now ty tg s) = s"
  by (auto simp: norn_transaction_new_def txn_live_def ts_wf_def Let_def split: prod.splits)

lemma ts_new_ok:
  assumes "ts_wf s" "norn_transaction_new now ty tg s = (Some i, s')"
  shows "ts_wf s'" "i = length (txn_live s)" "ts_next_id s' = (if ts_next_id s = -1 then 1 else ts_next_id s + 1)"
    "\<exists>t. txn_live s' = txn_live s @ [t] \<and> tx_id t = ts_next_id s \<and> tx_type t = ty \<and> tx_created t = now \<and>
       (\<forall>b. tg = Some b \<longrightarrow> tx_target t = take 32 b) \<and>
       tx_get_callback t = None \<and> tx_peer_callback t = None \<and> tx_user_data t = None \<and> \<not> tx_completed t"
proof -
  have z: "ts_next_id s + 1 = 0 \<longleftrightarrow> ts_next_id s = -1" by (simp add: add_eq_0_iff2)
  show "ts_wf s'" "i = length (txn_live s)" "ts_next_id s' = (if ts_next_id s = -1 then 1 else ts_next_id s + 1)"
    "\<exists>t. txn_live s' = txn_live s @ [t] \<and> tx_id t = ts_next_id s \<and> tx_type t = ty \<and> tx_created t = now \<and>
       (\<forall>b. tg = Some b \<longrightarrow> tx_target t = take 32 b) \<and>
       tx_get_callback t = None \<and> tx_peer_callback t = None \<and> tx_user_data t = None \<and> \<not> tx_completed t"
    using assms z by (auto simp: norn_transaction_new_def norn_transaction_next_id_def txn_live_def ts_wf_def Let_def
        take_Suc_conv_app_nth split: if_splits)
qed

lemma ts_remove_ok:
  assumes "ts_wf s" "i < length (txn_live s)"
  shows "ts_wf (norn_transaction_remove i s)" "txn_live (norn_transaction_remove i s) = swap_remove i (txn_live s)"
    "ts_next_id (norn_transaction_remove i s) = ts_next_id s"
proof -
  define n where "n = ts_count s - 1"
  have c: "ts_count s = Suc n" "n < length (ts_transactions s)" "i \<le> n"
    using assms by (auto simp: n_def txn_live_def ts_wf_def)
  have t: "txn_live s = take n (ts_transactions s) @ [ts_transactions s ! n]" using c by (simp add: txn_live_def take_Suc_conv_app_nth)
  show "txn_live (norn_transaction_remove i s) = swap_remove i (txn_live s)"
    using c unfolding t by (auto simp: norn_transaction_remove_def txn_live_def swap_remove_snoc take_update_swap list_update_beyond)
  show "ts_wf (norn_transaction_remove i s)" "ts_next_id (norn_transaction_remove i s) = ts_next_id s"
    using assms by (auto simp: norn_transaction_remove_def ts_wf_def)
qed

text \<open>The sweep keeps exactly the young transactions, in their order.\<close>

lemma expire_loop_ok:
  assumes "wi \<le> ri" "ri \<le> n" "n \<le> length ts" "expire_loop now age n ri wi x ts = (x', w', ts')"
  shows "length ts' = length ts \<and> w' \<le> length ts \<and>
    take w' ts' = take wi ts @ filter (\<lambda>t. \<not> now - tx_created t > age) (drop ri (take n ts)) \<and>
    x' + w' = x + wi + (n - ri)"
  using assms
proof (induction now age n ri wi x ts arbitrary: x' w' ts' rule: expire_loop.induct)
  case (1 now age n ri wi x ts)
  note r = "1.prems"(4) [unfolded expire_loop.simps [of now age n ri]]
  show ?case
  proof (cases "ri < n")
    case True
    let ?ts = "if wi \<noteq> ri then ts[wi := ts ! ri] else ts"
    have d: "drop ri (take n ts) = ts ! ri # drop (Suc ri) (take n ts)" using True "1.prems"(3) by (simp add: Cons_nth_drop_Suc [symmetric])
    have t: "take (Suc wi) ?ts = take wi ts @ [ts ! ri]" "drop (Suc ri) (take n ?ts) = drop (Suc ri) (take n ts)" "length ?ts = length ts"
      using "1.prems"(1,3) True by (auto simp: take_Suc_conv_app_nth take_update_swap list_update_beyond drop_update_cancel)
    show ?thesis
    proof (cases "now - tx_created (ts ! ri) > age")
      case old: True
      then have "expire_loop now age n (ri + 1) wi (x + 1) ts = (x', w', ts')" using r True by simp
      from "1.IH"(1) [OF True old _ _ "1.prems"(3) this] "1.prems"(1) True old d show ?thesis by auto
    next
      case young: False
      then have "expire_loop now age n (ri + 1) (wi + 1) x ?ts = (x', w', ts')" using r True by simp
      from "1.IH"(2) [OF True young _ _ _ this] "1.prems"(1,3) True young d t show ?thesis by simp
    qed
  next
    case False
    then show ?thesis using r "1.prems"(1-3) by auto
  qed
qed

lemma ts_expire_ok:
  assumes "ts_wf s" "norn_transaction_expire now age s = (x, s')"
  shows "ts_wf s'" "txn_live s' = filter (\<lambda>t. now - tx_created t \<le> age) (txn_live s)" "ts_next_id s' = ts_next_id s"
    "x = length (txn_live s) - length (txn_live s')"
proof -
  obtain w ts where e: "expire_loop now age (ts_count s) 0 0 0 (ts_transactions s) = (x, w, ts)"
    "s' = s\<lparr>ts_transactions := ts, ts_count := w\<rparr>"
    using assms(2) by (auto simp: norn_transaction_expire_def split: prod.splits)
  note o = expire_loop_ok [OF order_refl le0 _ e(1)]
  have l: "ts_count s \<le> length (ts_transactions s)" using assms(1) by (simp add: ts_wf_def)
  show "txn_live s' = filter (\<lambda>t. now - tx_created t \<le> age) (txn_live s)" using o [OF l] e(2) by (simp add: txn_live_def not_less)
  have "w \<le> length ts" using o [OF l] by simp
  then have "length (txn_live s') = w" "length (txn_live s) = ts_count s" using l by (simp_all add: txn_live_def e(2))
  then show "ts_wf s'" "ts_next_id s' = ts_next_id s" "x = length (txn_live s) - length (txn_live s')"
    using conjunct1 [OF o [OF l]] conjunct2 [OF conjunct2 [OF conjunct2 [OF o [OF l]]]] \<open>w \<le> length ts\<close> assms(1)
    by (simp_all add: ts_wf_def e(2))
qed

text \<open>Runs of the table, with the number of transactions created so far.\<close>

inductive txn_run :: "nat \<Rightarrow> norn_transaction_state \<Rightarrow> bool" where
  txn_run_init: "txn_run 0 norn_transaction_init"
| txn_run_new: "txn_run n s \<Longrightarrow> norn_transaction_new now ty tg s = (Some i, s') \<Longrightarrow> txn_run (n + 1) s'"
| txn_run_full: "txn_run n s \<Longrightarrow> norn_transaction_new now ty tg s = (None, s') \<Longrightarrow> txn_run n s'"
| txn_run_remove: "txn_run n s \<Longrightarrow> txn_run n (norn_transaction_remove i s)"
| txn_run_expire: "txn_run n s \<Longrightarrow> norn_transaction_expire now age s = (x, s') \<Longrightarrow> txn_run n s'"

definition txn_ids_ok :: "nat \<Rightarrow> norn_transaction_state \<Rightarrow> bool" where
  "txn_ids_ok n s \<longleftrightarrow> ts_wf s \<and> ts_next_id s \<noteq> 0 \<and> (\<forall>t \<in> set (txn_live s). tx_id t \<noteq> 0) \<and>
     (n < 2 ^ 32 - 1 \<longrightarrow> unat (ts_next_id s) = n + 1 \<and> distinct (map tx_id (txn_live s)) \<and>
        (\<forall>t \<in> set (txn_live s). unat (tx_id t) \<le> n))"

lemma txn_ids_sub:
  assumes "txn_ids_ok n s" "ts_wf s'" "ts_next_id s' = ts_next_id s" "set (txn_live s') \<subseteq> set (txn_live s)"
    "distinct (map tx_id (txn_live s)) \<Longrightarrow> distinct (map tx_id (txn_live s'))"
  shows "txn_ids_ok n s'"
  using assms unfolding txn_ids_ok_def by (simp add: subset_eq)

lemma txn_ids_new:
  assumes "txn_ids_ok n s" "norn_transaction_new now ty tg s = (Some i, s')"
  shows "txn_ids_ok (n + 1) s'"
proof -
  have w: "ts_wf s" using assms(1) by (simp add: txn_ids_ok_def)
  note o = ts_new_ok [OF w assms(2)]
  obtain t where t: "txn_live s' = txn_live s @ [t]" "tx_id t = ts_next_id s" using o(4) by blast
  have nz: "ts_next_id s' \<noteq> 0" using o(3) by (auto simp: add_eq_0_iff2)
  have "unat (ts_next_id s') = n + 2 \<and> distinct (map tx_id (txn_live s')) \<and> (\<forall>t \<in> set (txn_live s'). unat (tx_id t) \<le> n + 1)"
    if n: "n + 1 < 2 ^ 32 - 1"
  proof -
    have i: "unat (ts_next_id s) = n + 1" "distinct (map tx_id (txn_live s))" "\<forall>t \<in> set (txn_live s). unat (tx_id t) \<le> n"
      using assms(1) n by (auto simp: txn_ids_ok_def)
    have m: "ts_next_id s \<noteq> -1" using i(1) n by (auto simp: unsigned_minus_1_eq_mask mask_eq_exp_minus_1)
    have u: "unat (ts_next_id s + 1) = n + 2" using i(1) n by (subst unat_add_lem [THEN iffD1]) auto
    have "ts_next_id s \<notin> tx_id ` set (txn_live s)" using i(1,3) by force
    then show ?thesis using o(3) m u i t by auto
  qed
  then show ?thesis using assms(1) o(1) nz t by (auto simp: txn_ids_ok_def)
qed

lemma txn_run_ok: "txn_run n s \<Longrightarrow> txn_ids_ok n s"
proof (induction rule: txn_run.induct)
  case txn_run_init
  show ?case using ts_init_ok by (simp add: txn_ids_ok_def norn_transaction_init_def)
next
  case (txn_run_new n s now ty tg i s')
  then show ?case using txn_ids_new by blast
next
  case (txn_run_full n s now ty tg s')
  then show ?case using ts_new_full(2) [of now ty tg s] by simp
next
  case (txn_run_remove n s i)
  then have w: "ts_wf s" by (simp add: txn_ids_ok_def)
  show ?case
  proof (cases "i < length (txn_live s)")
    case True
    note r = ts_remove_ok [OF w True]
    show ?thesis using set_swap_remove_subset [OF True] distinct_map_swap_remove(1) [OF _ True]
      by (intro txn_ids_sub [OF txn_run_remove.IH r(1,3)]) (simp_all add: r(2))
  next
    case False
    then have "norn_transaction_remove i s = s" using w by (auto simp: norn_transaction_remove_def txn_live_def ts_wf_def)
    then show ?thesis using txn_run_remove.IH by simp
  qed
next
  case (txn_run_expire n s now age x s')
  then have w: "ts_wf s" by (simp add: txn_ids_ok_def)
  note e = ts_expire_ok [OF w txn_run_expire.hyps(2)]
  show ?case by (rule txn_ids_sub [OF txn_run_expire.IH e(1,3)]) (auto simp: e(2) intro: distinct_map_filter)
qed

text \<open>No transaction ever carries the identifier 0, and as long as fewer than 2 to the 32
  minus 1 transactions have been created, the identifier of every live transaction finds
  exactly that transaction, whatever was created, removed or expired in between; after a
  removal by its index, the identifier is found no more and every other live transaction still is.\<close>

theorem transaction_ids_unique:
  assumes "txn_run n s" "n < 2 ^ 32 - 1" "i < length (txn_live s)"
  defines "t \<equiv> txn_live s ! i" and "s' \<equiv> norn_transaction_remove i s"
  shows "tx_id t \<noteq> 0 \<and> norn_transaction_find (tx_id t) s = Some i \<and> norn_transaction_find (tx_id t) s' = None \<and>
    (\<forall>u. u \<in> set (txn_live s) \<and> u \<noteq> t \<longrightarrow> (\<exists>j. norn_transaction_find (tx_id u) s' = Some j \<and> txn_live s' ! j = u))"
proof -
  have o: "ts_wf s" "distinct (map tx_id (txn_live s))" "\<forall>t \<in> set (txn_live s). tx_id t \<noteq> 0"
    using txn_run_ok [OF assms(1)] assms(2) by (auto simp: txn_ids_ok_def)
  have f: "norn_transaction_find q r = find_idx (\<lambda>t. tx_id t = q) (txn_live r)" for q r by (simp add: norn_transaction_find_def txn_live_def)
  note r = ts_remove_ok [OF o(1) assms(3), folded s'_def]
  note d = distinct_map_swap_remove [OF o(2) assms(3), folded r(2)]
  have "\<exists>j. norn_transaction_find (tx_id u) s' = Some j \<and> txn_live s' ! j = u" if u: "u \<in> set (txn_live s)" "u \<noteq> t" for u
  proof -
    have ne: "tx_id u \<noteq> tx_id t" using o(2) u assms(3) by (auto simp: t_def distinct_map dest: inj_onD)
    then have "tx_id u \<in> tx_id ` set (txn_live s')" using d(2) u(1) by (auto simp: t_def)
    then obtain v where v: "v \<in> set (txn_live s')" "tx_id v = tx_id u" by auto
    have "v \<in> set (txn_live s)" using v(1) set_swap_remove_subset [OF assms(3)] r(2) by auto
    then have "v = u" using v(2) u(1) o(2) by (auto simp: distinct_map dest: inj_onD)
    then obtain j where j: "j < length (txn_live s')" "txn_live s' ! j = u" using v(1) by (auto simp: in_set_conv_nth)
    then show ?thesis using find_idx_distinct [OF d(1) j(1)] f by auto
  qed
  moreover have "norn_transaction_find (tx_id t) s' = None" using d(2) by (auto simp: f t_def)
  moreover have "norn_transaction_find (tx_id t) s = Some i" "tx_id t \<noteq> 0"
    using find_idx_distinct [OF o(2) assms(3)] o(3) assms(3) by (auto simp: f t_def)
  ultimately show ?thesis by blast
qed

theorem transaction_ids_unique_witness:
  "\<exists>s. txn_run 1 s \<and> length (txn_live s) = 1 \<and> norn_transaction_find (tx_id (txn_live s ! 0)) s = Some 0 \<and>
     norn_transaction_find (tx_id (txn_live s ! 0)) (norn_transaction_remove 0 s) = None"
proof -
  obtain i s where n: "norn_transaction_new 7 TXN_DISCOVER None norn_transaction_init = (Some i, s)"
    by (auto simp: norn_transaction_new_def norn_transaction_init_def NORN_MAX_TRANSACTIONS_def norn_transaction_next_id_def Let_def)
  have r: "txn_run 1 s" using txn_run_new [OF txn_run_init n] by simp
  have l: "length (txn_live s) = 1" using ts_new_ok(4) [OF ts_init_ok(1) n] ts_init_ok(2) by auto
  show ?thesis using transaction_ids_unique [OF r, of 0] r l by auto
qed

section \<open>Attributes: a finite map\<close>

interpretation att: slot_table at_used at_key "\<lambda>e. take (at_value_len e) (at_value e)" at_fill at_set at_clear
  by unfold_locales (simp_all add: at_fill_def at_set_def at_clear_def)

definition attr_map :: "attr_state \<Rightarrow> (bytes \<rightharpoonup> bytes)" where
  "attr_map a = slot_map at_used at_key (\<lambda>e. take (at_value_len e) (at_value e)) (attrs (init_attrs a))"

definition attr_inv :: "attr_state \<Rightarrow> bool" where
  "attr_inv a \<longleftrightarrow> (initialized a \<longrightarrow> length (attrs a) = MAX_ATTRS \<and> slots_distinct at_used at_key (attrs a) \<and>
     (\<forall>e \<in> set (attrs a). at_value_len e \<le> length (at_value e)))"

lemma attr_init_ok:
  assumes "attr_inv a"
  shows "attr_inv (init_attrs a)" "attr_map (init_attrs a) = attr_map a" "initialized (init_attrs a)"
    "init_attrs (init_attrs a) = init_attrs a"
  using assms by (auto simp: attr_inv_def attr_map_def init_attrs_def attrs_zero_def slots_distinct_replicate)

lemma set_attr_slot_put:
  "norn_set_attr key v a0 =
     (if length v > MAX_VALUE_LEN \<or> length key = 0 \<or> length key \<ge> MAX_KEY_LEN then (-1, a0)
      else let a = init_attrs a0 in
        case slot_put at_used at_key at_fill at_set key v (attrs a) of
          Some es \<Rightarrow> (0, a\<lparr>attrs := es\<rparr>) | None \<Rightarrow> (-1, a))"
  by (auto simp: norn_set_attr_def slot_put_def Let_def simp del: find_idx_None_iff split: option.split)

lemma del_attr_slot_del:
  "norn_del_attr key a0 = (let a = init_attrs a0 in
     case slot_del at_used at_key at_clear key (attrs a) of Some es \<Rightarrow> (0, a\<lparr>attrs := es\<rparr>) | None \<Rightarrow> (-1, a))"
  by (auto simp: norn_del_attr_def slot_del_def Let_def simp del: find_idx_None_iff split: option.split)

lemma attr_inv_init:
  assumes "attr_inv a"
  shows "slots_distinct at_used at_key (attrs (init_attrs a))" "length (attrs (init_attrs a)) = MAX_ATTRS"
    "\<forall>e \<in> set (attrs (init_attrs a)). at_value_len e \<le> length (at_value e)"
  using attr_init_ok(1,3) [OF assms] by (simp_all add: attr_inv_def)

lemma attr_upd:
  assumes "attr_inv a" "length es = MAX_ATTRS" "slots_distinct at_used at_key es" "\<forall>e \<in> set es. at_value_len e \<le> length (at_value e)"
  shows "attr_inv ((init_attrs a)\<lparr>attrs := es\<rparr>)"
    "attr_map ((init_attrs a)\<lparr>attrs := es\<rparr>) = slot_map at_used at_key (\<lambda>e. take (at_value_len e) (at_value e)) es"
  using assms attr_init_ok(3) [OF assms(1)] by (simp_all add: attr_inv_def attr_map_def init_attrs_def)

definition attr_accepts :: "(bytes \<rightharpoonup> bytes) \<Rightarrow> bytes \<Rightarrow> bytes \<Rightarrow> bool" where
  "attr_accepts m k v \<longleftrightarrow> length v \<le> MAX_VALUE_LEN \<and> 0 < length k \<and> length k < MAX_KEY_LEN \<and> (m k \<noteq> None \<or> card (dom m) < MAX_ATTRS)"

lemma set_attr_ok:
  assumes "attr_inv a" "norn_set_attr k v a = (rc, a')"
  shows "attr_inv a' \<and> (if attr_accepts (attr_map a) k v then rc = 0 \<and> attr_map a' = (attr_map a)(k \<mapsto> v)
     else rc = -1 \<and> attr_map a' = attr_map a)"
proof (cases "length v > MAX_VALUE_LEN \<or> length k = 0 \<or> length k \<ge> MAX_KEY_LEN")
  case True
  then show ?thesis using assms by (auto simp: set_attr_slot_put attr_accepts_def)
next
  case ok: False
  note i = attr_inv_init [OF assms(1)]
  have c: "card (dom (attr_map a)) \<le> MAX_ATTRS"
    unfolding attr_map_def card_dom_slot_map [OF i(1)] i(2) [symmetric] by (rule length_filter_le)
  show ?thesis
  proof (cases "slot_put at_used at_key at_fill at_set k v (attrs (init_attrs a))")
    case None
    then have "rc = -1" "a' = init_attrs a" using assms(2) ok by (auto simp: set_attr_slot_put)
    then show ?thesis using att.put_fails [OF i(1), of k v] None i(2) attr_init_ok [OF assms(1)]
      by (simp add: attr_accepts_def flip: attr_map_def)
  next
    case (Some es)
    then have r: "rc = 0" "a' = (init_attrs a)\<lparr>attrs := es\<rparr>" using assms(2) ok by (auto simp: set_attr_slot_put)
    note p = att.put_map [OF i(1) Some]
    have q: "\<forall>e \<in> set es. at_value_len e \<le> length (at_value e)"
      by (rule slot_put_all [OF Some i(3)]) (auto simp: at_fill_def at_set_def)
    have "attr_accepts (attr_map a) k v"
      using att.put_fails [OF i(1), of k v] Some i(2) c ok by (auto simp: attr_accepts_def simp flip: attr_map_def)
    then show ?thesis using r attr_upd [OF assms(1) _ p(2) q] p(1,3) i(2) by (simp add: attr_map_def)
  qed
qed

lemma get_attr_ok:
  assumes "attr_inv a"
  shows "fst (norn_get_attr k cap a) =
    (case attr_map a k of None \<Rightarrow> (-1, []) | Some v \<Rightarrow> if cap < length v then (-1, []) else (int (length v), v))"
proof (cases "attr_map a k")
  case None
  then have "find_idx (\<lambda>e. at_used e \<and> at_key e = k) (attrs (init_attrs a)) = None"
    by (auto simp: attr_map_def slot_map_None_iff)
  then show ?thesis using None by (simp add: norn_get_attr_def Let_def del: find_idx_None_iff)
next
  case (Some v)
  then obtain i where i: "find_idx (\<lambda>e. at_used e \<and> at_key e = k) (attrs (init_attrs a)) = Some i"
    "v = take (at_value_len (attrs (init_attrs a) ! i)) (at_value (attrs (init_attrs a) ! i))" "i < length (attrs (init_attrs a))"
    unfolding attr_map_def by (elim slot_map_found) simp
  have "at_value_len (attrs (init_attrs a) ! i) \<le> length (at_value (attrs (init_attrs a) ! i))"
    using attr_inv_init(3) [OF assms] i(3) by simp
  then show ?thesis using i Some by (simp add: norn_get_attr_def Let_def min_absorb2)
qed

lemma del_attr_ok:
  assumes "attr_inv a" "norn_del_attr k a = (rc, a')"
  shows "attr_inv a' \<and> attr_map a' = (attr_map a)(k := None) \<and> rc = (if attr_map a k = None then -1 else 0)"
proof (cases "slot_del at_used at_key at_clear k (attrs (init_attrs a))")
  case None
  then have "attr_map a k = None" using att.del_fails by (simp add: attr_map_def)
  then show ?thesis using None assms attr_init_ok [OF assms(1)] by (auto simp: del_attr_slot_del fun_upd_idem)
next
  case (Some es)
  note i = attr_inv_init [OF assms(1)]
  note p = att.del_map [OF i(1) Some]
  have "\<forall>e \<in> set es. at_value_len e \<le> length (at_value e)"
    using Some i(3) by (auto simp: slot_del_def at_clear_def split: option.splits dest!: set_update_subset [THEN subsetD] find_idx_in_set)
  from attr_upd [OF assms(1) _ p(2) this] show ?thesis using p i(2) assms(2) Some by (auto simp: del_attr_slot_del attr_map_def)
qed

lemma count_attr_ok: "attr_inv a \<Longrightarrow> fst (norn_attr_count a) = card (dom (attr_map a))"
  by (simp add: norn_attr_count_def attr_map_def Let_def card_dom_slot_map [OF attr_inv_init(1)])

lemma clear_attr_ok: "attr_inv (norn_attr_clear a)" "attr_map (norn_attr_clear a) = Map.empty"
  by (auto simp: norn_attr_clear_def attr_inv_def attr_map_def init_attrs_def attrs_zero_def slots_distinct_replicate slot_map_replicate)

text \<open>Runs from the start of the process, when nothing has been cleared yet.\<close>

inductive attr_run :: "attr_state \<Rightarrow> (bytes \<rightharpoonup> bytes) \<Rightarrow> bool" where
  attr_run_start: "\<not> initialized a \<Longrightarrow> attr_run a Map.empty"
| attr_run_set: "attr_run a m \<Longrightarrow> norn_set_attr k v a = (rc, a') \<Longrightarrow> attr_run a' (if rc = 0 then m(k \<mapsto> v) else m)"
| attr_run_del: "attr_run a m \<Longrightarrow> norn_del_attr k a = (rc, a') \<Longrightarrow> attr_run a' (m(k := None))"
| attr_run_get: "attr_run a m \<Longrightarrow> attr_run (snd (norn_get_attr k cap a)) m"
| attr_run_count: "attr_run a m \<Longrightarrow> attr_run (snd (norn_attr_count a)) m"
| attr_run_clear: "attr_run a m \<Longrightarrow> attr_run (norn_attr_clear a) Map.empty"

lemma attr_run_ok: "attr_run a m \<Longrightarrow> attr_inv a \<and> attr_map a = m"
proof (induction rule: attr_run.induct)
  case (attr_run_start a)
  then show ?case by (simp add: attr_inv_def attr_map_def init_attrs_def attrs_zero_def slot_map_replicate)
next
  case (attr_run_set a m k v rc a')
  then show ?case using set_attr_ok [of a k v rc a'] by (auto split: if_splits)
next
  case (attr_run_del a m k rc a')
  then show ?case using del_attr_ok [of a k rc a'] by auto
next
  case (attr_run_get a m k cap)
  have "snd (norn_get_attr k cap a) = init_attrs a" by (simp add: norn_get_attr_def Let_def split: option.split)
  then show ?case using attr_run_get attr_init_ok by simp
next
  case (attr_run_count a m)
  then show ?case using attr_init_ok by (simp add: norn_attr_count_def Let_def)
next
  case (attr_run_clear a m)
  then show ?case using clear_attr_ok by simp
qed

text \<open>After any sequence of attribute calls from process start, reading a key returns the
  value last set and not deleted since, in full or -1 when it does not fit; the count is the
  number of attributes; and setting succeeds exactly when the key has 1 to 127 bytes, the value
  at most 256 and the key is present or fewer than 64 attributes are.\<close>

theorem attributes_refine_map:
  assumes "attr_run a m"
  shows "fst (norn_get_attr k cap a) =
      (case m k of None \<Rightarrow> (-1, []) | Some v \<Rightarrow> if cap < length v then (-1, []) else (int (length v), v)) \<and>
    fst (norn_attr_count a) = card (dom m) \<and> fst (norn_set_attr k v a) = (if attr_accepts m k v then 0 else -1)"
proof -
  have a: "attr_inv a" "attr_map a = m" using attr_run_ok [OF assms] by auto
  obtain rc a' where s: "norn_set_attr k v a = (rc, a')" by fastforce
  show ?thesis using get_attr_ok [OF a(1), of k cap] count_attr_ok [OF a(1)] set_attr_ok [OF a(1) s] s a(2)
    by (simp split: if_splits)
qed

theorem attributes_refine_map_witness:
  "\<exists>a. attr_run a [[118] \<mapsto> [48, 49]] \<and> fst (norn_get_attr [118] 2 a) = (2, [48, 49]) \<and> fst (norn_get_attr [118] 1 a) = (-1, [])"
proof -
  have "attr_run \<lparr>attrs = [], initialized = False\<rparr> Map.empty" by (simp add: attr_run_start)
  moreover obtain rc a where s: "norn_set_attr [118] [48, 49] \<lparr>attrs = [], initialized = False\<rparr> = (rc, a)" by fastforce
  ultimately have r: "attr_run a (if rc = 0 then [[118] \<mapsto> [48, 49]] else Map.empty)" by (rule attr_run_set)
  have "rc = 0" using s set_attr_ok [of "\<lparr>attrs = [], initialized = False\<rparr>", OF _ s]
    by (auto simp: attr_inv_def attr_accepts_def MAX_VALUE_LEN_def MAX_KEY_LEN_def attr_map_def init_attrs_def attrs_zero_def slot_map_replicate MAX_ATTRS_def)
  then have "attr_run a [[118] \<mapsto> [48, 49]]" using r by simp
  then show ?thesis using attributes_refine_map [of a _ "[118]" 2] attributes_refine_map [of a _ "[118]" 1] by (intro exI [of _ a]) simp
qed

end
