(* ===== verification/Norn_Ipc.thy ===== *)
theory Norn_Ipc
  imports Norn_Bencode
begin

text \<open>
  The request and response frames between the command line tool and the daemon,
  \<open>src/nornd/ipc.c\<close>: a four byte length and a bencoded dictionary. A fixed buffer with its
  length is a byte list; \<open>op\<close> and \<open>err\<close>, which are C strings, are the bytes before the
  terminating NUL. An encoder's \<open>None\<close> is the return code -1, as is a decoder's. The main
  lemmas are the two round trips, and that a request within the documented sizes always
  fits a frame.
\<close>

section \<open>String literals\<close>

definition str :: "string \<Rightarrow> bytes" where
  "str s = map (\<lambda>c. of_char c) s"

lemma of_char_byte: "(of_char c :: byte) = word_of_nat (of_char c)"
  by (rule of_nat_of_char [symmetric])

lemma unat_of_char: "unat (of_char c :: byte) = of_char c"
  using nat_of_char_less_256 [of c] by (simp add: of_char_byte unat_of_nat take_bit_nat_eq_self)

lemma of_char_byte_inj: "(of_char c :: byte) = of_char d \<longleftrightarrow> c = d"
proof
  assume "(of_char c :: byte) = of_char d"
  then have "(of_char c :: nat) = of_char d" using unat_of_char by metis
  then show "c = d" by simp
qed simp

lemma str_eq_iff [simp]: "str s = str t \<longleftrightarrow> s = t"
  unfolding str_def by (rule inj_map_eq_map) (simp add: inj_def of_char_byte_inj)

lemma str_eq_Nil [simp]: "str s = [] \<longleftrightarrow> s = []" "[] = str s \<longleftrightarrow> s = []"
  by (auto simp: str_def)

lemma length_str [simp]: "length (str s) = length s"
  by (simp add: str_def)

definition no_nul :: "string \<Rightarrow> bool" where
  "no_nul s \<longleftrightarrow> CHR 0x00 \<notin> set s"

lemma c_string_str: "no_nul s \<Longrightarrow> c_string (str s) = str s"
proof (rule c_string_id)
  assume "no_nul s"
  moreover have "(of_char c :: byte) = 0 \<Longrightarrow> c = CHR 0x00" for c
    using of_char_byte_inj [of c "CHR 0x00"] by simp
  ultimately show "0 \<notin> set (str s)" by (auto simp: str_def no_nul_def)
qed

section \<open>The structures\<close>

definition NORND_IPC_MAX_OP :: nat where "NORND_IPC_MAX_OP = 24"
definition NORND_IPC_MAX_KEY :: nat where "NORND_IPC_MAX_KEY = 256"
definition NORND_IPC_MAX_VAL :: nat where "NORND_IPC_MAX_VAL = 64000"
definition NORND_IPC_ID_BYTES :: nat where "NORND_IPC_ID_BYTES = 32"
definition NORND_IPC_MAX_ITEMS :: nat where "NORND_IPC_MAX_ITEMS = 32"
definition NORND_IPC_MAX_ITEM :: nat where "NORND_IPC_MAX_ITEM = 256"
definition NORND_IPC_MAX_BODY :: nat where "NORND_IPC_MAX_BODY = 65536"
definition IPC_MAX_ERR :: nat where "IPC_MAX_ERR = 256"

lemmas ipc_consts = NORND_IPC_MAX_OP_def NORND_IPC_MAX_KEY_def NORND_IPC_MAX_VAL_def NORND_IPC_ID_BYTES_def
  NORND_IPC_MAX_ITEMS_def NORND_IPC_MAX_ITEM_def NORND_IPC_MAX_BODY_def IPC_MAX_ERR_def

record ipc_req =
  rq_op :: bytes
  rq_key :: bytes
  rq_val :: bytes
  rq_has_val :: bool
  rq_expect :: bytes
  rq_has_expect :: bool
  rq_id :: bytes
  rq_has_id :: bool
  rq_seq :: int
  rq_has_seq :: bool

record ipc_resp =
  rs_ok :: bool
  rs_val :: bytes
  rs_has_val :: bool
  rs_err :: bytes
  rs_has_err :: bool
  rs_items :: "bytes list"

definition req_zero :: ipc_req where
  "req_zero = \<lparr>rq_op = [], rq_key = [], rq_val = [], rq_has_val = False, rq_expect = [], rq_has_expect = False,
     rq_id = replicate NORND_IPC_ID_BYTES 0, rq_has_id = False, rq_seq = 0, rq_has_seq = False\<rparr>"

definition resp_zero :: ipc_resp where
  "resp_zero = \<lparr>rs_ok = False, rs_val = [], rs_has_val = False, rs_err = [], rs_has_err = False, rs_items = []\<rparr>"

section \<open>Encoding\<close>

definition nornd_ipc_frame_len :: "bytes \<Rightarrow> int" where
  "nornd_ipc_frame_len buf = (if length buf < 4 then -1 else uint (un_be32 buf))"

definition add_str :: "bencode_value \<Rightarrow> bytes \<Rightarrow> bytes \<Rightarrow> int \<times> bencode_value" where
  "add_str d k v = (case bencode_dict_add d k (bencode_string_new v) of (rc, d') \<Rightarrow> (if rc \<noteq> 0 then -1 else 0, d'))"

definition add_int :: "bencode_value \<Rightarrow> bytes \<Rightarrow> int \<Rightarrow> int \<times> bencode_value" where
  "add_int d k v = (case bencode_dict_add d k (bencode_int_new v) of (rc, d') \<Rightarrow> (if rc \<noteq> 0 then -1 else 0, d'))"

text \<open>\<open>if (c) rc |= add (d, ...);\<close>\<close>

definition or_add :: "bool \<Rightarrow> (bencode_value \<Rightarrow> int \<times> bencode_value) \<Rightarrow> int \<times> bencode_value \<Rightarrow> int \<times> bencode_value" where
  "or_add c f x = (if c then (case f (snd x) of (r, d) \<Rightarrow> (if r = 0 then fst x else -1, d)) else x)"

definition frame :: "int \<times> bencode_value \<Rightarrow> nat \<Rightarrow> bytes option" where
  "frame x cap =
     (if fst x \<noteq> 0 then None
      else let enc = bencode_encode (snd x); blen = length enc in
        if blen > NORND_IPC_MAX_BODY then None
        else if 4 + blen > cap then None
        else Some (be32 (word_of_nat blen) @ enc))"

definition nornd_ipc_encode_req :: "ipc_req \<Rightarrow> nat \<Rightarrow> bytes option" where
  "nornd_ipc_encode_req r cap =
     (if rq_op r = [] then None
      else if length (rq_key r) > NORND_IPC_MAX_KEY \<or> length (rq_val r) > NORND_IPC_MAX_VAL \<or>
              length (rq_expect r) > NORND_IPC_MAX_VAL then None
      else let d = bencode_dict_new;
               x1 = add_str d (str ''op'') (rq_op r);
               x2 = or_add (rq_key r \<noteq> []) (\<lambda>d. add_str d (str ''key'') (rq_key r)) x1;
               x3 = or_add (rq_has_val r) (\<lambda>d. add_str d (str ''val'') (rq_val r)) x2;
               x4 = or_add (rq_has_expect r) (\<lambda>d. add_str d (str ''expect'') (rq_expect r)) x3;
               x5 = or_add (rq_has_id r) (\<lambda>d. add_str d (str ''id'') (take NORND_IPC_ID_BYTES (rq_id r))) x4;
               x6 = or_add (rq_has_seq r) (\<lambda>d. add_int d (str ''seq'') (rq_seq r)) x5
           in frame x6 cap)"

fun list_of :: "bencode_value \<Rightarrow> bytes list \<Rightarrow> int \<times> bencode_value" where
  "list_of l [] = (0, l)"
| "list_of l (i # is) = (case bencode_list_add l (bencode_string_new i) of (rc, l') \<Rightarrow> if rc \<noteq> 0 then (-1, l') else list_of l' is)"

definition nornd_ipc_encode_resp :: "ipc_resp \<Rightarrow> nat \<Rightarrow> bytes option" where
  "nornd_ipc_encode_resp r cap =
     (if length (rs_val r) > NORND_IPC_MAX_VAL \<or> length (rs_items r) > NORND_IPC_MAX_ITEMS then None
      else let d = bencode_dict_new;
               x1 = add_int d (str ''ok'') (if rs_ok r then 1 else 0);
               x2 = or_add (rs_has_val r) (\<lambda>d. add_str d (str ''val'') (rs_val r)) x1;
               x3 = or_add (rs_has_err r) (\<lambda>d. add_str d (str ''err'') (rs_err r)) x2
           in if rs_items r \<noteq> [] then
                (case list_of bencode_list_new (rs_items r) of (rc, l) \<Rightarrow>
                   if rc \<noteq> 0 then frame (-1, snd x3) cap
                   else frame (or_add True (\<lambda>d. bencode_dict_add d (str ''items'') l) x3) cap)
              else frame x3 cap)"

section \<open>Decoding\<close>

text \<open>The flag and the bytes of an optional string field; \<open>None\<close> is a wrong type or length.\<close>

definition get_str :: "bencode_value \<Rightarrow> bytes \<Rightarrow> nat \<Rightarrow> (bool \<times> bytes) option" where
  "get_str d k cap =
     (case bencode_dict_get d k of
        None \<Rightarrow> Some (False, [])
      | Some (BENCODE_STRING s) \<Rightarrow> if length s > cap then None else Some (True, s)
      | Some _ \<Rightarrow> None)"

definition decode_body :: "bytes \<Rightarrow> (bencode_value \<times> nat) option" where
  "decode_body buf =
     (let body = nornd_ipc_frame_len buf in
      if body < 0 \<or> body > int NORND_IPC_MAX_BODY then None
      else if 4 + nat body > length buf then None
      else case bencode_decode (take (nat body) (drop 4 buf)) of
        Some (BENCODE_DICT kvs, rest) \<Rightarrow> Some (BENCODE_DICT kvs, 4 + nat body)
      | _ \<Rightarrow> None)"

definition get_id :: "bencode_value \<Rightarrow> ipc_req \<Rightarrow> ipc_req option" where
  "get_id d r =
     (case bencode_dict_get d (str ''id'') of
        None \<Rightarrow> Some r
      | Some (BENCODE_STRING s) \<Rightarrow> if length s \<noteq> NORND_IPC_ID_BYTES then None else Some (r\<lparr>rq_id := s, rq_has_id := True\<rparr>)
      | Some _ \<Rightarrow> None)"

definition get_seq :: "bencode_value \<Rightarrow> ipc_req \<Rightarrow> ipc_req option" where
  "get_seq d r =
     (case bencode_dict_get d (str ''seq'') of
        None \<Rightarrow> Some r
      | Some (BENCODE_INT v) \<Rightarrow> Some (r\<lparr>rq_seq := v, rq_has_seq := True\<rparr>)
      | Some _ \<Rightarrow> None)"

definition nornd_ipc_decode_req :: "bytes \<Rightarrow> (ipc_req \<times> nat) option" where
  "nornd_ipc_decode_req buf =
     (case decode_body buf of
        None \<Rightarrow> None
      | Some (d, used) \<Rightarrow>
          case bencode_dict_get d (str ''op'') of
            Some (BENCODE_STRING opv) \<Rightarrow>
              if length opv = 0 \<or> length opv \<ge> NORND_IPC_MAX_OP then None
              else
                (case (get_str d (str ''key'') NORND_IPC_MAX_KEY, get_str d (str ''val'') NORND_IPC_MAX_VAL,
                       get_str d (str ''expect'') NORND_IPC_MAX_VAL) of
                   (Some (_, key), Some (hv, val), Some (he, ex)) \<Rightarrow>
                     (case get_id d (req_zero\<lparr>rq_op := c_string opv, rq_key := key, rq_val := val, rq_has_val := hv,
                                              rq_expect := ex, rq_has_expect := he\<rparr>) of
                        None \<Rightarrow> None
                      | Some r1 \<Rightarrow> (case get_seq d r1 of None \<Rightarrow> None | Some r2 \<Rightarrow> Some (r2, used)))
                 | _ \<Rightarrow> None)
          | _ \<Rightarrow> None)"

fun copy_items :: "bencode_value list \<Rightarrow> bytes list option" where
  "copy_items [] = Some []"
| "copy_items (BENCODE_STRING s # is) =
     (if length s > NORND_IPC_MAX_ITEM then None else map_option (Cons s) (copy_items is))"
| "copy_items (_ # is) = None"

definition nornd_ipc_decode_resp :: "bytes \<Rightarrow> (ipc_resp \<times> nat) option" where
  "nornd_ipc_decode_resp buf =
     (case decode_body buf of
        None \<Rightarrow> None
      | Some (d, used) \<Rightarrow>
          case bencode_dict_get d (str ''ok'') of
            Some (BENCODE_INT okv) \<Rightarrow>
              (case (get_str d (str ''val'') NORND_IPC_MAX_VAL, get_str d (str ''err'') (IPC_MAX_ERR - 1)) of
                 (Some (hv, val), Some (he, er)) \<Rightarrow>
                   let r = resp_zero\<lparr>rs_ok := (okv \<noteq> 0), rs_val := val, rs_has_val := hv,
                                     rs_err := c_string er, rs_has_err := he\<rparr> in
                   (case bencode_dict_get d (str ''items'') of
                      None \<Rightarrow> Some (r, used)
                    | Some (BENCODE_LIST vs) \<Rightarrow>
                        if length vs > NORND_IPC_MAX_ITEMS then None
                        else (case copy_items vs of None \<Rightarrow> None | Some is \<Rightarrow> Some (r\<lparr>rs_items := is\<rparr>, used))
                    | Some _ \<Rightarrow> None)
               | _ \<Rightarrow> None)
          | _ \<Rightarrow> None)"

section \<open>The dictionaries that are sent\<close>

definition opt_field :: "bool \<Rightarrow> string \<Rightarrow> bencode_value \<Rightarrow> (bytes \<times> bencode_value) list" where
  "opt_field c k v = (if c then [(str k, v)] else [])"

definition req_fields :: "ipc_req \<Rightarrow> (bytes \<times> bencode_value) list" where
  "req_fields r = [(str ''op'', BENCODE_STRING (rq_op r))] @ opt_field (rq_key r \<noteq> []) ''key'' (BENCODE_STRING (rq_key r)) @
     opt_field (rq_has_val r) ''val'' (BENCODE_STRING (rq_val r)) @
     opt_field (rq_has_expect r) ''expect'' (BENCODE_STRING (rq_expect r)) @
     opt_field (rq_has_id r) ''id'' (BENCODE_STRING (take NORND_IPC_ID_BYTES (rq_id r))) @
     opt_field (rq_has_seq r) ''seq'' (BENCODE_INT (rq_seq r))"

definition resp_fields :: "ipc_resp \<Rightarrow> (bytes \<times> bencode_value) list" where
  "resp_fields r = [(str ''ok'', BENCODE_INT (if rs_ok r then 1 else 0))] @
     opt_field (rs_has_val r) ''val'' (BENCODE_STRING (rs_val r)) @
     opt_field (rs_has_err r) ''err'' (BENCODE_STRING (rs_err r)) @
     opt_field (rs_items r \<noteq> []) ''items'' (BENCODE_LIST (map BENCODE_STRING (rs_items r)))"

lemma add_simps [simp]:
  "add_str (BENCODE_DICT kvs) k v = (0, BENCODE_DICT (kvs @ [(c_string k, BENCODE_STRING v)]))"
  "add_int (BENCODE_DICT kvs) k n = (0, BENCODE_DICT (kvs @ [(c_string k, BENCODE_INT n)]))"
  by (simp_all add: add_str_def add_int_def bencode_string_new_def bencode_int_new_def)

lemma or_add_fields:
  "no_nul k \<Longrightarrow> or_add c (\<lambda>d. add_str d (str k) v) (0, BENCODE_DICT kvs) =
     (0, BENCODE_DICT (kvs @ opt_field c k (BENCODE_STRING v)))"
  "no_nul k \<Longrightarrow> or_add c (\<lambda>d. add_int d (str k) n) (0, BENCODE_DICT kvs) =
     (0, BENCODE_DICT (kvs @ opt_field c k (BENCODE_INT n)))"
  "no_nul k \<Longrightarrow> or_add c (\<lambda>d. bencode_dict_add d (str k) w) (0, BENCODE_DICT kvs) =
     (0, BENCODE_DICT (kvs @ opt_field c k w))"
  by (simp_all add: or_add_def opt_field_def c_string_str)

lemma list_of_fields: "list_of (BENCODE_LIST vs) is = (0, BENCODE_LIST (vs @ map BENCODE_STRING is))"
  by (induction "is" arbitrary: vs) (simp_all add: bencode_string_new_def)

lemma key_names [simp]:
  "no_nul ''op''" "no_nul ''key''" "no_nul ''val''" "no_nul ''expect''" "no_nul ''id''" "no_nul ''seq''"
  "no_nul ''ok''" "no_nul ''err''" "no_nul ''items''"
  by (simp_all add: no_nul_def)

lemma encode_req_fields:
  "nornd_ipc_encode_req r cap =
     (if rq_op r = [] \<or> length (rq_key r) > NORND_IPC_MAX_KEY \<or> length (rq_val r) > NORND_IPC_MAX_VAL \<or>
         length (rq_expect r) > NORND_IPC_MAX_VAL then None
      else frame (0, BENCODE_DICT (req_fields r)) cap)"
  by (simp add: nornd_ipc_encode_req_def bencode_dict_new_def or_add_fields c_string_str req_fields_def)

lemma encode_resp_fields:
  "nornd_ipc_encode_resp r cap =
     (if length (rs_val r) > NORND_IPC_MAX_VAL \<or> length (rs_items r) > NORND_IPC_MAX_ITEMS then None
      else frame (0, BENCODE_DICT (resp_fields r)) cap)"
  by (simp add: nornd_ipc_encode_resp_def bencode_dict_new_def bencode_list_new_def or_add_fields c_string_str
      resp_fields_def list_of_fields Let_def) (simp add: opt_field_def)

lemma decode_body_frame:
  assumes "frame (0, BENCODE_DICT kvs) cap = Some f" "bwf 0 (BENCODE_DICT kvs)"
  shows "decode_body (f @ rest) = Some (BENCODE_DICT kvs, length f)" "length f \<le> cap"
    "length f \<le> 4 + NORND_IPC_MAX_BODY"
proof -
  let ?e = "bencode_encode (BENCODE_DICT kvs)"
  have f: "f = be32 (word_of_nat (length ?e)) @ ?e" "length ?e \<le> NORND_IPC_MAX_BODY" "4 + length ?e \<le> cap"
    using assms(1) by (auto simp: frame_def Let_def split: if_splits)
  have "uint (word_of_nat (length ?e) :: u32) = int (length ?e)"
    using f(2) by (simp add: ipc_consts uint_nat unat_of_nat take_bit_nat_eq_self)
  then have "nornd_ipc_frame_len (f @ rest) = int (length ?e)"
    unfolding f(1) nornd_ipc_frame_len_def by simp
  then show "decode_body (f @ rest) = Some (BENCODE_DICT kvs, length f)"
    using f(2) bencode_round_trip [OF assms(2), of "[]"] unfolding f(1) decode_body_def by simp
  show "length f \<le> cap" "length f \<le> 4 + NORND_IPC_MAX_BODY" using f by simp_all
qed

text \<open>The requests and responses the structures can hold; absent fields are zero.\<close>

definition req_wf :: "ipc_req \<Rightarrow> bool" where
  "req_wf r \<longleftrightarrow> rq_op r \<noteq> [] \<and> length (rq_op r) < NORND_IPC_MAX_OP \<and> 0 \<notin> set (rq_op r) \<and>
     length (rq_key r) \<le> NORND_IPC_MAX_KEY \<and> length (rq_val r) \<le> NORND_IPC_MAX_VAL \<and>
     length (rq_expect r) \<le> NORND_IPC_MAX_VAL \<and> (\<not> rq_has_val r \<longrightarrow> rq_val r = []) \<and>
     (\<not> rq_has_expect r \<longrightarrow> rq_expect r = []) \<and> length (rq_id r) = NORND_IPC_ID_BYTES \<and>
     (\<not> rq_has_id r \<longrightarrow> rq_id r = rq_id req_zero) \<and> - (2 ^ 63) \<le> rq_seq r \<and> rq_seq r < 2 ^ 63 \<and>
     (\<not> rq_has_seq r \<longrightarrow> rq_seq r = 0)"

definition resp_wf :: "ipc_resp \<Rightarrow> bool" where
  "resp_wf r \<longleftrightarrow> length (rs_val r) \<le> NORND_IPC_MAX_VAL \<and> (\<not> rs_has_val r \<longrightarrow> rs_val r = []) \<and>
     length (rs_err r) < IPC_MAX_ERR \<and> 0 \<notin> set (rs_err r) \<and> (\<not> rs_has_err r \<longrightarrow> rs_err r = []) \<and>
     length (rs_items r) \<le> NORND_IPC_MAX_ITEMS \<and> (\<forall>i \<in> set (rs_items r). length i \<le> NORND_IPC_MAX_ITEM)"

lemma list_all_opt: "list_all P (opt_field c k v) \<longleftrightarrow> (c \<longrightarrow> P (str k, v))"
  by (simp add: opt_field_def)

lemma req_fields_bwf: "req_wf r \<Longrightarrow> bwf 0 (BENCODE_DICT (req_fields r))"
  unfolding req_fields_def by (simp add: list_all_opt req_wf_def ipc_consts c_string_str BENCODE_MAX_DEPTH_def)

lemma items_bwf: "\<forall>i \<in> set is. length i \<le> NORND_IPC_MAX_ITEM \<Longrightarrow> bwf 1 (BENCODE_LIST (map BENCODE_STRING is))"
  by (auto simp: list_all_iff BENCODE_MAX_DEPTH_def ipc_consts)

lemma resp_fields_bwf: "resp_wf r \<Longrightarrow> bwf 0 (BENCODE_DICT (resp_fields r))"
  unfolding resp_fields_def
  using items_bwf [of "rs_items r"] by (simp add: list_all_opt resp_wf_def ipc_consts c_string_str BENCODE_MAX_DEPTH_def)

lemma get_field:
  "bencode_dict_get (BENCODE_DICT kvs) (str k) = map_of (map (\<lambda>(k, v). (c_string k, v)) kvs) (str k)" if "no_nul k"
  using that by (simp add: c_string_str)

lemma map_c_string_opt: "no_nul k \<Longrightarrow> map (\<lambda>(k, v). (c_string k, v)) (opt_field c k v) = opt_field c k v"
  by (simp add: opt_field_def c_string_str)

lemma map_of_opt: "map_of (opt_field c k v) (str q) = (if c \<and> k = q then Some v else None)"
  by (simp add: opt_field_def)

lemmas ipc_field_simps = get_field map_c_string_opt map_of_opt map_add_def c_string_str

lemma req_get:
  fixes r :: ipc_req
  defines "d \<equiv> BENCODE_DICT (req_fields r)"
  shows "bencode_dict_get d (str ''op'') = Some (BENCODE_STRING (rq_op r))"
    "bencode_dict_get d (str ''key'') = (if rq_key r \<noteq> [] then Some (BENCODE_STRING (rq_key r)) else None)"
    "bencode_dict_get d (str ''val'') = (if rq_has_val r then Some (BENCODE_STRING (rq_val r)) else None)"
    "bencode_dict_get d (str ''expect'') = (if rq_has_expect r then Some (BENCODE_STRING (rq_expect r)) else None)"
    "bencode_dict_get d (str ''id'') = (if rq_has_id r then Some (BENCODE_STRING (take NORND_IPC_ID_BYTES (rq_id r))) else None)"
    "bencode_dict_get d (str ''seq'') = (if rq_has_seq r then Some (BENCODE_INT (rq_seq r)) else None)"
  unfolding d_def req_fields_def by (simp_all add: ipc_field_simps)

lemma resp_get:
  fixes r :: ipc_resp
  defines "d \<equiv> BENCODE_DICT (resp_fields r)"
  shows "bencode_dict_get d (str ''ok'') = Some (BENCODE_INT (if rs_ok r then 1 else 0))"
    "bencode_dict_get d (str ''val'') = (if rs_has_val r then Some (BENCODE_STRING (rs_val r)) else None)"
    "bencode_dict_get d (str ''err'') = (if rs_has_err r then Some (BENCODE_STRING (rs_err r)) else None)"
    "bencode_dict_get d (str ''items'') = (if rs_items r \<noteq> [] then Some (BENCODE_LIST (map BENCODE_STRING (rs_items r))) else None)"
  unfolding d_def resp_fields_def by (simp_all add: ipc_field_simps)

lemma copy_items_strings: "\<forall>i \<in> set is. length i \<le> NORND_IPC_MAX_ITEM \<Longrightarrow> copy_items (map BENCODE_STRING is) = Some is"
  by (induction "is") auto

section \<open>Round trips\<close>

lemma req_round_trip:
  assumes "req_wf r" "nornd_ipc_encode_req r cap = Some f"
  shows "nornd_ipc_decode_req (f @ rest) = Some (r, length f)"
proof -
  have f: "frame (0, BENCODE_DICT (req_fields r)) cap = Some f"
    using assms(2) by (simp add: encode_req_fields split: if_splits)
  show ?thesis
    unfolding nornd_ipc_decode_req_def decode_body_frame(1) [OF f req_fields_bwf [OF assms(1)]]
    using assms(1) by (cases r) (simp add: req_get get_str_def get_id_def get_seq_def req_wf_def c_string_id req_zero_def del: bencode_dict_get.simps)
qed

lemma resp_round_trip:
  assumes "resp_wf r" "nornd_ipc_encode_resp r cap = Some f"
  shows "nornd_ipc_decode_resp (f @ rest) = Some (r, length f)"
proof -
  have f: "frame (0, BENCODE_DICT (resp_fields r)) cap = Some f"
    using assms(2) by (simp add: encode_resp_fields split: if_splits)
  show ?thesis
    unfolding nornd_ipc_decode_resp_def decode_body_frame(1) [OF f resp_fields_bwf [OF assms(1)]]
    using assms(1) by (cases r) (auto simp: resp_get get_str_def resp_wf_def c_string_id resp_zero_def copy_items_strings IPC_MAX_ERR_def
        simp del: bencode_dict_get.simps)
qed

section \<open>Sizes\<close>

lemma length_encode_string: "length d < 100000 \<Longrightarrow> length (encode_string d) \<le> 6 + length d"
  using length_nat_dec [of "length d" 5] by (simp add: encode_string_def)

lemma length_encode_int: "- (2 ^ 63) \<le> v \<Longrightarrow> v < 2 ^ 63 \<Longrightarrow> length (encode_int v) \<le> 23"
proof -
  assume "- (2 ^ 63) \<le> v" "v < 2 ^ 63"
  then have "nat \<bar>v\<bar> < 10 ^ 20" by (auto simp: nat_less_iff)
  from length_nat_dec [OF this] show ?thesis by (cases "v < 0") (simp_all add: encode_int_def int_dec_def)
qed

definition fields_len :: "(bytes \<times> bencode_value) list \<Rightarrow> nat" where
  "fields_len kvs = sum_list (map (\<lambda>(k, v). length (encode_string (c_string k)) + length (encode_value v)) kvs)"

lemma length_dict: "length (encode_value (BENCODE_DICT kvs)) = fields_len kvs + 2"
  by (induction kvs) (auto simp: fields_len_def)

lemma fields_len_append [simp]: "fields_len (a @ b) = fields_len a + fields_len b"
  by (simp add: fields_len_def)

lemma fields_len_opt: "no_nul k \<Longrightarrow> length k < 10 \<Longrightarrow> fields_len (opt_field c k v) \<le> (if c then 6 + length k + length (encode_value v) else 0)"
  using length_encode_string [of "str k"] by (simp add: fields_len_def opt_field_def c_string_str)

lemma fields_len_str:
  "no_nul k \<Longrightarrow> length k < 10 \<Longrightarrow> length d < 100000 \<Longrightarrow> (\<not> c \<Longrightarrow> d = []) \<Longrightarrow>
     fields_len (opt_field c k (BENCODE_STRING d)) \<le> 22 + length d"
  using fields_len_opt [of k c "BENCODE_STRING d"] length_encode_string [of d] by (cases c) auto

lemma fields_len_int:
  "no_nul k \<Longrightarrow> length k < 10 \<Longrightarrow> - (2 ^ 63) \<le> v \<Longrightarrow> v < 2 ^ 63 \<Longrightarrow> fields_len (opt_field c k (BENCODE_INT v)) \<le> 40"
  using fields_len_opt [of k c "BENCODE_INT v"] length_encode_int [of v] by (cases c) auto

lemma req_fits:
  assumes "req_wf r" "length (rq_val r) + length (rq_expect r) \<le> 65000" "cap \<ge> NORND_IPC_MAX_BODY + 4"
  shows "\<exists>f. nornd_ipc_encode_req r cap = Some f"
proof -
  have w: "length (rq_op r) < 24" "length (rq_key r) \<le> 256" "length (rq_val r) \<le> 64000" "length (rq_expect r) \<le> 64000"
    "\<not> rq_has_val r \<Longrightarrow> rq_val r = []" "\<not> rq_has_expect r \<Longrightarrow> rq_expect r = []" "length (rq_id r) = 32"
    using assms(1) by (auto simp: req_wf_def ipc_consts)
  have "fields_len [(str ''op'', BENCODE_STRING (rq_op r))] \<le> 60"
    using length_encode_string [of "rq_op r"] length_encode_string [of "str ''op''"] w(1) by (simp add: fields_len_def c_string_str)
  moreover have "fields_len (opt_field (rq_key r \<noteq> []) ''key'' (BENCODE_STRING (rq_key r))) \<le> 22 + length (rq_key r)"
    using w(2) by (intro fields_len_str) auto
  moreover have "fields_len (opt_field (rq_has_val r) ''val'' (BENCODE_STRING (rq_val r))) \<le> 22 + length (rq_val r)"
    using w(3,5) by (intro fields_len_str) auto
  moreover have "fields_len (opt_field (rq_has_expect r) ''expect'' (BENCODE_STRING (rq_expect r))) \<le> 22 + length (rq_expect r)"
    using w(4,6) by (intro fields_len_str) auto
  moreover have "fields_len (opt_field (rq_has_id r) ''id'' (BENCODE_STRING (take NORND_IPC_ID_BYTES (rq_id r)))) \<le> 60"
    using fields_len_opt [of "''id''" "rq_has_id r" "BENCODE_STRING (take NORND_IPC_ID_BYTES (rq_id r))"]
      length_encode_string [of "take NORND_IPC_ID_BYTES (rq_id r)"] w(7) by (simp add: NORND_IPC_ID_BYTES_def split: if_splits)
  moreover have "fields_len (opt_field (rq_has_seq r) ''seq'' (BENCODE_INT (rq_seq r))) \<le> 40"
    using assms(1) by (intro fields_len_int) (auto simp: req_wf_def)
  ultimately have "length (encode_value (BENCODE_DICT (req_fields r))) \<le> NORND_IPC_MAX_BODY"
    using assms(2) w(2) unfolding length_dict req_fields_def fields_len_append NORND_IPC_MAX_BODY_def by linarith
  then show ?thesis using assms(1,3) by (auto simp: encode_req_fields req_wf_def frame_def bencode_encode_def)
qed

lemma resp_fits:
  assumes "resp_wf r" "length (rs_val r) + sum_list (map (\<lambda>i. 6 + length i) (rs_items r)) \<le> 65000" "cap \<ge> NORND_IPC_MAX_BODY + 4"
  shows "\<exists>f. nornd_ipc_encode_resp r cap = Some f"
proof -
  have w: "length (rs_val r) \<le> 64000" "\<not> rs_has_val r \<Longrightarrow> rs_val r = []" "length (rs_err r) < 256"
    "\<not> rs_has_err r \<Longrightarrow> rs_err r = []" "\<forall>i \<in> set (rs_items r). length i \<le> 256"
    using assms(1) by (auto simp: resp_wf_def ipc_consts)
  have l: "length (encode_value (BENCODE_LIST (map BENCODE_STRING is))) \<le> 2 + sum_list (map (\<lambda>i. 6 + length i) is)"
    if "\<forall>i \<in> set is. length i \<le> 256" for "is"
    using that
  proof (induction "is")
    case (Cons i "is")
    then show ?case using length_encode_string [of i] by simp
  qed simp
  have "fields_len (opt_field (rs_items r \<noteq> []) ''items'' (BENCODE_LIST (map BENCODE_STRING (rs_items r))))
      \<le> 20 + sum_list (map (\<lambda>i. 6 + length i) (rs_items r))"
    using fields_len_opt [of "''items''" "rs_items r \<noteq> []" "BENCODE_LIST (map BENCODE_STRING (rs_items r))"] l [OF w(5)]
    by (simp split: if_splits)
  moreover have "fields_len [(str ''ok'', BENCODE_INT (if rs_ok r then 1 else 0))] \<le> 40"
    using length_encode_int [of 0] length_encode_int [of 1] length_encode_string [of "str ''ok''"]
    by (simp add: fields_len_def c_string_str)
  moreover have "fields_len (opt_field (rs_has_val r) ''val'' (BENCODE_STRING (rs_val r))) \<le> 22 + length (rs_val r)"
    using w(1,2) by (intro fields_len_str) auto
  moreover have "fields_len (opt_field (rs_has_err r) ''err'' (BENCODE_STRING (rs_err r))) \<le> 22 + length (rs_err r)"
    using w(3,4) by (intro fields_len_str) auto
  ultimately have "length (encode_value (BENCODE_DICT (resp_fields r))) \<le> NORND_IPC_MAX_BODY"
    using assms(2) w(3) unfolding length_dict resp_fields_def fields_len_append NORND_IPC_MAX_BODY_def by linarith
  then show ?thesis using assms(1,3) by (auto simp: encode_resp_fields resp_wf_def frame_def bencode_encode_def)
qed

section \<open>What a decoder lets through\<close>

lemma get_str_len: "get_str d k cap = Some (h, v) \<Longrightarrow> length v \<le> cap \<and> (\<not> h \<longrightarrow> v = [])"
  by (auto simp: get_str_def split: option.splits bencode_value.splits if_splits)

lemma decode_body_used: "decode_body buf = Some (d, n) \<Longrightarrow> 4 \<le> n \<and> n \<le> length buf"
  by (auto simp: decode_body_def Let_def split: if_splits option.splits bencode_value.splits)

lemma decode_body_bwf: "decode_body buf = Some (d, n) \<Longrightarrow> bwf 0 d"
  by (auto simp: decode_body_def Let_def simp del: bwf.simps split: if_splits option.splits bencode_value.splits dest!: bencode_decode_bwf)

lemma dict_get_int_range:
  assumes "bwf 0 d" "bencode_dict_get d k = Some (BENCODE_INT v)"
  shows "- (2 ^ 63) \<le> v \<and> v < 2 ^ 63"
proof -
  obtain kvs where d: "d = BENCODE_DICT kvs" using assms(2) by (cases d) auto
  then obtain q where "(q, BENCODE_INT v) \<in> set kvs" using assms(2) by (auto dest!: map_of_SomeD)
  then show ?thesis using assms(1) d by (auto simp: list_all_iff)
qed

lemma c_string_no_nul: "0 \<notin> set (c_string b)"
  by (auto simp: c_string_def dest: set_takeWhileD)

lemma c_string_less: "length b < n \<Longrightarrow> length (c_string b) < n"
  using c_string_length [of b] by simp

definition req_bounds :: "ipc_req \<Rightarrow> bool" where
  "req_bounds r \<longleftrightarrow> req_wf (r\<lparr>rq_op := [1]\<rparr>) \<and> length (rq_op r) < NORND_IPC_MAX_OP \<and> 0 \<notin> set (rq_op r)"

lemma req_bounds_upd:
  "req_bounds r \<Longrightarrow> length s = NORND_IPC_ID_BYTES \<Longrightarrow> req_bounds (r\<lparr>rq_id := s, rq_has_id := True\<rparr>)"
  "req_bounds r \<Longrightarrow> - (2 ^ 63) \<le> v \<and> v < 2 ^ 63 \<Longrightarrow> req_bounds (r\<lparr>rq_seq := v, rq_has_seq := True\<rparr>)"
  by (simp_all add: req_bounds_def req_wf_def)

lemma get_id_bounds:
  assumes "get_id d r = Some r'" "req_bounds r"
  shows "req_bounds r'"
proof -
  have "r' = r \<or> (\<exists>s. length s = NORND_IPC_ID_BYTES \<and> r' = r\<lparr>rq_id := s, rq_has_id := True\<rparr>)"
    using assms(1) by (auto simp: get_id_def split: option.splits bencode_value.splits if_splits)
  then show ?thesis using assms(2) req_bounds_upd(1) by blast
qed

lemma get_seq_bounds:
  assumes "bwf 0 d" "get_seq d r = Some r'" "req_bounds r"
  shows "req_bounds r'"
proof -
  have "r' = r \<or> (\<exists>v. bencode_dict_get d (str ''seq'') = Some (BENCODE_INT v) \<and> r' = r\<lparr>rq_seq := v, rq_has_seq := True\<rparr>)"
    using assms(2) by (auto simp: get_seq_def split: option.splits bencode_value.splits if_splits)
  then show ?thesis using assms(3) req_bounds_upd(2) dict_get_int_range [OF assms(1)] by blast
qed

lemma decode_req_bounds:
  assumes "nornd_ipc_decode_req buf = Some (r, n)"
  shows "req_bounds r \<and> 4 \<le> n \<and> n \<le> length buf"
proof -
  obtain d opv key hk val hv ex he r1 where d: "decode_body buf = Some (d, n)" "length opv < NORND_IPC_MAX_OP"
    "get_str d (str ''key'') NORND_IPC_MAX_KEY = Some (hk, key)" "get_str d (str ''val'') NORND_IPC_MAX_VAL = Some (hv, val)"
    "get_str d (str ''expect'') NORND_IPC_MAX_VAL = Some (he, ex)" "get_seq d r1 = Some r"
    "get_id d (req_zero\<lparr>rq_op := c_string opv, rq_key := key, rq_val := val, rq_has_val := hv,
       rq_expect := ex, rq_has_expect := he\<rparr>) = Some r1"
    using assms by (auto simp: nornd_ipc_decode_req_def not_le split: option.splits bencode_value.splits if_splits)
  have "req_bounds (req_zero\<lparr>rq_op := c_string opv, rq_key := key, rq_val := val, rq_has_val := hv,
      rq_expect := ex, rq_has_expect := he\<rparr>)"
    using d(2) get_str_len [OF d(3)] get_str_len [OF d(4)] get_str_len [OF d(5)]
    by (simp add: req_bounds_def req_wf_def req_zero_def c_string_no_nul c_string_less ipc_consts)
  from get_seq_bounds [OF decode_body_bwf [OF d(1)] d(6) get_id_bounds [OF d(7) this]]
  show ?thesis using decode_body_used [OF d(1)] by simp
qed

text \<open>A request within the sizes the header gives (and a value and an expected value of
  together at most 65000 bytes) always fits a frame, a response with the same limits does
  too, and the other side decodes exactly what was sent, whatever bytes follow, and consumes
  exactly the frame.\<close>

theorem ipc_round_trip:
  assumes "req_wf r" "length (rq_val r) + length (rq_expect r) \<le> 65000"
    and "resp_wf p" "length (rs_val p) + sum_list (map (\<lambda>i. 6 + length i) (rs_items p)) \<le> 65000"
  shows "(\<exists>f. nornd_ipc_encode_req r (NORND_IPC_MAX_BODY + 4) = Some f \<and> nornd_ipc_decode_req (f @ rest) = Some (r, length f)) \<and>
    (\<exists>f. nornd_ipc_encode_resp p (NORND_IPC_MAX_BODY + 4) = Some f \<and> nornd_ipc_decode_resp (f @ rest) = Some (p, length f))"
  using req_fits [OF assms(1,2) order_refl] req_round_trip [OF assms(1)]
    resp_fits [OF assms(3,4) order_refl] resp_round_trip [OF assms(3)] by blast

theorem ipc_round_trip_witness:
  "(let r = req_zero\<lparr>rq_op := [103, 101, 116], rq_key := [7, 0], rq_has_seq := True, rq_seq := -3\<rparr> in
     \<exists>f. nornd_ipc_encode_req r (NORND_IPC_MAX_BODY + 4) = Some f \<and> nornd_ipc_decode_req (f @ [1]) = Some (r, length f)) \<and>
   (let p = resp_zero\<lparr>rs_ok := True, rs_val := [0, 9], rs_has_val := True, rs_items := [[], [1]]\<rparr> in
     \<exists>f. nornd_ipc_encode_resp p (NORND_IPC_MAX_BODY + 4) = Some f \<and> nornd_ipc_decode_resp (f @ [1]) = Some (p, length f))"
  unfolding Let_def
  by (rule ipc_round_trip) (simp_all add: req_wf_def resp_wf_def req_zero_def resp_zero_def ipc_consts)

text \<open>C40: Whatever bytes arrive on the socket, a request the decoder accepts fits the structure
  it is copied into: an operation of at most 23 bytes without a NUL, a key of at most 256, a
  value and an expected value of at most 64000, an identifier of 32, a 64-bit sequence
  number, zeros where a field is absent; and no more than the received bytes are consumed.\<close>

theorem ipc_decode_in_bounds:
  assumes "nornd_ipc_decode_req buf = Some (r, n)"
  shows "req_bounds r \<and> 4 \<le> n \<and> n \<le> length buf"
  by (rule decode_req_bounds [OF assms])

theorem ipc_decode_in_bounds_witness:
  "\<exists>f r n. nornd_ipc_encode_req (req_zero\<lparr>rq_op := [103]\<rparr>) 70000 = Some f \<and> nornd_ipc_decode_req f = Some (r, n) \<and> req_bounds r \<and> n \<le> length f"
proof -
  have w: "req_wf (req_zero\<lparr>rq_op := [103]\<rparr>)" by (simp add: req_wf_def req_zero_def ipc_consts)
  obtain f where f: "nornd_ipc_encode_req (req_zero\<lparr>rq_op := [103]\<rparr>) 70000 = Some f"
    using req_fits [OF w, of 70000] by (auto simp: req_zero_def ipc_consts)
  have d: "nornd_ipc_decode_req f = Some (req_zero\<lparr>rq_op := [103]\<rparr>, length f)" using req_round_trip [OF w f, of "[]"] by simp
  show ?thesis using ipc_decode_in_bounds [OF d] f d by auto
qed

end
