(* ===== verification/Norn_Dispatch.thy ===== *)
theory Norn_Dispatch
  imports Norn_Ipc Norn_Cluster
begin

text \<open>
  The daemon's side of a request: \<open>src/nornd/dispatch.c\<close>, which maps a decoded request to
  calls of a backend, the wiring of that backend to the cluster, and the fan-out of watch
  events, both in \<open>src/nornd/main.c\<close>. The backend is a record of functions over a state;
  what the daemon needs of it is the locale \<open>kv_backend\<close>, interpreted on the cluster. The
  state of the cluster backend is the cluster with the frames and watch calls it has put
  out so far.
\<close>

section \<open>The backend\<close>

definition NORND_PUBKEY :: nat where "NORND_PUBKEY = 32"

record 'c nornd_backend =
  be_put :: "'c \<Rightarrow> bytes \<Rightarrow> bytes \<Rightarrow> int \<times> 'c"
  be_del :: "'c \<Rightarrow> bytes \<Rightarrow> int \<times> 'c"
  be_get :: "'c \<Rightarrow> bytes \<Rightarrow> nat \<Rightarrow> bytes option"
  be_is_leader :: "'c \<Rightarrow> bool"
  be_leader :: "'c \<Rightarrow> bytes option"
  be_members :: "'c \<Rightarrow> nat \<Rightarrow> bytes list option"

section \<open>Dispatch\<close>

definition fail :: "string \<Rightarrow> ipc_resp \<Rightarrow> ipc_resp" where
  "fail msg r = r\<lparr>rs_ok := False, rs_has_err := True, rs_err := take (IPC_MAX_ERR - 1) (str msg)\<rparr>"

definition ok_empty :: "ipc_resp \<Rightarrow> ipc_resp" where
  "ok_empty r = r\<lparr>rs_ok := True\<rparr>"

definition ok_val :: "bytes \<Rightarrow> ipc_resp \<Rightarrow> ipc_resp" where
  "ok_val v r = r\<lparr>rs_ok := True, rs_has_val := True, rs_val := v\<rparr>"

definition fill_members :: "'c nornd_backend \<Rightarrow> 'c \<Rightarrow> ipc_resp \<Rightarrow> ipc_resp" where
  "fill_members be c r =
     r\<lparr>rs_items := (case be_members be c NORND_IPC_MAX_ITEMS of None \<Rightarrow> [] | Some ps \<Rightarrow> ps)\<rparr>"

definition write_resp :: "int \<times> 'c \<Rightarrow> ipc_resp \<times> 'c" where
  "write_resp x = (if fst x = 0 then ok_empty resp_zero else fail ''no leader'' resp_zero, snd x)"

definition nornd_dispatch :: "'c nornd_backend \<Rightarrow> ipc_req \<Rightarrow> 'c \<Rightarrow> ipc_resp \<times> 'c" where
  "nornd_dispatch be req c =
     (let op = rq_op req; key = rq_key req in
      if op = str ''get'' then
        (if key = [] then (fail ''missing key'' resp_zero, c)
         else case be_get be c key NORND_IPC_MAX_VAL of
                None \<Rightarrow> (fail ''not found'' resp_zero, c)
              | Some v \<Rightarrow> (ok_val v resp_zero, c))
      else if op = str ''put'' then
        (if key = [] then (fail ''missing key'' resp_zero, c)
         else if \<not> rq_has_val req then (fail ''missing val'' resp_zero, c)
         else write_resp (be_put be c key (rq_val req)))
      else if op = str ''del'' then
        (if key = [] then (fail ''missing key'' resp_zero, c)
         else write_resp (be_del be c key))
      else if op = str ''cas'' then
        (if key = [] then (fail ''missing key'' resp_zero, c)
         else if \<not> rq_has_expect req \<or> \<not> rq_has_val req then (fail ''cas needs expect and val'' resp_zero, c)
         else case be_get be c key NORND_IPC_MAX_VAL of
                None \<Rightarrow> (fail ''cas: key absent'' resp_zero, c)
              | Some cur \<Rightarrow>
                  if cur \<noteq> rq_expect req then (fail ''cas: mismatch'' resp_zero, c)
                  else write_resp (be_put be c key (rq_val req)))
      else if op = str ''members'' then (ok_empty (fill_members be c resp_zero), c)
      else if op = str ''leader'' then
        (case be_leader be c of
           Some ld \<Rightarrow> (ok_val ld resp_zero, c)
         | None \<Rightarrow> (fail ''no leader'' resp_zero, c))
      else if op = str ''status'' then
        (let b = (if be_is_leader be c then 1 else 0);
             v = (case be_leader be c of Some ld \<Rightarrow> b # ld | None \<Rightarrow> [b])
         in (fill_members be c (ok_val v resp_zero), c))
      else if op = str ''watch'' then (ok_empty resp_zero, c)
      else (fail ''unknown op'' resp_zero, c))"

definition nornd_watch_event :: "norn_kv_event \<Rightarrow> bytes \<Rightarrow> bytes \<Rightarrow> ipc_resp" where
  "nornd_watch_event ev key val =
     (let kind = (if ev = NORN_KV_EV_DEL then str ''del'' else str ''put'');
          r = resp_zero\<lparr>rs_ok := True, rs_items := [kind, take NORND_IPC_MAX_ITEM key]\<rparr>
      in if ev = NORN_KV_EV_PUT \<and> length val \<le> NORND_IPC_MAX_VAL then r\<lparr>rs_val := val, rs_has_val := True\<rparr> else r)"

section \<open>Subscriptions\<close>

definition MAX_CLIENTS :: nat where "MAX_CLIENTS = 64"

record watch_sub =
  ws_fd :: int
  ws_prefix :: bytes

text \<open>A hit is overwritten by the last entry, and the same index is looked at again.\<close>

function watch_drop_from :: "int \<Rightarrow> nat \<Rightarrow> watch_sub list \<Rightarrow> watch_sub list" where
  "watch_drop_from fd i subs =
     (if i < length subs then
        if ws_fd (subs ! i) = fd then watch_drop_from fd i (swap_remove i subs)
        else watch_drop_from fd (i + 1) subs
      else subs)"
  by pat_completeness auto
termination watch_drop_from
  by (relation "measure (\<lambda>(fd, i, subs). length subs - i)") auto

declare watch_drop_from.simps [simp del]

definition watch_drop :: "int \<Rightarrow> watch_sub list \<Rightarrow> watch_sub list" where
  "watch_drop fd subs = watch_drop_from fd 0 subs"

definition watch_add :: "int \<Rightarrow> bytes \<Rightarrow> watch_sub list \<Rightarrow> watch_sub list" where
  "watch_add fd prefix subs0 =
     (let subs = watch_drop fd subs0 in
      if length subs \<ge> MAX_CLIENTS then subs
      else subs @ [\<lparr>ws_fd = fd, ws_prefix = take NORND_IPC_MAX_KEY prefix\<rparr>])"

text \<open>The frames written, with the descriptor each is written to.\<close>

definition on_kv_change :: "watch_sub list \<Rightarrow> norn_kv_event \<Rightarrow> bytes \<Rightarrow> bytes \<Rightarrow> (int \<times> bytes) list" where
  "on_kv_change subs ev key val =
     (case nornd_ipc_encode_resp (nornd_watch_event ev key val) (NORND_IPC_MAX_BODY + 4) of
        None \<Rightarrow> []
      | Some f \<Rightarrow> map (\<lambda>s. (ws_fd s, f)) (filter (\<lambda>s. starts_with (ws_prefix s) key) subs))"

section \<open>The cluster as a backend\<close>

type_synonym cl_ctx = "norn_cluster \<times> cluster_out list"

definition cl_after :: "cluster_out list \<Rightarrow> int \<times> cluster_res \<Rightarrow> int \<times> cl_ctx" where
  "cl_after out x = (case x of (rc, cl, out') \<Rightarrow> (rc, cl, out @ out'))"

definition cluster_backend :: "cl_ctx nornd_backend" where
  "cluster_backend =
     \<lparr>be_put = (\<lambda>(cl, out) k v. cl_after out (norn_cluster_kv_put cl k v)),
      be_del = (\<lambda>(cl, out) k. cl_after out (norn_cluster_kv_del cl k)),
      be_get = (\<lambda>(cl, out) k cap. norn_cluster_kv_get cl k cap),
      be_is_leader = (\<lambda>(cl, out). norn_cluster_is_leader cl),
      be_leader = (\<lambda>(cl, out). norn_cluster_leader cl),
      be_members = (\<lambda>(cl, out) n. norn_cluster_members cl (int n))\<rparr>"

text \<open>
  One request on an open connection. The daemon answers some operations itself, before the
  dispatcher sees them; what it does for those is the argument \<open>own\<close> here, which has no
  result where the C code's behaviour is undefined. The connection is dropped or the bytes
  are sent back, with the backend and the subscriptions; sending is taken to succeed.
\<close>

datatype 'c client_result = Undefined | Dropped | Served bytes 'c "watch_sub list"

definition own_ops :: "bytes list" where
  "own_ops = map str [''ping'', ''node-keygen'', ''node-set'', ''bep44-set'', ''bep44-put'', ''publog-add'', ''node-public'',
     ''node-id'', ''peer-public'', ''node-secret'', ''node-stats'', ''peers'', ''peer-list'', ''bep44-get'',
     ''bep44-get-immutable'', ''bep44-del'', ''bep44-list'', ''peer-fetch'']"

definition serve_client ::
  "(ipc_req \<Rightarrow> 'c \<Rightarrow> (ipc_resp \<times> 'c) option) \<Rightarrow> 'c nornd_backend \<Rightarrow> int \<Rightarrow> bytes \<Rightarrow> 'c \<times> watch_sub list \<Rightarrow> 'c client_result" where
  "serve_client own be fd buf s =
     (case nornd_ipc_decode_req buf of
        None \<Rightarrow> Dropped
      | Some (req, _) \<Rightarrow>
          (case (if rq_op req \<in> set own_ops then own req (fst s) else Some (nornd_dispatch be req (fst s))) of
             None \<Rightarrow> Undefined
           | Some (resp, c') \<Rightarrow>
               (case nornd_ipc_encode_resp resp (NORND_IPC_MAX_BODY + 4) of
                  None \<Rightarrow> Dropped
                | Some out \<Rightarrow>
                    Served out c' (if rs_ok resp \<and> rq_op req = str ''watch'' then watch_add fd (rq_key req) (snd s) else snd s))))"

section \<open>Responses that fit a frame\<close>

definition small :: "ipc_resp \<Rightarrow> bool" where
  "small r \<longleftrightarrow> resp_wf r \<and> length (rs_val r) + sum_list (map (\<lambda>i. 6 + length i) (rs_items r)) \<le> 65000"

lemma str_no_nul: "no_nul s \<Longrightarrow> 0 \<notin> set (str s)"
  using c_string_no_nul [of "str s"] by (simp add: c_string_str)

lemma small_fail: "no_nul msg \<Longrightarrow> small (fail msg resp_zero)"
  using str_no_nul [of msg] by (auto simp: small_def fail_def resp_wf_def resp_zero_def ipc_consts dest!: in_set_takeD)

lemma small_ok: "small (ok_empty resp_zero)" "length v \<le> NORND_IPC_MAX_VAL \<Longrightarrow> small (ok_val v resp_zero)"
  by (simp_all add: small_def ok_empty_def ok_val_def resp_wf_def resp_zero_def ipc_consts)

lemma error_texts [simp]:
  "no_nul ''missing key''" "no_nul ''not found''" "no_nul ''missing val''" "no_nul ''no leader''"
  "no_nul ''cas needs expect and val''" "no_nul ''cas: key absent''" "no_nul ''cas: mismatch''" "no_nul ''unknown op''"
  by (simp_all add: no_nul_def)

lemma small_write: "small (fst (write_resp x))"
  by (simp add: write_resp_def small_fail small_ok)

lemma small_items:
  assumes "small r" "length (rs_val r) \<le> 100" "length ps \<le> NORND_IPC_MAX_ITEMS" "\<forall>p \<in> set ps. length p = 32"
  shows "small (r\<lparr>rs_items := ps\<rparr>)"
proof -
  have "sum_list (map (\<lambda>i. 6 + length i) ps) = 38 * length ps" using assms(4) by (induction ps) auto
  then show ?thesis using assms by (auto simp: small_def resp_wf_def ipc_consts)
qed

lemma small_sent:
  assumes "small r"
  shows "\<exists>f. nornd_ipc_encode_resp r (NORND_IPC_MAX_BODY + 4) = Some f \<and> nornd_ipc_decode_resp (f @ rest) = Some (r, length f)"
proof -
  have r: "resp_wf r" "length (rs_val r) + sum_list (map (\<lambda>i. 6 + length i) (rs_items r)) \<le> 65000"
    using assms by (auto simp: small_def)
  show ?thesis using resp_fits [OF r order_refl] resp_round_trip [OF r(1)] by blast
qed

section \<open>The contract of a backend\<close>

text \<open>
  What the daemon relies on: an answer fits the buffer it was asked for, keys have 32 bytes,
  and writes keep the backend in order.
\<close>

locale kv_backend =
  fixes be :: "'c nornd_backend" and good :: "'c \<Rightarrow> bool"
  assumes get_cap: "be_get be c k n = Some v \<Longrightarrow> length v \<le> n"
    and leader_len: "good c \<Longrightarrow> be_leader be c = Some p \<Longrightarrow> length p = NORND_PUBKEY"
    and members_len: "good c \<Longrightarrow> be_members be c n = Some ps \<Longrightarrow> length ps \<le> n \<and> (\<forall>p \<in> set ps. length p = NORND_PUBKEY)"
    and put_good: "good c \<Longrightarrow> good (snd (be_put be c k v))"
    and del_good: "good c \<Longrightarrow> good (snd (be_del be c k))"
begin

lemma small_members: "good c \<Longrightarrow> small r \<Longrightarrow> length (rs_val r) \<le> 100 \<Longrightarrow> small (fill_members be c r)"
  using members_len [of c NORND_IPC_MAX_ITEMS]
  by (cases "be_members be c NORND_IPC_MAX_ITEMS") (auto simp: fill_members_def NORND_PUBKEY_def intro!: small_items)

lemma small_status:
  assumes "good c"
  shows "length (case be_leader be c of Some ld \<Rightarrow> b # ld | None \<Rightarrow> [b]) \<le> 100"
  using leader_len [OF assms] by (cases "be_leader be c") (auto simp: NORND_PUBKEY_def)

lemma write_good: "good c \<Longrightarrow> good (snd (write_resp (be_put be c k v)))" "good c \<Longrightarrow> good (snd (write_resp (be_del be c k)))"
  by (simp_all add: write_resp_def put_good del_good)

lemma leader_val: "good c \<Longrightarrow> be_leader be c = Some p \<Longrightarrow> small (ok_val p resp_zero)"
  using leader_len by (auto intro!: small_ok simp: NORND_PUBKEY_def ipc_consts)

lemma dispatch_small: "good c \<Longrightarrow> small (fst (nornd_dispatch be req c))"
proof -
  assume g: "good c"
  have st: "small (fill_members be c (ok_val (case be_leader be c of Some ld \<Rightarrow> b # ld | None \<Rightarrow> [b]) resp_zero))" for b
    using small_status [OF g, of b] by (intro small_members [OF g] small_ok) (simp_all add: ok_val_def ipc_consts)
  have mb: "small (ok_empty (fill_members be c resp_zero))"
    using small_members [OF g, of "ok_empty resp_zero"] small_ok by (simp add: fill_members_def ok_empty_def resp_zero_def)
  show ?thesis
    unfolding nornd_dispatch_def Let_def
    using st mb get_cap [of c "rq_key req" NORND_IPC_MAX_VAL] leader_val [OF g]
    by (simp add: small_fail small_write small_ok split: option.split)
qed

lemma dispatch_good: "good c \<Longrightarrow> good (snd (nornd_dispatch be req c))"
  by (simp add: nornd_dispatch_def Let_def write_good split: option.split)

text \<open>
  A request sent over the socket: the daemon decodes what the client encoded, and the client
  decodes exactly the dispatcher's answer; the backend is left as the dispatcher leaves it.
\<close>

lemma served:
  assumes "good c" "req_wf r" "length (rq_val r) + length (rq_expect r) \<le> 65000" "rq_op r \<notin> set own_ops"
  shows "\<exists>f out. nornd_ipc_encode_req r (NORND_IPC_MAX_BODY + 4) = Some f \<and>
    serve_client own be fd f (c, subs) = Served out (snd (nornd_dispatch be r c))
      (if rs_ok (fst (nornd_dispatch be r c)) \<and> rq_op r = str ''watch'' then watch_add fd (rq_key r) subs else subs) \<and>
    nornd_ipc_decode_resp out = Some (fst (nornd_dispatch be r c), length out) \<and> good (snd (nornd_dispatch be r c))"
proof -
  obtain f where f: "nornd_ipc_encode_req r (NORND_IPC_MAX_BODY + 4) = Some f"
    using req_fits [OF assms(2,3) order_refl] by blast
  have d: "nornd_ipc_decode_req f = Some (r, length f)" using req_round_trip [OF assms(2) f, of "[]"] by simp
  obtain out where o: "nornd_ipc_encode_resp (fst (nornd_dispatch be r c)) (NORND_IPC_MAX_BODY + 4) = Some out"
    "nornd_ipc_decode_resp out = Some (fst (nornd_dispatch be r c), length out)"
    using small_sent [OF dispatch_small [OF assms(1), of r], of "[]"] by auto
  have "serve_client own be fd f (c, subs) = Served out (snd (nornd_dispatch be r c))
      (if rs_ok (fst (nornd_dispatch be r c)) \<and> rq_op r = str ''watch'' then watch_add fd (rq_key r) subs else subs)"
    using d o(1) assms(4) by (simp add: serve_client_def split_beta)
  then show ?thesis using f o(2) dispatch_good [OF assms(1), of r] by blast
qed

end

section \<open>The cluster satisfies the contract\<close>

definition cl_good :: "cl_ctx \<Rightarrow> bool" where
  "cl_good x \<longleftrightarrow> (\<forall>m \<in> set (c_members (fst x)). length (cm_pubkey m) = NORND_PUBKEY) \<and> length (c_leader_pub (fst x)) = NORND_PUBKEY"

lemma cl_submit_good: "cl_good (cl, out) \<Longrightarrow> cl_good (snd (cl_after out' (kv_submit cl cmd)))"
  by (auto simp: cl_good_def cl_after_def kv_submit_def split_beta with_raft_state)

lemma cl_get_cap: "norn_cluster_kv_get cl k n = Some v \<Longrightarrow> length v \<le> n"
  by (auto simp: norn_cluster_kv_get_def norn_kv_get_def Let_def split: if_splits option.splits)

interpretation clb: kv_backend cluster_backend cl_good
proof
  show "length v \<le> n" if "be_get cluster_backend c k n = Some v" for c k n v
    using that cl_get_cap by (auto simp: cluster_backend_def split_beta)
  show "length p = NORND_PUBKEY" if "cl_good c" "be_leader cluster_backend c = Some p" for c p
    using that by (auto simp: cluster_backend_def cl_good_def norn_cluster_leader_def split_beta split: if_splits)
  show "length ps \<le> n \<and> (\<forall>p \<in> set ps. length p = NORND_PUBKEY)"
    if "cl_good c" "be_members cluster_backend c n = Some ps" for c n ps
    using that by (auto simp: cluster_backend_def cl_good_def norn_cluster_members_def split_beta split: if_splits dest!: in_set_takeD)
  show "cl_good (snd (be_put cluster_backend c k v))" if "cl_good c" for c k v
    using that cl_submit_good [of "fst c" "snd c"]
    by (cases c) (auto simp: cluster_backend_def norn_cluster_kv_put_def cl_after_def cl_good_def split: option.splits)
  show "cl_good (snd (be_del cluster_backend c k))" if "cl_good c" for c k
    using that cl_submit_good [of "fst c" "snd c"]
    by (cases c) (auto simp: cluster_backend_def norn_cluster_kv_del_def cl_after_def cl_good_def split: option.splits)
qed

lemma demo_kv: "kv_entries (c_kv demo_cluster) = replicate 256 \<lparr>ke_key = [], ke_val = [], ke_used = False\<rparr>"
  by code_simp

lemma demo_empty: "dom (kv_map (c_kv demo_cluster)) = {}"
  by (simp add: kv_map_def demo_kv dom_slot_map)

lemma demo_good: "cl_good (demo_cluster, [])"
proof -
  have "map cm_pubkey (c_members demo_cluster) = [demo_pk]" "c_leader_pub demo_cluster = demo_pk" by code_simp+
  then show ?thesis by (auto simp: cl_good_def NORND_PUBKEY_def demo_pk_def map_eq_Cons_conv)
qed

section \<open>Subscriptions: one per connection\<close>

lemma watch_drop_from_mset:
  "(\<forall>j < i. j < length subs \<longrightarrow> ws_fd (subs ! j) \<noteq> fd) \<Longrightarrow>
     mset (watch_drop_from fd i subs) = filter_mset (\<lambda>s. ws_fd s \<noteq> fd) (mset subs)"
proof (induction fd i subs rule: watch_drop_from.induct)
  case (1 fd i subs)
  show ?case
  proof (cases "i < length subs")
    case True
    show ?thesis
    proof (cases "ws_fd (subs ! i) = fd")
      case hit: True
      have pre: "\<forall>j < i. j < length (swap_remove i subs) \<longrightarrow> ws_fd (swap_remove i subs ! j) \<noteq> fd"
        using "1.prems" True by (auto simp: swap_remove_def nth_butlast nth_list_update)
      have "mset subs = add_mset (subs ! i) (mset (swap_remove i subs))" using True by (simp add: mset_swap_remove)
      moreover have "watch_drop_from fd i subs = watch_drop_from fd i (swap_remove i subs)"
        using True hit by (subst watch_drop_from.simps) simp
      ultimately show ?thesis using "1.IH"(1) [OF True hit pre] hit by simp
    next
      case False
      have "\<forall>j < i + 1. j < length subs \<longrightarrow> ws_fd (subs ! j) \<noteq> fd" using "1.prems" False by (auto simp: less_Suc_eq)
      from "1.IH"(2) [OF True False this] show ?thesis using True False by (subst watch_drop_from.simps) simp
    qed
  next
    case False
    have "ws_fd s \<noteq> fd" if s: "s \<in> set subs" for s
    proof -
      obtain j where "j < length subs" "s = subs ! j" using s by (auto simp: in_set_conv_nth)
      then show ?thesis using "1.prems" False by simp
    qed
    then show ?thesis using False by (subst watch_drop_from.simps) (simp add: filter_True flip: mset_filter)
  qed
qed

lemma watch_drop_mset: "mset (watch_drop fd subs) = mset (filter (\<lambda>s. ws_fd s \<noteq> fd) subs)"
  by (simp add: watch_drop_def watch_drop_from_mset)

lemma watch_drop_set: "set (watch_drop fd subs) = {s \<in> set subs. ws_fd s \<noteq> fd}"
  using mset_eq_setD [OF watch_drop_mset [of fd subs]] by simp

lemma watch_drop_length: "length (watch_drop fd subs) \<le> length subs"
  using mset_eq_length [OF watch_drop_mset [of fd subs]] by simp

lemma watch_drop_distinct:
  assumes "distinct (map ws_fd subs)"
  shows "distinct (map ws_fd (watch_drop fd subs))"
proof -
  have "mset (map ws_fd (watch_drop fd subs)) = mset (map ws_fd (filter (\<lambda>s. ws_fd s \<noteq> fd) subs))"
    unfolding mset_map watch_drop_mset by (rule refl)
  then show ?thesis using distinct_map_filter [OF assms] mset_eq_imp_distinct_iff by blast
qed

text \<open>The set of subscriptions the daemon keeps: from empty, by requests and disconnects.\<close>

inductive watch_run :: "watch_sub list \<Rightarrow> bool" where
  watch_run_init: "watch_run []"
| watch_run_add: "watch_run subs \<Longrightarrow> watch_run (watch_add fd p subs)"
| watch_run_drop: "watch_run subs \<Longrightarrow> watch_run (watch_drop fd subs)"

lemma watch_run_ok: "watch_run subs \<Longrightarrow> distinct (map ws_fd subs) \<and> length subs \<le> MAX_CLIENTS"
proof (induction rule: watch_run.induct)
  case (watch_run_add subs fd p)
  then show ?case using watch_drop_distinct [of subs fd] watch_drop_length [of fd subs]
    by (auto simp: watch_add_def Let_def watch_drop_set)
next
  case (watch_run_drop subs fd)
  then show ?case using watch_drop_distinct [of subs fd] watch_drop_length [of fd subs] by simp
qed simp

lemma watch_event_small: "small (nornd_watch_event ev key val)"
proof -
  have "length (take NORND_IPC_MAX_ITEM key) \<le> 256" by (simp add: ipc_consts)
  then show ?thesis
    by (auto simp: small_def nornd_watch_event_def resp_wf_def resp_zero_def Let_def ipc_consts)
qed

lemma on_kv_change_frame:
  obtains f where "on_kv_change subs ev key val = map (\<lambda>s. (ws_fd s, f)) (filter (\<lambda>s. starts_with (ws_prefix s) key) subs)"
    "nornd_ipc_decode_resp f = Some (nornd_watch_event ev key val, length f)"
proof -
  obtain f where f: "nornd_ipc_encode_resp (nornd_watch_event ev key val) (NORND_IPC_MAX_BODY + 4) = Some f"
    "nornd_ipc_decode_resp f = Some (nornd_watch_event ev key val, length f)"
    using small_sent [OF watch_event_small [of ev key val], of "[]"] by auto
  show thesis using f by (intro that [of f]) (simp_all add: on_kv_change_def)
qed

section \<open>Properties\<close>

text \<open>C25: For every request a client can encode (a value and an expected value of together at
  most 65000 bytes) that the daemon does not answer itself, the daemon decodes exactly that
  request, its answer always fits a frame and is decoded by the client as exactly what the
  dispatcher computed on the cluster, the cluster is left as the dispatcher leaves it, and
  the connection is subscribed exactly if the request was a watch.\<close>

theorem ipc_serves_cluster:
  assumes "cl_good c" "req_wf r" "length (rq_val r) + length (rq_expect r) \<le> 65000" "rq_op r \<notin> set own_ops"
  shows "\<exists>f out. nornd_ipc_encode_req r (NORND_IPC_MAX_BODY + 4) = Some f \<and>
    serve_client own cluster_backend fd f (c, subs) = Served out (snd (nornd_dispatch cluster_backend r c))
      (if rs_ok (fst (nornd_dispatch cluster_backend r c)) \<and> rq_op r = str ''watch'' then watch_add fd (rq_key r) subs else subs) \<and>
    nornd_ipc_decode_resp out = Some (fst (nornd_dispatch cluster_backend r c), length out) \<and>
    cl_good (snd (nornd_dispatch cluster_backend r c))"
  by (rule clb.served [OF assms])

theorem ipc_serves_cluster_witness:
  "(let r = req_zero\<lparr>rq_op := str ''get'', rq_key := [7]\<rparr>; c = (demo_cluster, []) in
     \<exists>f out. nornd_ipc_encode_req r (NORND_IPC_MAX_BODY + 4) = Some f \<and>
       serve_client (\<lambda>r c. Some (resp_zero, c)) cluster_backend 3 f (c, []) = Served out c [] \<and>
       nornd_ipc_decode_resp out = Some (fail ''not found'' resp_zero, length out))"
proof -
  let ?r = "req_zero\<lparr>rq_op := str ''get'', rq_key := [7]\<rparr>"
  have "kv_map (c_kv demo_cluster) [7] = None" using demo_empty by (simp add: dom_eq_empty_conv)
  then have g: "norn_cluster_kv_get demo_cluster [7] NORND_IPC_MAX_VAL = None"
    by (simp add: norn_cluster_kv_get_def kv_get_map)
  have w: "req_wf ?r" "rq_op ?r \<notin> set own_ops"
    by (simp_all add: req_wf_def req_zero_def ipc_consts str_no_nul no_nul_def own_ops_def)
  have d: "nornd_dispatch cluster_backend ?r (demo_cluster, []) = (fail ''not found'' resp_zero, demo_cluster, [])"
    using g by (simp add: nornd_dispatch_def cluster_backend_def)
  have l: "length (rq_val ?r) + length (rq_expect ?r) \<le> 65000" "rq_op ?r \<noteq> str ''watch''" by (simp_all add: req_zero_def)
  from ipc_serves_cluster [OF demo_good w(1) l(1) w(2), of "\<lambda>r c. Some (resp_zero, c)" 3 "[]"]
  show ?thesis using l(2) unfolding d Let_def fst_conv snd_conv by auto
qed

text \<open>A compare-and-set on a node that is not the leader but knows one answers ok and leaves
  its state unchanged, so a second one with the same expected value answers ok as well: both
  clients are told that their exchange succeeded.\<close>

theorem dispatch_cas_not_atomic:
  fixes cl :: norn_cluster and k e v v' :: bytes and out :: "cluster_out list"
  defines "cas w \<equiv> req_zero\<lparr>rq_op := str ''cas'', rq_key := k, rq_expect := e, rq_has_expect := True, rq_val := w, rq_has_val := True\<rparr>"
  assumes "r_role (c_raft cl) \<noteq> RAFT_LEADER" "c_have_leader cl" "key_ok k" "val_ok v" "val_ok v'"
    "norn_cluster_kv_get cl k NORND_IPC_MAX_VAL = Some e"
  shows "\<exists>out1 out2. nornd_dispatch cluster_backend (cas v) (cl, out) = (ok_empty resp_zero, cl, out1) \<and>
    nornd_dispatch cluster_backend (cas v') (cl, out1) = (ok_empty resp_zero, cl, out2)"
proof -
  have step: "\<exists>o1. nornd_dispatch cluster_backend (cas w) (cl, o0) = (ok_empty resp_zero, cl, o1)" if w: "val_ok w" for w o0
  proof -
    obtain cmd where c: "norn_kv_encode_put CMD_MAX k w = Some cmd" "cmd \<noteq> []"
      using assms(4) w by (simp add: norn_kv_encode_put_def key_ok_def val_ok_def cluster_consts kv_consts)
    obtain o1 where p: "norn_cluster_kv_put cl k w = (0, cl, o1)"
      using assms(2,3) c by (simp add: norn_cluster_kv_put_def kv_submit_def)
    have "k \<noteq> []" using assms(4) by (auto simp: key_ok_def)
    then show ?thesis using p assms(7)
      by (simp add: nornd_dispatch_def cas_def cluster_backend_def cl_after_def write_resp_def)
  qed
  obtain o1 where o1: "nornd_dispatch cluster_backend (cas v) (cl, out) = (ok_empty resp_zero, cl, o1)"
    using step [OF assms(5)] by blast
  obtain o2 where "nornd_dispatch cluster_backend (cas v') (cl, o1) = (ok_empty resp_zero, cl, o2)"
    using step [OF assms(6)] by blast
  with o1 show ?thesis by (intro exI conjI)
qed

text \<open>A leader that is the only voter, with room for one more entry and one more key.\<close>

definition sole_leader :: "norn_cluster \<Rightarrow> bytes \<Rightarrow> bool" where
  "sole_leader cl k \<longleftrightarrow> cluster_wf cl \<and> r_role (c_raft cl) = RAFT_LEADER \<and> count_voters (c_raft cl) = 1 \<and>
     raft_is_voter (c_raft cl) (r_self (c_raft cl)) \<and> r_io_apply (c_raft cl) \<and>
     unat (r_applied (c_raft cl)) \<le> length (r_log (c_raft cl)) \<and> length (r_log (c_raft cl)) < RAFT_MAX_LOG \<and>
     (\<forall>i \<in> {unat (r_applied (c_raft cl))..<length (r_log (c_raft cl))}. re_type (r_log (c_raft cl) ! i) \<noteq> RAFT_ENTRY_NORMAL) \<and>
     (k \<in> dom (kv_map (c_kv cl)) \<or> card (dom (kv_map (c_kv cl))) < kv_cap (c_kv cl))"

lemma sole_leader_put:
  assumes "sole_leader cl k" "key_ok k" "val_ok v"
  shows "\<exists>cl' out. norn_cluster_kv_put cl k v = (0, cl', out) \<and> norn_cluster_kv_get cl' k NORND_IPC_MAX_VAL = Some v"
proof -
  have s: "cluster_wf cl" "r_role (c_raft cl) = RAFT_LEADER" "count_voters (c_raft cl) = 1"
    "raft_is_voter (c_raft cl) (r_self (c_raft cl))" "r_io_apply (c_raft cl)"
    "unat (r_applied (c_raft cl)) \<le> length (r_log (c_raft cl))" "length (r_log (c_raft cl)) < RAFT_MAX_LOG"
    "\<forall>i \<in> {unat (r_applied (c_raft cl))..<length (r_log (c_raft cl))}. re_type (r_log (c_raft cl) ! i) \<noteq> RAFT_ENTRY_NORMAL"
    "k \<in> dom (kv_map (c_kv cl)) \<or> card (dom (kv_map (c_kv cl))) < kv_cap (c_kv cl)"
    using assms(1) unfolding sole_leader_def by blast+
  have "length v \<le> NORND_IPC_MAX_VAL" using assms(3) by (simp add: val_ok_def kv_consts ipc_consts)
  then show ?thesis using sole_leader_put_get [OF s(1-8) assms(2,3) s(9)] by force
qed

lemma demo_sole_leader: "sole_leader demo_cluster k"
proof -
  let ?r = "c_raft demo_cluster"
  have r: "r_role ?r = RAFT_LEADER" "count_voters ?r = 1" "raft_is_voter ?r (r_self ?r)" "r_io_apply ?r" by code_simp+
  have l: "unat (r_applied ?r) = 0" "length (r_log ?r) = 1" "re_type (r_log ?r ! 0) = 1" by code_simp+
  have "card (dom (kv_map (c_kv demo_cluster))) < kv_cap (c_kv demo_cluster)"
    unfolding demo_empty by (simp add: kv_cap_def demo_kv)
  then show ?thesis using demo_cluster_wf r l by (simp add: sole_leader_def raft_consts)
qed

theorem dispatch_cas_not_atomic_witness:
  "\<exists>cl out1 out2. nornd_dispatch cluster_backend
       (req_zero\<lparr>rq_op := str ''cas'', rq_key := [1], rq_expect := [2], rq_has_expect := True, rq_val := [3], rq_has_val := True\<rparr>) (cl, []) =
         (ok_empty resp_zero, cl, out1) \<and>
     nornd_dispatch cluster_backend
       (req_zero\<lparr>rq_op := str ''cas'', rq_key := [1], rq_expect := [2], rq_has_expect := True, rq_val := [4], rq_has_val := True\<rparr>) (cl, out1) =
         (ok_empty resp_zero, cl, out2)"
proof -
  obtain cl where g: "norn_cluster_kv_get cl [1] NORND_IPC_MAX_VAL = Some [2]"
    using sole_leader_put [OF demo_sole_leader, of "[1]" "[2]"] by (auto simp: key_ok_def val_ok_def kv_consts)
  let ?f = "cl\<lparr>c_raft := (c_raft cl)\<lparr>r_role := RAFT_FOLLOWER\<rparr>, c_have_leader := True\<rparr>"
  have "norn_cluster_kv_get ?f [1] NORND_IPC_MAX_VAL = Some [2]" using g by (simp add: norn_cluster_kv_get_def)
  with dispatch_cas_not_atomic [of ?f "[1]" "[3]" "[4]" "[2]" "[]"] show ?thesis
    by (auto simp: key_ok_def val_ok_def kv_consts)
qed

text \<open>C26: On a node that is the only voter and leader, with room in log and store, a put sent over
  the socket is answered ok, and a get of that key sent next is answered with exactly that
  value.\<close>

theorem ipc_put_then_get:
  assumes "sole_leader cl k" "cl_good (cl, out)" "key_ok k" "val_ok v"
  shows "\<exists>f1 o1 c1 f2 o2 n1 n2.
    nornd_ipc_encode_req (req_zero\<lparr>rq_op := str ''put'', rq_key := k, rq_val := v, rq_has_val := True\<rparr>) (NORND_IPC_MAX_BODY + 4) = Some f1 \<and>
    serve_client own cluster_backend fd f1 ((cl, out), subs) = Served o1 c1 subs \<and>
    nornd_ipc_decode_resp o1 = Some (ok_empty resp_zero, n1) \<and>
    nornd_ipc_encode_req (req_zero\<lparr>rq_op := str ''get'', rq_key := k\<rparr>) (NORND_IPC_MAX_BODY + 4) = Some f2 \<and>
    serve_client own cluster_backend fd' f2 (c1, subs) = Served o2 c1 subs \<and>
    nornd_ipc_decode_resp o2 = Some (ok_val v resp_zero, n2)"
proof -
  let ?p = "req_zero\<lparr>rq_op := str ''put'', rq_key := k, rq_val := v, rq_has_val := True\<rparr>"
  let ?g = "req_zero\<lparr>rq_op := str ''get'', rq_key := k\<rparr>"
  have kv: "k \<noteq> []" "length k \<le> 256" "length v \<le> 256" using assms(3,4) by (auto simp: key_ok_def val_ok_def kv_consts)
  have w: "req_wf ?p" "req_wf ?g" using kv by (simp_all add: req_wf_def req_zero_def ipc_consts str_no_nul no_nul_def)
  have l: "length (rq_val ?p) + length (rq_expect ?p) \<le> 65000" "length (rq_val ?g) + length (rq_expect ?g) \<le> 65000"
    and n: "rq_op ?p \<notin> set own_ops" "rq_op ?g \<notin> set own_ops" "rq_op ?p \<noteq> str ''watch''" "rq_op ?g \<noteq> str ''watch''"
    using kv by (simp_all add: req_zero_def own_ops_def)
  obtain cl' out' where put: "norn_cluster_kv_put cl k v = (0, cl', out')" "norn_cluster_kv_get cl' k NORND_IPC_MAX_VAL = Some v"
    using sole_leader_put [OF assms(1,3,4)] by blast
  have d1: "nornd_dispatch cluster_backend ?p (cl, out) = (ok_empty resp_zero, cl', out @ out')"
    using put(1) kv(1) by (simp add: nornd_dispatch_def cluster_backend_def cl_after_def write_resp_def)
  have d2: "nornd_dispatch cluster_backend ?g (cl', out @ out') = (ok_val v resp_zero, cl', out @ out')"
    using put(2) kv(1) by (simp add: nornd_dispatch_def cluster_backend_def)
  obtain f1 o1 where 1: "nornd_ipc_encode_req ?p (NORND_IPC_MAX_BODY + 4) = Some f1"
    "serve_client own cluster_backend fd f1 ((cl, out), subs) = Served o1 (cl', out @ out') subs"
    "nornd_ipc_decode_resp o1 = Some (ok_empty resp_zero, length o1)" "cl_good (cl', out @ out')"
    using clb.served [OF assms(2) w(1) l(1) n(1), of own fd subs] n(3) unfolding d1 by auto
  obtain f2 o2 where 2: "nornd_ipc_encode_req ?g (NORND_IPC_MAX_BODY + 4) = Some f2"
    "serve_client own cluster_backend fd' f2 ((cl', out @ out'), subs) = Served o2 (cl', out @ out') subs"
    "nornd_ipc_decode_resp o2 = Some (ok_val v resp_zero, length o2)"
    using clb.served [OF 1(4) w(2) l(2) n(2), of own fd' subs] n(4) unfolding d2 by auto
  show ?thesis
    by (rule exI [of _ f1], rule exI [of _ o1], rule exI [of _ "(cl', out @ out')"], rule exI [of _ f2], rule exI [of _ o2],
        rule exI [of _ "length o1"], rule exI [of _ "length o2"]) (simp add: 1 2)
qed

theorem ipc_put_then_get_witness:
  "\<exists>f1 o1 c1 f2 o2 n2.
    nornd_ipc_encode_req (req_zero\<lparr>rq_op := str ''put'', rq_key := [1], rq_val := [2, 0], rq_has_val := True\<rparr>) (NORND_IPC_MAX_BODY + 4) = Some f1 \<and>
    serve_client (\<lambda>r c. Some (resp_zero, c)) cluster_backend 3 f1 ((demo_cluster, []), []) = Served o1 c1 [] \<and>
    nornd_ipc_encode_req (req_zero\<lparr>rq_op := str ''get'', rq_key := [1]\<rparr>) (NORND_IPC_MAX_BODY + 4) = Some f2 \<and>
    serve_client (\<lambda>r c. Some (resp_zero, c)) cluster_backend 4 f2 (c1, []) = Served o2 c1 [] \<and>
    nornd_ipc_decode_resp o2 = Some (ok_val [2, 0] resp_zero, n2)"
proof -
  have "key_ok [1]" "val_ok [2, 0]" by (simp_all add: key_ok_def val_ok_def kv_consts)
  from ipc_put_then_get [OF demo_sole_leader demo_good this, of "\<lambda>r c. Some (resp_zero, c)" 3 "[]" 4] show ?thesis by blast
qed

text \<open>However clients subscribe and disconnect, a connection has at most one subscription
  and there are at most 64; and each change is written exactly once to every subscriber
  whose prefix the key begins with, to no other, and is decoded there as the event.\<close>

theorem watch_fan_out:
  assumes "watch_run subs"
  shows "distinct (map ws_fd subs) \<and> length subs \<le> MAX_CLIENTS \<and>
    distinct (map fst (on_kv_change subs ev key val)) \<and>
    fst ` set (on_kv_change subs ev key val) = ws_fd ` {s \<in> set subs. starts_with (ws_prefix s) key} \<and>
    (\<forall>(fd, f) \<in> set (on_kv_change subs ev key val).
       nornd_ipc_decode_resp f = Some (nornd_watch_event ev key val, length f))"
proof -
  note r = watch_run_ok [OF assms]
  obtain f where f: "on_kv_change subs ev key val = map (\<lambda>s. (ws_fd s, f)) (filter (\<lambda>s. starts_with (ws_prefix s) key) subs)"
    "nornd_ipc_decode_resp f = Some (nornd_watch_event ev key val, length f)" by (rule on_kv_change_frame)
  show ?thesis using r f(2) distinct_map_filter [OF conjunct1 [OF r], of "\<lambda>s. starts_with (ws_prefix s) key"]
    unfolding f(1) by (simp add: comp_def image_image)
qed

theorem watch_fan_out_witness:
  "(let subs = watch_drop 4 (watch_add 5 [1] (watch_add 4 [] [])) in
     \<exists>f. on_kv_change subs NORN_KV_EV_PUT [1, 2] [9] = [(5, f)] \<and>
       nornd_ipc_decode_resp f = Some (nornd_watch_event NORN_KV_EV_PUT [1, 2] [9], length f))"
proof -
  let ?s = "watch_drop 4 (watch_add 5 [1] (watch_add 4 [] []))"
  have r: "watch_run ?s" by (intro watch_run.intros)
  have s: "?s = [\<lparr>ws_fd = 5, ws_prefix = [1]\<rparr>]"
    by (simp add: watch_add_def watch_drop_def watch_drop_from.simps MAX_CLIENTS_def ipc_consts swap_remove_def)
  obtain f0 where "on_kv_change ?s NORN_KV_EV_PUT [1, 2] [9] =
      map (\<lambda>s. (ws_fd s, f0)) (filter (\<lambda>s. starts_with (ws_prefix s) [1, 2]) ?s)" by (rule on_kv_change_frame)
  then obtain fd f where f: "on_kv_change ?s NORN_KV_EV_PUT [1, 2] [9] = [(fd, f)]"
    unfolding s by (simp add: starts_with_def)
  have "nornd_ipc_decode_resp f = Some (nornd_watch_event NORN_KV_EV_PUT [1, 2] [9], length f) \<and> fd = 5"
    using watch_fan_out [OF r, of NORN_KV_EV_PUT "[1, 2]" "[9]"] f by (auto simp: s starts_with_def)
  then show ?thesis using f by (simp add: Let_def)
qed

end
