(* ===== verification/Norn_Publish.thy ===== *)
theory Norn_Publish
  imports Norn_Slots Norn_Ipc
begin

text \<open>
  The daemon's publishing: the log of published records (\<open>src/nornd/publog.c\<close>), the queue of
  records waiting to be published (\<open>pubqueue.c\<close>), and the pass of the main loop that drains
  the queue (\<open>main.c\<close>). The clock is an argument; a pass returns the calls of \<open>norn_put_immutable\<close>
  and \<open>norn_put_mutable_salt\<close> it makes, whose effect is modelled with the lookups. The value buffer of a log entry is kept as the array it is, with its stale bytes,
  because the logged length may exceed it; reading past the array has no result.
\<close>

section \<open>Numbering the used slots of a table\<close>

fun nth_slot :: "('e \<Rightarrow> bool) \<Rightarrow> nat \<Rightarrow> 'e list \<Rightarrow> nat option" where
  "nth_slot u i [] = None"
| "nth_slot u i (e # es) =
     (if \<not> u e then map_option Suc (nth_slot u i es)
      else if i = 0 then Some 0
      else map_option Suc (nth_slot u (i - 1) es))"

section \<open>The log of published records\<close>

definition PUBLOG_MAX :: nat where "PUBLOG_MAX = 256"
definition PUBLOG_MAX_VAL :: nat where "PUBLOG_MAX_VAL = 1024"
definition PUBLOG_NAME :: nat where "PUBLOG_NAME = 128"

record publog_entry =
  pe_target :: bytes
  pe_immutable :: bool
  pe_name :: bytes
  pe_vlen :: u64
  pe_value :: bytes
  pe_seq :: u32
  pe_published :: int
  pe_used :: bool

type_synonym publog = "publog_entry list"

definition publog_init :: publog where
  "publog_init = replicate PUBLOG_MAX
     \<lparr>pe_target = replicate 20 0, pe_immutable = False, pe_name = [], pe_vlen = 0, pe_value = replicate PUBLOG_MAX_VAL 0,
      pe_seq = 0, pe_published = 0, pe_used = False\<rparr>"

text \<open>What is written to the chosen entry besides the target: a value that does not fit, or a
  missing one, only clears the first byte, and the length is stored all the same.\<close>

type_synonym publog_fields = "bool \<times> bytes \<times> u64 \<times> bytes \<times> u32 \<times> int"

definition pe_fields :: "publog_entry \<Rightarrow> publog_fields" where
  "pe_fields e = (pe_immutable e, pe_name e, pe_vlen e, pe_value e, pe_seq e, pe_published e)"

definition pe_set :: "publog_fields \<Rightarrow> publog_entry \<Rightarrow> publog_entry" where
  "pe_set = (\<lambda>(imm, name, vlen, arr, seq, t) e.
     e\<lparr>pe_immutable := imm, pe_name := name, pe_vlen := vlen, pe_value := arr, pe_seq := seq, pe_published := t\<rparr>)"

definition pe_fill :: "bytes \<Rightarrow> publog_fields \<Rightarrow> publog_entry \<Rightarrow> publog_entry" where
  "pe_fill target f e = (pe_set f e)\<lparr>pe_target := target, pe_used := True\<rparr>"

definition pe_write :: "bool \<Rightarrow> bytes option \<Rightarrow> bytes option \<Rightarrow> u64 \<Rightarrow> u32 \<Rightarrow> int \<Rightarrow> publog_entry \<Rightarrow> publog_fields" where
  "pe_write imm name val vlen seq now e =
     (imm,
      case name of Some s \<Rightarrow> take (PUBLOG_NAME - 1) (c_string s) | None \<Rightarrow> [],
      vlen,
      case val of
        Some v \<Rightarrow> if unat vlen \<le> PUBLOG_MAX_VAL then take (unat vlen) v @ drop (unat vlen) (pe_value e) else 0 # tl (pe_value e)
      | None \<Rightarrow> 0 # tl (pe_value e),
      seq, now)"

definition publog_add ::
  "bytes \<Rightarrow> bool \<Rightarrow> bytes option \<Rightarrow> bytes option \<Rightarrow> u64 \<Rightarrow> u32 \<Rightarrow> int \<Rightarrow> publog \<Rightarrow> int \<times> publog" where
  "publog_add target imm name val vlen seq now p =
     (case find_idx (\<lambda>e. pe_used e \<and> pe_target e = target) p of
        Some i \<Rightarrow> (0, p[i := pe_set (pe_write imm name val vlen seq now (p ! i)) (p ! i)])
      | None \<Rightarrow>
          (case find_idx (\<lambda>e. \<not> pe_used e) p of
             Some i \<Rightarrow> (0, p[i := pe_fill target (pe_write imm name val vlen seq now (p ! i)) (p ! i)])
           | None \<Rightarrow> (-1, p)))"

definition publog_count :: "publog \<Rightarrow> nat" where
  "publog_count p = length (filter pe_used p)"

definition publog_get :: "publog \<Rightarrow> nat \<Rightarrow> publog_entry option" where
  "publog_get p i = map_option (nth p) (nth_slot pe_used i p)"

text \<open>A copy of the first bytes of an entry's value, as the readers of the log make it.\<close>

definition pe_read :: "nat \<Rightarrow> publog_entry \<Rightarrow> bytes option" where
  "pe_read n e = (if n \<le> PUBLOG_MAX_VAL then Some (take n (pe_value e)) else None)"

section \<open>The queue of records to publish\<close>

definition PUBQUEUE_MAX :: nat where "PUBQUEUE_MAX = 64"
definition PUBQUEUE_MAX_VAL :: nat where "PUBQUEUE_MAX_VAL = 1000"
definition PUBQUEUE_NAME :: nat where "PUBQUEUE_NAME = 128"

record pubqueue_entry =
  pq_target :: bytes
  pq_pubkey :: bytes
  pq_secret :: bytes
  pq_value :: bytes
  pq_seq :: u32
  pq_name :: bytes
  pq_immutable :: bool
  pq_used :: bool

type_synonym pubqueue = "pubqueue_entry list"

definition pubqueue_init :: pubqueue where
  "pubqueue_init = replicate PUBQUEUE_MAX
     \<lparr>pq_target = replicate 20 0, pq_pubkey = replicate 32 0, pq_secret = replicate 64 0, pq_value = [], pq_seq = 0,
      pq_name = [], pq_immutable = False, pq_used = False\<rparr>"

definition pubqueue_add_mutable :: "bytes \<Rightarrow> bytes \<Rightarrow> bytes \<Rightarrow> u32 \<Rightarrow> bytes option \<Rightarrow> pubqueue \<Rightarrow> int \<times> pubqueue" where
  "pubqueue_add_mutable pubkey secret val seq name q =
     (if length val > PUBQUEUE_MAX_VAL then (-1, q)
      else case find_idx (\<lambda>e. \<not> pq_used e) q of
        Some i \<Rightarrow> (0, q[i := (q ! i)\<lparr>pq_pubkey := pubkey, pq_secret := secret, pq_value := val, pq_seq := seq,
                     pq_immutable := False, pq_used := True,
                     pq_name := (case name of Some s \<Rightarrow> take (PUBQUEUE_NAME - 1) (c_string s) | None \<Rightarrow> pq_name (q ! i))\<rparr>])
      | None \<Rightarrow> (-1, q))"

definition pubqueue_add_immutable :: "bytes \<Rightarrow> pubqueue \<Rightarrow> int \<times> pubqueue" where
  "pubqueue_add_immutable val q =
     (if length val > PUBQUEUE_MAX_VAL then (-1, q)
      else case find_idx (\<lambda>e. \<not> pq_used e) q of
        Some i \<Rightarrow> (0, q[i := (q ! i)\<lparr>pq_value := val, pq_immutable := True, pq_used := True\<rparr>])
      | None \<Rightarrow> (-1, q))"

definition pubqueue_count :: "pubqueue \<Rightarrow> nat" where
  "pubqueue_count q = length (filter pq_used q)"

definition pubqueue_get :: "pubqueue \<Rightarrow> nat \<Rightarrow> pubqueue_entry option" where
  "pubqueue_get q i = map_option (nth q) (nth_slot pq_used i q)"

definition pubqueue_done :: "nat \<Rightarrow> pubqueue \<Rightarrow> pubqueue" where
  "pubqueue_done i q = (case nth_slot pq_used i q of Some j \<Rightarrow> q[j := (q ! j)\<lparr>pq_used := False\<rparr>] | None \<Rightarrow> q)"

text \<open>The calls one pass of the main loop makes for the entries of the queue.\<close>

datatype publish =
  Put_immutable bytes
| Put_mutable_salt bytes bytes bytes u32 bytes

definition publish_of :: "pubqueue_entry \<Rightarrow> publish" where
  "publish_of e =
     (if pq_immutable e then Put_immutable (pq_value e)
      else Put_mutable_salt (pq_pubkey e) (pq_secret e) (pq_value e) (pq_seq e) (pq_name e))"

function drain_from :: "nat \<Rightarrow> nat \<Rightarrow> pubqueue \<Rightarrow> publish list \<times> pubqueue" where
  "drain_from i nq q =
     (if i < nq then
        (case pubqueue_get q i of
           None \<Rightarrow> ([], q)
         | Some e \<Rightarrow> case drain_from (Suc i) nq (pubqueue_done i q) of (ps, q') \<Rightarrow> (publish_of e # ps, q'))
      else ([], q))"
  by pat_completeness auto
termination drain_from
  by (relation "measure (\<lambda>(i, nq, q). nq - i)") auto

declare drain_from.simps [simp del]

definition drain :: "pubqueue \<Rightarrow> publish list \<times> pubqueue" where
  "drain q = drain_from 0 (pubqueue_count q) q"

section \<open>Slots by number\<close>

lemma nth_slot_None: "nth_slot u i es = None \<longleftrightarrow> length (filter u es) \<le> i"
  by (induction u i es rule: nth_slot.induct) (auto simp: Suc_le_eq)

lemma nth_slot_Some:
  "nth_slot u i es = Some j \<Longrightarrow> j < length es \<and> u (es ! j) \<and> i < length (filter u es) \<and> es ! j = filter u es ! i"
  by (induction u i es arbitrary: j rule: nth_slot.induct) (auto simp: nth_Cons' split: if_splits)

lemma nth_slot_get: "map_option (nth es) (nth_slot u i es) = (if i < length (filter u es) then Some (filter u es ! i) else None)"
  using nth_slot_None [of u i es] nth_slot_Some [of u i es] by (cases "nth_slot u i es") auto

lemma nth_slot_clear:
  assumes "nth_slot u i es = Some j" "\<not> u x"
  shows "filter u (es[j := x]) = take i (filter u es) @ drop (Suc i) (filter u es)"
  using assms
proof (induction u i es arbitrary: j rule: nth_slot.induct)
  case (2 u i e es)
  then show ?case by (cases i) (auto split: if_splits)
qed simp

lemma publog_all: "List.map_filter (publog_get p) [0..<publog_count p] = filter pe_used p"
proof -
  have "List.map_filter (publog_get p) [0..<publog_count p] = map (nth (filter pe_used p)) [0..<length (filter pe_used p)]"
    unfolding publog_count_def List.map_filter_def publog_get_def nth_slot_get
    by (simp add: comp_def cong: map_cong)
  then show ?thesis by (simp add: map_nth)
qed

section \<open>The log as a map\<close>

interpretation plt: slot_table pe_used pe_target pe_fields pe_fill pe_set "\<lambda>e. e\<lparr>pe_used := False\<rparr>"
  by unfold_locales (auto simp: pe_fill_def pe_set_def pe_fields_def split: prod.split)

definition pl_map :: "publog \<Rightarrow> (bytes \<rightharpoonup> publog_fields)" where
  "pl_map p = slot_map pe_used pe_target pe_fields p"

definition pl_inv :: "publog \<Rightarrow> bool" where
  "pl_inv p \<longleftrightarrow> length p = PUBLOG_MAX \<and> slots_distinct pe_used pe_target p \<and> (\<forall>e \<in> set p. length (pe_value e) = PUBLOG_MAX_VAL)"

lemma pl_init_ok: "pl_inv publog_init" "pl_map publog_init = Map.empty"
  by (auto simp: pl_inv_def pl_map_def publog_init_def slots_distinct_replicate slot_map_replicate)

text \<open>Adding succeeds unless the log is full and lacks the target, and then only the target's
  entry changes.\<close>

lemma publog_add_slot:
  assumes "pl_inv p"
  shows "\<exists>e \<in> set p. publog_add target imm name val vlen seq now p =
    (case slot_put pe_used pe_target pe_fill pe_set target (pe_write imm name val vlen seq now e) p of
       Some p' \<Rightarrow> (0, p') | None \<Rightarrow> (-1, p))"
proof -
  have "p \<noteq> []" using assms by (auto simp: pl_inv_def PUBLOG_MAX_def)
  then have "hd p \<in> set p" by simp
  moreover have "p ! i \<in> set p" if "find_idx P p = Some i" for P i using find_idx_less [OF that] by simp
  ultimately show ?thesis
    unfolding publog_add_def slot_put_def
    by (cases "find_idx (\<lambda>e. pe_used e \<and> pe_target e = target) p"; cases "find_idx (\<lambda>e. \<not> pe_used e) p")
      (simp del: find_idx_None_iff, metis option.simps(4,5))+
qed

lemma pl_fields_found:
  assumes "pl_map p k = Some f" obtains e where "e \<in> set p" "pe_used e" "pe_target e = k" "f = pe_fields e"
proof -
  from assms obtain i where "find_idx (\<lambda>e. pe_used e \<and> pe_target e = k) p = Some i" "f = pe_fields (p ! i)" "i < length p"
    unfolding pl_map_def by (rule slot_map_found)
  then show thesis using find_idx_holds by (intro that [of "p ! i"]) fastforce+
qed

text \<open>The value an entry holds, if it fits the buffer.\<close>

definition pf_value :: "publog_fields \<Rightarrow> bytes option" where
  "pf_value = (\<lambda>(imm, name, vlen, arr, seq, t). if unat vlen \<le> PUBLOG_MAX_VAL then Some (take (unat vlen) arr) else None)"

lemma pf_value_read: "pf_value (pe_fields e) = pe_read (unat (pe_vlen e)) e"
  by (simp add: pf_value_def pe_fields_def pe_read_def)

lemma publog_add_ok:
  assumes inv: "pl_inv p" and v: "\<And>v. val = Some v \<Longrightarrow> unat vlen \<le> PUBLOG_MAX_VAL \<Longrightarrow> unat vlen \<le> length v"
    and r: "publog_add target imm name val vlen seq now p = (rc, p')"
  shows "pl_inv p'" and "rc = (if pl_map p target \<noteq> None \<or> card (dom (pl_map p)) < PUBLOG_MAX then 0 else -1)"
    and "rc \<noteq> 0 \<Longrightarrow> p' = p"
    and "rc = 0 \<Longrightarrow> \<exists>arr. length arr = PUBLOG_MAX_VAL \<and>
      pl_map p' = (pl_map p)(target \<mapsto>
        (imm, case name of Some s \<Rightarrow> take (PUBLOG_NAME - 1) (c_string s) | None \<Rightarrow> [], vlen, arr, seq, now)) \<and>
      (\<forall>w. val = Some w \<longrightarrow> unat vlen \<le> PUBLOG_MAX_VAL \<longrightarrow> take (unat vlen) arr = take (unat vlen) w)"
proof -
  have d: "slots_distinct pe_used pe_target p" "length p = PUBLOG_MAX" "\<forall>e \<in> set p. length (pe_value e) = PUBLOG_MAX_VAL"
    using inv by (simp_all add: pl_inv_def)
  obtain e where e: "e \<in> set p" "publog_add target imm name val vlen seq now p =
      (case slot_put pe_used pe_target pe_fill pe_set target (pe_write imm name val vlen seq now e) p of
         Some p' \<Rightarrow> (0, p') | None \<Rightarrow> (-1, p))"
    using publog_add_slot [OF inv, of target imm name val vlen seq now] by blast
  let ?f = "pe_write imm name val vlen seq now e"
  have arr: "length (fst (snd (snd (snd ?f)))) = PUBLOG_MAX_VAL" "pe_value (pe_set ?f x) = fst (snd (snd (snd ?f)))"
    "pe_value (pe_fill target ?f x) = fst (snd (snd (snd ?f)))" for x
    using d(3) e(1) v by (auto simp: pe_write_def pe_set_def pe_fill_def PUBLOG_MAX_VAL_def split: option.split)
  have le: "card (dom (pl_map p)) \<le> PUBLOG_MAX"
    using length_filter_le [of pe_used p] card_dom_slot_map [OF d(1), of pe_fields] d(2) by (simp add: pl_map_def)
  note f = plt.put_fails [OF d(1), of target ?f, folded pl_map_def, unfolded d(2)]
  note m = plt.put_map [OF d(1), of target ?f, folded pl_map_def]
  show "pl_inv p'"
  proof (cases "slot_put pe_used pe_target pe_fill pe_set target ?f p")
    case (Some q)
    have "\<forall>x \<in> set q. length (pe_value x) = PUBLOG_MAX_VAL"
      by (rule slot_put_all [OF Some]) (simp_all add: arr d(3))
    then show ?thesis using Some e(2) r m [OF Some] d(2) by (simp add: pl_inv_def)
  qed (use r e(2) inv in simp)
  show "rc = (if pl_map p target \<noteq> None \<or> card (dom (pl_map p)) < PUBLOG_MAX then 0 else -1)"
    using r e(2) f le by (auto split: option.splits)
  show "rc \<noteq> 0 \<Longrightarrow> p' = p" using r e(2) by (auto split: option.splits)
  assume "rc = 0"
  then have q: "slot_put pe_used pe_target pe_fill pe_set target ?f p = Some p'" using r e(2) by (auto split: option.splits)
  have "\<forall>w. val = Some w \<longrightarrow> unat vlen \<le> PUBLOG_MAX_VAL \<longrightarrow> take (unat vlen) (fst (snd (snd (snd ?f)))) = take (unat vlen) w"
    using v by (auto simp: pe_write_def)
  then show "\<exists>arr. length arr = PUBLOG_MAX_VAL \<and>
      pl_map p' = (pl_map p)(target \<mapsto>
        (imm, case name of Some s \<Rightarrow> take (PUBLOG_NAME - 1) (c_string s) | None \<Rightarrow> [], vlen, arr, seq, now)) \<and>
      (\<forall>w. val = Some w \<longrightarrow> unat vlen \<le> PUBLOG_MAX_VAL \<longrightarrow> take (unat vlen) arr = take (unat vlen) w)"
    using arr(1) m(1) [OF q] by (intro exI [of _ "fst (snd (snd (snd ?f)))"]) (simp add: pe_write_def)
qed

section \<open>A pass over the queue\<close>

definition pending :: "pubqueue \<Rightarrow> pubqueue_entry list" where
  "pending q = filter pq_used q"

fun evens :: "'a list \<Rightarrow> 'a list" where
  "evens [] = []"
| "evens [x] = [x]"
| "evens (x # y # zs) = x # evens zs"

fun odds :: "'a list \<Rightarrow> 'a list" where
  "odds (x # y # zs) = y # odds zs"
| "odds xs = []"

lemma pubqueue_get_pending: "pubqueue_get q i = (if i < length (pending q) then Some (pending q ! i) else None)"
  unfolding pubqueue_get_def pending_def by (rule nth_slot_get)

lemma pubqueue_done_pending: "i < length (pending q) \<Longrightarrow> pending (pubqueue_done i q) = take i (pending q) @ drop (Suc i) (pending q)"
  using nth_slot_None [of pq_used i q] nth_slot_clear [of pq_used i q]
  by (auto simp: pubqueue_done_def pending_def split: option.split)

lemma drain_from_pending:
  assumes "pending q = pre @ es" "length pre = i" "i + length (evens es) \<le> nq"
  shows "fst (drain_from i nq q) = map publish_of (evens es) \<and> pending (snd (drain_from i nq q)) = pre @ odds es"
  using assms
proof (induction es arbitrary: i pre q rule: evens.induct)
  case 1
  then show ?case by (subst (1 2) drain_from.simps) (simp add: pubqueue_get_pending)
next
  case (2 x)
  have "pending (pubqueue_done i q) = pre" using 2 by (simp add: pubqueue_done_pending)
  then have "pubqueue_get (pubqueue_done i q) (Suc i) = None" using 2 by (simp add: pubqueue_get_pending)
  then have n: "drain_from (Suc i) nq (pubqueue_done i q) = ([], pubqueue_done i q)" by (subst drain_from.simps) simp
  show ?case using 2 n by (subst (1 2) drain_from.simps) (auto simp: pubqueue_get_pending pubqueue_done_pending nth_append)
next
  case (3 x y zs)
  have "pending (pubqueue_done i q) = (pre @ [y]) @ zs" using 3 by (simp add: pubqueue_done_pending)
  then have ih: "fst (drain_from (Suc i) nq (pubqueue_done i q)) = map publish_of (evens zs) \<and>
      pending (snd (drain_from (Suc i) nq (pubqueue_done i q))) = (pre @ [y]) @ odds zs"
    by (rule "3.IH") (use 3 in auto)
  show ?case using 3 ih by (subst (1 2) drain_from.simps) (auto simp: pubqueue_get_pending split_beta nth_append)
qed

lemma evens_odds: "length (evens xs) \<le> length xs" "length (odds xs) = length xs div 2" "mset (evens xs) + mset (odds xs) = mset xs"
  by (induction xs rule: evens.induct) auto

lemma drain_pending: "fst (drain q) = map publish_of (evens (pending q))" "pending (snd (drain q)) = odds (pending q)"
  using drain_from_pending [of q "[]" "pending q" 0 "pubqueue_count q"] evens_odds(1) [of "pending q"]
  by (simp_all add: drain_def pubqueue_count_def pending_def)

primrec drains :: "nat \<Rightarrow> pubqueue \<Rightarrow> publish list \<times> pubqueue" where
  "drains 0 q = ([], q)"
| "drains (Suc n) q = (case drain q of (ps, q1) \<Rightarrow> case drains n q1 of (ps', q2) \<Rightarrow> (ps @ ps', q2))"

lemma drains_all:
  assumes "length (pending q) < 2 ^ n"
  shows "mset (fst (drains n q)) = image_mset publish_of (mset (pending q)) \<and> pending (snd (drains n q)) = []"
  using assms
proof (induction n arbitrary: q)
  case (Suc n)
  have "length (pending (snd (drain q))) < 2 ^ n" using Suc.prems by (simp add: drain_pending evens_odds(2))
  note ih = Suc.IH [OF this]
  have "image_mset publish_of (mset (pending q)) =
      image_mset publish_of (mset (evens (pending q))) + image_mset publish_of (mset (odds (pending q)))"
    by (simp flip: evens_odds(3) [of "pending q"])
  then show ?case using ih by (simp add: split_beta drain_pending)
qed simp

lemma drains_max:
  assumes "length q = PUBQUEUE_MAX"
  shows "mset (fst (drains 7 q)) = image_mset publish_of (mset (pending q))" "pending (snd (drains 7 q)) = []"
proof -
  have "length (pending q) < 2 ^ 7" using assms length_filter_le [of pq_used q] by (simp add: pending_def PUBQUEUE_MAX_def)
  then show "mset (fst (drains 7 q)) = image_mset publish_of (mset (pending q))" "pending (snd (drains 7 q)) = []"
    using drains_all [of q 7] by simp_all
qed

lemma pubqueue_add_length: "length (snd (pubqueue_add_immutable v q)) = length q"
  "length (snd (pubqueue_add_mutable pk sk v sq name q)) = length q"
  by (simp_all add: pubqueue_add_immutable_def pubqueue_add_mutable_def split: option.split)

section \<open>Properties\<close>

text \<open>C33: One pass over a queue of at most 64 entries does not publish every pending entry, as its
  comment says, but calls the library for exactly those at even positions, in order, and keeps
  the others in order; seven passes empty the queue, with one call for every entry that was
  pending.\<close>

theorem pubqueue_drained:
  assumes "length q = PUBQUEUE_MAX"
  shows "fst (drain q) = map publish_of (evens (pending q)) \<and> pending (snd (drain q)) = odds (pending q) \<and>
    mset (fst (drains 7 q)) = image_mset publish_of (mset (pending q)) \<and> pending (snd (drains 7 q)) = []"
  using drain_pending [of q] drains_max [OF assms] by simp

theorem pubqueue_drained_witness:
  "(let q = snd (pubqueue_add_immutable [3] (snd (pubqueue_add_immutable [2] (snd (pubqueue_add_immutable [1] pubqueue_init))))) in
     fst (drain q) = [Put_immutable [1], Put_immutable [3]] \<and>
     mset (fst (drains 7 q)) = {#Put_immutable [1], Put_immutable [2], Put_immutable [3]#})"
proof -
  let ?q = "snd (pubqueue_add_immutable [3] (snd (pubqueue_add_immutable [2] (snd (pubqueue_add_immutable [1] pubqueue_init)))))"
  have l: "length ?q = PUBQUEUE_MAX" by (simp add: pubqueue_add_length pubqueue_init_def)
  obtain e where i: "pubqueue_init = replicate 64 e" "\<not> pq_used e" by (simp add: pubqueue_init_def PUBQUEUE_MAX_def)
  have "(64 :: nat) = Suc (Suc (Suc 61))" by simp
  then have r: "replicate 64 e = e # e # e # replicate 61 e" by (simp only: replicate_Suc)
  have "map publish_of (pending ?q) = [Put_immutable [1], Put_immutable [2], Put_immutable [3]]"
    unfolding i(1) r using i(2) by (simp add: pubqueue_add_immutable_def pending_def publish_of_def PUBQUEUE_MAX_VAL_def)
  moreover from this obtain a b c where "pending ?q = [a, b, c]" by (auto simp: map_eq_Cons_conv)
  ultimately show ?thesis using pubqueue_drained [OF l] by (simp add: Let_def)
qed

end
