(* ===== verification/Norn_Served.thy ===== *)
theory Norn_Served
  imports Norn_Slots Norn_Ipc Norn_Kvstore Norn_Streammux
begin

text \<open>
  The content a node serves to its peers over a stream: the local store of
  \<open>src/nornd/localstore.c\<close>, the object store of \<open>store.c\<close>, the line protocol of
  \<open>served_proto.c\<close>, the resolution of a request in \<open>served.c\<close>, and the driver of one
  connection in \<open>served_conn.c\<close> with the two stream calls it makes, from
  \<open>norn_session.c\<close>. The file system is a map from paths to contents; SHA-256 is an
  argument. The driver's definitions return the bytes the stream has accepted. What the
  driver needs of a stream is the locale \<open>byte_sink\<close>, interpreted on the multiplexer.
\<close>

section \<open>The local store\<close>

definition LOCALSTORE_MAX_ENTRIES :: nat where "LOCALSTORE_MAX_ENTRIES = 256"
definition LOCALSTORE_MAX_KEY :: nat where "LOCALSTORE_MAX_KEY = 256"
definition LOCALSTORE_MAX_VAL :: nat where "LOCALSTORE_MAX_VAL = 4096"

record localstore_entry =
  lse_key :: bytes
  lse_val :: bytes
  lse_used :: bool

type_synonym localstore = "localstore_entry list"

definition localstore_init :: localstore where
  "localstore_init = replicate LOCALSTORE_MAX_ENTRIES \<lparr>lse_key = [], lse_val = [], lse_used = False\<rparr>"

definition lse_set :: "bytes \<Rightarrow> localstore_entry \<Rightarrow> localstore_entry" where
  "lse_set v e = e\<lparr>lse_val := v\<rparr>"

definition lse_fill :: "bytes \<Rightarrow> bytes \<Rightarrow> localstore_entry \<Rightarrow> localstore_entry" where
  "lse_fill k v e = e\<lparr>lse_key := k, lse_val := v, lse_used := True\<rparr>"

definition localstore_put :: "bytes \<Rightarrow> bytes \<Rightarrow> localstore \<Rightarrow> int \<times> localstore" where
  "localstore_put key val s =
     (if key = [] \<or> length key > LOCALSTORE_MAX_KEY \<or> length val > LOCALSTORE_MAX_VAL then (-1, s)
      else case find_idx (\<lambda>e. lse_used e \<and> lse_key e = key) s of
             Some i \<Rightarrow> (0, s[i := lse_set val (s ! i)])
           | None \<Rightarrow>
               (case find_idx (\<lambda>e. \<not> lse_used e) s of
                  Some i \<Rightarrow> (0, s[i := lse_fill key val (s ! i)])
                | None \<Rightarrow> (-1, s)))"

definition localstore_get :: "bytes \<Rightarrow> nat \<Rightarrow> localstore \<Rightarrow> bytes option" where
  "localstore_get key cap s =
     (if key = [] then None
      else case find_idx (\<lambda>e. lse_used e \<and> lse_key e = key) s of
             Some i \<Rightarrow> if length (lse_val (s ! i)) > cap then None else Some (lse_val (s ! i))
           | None \<Rightarrow> None)"

definition localstore_list :: "bytes \<Rightarrow> localstore \<Rightarrow> (bytes \<times> bytes) list option" where
  "localstore_list pre s =
     Some (map (\<lambda>e. (lse_key e, lse_val e)) (filter (\<lambda>e. lse_used e \<and> starts_with pre (lse_key e)) s))"

section \<open>The object store\<close>

definition NORND_STORE_HASH_HEX :: nat where "NORND_STORE_HASH_HEX = 64"
definition STORE_ROOT_MAX :: nat where "STORE_ROOT_MAX = 512"
definition STORE_PATH_MAX :: nat where "STORE_PATH_MAX = 600"

definition HEXSET :: bytes where "HEXSET = str ''0123456789abcdef''"

definition hex2 :: "byte \<Rightarrow> bytes" where
  "hex2 b = [HEXSET ! unat (drop_bit 4 b), HEXSET ! unat (b AND 15)]"

definition hex32 :: "bytes \<Rightarrow> bytes" where
  "hex32 d = concat (map hex2 (take 32 d))"

type_synonym files = "bytes \<rightharpoonup> bytes"

definition object_path :: "bytes \<Rightarrow> bytes \<Rightarrow> bytes" where
  "object_path root hash = root @ str ''/'' @ hash"

text \<open>The root the store keeps; \<open>made\<close> says whether the directory exists after \<open>mkdir\<close>.\<close>

definition nornd_store_init :: "bytes \<Rightarrow> bool \<Rightarrow> bytes option" where
  "nornd_store_init root made =
     (if root = [] \<or> length root \<ge> STORE_ROOT_MAX then None else if \<not> made then None else Some root)"

definition nornd_store_put :: "(bytes \<Rightarrow> bytes) \<Rightarrow> bytes \<Rightarrow> bytes \<Rightarrow> files \<Rightarrow> bytes option \<times> files" where
  "nornd_store_put sha256 root dat fs =
     (let hex = hex32 (sha256 dat); path = object_path root hex in
      if length path \<ge> STORE_PATH_MAX then (None, fs)
      else (Some hex, if fs path = None then fs(path \<mapsto> dat) else fs))"

definition nornd_store_stat :: "bytes \<Rightarrow> bytes \<Rightarrow> nat \<Rightarrow> files \<Rightarrow> (bytes \<times> nat) option" where
  "nornd_store_stat root hash pathcap fs =
     (if length hash \<noteq> NORND_STORE_HASH_HEX then None
      else if \<not> (\<forall>c \<in> set hash. c \<in> set HEXSET) then None
      else let path = object_path root hash in
        if length path \<ge> STORE_PATH_MAX then None
        else case fs path of
               None \<Rightarrow> None
             | Some d \<Rightarrow> if length path \<ge> pathcap then None else Some (path, length d))"

section \<open>The line protocol\<close>

definition NORND_SERVED_MAX_ARG :: nat where "NORND_SERVED_MAX_ARG = 256"
definition NORND_SERVED_MAX_ERR :: nat where "NORND_SERVED_MAX_ERR = 256"

datatype served_verb = NORND_SERVED_GET | NORND_SERVED_CAT | NORND_SERVED_LIST

record served_req =
  sv_verb :: served_verb
  sv_arg :: bytes

fun verb_name :: "served_verb \<Rightarrow> bytes" where
  "verb_name NORND_SERVED_GET = str ''GET''"
| "verb_name NORND_SERVED_CAT = str ''CAT''"
| "verb_name NORND_SERVED_LIST = str ''LIST''"

text \<open>The argument is a C string: it ends before its first NUL byte.\<close>

definition nornd_served_encode_req :: "served_verb \<Rightarrow> bytes \<Rightarrow> nat \<Rightarrow> bytes option" where
  "nornd_served_encode_req verb arg0 cap =
     (let arg = c_string arg0 in
      if length arg > NORND_SERVED_MAX_ARG then None
      else if arg = [] \<and> verb \<noteq> NORND_SERVED_LIST then None
      else let line = verb_name verb @ (if arg = [] then [] else 32 # arg) @ [10]
           in if length line < cap then Some line else None)"

definition trim_eol :: "bytes \<Rightarrow> bytes" where
  "trim_eol line =
     (let l = (if line \<noteq> [] \<and> last line = 10 then butlast line else line)
      in if l \<noteq> [] \<and> last l = 13 then butlast l else l)"

definition nornd_served_parse_req :: "bytes \<Rightarrow> served_req option" where
  "nornd_served_parse_req line0 =
     (let line = trim_eol line0;
          word = takeWhile (\<lambda>c. c \<noteq> 32) line;
          arg = drop (length word + 1) line;
          verb = (if word = str ''GET'' then Some NORND_SERVED_GET
                  else if word = str ''CAT'' then Some NORND_SERVED_CAT
                  else if word = str ''LIST'' then Some NORND_SERVED_LIST else None)
      in case verb of
           None \<Rightarrow> None
         | Some v \<Rightarrow>
             if length arg > NORND_SERVED_MAX_ARG then None
             else if arg = [] \<and> v \<noteq> NORND_SERVED_LIST then None
             else Some \<lparr>sv_verb = v, sv_arg = arg\<rparr>)"

definition nornd_served_encode_status :: "bool \<Rightarrow> nat \<Rightarrow> bytes option \<Rightarrow> nat \<Rightarrow> bytes option" where
  "nornd_served_encode_status ok len err cap =
     (let line = (if ok then str ''OK '' @ nat_dec len @ [10]
                  else str ''ERR '' @ (case err of Some e \<Rightarrow> e | None \<Rightarrow> str ''error'') @ [10])
      in if length line < cap then Some line else None)"

fun status_digits :: "u64 \<Rightarrow> bytes \<Rightarrow> u64 option" where
  "status_digits v [] = Some v"
| "status_digits v (c # cs) = (if is_digit c then status_digits (v * 10 + ucast (c - 48)) cs else None)"

definition nornd_served_parse_status :: "bytes \<Rightarrow> nat \<Rightarrow> (u64 + bytes) option" where
  "nornd_served_parse_status line0 errcap =
     (let line = trim_eol line0 in
      if take 3 line = str ''OK '' then
        (if length line \<le> 3 then None else map_option Inl (status_digits 0 (drop 3 line)))
      else if take 4 line = str ''ERR '' then Some (Inr (take (errcap - 1) (drop 4 line)))
      else None)"

section \<open>Resolving a request\<close>

record served_result =
  sr_ok :: bool
  sr_len :: nat
  sr_err :: bytes
  sr_stream_file :: bool
  sr_path :: bytes
  sr_inbuf :: bytes

definition result_zero :: served_result where
  "result_zero = \<lparr>sr_ok = False, sr_len = 0, sr_err = [], sr_stream_file = False, sr_path = [], sr_inbuf = []\<rparr>"

definition set_err :: "string \<Rightarrow> served_result \<Rightarrow> served_result" where
  "set_err msg r = r\<lparr>sr_ok := False, sr_err := take (NORND_SERVED_MAX_ERR - 1) (str msg)\<rparr>"

definition list_visit :: "bytes \<times> bytes \<Rightarrow> bytes \<Rightarrow> bytes" where
  "list_visit kv buf = (if length buf + length (fst kv) + 1 > NORND_IPC_MAX_VAL then buf else buf @ fst kv @ [10])"

record served_backend =
  sb_get :: "bytes \<Rightarrow> nat \<Rightarrow> bytes option"
  sb_list :: "bytes \<Rightarrow> (bytes \<times> bytes) list option"
  sb_root :: bytes

definition nornd_served_handle :: "served_backend \<Rightarrow> files \<Rightarrow> served_req \<Rightarrow> served_result" where
  "nornd_served_handle be fs req =
     (case sv_verb req of
        NORND_SERVED_GET \<Rightarrow>
          (case sb_get be (sv_arg req) NORND_IPC_MAX_VAL of
             None \<Rightarrow> set_err ''not found'' result_zero
           | Some v \<Rightarrow> result_zero\<lparr>sr_inbuf := v, sr_len := length v, sr_ok := True\<rparr>)
      | NORND_SERVED_CAT \<Rightarrow>
          (case nornd_store_stat (sb_root be) (sv_arg req) STORE_PATH_MAX fs of
             None \<Rightarrow> set_err ''not found'' result_zero
           | Some (path, len) \<Rightarrow> result_zero\<lparr>sr_path := path, sr_stream_file := True, sr_len := len, sr_ok := True\<rparr>)
      | NORND_SERVED_LIST \<Rightarrow>
          (case sb_list be (sv_arg req) of
             None \<Rightarrow> set_err ''list failed'' result_zero
           | Some kvs \<Rightarrow> let buf = fold list_visit kvs [] in result_zero\<lparr>sr_inbuf := buf, sr_len := length buf, sr_ok := True\<rparr>))"

definition served_local :: "localstore \<Rightarrow> bytes \<Rightarrow> served_backend" where
  "served_local ls root = \<lparr>sb_get = (\<lambda>k cap. localstore_get k cap ls), sb_list = (\<lambda>p. localstore_list p ls), sb_root = root\<rparr>"

section \<open>The stream calls\<close>

text \<open>
  A stream handle of \<open>norn_session.c\<close>: the multiplexer it runs on, its identifier, whether
  it is closed, and the frames the multiplexer has put out. The handle passes the time 0.
\<close>

record norn_stream =
  st_mux :: streammux
  st_id :: u16
  st_closed :: bool
  st_out :: "bytes list"

definition norn_stream_write :: "bytes \<Rightarrow> norn_stream \<Rightarrow> int \<times> norn_stream" where
  "norn_stream_write dat s =
     (if dat = [] then (-1, s)
      else if st_closed s then (-1, s)
      else case streammux_write (st_mux s) (st_id s) dat 0 of
             (n, m, outs) \<Rightarrow> (n, s\<lparr>st_mux := m, st_out := st_out s @ outs\<rparr>))"

definition norn_stream_read :: "nat \<Rightarrow> norn_stream \<Rightarrow> bytes \<times> norn_stream" where
  "norn_stream_read cap s =
     (if cap = 0 then ([], s)
      else case streammux_read (st_mux s) (st_id s) cap of (d, m) \<Rightarrow> (d, s\<lparr>st_mux := m\<rparr>))"

section \<open>One connection\<close>

datatype serve_phase = NORND_SERVE_REQ | NORND_SERVE_STATUS | NORND_SERVE_BODY | NORND_SERVE_DONE

text \<open>An open file is its contents and the position in it.\<close>

record serve_conn =
  sc_phase :: serve_phase
  sc_req :: bytes
  sc_res :: served_result
  sc_sent :: nat
  sc_catf :: "(bytes \<times> nat) option"

definition SERVE_REQ_CAP :: nat where "SERVE_REQ_CAP = NORND_SERVED_MAX_ARG + 8"
definition CAT_CHUNK :: nat where "CAT_CHUNK = 1024"

definition nornd_serve_conn_init :: serve_conn where
  "nornd_serve_conn_init =
     \<lparr>sc_phase = NORND_SERVE_REQ, sc_req = [], sc_res = result_zero, sc_sent = 0, sc_catf = None\<rparr>"

text \<open>The number of bytes taken, never negative, and the stream.\<close>

definition try_write :: "(bytes \<Rightarrow> 's \<Rightarrow> int \<times> 's) \<Rightarrow> bytes \<Rightarrow> 's \<Rightarrow> nat \<times> 's" where
  "try_write wr p s = (if p = [] then (0, s) else case wr p s of (w, s') \<Rightarrow> (if w > 0 then nat w else 0, s'))"

fun read_line :: "nat \<Rightarrow> (nat \<Rightarrow> 's \<Rightarrow> bytes \<times> 's) \<Rightarrow> bytes \<Rightarrow> 's \<Rightarrow> bytes \<times> 's" where
  "read_line 0 rd req s = (req, s)"
| "read_line (Suc n) rd req s =
     (case rd 1 s of
        ([], s') \<Rightarrow> (req, s')
      | (b # _, s') \<Rightarrow> if b = 10 then (req @ [b], s') else read_line n rd (req @ [b]) s')"

definition resolve :: "served_backend \<Rightarrow> files \<Rightarrow> serve_conn \<Rightarrow> serve_conn" where
  "resolve be fs c =
     (case nornd_served_parse_req (sc_req c) of
        None \<Rightarrow> c\<lparr>sc_res := result_zero\<lparr>sr_ok := False, sr_err := str ''bad request''\<rparr>, sc_phase := NORND_SERVE_STATUS\<rparr>
      | Some req \<Rightarrow>
          let res = nornd_served_handle be fs req in
          if sr_ok res \<and> sr_stream_file res then
            (case fs (sr_path res) of
               Some d \<Rightarrow> c\<lparr>sc_res := res, sc_catf := Some (d, 0), sc_phase := NORND_SERVE_STATUS\<rparr>
             | None \<Rightarrow> c\<lparr>sc_res := res\<lparr>sr_ok := False, sr_err := str ''open failed'', sr_stream_file := False\<rparr>,
                         sc_phase := NORND_SERVE_STATUS\<rparr>)
          else c\<lparr>sc_res := res, sc_phase := NORND_SERVE_STATUS\<rparr>)"

definition pump_req :: "(nat \<Rightarrow> 's \<Rightarrow> bytes \<times> 's) \<Rightarrow> served_backend \<Rightarrow> files \<Rightarrow> serve_conn \<Rightarrow> 's \<Rightarrow> serve_conn \<times> 's" where
  "pump_req rd be fs c s =
     (if sc_phase c = NORND_SERVE_REQ then
        (case read_line (SERVE_REQ_CAP - length (sc_req c)) rd (sc_req c) s of (req, s1) \<Rightarrow>
           let c1 = c\<lparr>sc_req := req\<rparr> in
           if req = [] \<or> last req \<noteq> 10 then
             (if length req \<ge> SERVE_REQ_CAP then c1\<lparr>sc_phase := NORND_SERVE_DONE\<rparr> else c1, s1)
           else (resolve be fs c1, s1))
      else (c, s))"

text \<open>
  The remaining stages also return the bytes the stream accepted, and \<open>Some rc\<close> when the
  pump returns at once.
\<close>

definition pump_status :: "(bytes \<Rightarrow> 's \<Rightarrow> int \<times> 's) \<Rightarrow> serve_conn \<Rightarrow> 's \<Rightarrow> bool option \<times> serve_conn \<times> 's \<times> bytes" where
  "pump_status wr c s =
     (if sc_phase c = NORND_SERVE_STATUS then
        let res = sc_res c in
        case nornd_served_encode_status (sr_ok res) (sr_len res) (if sr_ok res then None else Some (sr_err res))
               (NORND_SERVED_MAX_ERR + 32) of
          None \<Rightarrow> (Some True, c\<lparr>sc_phase := NORND_SERVE_DONE\<rparr>, s, [])
        | Some line \<Rightarrow>
            (case try_write wr line s of (w, s1) \<Rightarrow>
               if w \<noteq> length line then (Some False, c, s1, take w line)
               else (None, c\<lparr>sc_phase := if sr_ok res \<and> sr_len res > 0 then NORND_SERVE_BODY else NORND_SERVE_DONE\<rparr>,
                     s1, take w line))
      else (None, c, s, []))"

text \<open>
  The chunks of an object: the bytes just read are the next ones of the file; when none of
  them is taken the loop ends with the file position already moved. The result says whether
  the pump returns 0 at once.
\<close>

function cat_loop ::
  "(bytes \<Rightarrow> 's \<Rightarrow> int \<times> 's) \<Rightarrow> serve_conn \<Rightarrow> 's \<Rightarrow> bytes \<Rightarrow> bool \<times> serve_conn \<times> 's \<times> bytes" where
  "cat_loop wr c s acc =
     (if sc_sent c < sr_len (sc_res c) then
        (case sc_catf c of
           None \<Rightarrow> (False, c\<lparr>sc_phase := NORND_SERVE_DONE\<rparr>, s, acc)
         | Some (d, pos) \<Rightarrow>
             let want = min (sr_len (sc_res c) - sc_sent c) CAT_CHUNK;
                 buf = take want (drop pos d) in
             if buf = [] then (False, c\<lparr>sc_phase := NORND_SERVE_DONE\<rparr>, s, acc)
             else case try_write wr buf s of (w, s1) \<Rightarrow>
               if w = 0 then (True, c\<lparr>sc_catf := Some (d, pos + length buf)\<rparr>, s1, acc)
               else if w < length buf
                    then (True, c\<lparr>sc_sent := sc_sent c + w, sc_catf := Some (d, pos + w)\<rparr>, s1, acc @ take w buf)
               else cat_loop wr (c\<lparr>sc_sent := sc_sent c + w, sc_catf := Some (d, pos + length buf)\<rparr>) s1 (acc @ take w buf))
      else (False, c, s, acc))"
  by pat_completeness auto
termination cat_loop
  by (relation "measure (\<lambda>(wr, c, s, acc). sr_len (sc_res c) - sc_sent c)") (auto split: prod.splits)

function inline_loop ::
  "(bytes \<Rightarrow> 's \<Rightarrow> int \<times> 's) \<Rightarrow> serve_conn \<Rightarrow> 's \<Rightarrow> bytes \<Rightarrow> bool \<times> serve_conn \<times> 's \<times> bytes" where
  "inline_loop wr c s acc =
     (if sc_sent c < length (sr_inbuf (sc_res c)) then
        let rest = drop (sc_sent c) (sr_inbuf (sc_res c)) in
        case try_write wr rest s of (w, s1) \<Rightarrow>
          if w = 0 then (True, c, s1, acc)
          else inline_loop wr (c\<lparr>sc_sent := sc_sent c + w\<rparr>) s1 (acc @ take w rest)
      else (False, c, s, acc))"
  by pat_completeness auto
termination inline_loop
  by (relation "measure (\<lambda>(wr, c, s, acc). length (sr_inbuf (sc_res c)) - sc_sent c)") (auto split: prod.splits)

declare cat_loop.simps [simp del] inline_loop.simps [simp del]

definition pump_body :: "(bytes \<Rightarrow> 's \<Rightarrow> int \<times> 's) \<Rightarrow> serve_conn \<Rightarrow> 's \<Rightarrow> bool \<times> serve_conn \<times> 's \<times> bytes" where
  "pump_body wr c s =
     (if sc_phase c = NORND_SERVE_BODY then
        (case (if sr_stream_file (sc_res c) then cat_loop wr c s [] else inline_loop wr c s []) of (back, c1, s1, out) \<Rightarrow>
           if back then (True, c1, s1, out)
           else (False, if sc_sent c1 \<ge> sr_len (sc_res c1) then c1\<lparr>sc_phase := NORND_SERVE_DONE\<rparr> else c1, s1, out))
      else (False, c, s, []))"

definition nornd_serve_conn_pump ::
  "(nat \<Rightarrow> 's \<Rightarrow> bytes \<times> 's) \<Rightarrow> (bytes \<Rightarrow> 's \<Rightarrow> int \<times> 's) \<Rightarrow> served_backend \<Rightarrow> files \<Rightarrow> serve_conn \<Rightarrow> 's \<Rightarrow>
     bool \<times> serve_conn \<times> 's \<times> bytes" where
  "nornd_serve_conn_pump rd wr be fs c0 s0 =
     (case pump_req rd be fs c0 s0 of (c1, s1) \<Rightarrow>
      case pump_status wr c1 s1 of
        (Some rc, c2, s2, out1) \<Rightarrow> (rc, c2, s2, out1)
      | (None, c2, s2, out1) \<Rightarrow>
          (case pump_body wr c2 s2 of (back, c3, s3, out2) \<Rightarrow>
             if back then (False, c3, s3, out1 @ out2)
             else (sc_phase c3 = NORND_SERVE_DONE,
                   if sc_phase c3 = NORND_SERVE_DONE then c3\<lparr>sc_catf := None\<rparr> else c3, s3, out1 @ out2)))"

section \<open>The local store is a finite map\<close>

interpretation lst: slot_table lse_used lse_key lse_val lse_fill lse_set "\<lambda>e. e\<lparr>lse_used := False\<rparr>"
  by unfold_locales (simp_all add: lse_fill_def lse_set_def)

definition ls_map :: "localstore \<Rightarrow> (bytes \<rightharpoonup> bytes)" where
  "ls_map s = slot_map lse_used lse_key lse_val s"

definition ls_inv :: "localstore \<Rightarrow> bool" where
  "ls_inv s \<longleftrightarrow> length s = LOCALSTORE_MAX_ENTRIES \<and> slots_distinct lse_used lse_key s \<and>
     (\<forall>k v. ls_map s k = Some v \<longrightarrow> length v \<le> LOCALSTORE_MAX_VAL)"

lemma ls_init_ok: "ls_inv localstore_init" "ls_map localstore_init = Map.empty"
  by (simp_all add: ls_inv_def ls_map_def localstore_init_def slots_distinct_replicate slot_map_replicate)

lemma localstore_put_slot:
  "localstore_put key val s =
     (if key = [] \<or> length key > LOCALSTORE_MAX_KEY \<or> length val > LOCALSTORE_MAX_VAL then (-1, s)
      else case slot_put lse_used lse_key lse_fill lse_set key val s of Some s' \<Rightarrow> (0, s') | None \<Rightarrow> (-1, s))"
  by (auto simp: localstore_put_def slot_put_def simp del: find_idx_None_iff split: option.split)

definition ls_accepts :: "(bytes \<rightharpoonup> bytes) \<Rightarrow> bytes \<Rightarrow> bytes \<Rightarrow> bool" where
  "ls_accepts m k v \<longleftrightarrow> k \<noteq> [] \<and> length k \<le> LOCALSTORE_MAX_KEY \<and> length v \<le> LOCALSTORE_MAX_VAL \<and>
     (m k \<noteq> None \<or> card (dom m) < LOCALSTORE_MAX_ENTRIES)"

lemma ls_card: "ls_inv s \<Longrightarrow> card (dom (ls_map s)) \<le> LOCALSTORE_MAX_ENTRIES"
  using length_filter_le [of lse_used s] by (simp add: ls_inv_def ls_map_def card_dom_slot_map)

lemma localstore_put_ok:
  assumes "ls_inv s"
  shows "localstore_put k v s = (if ls_accepts (ls_map s) k v then 0 else -1, snd (localstore_put k v s)) \<and>
    ls_inv (snd (localstore_put k v s)) \<and>
    ls_map (snd (localstore_put k v s)) = (if ls_accepts (ls_map s) k v then (ls_map s)(k \<mapsto> v) else ls_map s)"
proof (cases "k = [] \<or> length k > LOCALSTORE_MAX_KEY \<or> length v > LOCALSTORE_MAX_VAL")
  case True
  then show ?thesis using assms by (auto simp: localstore_put_slot ls_accepts_def)
next
  case ok: False
  have d: "slots_distinct lse_used lse_key s" "length s = LOCALSTORE_MAX_ENTRIES" using assms by (simp_all add: ls_inv_def)
  note f = lst.put_fails [OF d(1), of k v, folded ls_map_def, unfolded d(2)]
  show ?thesis
  proof (cases "slot_put lse_used lse_key lse_fill lse_set k v s")
    case None
    then show ?thesis using ok f assms by (simp add: localstore_put_slot ls_accepts_def)
  next
    case (Some s')
    note p = lst.put_map [OF d(1) Some, folded ls_map_def]
    have "ls_accepts (ls_map s) k v" using f Some ok ls_card [OF assms] by (auto simp: ls_accepts_def)
    moreover have "ls_inv s'" using p d(2) assms ok by (auto simp: ls_inv_def)
    ultimately show ?thesis using Some p(1) ok by (simp add: localstore_put_slot)
  qed
qed

lemma localstore_get_ok:
  "localstore_get k cap s = (if k = [] then None else case ls_map s k of None \<Rightarrow> None | Some v \<Rightarrow> if length v > cap then None else Some v)"
  by (simp add: localstore_get_def ls_map_def slot_map_def del: find_idx_None_iff split: option.split)

section \<open>The line protocol: round trips\<close>

lemma trim_eol_snoc: "l = [] \<or> last l \<noteq> 13 \<Longrightarrow> trim_eol (l @ [10]) = l"
  by (auto simp: trim_eol_def)

lemma word_chars: "c \<in> set (verb_name v) \<Longrightarrow> c \<noteq> 32"
  by (cases v) (auto simp: str_def)

lemma takeWhile_word: "takeWhile (\<lambda>c. c \<noteq> 32) (verb_name v @ 32 # arg) = verb_name v"
  "takeWhile (\<lambda>c. c \<noteq> 32) (verb_name v) = verb_name v"
  by (simp_all add: takeWhile_append2 word_chars takeWhile_eq_all_conv)

lemma verb_name_ne: "verb_name v \<noteq> []" "last (verb_name v) \<noteq> 13"
  by (cases v; simp add: str_def)+

lemma verb_of_name:
  "(if verb_name v = str ''GET'' then Some NORND_SERVED_GET else if verb_name v = str ''CAT'' then Some NORND_SERVED_CAT
    else if verb_name v = str ''LIST'' then Some NORND_SERVED_LIST else None) = Some v"
  by (cases v) simp_all

lemma served_req_round_trip:
  assumes "nornd_served_encode_req v arg0 cap = Some line" "c_string arg0 = arg" "arg = [] \<or> last arg \<noteq> 13"
  shows "nornd_served_parse_req line = Some \<lparr>sv_verb = v, sv_arg = arg\<rparr>"
proof -
  let ?l = "verb_name v @ (if arg = [] then [] else 32 # arg)"
  have line: "line = ?l @ [10]" "length arg \<le> NORND_SERVED_MAX_ARG" "arg = [] \<Longrightarrow> v = NORND_SERVED_LIST"
    using assms(1,2) by (auto simp: nornd_served_encode_req_def Let_def split: if_splits)
  have "trim_eol line = ?l" unfolding line(1) using assms(3) verb_name_ne [of v] by (intro trim_eol_snoc) (auto split: if_splits)
  moreover have "takeWhile (\<lambda>c. c \<noteq> 32) ?l = verb_name v" "drop (length (verb_name v) + 1) ?l = arg"
    using takeWhile_word [of v] by (auto split: if_splits)
  ultimately show ?thesis using line(2,3)
    by (simp only: nornd_served_parse_req_def Let_def verb_of_name) auto
qed

lemma status_digits_app: "status_digits v (a @ b) = (case status_digits v a of None \<Rightarrow> None | Some w \<Rightarrow> status_digits w b)"
  by (induction a arbitrary: v) auto

lemma status_digits_val: "\<forall>c \<in> set ds. is_digit c \<Longrightarrow> status_digits (word_of_nat a) ds = Some (word_of_nat (dval a ds))"
proof (induction ds arbitrary: a)
  case (Cons c cs)
  have "word_of_nat a * 10 + ucast (c - 48) = (word_of_nat (a * 10 + unat (c - 48)) :: u64)"
    by simp
  then show ?case using Cons by (simp del: of_nat_add of_nat_mult)
qed simp

lemma status_ok_round_trip:
  assumes "nornd_served_encode_status True len err cap = Some line"
  shows "nornd_served_parse_status line ecap = Some (Inl (word_of_nat len))"
proof -
  have line: "line = (str ''OK '' @ nat_dec len) @ [10]" using assms by (auto simp: nornd_served_encode_status_def split: if_splits)
  have d: "\<forall>c \<in> set (nat_dec len). is_digit c" "nat_dec len \<noteq> []" "dval 0 (nat_dec len) = len"
    using nat_dec_digits [of len] by auto
  have "is_digit (last (nat_dec len))" using d(1,2) by simp
  then have "last (nat_dec len) \<noteq> 13" by (auto simp: is_digit_def)
  then have t: "trim_eol line = str ''OK '' @ nat_dec len" unfolding line using d(2) by (intro trim_eol_snoc) simp
  have "status_digits 0 (nat_dec len) = Some (word_of_nat len)" using status_digits_val [OF d(1), of 0] d(3) by simp
  moreover have "length (str ''OK '') = 3" by simp
  ultimately show ?thesis using d(2) by (simp add: nornd_served_parse_status_def Let_def t)
qed

lemma status_err_round_trip:
  assumes "nornd_served_encode_status False len (Some e) cap = Some line" "e = [] \<or> last e \<noteq> 13" "length e < ecap"
  shows "nornd_served_parse_status line ecap = Some (Inr e)"
proof -
  have line: "line = (str ''ERR '' @ e) @ [10]" using assms(1) by (auto simp: nornd_served_encode_status_def split: if_splits)
  have t: "trim_eol line = str ''ERR '' @ e" unfolding line using assms(2) by (intro trim_eol_snoc) (auto simp: str_def)
  have "take 3 (str ''ERR '' @ e) = str ''ERR''" "length (str ''ERR '') = 4" by (simp_all add: str_def)
  moreover have "str ''ERR'' \<noteq> str ''OK ''" by simp
  ultimately show ?thesis using assms(3) by (simp add: nornd_served_parse_status_def Let_def t)
qed

section \<open>The object store: content addressing\<close>

lemma hexset: "length HEXSET = 16" "HEXSET ! i \<in> set HEXSET" if "i < 16"
  using that by (simp_all add: HEXSET_def)

lemma hexset_distinct: "distinct HEXSET"
  by code_simp

lemma nibble: "unat (drop_bit 4 (b :: byte)) < 16" "unat (b AND 15) < 16"
proof -
  have "unat (drop_bit 4 b) = unat b div 16" by (simp add: unat_drop_bit_eq drop_bit_eq_div unat_div)
  then show "unat (drop_bit 4 b) < 16" using unsigned_less [of b, where ?'a = nat] by simp
  have "b AND 15 \<le> 15" by (rule word_and_le1)
  then show "unat (b AND 15) < 16" by (simp add: word_le_nat_alt)
qed

lemma hex2_chars: "set (hex2 b) \<subseteq> set HEXSET" "length (hex2 b) = 2"
  using hexset(2) [OF nibble(1)] hexset(2) [OF nibble(2)] by (simp_all add: hex2_def)

lemma hex32_chars: "set (hex32 d) \<subseteq> set HEXSET"
  using hex2_chars(1) by (fastforce simp: hex32_def)

lemma length_hex: "length (concat (map hex2 d)) = 2 * length d"
  by (induction d) (simp_all add: hex2_chars(2))

lemma hex32_len: "length d = 32 \<Longrightarrow> length (hex32 d) = 64"
  by (simp add: hex32_def length_hex)

lemma nibble_eq: "drop_bit 4 a = drop_bit 4 b \<Longrightarrow> a AND 15 = b AND 15 \<Longrightarrow> a = (b :: byte)"
proof -
  assume h: "drop_bit 4 a = drop_bit 4 b" "a AND 15 = b AND 15"
  have m: "(15 :: byte) = mask 4" by (simp add: mask_eq_exp_minus_1)
  have "a = push_bit 4 (drop_bit 4 a) OR take_bit 4 a" by (rule bit_eqI) (auto simp: bit_simps)
  also have "\<dots> = push_bit 4 (drop_bit 4 b) OR take_bit 4 b" using h by (simp add: take_bit_eq_mask m)
  also have "\<dots> = b" by (rule bit_eqI) (auto simp: bit_simps)
  finally show ?thesis .
qed

lemma hex_nth_inj: "i < 16 \<Longrightarrow> j < 16 \<Longrightarrow> HEXSET ! i = HEXSET ! j \<Longrightarrow> i = j"
  using nth_eq_iff_index_eq [OF hexset_distinct] hexset(1) [of 0] by simp

lemma hex2_inj: "hex2 a = hex2 b \<Longrightarrow> a = b"
proof -
  assume h: "hex2 a = hex2 b"
  have "HEXSET ! unat (drop_bit 4 a) = HEXSET ! unat (drop_bit 4 b)" "HEXSET ! unat (a AND 15) = HEXSET ! unat (b AND 15)"
    using h unfolding hex2_def list.inject by blast+
  note e = hex_nth_inj [OF nibble(1) nibble(1) this(1)] hex_nth_inj [OF nibble(2) nibble(2) this(2)]
  show "a = b" by (rule nibble_eq) (rule word_unat_eq_iff [THEN iffD2], rule e)+
qed

lemma hex_inj: "concat (map hex2 xs) = concat (map hex2 ys) \<Longrightarrow> xs = ys"
proof -
  assume h: "concat (map hex2 xs) = concat (map hex2 ys)"
  have l: "length xs = length ys" using arg_cong [OF h, of length] unfolding length_hex by simp
  have "map hex2 xs = map hex2 ys"
    using h l by (intro concat_injective) (auto simp: zip_map_map hex2_chars(2))
  then show "xs = ys" by (rule map_injective) (simp add: inj_def hex2_inj)
qed

lemma hex32_inj: "length a = 32 \<Longrightarrow> length b = 32 \<Longrightarrow> hex32 a = hex32 b \<Longrightarrow> a = b"
  using hex_inj [of a b] by (simp add: hex32_def)

lemma object_path_inj: "object_path r a = object_path r b \<longleftrightarrow> a = b"
  by (simp add: object_path_def)

text \<open>
  What the store relies on: digests have 32 bytes, and no two of the objects that were put
  have the same one.
\<close>

definition sha256_ok :: "(bytes \<Rightarrow> bytes) \<Rightarrow> bytes set \<Rightarrow> bool" where
  "sha256_ok h ds \<longleftrightarrow> (\<forall>d. length (h d) = 32) \<and> inj_on h ds"

definition store_puts :: "(bytes \<Rightarrow> bytes) \<Rightarrow> bytes \<Rightarrow> bytes list \<Rightarrow> files \<Rightarrow> files" where
  "store_puts h root ds fs = fold (\<lambda>d fs. snd (nornd_store_put h root d fs)) ds fs"

definition no_objects :: "bytes \<Rightarrow> files \<Rightarrow> bool" where
  "no_objects root fs \<longleftrightarrow> (\<forall>x. fs (object_path root x) = None)"

lemma store_puts_content:
  assumes "sha256_ok h D" "set ds \<subseteq> D" "length root < STORE_ROOT_MAX"
    "\<forall>d \<in> D. fs (object_path root (hex32 (h d))) \<in> {None, Some d}"
  shows "\<forall>d \<in> D. store_puts h root ds fs (object_path root (hex32 (h d))) \<in> {None, Some d} \<and>
    (d \<in> set ds \<or> fs (object_path root (hex32 (h d))) = Some d \<longrightarrow>
       store_puts h root ds fs (object_path root (hex32 (h d))) = Some d)"
  using assms(2,4)
proof (induction ds arbitrary: fs)
  case Nil
  then show ?case by (simp add: store_puts_def)
next
  case (Cons e ds)
  let ?p = "\<lambda>d. object_path root (hex32 (h d))"
  have short: "length (?p e) < STORE_PATH_MAX"
    using assms(1,3) hex32_len by (simp add: object_path_def STORE_ROOT_MAX_def STORE_PATH_MAX_def sha256_ok_def)
  have put: "snd (nornd_store_put h root e fs) = (if fs (?p e) = None then fs(?p e \<mapsto> e) else fs)"
    using short by (simp add: nornd_store_put_def Let_def)
  have eq: "?p d = ?p e \<longleftrightarrow> d = e" if "d \<in> D" for d
    using that Cons.prems(1) assms(1) hex32_inj [of "h d" "h e"] by (auto simp: object_path_inj sha256_ok_def dest: inj_onD)
  have "\<forall>d \<in> D. snd (nornd_store_put h root e fs) (?p d) \<in> {None, Some d}" using Cons.prems(2) eq unfolding put by auto
  from Cons.IH [OF _ this] Cons.prems have IH: "\<forall>d \<in> D. store_puts h root (e # ds) fs (?p d) \<in> {None, Some d} \<and>
      (d \<in> set ds \<or> snd (nornd_store_put h root e fs) (?p d) = Some d \<longrightarrow> store_puts h root (e # ds) fs (?p d) = Some d)"
    by (simp add: store_puts_def)
  have e: "snd (nornd_store_put h root e fs) (?p e) = Some e" using Cons.prems unfolding put by auto
  have "snd (nornd_store_put h root e fs) (?p d) = Some d" if "d \<in> D" "fs (?p d) = Some d" for d
    using that eq unfolding put by auto
  then show ?case using IH e Cons.prems(1) by auto
qed

lemma store_put_stat:
  assumes "sha256_ok h (set ds)" "no_objects root fs" "length root < STORE_ROOT_MAX" "d \<in> set ds"
  shows "nornd_store_stat root (hex32 (h d)) STORE_PATH_MAX (store_puts h root ds fs) =
      Some (object_path root (hex32 (h d)), length d) \<and>
    store_puts h root ds fs (object_path root (hex32 (h d))) = Some d"
proof -
  have "store_puts h root ds fs (object_path root (hex32 (h d))) = Some d"
    using store_puts_content [OF assms(1) order_refl assms(3)] assms(2,4) by (simp add: no_objects_def)
  moreover have "length (object_path root (hex32 (h d))) < STORE_PATH_MAX" "length (hex32 (h d)) = 64"
    using assms(1,3) hex32_len by (simp_all add: object_path_def STORE_ROOT_MAX_def STORE_PATH_MAX_def sha256_ok_def)
  ultimately show ?thesis using hex32_chars [of "h d"]
    by (auto simp: nornd_store_stat_def Let_def NORND_STORE_HASH_HEX_def)
qed

section \<open>The driver over any stream\<close>

lemma seg_join: "m + w \<le> n \<Longrightarrow> take w (drop m b) @ drop (m + w) (take n b) = drop m (take n b)"
proof -
  assume "m + w \<le> n"
  then have "drop m (take n b) = take (w + (n - (m + w))) (drop m b)" by (simp add: drop_take)
  also have "\<dots> = take w (drop m b) @ take (n - (m + w)) (drop (m + w) b)" by (simp add: take_add add.commute)
  finally show ?thesis by (simp add: drop_take)
qed

text \<open>What a request line is answered with.\<close>

definition served_answer :: "served_backend \<Rightarrow> files \<Rightarrow> bytes \<Rightarrow> served_result" where
  "served_answer be fs req = sc_res (resolve be fs (nornd_serve_conn_init\<lparr>sc_req := req\<rparr>))"

definition status_line :: "served_result \<Rightarrow> bytes" where
  "status_line r = (if sr_ok r then str ''OK '' @ nat_dec (sr_len r) @ [10] else str ''ERR '' @ sr_err r @ [10])"

definition inline_response :: "served_result \<Rightarrow> bytes" where
  "inline_response r = status_line r @ (if sr_ok r then sr_inbuf r else [])"

lemma encode_status_line:
  "nornd_served_encode_status (sr_ok r) (sr_len r) (if sr_ok r then None else Some (sr_err r)) cap =
     (if length (status_line r) < cap then Some (status_line r) else None)"
  by (simp add: nornd_served_encode_status_def status_line_def Let_def)

lemma resolve_ok:
  "sc_res (resolve be fs c) = served_answer be fs (sc_req c)" "sc_phase (resolve be fs c) = NORND_SERVE_STATUS"
  "sc_req (resolve be fs c) = sc_req c" "sc_sent (resolve be fs c) = sc_sent c"
  by (simp_all add: served_answer_def resolve_def Let_def nornd_serve_conn_init_def split: option.split)

lemma handle_inline_len:
  "sr_ok (nornd_served_handle be fs req) \<Longrightarrow> \<not> sr_stream_file (nornd_served_handle be fs req) \<Longrightarrow>
     sr_len (nornd_served_handle be fs req) = length (sr_inbuf (nornd_served_handle be fs req))"
  by (auto simp: nornd_served_handle_def set_err_def result_zero_def Let_def split: served_verb.splits option.splits)

lemma answer_inline_len:
  assumes "sr_ok (served_answer be fs req)" "\<not> sr_stream_file (served_answer be fs req)"
  shows "sr_len (served_answer be fs req) = length (sr_inbuf (served_answer be fs req))"
  using assms handle_inline_len [of be fs]
  by (auto simp: served_answer_def resolve_def Let_def result_zero_def split: option.splits if_splits)

text \<open>A request that was read whole, its answer, and how much of it the stream has.\<close>

definition served_inv :: "served_backend \<Rightarrow> files \<Rightarrow> serve_conn \<Rightarrow> bytes \<Rightarrow> bool" where
  "served_inv be fs c acc \<longleftrightarrow>
     (let whole = (sc_req c \<noteq> [] \<and> last (sc_req c) = 10 \<and> sc_res c = served_answer be fs (sc_req c)) in
      case sc_phase c of
        NORND_SERVE_REQ \<Rightarrow> acc = [] \<and> sc_sent c = 0
      | NORND_SERVE_STATUS \<Rightarrow> whole \<and> acc = [] \<and> sc_sent c = 0
      | NORND_SERVE_BODY \<Rightarrow> whole \<and> sr_ok (sc_res c) \<and>
          (\<not> sr_stream_file (sc_res c) \<longrightarrow> sc_sent c \<le> length (sr_inbuf (sc_res c)) \<and>
             acc = status_line (sc_res c) @ take (sc_sent c) (sr_inbuf (sc_res c)))
      | NORND_SERVE_DONE \<Rightarrow>
          acc = [] \<and> (sc_req c = [] \<or> last (sc_req c) \<noteq> 10 \<or>
                     whole \<and> length (status_line (sc_res c)) \<ge> NORND_SERVED_MAX_ERR + 32) \<or>
          whole \<and> (\<not> sr_stream_file (sc_res c) \<longrightarrow> acc = inline_response (sc_res c)))"

text \<open>
  Pumps of one connection, each with the stream in whatever state it then is, and the bytes
  the stream has taken so far. A pump is untorn if the stream took the status line whole or
  not at all; after a partial write the code would send the line again from its start.
\<close>

definition untorn ::
  "(nat \<Rightarrow> 's \<Rightarrow> bytes \<times> 's) \<Rightarrow> (bytes \<Rightarrow> 's \<Rightarrow> int \<times> 's) \<Rightarrow> served_backend \<Rightarrow> files \<Rightarrow> serve_conn \<Rightarrow> 's \<Rightarrow> bool" where
  "untorn rd wr be fs c s =
     (case pump_req rd be fs c s of (c1, s1) \<Rightarrow> case pump_status wr c1 s1 of (rc, c2, s2, out) \<Rightarrow> out = [] \<or> rc \<noteq> Some False)"

inductive served_run ::
  "(nat \<Rightarrow> 's \<Rightarrow> bytes \<times> 's) \<Rightarrow> (bytes \<Rightarrow> 's \<Rightarrow> int \<times> 's) \<Rightarrow> served_backend \<Rightarrow> files \<Rightarrow> serve_conn \<Rightarrow> bytes \<Rightarrow> bool"
  for rd wr be fs where
  served_run_init: "served_run rd wr be fs nornd_serve_conn_init []"
| served_run_pump: "served_run rd wr be fs c acc \<Longrightarrow> untorn rd wr be fs c s \<Longrightarrow>
    nornd_serve_conn_pump rd wr be fs c s = (done, c', s', out) \<Longrightarrow> served_run rd wr be fs c' (acc @ out)"

text \<open>All the driver needs of the stream: it never takes more bytes than it is offered.\<close>

locale byte_sink =
  fixes wr :: "bytes \<Rightarrow> 's \<Rightarrow> int \<times> 's"
  assumes wr_le: "wr p s = (w, s') \<Longrightarrow> w \<le> int (length p)"
begin

lemma try_write_le: "try_write wr p s = (w, s') \<Longrightarrow> w \<le> length p"
  using wr_le [of p s] by (auto simp: try_write_def split: prod.splits if_splits)

lemma inline_loop_ok:
  assumes "inline_loop wr c s acc = (back, c', s', out)" "sc_sent c \<le> length (sr_inbuf (sc_res c))"
  shows "c' = c\<lparr>sc_sent := sc_sent c'\<rparr> \<and> sc_sent c \<le> sc_sent c' \<and> sc_sent c' \<le> length (sr_inbuf (sc_res c)) \<and>
    out = acc @ drop (sc_sent c) (take (sc_sent c') (sr_inbuf (sc_res c))) \<and>
    (\<not> back \<longrightarrow> sc_sent c' = length (sr_inbuf (sc_res c)))"
  using assms
proof (induction "length (sr_inbuf (sc_res c)) - sc_sent c" arbitrary: c s acc rule: less_induct)
  case less
  let ?b = "sr_inbuf (sc_res c)" and ?rest = "drop (sc_sent c) (sr_inbuf (sc_res c))"
  obtain w s1 where w: "try_write wr ?rest s = (w, s1)" by fastforce
  note l = less.prems(1) [unfolded inline_loop.simps [of wr c] Let_def w prod.case]
  show ?case
  proof (cases "sc_sent c < length ?b \<and> w \<noteq> 0")
    case False
    then show ?thesis using l less.prems(2) by (cases "sc_sent c < length ?b") auto
  next
    case True
    let ?c = "c\<lparr>sc_sent := sc_sent c + w\<rparr>"
    have r: "inline_loop wr ?c s1 (acc @ take w ?rest) = (back, c', s', out)" using l True by simp
    have le: "sc_sent c + w \<le> length ?b" using try_write_le [OF w] True by auto
    have m: "length (sr_inbuf (sc_res ?c)) - sc_sent ?c < length ?b - sc_sent c" using True by auto
    have "c' = ?c\<lparr>sc_sent := sc_sent c'\<rparr> \<and> sc_sent ?c \<le> sc_sent c' \<and> sc_sent c' \<le> length ?b \<and>
        out = (acc @ take w ?rest) @ drop (sc_sent ?c) (take (sc_sent c') ?b) \<and> (\<not> back \<longrightarrow> sc_sent c' = length ?b)"
      using less.hyps [OF m r] le by simp
    then show ?thesis using seg_join [of "sc_sent c" w "sc_sent c'" ?b] by auto
  qed
qed

lemma pump_status_ok:
  assumes "pump_status wr c s = (rc, c', s', out)" "sc_phase c = NORND_SERVE_STATUS" "out = [] \<or> rc \<noteq> Some False"
  shows "(rc = Some True \<and> c' = c\<lparr>sc_phase := NORND_SERVE_DONE\<rparr> \<and> out = [] \<and>
      length (status_line (sc_res c)) \<ge> NORND_SERVED_MAX_ERR + 32) \<or> (rc = Some False \<and> c' = c \<and> out = []) \<or>
    (rc = None \<and> out = status_line (sc_res c) \<and>
      c' = c\<lparr>sc_phase := if sr_ok (sc_res c) \<and> sr_len (sc_res c) > 0 then NORND_SERVE_BODY else NORND_SERVE_DONE\<rparr>)"
  using assms unfolding pump_status_def Let_def encode_status_line by (auto split: if_splits prod.splits)

lemma pump_req_inv:
  assumes "served_inv be fs c acc" "pump_req rd be fs c s = (c', s')"
  shows "served_inv be fs c' acc"
  using assms resolve_ok [of be fs]
  by (auto simp: served_inv_def pump_req_def Let_def split: if_splits prod.splits serve_phase.splits)

lemma pump_status_inv:
  assumes i: "served_inv be fs c acc" and r: "pump_status wr c s = (rc, c', s', out)" and u: "out = [] \<or> rc \<noteq> Some False"
  shows "served_inv be fs c' (acc @ out)"
proof (cases "sc_phase c = NORND_SERVE_STATUS")
  case True
  have w: "sc_req c \<noteq> []" "last (sc_req c) = 10" "sc_res c = served_answer be fs (sc_req c)" "acc = []" "sc_sent c = 0"
    using i True by (auto simp: served_inv_def Let_def)
  have e: "sr_ok (sc_res c) \<Longrightarrow> sr_len (sc_res c) = 0 \<Longrightarrow> \<not> sr_stream_file (sc_res c) \<Longrightarrow> sr_inbuf (sc_res c) = []"
    using answer_inline_len [of be fs "sc_req c"] w(3) by simp
  show ?thesis using pump_status_ok [OF r True u] w e True
    by (auto simp: served_inv_def Let_def inline_response_def split: if_splits)
next
  case False
  then show ?thesis using i r by (auto simp: pump_status_def)
qed

lemma cat_loop_file: "cat_loop wr c s acc = (back, c', s', out) \<Longrightarrow> sc_res c' = sc_res c \<and> sc_req c' = sc_req c \<and>
    sc_phase c' \<in> {sc_phase c, NORND_SERVE_DONE}"
proof (induction "sr_len (sc_res c) - sc_sent c" arbitrary: c s acc rule: less_induct)
  case less
  show ?case
  proof (cases "sc_sent c < sr_len (sc_res c) \<and> (\<exists>d pos. sc_catf c = Some (d, pos))")
    case False
    then show ?thesis using less.prems by (subst (asm) cat_loop.simps) (auto split: if_splits option.splits)
  next
    case True
    then obtain d pos where f: "sc_sent c < sr_len (sc_res c)" "sc_catf c = Some (d, pos)" by blast
    define buf where "buf = take (min (sr_len (sc_res c) - sc_sent c) CAT_CHUNK) (drop pos d)"
    obtain w s1 where w: "try_write wr buf s = (w, s1)" by fastforce
    note l = less.prems [unfolded cat_loop.simps [of wr c] Let_def f(2) option.case prod.case, folded buf_def, unfolded w prod.case]
    show ?thesis
    proof (cases "buf \<noteq> [] \<and> w \<noteq> 0 \<and> \<not> w < length buf")
      case True
      let ?c = "c\<lparr>sc_sent := sc_sent c + w, sc_catf := Some (d, pos + length buf)\<rparr>"
      have "cat_loop wr ?c s1 (acc @ take w buf) = (back, c', s', out)" using l f(1) True by simp
      moreover have "sr_len (sc_res ?c) - sc_sent ?c < sr_len (sc_res c) - sc_sent c" using f(1) True by auto
      ultimately show ?thesis using less.hyps [of ?c] by simp
    next
      case False
      then show ?thesis using l f(1) by (auto split: if_splits)
    qed
  qed
qed

text \<open>What one pump sends of an object is a contiguous piece from the file position on.\<close>

lemma cat_loop_out:
  assumes "cat_loop wr c s acc = (back, c', s', out)" "sc_catf c = Some (d, pos)"
  shows "\<exists>n. out = acc @ take n (drop pos d)"
  using assms
proof (induction "sr_len (sc_res c) - sc_sent c" arbitrary: c s acc pos rule: less_induct)
  case less
  define buf where "buf = take (min (sr_len (sc_res c) - sc_sent c) CAT_CHUNK) (drop pos d)"
  obtain w s1 where w: "try_write wr buf s = (w, s1)" by fastforce
  note l = less.prems(1) [unfolded cat_loop.simps [of wr c] Let_def less.prems(2) option.case prod.case, folded buf_def, unfolded w prod.case]
  have pre: "take w buf = take (min w (min (sr_len (sc_res c) - sc_sent c) CAT_CHUNK)) (drop pos d)" by (simp add: buf_def)
  show ?case
  proof (cases "sc_sent c < sr_len (sc_res c) \<and> buf \<noteq> [] \<and> w \<noteq> 0 \<and> \<not> w < length buf")
    case True
    let ?c = "c\<lparr>sc_sent := sc_sent c + w, sc_catf := Some (d, pos + length buf)\<rparr>"
    have r: "cat_loop wr ?c s1 (acc @ take w buf) = (back, c', s', out)" using l True by simp
    have m: "sr_len (sc_res ?c) - sc_sent ?c < sr_len (sc_res c) - sc_sent c" using True by auto
    obtain n where n: "out = (acc @ take w buf) @ take n (drop (pos + length buf) d)" using less.hyps [OF m r] by auto
    have "take w buf = buf" using True by simp
    also have "buf = take (length buf) (drop pos d)" unfolding buf_def by (metis append_eq_conv_conj append_take_drop_id)
    finally have "out = acc @ take (length buf + n) (drop pos d)" using n by (simp add: take_add add.commute [of pos])
    then show ?thesis by blast
  next
    case False
    then have "out = acc \<or> out = acc @ take w buf" using l by (auto split: if_splits)
    then show ?thesis using pre by (metis append_Nil2 take0)
  qed
qed

lemma pump_body_inv:
  assumes i: "served_inv be fs c acc" and r: "pump_body wr c s = (back, c', s', out)"
  shows "served_inv be fs c' (acc @ out)"
proof (cases "sc_phase c = NORND_SERVE_BODY")
  case body: True
  have w: "sc_req c \<noteq> []" "last (sc_req c) = 10" "sc_res c = served_answer be fs (sc_req c)" "sr_ok (sc_res c)"
    "\<not> sr_stream_file (sc_res c) \<Longrightarrow> sc_sent c \<le> length (sr_inbuf (sc_res c)) \<and>
       acc = status_line (sc_res c) @ take (sc_sent c) (sr_inbuf (sc_res c))"
    using i body by (auto simp: served_inv_def Let_def)
  show ?thesis
  proof (cases "sr_stream_file (sc_res c)")
    case True
    obtain bk c1 s1 o1 where l: "cat_loop wr c s [] = (bk, c1, s1, o1)" by (rule prod_cases4)
    show ?thesis using r cat_loop_file [OF l] w(1-4) True body l
      by (auto simp: pump_body_def served_inv_def Let_def split: if_splits)
  next
    case False
    obtain bk c1 s1 o1 where l: "inline_loop wr c s [] = (bk, c1, s1, o1)" by (rule prod_cases4)
    have n: "sr_len (sc_res c) = length (sr_inbuf (sc_res c))" using answer_inline_len [of be fs "sc_req c"] w(3,4) False by simp
    note k = inline_loop_ok [OF l conjunct1 [OF w(5) [OF False]]]
    have c1: "sc_req c1 = sc_req c" "sc_res c1 = sc_res c" "sc_phase c1 = NORND_SERVE_BODY"
      using body by (subst conjunct1 [OF k], simp)+
    have a: "acc @ o1 = status_line (sc_res c) @ take (sc_sent c1) (sr_inbuf (sc_res c))"
      using w(5) [OF False] k seg_join [of 0 "sc_sent c" "sc_sent c1" "sr_inbuf (sc_res c)"] by auto
    show ?thesis
    proof (cases bk)
      case True
      then have "c' = c1" "out = o1" using r l body False by (auto simp: pump_body_def)
      then show ?thesis using a c1 w k False by (simp add: served_inv_def)
    next
      case nb: False
      then have "c' = c1\<lparr>sc_phase := NORND_SERVE_DONE\<rparr>" "out = o1" "sc_sent c1 = length (sr_inbuf (sc_res c))"
        using r l body False k n c1 by (auto simp: pump_body_def)
      then show ?thesis using a c1 w False by (simp add: served_inv_def inline_response_def)
    qed
  qed
next
  case False
  then show ?thesis using i r by (auto simp: pump_body_def)
qed

lemma pump_inv:
  assumes i: "served_inv be fs c acc" and u: "untorn rd wr be fs c s"
    and p: "nornd_serve_conn_pump rd wr be fs c s = (dn, c', s', out)"
  shows "served_inv be fs c' (acc @ out)"
proof -
  obtain c1 s1 where q: "pump_req rd be fs c s = (c1, s1)" by fastforce
  obtain rc c2 s2 o1 where t: "pump_status wr c1 s1 = (rc, c2, s2, o1)" by (rule prod_cases4)
  obtain bk c3 s3 o2 where b: "pump_body wr c2 s2 = (bk, c3, s3, o2)" by (rule prod_cases4)
  have i2: "served_inv be fs c2 (acc @ o1)"
    using pump_status_inv [OF pump_req_inv [OF i q] t] u q t by (simp add: untorn_def)
  have i3: "served_inv be fs c3 (acc @ o1 @ o2)" using pump_body_inv [OF i2 b] by simp
  have f: "served_inv be fs (c3\<lparr>sc_catf := None\<rparr>) a = served_inv be fs c3 a" for a
    by (simp add: served_inv_def Let_def split: serve_phase.split)
  show ?thesis using p i2 i3 f q t b by (auto simp: nornd_serve_conn_pump_def split: option.splits if_splits)
qed

lemma run_inv: "served_run rd wr be fs c acc \<Longrightarrow> served_inv be fs c acc"
proof (induction rule: served_run.induct)
  case served_run_init
  show ?case by (simp add: served_inv_def nornd_serve_conn_init_def)
next
  case (served_run_pump c acc s dn c' s' out)
  then show ?case using pump_inv by blast
qed

end

section \<open>The multiplexed stream is such a sink\<close>

lemma streammux_write_le: "streammux_write m sid dat now = (n, m', outs) \<Longrightarrow> n \<le> int (length dat)"
  by (auto simp: streammux_write_def stream_write_def Let_def split: option.splits prod.splits)

interpretation nss: byte_sink norn_stream_write
proof
  show "w \<le> int (length p)" if "norn_stream_write p s = (w, s')" for p s w s'
    using that streammux_write_le by (auto simp: norn_stream_write_def split: if_splits prod.splits)
qed

lemma answer_err_len: "length (sr_err (served_answer be fs req)) < NORND_SERVED_MAX_ERR"
  by (auto simp: served_answer_def resolve_def nornd_served_handle_def set_err_def result_zero_def Let_def NORND_SERVED_MAX_ERR_def
      split: option.splits served_verb.splits)

lemma answer_status_fits:
  assumes "sr_ok (served_answer be fs req) \<Longrightarrow> sr_len (served_answer be fs req) < 2 ^ 64"
  shows "length (status_line (served_answer be fs req)) < NORND_SERVED_MAX_ERR + 32"
  using assms answer_err_len [of be fs req] length_nat_dec [of "sr_len (served_answer be fs req)" 20]
  by (auto simp: status_line_def NORND_SERVED_MAX_ERR_def)

lemma get_answer:
  assumes "nornd_served_parse_req line = Some \<lparr>sv_verb = NORND_SERVED_GET, sv_arg = k\<rparr>"
  shows "served_answer be fs line = (case sb_get be k NORND_IPC_MAX_VAL of None \<Rightarrow> set_err ''not found'' result_zero
    | Some v \<Rightarrow> result_zero\<lparr>sr_inbuf := v, sr_len := length v, sr_ok := True\<rparr>)"
  using assms by (auto simp: served_answer_def resolve_def nornd_served_handle_def set_err_def result_zero_def
      nornd_serve_conn_init_def Let_def split: option.split)

text \<open>When the driver of a served connection reports that it is done, whatever the stream took
  of each write (the status line excepted, which must not be torn), the stream has been given,
  for a request that is not for a file, exactly the status line and the payload that the
  request's answer consists of, in order and once; unless the request line did not fit its
  buffer, in which case nothing was sent.\<close>

lemma served_inline_delivered:
  assumes "served_run rd norn_stream_write be fs c acc" "sc_phase c = NORND_SERVE_DONE"
  shows "(if sc_req c = [] \<or> last (sc_req c) \<noteq> 10 then acc = []
    else \<not> sr_stream_file (served_answer be fs (sc_req c)) \<and> sr_len (served_answer be fs (sc_req c)) < 2 ^ 64 \<longrightarrow>
      acc = inline_response (served_answer be fs (sc_req c)))"
  using nss.run_inv [OF assms(1)] assms(2) answer_status_fits [of be fs "sc_req c"]
  by (auto simp: served_inv_def Let_def)

text \<open>A connection whose request is read and answered with a payload in one pump.\<close>

lemma pump_once:
  assumes "read_line SERVE_REQ_CAP rd [] s = (req, s1)" "req \<noteq> []" "last req = 10" "r = served_answer be fs req"
    and "sr_ok r" "\<not> sr_stream_file r" "sr_inbuf r \<noteq> []" "sr_len r = length (sr_inbuf r)"
    and "length (status_line r) < NORND_SERVED_MAX_ERR + 32"
    and "wr (status_line r) s1 = (int (length (status_line r)), s2)" "wr (sr_inbuf r) s2 = (int (length (sr_inbuf r)), s3)"
  shows "\<exists>c. served_run rd wr be fs c (status_line r @ sr_inbuf r) \<and> sc_phase c = NORND_SERVE_DONE \<and> sc_req c = req"
proof -
  let ?c = "resolve be fs (nornd_serve_conn_init\<lparr>sc_req := req\<rparr>)"
  let ?b = "?c\<lparr>sc_phase := NORND_SERVE_BODY\<rparr>" and ?v = "sr_inbuf r"
  have c: "sc_phase ?c = NORND_SERVE_STATUS" "sc_res ?c = r" "sc_sent ?c = 0" "sc_req ?c = req"
    using assms(4) by (simp_all add: resolve_ok nornd_serve_conn_init_def)
  have ne: "status_line r \<noteq> []" by (simp add: status_line_def)
  have q: "pump_req rd be fs nornd_serve_conn_init s = (?c, s1)"
    using assms(1-3) by (simp add: pump_req_def nornd_serve_conn_init_def)
  have t: "try_write wr (status_line r) s1 = (length (status_line r), s2)" "try_write wr ?v s2 = (length ?v, s3)"
    using assms(7,10,11) ne by (simp_all add: try_write_def)
  have p: "pump_status wr ?c s1 = (None, ?b, s2, status_line r)"
    using assms(5,7-9) t(1) c by (auto simp: pump_status_def Let_def encode_status_line)
  have l: "inline_loop wr ?b s2 [] = (False, ?b\<lparr>sc_sent := length ?v\<rparr>, s3, ?v)"
    by (subst inline_loop.simps) (use assms(7) t(2) c in \<open>simp add: inline_loop.simps [where acc = ?v] Let_def\<close>)
  have d: "nornd_serve_conn_pump rd wr be fs nornd_serve_conn_init s =
      (True, ?b\<lparr>sc_sent := length ?v, sc_phase := NORND_SERVE_DONE, sc_catf := None\<rparr>, s3, status_line r @ ?v)"
    using q p l assms(6,8) c by (simp add: nornd_serve_conn_pump_def pump_body_def)
  have "untorn rd wr be fs nornd_serve_conn_init s" using q p by (simp add: untorn_def)
  from served_run.served_run_pump [OF served_run.served_run_init this d] show ?thesis
    using c(4) by (intro exI [of _ "?b\<lparr>sc_sent := length ?v, sc_phase := NORND_SERVE_DONE, sc_catf := None\<rparr>"]) simp
qed

lemma read_line_numeral:
  "read_line (numeral n) rd req s =
     (case rd 1 s of
        ([], s') \<Rightarrow> (req, s')
      | (b # _, s') \<Rightarrow> if b = 10 then (req @ [b], s') else read_line (pred_numeral n) rd (req @ [b]) s')"
  by (simp only: numeral_eq_Suc read_line.simps)

text \<open>A stream takes a whole write when its send buffer has room for it.\<close>

definition stream_room :: "nat \<Rightarrow> norn_stream \<Rightarrow> bool" where
  "stream_room n s \<longleftrightarrow> \<not> st_closed s \<and> mux_wf (st_mux s) \<and> open_stream (st_mux s) (st_id s) \<noteq> None \<and>
     rg_count (pend (mux_get (st_mux s) (st_id s))) + n \<le> PEND_CAP"

lemma pump_loop_count: "rg_count (pend (fst (pump_loop now win s))) \<le> rg_count (pend s)"
proof (induction now win s rule: pump_loop.induct)
  case (1 now win s)
  have n: "rg_count (pend s1) \<le> rg_count (pend s)" if "next_seg s = Some (fl, dat, s1)" for fl dat s1
    using that by (auto simp: next_seg_def ring_drop_def Let_def split: if_splits)
  show ?case
  proof (cases "next_seg s")
    case (Some x)
    obtain fl dat s1 where x: "next_seg s = Some (fl, dat, s1)" using Some by (cases x) auto
    obtain s2 o2 where s2: "push_seg now fl dat s1 = (s2, o2)" by fastforce
    have "pend s2 = pend s1" using push_seg_frame(12) [of now fl dat s1] s2 by simp
    then show ?thesis using 1 [OF _ x refl refl refl s2 [symmetric]] n [OF x]
      by (subst pump_loop.simps) (auto simp: x s2 split: prod.split)
  qed (subst pump_loop.simps, simp)
qed

lemma stream_room_write:
  assumes "dat \<noteq> []" "stream_room (length dat + n) s"
  shows "\<exists>s'. norn_stream_write dat s = (int (length dat), s') \<and> stream_room n s'"
proof -
  let ?m = "st_mux s" and ?i = "st_id s"
  have r: "\<not> st_closed s" "mux_wf ?m" "rg_count (pend (mux_get ?m ?i)) + (length dat + n) \<le> PEND_CAP"
    using assms(2) by (simp_all add: stream_room_def)
  obtain i m1 where o: "open_stream ?m ?i = Some (i, m1)" using assms(2) by (auto simp: stream_room_def)
  note m1 = open_stream_spec [OF r(2) o]
  have n: "(if length dat < PEND_CAP - rg_count (pend (mux_get ?m ?i)) then length dat
      else PEND_CAP - rg_count (pend (mux_get ?m ?i))) = length dat" using r(3) by auto
  let ?p = "(mux_get ?m ?i)\<lparr>pend := ring_put PEND_CAP dat (pend (mux_get ?m ?i))\<rparr>"
  obtain st outs where w: "pump_send 0 ?p = (st, outs)" by fastforce
  have sw: "stream_write dat 0 (mux_get ?m ?i) = (int (length dat), st, outs)"
    by (simp only: stream_write_def Let_def n) (simp add: w)
  let ?m2 = "m1[i := ls_set st (m1 ! i)]"
  have "rg_count (pend st) \<le> rg_count (pend (mux_get ?m ?i)) + length dat"
    using pump_loop_count [of 0 "pump_win ?p" ?p] w by (simp add: pump_send_def ring_put_def)
  moreover have m2: "mux_wf ?m2" "mux_map ?m2 = (mux_map m1)(?i \<mapsto> st)" using set_stream_spec [OF m1(1,3)] by simp_all
  moreover have "open_stream ?m2 ?i \<noteq> None"
    using m2(2) mux_find_map(1) [of ?m2 ?i] by (cases "mux_find ?m2 ?i") (auto simp: open_stream_def)
  moreover have "norn_stream_write dat s = (int (length dat), s\<lparr>st_mux := ?m2, st_out := st_out s @ lstream_sends ?i outs\<rparr>)"
    using assms(1) r(1) o m1(4) sw by (simp add: norn_stream_write_def streammux_write_def)
  ultimately show ?thesis using r by (auto simp: stream_room_def mux_get_def)
qed

lemma stream_room_new:
  assumes "\<not> st_closed s" "st_mux s = streammux_new" "n \<le> PEND_CAP"
  shows "stream_room n s"
proof -
  have u: "\<forall>e \<in> set streammux_new. \<not> ls_used e" "length streammux_new = STREAMMUX_MAX"
    by (simp_all add: streammux_new_def ls_empty_def)
  have f: "mux_find streammux_new sid = None" for sid using u(1) by (auto simp: mux_find_def)
  have "streammux_new ! 0 \<in> set streammux_new" using u(2) by (simp add: STREAMMUX_MAX_def)
  then obtain j where "find_idx (\<lambda>ls. \<not> ls_used ls) streammux_new = Some j"
    using u(1) by (cases "find_idx (\<lambda>ls. \<not> ls_used ls) streammux_new") auto
  moreover have "mux_wf streammux_new" using u by (auto simp: mux_wf_def slots_distinct_def)
  moreover have "mux_get streammux_new sid = stream_new" for sid using mux_find_map(1) [OF f] by (simp add: mux_get_def)
  ultimately show ?thesis using assms f by (auto simp: stream_room_def open_stream_def stream_new_def ring_empty_def)
qed

section \<open>Properties\<close>

text \<open>C34: A value put under a key without a NUL byte in the local store is what a peer receives: a
  GET line for the key, encoded by the peer and driven to its end over any sequence of untorn
  pumps, hands the stream the line "OK" with the value's length, which the peer parses as that
  length, and then the value.\<close>

theorem served_get_value:
  assumes "ls_inv ls" "ls_accepts (ls_map ls) k v" "nornd_served_encode_req NORND_SERVED_GET k cap = Some line"
    and "0 \<notin> set k" "last k \<noteq> 13"
    and "served_run rd norn_stream_write (served_local (snd (localstore_put k v ls)) root) fs c acc"
    and "sc_phase c = NORND_SERVE_DONE" "sc_req c = line"
  shows "\<exists>st. acc = st @ v \<and> nornd_served_parse_status st ecap = Some (Inl (word_of_nat (length v)))"
proof -
  let ?be = "served_local (snd (localstore_put k v ls)) root"
  have k: "k \<noteq> []" "length v \<le> 4096" using assms(2) by (auto simp: ls_accepts_def LOCALSTORE_MAX_VAL_def)
  have cs: "c_string k = k" using assms(4) by (auto simp: c_string_def takeWhile_eq_all_conv)
  have g: "sb_get ?be k NORND_IPC_MAX_VAL = Some v"
    using localstore_put_ok [OF assms(1), of k v] assms(2) k by (simp add: served_local_def localstore_get_ok ipc_consts)
  have a: "served_answer ?be fs line = result_zero\<lparr>sr_inbuf := v, sr_len := length v, sr_ok := True\<rparr>"
    using get_answer [OF served_req_round_trip [OF assms(3) cs]] assms(5) g by simp
  have e: "line \<noteq> []" "last line = 10" using assms(3) by (auto simp: nornd_served_encode_req_def Let_def split: if_splits)
  let ?st = "str ''OK '' @ nat_dec (length v) @ [10]"
  have "acc = ?st @ v"
    using served_inline_delivered [OF assms(6,7)] assms(8) e k(2) by (simp add: a result_zero_def inline_response_def status_line_def)
  moreover have "nornd_served_encode_status True (length v) None (length ?st + 1) = Some ?st" by (simp add: nornd_served_encode_status_def Let_def)
  ultimately show ?thesis using status_ok_round_trip by blast
qed

theorem served_get_value_witness:
  "(let ls = snd (localstore_put [65] [5, 6] localstore_init); line = str ''GET A'' @ [10] in
    \<exists>rd c acc. served_run rd norn_stream_write (served_local ls []) Map.empty c acc \<and> sc_phase c = NORND_SERVE_DONE \<and>
      sc_req c = line \<and> (\<exists>st. acc = st @ [5, 6] \<and> nornd_served_parse_status st 64 = Some (Inl 2)))"
proof -
  let ?line = "str ''GET A'' @ [10]"
  let ?rd = "\<lambda>(n :: nat) s :: norn_stream. ([?line ! unat (st_id s)], s\<lparr>st_id := st_id s + 1\<rparr>)"
  let ?s = "\<lparr>st_mux = streammux_new, st_id = 0, st_closed = False, st_out = []\<rparr>"
  let ?be = "served_local (snd (localstore_put [65] [5, 6] localstore_init)) []"
  let ?r = "served_answer ?be Map.empty ?line"
  have acc: "ls_accepts (ls_map localstore_init) [65] [5, 6]"
    by (simp add: ls_accepts_def ls_init_ok LOCALSTORE_MAX_KEY_def LOCALSTORE_MAX_VAL_def LOCALSTORE_MAX_ENTRIES_def)
  have enc: "nornd_served_encode_req NORND_SERVED_GET [65] 64 = Some ?line"
    by (simp add: nornd_served_encode_req_def str_def Let_def NORND_SERVED_MAX_ARG_def c_string_def)
  have g: "sb_get ?be [65] NORND_IPC_MAX_VAL = Some [5, 6]"
    using localstore_put_ok [OF ls_init_ok(1), of "[65]" "[5, 6]"] acc by (simp add: served_local_def localstore_get_ok ipc_consts)
  have r: "?r = result_zero\<lparr>sr_inbuf := [5, 6], sr_len := 2, sr_ok := True\<rparr>"
    using get_answer [OF served_req_round_trip [OF enc refl]] g by (simp add: c_string_def)
  have rl: "read_line SERVE_REQ_CAP ?rd [] ?s = (?line, ?s\<lparr>st_id := 6\<rparr>)"
    by (simp add: SERVE_REQ_CAP_def NORND_SERVED_MAX_ARG_def str_def read_line_numeral)
  have sl: "status_line ?r = [79, 75, 32, 50, 10]"
    unfolding r by (simp add: status_line_def str_def nat_dec.simps [of 2])
  have f: "sr_ok ?r" "\<not> sr_stream_file ?r" "sr_inbuf ?r \<noteq> []" "sr_inbuf ?r = [5, 6] \<and> sr_len ?r = 2"
    "length (status_line ?r) < NORND_SERVED_MAX_ERR + 32"
    unfolding sl by (simp_all add: r result_zero_def NORND_SERVED_MAX_ERR_def)
  have room: "stream_room (length (status_line ?r) + 2) (?s\<lparr>st_id := 6\<rparr>)"
    by (rule stream_room_new) (simp_all add: sl PEND_CAP_def STREAM_WIN_MAX_def STREAM_SEG_PAYLOAD_def)
  obtain s2 where w: "norn_stream_write (status_line ?r) (?s\<lparr>st_id := 6\<rparr>) = (int (length (status_line ?r)), s2)" "stream_room 2 s2"
    using stream_room_write [OF _ room] by (auto simp: sl)
  obtain s3 where w3: "norn_stream_write [5, 6] s2 = (int (length [5, 6 :: byte]), s3)"
    using stream_room_write [of "[5, 6]" 0 s2] w(2) by (auto simp: numeral_2_eq_2)
  obtain c where c: "served_run ?rd norn_stream_write ?be Map.empty c (status_line ?r @ [5, 6])" "sc_phase c = NORND_SERVE_DONE" "sc_req c = ?line"
    using pump_once [where wr = norn_stream_write, OF rl _ _ refl f(1-3) _ f(5) w(1), of s3] w3 f(4) by auto
  have "\<exists>st. status_line ?r @ [5, 6] = st @ [5, 6] \<and> nornd_served_parse_status st 64 = Some (Inl (word_of_nat (length [5, 6 :: byte])))"
    by (rule served_get_value [OF ls_init_ok(1) acc enc _ _ c]) simp_all
  with c show ?thesis unfolding Let_def by auto
qed

text \<open>When the stream takes nothing of a chunk of an object, the driver waits for the next
  pump with the file already read past that chunk: nothing of it was handed over, and
  whatever the next pump hands over begins behind it, although the count of bytes sent has
  not moved. The chunk is missing from what the peer receives.\<close>

theorem served_cat_loses_chunk:
  assumes "sc_phase c = NORND_SERVE_BODY" "sr_stream_file (sc_res c)" "sc_sent c < sr_len (sc_res c)" "sc_catf c = Some (d, pos)"
    and "buf = take (min (sr_len (sc_res c) - sc_sent c) CAT_CHUNK) (drop pos d)" "buf \<noteq> []" "fst (norn_stream_write buf s) \<le> 0"
    and "c' = c\<lparr>sc_catf := Some (d, pos + length buf)\<rparr>"
  shows "\<exists>s'. nornd_serve_conn_pump rd norn_stream_write be fs c s = (False, c', s', []) \<and>
    (\<forall>s2. \<exists>n. snd (snd (snd (nornd_serve_conn_pump rd norn_stream_write be fs c' s2))) = take n (drop (pos + length buf) d))"
proof -
  obtain w s1 where w: "norn_stream_write buf s = (w, s1)" "w \<le> 0" using assms(7) by (cases "norn_stream_write buf s") auto
  have t: "try_write norn_stream_write buf s = (0, s1)" using w assms(6) by (simp add: try_write_def)
  have l: "cat_loop norn_stream_write c s [] = (True, c', s1, [])"
    unfolding cat_loop.simps [of _ c] Let_def assms(4) option.case prod.case assms(5) [symmetric] t using assms(3,6,8) by simp
  have "nornd_serve_conn_pump rd norn_stream_write be fs c s = (False, c', s1, [])"
    using assms(1,2) l by (simp add: nornd_serve_conn_pump_def pump_req_def pump_status_def pump_body_def)
  moreover have "\<exists>n. snd (snd (snd (nornd_serve_conn_pump rd norn_stream_write be fs c' s2))) = take n (drop (pos + length buf) d)" for s2
  proof -
    obtain bk c1 s3 o1 where b: "cat_loop norn_stream_write c' s2 [] = (bk, c1, s3, o1)" by (rule prod_cases4)
    then have "snd (snd (snd (nornd_serve_conn_pump rd norn_stream_write be fs c' s2))) = o1"
      using assms(1,2,8) by (simp add: nornd_serve_conn_pump_def pump_req_def pump_status_def pump_body_def)
    then show ?thesis using nss.cat_loop_out [OF b, of d "pos + length buf"] assms(8) by simp
  qed
  ultimately show ?thesis by blast
qed

theorem served_cat_loses_chunk_witness:
  "(let r = result_zero\<lparr>sr_ok := True, sr_len := 3, sr_stream_file := True\<rparr>;
        c = \<lparr>sc_phase = NORND_SERVE_BODY, sc_req = [10], sc_res = r, sc_sent = 1, sc_catf = Some ([5, 6, 7], 1)\<rparr>;
        s = \<lparr>st_mux = streammux_new, st_id = 0, st_closed = True, st_out = []\<rparr>;
        c' = c\<lparr>sc_catf := Some ([5, 6, 7], 3)\<rparr> in
     (\<exists>s'. nornd_serve_conn_pump norn_stream_read norn_stream_write (served_local localstore_init []) Map.empty c s = (False, c', s', [])) \<and>
     (\<forall>s2. snd (snd (snd (nornd_serve_conn_pump norn_stream_read norn_stream_write (served_local localstore_init []) Map.empty c' s2))) = []))"
proof -
  let ?r = "result_zero\<lparr>sr_ok := True, sr_len := 3, sr_stream_file := True\<rparr>"
  let ?c = "\<lparr>sc_phase = NORND_SERVE_BODY, sc_req = [10], sc_res = ?r, sc_sent = 1, sc_catf = Some ([5, 6, 7], 1)\<rparr>"
  let ?s = "\<lparr>st_mux = streammux_new, st_id = 0, st_closed = True, st_out = []\<rparr>"
  have b: "[6, 7] = take (min (sr_len (sc_res ?c) - sc_sent ?c) CAT_CHUNK) (drop 1 [5, 6, 7])" by (simp add: CAT_CHUNK_def)
  have w: "fst (norn_stream_write [6, 7] ?s) \<le> 0" by (simp add: norn_stream_write_def)
  show ?thesis
    using served_cat_loses_chunk [of ?c "[5, 6, 7]" 1 "[6, 7]" ?s "?c\<lparr>sc_catf := Some ([5, 6, 7], 3)\<rparr>" norn_stream_read
        "served_local localstore_init []" Map.empty, OF _ _ _ _ b _ w] by (auto simp: Let_def)
qed

text \<open>In a store directory without objects, after any sequence of puts of objects whose digests
  differ, asking for the digest of any of them names a file that holds exactly that object,
  with its length.\<close>

theorem store_content_addressed:
  assumes "sha256_ok h (set ds)" "no_objects root fs" "length root < STORE_ROOT_MAX" "d \<in> set ds"
  shows "nornd_store_stat root (hex32 (h d)) STORE_PATH_MAX (store_puts h root ds fs) =
      Some (object_path root (hex32 (h d)), length d) \<and>
    store_puts h root ds fs (object_path root (hex32 (h d))) = Some d"
  by (rule store_put_stat [OF assms])

theorem store_content_addressed_witness:
  "(let h = (\<lambda>d. replicate 31 0 @ [of_nat (length d)]); ds = [[], [7], [8, 9]] in
     nornd_store_stat [47] (hex32 (h [8, 9])) STORE_PATH_MAX (store_puts h [47] ds Map.empty) =
       Some (object_path [47] (hex32 (h [8, 9])), 2) \<and>
     store_puts h [47] ds Map.empty (object_path [47] (hex32 (h [8, 9]))) = Some [8, 9])"
proof -
  let ?h = "\<lambda>d :: bytes. replicate 31 0 @ [of_nat (length d)] :: bytes"
  have "sha256_ok ?h (set [[], [7], [8, 9]])" "no_objects [47] Map.empty" "length [47 :: byte] < STORE_ROOT_MAX"
    by (simp_all add: sha256_ok_def no_objects_def STORE_ROOT_MAX_def inj_on_def)
  from store_content_addressed [OF this, of "[8, 9]"] show ?thesis by (simp add: Let_def numeral_2_eq_2)
qed

end
