(* ===== verification/Norn_Daemon.thy ===== *)
theory Norn_Daemon
  imports Norn_Dispatch Norn_Publish Norn_Served Norn_Dhtstore
begin

text \<open>
  The requests the daemon answers itself (\<open>serve_client\<close> of \<open>src/nornd/main.c\<close>), on the local
  store, the publish log and queue and the store of records held for the network, with the
  calls of \<open>src/libnorn/norn_impl.c\<close> they make. The state is the cluster backend's together
  with the record \<open>daemon\<close>. The clock, the process number, the routing table and the
  lookups that go out to the network are the record \<open>daemon_env\<close>; key generation, the two
  text tables and the fetch from another peer are the argument \<open>rest\<close>. An operation has no
  result where the C code reads outside an array or an uninitialised variable.
\<close>

section \<open>State and environment\<close>

record daemon =
  dm_public :: bytes
  dm_secret :: bytes
  dm_start :: int
  dm_lstore :: localstore
  dm_publog :: publog
  dm_pubqueue :: pubqueue
  dm_dht :: dhtstore

record routing_node =
  rn_id :: bytes
  rn_pubkey :: "bytes option"

record daemon_env =
  en_now :: int
  en_pid :: int
  en_self_id :: "bytes option"
  en_nodes :: "routing_node list"
  en_get_mutable :: "bytes \<Rightarrow> bytes \<Rightarrow> bytes \<Rightarrow> int \<times> bytes"
  en_get_immutable :: "bytes \<Rightarrow> int \<times> bytes"

section \<open>Calls into the library\<close>

definition norn_get_id :: "daemon_env \<Rightarrow> bytes option" where
  "norn_get_id env = en_self_id env"

definition norn_routing_pubkey :: "daemon_env \<Rightarrow> bytes \<Rightarrow> bytes option" where
  "norn_routing_pubkey env node_id =
     (case find_idx (\<lambda>n. rn_id n = node_id) (en_nodes env) of None \<Rightarrow> None | Some i \<Rightarrow> rn_pubkey (en_nodes env ! i))"

text \<open>
  What \<open>dhtstore_get_ex\<close> returns. It stores through its out parameters on a hit only.
\<close>

definition get_ex_ret :: "'a option \<Rightarrow> int" where
  "get_ex_ret r = (case r of None \<Rightarrow> 0 | Some x \<Rightarrow> 1)"

text \<open>
  The value held under a target, with the return code. The locals \<open>v\<close> and \<open>vlen\<close> have no value
  before the store has written them; reading them then has no result.
\<close>

definition norn_dht_get_value :: "int \<Rightarrow> bytes \<Rightarrow> nat \<Rightarrow> dhtstore \<Rightarrow> (int \<times> bytes) option \<times> dhtstore" where
  "norn_dht_get_value now target cap d =
     (if cap = 0 then (Some (-1, []), d)
      else case dhtstore_get_ex now target (if 1024 < cap then 1024 else cap) d of (r, d1) \<Rightarrow>
        let got = get_ex_ret r;
            written = map_option (\<lambda>(k, seq, v, sig, imm). v) r
        in (if got < 0 then Some (-1, []) else map_option (\<lambda>v. (int (length v), v)) written, d1))"

definition norn_dht_del :: "bytes \<Rightarrow> dhtstore \<Rightarrow> int \<times> dhtstore" where
  "norn_dht_del target d = dhtstore_del target d"

section \<open>Operations\<close>

definition op_node_set :: "ipc_req \<Rightarrow> daemon \<Rightarrow> ipc_resp \<times> daemon" where
  "op_node_set req d =
     (if rq_key req = [] \<or> \<not> rq_has_val req then (fail ''missing key or value'' resp_zero, d)
      else case localstore_put (rq_key req) (rq_val req) (dm_lstore d) of (rc, ls) \<Rightarrow>
        if rc \<noteq> 0 then (fail ''store full or key too large'' resp_zero, d\<lparr>dm_lstore := ls\<rparr>)
        else (ok_empty resp_zero, d\<lparr>dm_lstore := ls\<rparr>))"

definition op_bep44_set :: "daemon_env \<Rightarrow> ipc_req \<Rightarrow> daemon \<Rightarrow> ipc_resp \<times> daemon" where
  "op_bep44_set env req d =
     (if rq_key req = [] \<or> \<not> rq_has_val req then (fail ''missing name or value'' resp_zero, d)
      else let name = take (PUBLOG_NAME - 1) (rq_key req); seq = word_of_int (en_now env) in
        case pubqueue_add_mutable (dm_public d) (dm_secret d) (rq_val req) seq (Some name) (dm_pubqueue d) of (rc, q) \<Rightarrow>
          if rc \<noteq> 0 then (fail ''publish queue full'' resp_zero, d\<lparr>dm_pubqueue := q\<rparr>)
          else let target = bep44_target_salted (dm_public d) name;
                   p = snd (publog_add target False (Some name) (Some (rq_val req)) (word_of_nat (length (rq_val req))) seq
                              (en_now env) (dm_publog d))
               in (ok_val target resp_zero, d\<lparr>dm_pubqueue := q, dm_publog := p\<rparr>))"

text \<open>The target of a value above 1000 bytes is left unset; the queue has refused it by then.\<close>

definition op_bep44_put :: "daemon_env \<Rightarrow> ipc_req \<Rightarrow> daemon \<Rightarrow> (ipc_resp \<times> daemon) option" where
  "op_bep44_put env req d =
     (if \<not> rq_has_val req then Some (fail ''missing value'' resp_zero, d)
      else case pubqueue_add_immutable (rq_val req) (dm_pubqueue d) of (rc, q) \<Rightarrow>
        if rc \<noteq> 0 then Some (fail ''publish queue full'' resp_zero, d\<lparr>dm_pubqueue := q\<rparr>)
        else case bep44_immutable_target (rq_val req) of
          None \<Rightarrow> None
        | Some target \<Rightarrow>
            let p = snd (publog_add target True None (Some (rq_val req)) (word_of_nat (length (rq_val req))) 0
                           (en_now env) (dm_publog d))
            in Some (ok_val target resp_zero, d\<lparr>dm_pubqueue := q, dm_publog := p\<rparr>))"

definition le32 :: "bytes \<Rightarrow> u32" where
  "le32 b = ucast (b ! 0) + 256 * ucast (b ! 1) + 65536 * ucast (b ! 2) + 16777216 * ucast (b ! 3)"

text \<open>
  The length of the value is what remains of the packed bytes after the name, computed without
  a check, so it wraps when the name is said to be longer than what is there.
\<close>

definition op_publog_add :: "daemon_env \<Rightarrow> ipc_req \<Rightarrow> daemon \<Rightarrow> ipc_resp \<times> daemon" where
  "op_publog_add env req d =
     (let val = rq_val req in
      if length (rq_key req) \<noteq> 20 \<or> \<not> rq_has_val req \<or> length val < 10 then (fail ''bad publog request'' resp_zero, d)
      else let immutable = (val ! 0 \<noteq> 0);
               seq = le32 (drop 5 val);
               nl = unat (val ! 9);
               val_len = word_of_nat (length val) - 10 - word_of_nat nl;
               namebuf = (if nl < PUBLOG_NAME then take nl (drop 10 val) else [])
           in (ok_empty resp_zero,
               d\<lparr>dm_publog := snd (publog_add (rq_key req) immutable (if nl \<noteq> 0 then Some namebuf else None)
                   (Some (drop (10 + nl) val)) val_len seq (en_now env) (dm_publog d))\<rparr>))"

definition op_node_id :: "daemon_env \<Rightarrow> ipc_resp" where
  "op_node_id env =
     (case norn_get_id env of
        Some i \<Rightarrow> ok_val i resp_zero
      | None \<Rightarrow> fail ''could not get node id'' resp_zero)"

definition op_peer_public :: "daemon_env \<Rightarrow> ipc_req \<Rightarrow> daemon \<Rightarrow> ipc_resp" where
  "op_peer_public env req d =
     (if length (rq_key req) \<noteq> 20 then fail ''node-id must be 20 bytes'' resp_zero
      else if norn_get_id env = Some (rq_key req) then ok_val (dm_public d) resp_zero
      else case norn_routing_pubkey env (rq_key req) of
             Some pk \<Rightarrow> ok_val pk resp_zero
           | None \<Rightarrow> fail ''pubkey unknown (not a norn peer)'' resp_zero)"

definition op_node_stats :: "daemon_env \<Rightarrow> 'c nornd_backend \<Rightarrow> 'c \<Rightarrow> daemon \<Rightarrow> ipc_resp" where
  "op_node_stats env be c d =
     ok_val (take (NORND_IPC_MAX_VAL - 1)
       (str ''pid='' @ int_dec (en_pid env) @ [10] @ str ''uptime='' @ int_dec (en_now env - dm_start d) @ [10] @
        str ''dht_nodes='' @ nat_dec (length (en_nodes env)) @ [10] @
        str ''is_leader='' @ (if be_is_leader be c then str ''1'' else str ''0'') @ [10] @
        str ''cluster_members='' @
          nat_dec (case be_members be c NORND_IPC_MAX_ITEMS of None \<Rightarrow> 0 | Some ms \<Rightarrow> length ms) @ [10])) resp_zero"

definition op_peers :: "daemon_env \<Rightarrow> ipc_resp" where
  "op_peers env = ok_val (str ''dht_nodes='' @ nat_dec (length (en_nodes env)) @ [10]) resp_zero"

text \<open>The first logged record that satisfies a test, and the answer made from it.\<close>

definition publog_find :: "(publog_entry \<Rightarrow> bool) \<Rightarrow> publog \<Rightarrow> publog_entry option" where
  "publog_find P p = find P (List.map_filter (publog_get p) [0..<publog_count p])"

definition answer_logged :: "publog_entry \<Rightarrow> ipc_resp option" where
  "answer_logged e = map_option (\<lambda>v. ok_val v resp_zero) (pe_read (min (unat (pe_vlen e)) NORND_IPC_MAX_VAL) e)"

definition answer_lookup :: "int \<times> bytes \<Rightarrow> ipc_resp" where
  "answer_lookup r =
     (if fst r > 0 then ok_val (snd r) resp_zero
      else if fst r = 0 then fail ''not found (local or DHT)'' resp_zero
      else fail ''DHT lookup error'' resp_zero)"

definition op_bep44_get :: "daemon_env \<Rightarrow> ipc_req \<Rightarrow> daemon \<Rightarrow> (ipc_resp \<times> daemon) option" where
  "op_bep44_get env req d =
     (if length (rq_key req) \<noteq> 20 \<or> \<not> rq_has_val req \<or> rq_val req = []
      then Some (fail ''missing node-id or name'' resp_zero, d)
      else case (if norn_get_id env = Some (rq_key req) then Some (dm_public d) else norn_routing_pubkey env (rq_key req)) of
        None \<Rightarrow> Some (fail ''pubkey unknown (not a norn peer)'' resp_zero, d)
      | Some pk \<Rightarrow>
          let target = bep44_target_salted pk (rq_val req) in
          case publog_find (\<lambda>e. \<not> pe_immutable e \<and> pe_target e = target) (dm_publog d) of
            Some e \<Rightarrow> map_option (\<lambda>r. (r, d)) (answer_logged e)
          | None \<Rightarrow>
              (case norn_dht_get_value (en_now env) target 1024 (dm_dht d) of
                 (None, _) \<Rightarrow> None
               | (Some (vgot, v), dht) \<Rightarrow>
                   let d1 = d\<lparr>dm_dht := dht\<rparr> in
                   if vgot > 0 then Some (ok_val v resp_zero, d1)
                   else Some (answer_lookup (en_get_mutable env target pk (rq_val req)), d1)))"

definition op_bep44_get_immutable :: "daemon_env \<Rightarrow> ipc_req \<Rightarrow> daemon \<Rightarrow> (ipc_resp \<times> daemon) option" where
  "op_bep44_get_immutable env req d =
     (if length (rq_key req) \<noteq> 20 then Some (fail ''key must be 20 bytes'' resp_zero, d)
      else case norn_dht_get_value (en_now env) (rq_key req) 1024 (dm_dht d) of
        (None, _) \<Rightarrow> None
      | (Some (vgot, v), dht) \<Rightarrow>
          let d1 = d\<lparr>dm_dht := dht\<rparr> in
          if vgot > 0 then Some (ok_val v resp_zero, d1)
          else case publog_find (\<lambda>e. pe_immutable e \<and> pe_target e = rq_key req) (dm_publog d) of
            Some e \<Rightarrow> map_option (\<lambda>r. (r, d1)) (answer_logged e)
          | None \<Rightarrow> Some (answer_lookup (en_get_immutable env (rq_key req)), d1))"

definition op_bep44_del :: "ipc_req \<Rightarrow> daemon \<Rightarrow> ipc_resp \<times> daemon" where
  "op_bep44_del req d =
     (if length (rq_key req) \<noteq> 20 then (fail ''key must be 20 bytes'' resp_zero, d)
      else case norn_dht_del (rq_key req) (dm_dht d) of (rc, dht) \<Rightarrow>
        (if rc \<noteq> 0 then fail ''not held'' resp_zero else ok_empty resp_zero, d\<lparr>dm_dht := dht\<rparr>))"

definition own_request ::
  "daemon_env \<Rightarrow> 'c nornd_backend \<Rightarrow> (ipc_req \<Rightarrow> 'c \<times> daemon \<Rightarrow> (ipc_resp \<times> 'c \<times> daemon) option) \<Rightarrow>
     ipc_req \<Rightarrow> 'c \<times> daemon \<Rightarrow> (ipc_resp \<times> 'c \<times> daemon) option" where
  "own_request env be rest req s =
     (let c = fst s; d = snd s; op = rq_op req;
          upd = (\<lambda>(r, d'). Some (r, c, d')) in
      if op = str ''ping'' then Some (ok_val (str ''pong'') resp_zero, s)
      else if op = str ''node-set'' then upd (op_node_set req d)
      else if op = str ''bep44-set'' then upd (op_bep44_set env req d)
      else if op = str ''bep44-put'' then Option.bind (op_bep44_put env req d) upd
      else if op = str ''publog-add'' then upd (op_publog_add env req d)
      else if op = str ''node-public'' then Some (ok_val (dm_public d) resp_zero, s)
      else if op = str ''node-id'' then Some (op_node_id env, s)
      else if op = str ''peer-public'' then Some (op_peer_public env req d, s)
      else if op = str ''node-secret'' then Some (ok_val (dm_secret d) resp_zero, s)
      else if op = str ''node-stats'' then Some (op_node_stats env be c d, s)
      else if op = str ''peers'' then Some (op_peers env, s)
      else if op = str ''bep44-get'' then Option.bind (op_bep44_get env req d) upd
      else if op = str ''bep44-get-immutable'' then Option.bind (op_bep44_get_immutable env req d) upd
      else if op = str ''bep44-del'' then upd (op_bep44_del req d)
      else rest req s)"

text \<open>The backend seen from the daemon, which leaves its own state alone.\<close>

definition daemon_backend :: "'c nornd_backend \<Rightarrow> ('c \<times> daemon) nornd_backend" where
  "daemon_backend be =
     \<lparr>be_put = (\<lambda>(c, d) k v. case be_put be c k v of (rc, c') \<Rightarrow> (rc, c', d)),
      be_del = (\<lambda>(c, d) k. case be_del be c k of (rc, c') \<Rightarrow> (rc, c', d)),
      be_get = (\<lambda>(c, d). be_get be c), be_is_leader = (\<lambda>(c, d). be_is_leader be c),
      be_leader = (\<lambda>(c, d). be_leader be c), be_members = (\<lambda>(c, d). be_members be c)\<rparr>"

section \<open>Requests over the socket\<close>

lemma dispatch_lift:
  "nornd_dispatch (daemon_backend be) req (c, d) = (case nornd_dispatch be req c of (r, c') \<Rightarrow> (r, c', d))"
  by (simp add: nornd_dispatch_def daemon_backend_def fill_members_def write_resp_def Let_def split_beta split: option.split)

interpretation dmb: kv_backend "daemon_backend cluster_backend" "\<lambda>s. cl_good (fst s)"
proof
  show "length v \<le> n" if "be_get (daemon_backend cluster_backend) c k n = Some v" for c k n v
    using that clb.get_cap by (auto simp: daemon_backend_def split_beta)
  show "length p = NORND_PUBKEY" if "cl_good (fst c)" "be_leader (daemon_backend cluster_backend) c = Some p" for c p
    using that clb.leader_len by (auto simp: daemon_backend_def split_beta)
  show "length ps \<le> n \<and> (\<forall>p \<in> set ps. length p = NORND_PUBKEY)"
    if "cl_good (fst c)" "be_members (daemon_backend cluster_backend) c n = Some ps" for c n ps
    using that clb.members_len [of "fst c"] by (auto simp: daemon_backend_def split_beta)
  show "cl_good (fst (snd (be_put (daemon_backend cluster_backend) c k v)))" if "cl_good (fst c)" for c k v
    using that clb.put_good [of "fst c"] by (simp add: daemon_backend_def split_beta)
  show "cl_good (fst (snd (be_del (daemon_backend cluster_backend) c k)))" if "cl_good (fst c)" for c k
    using that clb.del_good [of "fst c"] by (simp add: daemon_backend_def split_beta)
qed

text \<open>A request the daemon answers itself reaches the client as the operation answered it.\<close>

lemma own_served:
  assumes "req_wf r" "length (rq_val r) + length (rq_expect r) \<le> 65000" "rq_op r \<in> set own_ops" "own r s = Some (resp, s')" "small resp"
  shows "\<exists>f out. nornd_ipc_encode_req r (NORND_IPC_MAX_BODY + 4) = Some f \<and>
    serve_client own be fd f (s, subs) = Served out s' subs \<and> nornd_ipc_decode_resp out = Some (resp, length out)"
proof -
  obtain f where f: "nornd_ipc_encode_req r (NORND_IPC_MAX_BODY + 4) = Some f"
    using req_fits [OF assms(1,2) order_refl] by blast
  have d: "nornd_ipc_decode_req f = Some (r, length f)" using req_round_trip [OF assms(1) f, of "[]"] by simp
  obtain out where o: "nornd_ipc_encode_resp resp (NORND_IPC_MAX_BODY + 4) = Some out"
    "nornd_ipc_decode_resp out = Some (resp, length out)" using small_sent [OF assms(5), of "[]"] by auto
  have "rq_op r \<noteq> str ''watch''" using assms(3) by (auto simp: own_ops_def)
  then have "serve_client own be fd f (s, subs) = Served out s' subs"
    using d o(1) assms(3,4) by (simp add: serve_client_def)
  then show ?thesis using f o(2) by blast
qed

lemma own_undefined:
  assumes "req_wf r" "length (rq_val r) + length (rq_expect r) \<le> 65000" "rq_op r \<in> set own_ops" "own r s = None"
  shows "\<exists>f. nornd_ipc_encode_req r (NORND_IPC_MAX_BODY + 4) = Some f \<and> serve_client own be fd f (s, subs) = Undefined"
proof -
  obtain f where f: "nornd_ipc_encode_req r (NORND_IPC_MAX_BODY + 4) = Some f"
    using req_fits [OF assms(1,2) order_refl] by blast
  have "nornd_ipc_decode_req f = Some (r, length f)" using req_round_trip [OF assms(1) f, of "[]"] by simp
  then show ?thesis using f assms(3,4) by (simp add: serve_client_def)
qed

section \<open>Reading the log\<close>

lemma find_slot:
  "slots_distinct used key es \<Longrightarrow> find (\<lambda>e. Q e \<and> key e = k) (filter used es) =
     (case find_idx (\<lambda>e. used e \<and> key e = k) es of None \<Rightarrow> None | Some i \<Rightarrow> if Q (es ! i) then Some (es ! i) else None)"
proof (induction es)
  case (Cons e es)
  show ?case
  proof (cases "used e \<and> key e = k")
    case True
    then have "find (\<lambda>e. Q e \<and> key e = k) (filter used es) = None" using Cons.prems by (auto simp: find_None_iff)
    then show ?thesis using True by simp
  next
    case False
    then show ?thesis using Cons by (auto simp del: find_idx_None_iff split: option.splits)
  qed
qed simp

lemma publog_find_ok:
  assumes "pl_inv p"
  shows "pl_map p k = None \<Longrightarrow> publog_find (\<lambda>e. Q e \<and> pe_target e = k) p = None"
    and "pl_map p k = Some f \<Longrightarrow> \<exists>e. pe_fields e = f \<and> publog_find (\<lambda>e. Q e \<and> pe_target e = k) p = (if Q e then Some e else None)"
proof -
  let ?i = "find_idx (\<lambda>e. pe_used e \<and> pe_target e = k) p"
  have f: "publog_find (\<lambda>e. Q e \<and> pe_target e = k) p = (case ?i of None \<Rightarrow> None | Some i \<Rightarrow> if Q (p ! i) then Some (p ! i) else None)"
    using assms find_slot [of pe_used pe_target p Q k] by (simp add: publog_find_def publog_all pl_inv_def)
  have m: "pl_map p k = map_option (\<lambda>i. pe_fields (p ! i)) ?i" by (simp add: pl_map_def slot_map_def map_option_case)
  show "pl_map p k = None \<Longrightarrow> publog_find (\<lambda>e. Q e \<and> pe_target e = k) p = None"
    using f m by (cases ?i) (simp_all del: find_idx_None_iff)
  show "pl_map p k = Some f \<Longrightarrow> \<exists>e. pe_fields e = f \<and> publog_find (\<lambda>e. Q e \<and> pe_target e = k) p = (if Q e then Some e else None)"
    using f m by (cases ?i) (auto simp del: find_idx_None_iff)
qed

section \<open>Publishing and reading back\<close>

text \<open>The requests a client sends to publish under a name, to log a publication, to read by name
  and by content, to delete.\<close>

definition set_req :: "bytes \<Rightarrow> bytes \<Rightarrow> ipc_req" where
  "set_req name v = req_zero\<lparr>rq_op := str ''bep44-set'', rq_key := name, rq_val := v, rq_has_val := True\<rparr>"

definition log_req :: "bytes \<Rightarrow> bytes \<Rightarrow> ipc_req" where
  "log_req target v = req_zero\<lparr>rq_op := str ''publog-add'', rq_key := target, rq_val := v, rq_has_val := True\<rparr>"

definition get_req :: "bytes \<Rightarrow> bytes \<Rightarrow> ipc_req" where
  "get_req node name = req_zero\<lparr>rq_op := str ''bep44-get'', rq_key := node, rq_val := name, rq_has_val := True\<rparr>"

definition get_hash_req :: "bytes \<Rightarrow> ipc_req" where
  "get_hash_req target = req_zero\<lparr>rq_op := str ''bep44-get-immutable'', rq_key := target\<rparr>"

definition del_req :: "bytes \<Rightarrow> ipc_req" where
  "del_req target = req_zero\<lparr>rq_op := str ''bep44-del'', rq_key := target\<rparr>"

lemmas req_defs = set_req_def log_req_def get_req_def get_hash_req_def del_req_def

lemma own_req_wf:
  assumes "length k \<le> 256" "length v \<le> 64000"
  shows "req_wf (set_req k v)" "req_wf (log_req k v)" "req_wf (get_req k v)" "req_wf (del_req k)" "req_wf (get_hash_req k)"
  using assms by (simp_all add: req_defs req_wf_def req_zero_def ipc_consts str_no_nul no_nul_def)

lemma own_req_op:
  "rq_op (set_req k v) \<in> set own_ops" "rq_op (log_req k v) \<in> set own_ops" "rq_op (get_req k v) \<in> set own_ops" "rq_op (del_req k) \<in> set own_ops"
  "rq_op (get_hash_req k) \<in> set own_ops"
  by (simp_all add: req_defs own_ops_def)

lemma own_req_len:
  assumes "length v \<le> 64000"
  shows "length (rq_val (set_req k v)) + length (rq_expect (set_req k v)) \<le> 65000"
    "length (rq_val (log_req k v)) + length (rq_expect (log_req k v)) \<le> 65000"
    "length (rq_val (get_req k v)) + length (rq_expect (get_req k v)) \<le> 65000"
    "length (rq_val (del_req k)) + length (rq_expect (del_req k)) \<le> 65000"
    "length (rq_val (get_hash_req k)) + length (rq_expect (get_hash_req k)) \<le> 65000"
  using assms by (simp_all add: req_defs req_zero_def)

lemma own_request_req:
  "own_request env be rest (set_req k v) (c, d) = (case op_bep44_set env (set_req k v) d of (r, d') \<Rightarrow> Some (r, c, d'))"
  "own_request env be rest (log_req k v) (c, d) = (case op_publog_add env (log_req k v) d of (r, d') \<Rightarrow> Some (r, c, d'))"
  "own_request env be rest (get_req k v) (c, d) = Option.bind (op_bep44_get env (get_req k v) d) (\<lambda>(r, d'). Some (r, c, d'))"
  "own_request env be rest (get_hash_req k) (c, d) = Option.bind (op_bep44_get_immutable env (get_hash_req k) d) (\<lambda>(r, d'). Some (r, c, d'))"
  "own_request env be rest (del_req k) (c, d) = (case op_bep44_del (del_req k) d of (r, d') \<Rightarrow> Some (r, c, d'))"
  by (simp_all add: own_request_def req_defs Let_def)

text \<open>Room for one more publication: a free place in the queue, and in the log one for the target.\<close>

definition can_publish :: "bytes \<Rightarrow> daemon \<Rightarrow> bool" where
  "can_publish target d \<longleftrightarrow> pl_inv (dm_publog d) \<and> length (dm_pubqueue d) = PUBQUEUE_MAX \<and> (\<exists>e \<in> set (dm_pubqueue d). \<not> pq_used e) \<and>
     (pl_map (dm_publog d) target \<noteq> None \<or> card (dom (pl_map (dm_publog d))) < PUBLOG_MAX)"

lemma filter_update_mem: "i < length xs \<Longrightarrow> P x \<Longrightarrow> x \<in> set (filter P (xs[i := x]))"
  by (simp add: set_update_memI)

lemma queue_mutable:
  assumes "length v \<le> PUBQUEUE_MAX_VAL" "\<exists>e \<in> set q. \<not> pq_used e"
  shows "\<exists>q' e. pubqueue_add_mutable pk sk v sq (Some name) q = (0, q') \<and> length q' = length q \<and> e \<in> set (pending q') \<and>
    publish_of e = Put_mutable_salt pk sk v sq (take (PUBQUEUE_NAME - 1) (c_string name))"
proof -
  from assms(2) obtain i where i: "find_idx (\<lambda>e. \<not> pq_used e) q = Some i"
    by (cases "find_idx (\<lambda>e. \<not> pq_used e) q") auto
  let ?e = "(q ! i)\<lparr>pq_pubkey := pk, pq_secret := sk, pq_value := v, pq_seq := sq, pq_immutable := False, pq_used := True,
    pq_name := take (PUBQUEUE_NAME - 1) (c_string name)\<rparr>"
  have "?e \<in> set (pending (q[i := ?e]))" unfolding pending_def by (rule filter_update_mem [OF find_idx_less [OF i]]) simp
  then show ?thesis using assms(1) i
    by (intro exI [of _ "q[i := ?e]"] exI [of _ ?e]) (simp add: pubqueue_add_mutable_def publish_of_def)
qed

lemma set_op:
  assumes "can_publish (bep44_target_salted (dm_public d) (take 127 name)) d" "name \<noteq> []" "length v \<le> PUBQUEUE_MAX_VAL"
  shows "\<exists>d' f. op_bep44_set env (set_req name v) d = (ok_val (bep44_target_salted (dm_public d) (take 127 name)) resp_zero, d') \<and>
    dm_public d' = dm_public d \<and> pl_inv (dm_publog d') \<and> length (dm_pubqueue d') = PUBQUEUE_MAX \<and>
    pl_map (dm_publog d') (bep44_target_salted (dm_public d) (take 127 name)) = Some f \<and> \<not> fst f \<and>
    fst (snd (snd f)) = word_of_nat (length v) \<and> pf_value f = Some v \<and>
    Put_mutable_salt (dm_public d) (dm_secret d) v (word_of_int (en_now env)) (take 127 (c_string (take 127 name)))
      \<in> publish_of ` set (pending (dm_pubqueue d'))"
proof -
  let ?t = "bep44_target_salted (dm_public d) (take 127 name)" and ?l = "word_of_nat (length v) :: u64"
  let ?s = "word_of_int (en_now env) :: u32"
  have n: "unat ?l = length v" using assms(3) by (simp add: PUBQUEUE_MAX_VAL_def unat_of_nat take_bit_nat_eq_self_iff)
  have c: "pl_inv (dm_publog d)" "length (dm_pubqueue d) = PUBQUEUE_MAX" "\<exists>e \<in> set (dm_pubqueue d). \<not> pq_used e"
    "pl_map (dm_publog d) ?t \<noteq> None \<or> card (dom (pl_map (dm_publog d))) < PUBLOG_MAX" using assms(1) by (auto simp: can_publish_def)
  obtain q' e where q: "pubqueue_add_mutable (dm_public d) (dm_secret d) v ?s (Some (take 127 name)) (dm_pubqueue d) = (0, q')"
    "length q' = PUBQUEUE_MAX" "e \<in> set (pending q')"
    "publish_of e = Put_mutable_salt (dm_public d) (dm_secret d) v ?s (take 127 (c_string (take 127 name)))"
    using queue_mutable [OF assms(3) c(3), of "dm_public d" "dm_secret d" ?s "take 127 name"] c(2) by (auto simp: PUBQUEUE_NAME_def)
  obtain rc p' where p: "publog_add ?t False (Some (take 127 name)) (Some v) ?l ?s (en_now env) (dm_publog d) = (rc, p')" by fastforce
  note a = publog_add_ok [OF c(1) _ p, simplified n]
  have rc: "rc = 0" using a(2) c(4) by auto
  obtain arr where arr: "length arr = PUBLOG_MAX_VAL" "take (length v) arr = v"
    "pl_map p' ?t = Some (False, take (PUBLOG_NAME - 1) (c_string (take 127 name)), ?l, arr, ?s, en_now env)"
    using a(4) [OF _ rc] n assms(3) by (auto simp: PUBQUEUE_MAX_VAL_def PUBLOG_MAX_VAL_def)
  have "op_bep44_set env (set_req name v) d = (ok_val ?t resp_zero, d\<lparr>dm_pubqueue := q', dm_publog := p'\<rparr>)"
    using assms(2) q(1) p by (simp add: op_bep44_set_def set_req_def PUBLOG_NAME_def Let_def)
  moreover have "Put_mutable_salt (dm_public d) (dm_secret d) v ?s (take 127 (c_string (take 127 name))) \<in> publish_of ` set (pending q')"
    using q(3,4) by (metis imageI)
  ultimately show ?thesis using arr n q(2) a(1) assms(3)
    by (intro exI [of _ "d\<lparr>dm_pubqueue := q', dm_publog := p'\<rparr>"]
        exI [of _ "(False, take (PUBLOG_NAME - 1) (c_string (take 127 name)), ?l, arr, ?s, en_now env)"])
      (simp add: pf_value_def PUBLOG_MAX_VAL_def PUBQUEUE_MAX_VAL_def)
qed

lemma get_op_logged:
  assumes "pl_inv (dm_publog d)" "pl_map (dm_publog d) (bep44_target_salted (dm_public d) name) = Some f" "\<not> fst f"
    and "length node = 20" "en_self_id env = Some node" "name \<noteq> []"
  shows "op_bep44_get env (get_req node name) d = map_option (\<lambda>v. (ok_val v resp_zero, d)) (pf_value f)"
proof -
  obtain e where e: "pe_fields e = f" "publog_find (\<lambda>e. \<not> pe_immutable e \<and> pe_target e = bep44_target_salted (dm_public d) name) (dm_publog d) =
      (if \<not> pe_immutable e then Some e else None)"
    using publog_find_ok(2) [OF assms(1,2), of "\<lambda>e. \<not> pe_immutable e"] by blast
  have i: "\<not> pe_immutable e" using assms(3) e(1) by (auto simp: pe_fields_def)
  have "answer_logged e = map_option (\<lambda>v. ok_val v resp_zero) (pf_value f)"
    by (simp add: answer_logged_def pf_value_read pe_read_def min_def PUBLOG_MAX_VAL_def ipc_consts flip: e(1))
  then show ?thesis using assms(4-6) e(2) i
    by (simp add: op_bep44_get_def get_req_def norn_get_id_def option.map_comp comp_def)
qed

lemma underflow_big:
  assumes "(n :: nat) < 10 + k" "k < 256"
  shows "1024 < unat (word_of_nat n - 10 - word_of_nat k :: u64)"
proof -
  have w: "(word_of_nat n - 10 - word_of_nat k :: u64) = word_of_int (int n - 10 - int k)" by simp
  have "uint (word_of_int (int n - 10 - int k) :: u64) = (int n - 10 - int k) mod 2 ^ 64" by (simp only: uint_word_of_int) simp
  also have "\<dots> = (int n - 10 - int k + 2 ^ 64) mod 2 ^ 64" by (simp only: mod_add_self2)
  also have "\<dots> = int n - 10 - int k + 2 ^ 64" using assms by (intro mod_pos_pos_trivial) simp_all
  finally show ?thesis unfolding w using assms by (simp add: unat_eq_nat_uint)
qed

text \<open>A daemon that has just started, with the identifier of twenty sevens.\<close>

definition demo_daemon :: daemon where
  "demo_daemon = \<lparr>dm_public = replicate 32 1, dm_secret = replicate 64 2, dm_start = 0, dm_lstore = localstore_init,
     dm_publog = publog_init, dm_pubqueue = pubqueue_init, dm_dht = \<lparr>g_items = [], g_bytes = 0, g_budget = 4096\<rparr>\<rparr>"

definition demo_env :: daemon_env where
  "demo_env = \<lparr>en_now = 1000, en_pid = 1, en_self_id = Some (replicate 20 7), en_nodes = [],
     en_get_mutable = (\<lambda>t pk salt. (0, [])), en_get_immutable = (\<lambda>t. (0, []))\<rparr>"

lemma demo_daemon_ok:
  "pl_inv (dm_publog demo_daemon)" "pl_map (dm_publog demo_daemon) = Map.empty" "can_publish t demo_daemon"
  "length (replicate 20 7 :: bytes) = 20" "en_self_id demo_env = Some (replicate 20 7)"
  "find_item (expire (en_now demo_env) (dm_dht demo_daemon)) t = None" "dht_inv sd (dm_dht demo_daemon)"
  by (simp_all add: demo_daemon_def demo_env_def pl_init_ok can_publish_def pubqueue_init_def PUBQUEUE_MAX_def PUBLOG_MAX_def
      expire_def expire_from.simps find_item_def dht_inv_def DHTSTORE_VMAX_def)

section \<open>Properties\<close>

text \<open>C27: A value of at most 1000 bytes published under a name over the socket is answered with its
  target; a later read of that name from this node's own identifier is answered with exactly
  that value, whatever the network would answer; and in the next seven passes of the main
  loop the daemon calls \<open>norn_put_mutable_salt\<close> with its keys, the value, the time as sequence
  number and the name, cut before its first NUL byte and at 127 bytes. (What that call does is
  the subject of \<open>publish_sends_nothing\<close>.)\<close>

theorem daemon_publish_then_get:
  assumes "can_publish (bep44_target_salted (dm_public d) name) d" "name \<noteq> []" "length name \<le> 256" "length v \<le> 1000"
    and "length node = 20" "en_self_id env' = Some node"
  shows "\<exists>f1 o1 d1 f2 o2 n1 n2.
    nornd_ipc_encode_req (set_req name v) (NORND_IPC_MAX_BODY + 4) = Some f1 \<and>
    serve_client (own_request env be rest) (daemon_backend be) fd f1 ((c, d), subs) = Served o1 (c, d1) subs \<and>
    nornd_ipc_decode_resp o1 = Some (ok_val (bep44_target_salted (dm_public d) name) resp_zero, n1) \<and>
    nornd_ipc_encode_req (get_req node name) (NORND_IPC_MAX_BODY + 4) = Some f2 \<and>
    serve_client (own_request env' be rest) (daemon_backend be) fd' f2 ((c, d1), subs) = Served o2 (c, d1) subs \<and>
    nornd_ipc_decode_resp o2 = Some (ok_val v resp_zero, n2) \<and>
    Put_mutable_salt (dm_public d) (dm_secret d) v (word_of_int (en_now env)) (take 127 (c_string (take 127 name)))
      \<in> set (fst (drains 7 (dm_pubqueue d1)))"
proof -
  have t: "bep44_target_salted (dm_public d) (take 127 name) = bep44_target_salted (dm_public d) name"
    by (simp add: bep44_target_salted_def)
  obtain d1 f where s: "op_bep44_set env (set_req name v) d = (ok_val (bep44_target_salted (dm_public d) name) resp_zero, d1)"
    and d1: "dm_public d1 = dm_public d" "pl_inv (dm_publog d1)" "length (dm_pubqueue d1) = PUBQUEUE_MAX"
      "pl_map (dm_publog d1) (bep44_target_salted (dm_public d) name) = Some f" "\<not> fst f" "pf_value f = Some v"
    and q: "Put_mutable_salt (dm_public d) (dm_secret d) v (word_of_int (en_now env)) (take 127 (c_string (take 127 name)))
      \<in> publish_of ` set (pending (dm_pubqueue d1))"
    using set_op [of d name v env] assms(1,2,4) unfolding t by (auto simp: PUBQUEUE_MAX_VAL_def)
  have g: "op_bep44_get env' (get_req node name) d1 = Some (ok_val v resp_zero, d1)"
    using get_op_logged [OF d1(2) d1(4) [folded d1(1)] d1(5) assms(5,6,2)] d1(6) by simp
  have l: "length v \<le> 64000" "length name \<le> 64000" "length node \<le> 256" using assms(3-5) by auto
  have sm: "small (ok_val (bep44_target_salted (dm_public d) name) resp_zero)" "small (ok_val v resp_zero)"
    using assms(4) by (auto intro!: small_ok simp: bep44_target_salted_def ipc_consts)
  have o: "own_request env be rest (set_req name v) (c, d) = Some (ok_val (bep44_target_salted (dm_public d) name) resp_zero, c, d1)"
    "own_request env' be rest (get_req node name) (c, d1) = Some (ok_val v resp_zero, c, d1)"
    using s g by (simp_all add: own_request_req)
  obtain f1 o1 where 1: "nornd_ipc_encode_req (set_req name v) (NORND_IPC_MAX_BODY + 4) = Some f1"
    "serve_client (own_request env be rest) (daemon_backend be) fd f1 ((c, d), subs) = Served o1 (c, d1) subs"
    "nornd_ipc_decode_resp o1 = Some (ok_val (bep44_target_salted (dm_public d) name) resp_zero, length o1)"
    using own_served [where own = "own_request env be rest", OF own_req_wf(1) [OF assms(3) l(1)] own_req_len(1) [OF l(1)] own_req_op(1) o(1) sm(1)] by blast
  obtain f2 o2 where 2: "nornd_ipc_encode_req (get_req node name) (NORND_IPC_MAX_BODY + 4) = Some f2"
    "serve_client (own_request env' be rest) (daemon_backend be) fd' f2 ((c, d1), subs) = Served o2 (c, d1) subs"
    "nornd_ipc_decode_resp o2 = Some (ok_val v resp_zero, length o2)"
    using own_served [where own = "own_request env' be rest", OF own_req_wf(3) [OF l(3,2)] own_req_len(3) [OF l(2)] own_req_op(3) o(2) sm(2)] by blast
  have p: "set (fst (drains 7 (dm_pubqueue d1))) = publish_of ` set (pending (dm_pubqueue d1))"
    using drains_max [OF d1(3)] by (metis set_image_mset set_mset_mset)
  show ?thesis using 1 2 q [folded p] by blast
qed

theorem daemon_publish_then_get_witness:
  "\<exists>f1 o1 d1 f2 o2 n2.
    nornd_ipc_encode_req (set_req [97] [5, 6]) (NORND_IPC_MAX_BODY + 4) = Some f1 \<and>
    serve_client (own_request demo_env cluster_backend (\<lambda>r s. None)) (daemon_backend cluster_backend) 3 f1
      (((demo_cluster, []), demo_daemon), []) = Served o1 ((demo_cluster, []), d1) [] \<and>
    nornd_ipc_encode_req (get_req (replicate 20 7) [97]) (NORND_IPC_MAX_BODY + 4) = Some f2 \<and>
    serve_client (own_request demo_env cluster_backend (\<lambda>r s. None)) (daemon_backend cluster_backend) 4 f2
      (((demo_cluster, []), d1), []) = Served o2 ((demo_cluster, []), d1) [] \<and>
    nornd_ipc_decode_resp o2 = Some (ok_val [5, 6] resp_zero, n2)"
proof -
  have "[97] \<noteq> ([] :: bytes)" "length [97 :: byte] \<le> 256" "length [5, 6 :: byte] \<le> 1000" by simp_all
  from daemon_publish_then_get [OF demo_daemon_ok(3) this demo_daemon_ok(4,5), of demo_env cluster_backend "\<lambda>r s. None" 3 "(demo_cluster, [])" "[]" 4]
  show ?thesis by blast
qed

lemma get_value_miss:
  assumes "find_item (expire now d) target = None" "0 < cap"
  shows "norn_dht_get_value now target cap d = (None, expire now d)"
  using assms by (simp add: norn_dht_get_value_def dhtstore_get_ex_def get_ex_ret_def Let_def)

lemma get_op_miss:
  assumes "pl_inv (dm_publog d)" "pl_map (dm_publog d) (bep44_target_salted pk name) = None"
    and "(if en_self_id env = Some node then Some (dm_public d) else norn_routing_pubkey env node) = Some pk"
    and "find_item (expire (en_now env) (dm_dht d)) (bep44_target_salted pk name) = None" "name \<noteq> []" "length node = 20"
  shows "op_bep44_get env (get_req node name) d = None"
proof -
  have "publog_find (\<lambda>e. \<not> pe_immutable e \<and> pe_target e = bep44_target_salted pk name) (dm_publog d) = None"
    by (rule publog_find_ok(1) [OF assms(1,2)])
  then show ?thesis using assms(3,5,6) get_value_miss [OF assms(4)]
    by (cases "en_self_id env = Some node") (simp_all add: op_bep44_get_def get_req_def norn_get_id_def Let_def)
qed

text \<open>C35: A client's read that misses runs into undefined behaviour. The store answers a miss with
  0, \<open>norn_dht_get_value\<close> takes only a negative answer for a failure and goes on with a length
  that was never set. So a read by name from any node whose key is known, for a record this
  daemon has not logged and does not hold, and a read by content of a record it does not hold,
  even when it is in the log, have no defined execution: neither "not found" nor the lookup in
  the network that should follow is reached.\<close>

theorem daemon_get_miss_undefined:
  assumes "pl_inv (dm_publog d)" "pl_map (dm_publog d) (bep44_target_salted pk name) = None"
    and "(if en_self_id env = Some node then Some (dm_public d) else norn_routing_pubkey env node) = Some pk"
    and "find_item (expire (en_now env) (dm_dht d)) (bep44_target_salted pk name) = None"
    and "name \<noteq> []" "length name \<le> 64000" "length node = 20"
    and "find_item (expire (en_now env) (dm_dht d)) hash = None" "length hash = 20"
  shows "\<exists>f g. nornd_ipc_encode_req (get_req node name) (NORND_IPC_MAX_BODY + 4) = Some f \<and>
    serve_client (own_request env be rest) (daemon_backend be) fd f ((c, d), subs) = Undefined \<and>
    nornd_ipc_encode_req (get_hash_req hash) (NORND_IPC_MAX_BODY + 4) = Some g \<and>
    serve_client (own_request env be rest) (daemon_backend be) fd g ((c, d), subs) = Undefined"
proof -
  have "op_bep44_get_immutable env (get_hash_req hash) d = None"
    using assms(9) get_value_miss [OF assms(8)] by (simp add: op_bep44_get_immutable_def get_hash_req_def)
  then have o: "own_request env be rest (get_req node name) (c, d) = None" "own_request env be rest (get_hash_req hash) (c, d) = None"
    using get_op_miss [OF assms(1-5,7)] by (simp_all add: own_request_req)
  have l: "length node \<le> 256" "length hash \<le> 256" using assms(7,9) by simp_all
  obtain f where "nornd_ipc_encode_req (get_req node name) (NORND_IPC_MAX_BODY + 4) = Some f"
    "serve_client (own_request env be rest) (daemon_backend be) fd f ((c, d), subs) = Undefined"
    using own_undefined [where own = "own_request env be rest", OF own_req_wf(3) [OF l(1) assms(6)] own_req_len(3) [OF assms(6)] own_req_op(3) o(1)] by blast
  moreover obtain g where "nornd_ipc_encode_req (get_hash_req hash) (NORND_IPC_MAX_BODY + 4) = Some g"
    "serve_client (own_request env be rest) (daemon_backend be) fd g ((c, d), subs) = Undefined"
    using own_undefined [where own = "own_request env be rest", OF own_req_wf(5) [OF l(2) assms(6)] own_req_len(5) [OF assms(6)] own_req_op(5) o(2)] by blast
  ultimately show ?thesis by blast
qed

theorem daemon_get_miss_undefined_witness:
  "(let env = demo_env\<lparr>en_nodes := [\<lparr>rn_id = replicate 20 8, rn_pubkey = Some (replicate 32 9)\<rparr>]\<rparr>;
        serve = (\<lambda>f. serve_client (own_request env cluster_backend (\<lambda>r s. None)) (daemon_backend cluster_backend) 3 f
          (((demo_cluster, []), demo_daemon), [])) in
    \<exists>f g. nornd_ipc_encode_req (get_req (replicate 20 8) [97]) (NORND_IPC_MAX_BODY + 4) = Some f \<and> serve f = Undefined \<and>
      nornd_ipc_encode_req (get_hash_req (replicate 20 7)) (NORND_IPC_MAX_BODY + 4) = Some g \<and> serve g = Undefined)"
proof -
  let ?env = "demo_env\<lparr>en_nodes := [\<lparr>rn_id = replicate 20 8, rn_pubkey = Some (replicate 32 9)\<rparr>]\<rparr>"
  have n: "find_item (expire (en_now ?env) (dm_dht demo_daemon)) t = None" for t using demo_daemon_ok(6) by simp
  have k: "(if en_self_id ?env = Some (replicate 20 8) then Some (dm_public demo_daemon) else norn_routing_pubkey ?env (replicate 20 8)) =
      Some (replicate 32 9)" by (simp add: demo_env_def norn_routing_pubkey_def)
  have p: "pl_map (dm_publog demo_daemon) t = None" for t using demo_daemon_ok(2) by simp
  have l: "[97] \<noteq> ([] :: bytes)" "length [97 :: byte] \<le> 64000" "length (replicate 20 8 :: bytes) = 20" by simp_all
  from daemon_get_miss_undefined [OF demo_daemon_ok(1) p k n l n demo_daemon_ok(4), of cluster_backend "\<lambda>r s. None" 3 "(demo_cluster, [])" "[]"]
  show ?thesis unfolding Let_def .
qed

text \<open>C36: A client can log a publication whose packed bytes say that the name is longer than they
  are; the daemon accepts it, and the next read of that record copies bytes from behind the
  entry's buffer.\<close>

theorem publog_length_underflow:
  assumes "length p \<ge> 10" "length p < 10 + unat (p ! 9)" "p ! 0 = 0"
    and "pl_inv (dm_publog d)" "card (dom (pl_map (dm_publog d))) < PUBLOG_MAX"
    and "name \<noteq> []" "length name \<le> 64000" "length node = 20" "en_self_id env = Some node"
  shows "\<exists>f1 o1 d1 f2 n1.
    nornd_ipc_encode_req (log_req (bep44_target_salted (dm_public d) name) p) (NORND_IPC_MAX_BODY + 4) = Some f1 \<and>
    serve_client (own_request env be rest) (daemon_backend be) fd f1 ((c, d), subs) = Served o1 (c, d1) subs \<and>
    nornd_ipc_decode_resp o1 = Some (ok_empty resp_zero, n1) \<and>
    nornd_ipc_encode_req (get_req node name) (NORND_IPC_MAX_BODY + 4) = Some f2 \<and>
    serve_client (own_request env be rest) (daemon_backend be) fd' f2 ((c, d1), subs) = Undefined"
proof -
  let ?t = "bep44_target_salted (dm_public d) name" and ?nl = "unat (p ! 9)"
  let ?len = "word_of_nat (length p) - 10 - word_of_nat ?nl :: u64"
  have k: "?nl < 256" using unsigned_less [of "p ! 9", where ?'a = nat] by simp
  have big: "\<not> unat ?len \<le> PUBLOG_MAX_VAL"
    using underflow_big [OF assms(2) k] by (simp only: PUBLOG_MAX_VAL_def not_le)
  obtain rc q where q: "publog_add ?t False (if ?nl \<noteq> 0 then Some (if ?nl < PUBLOG_NAME then take ?nl (drop 10 p) else []) else None)
      (Some (drop (10 + ?nl) p)) ?len (le32 (drop 5 p)) (en_now env) (dm_publog d) = (rc, q)" by fastforce
  note a = publog_add_ok [OF assms(4) _ q]
  have rc: "rc = 0" using a(2) big assms(5) by auto
  obtain f where f: "pl_map q ?t = Some f" "\<not> fst f" "pf_value f = None" "pl_inv q"
    using a(4) [OF _ rc] a(1) big by (auto simp: pf_value_def)
  let ?d = "d\<lparr>dm_publog := q\<rparr>"
  have lg: "op_publog_add env (log_req ?t p) d = (ok_empty resp_zero, ?d)"
    using assms(1,3) q by (simp add: op_publog_add_def log_req_def bep44_target_salted_def Let_def)
  have g: "op_bep44_get env (get_req node name) ?d = None"
    using get_op_logged [of ?d name f node env] f assms(6,8,9) by simp
  have l: "length p \<le> 64000" "length ?t \<le> 256" "length node \<le> 256"
    using assms(2,8) k by (simp_all add: bep44_target_salted_def)
  have o: "own_request env be rest (log_req ?t p) (c, d) = Some (ok_empty resp_zero, c, ?d)"
    "own_request env be rest (get_req node name) (c, ?d) = None" using lg g by (simp_all add: own_request_req)
  obtain f1 o1 where 1: "nornd_ipc_encode_req (log_req ?t p) (NORND_IPC_MAX_BODY + 4) = Some f1"
    "serve_client (own_request env be rest) (daemon_backend be) fd f1 ((c, d), subs) = Served o1 (c, ?d) subs"
    "nornd_ipc_decode_resp o1 = Some (ok_empty resp_zero, length o1)"
    using own_served [where own = "own_request env be rest", OF own_req_wf(2) [OF l(2,1)] own_req_len(2) [OF l(1)] own_req_op(2) o(1) small_ok(1)] by blast
  obtain f2 where 2: "nornd_ipc_encode_req (get_req node name) (NORND_IPC_MAX_BODY + 4) = Some f2"
    "serve_client (own_request env be rest) (daemon_backend be) fd' f2 ((c, ?d), subs) = Undefined"
    using own_undefined [where own = "own_request env be rest", OF own_req_wf(3) [OF l(3) assms(7)] own_req_len(3) [OF assms(7)] own_req_op(3) o(2)] by blast
  show ?thesis using 1 2 by blast
qed

theorem publog_length_underflow_witness:
  "\<exists>f1 o1 d1 f2.
    nornd_ipc_encode_req (log_req (bep44_target_salted (dm_public demo_daemon) [97]) [0, 0, 0, 0, 0, 0, 0, 0, 0, 1]) (NORND_IPC_MAX_BODY + 4) = Some f1 \<and>
    serve_client (own_request demo_env cluster_backend (\<lambda>r s. None)) (daemon_backend cluster_backend) 3 f1
      (((demo_cluster, []), demo_daemon), []) = Served o1 ((demo_cluster, []), d1) [] \<and>
    nornd_ipc_encode_req (get_req (replicate 20 7) [97]) (NORND_IPC_MAX_BODY + 4) = Some f2 \<and>
    serve_client (own_request demo_env cluster_backend (\<lambda>r s. None)) (daemon_backend cluster_backend) 4 f2
      (((demo_cluster, []), d1), []) = Undefined"
proof -
  let ?p = "[0, 0, 0, 0, 0, 0, 0, 0, 0, 1] :: bytes"
  have p: "length ?p \<ge> 10" "length ?p < 10 + unat (?p ! 9)" "?p ! 0 = 0" "[97] \<noteq> ([] :: bytes)" "length [97 :: byte] \<le> 64000"
    and c: "card (dom (pl_map (dm_publog demo_daemon))) < PUBLOG_MAX" using demo_daemon_ok(2) by (simp_all add: PUBLOG_MAX_def)
  from publog_length_underflow [OF p(1-3) demo_daemon_ok(1) c p(4,5) demo_daemon_ok(4,5), of cluster_backend "\<lambda>r s. None" 3 "(demo_cluster, [])" "[]" 4]
  show ?thesis by blast
qed

text \<open>Deleting a held record removes it and is answered "not held"; deleting a record that is
  not held changes nothing and is answered ok.\<close>

theorem daemon_del_answers_inverted:
  assumes "dht_inv sd (dm_dht d)" "length t = 20"
  shows "(case held (dm_dht d) t of
      Some e \<Rightarrow> \<exists>d'. op_bep44_del (del_req t) d = (fail ''not held'' resp_zero, d') \<and> held (dm_dht d') t = None
    | None \<Rightarrow> op_bep44_del (del_req t) d = (ok_empty resp_zero, d))"
proof (cases "find_item (dm_dht d) t")
  case None
  then show ?thesis using assms(2)
    by (simp add: held_def op_bep44_del_def del_req_def req_zero_def norn_dht_del_def dhtstore_del_def)
next
  case (Some i)
  note f = find_item_Some [OF Some]
  have "dht_inv sd (remove_at i (dm_dht d))" by (rule remove_at_inv [OF assms(1) f(1)])
  moreover have "t \<notin> it_target ` set (g_items (remove_at i (dm_dht d)))"
    using distinct_map_swap_remove [of it_target "g_items (dm_dht d)" i] assms(1) f by (auto simp: dht_inv_def remove_at_def)
  ultimately have "held (remove_at i (dm_dht d)) t = None" using held_None by (auto simp: held_def)
  then show ?thesis using Some assms(2)
    by (simp add: held_def op_bep44_del_def del_req_def req_zero_def norn_dht_del_def dhtstore_del_def)
qed

theorem daemon_del_answers_inverted_witness:
  "op_bep44_del (del_req (replicate 20 9)) demo_daemon = (ok_empty resp_zero, demo_daemon) \<and>
   (\<exists>d'. op_bep44_del (del_req (sha1 [49, 58, 97])) (demo_daemon\<lparr>dm_dht := snd (dhtstore_put_immutable 0 [97] 0 (dm_dht demo_daemon))\<rparr>) =
      (fail ''not held'' resp_zero, d') \<and> held (dm_dht d') (sha1 [49, 58, 97]) = None)"
proof -
  fix sd :: sodium
  let ?i = "\<lparr>it_used = True, it_immutable = True, it_target = sha1 [49, 58, 97], it_k = replicate 32 0, it_seq = 0, it_v = [97],
      it_sig = replicate 64 0, it_src_ip = 0, it_stored = 0\<rparr>"
  let ?h = "snd (dhtstore_put_immutable 0 [97] 0 (dm_dht demo_daemon))"
  have n: "nat_dec (Suc 0) = [49]" by (simp add: nat_dec.simps [of "Suc 0"])
  have h: "?h = \<lparr>g_items = [?i], g_bytes = 1, g_budget = 4096\<rparr>"
    by (simp add: dhtstore_put_immutable_def demo_daemon_def DHTSTORE_VMAX_def bep44_immutable_target_def n store_item_def
        expire_def expire_from.simps find_item_def per_ip_count_def DHTSTORE_PER_IP_def make_room.simps DHTSTORE_MAX_def Let_def)
  have v: "dht_inv sd ?h"
    by (simp add: h dht_inv_def authentic_def DHTSTORE_VMAX_def DHTSTORE_MAX_def bep44_immutable_target_def n)
  have l: "held (dm_dht demo_daemon) (replicate 20 9) = None" "held ?h (sha1 [49, 58, 97]) = Some ?i"
    unfolding h by (simp_all add: held_def find_item_def demo_daemon_def)
  show ?thesis
    using daemon_del_answers_inverted [OF demo_daemon_ok(7) [of sd], of "replicate 20 9"] l
      daemon_del_answers_inverted [of sd "demo_daemon\<lparr>dm_dht := ?h\<rparr>" "sha1 [49, 58, 97]"] v by simp
qed

end
