(* ===== verification/Norn_Memory.thy ===== *)
theory Norn_Memory
  imports Norn_Prelude
begin

text \<open>
  Integers as a little-endian host keeps them in memory, for the places where the code copies
  an integer to or from a byte buffer with \<open>memcpy\<close>, \<open>fread\<close> or \<open>fwrite\<close>, and the byte order
  conversions of \<open>arpa/inet.h\<close>. Addresses and ports kept in network byte order are the integers
  such a copy of the wire bytes gives.
\<close>

section \<open>Integers in memory\<close>

fun le_bytes :: "nat \<Rightarrow> nat \<Rightarrow> bytes" where
  "le_bytes 0 v = []"
| "le_bytes (Suc n) v = word_of_nat v # le_bytes n (v div 256)"

fun le_val :: "bytes \<Rightarrow> nat" where
  "le_val [] = 0"
| "le_val (b # bs) = unat b + 256 * le_val bs"

definition mem16 :: "u16 \<Rightarrow> bytes" where "mem16 v = le_bytes 2 (unat v)"
definition mem32 :: "u32 \<Rightarrow> bytes" where "mem32 v = le_bytes 4 (unat v)"

definition un_mem16 :: "bytes \<Rightarrow> u16" where "un_mem16 b = word_of_nat (le_val (take 2 b))"
definition un_mem32 :: "bytes \<Rightarrow> u32" where "un_mem32 b = word_of_nat (le_val (take 4 b))"

definition htons :: "u16 \<Rightarrow> u16" where "htons v = un_mem16 (be16 v)"
definition ntohs :: "u16 \<Rightarrow> u16" where "ntohs v = un_be16 (mem16 v)"
definition htonl :: "u32 \<Rightarrow> u32" where "htonl v = un_mem32 (be32 v)"
definition ntohl :: "u32 \<Rightarrow> u32" where "ntohl v = un_be32 (mem32 v)"

section \<open>Integers read back\<close>

lemma length_le_bytes [simp]: "length (le_bytes n v) = n"
  by (induction n arbitrary: v) auto

lemma le_bytes_4: "le_bytes 4 v = [word_of_nat v, word_of_nat (v div 256), word_of_nat (v div 256 div 256), word_of_nat (v div 256 div 256 div 256)]"
proof -
  have "(4 :: nat) = Suc (Suc (Suc (Suc 0)))" by simp
  then show ?thesis by (simp only: le_bytes.simps)
qed

lemma le_round_trip: "v < 256 ^ n \<Longrightarrow> le_val (le_bytes n v) = v"
proof (induction n arbitrary: v)
  case (Suc n)
  have "v div 256 < 256 ^ n" using Suc.prems by (simp add: less_mult_imp_div_less mult.commute)
  then show ?case using Suc.IH [of "v div 256"] by (simp add: unsigned_of_nat take_bit_eq_mod)
qed simp

lemma le32_round_trip: "v < 2 ^ 32 \<Longrightarrow> le_val (le_bytes 4 v) = v"
  by (rule le_round_trip) simp

lemma le_val_less: "le_val b < 256 ^ length b"
proof (induction b)
  case (Cons x b)
  have "unat x < 256" using unsigned_less [of x, where ?'a = nat] by simp
  then show ?case using Cons by simp
qed simp

lemma le_bytes_val: "le_bytes (length b) (le_val b) = b"
proof (induction b)
  case (Cons x b)
  have "unat x < 256" using unsigned_less [of x, where ?'a = nat] by simp
  then have "(unat x + 256 * le_val b) div 256 = le_val b" by simp
  moreover have "(word_of_nat (unat x + 256 * le_val b) :: byte) = word_of_nat (unat x)"
    by (rule word_unat_eq_iff [THEN iffD2])
      (use \<open>unat x < 256\<close> in \<open>simp add: unsigned_of_nat take_bit_eq_mod del: of_nat_add of_nat_mult\<close>)
  ultimately show ?case using Cons by simp
qed simp

lemma length_mem [simp]: "length (mem16 p) = 2" "length (mem32 i) = 4"
  by (simp_all add: mem16_def mem32_def)

lemma un_mem16_mem16 [simp]: "un_mem16 (mem16 v @ r) = v" "un_mem16 (mem16 v) = v"
  using unsigned_less [of v, where ?'a = nat] by (simp_all add: un_mem16_def mem16_def le_round_trip)

lemma un_mem32_mem32 [simp]: "un_mem32 (mem32 v @ r) = v" "un_mem32 (mem32 v) = v"
  using unsigned_less [of v, where ?'a = nat] by (simp_all add: un_mem32_def mem32_def le32_round_trip)

lemma mem16_un_mem16: "length b = 2 \<Longrightarrow> mem16 (un_mem16 b) = b"
  using le_val_less [of b] le_bytes_val [of b] by (simp add: un_mem16_def mem16_def unsigned_of_nat take_bit_eq_mod)

lemma mem32_un_mem32: "length b = 4 \<Longrightarrow> mem32 (un_mem32 b) = b"
  using le_val_less [of b] le_bytes_val [of b] by (simp add: un_mem32_def mem32_def unsigned_of_nat take_bit_eq_mod)

section \<open>Byte order\<close>

lemma mem16_htons [simp]: "mem16 (htons v) = be16 v"
  by (simp add: htons_def mem16_un_mem16)

lemma ntohs_htons [simp]: "ntohs (htons v) = v"
  using un_be16_be16 [of v "[]"] by (simp add: ntohs_def)

lemma htons_ntohs [simp]: "htons (ntohs v) = v"
proof -
  obtain a b where m: "mem16 v = [a, b]" using length_mem(1) [of v] by (cases "mem16 v" rule: remdups_adj.cases) auto
  have "be16 (un_be16 [a, b]) = [a, b]" by (simp add: be16_un_be16)
  then have "un_mem16 (be16 (ntohs v)) = un_mem16 (mem16 v)" by (simp add: ntohs_def m)
  then show ?thesis by (simp add: htons_def)
qed

lemma htons_inj [simp]: "htons a = htons b \<longleftrightarrow> a = b"
  by (metis ntohs_htons)

lemma htons_0 [simp]: "htons p = 0 \<longleftrightarrow> p = 0"
proof -
  have "htons 0 = 0" by (simp add: htons_def un_mem16_def be16_def)
  then show ?thesis by (metis htons_inj)
qed

lemma ntohs_0: "ntohs p = 0 \<longleftrightarrow> p = 0"
  by (metis htons_0 htons_ntohs)

end
