(* ===== verification/Norn_Persist.thy ===== *)
theory Norn_Persist
  imports Norn_Publish Norn_Dhtstore Norn_Memory
begin

text \<open>
  The file in which the daemon keeps its publish log and the records it holds for the network
  across restarts, \<open>src/nornd/dht_persist.c\<close>, with the calls of \<open>src/libnorn/norn_impl.c\<close> it
  makes. A file is its bytes; integers are written as a little-endian host stores them. The
  clock and the signature library are arguments. Saving has no result where it would read
  behind a value buffer, loading where it would write behind its name buffer.
\<close>

section \<open>Library calls\<close>

definition norn_dht_list :: "bool \<Rightarrow> nat \<Rightarrow> dhtstore \<Rightarrow> dht_item_info list" where
  "norn_dht_list want_immutable mx d = dhtstore_list want_immutable (if mx < 128 then mx else 128) d"

definition norn_dht_get_full ::
  "int \<Rightarrow> bytes \<Rightarrow> nat \<Rightarrow> dhtstore \<Rightarrow> (bytes \<times> u32 \<times> bytes \<times> bytes \<times> bool) option \<times> dhtstore" where
  "norn_dht_get_full now target vcap d = dhtstore_get_ex now target vcap d"

definition norn_dht_restore_mutable ::
  "sodium \<Rightarrow> int \<Rightarrow> bytes \<Rightarrow> bytes \<Rightarrow> u32 \<Rightarrow> bytes \<Rightarrow> bytes \<Rightarrow> dhtstore \<Rightarrow> int \<times> dhtstore" where
  "norn_dht_restore_mutable sd now target pubkey seq val sig d = dhtstore_put sd now target pubkey seq val sig [] 0 d"

definition norn_dht_restore_immutable :: "int \<Rightarrow> bytes \<Rightarrow> dhtstore \<Rightarrow> int \<times> dhtstore" where
  "norn_dht_restore_immutable now val d =
     (if val = [] then (-1, d) else case dhtstore_put_immutable now val 0 d of ((rc, t), d') \<Rightarrow> (rc, d'))"

section \<open>Saving\<close>

definition DHT_PERSIST_MAGIC :: nat where "DHT_PERSIST_MAGIC = 0x4e525044"
definition DHT_PERSIST_VERSION :: nat where "DHT_PERSIST_VERSION = 1"

definition save_log_entry :: "publog_entry \<Rightarrow> bytes option" where
  "save_log_entry e =
     map_option (\<lambda>v. pe_target e @ [if pe_immutable e then 1 else 0] @ le_bytes 4 (unat (pe_vlen e)) @ le_bytes 4 (unat (pe_seq e)) @
         le_bytes 8 (nat (pe_published e mod 2 ^ 64)) @ [word_of_nat (length (pe_name e))] @
         take (length (pe_name e) mod 256) (pe_name e) @ v)
       (if pe_vlen e \<noteq> 0 then pe_read (unat (pe_vlen e)) e else Some [])"

fun save_log :: "publog_entry list \<Rightarrow> bytes option" where
  "save_log [] = Some []"
| "save_log (e # es) =
     (case save_log_entry e of
        None \<Rightarrow> None
      | Some b \<Rightarrow> (case save_log es of None \<Rightarrow> None | Some bs \<Rightarrow> Some (b @ bs)))"

definition save_item :: "bytes \<Rightarrow> bytes \<times> u32 \<times> bytes \<times> bytes \<times> bool \<Rightarrow> bytes" where
  "save_item target = (\<lambda>(pk, seq, v, sig, imm).
     target @ [if imm then 1 else 0] @ le_bytes 4 (length v) @ le_bytes 4 (unat seq) @ pk @ sig @ v)"

fun save_items :: "int \<Rightarrow> dht_item_info list \<Rightarrow> dhtstore \<Rightarrow> bytes \<times> dhtstore" where
  "save_items now [] d = ([], d)"
| "save_items now (i # is) d =
     (case norn_dht_get_full now (di_target i) 1024 d of (r, d1) \<Rightarrow>
      case save_items now is d1 of (bs, d2) \<Rightarrow>
        ((case r of None \<Rightarrow> [] | Some x \<Rightarrow> save_item (di_target i) x) @ bs, d2))"

definition dht_persist_save :: "int \<Rightarrow> publog \<Rightarrow> dhtstore \<Rightarrow> bytes option \<times> dhtstore" where
  "dht_persist_save now p d =
     (let total = length (norn_dht_list False 128 d) + length (norn_dht_list True 128 d) in
      case save_items now (norn_dht_list False 128 d) d of (b0, d0) \<Rightarrow>
      case save_items now (norn_dht_list True 128 d0) d0 of (b1, d1) \<Rightarrow>
        (map_option (\<lambda>bs. le_bytes 4 DHT_PERSIST_MAGIC @ le_bytes 4 DHT_PERSIST_VERSION @ le_bytes 4 (publog_count p) @ bs @
             le_bytes 4 total @ b0 @ b1)
           (save_log (List.map_filter (publog_get p) [0..<publog_count p])), d1))"

section \<open>Loading\<close>

text \<open>
  The loops of the two sections. Each returns the bytes that follow, or nothing when the file
  ends within a record; what has been restored by then stays.
\<close>

primrec load_log :: "int \<Rightarrow> nat \<Rightarrow> bytes \<Rightarrow> publog \<Rightarrow> (bytes option \<times> publog) option" where
  "load_log now 0 b p = Some (Some b, p)"
| "load_log now (Suc n) b p =
     (if length b < 38 then Some (None, p)
      else let target = take 20 b; imm = (b ! 20 \<noteq> 0); vl = le_val (take 4 (drop 21 b)); seq = word_of_nat (le_val (take 4 (drop 25 b)));
               nl = unat (b ! 37); b1 = drop 38 b in
      if min nl (length b1) > 128 then None
      else if length b1 < nl then Some (None, p)
      else let name = take nl b1; b2 = drop nl b1 in
      if vl \<noteq> 0 \<and> vl \<le> PUBLOG_MAX_VAL \<and> length b2 < vl then Some (None, p)
      else let val = (if vl \<le> PUBLOG_MAX_VAL then take vl b2 else []); b3 = drop (length val) b2;
               p1 = snd (publog_add target imm (if nl \<noteq> 0 then Some name else None) (if vl \<noteq> 0 then Some val else None)
                           (word_of_nat vl) seq now p)
           in load_log now n b3 p1)"

text \<open>A value above the buffer is not read, and refused by its length.\<close>

primrec load_items :: "sodium \<Rightarrow> int \<Rightarrow> nat \<Rightarrow> bytes \<Rightarrow> dhtstore \<Rightarrow> bytes option \<times> dhtstore" where
  "load_items sd now 0 b d = (Some b, d)"
| "load_items sd now (Suc n) b d =
     (if length b < 125 then (None, d)
      else let target = take 20 b; imm = (b ! 20 \<noteq> 0); vl = le_val (take 4 (drop 21 b)); seq = word_of_nat (le_val (take 4 (drop 25 b)));
               pk = take 32 (drop 29 b); sig = take 64 (drop 61 b); b1 = drop 125 b in
      if vl \<noteq> 0 \<and> vl \<le> 1024 \<and> length b1 < vl then (None, d)
      else let v = (if vl \<le> 1024 then take vl b1 else []); b2 = drop (length v) b1;
               d1 = (if vl > 1024 then d
                     else if imm then snd (norn_dht_restore_immutable now v d)
                     else snd (norn_dht_restore_mutable sd now target pk seq v sig d))
           in load_items sd now n b2 d1)"

declare load_log.simps(2) [simp del] load_items.simps(2) [simp del]

definition dht_persist_load :: "sodium \<Rightarrow> int \<Rightarrow> bytes \<Rightarrow> publog \<Rightarrow> dhtstore \<Rightarrow> (int \<times> publog \<times> dhtstore) option" where
  "dht_persist_load sd now b p d =
     (if length b < 8 \<or> le_val (take 4 b) \<noteq> DHT_PERSIST_MAGIC \<or> le_val (take 4 (drop 4 b)) \<noteq> DHT_PERSIST_VERSION
      then Some (-1, p, d)
      else if length b < 12 then Some (-1, p, d)
      else case load_log now (le_val (take 4 (drop 8 b))) (drop 12 b) p of
        None \<Rightarrow> None
      | Some (None, p1) \<Rightarrow> Some (-1, p1, d)
      | Some (Some b1, p1) \<Rightarrow>
          if length b1 < 4 then Some (-1, p1, d)
          else case load_items sd now (le_val (take 4 b1)) (drop 4 b1) d of
            (None, d1) \<Rightarrow> Some (-1, p1, d1)
          | (Some _, d1) \<Rightarrow> Some (0, p1, d1))"

section \<open>The publish log survives a restart\<close>

text \<open>What a log entry says, apart from the time it was made.\<close>

type_synonym log_view = "bool \<times> bytes \<times> bytes option \<times> u32"

definition pf_view :: "publog_fields \<Rightarrow> log_view" where
  "pf_view f = (case f of (imm, name, vlen, arr, seq, t) \<Rightarrow> (imm, name, pf_value f, seq))"

definition pl_view :: "publog \<Rightarrow> bytes \<Rightarrow> log_view option" where
  "pl_view p k = map_option pf_view (pl_map p k)"

definition entry_view :: "publog_entry \<Rightarrow> log_view" where
  "entry_view e = pf_view (pe_fields e)"

definition entry_wf :: "publog_entry \<Rightarrow> bool" where
  "entry_wf e \<longleftrightarrow> length (pe_target e) = 20 \<and> unat (pe_vlen e) \<le> PUBLOG_MAX_VAL \<and> length (pe_value e) = PUBLOG_MAX_VAL \<and>
     length (pe_name e) < PUBLOG_NAME \<and> 0 \<notin> set (pe_name e)"

text \<open>A well-formed entry is written, and what is read from the front of the file is the entry.\<close>

lemma load_log_step:
  assumes "length t = 20" "length pb = 8" "length v = vl" "vl \<le> 1024" "length name < 128" "sq < 2 ^ 32"
  shows "load_log now (Suc m) ((t @ [i] @ le_bytes 4 vl @ le_bytes 4 sq @ pb @ [word_of_nat (length name)]) @ name @ v @ rest) p =
    load_log now m rest (snd (publog_add t (i \<noteq> 0) (if name \<noteq> [] then Some name else None) (if vl \<noteq> 0 then Some v else None)
      (word_of_nat vl) (word_of_nat sq) now p))"
proof -
  let ?h = "t @ [i] @ le_bytes 4 vl @ le_bytes 4 sq @ pb @ [word_of_nat (length name)]"
  have f: "length ?h = 38" "take 20 (?h @ r) = t" "(?h @ r) ! 20 = i" "take 4 (drop 21 (?h @ r)) = le_bytes 4 vl"
    "take 4 (drop 25 (?h @ r)) = le_bytes 4 sq" "(?h @ r) ! 37 = word_of_nat (length name)" "drop 38 (?h @ r) = r" for r
    using assms(1,2) by (simp_all add: nth_append)
  have n: "unat (word_of_nat (length name) :: byte) = length name" using assms(5) by (simp add: unsigned_of_nat take_bit_eq_mod)
  have v: "le_val (le_bytes 4 vl) = vl" "le_val (le_bytes 4 sq) = sq" using assms(4,6) by (intro le32_round_trip; simp)+
  have l: "length (?h @ r) < 38 \<longleftrightarrow> False" for r using assms(1,2) by simp
  show ?thesis
    unfolding load_log.simps Let_def by (simp only: f n v l if_False) (use assms(3-5) in \<open>simp add: PUBLOG_MAX_VAL_def\<close>)
qed

lemma save_entry_ok:
  assumes "entry_wf e"
  shows "\<exists>b. save_log_entry e = Some b \<and>
    (\<forall>now n rest p. load_log now (Suc n) (b @ rest) p = load_log now n rest
       (snd (publog_add (pe_target e) (pe_immutable e) (if pe_name e \<noteq> [] then Some (pe_name e) else None)
         (if pe_vlen e \<noteq> 0 then Some (take (unat (pe_vlen e)) (pe_value e)) else None) (pe_vlen e) (pe_seq e) now p)))"
proof -
  let ?vl = "unat (pe_vlen e)" and ?v = "take (unat (pe_vlen e)) (pe_value e)" and ?pb = "le_bytes 8 (nat (pe_published e mod 2 ^ 64))"
  have w: "length (pe_target e) = 20" "length ?v = ?vl" "?vl \<le> 1024" "length (pe_name e) < 128"
    using assms by (auto simp: entry_wf_def PUBLOG_MAX_VAL_def PUBLOG_NAME_def)
  let ?h = "pe_target e @ [if pe_immutable e then 1 else 0] @ le_bytes 4 ?vl @ le_bytes 4 (unat (pe_seq e)) @ ?pb @ [word_of_nat (length (pe_name e))]"
  have b: "save_log_entry e = Some (?h @ pe_name e @ ?v)"
    using w by (auto simp: save_log_entry_def pe_read_def PUBLOG_MAX_VAL_def)
  have s: "unat (pe_seq e) < 2 ^ 32" using unsigned_less [of "pe_seq e", where ?'a = nat] by simp
  show ?thesis using b load_log_step [OF w(1) _ w(2-4) s, of ?pb _ _ "if pe_immutable e then 1 else 0"] by (simp add: unat_eq_0)
qed

lemma add_view:
  assumes "pl_inv p" "entry_wf e" "pl_map p (pe_target e) = None" "card (dom (pl_map p)) < PUBLOG_MAX"
    and "publog_add (pe_target e) (pe_immutable e) (if pe_name e \<noteq> [] then Some (pe_name e) else None)
         (if pe_vlen e \<noteq> 0 then Some (take (unat (pe_vlen e)) (pe_value e)) else None) (pe_vlen e) (pe_seq e) now p = (rc, p')"
  shows "pl_inv p' \<and> pl_view p' = (pl_view p)(pe_target e \<mapsto> entry_view e) \<and> dom (pl_map p') = insert (pe_target e) (dom (pl_map p))"
proof -
  have w: "unat (pe_vlen e) \<le> PUBLOG_MAX_VAL" "length (take (unat (pe_vlen e)) (pe_value e)) = unat (pe_vlen e)" "0 \<notin> set (pe_name e)"
    "length (pe_name e) \<le> 127" using assms(2) by (auto simp: entry_wf_def PUBLOG_NAME_def)
  have v: "unat (pe_vlen e) \<le> length v" if "(if pe_vlen e \<noteq> 0 then Some (take (unat (pe_vlen e)) (pe_value e)) else None) = Some v" for v
    using that w(2) by (auto split: if_splits)
  note a = publog_add_ok [OF assms(1) v assms(5)]
  have rc: "rc = 0" using a(2) assms(4) by simp
  have nm: "(case if pe_name e \<noteq> [] then Some (pe_name e) else None of Some s \<Rightarrow> take (PUBLOG_NAME - 1) (c_string s) | None \<Rightarrow> []) = pe_name e"
    using w(3,4) by (simp add: c_string_id PUBLOG_NAME_def)
  obtain arr where arr: "pl_map p' = (pl_map p)(pe_target e \<mapsto> (pe_immutable e, pe_name e, pe_vlen e, arr, pe_seq e, now))"
    "pe_vlen e \<noteq> 0 \<Longrightarrow> take (unat (pe_vlen e)) arr = take (unat (pe_vlen e)) (pe_value e)"
    using a(4) [OF _ rc] w(1) unfolding nm by auto
  have "take (unat (pe_vlen e)) arr = take (unat (pe_vlen e)) (pe_value e)" using arr(2) by (cases "pe_vlen e = 0") auto
  then have "pf_view (pe_immutable e, pe_name e, pe_vlen e, arr, pe_seq e, now) = entry_view e"
    by (simp add: pf_view_def pf_value_def entry_view_def pe_fields_def)
  then show ?thesis using a(1) arr(1) by (auto simp: pl_view_def fun_eq_iff)
qed

lemma save_load_log:
  assumes "\<forall>e \<in> set es. entry_wf e" "distinct (map pe_target es)" "pl_inv p" "\<forall>e \<in> set es. pl_map p (pe_target e) = None"
    "card (dom (pl_map p)) + length es \<le> PUBLOG_MAX"
  shows "\<exists>b. save_log es = Some b \<and> (\<forall>rest. \<exists>p'. load_log now (length es) (b @ rest) p = Some (Some rest, p') \<and>
    pl_inv p' \<and> pl_view p' = pl_view p ++ map_of (map (\<lambda>e. (pe_target e, entry_view e)) es))"
  using assms
proof (induction es arbitrary: p)
  case (Cons e es)
  obtain b where b: "save_log_entry e = Some b" "\<And>n rest p. load_log now (Suc n) (b @ rest) p = load_log now n rest
       (snd (publog_add (pe_target e) (pe_immutable e) (if pe_name e \<noteq> [] then Some (pe_name e) else None)
         (if pe_vlen e \<noteq> 0 then Some (take (unat (pe_vlen e)) (pe_value e)) else None) (pe_vlen e) (pe_seq e) now p))"
    using save_entry_ok [of e] Cons.prems(1) by auto
  obtain rc p1 where p1: "publog_add (pe_target e) (pe_immutable e) (if pe_name e \<noteq> [] then Some (pe_name e) else None)
         (if pe_vlen e \<noteq> 0 then Some (take (unat (pe_vlen e)) (pe_value e)) else None) (pe_vlen e) (pe_seq e) now p = (rc, p1)" by fastforce
  have v: "pl_inv p1" "pl_view p1 = (pl_view p)(pe_target e \<mapsto> entry_view e)" "dom (pl_map p1) = insert (pe_target e) (dom (pl_map p))"
    using add_view [OF Cons.prems(3) _ _ _ p1] Cons.prems by auto
  have "card (dom (pl_map p1)) \<le> Suc (card (dom (pl_map p)))" by (cases "finite (dom (pl_map p))") (simp_all add: v(3) card_insert_if)
  then have c: "card (dom (pl_map p1)) + length es \<le> PUBLOG_MAX" using Cons.prems(5) by simp
  have "\<forall>x \<in> set es. pe_target x \<notin> dom (pl_map p1)" unfolding v(3) using Cons.prems(2,4) by (auto, metis imageI)
  then have n: "\<forall>x \<in> set es. pl_map p1 (pe_target x) = None" by (simp only: domIff not_not)
  obtain bs where bs: "save_log es = Some bs" "\<And>rest. \<exists>p'. load_log now (length es) (bs @ rest) p1 = Some (Some rest, p') \<and>
      pl_inv p' \<and> pl_view p' = pl_view p1 ++ map_of (map (\<lambda>e. (pe_target e, entry_view e)) es)"
    using Cons.IH [OF _ _ v(1) n c] Cons.prems(1,2) by auto
  have k: "pe_target e \<notin> dom (map_of (map (\<lambda>e. (pe_target e, entry_view e)) es))"
    using Cons.prems(2) by (simp add: dom_map_of_conv_image_fst image_image)
  have "\<exists>p'. load_log now (length (e # es)) ((b @ bs) @ rest) p = Some (Some rest, p') \<and> pl_inv p' \<and>
      pl_view p' = pl_view p ++ map_of (map (\<lambda>e. (pe_target e, entry_view e)) (e # es))" for rest
    using bs(2) [of rest] b(2) [of "length es" "bs @ rest" p] p1 v(2) map_add_upd_left [OF k, of "pl_view p"] by auto
  then show ?case using b(1) bs(1) by (intro exI [of _ "b @ bs"] conjI allI) (simp_all only: save_log.simps option.case)
qed (simp add: pl_inv_def)

lemma pl_view_entries:
  assumes "pl_inv p"
  shows "pl_view p = map_of (map (\<lambda>e. (pe_target e, entry_view e)) (filter pe_used p))"
proof -
  have "slots_distinct pe_used pe_target p" using assms by (simp add: pl_inv_def)
  then have "map_option pf_view (slot_map pe_used pe_target pe_fields p k) =
      map_of (map (\<lambda>e. (pe_target e, entry_view e)) (filter pe_used p)) k" for k
    by (induction p) (auto simp: entry_view_def)
  then show ?thesis by (simp add: pl_view_def pl_map_def fun_eq_iff)
qed

section \<open>Records restored\<close>

text \<open>All records come back as if sent by one peer.\<close>

definition restored :: "dhtstore \<Rightarrow> bool" where
  "restored d \<longleftrightarrow> length (g_items d) \<le> DHTSTORE_PER_IP \<and>
     (\<forall>e \<in> set (g_items d). it_used e \<and> it_src_ip e = 0 \<and> (\<not> it_immutable e \<longrightarrow> it_target e = bep44_target (it_k e)))"

lemma restored_sub:
  assumes "restored d" "set (g_items d') \<subseteq> set (g_items d)" "length (g_items d') \<le> length (g_items d)"
  shows "restored d'"
  using assms by (auto simp: restored_def)

lemma remove_at_sub:
  "i < length (g_items d) \<Longrightarrow> set (g_items (remove_at i d)) \<subseteq> set (g_items d) \<and> length (g_items (remove_at i d)) \<le> length (g_items d)"
  using set_swap_remove_subset [of i "g_items d"] by (auto simp: remove_at_def)

lemma restored_expire: "restored d \<Longrightarrow> restored (expire_from now i d)"
proof (induction now i d rule: expire_from.induct)
  case (1 now i d)
  then show ?case using restored_sub [of d "remove_at i d"] remove_at_sub [of i d] by (subst expire_from.simps) auto
qed

lemma restored_make_room: "restored d \<Longrightarrow> restored (make_room vlen d)"
proof (induction vlen d rule: make_room.induct)
  case (1 vlen d)
  have "restored (evict_lru d)" if "g_items d \<noteq> []"
    using that "1.prems" restored_sub [of d "remove_at (oldest_idx (g_items d)) d"] remove_at_sub oldest_idx_less [of "g_items d"]
    by (auto simp: evict_lru_def)
  then show ?case using 1 by (subst make_room.simps) auto
qed

lemma make_room_length: "length (g_items (make_room vlen d)) \<le> length (g_items d)"
proof (induction vlen d rule: make_room.induct)
  case (1 vlen d)
  show ?case
  proof (cases "(g_bytes d + vlen > g_budget d \<or> length (g_items d) \<ge> DHTSTORE_MAX) \<and> g_items d \<noteq> []")
    case True
    then show ?thesis using 1 evict_lru_length [of d] by (simp add: make_room.simps [of vlen d])
  next
    case False
    then show ?thesis by (subst make_room.simps) auto
  qed
qed

lemma restored_store:
  assumes "restored d" "\<not> imm \<Longrightarrow> target = bep44_target k"
  shows "restored (snd (store_item now target k seq v sig imm 0 d))"
proof -
  let ?d = "expire now d"
  let ?e = "\<lparr>it_used = True, it_immutable = imm, it_target = target, it_k = k, it_seq = seq, it_v = v, it_sig = sig, it_src_ip = 0, it_stored = now\<rparr>"
  have r: "restored ?d" unfolding expire_def by (rule restored_expire [OF assms(1)])
  let ?ok = "\<lambda>e. it_used e \<and> it_src_ip e = 0 \<and> (\<not> it_immutable e \<longrightarrow> it_target e = bep44_target (it_k e))"
  have upd: "\<forall>e \<in> set ((g_items ?d)[i := x]). ?ok e" if "?ok x" for i x
    using that r set_update_subset_insert [of "g_items ?d" i x] by (auto simp: restored_def)
  have l: "length (g_items ?d) \<le> DHTSTORE_PER_IP" using r by (simp add: restored_def)
  show ?thesis
  proof (cases "find_item ?d target")
    case (Some i)
    have "g_items ?d ! i \<in> set (g_items ?d)" using find_item_Some(1) [OF Some] by simp
    then have o: "?ok (g_items ?d ! i)" using r by (auto simp: restored_def)
    have 1: "\<forall>e \<in> set ((g_items ?d)[i := (g_items ?d ! i)\<lparr>it_stored := now\<rparr>]). ?ok e" using o by (intro upd) simp
    have 2: "\<forall>e \<in> set ((g_items ?d)[i := ?e]). ?ok e" if "\<not> imm" using assms(2) that by (intro upd) simp
    show ?thesis using Some r l 1 2 o by (simp add: store_item_def Let_def restored_def)
  next
    case None
    have f: "filter (\<lambda>e. it_used e \<and> it_src_ip e = 0) (g_items ?d) = g_items ?d"
      using r by (auto simp: restored_def intro!: filter_True)
    have c: "length (g_items (make_room (length v) ?d)) < DHTSTORE_PER_IP" if "\<not> per_ip_count ?d 0 \<ge> DHTSTORE_PER_IP"
      using that f make_room_length [of "length v" ?d] by (simp add: per_ip_count_def)
    show ?thesis using None r restored_make_room [OF r, of "length v"] c assms(2)
      by (auto simp: store_item_def Let_def restored_def)
  qed
qed

lemma restored_load_items: "restored d \<Longrightarrow> restored (snd (load_items sd now n b d))"
proof (induction n arbitrary: b d)
  case (Suc n)
  have m: "restored (snd (norn_dht_restore_mutable sd now t pk sq v sg d))" for t pk sq v sg
    using Suc.prems restored_store [OF Suc.prems, of False t pk now sq v sg]
    by (auto simp: norn_dht_restore_mutable_def dhtstore_put_def split: option.split)
  have i: "restored (snd (norn_dht_restore_immutable now v d))" for v
    using Suc.prems restored_store [OF Suc.prems, of True _ "replicate 32 0" now 0 v "replicate 64 0"]
    by (auto simp: norn_dht_restore_immutable_def dhtstore_put_immutable_def split_beta Let_def split: option.split)
  show ?case using Suc.prems m i by (auto simp: load_items.simps(2) Let_def intro!: Suc.IH)
qed simp

lemma load_head:
  assumes "n < 2 ^ 32"
  shows "dht_persist_load sd now (le_bytes 4 DHT_PERSIST_MAGIC @ le_bytes 4 DHT_PERSIST_VERSION @ le_bytes 4 n @ b) p d =
    (case load_log now n b p of
        None \<Rightarrow> None
      | Some (None, p1) \<Rightarrow> Some (-1, p1, d)
      | Some (Some b1, p1) \<Rightarrow>
          if length b1 < 4 then Some (-1, p1, d)
          else case load_items sd now (le_val (take 4 b1)) (drop 4 b1) d of
            (None, d1) \<Rightarrow> Some (-1, p1, d1)
          | (Some _, d1) \<Rightarrow> Some (0, p1, d1))"
proof -
  have "le_val (le_bytes 4 DHT_PERSIST_MAGIC) = DHT_PERSIST_MAGIC" "le_val (le_bytes 4 DHT_PERSIST_VERSION) = DHT_PERSIST_VERSION"
    "le_val (le_bytes 4 n) = n"
    using assms by (simp_all add: le32_round_trip DHT_PERSIST_MAGIC_def DHT_PERSIST_VERSION_def del: le_bytes.simps)
  then show ?thesis by (simp add: dht_persist_load_def)
qed

section \<open>Properties\<close>

text \<open>C28: A well-formed publish log that is saved and loaded into an empty log at a later time says
  the same of every target: kind, name, value and sequence number; whatever records are saved
  with it, and whatever becomes of those.\<close>

theorem persist_publog_survives:
  assumes "pl_inv p" "\<forall>e \<in> set p. pe_used e \<longrightarrow> entry_wf e"
  shows "\<exists>b d'. dht_persist_save now p d = (Some b, d') \<and>
    (\<forall>sd now' d2. \<exists>rc p' d3. dht_persist_load sd now' b publog_init d2 = Some (rc, p', d3) \<and> pl_inv p' \<and> pl_view p' = pl_view p)"
proof -
  let ?es = "filter pe_used p"
  have e: "\<forall>e \<in> set ?es. entry_wf e" "distinct (map pe_target ?es)" "length ?es \<le> PUBLOG_MAX"
    using assms length_filter_le [of pe_used p] by (auto simp: pl_inv_def slots_distinct_def)
  obtain bs where bs: "save_log ?es = Some bs" using save_load_log [OF e(1,2) pl_init_ok(1), of 0] e(3) by (auto simp: pl_init_ok)
  have z: "pl_view publog_init = Map.empty" by (simp add: pl_view_def pl_init_ok fun_eq_iff)
  have l: "\<exists>p'. load_log now' (length ?es) (bs @ rest) publog_init = Some (Some rest, p') \<and> pl_inv p' \<and> pl_view p' = pl_view p" for now' rest
    using save_load_log [OF e(1,2) pl_init_ok(1), of now'] e(3) bs pl_view_entries [OF assms(1)]
    by (auto simp: pl_init_ok z)
  have c: "publog_count p < 2 ^ 32" using e(3) by (simp add: publog_count_def PUBLOG_MAX_def)
  obtain rest d' where s: "dht_persist_save now p d =
      (Some (le_bytes 4 DHT_PERSIST_MAGIC @ le_bytes 4 DHT_PERSIST_VERSION @ le_bytes 4 (publog_count p) @ bs @ rest), d')"
    using bs by (simp add: dht_persist_save_def publog_all split_beta Let_def)
  have "\<exists>rc p' d3. dht_persist_load sd now'
      (le_bytes 4 DHT_PERSIST_MAGIC @ le_bytes 4 DHT_PERSIST_VERSION @ le_bytes 4 (publog_count p) @ bs @ rest) publog_init d2 = Some (rc, p', d3) \<and>
      pl_inv p' \<and> pl_view p' = pl_view p" for sd now' d2
  proof -
    obtain p' where p': "load_log now' (publog_count p) (bs @ rest) publog_init = Some (Some rest, p')" "pl_inv p'" "pl_view p' = pl_view p"
      using l [of now' rest] by (auto simp: publog_count_def)
    show ?thesis unfolding load_head [OF c] p'(1) using p'(2,3) by (auto split: prod.splits option.splits)
  qed
  then show ?thesis using s by blast
qed

theorem persist_publog_survives_witness:
  "(let p = snd (publog_add (replicate 20 1) False (Some [97]) (Some [5]) 1 7 0 publog_init); d = dhtstore_init 0 1 False in
    \<exists>b d' rc p' d3. dht_persist_save 0 p d = (Some b, d') \<and> dht_persist_load toy_sodium 5 b publog_init d = Some (rc, p', d3) \<and>
      pl_view p' (replicate 20 1) = Some (False, [97], Some [5], 7))"
proof -
  let ?p = "snd (publog_add (replicate 20 1) False (Some [97]) (Some [5]) 1 7 0 publog_init)"
  obtain e where e: "publog_init = replicate 256 e" "\<not> pe_used e" "length (pe_value e) = PUBLOG_MAX_VAL"
    by (simp add: publog_init_def PUBLOG_MAX_def)
  have "(256 :: nat) = Suc 255" by simp
  then have r: "replicate 256 e = e # replicate 255 e" by (simp only: replicate_Suc)
  let ?x = "pe_fill (replicate 20 1) (False, [97], 1, 5 # tl (pe_value e), 7, 0) e"
  have n: "find_idx (\<lambda>e. pe_used e \<and> pe_target e = replicate 20 1) (replicate 255 e) = None" using e(2) by simp
  have p: "?p = ?x # replicate 255 e"
    unfolding e(1) r using e(2) n
    by (simp add: publog_add_def pe_write_def c_string_def PUBLOG_NAME_def PUBLOG_MAX_VAL_def drop_Suc del: find_idx_None_iff)
  obtain rc where a: "publog_add (replicate 20 1) False (Some [97]) (Some [5]) 1 7 0 publog_init = (rc, ?p)" by (metis surjective_pairing)
  have i: "pl_inv ?p" by (rule publog_add_ok(1) [OF pl_init_ok(1) _ a]) simp
  have w: "\<forall>e \<in> set ?p. pe_used e \<longrightarrow> entry_wf e"
    unfolding p using e(2,3) by (simp add: entry_wf_def pe_fill_def pe_set_def PUBLOG_MAX_VAL_def PUBLOG_NAME_def)
  have v: "pl_view ?p (replicate 20 1) = Some (False, [97], Some [5], 7)"
    unfolding pl_view_entries [OF i] unfolding p
    by (simp add: entry_view_def pf_view_def pf_value_def pe_fill_def pe_set_def pe_fields_def PUBLOG_MAX_VAL_def)
  show ?thesis using persist_publog_survives [OF i w, of 0 "dhtstore_init 0 1 False"] v unfolding Let_def by metis
qed

text \<open>C39: Whatever file is loaded into an empty store of records, at most 32 records come back, because
  all of them count as sent by one address; and no record published under a salted target is
  among them, because the salt is not saved.\<close>

theorem persist_restores_few:
  assumes "dht_persist_load sd now b p d = Some (rc, p', d')" "g_items d = []"
  shows "length (g_items d') \<le> 32 \<and> (\<forall>e \<in> set (g_items d'). \<not> it_immutable e \<longrightarrow> it_target e = bep44_target (it_k e))"
proof -
  have "restored d" using assms(2) by (simp add: restored_def)
  then have "restored d'" using assms(1) restored_load_items [of d sd now]
    by (auto simp: dht_persist_load_def split: if_splits option.splits prod.splits) (metis snd_conv)+
  then show ?thesis by (auto simp: restored_def DHTSTORE_PER_IP_def)
qed

lemma load_saved_item:
  assumes "length t = 20" "length pk = 32" "length sig = 64" "length v \<le> 1024"
  shows "load_items sd now (Suc n) (save_item t (pk, seq, v, sig, imm) @ b) d =
    load_items sd now n b (if imm then snd (norn_dht_restore_immutable now v d)
      else snd (norn_dht_restore_mutable sd now t pk seq v sig d))"
proof -
  have l: "length v < 2 ^ 32" "unat seq < 2 ^ 32" using assms(4) unsigned_less [of seq, where ?'a = nat] by auto
  show ?thesis using assms
    by (simp add: load_items.simps(2) save_item_def nth_append le32_round_trip [OF l(1)] le32_round_trip [OF l(2)] Let_def)
qed

text \<open>A record signed with a salt, as a peer would publish it, and its entry in the file.\<close>

definition demo_salted :: bytes where
  "demo_salted = the (bep44_signbuf_salted [9] 1 [6] 1088)"

definition demo_saved :: bytes where
  "demo_saved = (let pk = sig_pub toy_sodium [7] in
     save_item (bep44_target_salted pk [9]) (pk, 1, [6], sig_sign toy_sodium demo_salted [7], False) @
     save_item (the (bep44_immutable_target [5])) (replicate 32 0, 0, [5], replicate 64 0, True))"

theorem persist_restores_few_witness:
  "(let b = le_bytes 4 DHT_PERSIST_MAGIC @ le_bytes 4 DHT_PERSIST_VERSION @ le_bytes 4 0 @ le_bytes 4 2 @ demo_saved in
    \<exists>d'. dht_persist_load toy_sodium 0 b publog_init (dhtstore_init 0 1 False) = Some (0, publog_init, d') \<and>
      map it_v (g_items d') = [[5]] \<and> length (g_items d') \<le> 32)"
proof -
  let ?d = "dhtstore_init 0 1 False" and ?pk = "sig_pub toy_sodium [7]" and ?sig = "sig_sign toy_sodium demo_salted [7]"
  let ?b = "le_bytes 4 DHT_PERSIST_MAGIC @ le_bytes 4 DHT_PERSIST_VERSION @ le_bytes 4 0 @ le_bytes 4 2 @ demo_saved"
  have v: "case bep44_signbuf_salted [] 1 [6] (64 + DHTSTORE_VMAX) of None \<Rightarrow> True | Some buf \<Rightarrow> bf_verify toy_sodium ?sig buf ?pk \<noteq> 0"
    by code_simp
  have m: "snd (norn_dht_restore_mutable toy_sodium 0 t ?pk 1 [6] ?sig ?d) = ?d" for t
    using v by (auto simp: norn_dht_restore_mutable_def dhtstore_put_def split: option.splits)
  define d' where "d' = snd (norn_dht_restore_immutable 0 [5] ?d)"
  have i: "map it_v (g_items d') = [[5]]"
    by (simp add: d'_def norn_dht_restore_immutable_def dhtstore_put_immutable_def bep44_immutable_target_def store_item_def dhtstore_init_def
        DHTSTORE_VMAX_def DHTSTORE_PER_IP_def expire_def expire_from.simps find_item_def per_ip_count_def make_room.simps Let_def)
  have l: "length (sig_pub toy_sodium [7]) = 32" "length ?sig = 64" "length (bep44_target_salted ?pk [9]) = 20"
    "length (the (bep44_immutable_target [5])) = 20"
    using sodium_okD [OF toy_ok] by (simp_all add: toy_len bep44_target_salted_def bep44_immutable_target_def)
  have z: "le_val (le_bytes 4 2) = Suc (Suc 0)" by (simp add: le32_round_trip)
  have "load_items toy_sodium 0 (Suc (Suc 0)) demo_saved ?d = (Some [], d')"
    unfolding demo_saved_def Let_def using l by (simp add: load_saved_item load_saved_item [where b = "[]", simplified] m d'_def)
  then have ld: "dht_persist_load toy_sodium 0 ?b publog_init ?d = Some (0, publog_init, d')"
    by (subst load_head) (simp_all add: z)
  show ?thesis using persist_restores_few [OF ld] ld i unfolding Let_def by (simp add: dhtstore_init_def)
qed

text \<open>A file with a log entry whose name is said to be longer than 128 bytes, and is, makes the
  loader write behind the buffer it reads the name into.\<close>

theorem persist_load_overflow:
  assumes "0 < n" "n < 2 ^ 32" "length h = 37" "unat nl > 128" "length name > 128"
  shows "dht_persist_load sd now (le_bytes 4 DHT_PERSIST_MAGIC @ le_bytes 4 DHT_PERSIST_VERSION @ le_bytes 4 n @ h @ [nl] @ name) p d = None"
proof -
  obtain m where m: "n = Suc m" using assms(1) by (cases n) auto
  have "load_log now (Suc m) (h @ [nl] @ name) p = None"
    using assms(3-5) by (simp add: load_log.simps(2) Let_def nth_append)
  then show ?thesis by (simp only: load_head [OF assms(2)]) (simp add: m)
qed

theorem persist_load_overflow_witness:
  "dht_persist_load toy_sodium 0
     (le_bytes 4 DHT_PERSIST_MAGIC @ le_bytes 4 DHT_PERSIST_VERSION @ le_bytes 4 1 @ replicate 37 0 @ [200] @ replicate 200 65)
     publog_init (dhtstore_init 0 1 False) = None"
  by (rule persist_load_overflow) simp_all

end
