(* ===== verification/Norn_Net.thy ===== *)
theory Norn_Net
  imports Norn_Memory
begin

text \<open>
  The part of the network layer, \<open>src/libnorn/net.c\<close>, that decides what the public address of
  the node is: votes on the address peers report, the symmetric NAT flag, the mapped endpoint
  and the classification shown to the user. Sockets are left to the callers. A C string is the
  string it spells. The counts of type \<open>int\<close> only grow, from 0, so they are natural numbers,
  and what would take one past the largest \<open>int\<close> is undefined: it sets a fault flag, or has no
  result.
\<close>

section \<open>State\<close>

definition EXT_MAX_VOTES :: nat where "EXT_MAX_VOTES = 8"
definition EXT_CONFIRM_THRESHOLD :: nat where "EXT_CONFIRM_THRESHOLD = 2"
definition EXT_TERMINAL_OBS :: nat where "EXT_TERMINAL_OBS = 6"

definition INT_MAX :: nat where "INT_MAX = 2 ^ 31 - 1"

record ext_vote =
  ev_ip :: u32
  ev_port :: u16
  ev_count :: nat

record net =
  external_ip :: u32
  external_port :: u16
  external_ip_valid :: bool
  nat_symmetric :: bool
  net_mapped :: bool
  ext_votes :: "ext_vote list"
  net_fault :: bool

definition net_zero :: net where
  "net_zero = \<lparr>external_ip = 0, external_port = 0, external_ip_valid = False, nat_symmetric = False, net_mapped = False, ext_votes = [],
     net_fault = False\<rparr>"

section \<open>Votes\<close>

text \<open>\<open>count++\<close>, and whether it overflows.\<close>

definition count_up :: "nat \<Rightarrow> nat" where
  "count_up n = (if n < INT_MAX then Suc n else n)"

definition vote_overflows :: "u32 \<Rightarrow> u16 \<Rightarrow> ext_vote list \<Rightarrow> bool" where
  "vote_overflows ip port vs \<longleftrightarrow> list_ex (\<lambda>v. ev_ip v = ip \<and> ev_port v = port \<and> ev_count v \<ge> INT_MAX) vs"

definition vote_add :: "u32 \<Rightarrow> u16 \<Rightarrow> ext_vote list \<Rightarrow> ext_vote list" where
  "vote_add ip port vs =
     (case find_idx (\<lambda>v. ev_ip v = ip \<and> ev_port v = port) vs of
        Some i \<Rightarrow> vs[i := (vs ! i)\<lparr>ev_count := count_up (ev_count (vs ! i))\<rparr>]
      | None \<Rightarrow> if length vs < EXT_MAX_VOTES then vs @ [\<lparr>ev_ip = ip, ev_port = port, ev_count = 1\<rparr>] else vs)"

text \<open>The two nested loops over pairs of buckets.\<close>

fun some_pair :: "('a \<Rightarrow> 'a \<Rightarrow> bool) \<Rightarrow> 'a list \<Rightarrow> bool" where
  "some_pair P [] = False"
| "some_pair P (x # xs) = (list_ex (P x) xs \<or> some_pair P xs)"

definition ports_diverge :: "ext_vote \<Rightarrow> ext_vote \<Rightarrow> bool" where
  "ports_diverge v w \<longleftrightarrow> ev_ip v = ev_ip w \<and> ev_port v \<noteq> ev_port w"

text \<open>The loop that keeps the first bucket with the largest count.\<close>

fun lead_vote :: "ext_vote option \<Rightarrow> ext_vote list \<Rightarrow> ext_vote option" where
  "lead_vote best [] = best"
| "lead_vote best (v # vs) =
     lead_vote (case best of None \<Rightarrow> Some v | Some b \<Rightarrow> if ev_count v > ev_count b then Some v else best) vs"

definition net_update_external_ip :: "u32 \<Rightarrow> u16 \<Rightarrow> net \<Rightarrow> net" where
  "net_update_external_ip ip port n =
     (if ip = 0 \<or> net_mapped n then n
      else let vs = vote_add ip port (ext_votes n);
               n1 = n\<lparr>ext_votes := vs, net_fault := (net_fault n \<or> vote_overflows ip port (ext_votes n)),
                      nat_symmetric := (nat_symmetric n \<or> some_pair (\<lambda>v w. ports_diverge v w \<and> ev_count v \<ge> 2 \<and> ev_count w \<ge> 2) vs)\<rparr>
           in case lead_vote None vs of
                Some b \<Rightarrow> if ev_count b \<ge> EXT_CONFIRM_THRESHOLD
                          then n1\<lparr>external_ip := ev_ip b, external_port := ev_port b, external_ip_valid := True\<rparr> else n1
              | None \<Rightarrow> n1)"

definition net_get_external_ip :: "net \<Rightarrow> u32 option" where
  "net_get_external_ip n = (if external_ip_valid n then Some (external_ip n) else None)"

definition net_get_external_endpoint :: "net \<Rightarrow> (u32 \<times> u16) option" where
  "net_get_external_endpoint n = (if external_ip_valid n then Some (external_ip n, external_port n) else None)"

definition net_nat_is_symmetric :: "net \<Rightarrow> bool" where
  "net_nat_is_symmetric n = nat_symmetric n"

text \<open>The loop that adds up the counts.\<close>

definition total_votes :: "ext_vote list \<Rightarrow> nat option" where
  "total_votes vs = (let total = sum_list (map ev_count vs) in if total \<le> INT_MAX then Some total else None)"

definition net_external_progress :: "net \<Rightarrow> (nat \<times> (u32 \<times> u16 \<times> nat) option) option" where
  "net_external_progress n =
     map_option (\<lambda>total. (total, map_option (\<lambda>b. (ev_ip b, ev_port b, ev_count b)) (lead_vote None (ext_votes n))))
       (total_votes (ext_votes n))"

definition net_reset_external :: "net \<Rightarrow> net" where
  "net_reset_external n = n\<lparr>ext_votes := [], external_ip_valid := False, nat_symmetric := False\<rparr>"

definition net_nat_type :: "net \<Rightarrow> string option" where
  "net_nat_type n =
     (if net_mapped n then Some ''open (NAT-PMP)''
      else if nat_symmetric n then Some ''symmetric''
      else if \<not> external_ip_valid n then
        map_option (\<lambda>total. if total < EXT_TERMINAL_OBS then ''detecting''
          else if some_pair ports_diverge (ext_votes n) then ''symmetric''
          else ''unknown'') (total_votes (ext_votes n))
      else Some (if list_ex (\<lambda>v. ev_count v \<ge> 2) (ext_votes n) then ''cone'' else ''detecting''))"

definition net_set_mapped_endpoint :: "u32 \<Rightarrow> u16 \<Rightarrow> net \<Rightarrow> net" where
  "net_set_mapped_endpoint ip port n =
     (if ip = 0 then n
      else n\<lparr>external_ip := ip, external_port := port, external_ip_valid := True, nat_symmetric := False, net_mapped := True\<rparr>)"

section \<open>Lemmas\<close>

lemma some_pair_iff: "some_pair P xs \<longleftrightarrow> (\<exists>i j. i < j \<and> j < length xs \<and> P (xs ! i) (xs ! j))"
proof (induction xs)
  case (Cons x xs)
  show ?case
  proof
    assume "some_pair P (x # xs)"
    then consider j where "j < length xs" "P x (xs ! j)" | i j where "i < j" "j < length xs" "P (xs ! i) (xs ! j)"
      using Cons.IH by (auto simp: list_ex_length)
    then show "\<exists>i j. i < j \<and> j < length (x # xs) \<and> P ((x # xs) ! i) ((x # xs) ! j)"
    proof cases
      case 1
      then show ?thesis by (intro exI [of _ 0] exI [of _ "Suc j"]) simp
    next
      case 2
      then show ?thesis by (intro exI [of _ "Suc i"] exI [of _ "Suc j"]) simp
    qed
  next
    assume "\<exists>i j. i < j \<and> j < length (x # xs) \<and> P ((x # xs) ! i) ((x # xs) ! j)"
    then obtain i j where "i < j" "j < length (x # xs)" "P ((x # xs) ! i) ((x # xs) ! j)" by blast
    then show "some_pair P (x # xs)"
      using Cons.IH by (cases i; cases j) (auto simp: list_ex_length)
  qed
qed simp

lemma lead_vote_max:
  "lead_vote best vs = Some b \<Longrightarrow>
     (best = Some b \<or> b \<in> set vs) \<and> (\<forall>v \<in> set vs. ev_count v \<le> ev_count b) \<and> (\<forall>v. best = Some v \<longrightarrow> ev_count v \<le> ev_count b)"
proof (induction vs arbitrary: best)
  case (Cons v vs)
  show ?case
  proof (cases best)
    case None
    then show ?thesis using Cons.IH [of "Some v"] Cons.prems by auto
  next
    case (Some w)
    then show ?thesis using Cons.IH [of "if ev_count v > ev_count w then Some v else best"] Cons.prems by (auto split: if_splits)
  qed
qed simp

lemma lead_vote_None: "lead_vote best vs = None \<longleftrightarrow> best = None \<and> vs = []"
  by (induction best vs rule: lead_vote.induct) (auto split: option.splits)

lemma count_up_le: "n \<le> count_up n" "count_up n \<le> Suc n" "n \<le> INT_MAX \<Longrightarrow> count_up n \<le> INT_MAX"
  by (simp_all add: count_up_def)

definition votes_inv :: "net \<Rightarrow> bool" where
  "votes_inv n \<longleftrightarrow> length (ext_votes n) \<le> EXT_MAX_VOTES \<and> distinct (map (\<lambda>v. (ev_ip v, ev_port v)) (ext_votes n)) \<and>
     (\<forall>v \<in> set (ext_votes n). ev_ip v \<noteq> 0 \<and> ev_count v > 0 \<and> ev_count v \<le> INT_MAX) \<and>
     (external_ip_valid n \<and> \<not> net_mapped n \<longrightarrow>
        (\<exists>v \<in> set (ext_votes n). ev_ip v = external_ip n \<and> ev_port v = external_port n \<and> ev_count v \<ge> 2))"

lemma vote_add_cases:
  obtains (hit) i where "i < length vs" "ev_ip (vs ! i) = ip" "ev_port (vs ! i) = port"
      "vote_add ip port vs = vs[i := (vs ! i)\<lparr>ev_count := count_up (ev_count (vs ! i))\<rparr>]"
    | (new) "\<forall>v \<in> set vs. (ev_ip v, ev_port v) \<noteq> (ip, port)" "length vs < EXT_MAX_VOTES"
      "vote_add ip port vs = vs @ [\<lparr>ev_ip = ip, ev_port = port, ev_count = 1\<rparr>]"
    | (full) "\<forall>v \<in> set vs. (ev_ip v, ev_port v) \<noteq> (ip, port)" "vote_add ip port vs = vs"
proof (cases "find_idx (\<lambda>v. ev_ip v = ip \<and> ev_port v = port) vs")
  case None
  then have "\<forall>v \<in> set vs. (ev_ip v, ev_port v) \<noteq> (ip, port)" by auto
  then show ?thesis
    using None new full by (cases "length vs < EXT_MAX_VOTES") (simp_all add: vote_add_def del: find_idx_None_iff)
next
  case (Some i)
  then show ?thesis using hit find_idx_less [OF Some] find_idx_holds [OF Some] by (simp add: vote_add_def)
qed

definition net_votes :: "(u32 \<times> u16) list \<Rightarrow> net \<Rightarrow> net" where
  "net_votes es n = foldl (\<lambda>n (ip, port). net_update_external_ip ip port n) n es"

lemma net_votes_snoc: "net_votes (es @ [(ip, port)]) n = net_update_external_ip ip port (net_votes es n)"
  by (simp add: net_votes_def)

definition vote_count :: "u32 \<times> u16 \<Rightarrow> ext_vote list \<Rightarrow> nat" where
  "vote_count e vs = sum_list (map ev_count (filter (\<lambda>v. (ev_ip v, ev_port v) = e) vs))"

lemma vote_count_append [simp]: "vote_count e (vs @ ws) = vote_count e vs + vote_count e ws"
  by (simp add: vote_count_def)

lemma vote_count_mem: "v \<in> set vs \<Longrightarrow> ev_count v \<le> vote_count (ev_ip v, ev_port v) vs"
  unfolding vote_count_def by (rule member_le_sum_list) auto

lemma vote_count_add: "vote_count e (vote_add ip port vs) \<le> vote_count e vs + (if e = (ip, port) then 1 else 0)"
proof (cases rule: vote_add_cases [of vs ip port])
  case (hit i)
  have s: "vs = take i vs @ (vs ! i) # drop (Suc i) vs" using hit(1) by (rule id_take_nth_drop)
  have "vote_add ip port vs = take i vs @ (vs ! i)\<lparr>ev_count := count_up (ev_count (vs ! i))\<rparr> # drop (Suc i) vs"
    using hit by (simp add: upd_conv_take_nth_drop)
  moreover have "vote_count e vs = vote_count e (take i vs @ (vs ! i) # drop (Suc i) vs)" using s by simp
  ultimately show ?thesis using hit(2,3) count_up_le [of "ev_count (vs ! i)"] by (simp add: vote_count_def)
qed (auto simp: vote_count_def)

lemma votes_reported: "vote_count e (ext_votes (net_votes es net_zero)) \<le> count_list es e"
proof (induction es rule: rev_induct)
  case Nil
  then show ?case by (simp add: net_votes_def net_zero_def vote_count_def)
next
  case (snoc x es)
  obtain ip port where x: "x = (ip, port)" by fastforce
  have "ext_votes (net_votes (es @ [x]) net_zero) = ext_votes (net_votes es net_zero) \<or>
        ext_votes (net_votes (es @ [x]) net_zero) = vote_add ip port (ext_votes (net_votes es net_zero))"
    by (simp add: x net_votes_snoc net_update_external_ip_def Let_def split: option.split)
  then show ?case
    using snoc vote_count_add [of e ip port "ext_votes (net_votes es net_zero)"] by (auto simp: x split: if_splits)
qed

lemma vote_add_grows:
  assumes "v \<in> set vs"
  shows "\<exists>w \<in> set (vote_add ip port vs). ev_ip w = ev_ip v \<and> ev_port w = ev_port v \<and> ev_count v \<le> ev_count w"
proof (cases rule: vote_add_cases [of vs ip port])
  case (hit i)
  obtain j where j: "j < length vs" "v = vs ! j" using assms by (auto simp: in_set_conv_nth)
  have "vote_add ip port vs ! j \<in> set (vote_add ip port vs)" by (rule nth_mem) (use hit j in simp)
  moreover have "ev_ip (vote_add ip port vs ! j) = ev_ip v" "ev_port (vote_add ip port vs ! j) = ev_port v"
    "ev_count v \<le> ev_count (vote_add ip port vs ! j)"
    using hit j by (simp_all add: nth_list_update count_up_le)
  ultimately show ?thesis by blast
qed (use assms in auto)

lemma vote_add_pos:
  assumes "\<forall>v \<in> set vs. ev_ip v \<noteq> 0 \<and> ev_count v > 0 \<and> ev_count v \<le> INT_MAX" "ip \<noteq> 0"
  shows "\<forall>v \<in> set (vote_add ip port vs). ev_ip v \<noteq> 0 \<and> ev_count v > 0 \<and> ev_count v \<le> INT_MAX"
proof (cases rule: vote_add_cases [of vs ip port])
  case (hit i)
  have "ev_ip (vs ! i) \<noteq> 0 \<and> ev_count (vs ! i) > 0 \<and> ev_count (vs ! i) \<le> INT_MAX" using assms(1) hit(1) by simp
  then show ?thesis using assms(1) hit(4) count_up_le [of "ev_count (vs ! i)"] by (auto dest!: set_update_subset_insert [THEN subsetD])
qed (use assms in \<open>auto simp: INT_MAX_def\<close>)

lemma vote_add_bound: "length vs \<le> EXT_MAX_VOTES \<Longrightarrow> length (vote_add ip port vs) \<le> EXT_MAX_VOTES"
  by (cases rule: vote_add_cases [of vs ip port]) auto

lemma vote_add_distinct:
  assumes "distinct (map (\<lambda>v. (ev_ip v, ev_port v)) vs)"
  shows "distinct (map (\<lambda>v. (ev_ip v, ev_port v)) (vote_add ip port vs))"
proof (cases rule: vote_add_cases [of vs ip port])
  case (hit i)
  then have "map (\<lambda>v. (ev_ip v, ev_port v)) (vote_add ip port vs) = map (\<lambda>v. (ev_ip v, ev_port v)) vs"
    by (simp add: map_update list_update_same_conv)
  then show ?thesis using assms by simp
qed (use assms in auto)

lemma net_update_fields [simp]:
  "ip \<noteq> 0 \<Longrightarrow> \<not> net_mapped n \<Longrightarrow> ext_votes (net_update_external_ip ip port n) = vote_add ip port (ext_votes n)"
  "net_mapped (net_update_external_ip ip port n) = net_mapped n"
  by (simp_all add: net_update_external_ip_def Let_def split: option.split)

lemma net_update_endpoint:
  assumes "external_ip_valid (net_update_external_ip ip port n)" "ip \<noteq> 0" "\<not> net_mapped n"
  obtains (new) b where "b \<in> set (vote_add ip port (ext_votes n))" "ev_count b \<ge> 2" "external_ip (net_update_external_ip ip port n) = ev_ip b"
      "external_port (net_update_external_ip ip port n) = ev_port b"
    | (old) "external_ip_valid n" "external_ip (net_update_external_ip ip port n) = external_ip n"
      "external_port (net_update_external_ip ip port n) = external_port n"
  using assms lead_vote_max [of None "vote_add ip port (ext_votes n)"]
  by (cases "lead_vote None (vote_add ip port (ext_votes n))")
    (auto simp: net_update_external_ip_def Let_def EXT_CONFIRM_THRESHOLD_def split: if_splits)

lemma votes_inv_vote:
  assumes "votes_inv n"
  shows "votes_inv (net_update_external_ip ip port n)"
proof (cases "ip = 0 \<or> net_mapped n")
  case True
  then show ?thesis using assms by (simp add: net_update_external_ip_def)
next
  case False
  let ?n = "net_update_external_ip ip port n"
  have "\<exists>v \<in> set (ext_votes ?n). ev_ip v = external_ip ?n \<and> ev_port v = external_port ?n \<and> ev_count v \<ge> 2" if v: "external_ip_valid ?n"
  proof -
    have z: "ip \<noteq> 0" "\<not> net_mapped n" using False by simp_all
    from v z show ?thesis
    proof (cases rule: net_update_endpoint)
      case (new b)
      then show ?thesis using z by (intro bexI [of _ b]) simp_all
    next
      case old
      then obtain v where "v \<in> set (ext_votes n)" "ev_ip v = external_ip n" "ev_port v = external_port n" "ev_count v \<ge> 2"
        using assms z unfolding votes_inv_def by blast
      moreover from this(1) obtain w where "w \<in> set (vote_add ip port (ext_votes n))" "ev_ip w = ev_ip v" "ev_port w = ev_port v"
          "ev_count v \<le> ev_count w"
        using vote_add_grows by blast
      ultimately show ?thesis using old z by (intro bexI [of _ w]) simp_all
    qed
  qed
  moreover have "ext_votes ?n = vote_add ip port (ext_votes n)" "ip \<noteq> 0" using False by simp_all
  moreover have "length (ext_votes n) \<le> EXT_MAX_VOTES" "distinct (map (\<lambda>v. (ev_ip v, ev_port v)) (ext_votes n))"
    "\<forall>v \<in> set (ext_votes n). ev_ip v \<noteq> 0 \<and> ev_count v > 0 \<and> ev_count v \<le> INT_MAX"
    using assms unfolding votes_inv_def by blast+
  note this(1) [THEN vote_add_bound, of ip port] this(2) [THEN vote_add_distinct, of ip port] vote_add_pos [OF this(3), of ip port]
  ultimately show ?thesis unfolding votes_inv_def by simp
qed

text \<open>All votes together. A counter can overflow only when as many votes were cast.\<close>

definition tally :: "net \<Rightarrow> nat" where
  "tally n = sum_list (map ev_count (ext_votes n))"

lemma vote_add_sum: "sum_list (map ev_count (vote_add ip port vs)) \<le> Suc (sum_list (map ev_count vs))"
proof (cases rule: vote_add_cases [of vs ip port])
  case (hit i)
  have "sum_list (map ev_count (take i vs @ (vs ! i) # drop (Suc i) vs)) = sum_list (map ev_count vs)"
    using id_take_nth_drop [OF hit(1)] by simp
  then show ?thesis using hit count_up_le [of "ev_count (vs ! i)"] by (simp add: upd_conv_take_nth_drop)
qed simp_all

lemma net_update_tally: "tally (net_update_external_ip ip port n) \<le> Suc (tally n)"
  using vote_add_sum [of ip port "ext_votes n"] by (simp add: tally_def net_update_external_ip_def Let_def split: option.split)

lemma net_update_fault:
  assumes "net_fault (net_update_external_ip ip port n)" "tally n < INT_MAX"
  shows "net_fault n"
proof -
  have "\<not> vote_overflows ip port (ext_votes n)"
    using assms(2) member_le_sum_list [of _ "map ev_count (ext_votes n)"]
    by (fastforce simp: vote_overflows_def list_ex_iff tally_def)
  then show ?thesis using assms(1) by (simp add: net_update_external_ip_def Let_def split: if_splits option.splits)
qed

lemma votes_inv_votes: "votes_inv n \<Longrightarrow> votes_inv (net_votes es n)"
  by (induction es arbitrary: n) (auto simp: net_votes_def votes_inv_vote)

lemma votes_inv_zero: "votes_inv net_zero"
  by (simp add: votes_inv_def net_zero_def)

lemma net_mapped_votes [simp]: "net_mapped (net_votes es n) = net_mapped n"
  by (induction es rule: rev_induct) (auto simp: net_votes_def)

text \<open>Distinct reports fill the buckets; a report that finds no bucket changes nothing.\<close>

lemma votes_fill:
  "distinct es \<Longrightarrow> length es \<le> EXT_MAX_VOTES \<Longrightarrow> \<forall>(ip, port) \<in> set es. ip \<noteq> 0 \<Longrightarrow>
     ext_votes (net_votes es net_zero) = map (\<lambda>(ip, port). \<lparr>ev_ip = ip, ev_port = port, ev_count = 1\<rparr>) es \<and>
     \<not> external_ip_valid (net_votes es net_zero)"
proof (induction es rule: rev_induct)
  case Nil
  then show ?case by (simp add: net_votes_def net_zero_def)
next
  case (snoc x es)
  obtain ip port where x: "x = (ip, port)" by fastforce
  let ?m = "\<lambda>(ip, port). \<lparr>ev_ip = ip, ev_port = port, ev_count = 1\<rparr>"
  have IH: "ext_votes (net_votes es net_zero) = map ?m es" "\<not> external_ip_valid (net_votes es net_zero)" using snoc by auto
  have new: "find_idx (\<lambda>v. ev_ip v = ip \<and> ev_port v = port) (map ?m es) = None"
    using snoc.prems(1) by (auto simp: x)
  have z: "ip \<noteq> 0" using snoc.prems(3) by (simp add: x)
  have m: "\<not> net_mapped (net_votes es net_zero)" by (simp add: net_zero_def)
  have vs: "ext_votes (net_votes (es @ [x]) net_zero) = map ?m (es @ [x])"
    using new z m snoc.prems(2) by (simp add: x net_votes_snoc IH vote_add_def del: find_idx_None_iff)
  have "\<not> external_ip_valid (net_votes (es @ [x]) net_zero)"
  proof
    assume v: "external_ip_valid (net_votes (es @ [x]) net_zero)"
    have "votes_inv (net_votes (es @ [x]) net_zero)" by (rule votes_inv_votes [OF votes_inv_zero])
    then have "\<exists>v \<in> set (map ?m (es @ [x])). ev_count v \<ge> 2" using v vs by (auto simp: votes_inv_def net_zero_def)
    then show False by (auto simp: case_prod_beta)
  qed
  with vs show ?case by blast
qed

lemma votes_full:
  assumes "length (ext_votes n) = EXT_MAX_VOTES" "\<forall>v \<in> set (ext_votes n). (ev_ip v, ev_port v) \<noteq> (ip, port)"
  shows "vote_add ip port (ext_votes n) = ext_votes n"
proof -
  have "find_idx (\<lambda>v. ev_ip v = ip \<and> ev_port v = port) (ext_votes n) = None" using assms(2) by auto
  then show ?thesis using assms(1) by (simp add: vote_add_def del: find_idx_None_iff)
qed

section \<open>Properties\<close>

text \<open>Whatever addresses peers report, and in whatever order, the endpoint the node takes for its
  own is one that was reported at least twice.\<close>

theorem net_endpoint_reported_twice:
  assumes "net_get_external_endpoint (net_votes es net_zero) = Some e"
  shows "count_list es e \<ge> 2 \<and> fst e \<noteq> 0"
proof -
  let ?n = "net_votes es net_zero"
  have v: "external_ip_valid ?n" "e = (external_ip ?n, external_port ?n)"
    using assms by (auto simp: net_get_external_endpoint_def split: if_splits)
  have "\<not> net_mapped ?n" by (simp add: net_zero_def)
  then obtain v where m: "v \<in> set (ext_votes ?n)" "(ev_ip v, ev_port v) = e" "ev_count v \<ge> 2" "ev_ip v \<noteq> 0"
    using votes_inv_votes [OF votes_inv_zero, of es] v by (auto simp: votes_inv_def)
  then have "2 \<le> vote_count e (ext_votes ?n)" using vote_count_mem [OF m(1)] by auto
  then show ?thesis using votes_reported [of e es] m by auto
qed

theorem net_endpoint_reported_twice_witness:
  "net_get_external_endpoint (net_votes [(7, 80), (9, 81), (7, 80)] net_zero) = Some (7, 80) \<and> count_list [(7 :: u32, 80 :: u16), (9, 81), (7, 80)] (7, 80) \<ge> 2"
proof -
  have e: "net_get_external_endpoint (net_votes [(7, 80), (9, 81), (7, 80)] net_zero) = Some (7, 80)"
    by (simp add: net_get_external_endpoint_def net_votes_def net_update_external_ip_def net_zero_def vote_add_def count_up_def INT_MAX_def
        EXT_MAX_VOTES_def EXT_CONFIRM_THRESHOLD_def Let_def)
  show ?thesis using net_endpoint_reported_twice [OF e] e by blast
qed

text \<open>Vote buckets are never given up: after eight different addresses were reported once each, no
  number of reports of the true address makes the node know it.\<close>

theorem net_votes_starved:
  assumes "distinct es" "length es = EXT_MAX_VOTES" "\<forall>(ip, port) \<in> set es. ip \<noteq> 0" "e \<notin> set es"
  shows "net_get_external_endpoint (net_votes (es @ replicate k e) net_zero) = None"
proof -
  obtain ip port where e: "e = (ip, port)" by fastforce
  let ?m = "\<lambda>(ip, port). \<lparr>ev_ip = ip, ev_port = port, ev_count = 1\<rparr>"
  have "ext_votes (net_votes (es @ replicate k e) net_zero) = map ?m es"
  proof (induction k)
    case 0
    then show ?case using votes_fill [of es] assms by simp
  next
    case (Suc k)
    let ?n = "net_votes (es @ replicate k e) net_zero"
    have "vote_add ip port (ext_votes ?n) = ext_votes ?n"
      by (rule votes_full) (use Suc assms(2,4) in \<open>auto simp: e\<close>)
    then have "ext_votes (net_update_external_ip ip port ?n) = ext_votes ?n"
      by (simp add: net_update_external_ip_def Let_def split: option.split)
    then show ?case using Suc by (simp add: replicate_append_same [symmetric] e net_votes_snoc flip: append_assoc del: replicate_append_same)
  qed
  then have "\<forall>v \<in> set (ext_votes (net_votes (es @ replicate k e) net_zero)). ev_count v = 1" by auto
  then show ?thesis
    using votes_inv_votes [OF votes_inv_zero, of "es @ replicate k e"]
    by (auto simp: votes_inv_def net_get_external_endpoint_def net_zero_def)
qed

theorem net_votes_starved_witness:
  "net_get_external_endpoint (net_votes (map (\<lambda>i. (word_of_nat (i + 1), 80)) [0..<8] @ replicate 1000 (99, 80)) net_zero) = None"
  by (rule net_votes_starved) (auto simp: EXT_MAX_VOTES_def upt_rec)

text \<open>Forgetting the learned endpoint keeps the mapping flag: once a mapped endpoint was set and then
  forgotten, every report is ignored and no endpoint is learned again.\<close>

theorem net_reset_keeps_mapping:
  assumes "ip \<noteq> 0"
  shows "net_get_external_endpoint (net_votes es (net_reset_external (net_set_mapped_endpoint ip port n))) = None"
proof -
  have "net_votes es m = m" if "net_mapped m" for m
    using that by (induction es) (auto simp: net_votes_def net_update_external_ip_def)
  then show ?thesis using assms by (simp add: net_set_mapped_endpoint_def net_reset_external_def net_get_external_endpoint_def)
qed

theorem net_reset_keeps_mapping_witness:
  "net_get_external_endpoint (net_votes [(7, 80), (7, 80), (7, 80)] (net_reset_external (net_set_mapped_endpoint 5 90 net_zero))) = None"
  by (rule net_reset_keeps_mapping) simp

end
