(* ===== verification/Norn_Mainline.thy ===== *)
theory Norn_Mainline
  imports Norn_Net Norn_Kad Norn_Ipc "HOL-Library.Sublist"
begin

text \<open>
  The state of a mainline DHT node, \<open>src/libnorn/norn.c\<close> and \<open>src/libnorn/mainline.h\<close>: the
  routing table with its admission rules, eviction, the transactions, the queries it sends, the
  endpoint cache and the two files. Addresses and the ports of table entries are in network byte
  order, as in the code. Pairs of a flag and a buffer (\<open>have_self_pub\<close>, \<open>have_pubkey\<close> and the
  like) are options; a C string is the bytes before its NUL. The clock, the outcome of sending a
  datagram and name resolution are arguments.
\<close>

section \<open>State\<close>

definition MAINLINE_BOOTSTRAP_INTERVAL :: int where "MAINLINE_BOOTSTRAP_INTERVAL = 300"
definition MAINLINE_MAX_TRANSACTIONS :: nat where "MAINLINE_MAX_TRANSACTIONS = 256"
definition MAINLINE_TRANSACTION_TIMEOUT :: int where "MAINLINE_TRANSACTION_TIMEOUT = 30"
definition MAINLINE_MAX_NODES :: nat where "MAINLINE_MAX_NODES = 1024"
definition MAINLINE_MAX_PER_SUBNET :: nat where "MAINLINE_MAX_PER_SUBNET = 8"
definition MAINLINE_SERVE_HASHES :: nat where "MAINLINE_SERVE_HASHES = 64"
definition MAINLINE_SERVE_PEERS :: nat where "MAINLINE_SERVE_PEERS = 16"

record mainline_node =
  mn_id :: bytes
  mn_ip :: u32
  mn_port :: u16
  mn_last_seen :: int
  mn_pv :: bytes
  mn_app :: bytes
  mn_preferred :: bool
  mn_pubkey :: "bytes option"

record mainline_transaction =
  mt_id :: u32
  mt_created :: int
  mt_target :: bytes

record served_hash =
  sh_info_hash :: bytes
  sh_peers :: "(u32 \<times> u16) list"
  sh_pubkey :: "bytes option"

record mainline_state =
  ml_net :: net
  ml_self_id :: bytes
  ml_self_pub :: "bytes option"
  ml_self_account :: "bytes option"
  ml_self_version :: "bytes option"
  ml_self_pv :: "bytes option"
  ml_self_app :: bytes
  ml_nodes :: "mainline_node list"
  ml_transactions :: "mainline_transaction list"
  ml_next_tid :: u32
  ml_last_bootstrap :: int
  ml_boots :: "(u32 \<times> u16) list"
  ml_private :: bool
  ml_read_only :: bool
  ml_token_secret :: bytes
  ml_served :: "served_hash list"

definition BOOTSTRAP_HOSTS :: "(string \<times> u16) list" where
  "BOOTSTRAP_HOSTS = [(''router.bittorrent.com'', 6881), (''router.utorrent.com'', 6881), (''dht.transmissionbt.com'', 6881)]"

text \<open>The secret and the first transaction id come from the random generator.\<close>

definition mainline_init :: "net \<Rightarrow> bytes \<Rightarrow> bytes \<Rightarrow> u32 \<Rightarrow> mainline_state" where
  "mainline_init n self_key secret rnd =
     \<lparr>ml_net = n, ml_self_id = take 20 self_key, ml_self_pub = None, ml_self_account = None, ml_self_version = None,
      ml_self_pv = None, ml_self_app = [], ml_nodes = [], ml_transactions = [], ml_next_tid = rnd, ml_last_bootstrap = 0,
      ml_boots = [], ml_private = False, ml_read_only = False, ml_token_secret = secret, ml_served = []\<rparr>"

section \<open>Routing table\<close>

text \<open>The loop that keeps the first of the eligible entries with the smallest time stamp.\<close>

primrec oldest_from :: "('a \<Rightarrow> bool) \<Rightarrow> ('a \<Rightarrow> int) \<Rightarrow> 'a list \<Rightarrow> nat \<Rightarrow> (nat \<times> int) option \<Rightarrow> nat option" where
  "oldest_from P f [] i best = map_option fst best"
| "oldest_from P f (x # xs) i best =
     oldest_from P f xs (Suc i)
       (if \<not> P x then best
        else case best of None \<Rightarrow> Some (i, f x) | Some (victim, oldest) \<Rightarrow> if f x < oldest then Some (i, f x) else best)"

definition subnet :: "u32 \<Rightarrow> u32" where
  "subnet ip = ntohl ip AND 0xffffff00"

definition make_room_subnet :: "u32 \<Rightarrow> mainline_node list \<Rightarrow> mainline_node list option" where
  "make_room_subnet ip ns =
     (if length (filter (\<lambda>n. subnet (mn_ip n) = subnet ip) ns) \<ge> MAINLINE_MAX_PER_SUBNET
      then map_option (\<lambda>v. swap_remove v ns)
             (oldest_from (\<lambda>n. subnet (mn_ip n) = subnet ip \<and> \<not> mn_preferred n) mn_last_seen ns 0 None)
      else Some ns)"

definition make_room_table :: "mainline_node list \<Rightarrow> mainline_node list option" where
  "make_room_table ns =
     (if length ns \<ge> MAINLINE_MAX_NODES
      then map_option (\<lambda>v. swap_remove v ns) (oldest_from (\<lambda>n. \<not> mn_preferred n) mn_last_seen ns 0 None)
      else Some ns)"

definition new_node :: "int \<Rightarrow> bytes \<Rightarrow> u32 \<Rightarrow> u16 \<Rightarrow> mainline_node" where
  "new_node now nid ip port =
     \<lparr>mn_id = nid, mn_ip = ip, mn_port = port, mn_last_seen = now, mn_pv = [], mn_app = [], mn_preferred = False, mn_pubkey = None\<rparr>"

definition mainline_add_node :: "int \<Rightarrow> bytes \<Rightarrow> u32 \<Rightarrow> u16 \<Rightarrow> mainline_state \<Rightarrow> int \<times> mainline_state" where
  "mainline_add_node now nid ip port s =
     (if ip = 0 \<or> port = 0 then (-1, s)
      else if nid = ml_self_id s then (-1, s)
      else case find_idx (\<lambda>n. mn_id n = nid) (ml_nodes s) of
        Some i \<Rightarrow> (0, s\<lparr>ml_nodes := (ml_nodes s)[i := (ml_nodes s ! i)\<lparr>mn_ip := ip, mn_port := port, mn_last_seen := now\<rparr>]\<rparr>)
      | None \<Rightarrow>
          (case make_room_subnet ip (ml_nodes s) of
             None \<Rightarrow> (-1, s)
           | Some ns1 \<Rightarrow>
               (case make_room_table ns1 of
                  None \<Rightarrow> (-1, s\<lparr>ml_nodes := ns1\<rparr>)
                | Some ns2 \<Rightarrow> (1, s\<lparr>ml_nodes := ns2 @ [new_node now nid ip port]\<rparr>))))"

definition set_node_info :: "bytes \<Rightarrow> bytes \<Rightarrow> bytes \<Rightarrow> bytes option \<Rightarrow> mainline_node \<Rightarrow> mainline_node" where
  "set_node_info self_app pv app pubkey n =
     (let n1 = (if pv \<noteq> [] then n\<lparr>mn_pv := take 7 pv\<rparr> else n);
          n2 = (if app \<noteq> [] then n1\<lparr>mn_app := take 23 app\<rparr> else n1);
          n3 = (case pubkey of Some k \<Rightarrow> n2\<lparr>mn_pubkey := Some k\<rparr> | None \<Rightarrow> n2)
      in n3\<lparr>mn_preferred := (mn_pv n3 \<noteq> [] \<or> mn_pubkey n3 \<noteq> None \<or> (self_app \<noteq> [] \<and> mn_app n3 \<noteq> [] \<and> mn_app n3 = self_app))\<rparr>)"

definition mainline_update_node_info :: "bytes \<Rightarrow> bytes \<Rightarrow> bytes \<Rightarrow> bytes option \<Rightarrow> mainline_state \<Rightarrow> int \<times> mainline_state" where
  "mainline_update_node_info nid pv app pubkey s =
     (case find_idx (\<lambda>n. mn_id n = nid) (ml_nodes s) of
        Some i \<Rightarrow> (0, s\<lparr>ml_nodes := (ml_nodes s)[i := set_node_info (ml_self_app s) (c_string pv) (c_string app) pubkey (ml_nodes s ! i)]\<rparr>)
      | None \<Rightarrow> (-1, s))"

definition mainline_get_node_count :: "mainline_state \<Rightarrow> nat" where
  "mainline_get_node_count s = length (ml_nodes s)"

text \<open>
  Eviction compacts the array in place: entry \<open>i\<close> is copied down to \<open>kept\<close> while later tests
  still scan the whole array.
\<close>

definition node_stale :: "int \<Rightarrow> int \<Rightarrow> mainline_node \<Rightarrow> bool" where
  "node_stale now max_age n \<longleftrightarrow> now - mn_last_seen n > max_age"

definition evict_step :: "int \<Rightarrow> int \<Rightarrow> nat \<Rightarrow> nat \<times> nat \<times> mainline_node list \<Rightarrow> nat \<times> nat \<times> mainline_node list" where
  "evict_step now max_age i = (\<lambda>(kept, evicted, ns).
     if node_stale now max_age (ns ! i) \<and> mn_preferred (ns ! i)
     then if list_ex (\<lambda>j. j \<noteq> i \<and> node_stale now max_age (ns ! j) \<and> \<not> mn_preferred (ns ! j)) [0..<length ns]
          then (Suc kept, evicted, ns[kept := ns ! i])
          else (kept, Suc evicted, ns)
     else if node_stale now max_age (ns ! i) then (kept, Suc evicted, ns)
     else (Suc kept, evicted, ns[kept := ns ! i]))"

definition mainline_evict_stale :: "int \<Rightarrow> int \<Rightarrow> mainline_state \<Rightarrow> nat \<times> mainline_state" where
  "mainline_evict_stale now max_age s =
     (case fold (evict_step now max_age) [0..<length (ml_nodes s)] (0, 0, ml_nodes s) of
        (kept, evicted, ns) \<Rightarrow> (evicted, s\<lparr>ml_nodes := take kept ns\<rparr>))"

section \<open>Transactions and queries\<close>

definition encode_transaction_id :: "u32 \<Rightarrow> bytes" where
  "encode_transaction_id tid = be32 tid"

definition decode_transaction_id :: "bytes \<Rightarrow> u32" where
  "decode_transaction_id t = (if length t < 4 then 0 else un_be32 t)"

definition mainline_add_bootstrap :: "u32 \<Rightarrow> u16 \<Rightarrow> mainline_state \<Rightarrow> mainline_state" where
  "mainline_add_bootstrap ip port s =
     (if ip = 0 \<or> port = 0 then s
      else if length (ml_boots s) \<ge> 8 then s
      else s\<lparr>ml_boots := ml_boots s @ [(ip, port)]\<rparr>)"

definition mainline_set_private :: "bool \<Rightarrow> mainline_state \<Rightarrow> mainline_state" where
  "mainline_set_private b s = s\<lparr>ml_private := b\<rparr>"

definition mainline_set_read_only :: "bool \<Rightarrow> mainline_state \<Rightarrow> mainline_state" where
  "mainline_set_read_only b s = s\<lparr>ml_read_only := b\<rparr>"

text \<open>A dictionary built by a run of \<open>bencode_dict_add\<close>; the tags are the entries they add.\<close>

definition dict_of :: "(string \<times> bencode_value) list \<Rightarrow> bencode_value" where
  "dict_of kvs = foldl (\<lambda>d (k, v). snd (bencode_dict_add d (str k) v)) bencode_dict_new kvs"

definition mainline_tag_ro :: "mainline_state \<Rightarrow> (string \<times> bencode_value) list" where
  "mainline_tag_ro s = (if ml_read_only s then [(''ro'', bencode_int_new 1)] else [])"

definition mainline_tag_v :: "mainline_state \<Rightarrow> (string \<times> bencode_value) list" where
  "mainline_tag_v s =
     (case ml_self_version s of Some v \<Rightarrow> if v \<noteq> [] then [(''v'', bencode_string_new v)] else [] | None \<Rightarrow> [])"

definition tag_pv :: "mainline_state \<Rightarrow> (string \<times> bencode_value) list" where
  "tag_pv s = (case ml_self_pv s of Some v \<Rightarrow> if v \<noteq> [] then [(''pv'', bencode_string_new v)] else [] | None \<Rightarrow> [])"

definition tag_pk :: "mainline_state \<Rightarrow> (string \<times> bencode_value) list" where
  "tag_pk s = (case ml_self_pub s of Some k \<Rightarrow> [(''pk'', bencode_string_new k)] | None \<Rightarrow> [])"

definition find_node_query :: "bytes \<Rightarrow> mainline_state \<Rightarrow> bytes" where
  "find_node_query target s =
     (let args = dict_of ([(''id'', bencode_string_new (ml_self_id s)), (''target'', bencode_string_new (take 20 target))] @ tag_pv s @ tag_pk s)
      in bencode_encode (dict_of ([(''t'', bencode_string_new (encode_transaction_id (ml_next_tid s))), (''y'', bencode_string_new (str ''q''))] @
           mainline_tag_ro s @ mainline_tag_v s @ [(''q'', bencode_string_new (str ''find_node'')), (''a'', args)])))"

text \<open>A datagram sent: address, port in host byte order, bytes.\<close>

type_synonym datagram = "u32 \<times> u16 \<times> bytes"

definition mainline_find_node ::
  "(datagram \<Rightarrow> bool) \<Rightarrow> int \<Rightarrow> bytes \<Rightarrow> u32 \<Rightarrow> u16 \<Rightarrow> mainline_state \<Rightarrow> int \<times> datagram \<times> mainline_state" where
  "mainline_find_node sent now target ip port s =
     (let d = (ip, port, find_node_query target s) in
      if \<not> sent d then (-1, d, s)
      else (0, d, s\<lparr>ml_transactions :=
                      (if length (ml_transactions s) < MAINLINE_MAX_TRANSACTIONS
                       then ml_transactions s @ [\<lparr>mt_id = ml_next_tid s, mt_created = now, mt_target = take 20 target @ replicate 12 0\<rparr>]
                       else ml_transactions s),
                    ml_next_tid := ml_next_tid s + 1\<rparr>))"

text \<open>A run of queries for the node's own id.\<close>

primrec find_self_all :: "(datagram \<Rightarrow> bool) \<Rightarrow> int \<Rightarrow> (u32 \<times> u16) list \<Rightarrow> mainline_state \<Rightarrow> datagram list \<times> mainline_state" where
  "find_self_all sent now [] s = ([], s)"
| "find_self_all sent now (e # es) s =
     (case mainline_find_node sent now (ml_self_id s) (fst e) (snd e) s of (rc, d, s1) \<Rightarrow>
      case find_self_all sent now es s1 of (ds, s2) \<Rightarrow> (d # ds, s2))"

definition mainline_crawl_network :: "(datagram \<Rightarrow> bool) \<Rightarrow> int \<Rightarrow> mainline_state \<Rightarrow> datagram list \<times> mainline_state" where
  "mainline_crawl_network sent now s =
     find_self_all sent now
       (take 10 (map (\<lambda>n. (mn_ip n, ntohs (mn_port n))) (filter (\<lambda>n. mn_ip n \<noteq> 0 \<and> mn_port n \<noteq> 0) (ml_nodes s)))) s"

definition mainline_bootstrap ::
  "(datagram \<Rightarrow> bool) \<Rightarrow> (string \<Rightarrow> u32) \<Rightarrow> int \<Rightarrow> mainline_state \<Rightarrow> int \<times> datagram list \<times> mainline_state" where
  "mainline_bootstrap sent net_resolve now s =
     (case find_self_all sent now
         ((if \<not> ml_private s then [(htonl 0x7F000001, 6881)] else []) @ ml_boots s @
          (if \<not> ml_private s then filter (\<lambda>(ip, port). ip \<noteq> 0) (map (\<lambda>(h, p). (net_resolve h, p)) BOOTSTRAP_HOSTS) else [])) s
      of (ds, s1) \<Rightarrow> (0, ds, s1\<lparr>ml_last_bootstrap := now\<rparr>))"

definition mainline_needs_bootstrap :: "int \<Rightarrow> mainline_state \<Rightarrow> bool" where
  "mainline_needs_bootstrap now s \<longleftrightarrow> now - ml_last_bootstrap s \<ge> MAINLINE_BOOTSTRAP_INTERVAL"

definition mainline_get_bootstrap_nodes :: "(string \<Rightarrow> u32) \<Rightarrow> nat \<Rightarrow> (u32 \<times> u16) list" where
  "mainline_get_bootstrap_nodes net_resolve max_count =
     take max_count (filter (\<lambda>(ip, port). ip \<noteq> 0) (map (\<lambda>(h, p). (net_resolve h, p)) BOOTSTRAP_HOSTS))"

text \<open>The loop that removes an expired transaction and looks at the same place again.\<close>

function expire_tx :: "int \<Rightarrow> nat \<Rightarrow> mainline_transaction list \<Rightarrow> mainline_transaction list" where
  "expire_tx now i ts =
     (if i < length ts
      then if now - mt_created (ts ! i) > MAINLINE_TRANSACTION_TIMEOUT
           then expire_tx now i (take i ts @ drop (Suc i) ts)
           else expire_tx now (Suc i) ts
      else ts)"
  by pat_completeness auto
termination by (relation "measure (\<lambda>(now, i, ts). length ts - i)") auto

definition mainline_process_transactions :: "int \<Rightarrow> mainline_state \<Rightarrow> mainline_state" where
  "mainline_process_transactions now s = s\<lparr>ml_transactions := expire_tx now 0 (ml_transactions s)\<rparr>"

section \<open>Routing table file\<close>

definition MAINLINE_NODES_MAGIC :: nat where "MAINLINE_NODES_MAGIC = 0x4e544844"
definition MAINLINE_NODES_VERSION :: nat where "MAINLINE_NODES_VERSION = 1"

definition mainline_save_nodes :: "mainline_state \<Rightarrow> int \<times> bytes" where
  "mainline_save_nodes s =
     (int (length (ml_nodes s)),
      le_bytes 4 MAINLINE_NODES_MAGIC @ le_bytes 4 MAINLINE_NODES_VERSION @ le_bytes 4 (length (ml_nodes s)) @
      concat (map (\<lambda>n. mn_id n @ mem32 (mn_ip n) @ mem16 (mn_port n)) (ml_nodes s)))"

primrec load_nodes_from :: "int \<Rightarrow> nat \<Rightarrow> bytes \<Rightarrow> int \<Rightarrow> mainline_state \<Rightarrow> int \<times> mainline_state" where
  "load_nodes_from now 0 b loaded s = (loaded, s)"
| "load_nodes_from now (Suc n) b loaded s =
     (if length (ml_nodes s) \<ge> MAINLINE_MAX_NODES \<or> length b < 26 then (loaded, s)
      else case mainline_add_node now (take 20 b) (un_mem32 (drop 20 b)) (un_mem16 (drop 24 b)) s of
        (rc, s1) \<Rightarrow> load_nodes_from now n (drop 26 b) (if rc \<ge> 0 then loaded + 1 else loaded) s1)"

definition mainline_load_nodes :: "int \<Rightarrow> bytes \<Rightarrow> mainline_state \<Rightarrow> int \<times> mainline_state" where
  "mainline_load_nodes now b s =
     (if length b < 12 \<or> le_val (take 4 b) \<noteq> MAINLINE_NODES_MAGIC \<or> le_val (take 4 (drop 4 b)) \<noteq> MAINLINE_NODES_VERSION
      then (-1, s)
      else load_nodes_from now (le_val (take 4 (drop 8 b))) (drop 12 b) 0 s)"

section \<open>Endpoint cache\<close>

definition PEER_CACHE_MAX :: nat where "PEER_CACHE_MAX = 256"
definition PEER_CACHE_MAGIC :: nat where "PEER_CACHE_MAGIC = 0x43504844"
definition PEER_CACHE_VERSION :: nat where "PEER_CACHE_VERSION = 1"

record peer_cache_entry =
  pc_key :: bytes
  pc_ip :: u32
  pc_port :: u16
  pc_updated :: int

definition peer_cache_get :: "int \<Rightarrow> bytes \<Rightarrow> int \<Rightarrow> peer_cache_entry list \<Rightarrow> (u32 \<times> u16) option" where
  "peer_cache_get now key max_age c =
     (case find_idx (\<lambda>e. pc_key e = key) c of
        None \<Rightarrow> None
      | Some i \<Rightarrow> if max_age > 0 \<and> now - pc_updated (c ! i) > max_age then None else Some (pc_ip (c ! i), pc_port (c ! i)))"

definition peer_cache_put :: "int \<Rightarrow> bytes \<Rightarrow> u32 \<Rightarrow> u16 \<Rightarrow> peer_cache_entry list \<Rightarrow> peer_cache_entry list" where
  "peer_cache_put now key ip port c =
     (if ip = 0 \<or> port = 0 then c
      else case find_idx (\<lambda>e. pc_key e = key) c of
        Some i \<Rightarrow> c[i := (c ! i)\<lparr>pc_ip := ip, pc_port := port, pc_updated := now\<rparr>]
      | None \<Rightarrow>
          let e = \<lparr>pc_key = key, pc_ip = ip, pc_port = port, pc_updated = now\<rparr> in
          if length c < PEER_CACHE_MAX then c @ [e]
          else case oldest_from (\<lambda>_. True) pc_updated c 0 None of Some slot \<Rightarrow> c[slot := e] | None \<Rightarrow> c)"

definition peer_cache_save :: "peer_cache_entry list \<Rightarrow> int \<times> bytes" where
  "peer_cache_save c =
     (int (length c),
      le_bytes 4 PEER_CACHE_MAGIC @ le_bytes 4 PEER_CACHE_VERSION @ le_bytes 4 (length c) @
      concat (map (\<lambda>e. pc_key e @ mem32 (pc_ip e) @ mem16 (pc_port e) @ le_bytes 8 (nat (pc_updated e mod 2 ^ 64))) c))"

primrec load_cache_from :: "nat \<Rightarrow> bytes \<Rightarrow> int \<Rightarrow> peer_cache_entry list \<Rightarrow> int \<times> peer_cache_entry list" where
  "load_cache_from 0 b loaded c = (loaded, c)"
| "load_cache_from (Suc n) b loaded c =
     (if length c \<ge> PEER_CACHE_MAX \<or> length b < 34 then (loaded, c)
      else load_cache_from n (drop 34 b) (loaded + 1)
             (c @ [\<lparr>pc_key = take 20 b, pc_ip = un_mem32 (drop 20 b), pc_port = un_mem16 (drop 24 b),
                    pc_updated = sint (word_of_nat (le_val (take 8 (drop 26 b))) :: 64 word)\<rparr>]))"

definition peer_cache_load :: "bytes \<Rightarrow> peer_cache_entry list \<Rightarrow> int \<times> peer_cache_entry list" where
  "peer_cache_load b c =
     (if length b < 12 \<or> le_val (take 4 b) \<noteq> PEER_CACHE_MAGIC \<or> le_val (take 4 (drop 4 b)) \<noteq> PEER_CACHE_VERSION
      then (-1, c)
      else load_cache_from (le_val (take 4 (drop 8 b))) (drop 12 b) 0 c)"

declare load_nodes_from.simps(2) [simp del] load_cache_from.simps(2) [simp del] expire_tx.simps [simp del]

section \<open>The oldest entry\<close>

lemma oldest_from_spec:
  "oldest_from P f xs i best = Some v \<Longrightarrow>
     (\<exists>t. best = Some (v, t) \<and> (\<forall>x \<in> set xs. P x \<longrightarrow> t \<le> f x)) \<or>
     (i \<le> v \<and> v < i + length xs \<and> P (xs ! (v - i)) \<and> (\<forall>x \<in> set xs. P x \<longrightarrow> f (xs ! (v - i)) \<le> f x) \<and>
      (\<forall>w t. best = Some (w, t) \<longrightarrow> f (xs ! (v - i)) < t))"
proof (induction xs arbitrary: i best)
  case (Cons x xs)
  consider (no) "\<not> P x" | (none) "P x" "best = None" | (less) w t where "P x" "best = Some (w, t)" "f x < t"
    | (keep) w t where "P x" "best = Some (w, t)" "t \<le> f x"
    by (cases "P x"; cases best) (auto simp: not_less [symmetric])
  then show ?case
  proof cases
    case no
    then show ?thesis using Cons.IH [of "Suc i" best] Cons.prems by (auto simp: nth_Cons' Suc_diff_Suc)
  next
    case none
    then show ?thesis using Cons.IH [of "Suc i" "Some (i, f x)"] Cons.prems by (auto simp: nth_Cons')
  next
    case less
    then show ?thesis using Cons.IH [of "Suc i" "Some (i, f x)"] Cons.prems by (auto simp: nth_Cons')
  next
    case keep
    then show ?thesis using Cons.IH [of "Suc i" best] Cons.prems by (fastforce simp: nth_Cons')
  qed
qed auto

lemma oldest_from_Some:
  assumes "oldest_from P f xs 0 None = Some v"
  shows "v < length xs" "P (xs ! v)" "\<forall>x \<in> set xs. P x \<longrightarrow> f (xs ! v) \<le> f x"
  using oldest_from_spec [OF assms] by simp_all

lemma oldest_from_best: "best \<noteq> None \<Longrightarrow> oldest_from P f xs i best \<noteq> None"
  by (induction xs arbitrary: i best) (simp_all split: option.splits)

lemma oldest_from_None: "oldest_from P f xs i None = None \<longleftrightarrow> (\<forall>x \<in> set xs. \<not> P x)"
  using oldest_from_best [of "Some _" P f] by (induction xs arbitrary: i) (simp_all split: option.splits)

section \<open>The routing table stays well formed\<close>

definition table_inv :: "bytes \<Rightarrow> mainline_node list \<Rightarrow> bool" where
  "table_inv self ns \<longleftrightarrow> distinct (map mn_id ns) \<and> length ns \<le> MAINLINE_MAX_NODES \<and>
     (\<forall>n \<in> set ns. mn_id n \<noteq> self \<and> length (mn_id n) = 20 \<and> mn_ip n \<noteq> 0 \<and> mn_port n \<noteq> 0)"

lemma table_inv_swap_remove: "table_inv self ns \<Longrightarrow> i < length ns \<Longrightarrow> table_inv self (swap_remove i ns)"
  using set_swap_remove_subset [of i ns] distinct_map_swap_remove(1) [of mn_id ns i] by (auto simp: table_inv_def)

lemma swap_remove_other: "i < length xs \<Longrightarrow> x \<in> set xs \<Longrightarrow> x \<noteq> xs ! i \<Longrightarrow> x \<in> set (swap_remove i xs)"
proof -
  assume "i < length xs" "x \<in> set xs" "x \<noteq> xs ! i"
  then have "x \<in># mset (swap_remove i xs)" by (simp add: mset_swap_remove in_diff_count count_mset_gt_0)
  then show ?thesis by simp
qed

text \<open>Both ways to make room leave the table or remove one entry that is not preferred.\<close>

definition gave_room :: "mainline_node list \<Rightarrow> mainline_node list \<Rightarrow> bool" where
  "gave_room ns ns1 \<longleftrightarrow> ns1 = ns \<or> (\<exists>v < length ns. \<not> mn_preferred (ns ! v) \<and> ns1 = swap_remove v ns)"

lemma make_room_subnet_gave: "make_room_subnet ip ns = Some ns1 \<Longrightarrow> gave_room ns ns1"
  using oldest_from_Some [of "\<lambda>n. subnet (mn_ip n) = subnet ip \<and> \<not> mn_preferred n" mn_last_seen ns]
  by (auto simp: make_room_subnet_def gave_room_def split: if_splits)

lemma make_room_table_gave: "make_room_table ns = Some ns1 \<Longrightarrow> gave_room ns ns1"
  using oldest_from_Some [of "\<lambda>n. \<not> mn_preferred n" mn_last_seen ns]
  by (auto simp: make_room_table_def gave_room_def split: if_splits)

lemma gave_room_keeps:
  assumes "gave_room ns ns1"
  shows "table_inv self ns \<Longrightarrow> table_inv self ns1" "set ns1 \<subseteq> set ns" "n \<in> set ns \<Longrightarrow> mn_preferred n \<Longrightarrow> n \<in> set ns1"
proof -
  show "table_inv self ns \<Longrightarrow> table_inv self ns1"
    using assms table_inv_swap_remove by (auto simp: gave_room_def)
  show "set ns1 \<subseteq> set ns" using assms set_swap_remove_subset by (force simp: gave_room_def)
  assume n: "n \<in> set ns" "mn_preferred n"
  show "n \<in> set ns1" using assms
  proof (unfold gave_room_def, elim disjE exE conjE)
    fix v assume v: "v < length ns" "\<not> mn_preferred (ns ! v)" "ns1 = swap_remove v ns"
    then have "n \<noteq> ns ! v" using n by auto
    then show ?thesis using v n swap_remove_other by simp
  qed (use n in simp)
qed

lemma make_room_table_less: "make_room_table ns = Some ns1 \<Longrightarrow> length ns \<le> MAINLINE_MAX_NODES \<Longrightarrow> length ns1 < MAINLINE_MAX_NODES"
  by (auto simp: make_room_table_def MAINLINE_MAX_NODES_def split: if_splits)

lemma mainline_add_node_cases:
  assumes "mainline_add_node now nid ip port s = (rc, s')"
  obtains (refused) ns1 where "rc = -1" "s' = s\<lparr>ml_nodes := ns1\<rparr>" "gave_room (ml_nodes s) ns1"
    | (updated) i where "rc = 0" "ip \<noteq> 0" "port \<noteq> 0" "i < length (ml_nodes s)" "mn_id (ml_nodes s ! i) = nid"
        "s' = s\<lparr>ml_nodes := (ml_nodes s)[i := (ml_nodes s ! i)\<lparr>mn_ip := ip, mn_port := port, mn_last_seen := now\<rparr>]\<rparr>"
    | (added) ns1 ns2 where "rc = 1" "ip \<noteq> 0" "port \<noteq> 0" "nid \<noteq> ml_self_id s" "nid \<notin> mn_id ` set (ml_nodes s)"
        "make_room_subnet ip (ml_nodes s) = Some ns1" "make_room_table ns1 = Some ns2"
        "s' = s\<lparr>ml_nodes := ns2 @ [new_node now nid ip port]\<rparr>"
proof (cases "ip = 0 \<or> port = 0 \<or> nid = ml_self_id s")
  case True
  then have "rc = -1" "s' = s\<lparr>ml_nodes := ml_nodes s\<rparr>" using assms by (auto simp: mainline_add_node_def split: if_splits)
  then show ?thesis using refused [of "ml_nodes s"] by (simp add: gave_room_def)
next
  case go: False
  show ?thesis
  proof (cases "find_idx (\<lambda>n. mn_id n = nid) (ml_nodes s)")
    case (Some i)
    then show ?thesis
      using updated [of i] go assms find_idx_less [OF Some] find_idx_holds [OF Some] by (simp add: mainline_add_node_def)
  next
    case None
    then have new: "nid \<notin> mn_id ` set (ml_nodes s)" by auto
    show ?thesis
    proof (cases "make_room_subnet ip (ml_nodes s)")
      case n1: None
      have "rc = -1" "s' = s\<lparr>ml_nodes := ml_nodes s\<rparr>"
        using assms None n1 go by (simp_all add: mainline_add_node_def del: find_idx_None_iff)
      then show ?thesis using refused [of "ml_nodes s"] by (simp add: gave_room_def)
    next
      case s1: (Some ns1)
      show ?thesis
      proof (cases "make_room_table ns1")
        case n2: None
        have "(rc, s') = (-1, s\<lparr>ml_nodes := ns1\<rparr>)"
          unfolding assms [symmetric] using None go s1 n2 by (simp add: mainline_add_node_def del: find_idx_None_iff)
        then show ?thesis using refused [of ns1] make_room_subnet_gave [OF s1] by blast
      next
        case s2: (Some ns2)
        have "(rc, s') = (1, s\<lparr>ml_nodes := ns2 @ [new_node now nid ip port]\<rparr>)"
          unfolding assms [symmetric] using None go s1 s2 by (simp add: mainline_add_node_def del: find_idx_None_iff)
        then show ?thesis using added [OF _ _ _ _ new s1 s2] go by blast
      qed
    qed
  qed
qed

lemma table_inv_update:
  "table_inv self ns \<Longrightarrow> i < length ns \<Longrightarrow> mn_id n' = mn_id (ns ! i) \<Longrightarrow> mn_ip n' \<noteq> 0 \<Longrightarrow> mn_port n' \<noteq> 0 \<Longrightarrow>
     table_inv self (ns[i := n'])"
  by (auto simp: table_inv_def map_update list_update_same_conv dest!: set_update_subset_insert [THEN subsetD])
    (metis list_update_id map_update nth_map)

lemma table_inv_snoc:
  "table_inv self ns \<Longrightarrow> length ns < MAINLINE_MAX_NODES \<Longrightarrow> mn_id n \<notin> mn_id ` set ns \<Longrightarrow> mn_id n \<noteq> self \<Longrightarrow> length (mn_id n) = 20 \<Longrightarrow>
     mn_ip n \<noteq> 0 \<Longrightarrow> mn_port n \<noteq> 0 \<Longrightarrow> table_inv self (ns @ [n])"
  by (auto simp: table_inv_def)

lemma table_inv_add:
  assumes "mainline_add_node now nid ip port s = (rc, s')" "table_inv (ml_self_id s) (ml_nodes s)" "length nid = 20"
  shows "table_inv (ml_self_id s) (ml_nodes s')"
  using assms(1)
proof (cases rule: mainline_add_node_cases)
  case (refused ns1)
  then show ?thesis using assms(2) gave_room_keeps(1) by simp
next
  case (updated i)
  then show ?thesis using assms(2) by (auto intro!: table_inv_update)
next
  case (added ns1 ns2)
  note g = make_room_subnet_gave [OF added(6)] make_room_table_gave [OF added(7)]
  have t: "table_inv (ml_self_id s) ns1" "table_inv (ml_self_id s) ns2" using assms(2) g gave_room_keeps(1) by blast+
  have "set ns2 \<subseteq> set (ml_nodes s)" using g gave_room_keeps(2) by blast
  moreover have "length ns2 < MAINLINE_MAX_NODES" using make_room_table_less [OF added(7)] t(1) by (simp add: table_inv_def)
  ultimately show ?thesis using added assms(3) t(2) by (auto simp: new_node_def intro!: table_inv_snoc)
qed

lemma mainline_add_node_frame:
  "mainline_add_node now nid ip port s = (rc, s') \<Longrightarrow> s' = s\<lparr>ml_nodes := ml_nodes s'\<rparr>"
  by (cases rule: mainline_add_node_cases [of now nid ip port s rc s']) simp_all

text \<open>A preferred entry stays in the table, whatever is added; only its own address may change.\<close>

lemma mainline_add_node_preferred:
  assumes "mainline_add_node now nid ip port s = (rc, s')" "n \<in> set (ml_nodes s)" "mn_preferred n" "mn_id n \<noteq> nid"
  shows "n \<in> set (ml_nodes s')"
  using assms(1)
proof (cases rule: mainline_add_node_cases)
  case (refused ns1)
  then show ?thesis using assms gave_room_keeps(3) by simp
next
  case (updated i)
  obtain j where j: "j < length (ml_nodes s)" "ml_nodes s ! j = n" using assms(2) by (auto simp: in_set_conv_nth)
  then have "i \<noteq> j" using updated(5) assms(4) by auto
  then have "ml_nodes s' ! j = n" "j < length (ml_nodes s')" using j updated(6) by simp_all
  then show ?thesis by (metis nth_mem)
next
  case (added ns1 ns2)
  then show ?thesis
    using gave_room_keeps(3) [OF make_room_subnet_gave [OF added(6)] assms(2,3)] gave_room_keeps(3) [OF make_room_table_gave [OF added(7)] _ assms(3)]
    by simp
qed

lemma set_node_info_fields [simp]:
  "mn_id (set_node_info a pv app k n) = mn_id n" "mn_ip (set_node_info a pv app k n) = mn_ip n" "mn_port (set_node_info a pv app k n) = mn_port n"
  by (simp_all add: set_node_info_def Let_def split: option.split)

lemma mainline_update_node_info_nodes:
  "mainline_update_node_info nid pv app k s = (rc, s') \<Longrightarrow>
     s' = s\<lparr>ml_nodes := ml_nodes s'\<rparr> \<and> (table_inv self (ml_nodes s) \<longrightarrow> table_inv self (ml_nodes s'))"
  using find_idx_less [of "\<lambda>n. mn_id n = nid" "ml_nodes s"]
  by (auto simp: mainline_update_node_info_def simp del: find_idx_None_iff split: option.splits intro!: table_inv_update)
    (auto simp: table_inv_def)

section \<open>Eviction\<close>

lemma evict_step_cases:
  assumes "evict_step now max_age i (k, e, a) = (k', e', a')"
  obtains (fresh) "k' = Suc k" "e' = e" "a' = a[k := a ! i]" "\<not> node_stale now max_age (a ! i)"
    | (grace) "k' = Suc k" "e' = e" "a' = a[k := a ! i]" "mn_preferred (a ! i)"
        "\<exists>n \<in> set a. node_stale now max_age n \<and> \<not> mn_preferred n"
    | (gone) "k' = k" "e' = Suc e" "a' = a" "node_stale now max_age (a ! i)"
proof -
  let ?ex = "list_ex (\<lambda>j. j \<noteq> i \<and> node_stale now max_age (a ! j) \<and> \<not> mn_preferred (a ! j)) [0..<length a]"
  have ex: "\<exists>n \<in> set a. node_stale now max_age n \<and> \<not> mn_preferred n" if ?ex
    using that by (force simp: list_ex_iff)
  show ?thesis
  proof (cases "node_stale now max_age (a ! i)")
    case False
    then show ?thesis using assms fresh by (simp add: evict_step_def)
  next
    case st: True
    show ?thesis
    proof (cases "mn_preferred (a ! i) \<and> ?ex")
      case True
      then have "(k', e', a') = (Suc k, e, a[k := a ! i])" unfolding assms [symmetric] evict_step_def using st by simp
      then show ?thesis using grace True ex by blast
    next
      case False
      then have "(k', e', a') = (k, Suc e, a)" unfolding assms [symmetric] evict_step_def using st by auto
      then show ?thesis using gone st by blast
    qed
  qed
qed

lemma evict_fold:
  fixes ns :: "mainline_node list" and now max_age :: int
  defines "st \<equiv> node_stale now max_age"
  assumes "fold (evict_step now max_age) [0..<i] (0, 0, ns) = (kept, evicted, arr)" "i \<le> length ns"
  shows "kept + evicted = i \<and> length arr = length ns \<and> drop i arr = drop i ns \<and> set arr \<subseteq> set ns \<and>
     subseq (take kept arr) (take i ns) \<and> filter (\<lambda>n. \<not> st n) (take kept arr) = filter (\<lambda>n. \<not> st n) (take i ns) \<and>
     (\<forall>n \<in> set (take kept arr). st n \<longrightarrow> mn_preferred n) \<and>
     ((\<forall>n \<in> set ns. st n \<longrightarrow> mn_preferred n) \<longrightarrow> (\<forall>n \<in> set (take kept arr). \<not> st n))"
  using assms(2,3)
proof (induction i arbitrary: kept evicted arr)
  case (Suc i)
  obtain k e a where f: "fold (evict_step now max_age) [0..<i] (0, 0, ns) = (k, e, a)" by (cases "fold (evict_step now max_age) [0..<i] (0, 0, ns)")
  have i: "i < length ns" using Suc.prems(2) by simp
  note IH = Suc.IH [OF f less_imp_le [OF i]]
  have k: "k \<le> i" "k < length a" using IH i by auto
  have ai: "a ! i = ns ! i" using IH i by (metis drop_eq_nths hd_drop_conv_nth)
  have step: "evict_step now max_age i (k, e, a) = (kept, evicted, arr)" using Suc.prems(1) f by simp
  have app: "take (Suc i) ns = take i ns @ [ns ! i]" using i by (rule take_Suc_conv_app_nth)
  have keep: "take (Suc k) (a[k := ns ! i]) = take k a @ [ns ! i]" using k by (simp add: take_Suc_conv_app_nth)
  have rest: "drop (Suc i) a = drop (Suc i) ns" using IH by (metis drop_drop plus_1_eq_Suc)
  have "set a \<subseteq> set ns" using IH by blast
  then have upd: "set (a[k := ns ! i]) \<subseteq> set ns" using set_update_subset_insert [of a k "ns ! i"] nth_mem [OF i] by blast
  show ?case using step
  proof (cases rule: evict_step_cases)
    case fresh
    then show ?thesis using IH rest k upd unfolding ai st_def fresh(1-3) keep app by simp
  next
    case grace
    have "\<not> (\<forall>n \<in> set ns. st n \<longrightarrow> mn_preferred n)" using grace(5) IH unfolding st_def by blast
    then show ?thesis using grace(4) IH rest k upd unfolding ai st_def grace(1-3) keep app by simp blast
  next
    case gone
    then show ?thesis using IH rest unfolding ai st_def gone(1-3) app by (simp add: subseq_rev_drop_many)
  qed
qed simp

lemma evict_stale_spec:
  assumes "mainline_evict_stale now max_age s = (ev, s')"
  shows "s' = s\<lparr>ml_nodes := ml_nodes s'\<rparr>" "subseq (ml_nodes s') (ml_nodes s)" "ev + length (ml_nodes s') = length (ml_nodes s)"
    "filter (\<lambda>n. \<not> node_stale now max_age n) (ml_nodes s') = filter (\<lambda>n. \<not> node_stale now max_age n) (ml_nodes s)"
    "\<forall>n \<in> set (ml_nodes s'). node_stale now max_age n \<longrightarrow> mn_preferred n"
    "(\<forall>n \<in> set (ml_nodes s). node_stale now max_age n \<longrightarrow> mn_preferred n) \<longrightarrow>
       ml_nodes s' = filter (\<lambda>n. \<not> node_stale now max_age n) (ml_nodes s)"
proof -
  obtain kept arr where f: "fold (evict_step now max_age) [0..<length (ml_nodes s)] (0, 0, ml_nodes s) = (kept, ev, arr)"
    and s': "s' = s\<lparr>ml_nodes := take kept arr\<rparr>"
    using assms by (auto simp: mainline_evict_stale_def split: prod.splits)
  note F = evict_fold [OF f order_refl]
  show "s' = s\<lparr>ml_nodes := ml_nodes s'\<rparr>" by (simp add: s')
  show "subseq (ml_nodes s') (ml_nodes s)" using F by (simp add: s')
  show "ev + length (ml_nodes s') = length (ml_nodes s)" using F by (simp add: s')
  show c: "filter (\<lambda>n. \<not> node_stale now max_age n) (ml_nodes s') = filter (\<lambda>n. \<not> node_stale now max_age n) (ml_nodes s)"
    using F by (simp add: s')
  show "\<forall>n \<in> set (ml_nodes s'). node_stale now max_age n \<longrightarrow> mn_preferred n" using F by (simp add: s')
  show "(\<forall>n \<in> set (ml_nodes s). node_stale now max_age n \<longrightarrow> mn_preferred n) \<longrightarrow>
       ml_nodes s' = filter (\<lambda>n. \<not> node_stale now max_age n) (ml_nodes s)"
  proof
    assume "\<forall>n \<in> set (ml_nodes s). node_stale now max_age n \<longrightarrow> mn_preferred n"
    then have "\<forall>n \<in> set (ml_nodes s'). \<not> node_stale now max_age n" using F by (simp add: s')
    then show "ml_nodes s' = filter (\<lambda>n. \<not> node_stale now max_age n) (ml_nodes s)"
      unfolding c [symmetric] by simp
  qed
qed

lemma table_inv_subseq:
  assumes "subseq ns' ns" "table_inv self ns"
  shows "table_inv self ns'"
proof -
  obtain N where n: "ns' = nths ns N" using assms(1) by (auto simp: subseq_conv_nths)
  have "length ns' \<le> length ns" using assms(1) by (rule list_emb_length)
  moreover have "set ns' \<subseteq> set ns" by (simp add: n set_nths_subset)
  moreover have "distinct (map mn_id ns')" using assms(2) by (simp add: n nths_map [symmetric] distinct_nthsI table_inv_def)
  ultimately show ?thesis using assms(2) by (auto simp: table_inv_def)
qed

section \<open>Transactions\<close>

lemma expire_tx_filter:
  "i \<le> length ts \<Longrightarrow>
     expire_tx now i ts = take i ts @ filter (\<lambda>t. now - mt_created t \<le> MAINLINE_TRANSACTION_TIMEOUT) (drop i ts)"
proof (induction now i ts rule: expire_tx.induct)
  case (1 now i ts)
  show ?case
  proof (cases "i < length ts")
    case True
    have d: "drop i ts = ts ! i # drop (Suc i) ts" using True by (rule Cons_nth_drop_Suc [symmetric])
    show ?thesis
    proof (cases "now - mt_created (ts ! i) > MAINLINE_TRANSACTION_TIMEOUT")
      case old: True
      have "expire_tx now i ts = expire_tx now i (take i ts @ drop (Suc i) ts)" using True old by (simp add: expire_tx.simps)
      also have "\<dots> = take i ts @ filter (\<lambda>t. now - mt_created t \<le> MAINLINE_TRANSACTION_TIMEOUT) (drop (Suc i) ts)"
        using "1.IH"(1) [OF True old] True by simp
      finally show ?thesis using old by (simp add: d)
    next
      case False
      have "expire_tx now i ts = expire_tx now (Suc i) ts" using True False by (subst expire_tx.simps) simp
      also have "\<dots> = take (Suc i) ts @ filter (\<lambda>t. now - mt_created t \<le> MAINLINE_TRANSACTION_TIMEOUT) (drop (Suc i) ts)"
        using "1.IH"(2) [OF True False] True by simp
      finally show ?thesis using False True by (simp add: d take_Suc_conv_app_nth)
    qed
  qed (use "1.prems" in \<open>simp add: expire_tx.simps\<close>)
qed

lemma process_transactions_eq:
  "mainline_process_transactions now s =
     s\<lparr>ml_transactions := filter (\<lambda>t. now - mt_created t \<le> MAINLINE_TRANSACTION_TIMEOUT) (ml_transactions s)\<rparr>"
  by (simp add: mainline_process_transactions_def expire_tx_filter)

lemma find_node_frame:
  "mainline_find_node sent now target ip port s = (rc, d, s') \<Longrightarrow>
     s' = s\<lparr>ml_transactions := ml_transactions s', ml_next_tid := ml_next_tid s'\<rparr> \<and>
     (length (ml_transactions s) \<le> MAINLINE_MAX_TRANSACTIONS \<longrightarrow> length (ml_transactions s') \<le> MAINLINE_MAX_TRANSACTIONS)"
  by (auto simp: mainline_find_node_def Let_def split: if_splits)

lemma find_self_all_frame:
  "find_self_all sent now es s = (ds, s') \<Longrightarrow>
     s' = s\<lparr>ml_transactions := ml_transactions s', ml_next_tid := ml_next_tid s'\<rparr> \<and>
     (length (ml_transactions s) \<le> MAINLINE_MAX_TRANSACTIONS \<longrightarrow> length (ml_transactions s') \<le> MAINLINE_MAX_TRANSACTIONS)"
proof (induction es arbitrary: s ds)
  case (Cons e es)
  obtain rc d s1 where f: "mainline_find_node sent now (ml_self_id s) (fst e) (snd e) s = (rc, d, s1)"
    by (cases "mainline_find_node sent now (ml_self_id s) (fst e) (snd e) s")
  obtain ds' where r: "find_self_all sent now es s1 = (ds', s')" using Cons.prems f by (auto split: prod.splits)
  have 1: "s1 = s\<lparr>ml_transactions := ml_transactions s1, ml_next_tid := ml_next_tid s1\<rparr>"
    and b: "length (ml_transactions s) \<le> MAINLINE_MAX_TRANSACTIONS \<longrightarrow> length (ml_transactions s1) \<le> MAINLINE_MAX_TRANSACTIONS"
    using find_node_frame [OF f] by blast+
  have 2: "s' = s1\<lparr>ml_transactions := ml_transactions s', ml_next_tid := ml_next_tid s'\<rparr>" using Cons.IH [OF r] by blast
  have "s' = s\<lparr>ml_transactions := ml_transactions s', ml_next_tid := ml_next_tid s'\<rparr>" by (subst 2, subst 1) simp
  then show ?case using b Cons.IH [OF r] by blast
qed simp

section \<open>Files\<close>

lemma load_nodes_from_inv:
  "load_nodes_from now n b l s = (l', s') \<Longrightarrow>
     s' = s\<lparr>ml_nodes := ml_nodes s'\<rparr> \<and> (table_inv (ml_self_id s) (ml_nodes s) \<longrightarrow> table_inv (ml_self_id s) (ml_nodes s'))"
proof (induction n arbitrary: b l s)
  case (Suc n)
  show ?case
  proof (cases "length (ml_nodes s) \<ge> MAINLINE_MAX_NODES \<or> length b < 26")
    case True
    then show ?thesis using Suc.prems by (simp add: load_nodes_from.simps(2))
  next
    case False
    obtain rc s1 where a: "mainline_add_node now (take 20 b) (un_mem32 (drop 20 b)) (un_mem16 (drop 24 b)) s = (rc, s1)" by fastforce
    then have r: "load_nodes_from now n (drop 26 b) (if rc \<ge> 0 then l + 1 else l) s1 = (l', s')"
      using Suc.prems False by (simp add: load_nodes_from.simps(2))
    have f: "s1 = s\<lparr>ml_nodes := ml_nodes s1\<rparr>" by (rule mainline_add_node_frame [OF a])
    have i: "ml_self_id s1 = ml_self_id s" by (subst f) simp
    have g: "s' = s1\<lparr>ml_nodes := ml_nodes s'\<rparr>" using Suc.IH [OF r] by blast
    have "s' = s\<lparr>ml_nodes := ml_nodes s'\<rparr>" by (subst g, subst f) simp
    then show ?thesis using Suc.IH [OF r] table_inv_add [OF a] False i by simp
  qed
qed simp

lemma mainline_load_nodes_inv:
  "mainline_load_nodes now b s = (l', s') \<Longrightarrow>
     s' = s\<lparr>ml_nodes := ml_nodes s'\<rparr> \<and> (table_inv (ml_self_id s) (ml_nodes s) \<longrightarrow> table_inv (ml_self_id s) (ml_nodes s'))"
  using load_nodes_from_inv by (auto simp: mainline_load_nodes_def split: if_splits)

definition subnet_count :: "u32 \<Rightarrow> mainline_node list \<Rightarrow> nat" where
  "subnet_count ip ns = length (filter (\<lambda>n. subnet (mn_ip n) = subnet ip) ns)"

lemma mainline_add_node_append:
  assumes "ip \<noteq> 0" "port \<noteq> 0" "nid \<noteq> ml_self_id s" "nid \<notin> mn_id ` set (ml_nodes s)"
    "subnet_count ip (ml_nodes s) < MAINLINE_MAX_PER_SUBNET" "length (ml_nodes s) < MAINLINE_MAX_NODES"
  shows "mainline_add_node now nid ip port s = (1, s\<lparr>ml_nodes := ml_nodes s @ [new_node now nid ip port]\<rparr>)"
proof -
  have "find_idx (\<lambda>n. mn_id n = nid) (ml_nodes s) = None" using assms(4) by auto
  then show ?thesis
    using assms by (simp add: mainline_add_node_def make_room_subnet_def make_room_table_def subnet_count_def del: find_idx_None_iff)
qed

definition renewed :: "int \<Rightarrow> mainline_node \<Rightarrow> mainline_node" where
  "renewed now n = new_node now (mn_id n) (mn_ip n) (mn_port n)"

lemma renewed_fields [simp]: "mn_id (renewed now n) = mn_id n" "mn_ip (renewed now n) = mn_ip n" "mn_port (renewed now n) = mn_port n"
  by (simp_all add: renewed_def new_node_def)

lemma load_nodes_from_saved:
  assumes "table_inv self (ks @ ns)" "\<forall>ip. subnet_count ip (ks @ ns) \<le> MAINLINE_MAX_PER_SUBNET"
    "ml_nodes s = map (renewed now) ks" "ml_self_id s = self"
  shows "load_nodes_from now (length ns) (concat (map (\<lambda>n. mn_id n @ mem32 (mn_ip n) @ mem16 (mn_port n)) ns)) l s =
    (l + int (length ns), s\<lparr>ml_nodes := map (renewed now) (ks @ ns)\<rparr>)"
  using assms
proof (induction ns arbitrary: ks l s)
  case (Cons n ns)
  have n: "length (mn_id n) = 20" "mn_ip n \<noteq> 0" "mn_port n \<noteq> 0" "mn_id n \<noteq> self" "mn_id n \<notin> mn_id ` set ks"
    using Cons.prems(1) by (auto simp: table_inv_def)
  have len: "length (ml_nodes s) < MAINLINE_MAX_NODES" using Cons.prems(1,3) by (simp add: table_inv_def)
  have "subnet_count (mn_ip n) (ks @ n # ns) \<le> MAINLINE_MAX_PER_SUBNET" using Cons.prems(2) by blast
  moreover have "subnet_count (mn_ip n) (map (renewed now) ks) = subnet_count (mn_ip n) ks" by (simp add: subnet_count_def filter_map o_def)
  ultimately have sub: "subnet_count (mn_ip n) (ml_nodes s) < MAINLINE_MAX_PER_SUBNET" by (simp add: Cons.prems(3) subnet_count_def)
  have a: "mainline_add_node now (mn_id n) (mn_ip n) (mn_port n) s = (1, s\<lparr>ml_nodes := ml_nodes s @ [renewed now n]\<rparr>)"
    unfolding renewed_def by (rule mainline_add_node_append) (use n len sub Cons.prems(3,4) in auto)
  let ?b = "concat (map (\<lambda>n. mn_id n @ mem32 (mn_ip n) @ mem16 (mn_port n)) ns)"
  have e: "take 20 (mn_id n @ mem32 (mn_ip n) @ mem16 (mn_port n) @ ?b) = mn_id n"
    "drop 20 (mn_id n @ mem32 (mn_ip n) @ mem16 (mn_port n) @ ?b) = mem32 (mn_ip n) @ mem16 (mn_port n) @ ?b"
    "drop 24 (mn_id n @ mem32 (mn_ip n) @ mem16 (mn_port n) @ ?b) = mem16 (mn_port n) @ ?b"
    "drop 26 (mn_id n @ mem32 (mn_ip n) @ mem16 (mn_port n) @ ?b) = ?b" using n(1) by simp_all
  have "load_nodes_from now (length ns) ?b (l + 1) (s\<lparr>ml_nodes := ml_nodes s @ [renewed now n]\<rparr>) =
    (l + 1 + int (length ns), s\<lparr>ml_nodes := map (renewed now) ((ks @ [n]) @ ns)\<rparr>)"
    using Cons.IH [of "ks @ [n]" "s\<lparr>ml_nodes := ml_nodes s @ [renewed now n]\<rparr>" "l + 1"] Cons.prems by simp
  then show ?case using len n(1) by (simp add: load_nodes_from.simps(2) e a)
qed simp

section \<open>Endpoint cache as a map\<close>

definition cache_inv :: "peer_cache_entry list \<Rightarrow> bool" where
  "cache_inv c \<longleftrightarrow> distinct (map pc_key c) \<and> length c \<le> PEER_CACHE_MAX"

lemma find_key_at: "distinct (map pc_key c) \<Longrightarrow> i < length c \<Longrightarrow> pc_key (c ! i) = key \<Longrightarrow> find_idx (\<lambda>e. pc_key e = key) c = Some i"
  using find_idx_distinct [of pc_key c i] by simp

lemma peer_cache_put_cases:
  assumes "cache_inv c" "ip \<noteq> 0" "port \<noteq> 0"
  obtains (set) i where "i < length c" "pc_key (c ! i) = key \<or> key \<notin> pc_key ` set c \<and> length c = PEER_CACHE_MAX \<and> (\<forall>e \<in> set c. pc_updated (c ! i) \<le> pc_updated e)"
      "peer_cache_put now key ip port c = c[i := \<lparr>pc_key = key, pc_ip = ip, pc_port = port, pc_updated = now\<rparr>]"
    | (new) "key \<notin> pc_key ` set c" "length c < PEER_CACHE_MAX"
      "peer_cache_put now key ip port c = c @ [\<lparr>pc_key = key, pc_ip = ip, pc_port = port, pc_updated = now\<rparr>]"
proof (cases "find_idx (\<lambda>e. pc_key e = key) c")
  case (Some i)
  have i: "i < length c" "pc_key (c ! i) = key" using find_idx_less [OF Some] find_idx_holds [OF Some] by simp_all
  have e: "(c ! i)\<lparr>pc_ip := ip, pc_port := port, pc_updated := now\<rparr> = \<lparr>pc_key = key, pc_ip = ip, pc_port = port, pc_updated = now\<rparr>"
    using i(2) by (cases "c ! i") simp
  have "peer_cache_put now key ip port c = c[i := \<lparr>pc_key = key, pc_ip = ip, pc_port = port, pc_updated = now\<rparr>]"
    unfolding e [symmetric] using Some assms(2,3) by (simp add: peer_cache_put_def)
  then show ?thesis using set [of i] i by blast
next
  case None
  then have k: "key \<notin> pc_key ` set c" by auto
  show ?thesis
  proof (cases "length c < PEER_CACHE_MAX")
    case True
    then show ?thesis using new k None assms(2,3) by (simp add: peer_cache_put_def Let_def del: find_idx_None_iff)
  next
    case False
    then have l: "length c = PEER_CACHE_MAX" using assms(1) by (simp add: cache_inv_def)
    then have "c \<noteq> []" by (auto simp: PEER_CACHE_MAX_def)
    then obtain v where v: "oldest_from (\<lambda>_. True) pc_updated c 0 None = Some v"
      using oldest_from_None [of "\<lambda>_. True" pc_updated c 0] by (cases "oldest_from (\<lambda>_. True) pc_updated c 0 None") auto
    then show ?thesis
      using set [of v] oldest_from_Some [OF v] k l None assms(2,3) False by (simp add: peer_cache_put_def Let_def del: find_idx_None_iff)
  qed
qed

lemma cache_set_inv:
  assumes "cache_inv c" "i < length c" "pc_key (c ! i) = pc_key e \<or> pc_key e \<notin> pc_key ` set c"
  shows "cache_inv (c[i := e])"
proof (cases "pc_key (c ! i) = pc_key e")
  case True
  then have "map pc_key (c[i := e]) = map pc_key c" using assms(2) by (simp add: map_update list_update_same_conv)
  then show ?thesis using assms(1) by (simp add: cache_inv_def)
next
  case False
  then show ?thesis using assms by (auto simp: cache_inv_def map_update intro!: distinct_list_update)
qed

lemma peer_cache_put_inv: "cache_inv c \<Longrightarrow> cache_inv (peer_cache_put now key ip port c)"
proof (cases "ip = 0 \<or> port = 0")
  case False
  then have z: "ip \<noteq> 0" "port \<noteq> 0" by simp_all
  assume c: "cache_inv c"
  from c z show ?thesis
  proof (cases rule: peer_cache_put_cases [where now = now and key = key])
    case (set i)
    then show ?thesis using c cache_set_inv by auto
  next
    case new
    then show ?thesis using c by (auto simp: cache_inv_def)
  qed
qed (simp add: peer_cache_put_def)

lemma peer_cache_put_get:
  assumes "cache_inv c" "ip \<noteq> 0" "port \<noteq> 0" "max_age \<le> 0 \<or> now' - now \<le> max_age"
  shows "peer_cache_get now' key max_age (peer_cache_put now key ip port c) = Some (ip, port)"
proof -
  have inv: "distinct (map pc_key (peer_cache_put now key ip port c))"
    using peer_cache_put_inv [OF assms(1)] by (simp add: cache_inv_def)
  from assms(1-3) show ?thesis
  proof (cases rule: peer_cache_put_cases [where key = key and now = now])
    case (set i)
    have "find_idx (\<lambda>e. pc_key e = key) (peer_cache_put now key ip port c) = Some i"
      by (rule find_key_at [OF inv]) (use set in simp_all)
    then show ?thesis using set assms(4) by (auto simp: peer_cache_get_def)
  next
    case new
    have "find_idx (\<lambda>e. pc_key e = key) (peer_cache_put now key ip port c) = Some (length c)"
      by (rule find_key_at [OF inv]) (use new in simp_all)
    then show ?thesis using new assms(4) by (auto simp: peer_cache_get_def)
  qed
qed

text \<open>Another key keeps its endpoint, unless the cache is full and its entry is an oldest one.\<close>

lemma peer_cache_put_other:
  assumes "cache_inv c" "find_idx (\<lambda>e. pc_key e = k') c = Some j" "k' \<noteq> key"
    "key \<in> pc_key ` set c \<or> length c < PEER_CACHE_MAX \<or> (\<exists>e \<in> set c. pc_updated e < pc_updated (c ! j))"
  shows "peer_cache_get now' k' max_age (peer_cache_put now key ip port c) = peer_cache_get now' k' max_age c"
proof (cases "ip = 0 \<or> port = 0")
  case False
  then have z: "ip \<noteq> 0" "port \<noteq> 0" by simp_all
  have j: "j < length c" "pc_key (c ! j) = k'" using find_idx_less [OF assms(2)] find_idx_holds [OF assms(2)] by simp_all
  have inv: "distinct (map pc_key (peer_cache_put now key ip port c))"
    using peer_cache_put_inv [OF assms(1)] by (simp add: cache_inv_def)
  have "peer_cache_put now key ip port c ! j = c ! j \<and> j < length (peer_cache_put now key ip port c)"
    using assms(1) z
  proof (cases rule: peer_cache_put_cases [where now = now and key = key])
    case (set i)
    have "i \<noteq> j" using set(2) j assms(3,4) by force
    then show ?thesis using set j by simp
  next
    case new
    then show ?thesis using j by (simp add: nth_append)
  qed
  then have "find_idx (\<lambda>e. pc_key e = k') (peer_cache_put now key ip port c) = Some j"
    using find_key_at [OF inv, of j k'] j by simp
  then show ?thesis using assms(2) \<open>peer_cache_put now key ip port c ! j = c ! j \<and> _\<close> by (simp add: peer_cache_get_def)
qed (simp add: peer_cache_put_def)

lemma int64_round_trip:
  assumes "- (2 ^ 63) \<le> t" "t < 2 ^ 63"
  shows "sint (word_of_nat (le_val (le_bytes 8 (nat (t mod 2 ^ 64)))) :: 64 word) = t"
proof -
  have "nat (t mod 2 ^ 64) < 256 ^ 8" by (simp add: nat_less_iff)
  then have "le_val (le_bytes 8 (nat (t mod 2 ^ 64))) = nat (t mod 2 ^ 64)" by (rule le_round_trip)
  moreover have "(word_of_nat (nat (t mod 2 ^ 64)) :: 64 word) = word_of_int t"
  proof -
    have "(word_of_nat (nat (t mod 2 ^ 64)) :: 64 word) = word_of_int (t mod 2 ^ 64)" by (rule of_nat_nat) simp
    also have "\<dots> = word_of_int t" by (rule word_of_int_eq_iff [THEN iffD2]) (simp add: take_bit_eq_mod)
    finally show ?thesis .
  qed
  ultimately show ?thesis using assms by (simp add: signed_of_int signed_take_bit_int_eq_self)
qed

lemma load_cache_from_saved:
  assumes "\<forall>e \<in> set c. length (pc_key e) = 20 \<and> - (2 ^ 63) \<le> pc_updated e \<and> pc_updated e < 2 ^ 63" "length ks + length c \<le> PEER_CACHE_MAX"
  shows "load_cache_from (length c) (concat (map (\<lambda>e. pc_key e @ mem32 (pc_ip e) @ mem16 (pc_port e) @ le_bytes 8 (nat (pc_updated e mod 2 ^ 64))) c)) l ks =
    (l + int (length c), ks @ c)"
  using assms
proof (induction c arbitrary: ks l)
  case (Cons e c)
  let ?b = "concat (map (\<lambda>e. pc_key e @ mem32 (pc_ip e) @ mem16 (pc_port e) @ le_bytes 8 (nat (pc_updated e mod 2 ^ 64))) c)"
  let ?h = "pc_key e @ mem32 (pc_ip e) @ mem16 (pc_port e) @ le_bytes 8 (nat (pc_updated e mod 2 ^ 64)) @ ?b"
  have k: "length (pc_key e) = 20" using Cons.prems(1) by simp
  have h: "take 20 ?h = pc_key e" "drop 20 ?h = mem32 (pc_ip e) @ drop 24 ?h" "drop 24 ?h = mem16 (pc_port e) @ drop 26 ?h"
    "take 8 (drop 26 ?h) = le_bytes 8 (nat (pc_updated e mod 2 ^ 64))" "drop 34 ?h = ?b" "\<not> length ?h < 34"
    using k by simp_all
  have t: "sint (word_of_nat (le_val (le_bytes 8 (nat (pc_updated e mod 2 ^ 64)))) :: 64 word) = pc_updated e"
    by (rule int64_round_trip) (use Cons.prems(1) in simp_all)
  have e: "\<lparr>pc_key = take 20 ?h, pc_ip = un_mem32 (drop 20 ?h), pc_port = un_mem16 (drop 24 ?h),
     pc_updated = sint (word_of_nat (le_val (take 8 (drop 26 ?h))) :: 64 word)\<rparr> = e"
    unfolding h(1,2,4) t unfolding h(3) by simp
  have "load_cache_from (Suc (length c)) ?h l ks = load_cache_from (length c) ?b (l + 1) (ks @ [e])"
    using Cons.prems(2) h(6) by (simp add: load_cache_from.simps(2) e [simplified] h(5) [simplified])
  then show ?case using Cons.IH [of "ks @ [e]" "l + 1"] Cons.prems by simp
qed simp

lemma header_read:
  "n < 2 ^ 32 \<Longrightarrow> take 4 (le_bytes 4 a @ le_bytes 4 b @ le_bytes 4 n @ r) = le_bytes 4 a \<and> take 4 (drop 4 (le_bytes 4 a @ le_bytes 4 b @ le_bytes 4 n @ r)) = le_bytes 4 b \<and>
     le_val (take 4 (drop 8 (le_bytes 4 a @ le_bytes 4 b @ le_bytes 4 n @ r))) = n \<and> drop 12 (le_bytes 4 a @ le_bytes 4 b @ le_bytes 4 n @ r) = r"
  by (simp add: le32_round_trip)

lemma peer_cache_file:
  assumes "\<forall>e \<in> set c. length (pc_key e) = 20 \<and> - (2 ^ 63) \<le> pc_updated e \<and> pc_updated e < 2 ^ 63" "length c \<le> PEER_CACHE_MAX"
  shows "peer_cache_load (snd (peer_cache_save c)) [] = (int (length c), c)"
proof -
  have n: "length c < 2 ^ 32" using assms(2) by (simp add: PEER_CACHE_MAX_def)
  show ?thesis
    using load_cache_from_saved [of c "[]" 0] assms
    by (simp add: peer_cache_load_def peer_cache_save_def header_read [OF n] le32_round_trip [OF n] le32_round_trip PEER_CACHE_MAGIC_def PEER_CACHE_VERSION_def)
qed

lemma mainline_nodes_file:
  assumes "table_inv (ml_self_id s) (ml_nodes s)" "\<forall>ip. subnet_count ip (ml_nodes s) \<le> MAINLINE_MAX_PER_SUBNET"
    "ml_nodes s0 = []" "ml_self_id s0 = ml_self_id s"
  shows "mainline_load_nodes now (snd (mainline_save_nodes s)) s0 =
    (int (length (ml_nodes s)), s0\<lparr>ml_nodes := map (renewed now) (ml_nodes s)\<rparr>)"
proof -
  have n: "length (ml_nodes s) < 2 ^ 32" using assms(1) by (simp add: table_inv_def MAINLINE_MAX_NODES_def)
  show ?thesis
    using load_nodes_from_saved [of "ml_self_id s" "[]" "ml_nodes s" s0 now 0] assms
    by (simp add: mainline_load_nodes_def mainline_save_nodes_def header_read [OF n] le32_round_trip [OF n] le32_round_trip MAINLINE_NODES_MAGIC_def MAINLINE_NODES_VERSION_def)
qed

section \<open>The cap on a subnet\<close>

definition add_all :: "int \<Rightarrow> (bytes \<times> u32 \<times> u16) list \<Rightarrow> mainline_state \<Rightarrow> mainline_state" where
  "add_all now es s = foldl (\<lambda>s (nid, ip, port). snd (mainline_add_node now nid ip port s)) s es"

lemma add_all_fresh:
  assumes "distinct (map fst es)" "distinct (map (\<lambda>(nid, ip, port). subnet ip) es)" "length es \<le> MAINLINE_MAX_NODES"
    "\<forall>(nid, ip, port) \<in> set es. ip \<noteq> 0 \<and> port \<noteq> 0 \<and> nid \<noteq> ml_self_id s" "ml_nodes s = []"
  shows "add_all now es s = s\<lparr>ml_nodes := map (\<lambda>(nid, ip, port). new_node now nid ip port) es\<rparr>"
  using assms
proof (induction es rule: rev_induct)
  case (snoc e es)
  obtain nid ip port where e: "e = (nid, ip, port)" by (cases e)
  let ?s = "s\<lparr>ml_nodes := map (\<lambda>(nid, ip, port). new_node now nid ip port) es\<rparr>"
  have "filter (\<lambda>n. subnet (mn_ip n) = subnet ip) (ml_nodes ?s) = []"
    using snoc.prems(2) by (auto simp: e filter_empty_conv new_node_def image_iff split: prod.splits)
  then have sub: "subnet_count ip (ml_nodes ?s) < MAINLINE_MAX_PER_SUBNET"
    unfolding subnet_count_def MAINLINE_MAX_PER_SUBNET_def by (simp only: list.size)
  have new: "nid \<notin> mn_id ` set (ml_nodes ?s)" using snoc.prems(1) by (force simp: e new_node_def)
  have "mainline_add_node now nid ip port ?s = (1, ?s\<lparr>ml_nodes := ml_nodes ?s @ [new_node now nid ip port]\<rparr>)"
    by (rule mainline_add_node_append) (use sub new snoc.prems(3,4) in \<open>simp_all add: e\<close>)
  then show ?case using snoc by (simp add: add_all_def e)
qed (simp add: add_all_def)

lemma move_one:
  fixes now :: int
  assumes "table_inv self ns" "j < length ns" "ip \<noteq> 0" "port \<noteq> 0"
  defines "ns' \<equiv> ns[j := (ns ! j)\<lparr>mn_ip := ip, mn_port := port, mn_last_seen := now\<rparr>]"
  shows "map mn_id ns' = map mn_id ns" "table_inv self ns'" "n \<in> set ns' \<Longrightarrow> mn_ip n = ip \<or> n \<in> set ns \<and> mn_id n \<noteq> mn_id (ns ! j)"
proof -
  show m: "map mn_id ns' = map mn_id ns" unfolding ns'_def using assms(2) by (simp add: map_update list_update_same_conv)
  show "table_inv self ns'" unfolding ns'_def by (rule table_inv_update) (use assms in simp_all)
  assume "n \<in> set ns'"
  then obtain l where l: "l < length ns'" "n = ns' ! l" by (auto simp: in_set_conv_nth)
  show "mn_ip n = ip \<or> n \<in> set ns \<and> mn_id n \<noteq> mn_id (ns ! j)"
  proof (cases "l = j")
    case True
    then show ?thesis using l assms(2) by (simp add: ns'_def)
  next
    case False
    then have n: "n = ns ! l" "l < length ns" using l by (simp_all add: ns'_def)
    have "mn_id n \<noteq> mn_id (ns ! j)"
      using False assms(1,2) n nth_eq_iff_index_eq [of "map mn_id ns" l j] by (simp add: table_inv_def)
    then show ?thesis using n by simp
  qed
qed

lemma add_all_move:
  fixes now :: int
  assumes "table_inv (ml_self_id s) (ml_nodes s)" "set ids \<subseteq> mn_id ` set (ml_nodes s)" "ip \<noteq> 0" "port \<noteq> 0"
  defines "s' \<equiv> \<lambda>ids. add_all now (map (\<lambda>i. (i, ip, port)) ids) s"
  shows "map mn_id (ml_nodes (s' ids)) = map mn_id (ml_nodes s) \<and> table_inv (ml_self_id s) (ml_nodes (s' ids)) \<and>
    ml_self_id (s' ids) = ml_self_id s \<and> (\<forall>n \<in> set (ml_nodes (s' ids)). mn_id n \<in> set ids \<longrightarrow> mn_ip n = ip)"
  using assms(2)
proof (induction ids rule: rev_induct)
  case (snoc i ids)
  have IH: "map mn_id (ml_nodes (s' ids)) = map mn_id (ml_nodes s)" "table_inv (ml_self_id s) (ml_nodes (s' ids))"
    "ml_self_id (s' ids) = ml_self_id s" "\<forall>n \<in> set (ml_nodes (s' ids)). mn_id n \<in> set ids \<longrightarrow> mn_ip n = ip" using snoc by auto
  have "i \<in> set (map mn_id (ml_nodes (s' ids)))" unfolding IH(1) using snoc.prems by simp
  then obtain j where j: "j < length (ml_nodes (s' ids))" "mn_id (ml_nodes (s' ids) ! j) = i" by (auto simp: in_set_conv_nth)
  have f: "find_idx (\<lambda>n. mn_id n = i) (ml_nodes (s' ids)) = Some j"
    using find_idx_distinct [of mn_id "ml_nodes (s' ids)" j] IH(2) j by (simp add: table_inv_def)
  have "i \<noteq> ml_self_id (s' ids)" using IH(2,3) j nth_mem [OF j(1)] by (auto simp: table_inv_def)
  moreover have "s' (ids @ [i]) = snd (mainline_add_node now i ip port (s' ids))" by (simp add: s'_def add_all_def)
  ultimately have a: "s' (ids @ [i]) =
    (s' ids)\<lparr>ml_nodes := (ml_nodes (s' ids))[j := (ml_nodes (s' ids) ! j)\<lparr>mn_ip := ip, mn_port := port, mn_last_seen := now\<rparr>]\<rparr>"
    using assms(3,4) f by (simp add: mainline_add_node_def)
  note m = move_one [OF IH(2) j(1) assms(3,4), where now = now]
  have "\<forall>n \<in> set (ml_nodes (s' (ids @ [i]))). mn_id n \<in> set (ids @ [i]) \<longrightarrow> mn_ip n = ip"
    using m(3) IH(4) j(2) unfolding a by fastforce
  then show ?case using m(1,2) IH(1,3) unfolding a by simp
qed (use assms in \<open>simp add: add_all_def\<close>)

section \<open>Properties\<close>

text \<open>The routing table file: a table that keeps the caps, written and read back by a node with the
  same id and an empty table, gives every entry again, in order, with the time of loading and
  without what was known of the peers' software and keys.\<close>

theorem mainline_nodes_restart:
  assumes "table_inv (ml_self_id s) (ml_nodes s)" "\<forall>ip. subnet_count ip (ml_nodes s) \<le> MAINLINE_MAX_PER_SUBNET"
    "ml_nodes s0 = []" "ml_self_id s0 = ml_self_id s"
  shows "mainline_load_nodes now (snd (mainline_save_nodes s)) s0 =
    (int (length (ml_nodes s)), s0\<lparr>ml_nodes := map (renewed now) (ml_nodes s)\<rparr>)"
  using assms by (rule mainline_nodes_file)

definition demo_mainline :: mainline_state where
  "demo_mainline = snd (mainline_add_node 5 (replicate 20 7) 9 80 (mainline_init net_zero (replicate 20 1) (replicate 16 2) 3))"

lemma demo_mainline_fields:
  "ml_nodes demo_mainline = [new_node 5 (replicate 20 7) 9 80]" "ml_self_id demo_mainline = replicate 20 1"
  by (simp_all add: demo_mainline_def mainline_init_def mainline_add_node_append subnet_count_def MAINLINE_MAX_PER_SUBNET_def MAINLINE_MAX_NODES_def)

theorem mainline_nodes_restart_witness:
  "mainline_load_nodes 70 (snd (mainline_save_nodes demo_mainline)) (mainline_init net_zero (replicate 20 1) (replicate 16 4) 8) =
    (1, (mainline_init net_zero (replicate 20 1) (replicate 16 4) 8)\<lparr>ml_nodes := [new_node 70 (replicate 20 7) 9 80]\<rparr>)"
proof -
  note d = demo_mainline_fields
  have t: "table_inv (ml_self_id demo_mainline) (ml_nodes demo_mainline)"
    unfolding d by (simp add: table_inv_def new_node_def MAINLINE_MAX_NODES_def)
  have c: "\<forall>ip. subnet_count ip (ml_nodes demo_mainline) \<le> MAINLINE_MAX_PER_SUBNET"
    unfolding d by (simp add: subnet_count_def MAINLINE_MAX_PER_SUBNET_def)
  show ?thesis
    using mainline_nodes_restart [OF t c, of "mainline_init net_zero (replicate 20 1) (replicate 16 4) 8" 70]
    unfolding d by (simp add: mainline_init_def renewed_def new_node_def)
qed

text \<open>The cap of eight table entries per /24 is not enforced when a known id reports a new address:
  any number of nodes admitted from different subnets, up to the size of the table, can all move
  into one subnet.\<close>

theorem mainline_subnet_cap_bypassed:
  assumes "distinct (map fst es)" "distinct (map (\<lambda>(nid, ip, port). subnet ip) es)" "length es \<le> MAINLINE_MAX_NODES"
    "\<forall>(nid, ip, port) \<in> set es. ip \<noteq> 0 \<and> port \<noteq> 0 \<and> nid \<noteq> ml_self_id s \<and> length nid = 20" "ml_nodes s = []" "ip \<noteq> 0" "port \<noteq> 0"
  shows "subnet_count ip (ml_nodes (add_all now (map (\<lambda>e. (fst e, ip, port)) es) (add_all now es s))) = length es"
proof -
  let ?s = "add_all now es s"
  have s: "?s = s\<lparr>ml_nodes := map (\<lambda>(nid, ip, port). new_node now nid ip port) es\<rparr>"
    by (rule add_all_fresh) (use assms in auto)
  have ids: "map mn_id (ml_nodes ?s) = map fst es" unfolding s by (simp add: new_node_def case_prod_beta o_def)
  have "table_inv (ml_self_id ?s) (ml_nodes ?s)"
    unfolding table_inv_def ids using assms(1,3,4) by (auto simp: s new_node_def split: prod.splits)
  moreover have "set (map fst es) \<subseteq> mn_id ` set (ml_nodes ?s)" using arg_cong [OF ids, of set] by simp
  ultimately have m: "map mn_id (ml_nodes (add_all now (map (\<lambda>i. (i, ip, port)) (map fst es)) ?s)) = map mn_id (ml_nodes ?s)"
    "\<forall>n \<in> set (ml_nodes (add_all now (map (\<lambda>i. (i, ip, port)) (map fst es)) ?s)). mn_id n \<in> set (map fst es) \<longrightarrow> mn_ip n = ip"
    using add_all_move [of ?s "map fst es" ip port now] assms(6,7) by blast+
  let ?f = "ml_nodes (add_all now (map (\<lambda>e. (fst e, ip, port)) es) ?s)"
  have f: "?f = ml_nodes (add_all now (map (\<lambda>i. (i, ip, port)) (map fst es)) ?s)" by (simp add: o_def)
  have "mn_id ` set ?f = set (map fst es)" using arg_cong [OF trans [OF m(1) ids], of set] unfolding f set_map .
  then have "\<forall>n \<in> set ?f. mn_id n \<in> set (map fst es)" by (intro ballI) (simp only: imageI flip: \<open>mn_id ` set ?f = set (map fst es)\<close>)
  then have "\<forall>n \<in> set ?f. subnet (mn_ip n) = subnet ip" using m(2) unfolding f by (intro ballI) simp
  then have "subnet_count ip ?f = length ?f" unfolding subnet_count_def by (simp only: filter_True)
  also have "\<dots> = length es" using arg_cong [OF trans [OF m(1) ids], of length] unfolding f by simp
  finally show ?thesis .
qed

theorem mainline_subnet_cap_bypassed_witness:
  "subnet_count 9 (ml_nodes (add_all 5 (map (\<lambda>e. (fst e, 9, 80)) (map (\<lambda>i. (replicate 20 (word_of_nat i), word_of_nat i, 80)) [10..<19]))
     (add_all 5 (map (\<lambda>i. (replicate 20 (word_of_nat i), word_of_nat i, 80)) [10..<19])
        (mainline_init net_zero (replicate 20 1) (replicate 16 2) 3)))) = 9 \<and> MAINLINE_MAX_PER_SUBNET < 9"
proof -
  let ?es = "map (\<lambda>i. (replicate 20 (word_of_nat i :: byte), word_of_nat i :: u32, 80 :: u16)) [10..<19]"
  have "subnet_count 9 (ml_nodes (add_all 5 (map (\<lambda>e. (fst e, 9, 80)) ?es) (add_all 5 ?es (mainline_init net_zero (replicate 20 1) (replicate 16 2) 3)))) = length ?es"
  proof (rule mainline_subnet_cap_bypassed)
    show "distinct (map fst ?es)" by (simp add: upt_rec)
    show "distinct (map (\<lambda>(nid, ip, port). subnet ip) ?es)"
      by (simp add: upt_rec subnet_def ntohl_def mem32_def un_be32_def le_bytes_4)
    show "\<forall>(nid, ip, port) \<in> set ?es. ip \<noteq> 0 \<and> port \<noteq> 0 \<and>
      nid \<noteq> ml_self_id (mainline_init net_zero (replicate 20 1) (replicate 16 2) 3) \<and> length nid = 20"
      by (simp add: upt_rec mainline_init_def)
  qed (simp_all add: mainline_init_def MAINLINE_MAX_NODES_def)
  then show ?thesis by (simp add: MAINLINE_MAX_PER_SUBNET_def)
qed

text \<open>Eviction of stale entries keeps every fresh entry in its place in the order and no stale entry
  that is not preferred, counts what it removed, and leaves exactly the fresh entries when every
  stale entry is preferred.\<close>

theorem mainline_evict_correct:
  assumes "mainline_evict_stale now max_age s = (ev, s')"
  shows "subseq (ml_nodes s') (ml_nodes s) \<and> ev + length (ml_nodes s') = length (ml_nodes s) \<and>
    filter (\<lambda>n. \<not> node_stale now max_age n) (ml_nodes s') = filter (\<lambda>n. \<not> node_stale now max_age n) (ml_nodes s) \<and>
    (\<forall>n \<in> set (ml_nodes s'). node_stale now max_age n \<longrightarrow> mn_preferred n) \<and>
    ((\<forall>n \<in> set (ml_nodes s). node_stale now max_age n \<longrightarrow> mn_preferred n) \<longrightarrow>
       ml_nodes s' = filter (\<lambda>n. \<not> node_stale now max_age n) (ml_nodes s))"
  using evict_stale_spec [OF assms] by blast

theorem mainline_evict_correct_witness:
  "mainline_evict_stale 1000 900 demo_mainline = (1, demo_mainline\<lparr>ml_nodes := []\<rparr>) \<and>
   1 + length (ml_nodes (demo_mainline\<lparr>ml_nodes := []\<rparr>)) = length (ml_nodes demo_mainline)"
proof -
  have e: "mainline_evict_stale 1000 900 demo_mainline = (1, demo_mainline\<lparr>ml_nodes := []\<rparr>)"
    by (simp add: mainline_evict_stale_def demo_mainline_fields evict_step_def node_stale_def new_node_def)
  show ?thesis using mainline_evict_correct [OF e] e by blast
qed

end
