(* ===== verification/Norn_Lookup.thy ===== *)
theory Norn_Lookup
  imports Norn_Mainline Norn_Dhtstore Norn_Recstore
begin

text \<open>
  The iterative lookups of \<open>src/libnorn/norn.c\<close> (\<open>mainline_lookup_ex\<close>, \<open>mainline_lookup_mutable\<close>,
  \<open>mainline_resolve_node\<close>) and the library calls of \<open>src/libnorn/norn_impl.c\<close> that make them.
  A lookup runs on a socket of its own; what happens there is an argument: for each round the
  milliseconds elapsed when it starts and the datagrams received in it, the list ending where
  time runs out. The datagrams sent are returned. Ports of candidates are in host byte order.
\<close>

section \<open>Candidates\<close>

definition LOOK_MAX_CAND :: nat where "LOOK_MAX_CAND = 64"
definition LOOK_ALPHA :: nat where "LOOK_ALPHA = 6"
definition LOOK_K :: nat where "LOOK_K = 8"

record look_cand =
  lc_id :: bytes
  lc_ip :: u32
  lc_port :: u16
  lc_token :: "bytes option"
  lc_queried :: bool
  lc_preferred :: bool

fun look_closer :: "bytes \<Rightarrow> bytes \<Rightarrow> bytes \<Rightarrow> int" where
  "look_closer (t # ts) (a # as) (b # bs) =
     (let da = a XOR t; db = b XOR t in if da \<noteq> db then uint da - uint db else look_closer ts as bs)"
| "look_closer _ _ _ = 0"

definition look_preferred :: "mainline_state \<Rightarrow> bytes \<Rightarrow> bool" where
  "look_preferred s nid = (case find_idx (\<lambda>n. mn_id n = nid) (ml_nodes s) of Some i \<Rightarrow> mn_preferred (ml_nodes s ! i) | None \<Rightarrow> False)"

text \<open>The loop that looks for the place from the end; nothing when a tie is lost.\<close>

primrec look_place :: "bytes \<Rightarrow> bytes \<Rightarrow> bool \<Rightarrow> nat \<Rightarrow> look_cand list \<Rightarrow> nat option \<times> look_cand list" where
  "look_place target nid pref 0 cand = (Some 0, cand)"
| "look_place target nid pref (Suc pos) cand =
     (let c = look_closer target nid (lc_id (cand ! pos)) in
      if c < 0 then (Some (Suc pos), cand)
      else if c = 0 then
        (if pref \<and> \<not> lc_preferred (cand ! pos) then (Some (Suc pos), cand)
         else if \<not> pref \<and> lc_preferred (cand ! pos) then (None, cand)
         else (Some (Suc pos), cand))
      else look_place target nid pref pos (cand[Suc pos := cand ! pos]))"

definition new_cand :: "bytes \<Rightarrow> u32 \<Rightarrow> u16 \<Rightarrow> bool \<Rightarrow> look_cand" where
  "new_cand nid ip port pref =
     \<lparr>lc_id = nid, lc_ip = ip, lc_port = port, lc_token = None, lc_queried = False, lc_preferred = pref\<rparr>"

definition look_insert_at :: "bytes \<Rightarrow> bytes \<Rightarrow> u32 \<Rightarrow> u16 \<Rightarrow> bool \<Rightarrow> nat \<Rightarrow> look_cand list \<Rightarrow> look_cand list" where
  "look_insert_at target nid ip port pref n cand =
     (case look_place target nid pref n cand of
        (Some pos, cand') \<Rightarrow> take (Suc n) (cand'[pos := new_cand nid ip port pref])
      | (None, cand') \<Rightarrow> take n cand')"

definition look_insert :: "mainline_state \<Rightarrow> bytes \<Rightarrow> bytes \<Rightarrow> u32 \<Rightarrow> u16 \<Rightarrow> look_cand list \<Rightarrow> look_cand list" where
  "look_insert s target nid ip port cand =
     (if ip = 0 \<or> port = 0 then cand
      else if find_idx (\<lambda>c. lc_id c = nid) cand \<noteq> None then cand
      else let pref = look_preferred s nid; far = length cand - 1 in
      if length cand \<ge> LOOK_MAX_CAND
      then if look_closer target nid (lc_id (cand ! far)) \<ge> 0 \<and> \<not> (pref \<and> \<not> lc_preferred (cand ! far)) then cand
           else look_insert_at target nid ip port pref far cand
      else look_insert_at target nid ip port pref (length cand) (cand @ [new_cand [] 0 0 False]))"

text \<open>The candidates a lookup starts from.\<close>

definition look_start :: "mainline_state \<Rightarrow> bytes \<Rightarrow> look_cand list" where
  "look_start s target = foldl (\<lambda>c n. look_insert s target (mn_id n) (mn_ip n) (ntohs (mn_port n)) c) [] (ml_nodes s)"

section \<open>Queries\<close>

definition look_query :: "mainline_state \<Rightarrow> string \<Rightarrow> string \<Rightarrow> (string \<times> bencode_value) list \<Rightarrow> bytes" where
  "look_query s tid q args =
     bencode_encode (dict_of ([(''t'', bencode_string_new (str tid)), (''y'', bencode_string_new (str ''q''))] @
       mainline_tag_ro s @ mainline_tag_v s @
       [(''q'', bencode_string_new (str q)), (''a'', dict_of ((''id'', bencode_string_new (ml_self_id s)) # args))]))"

definition look_build_get_peers :: "mainline_state \<Rightarrow> bytes \<Rightarrow> bytes" where
  "look_build_get_peers s info_hash = look_query s ''gp'' ''get_peers'' [(''info_hash'', bencode_string_new info_hash)]"

definition look_build_announce :: "mainline_state \<Rightarrow> bytes \<Rightarrow> u16 \<Rightarrow> bytes \<Rightarrow> bytes" where
  "look_build_announce s info_hash port token =
     look_query s ''ap'' ''announce_peer''
       ([(''info_hash'', bencode_string_new info_hash), (''implied_port'', bencode_int_new 1),
         (''port'', bencode_int_new (uint port)), (''token'', bencode_string_new token)] @ tag_pk s)"

definition look_build_get_mutable :: "mainline_state \<Rightarrow> bytes \<Rightarrow> bytes" where
  "look_build_get_mutable s target = look_query s ''mg'' ''get'' [(''target'', bencode_string_new target)]"

definition look_build_find_node :: "mainline_state \<Rightarrow> bytes \<Rightarrow> bytes" where
  "look_build_find_node s target = look_query s ''fn'' ''find_node'' [(''target'', bencode_string_new target)]"

text \<open>A put carries no read-only and no version tag.\<close>

definition look_build_put_mutable :: "mainline_state \<Rightarrow> bytes \<Rightarrow> u32 \<Rightarrow> bytes \<Rightarrow> bytes \<Rightarrow> bytes \<Rightarrow> bytes \<Rightarrow> bytes" where
  "look_build_put_mutable s k seq sig v salt token =
     bencode_encode (dict_of [(''t'', bencode_string_new (str ''mp'')), (''y'', bencode_string_new (str ''q'')), (''q'', bencode_string_new (str ''put'')),
       (''a'', dict_of ([(''id'', bencode_string_new (ml_self_id s)), (''k'', bencode_string_new k), (''sig'', bencode_string_new sig)] @
          (if salt \<noteq> [] then [(''salt'', bencode_string_new salt)] else []) @
          [(''seq'', bencode_int_new (uint seq)), (''v'', bencode_string_new v), (''token'', bencode_string_new token)]))])"

section \<open>Rounds\<close>

text \<open>The candidates to query in a round, at most \<open>n\<close>, and the list with them marked.\<close>

fun look_pick :: "nat \<Rightarrow> look_cand list \<Rightarrow> look_cand list \<times> look_cand list" where
  "look_pick n [] = ([], [])"
| "look_pick n (c # cs) =
     (if n = 0 then ([], c # cs)
      else if lc_queried c then (case look_pick n cs of (ps, cs') \<Rightarrow> (ps, c # cs'))
      else (case look_pick (n - 1) cs of (ps, cs') \<Rightarrow> (c # ps, c\<lparr>lc_queried := True\<rparr> # cs')))"

text \<open>The dictionary of a reply.\<close>

definition reply_dict :: "bytes \<Rightarrow> bencode_value option" where
  "reply_dict buf =
     (case bencode_decode buf of
        None \<Rightarrow> None
      | Some (msg, rest) \<Rightarrow>
          (case (bencode_dict_get msg (str ''y''), bencode_dict_get msg (str ''r'')) of
             (Some (BENCODE_STRING y), Some (BENCODE_DICT kvs)) \<Rightarrow>
               if y \<noteq> [] \<and> hd y = 114 then Some (BENCODE_DICT kvs) else None
           | _ \<Rightarrow> None))"

definition dict_string :: "bencode_value \<Rightarrow> string \<Rightarrow> bytes option" where
  "dict_string d k = (case bencode_dict_get d (str k) of Some (BENCODE_STRING b) \<Rightarrow> Some b | _ \<Rightarrow> None)"

definition take_token :: "u32 \<Rightarrow> u16 \<Rightarrow> bencode_value \<Rightarrow> look_cand list \<Rightarrow> look_cand list" where
  "take_token ip port r cand =
     (case find_idx (\<lambda>c. lc_ip c = ip \<and> lc_port c = port) cand of
        None \<Rightarrow> cand
      | Some i \<Rightarrow>
          (case dict_string r ''token'' of
             Some t \<Rightarrow> if length t \<le> 64 then cand[i := (cand ! i)\<lparr>lc_token := Some t\<rparr>] else cand
           | None \<Rightarrow> cand))"

text \<open>The entries of a compact node list: id, address and port as they lie in memory.\<close>

function compact_nodes :: "bytes \<Rightarrow> (bytes \<times> u32 \<times> u16) list" where
  "compact_nodes b =
     (if length b < 26 then []
      else (take 20 b, un_mem32 (drop 20 b), un_mem16 (drop 24 b)) # compact_nodes (drop 26 b))"
  by pat_completeness auto
termination by (relation "measure length") auto

declare compact_nodes.simps [simp del]

definition take_nodes :: "mainline_state \<Rightarrow> bytes \<Rightarrow> bencode_value \<Rightarrow> look_cand list \<Rightarrow> look_cand list" where
  "take_nodes s target r cand =
     (case dict_string r ''nodes'' of
        Some b \<Rightarrow> foldl (\<lambda>c (nid, ip, port). look_insert s target nid ip (ntohs port) c) cand (compact_nodes b)
      | None \<Rightarrow> cand)"

text \<open>What the socket did: elapsed milliseconds and datagrams received, round by round.\<close>

type_synonym look_net = "(int \<times> datagram list) list"

section \<open>Peers of an info hash\<close>

definition serve_lookup_local :: "mainline_state \<Rightarrow> bytes \<Rightarrow> (u32 \<times> u16) option" where
  "serve_lookup_local s info_hash =
     (case find_idx (\<lambda>h. sh_info_hash h = info_hash \<and> sh_peers h \<noteq> []) (ml_served s) of
        Some i \<Rightarrow> Some (hd (sh_peers (ml_served s ! i)))
      | None \<Rightarrow> None)"

definition serve_pubkey :: "mainline_state \<Rightarrow> bytes \<Rightarrow> bytes option" where
  "serve_pubkey s info_hash =
     (if ml_self_account s = Some info_hash \<and> ml_self_pub s \<noteq> None then ml_self_pub s
      else case find_idx (\<lambda>h. sh_info_hash h = info_hash \<and> sh_pubkey h \<noteq> None) (ml_served s) of
             Some i \<Rightarrow> sh_pubkey (ml_served s ! i)
           | None \<Rightarrow> None)"

text \<open>The loop over the values: the first usable endpoint, unless one was found before.\<close>

fun first_peer :: "bencode_value list \<Rightarrow> (u32 \<times> u16) option \<Rightarrow> (u32 \<times> u16) option" where
  "first_peer [] found = found"
| "first_peer (v # vs) found =
     first_peer vs
       (case v of
          BENCODE_STRING b \<Rightarrow>
            if length b \<ge> 6 \<and> un_mem32 b \<noteq> 0 \<and> ntohs (un_mem16 (drop 4 b)) \<noteq> 0 \<and> found = None
            then Some (un_mem32 b, ntohs (un_mem16 (drop 4 b))) else found
        | _ \<Rightarrow> found)"

type_synonym peer_search = "look_cand list \<times> (u32 \<times> u16) option \<times> bytes option"

definition gp_reply :: "mainline_state \<Rightarrow> bytes \<Rightarrow> datagram \<Rightarrow> peer_search \<Rightarrow> peer_search" where
  "gp_reply s info_hash d st =
     (case (d, st) of ((ip, port, buf), (cand, found, pub)) \<Rightarrow>
      case reply_dict buf of
        None \<Rightarrow> st
      | Some r \<Rightarrow>
          (take_nodes s info_hash r (take_token ip port r cand),
           (case bencode_dict_get r (str ''values'') of Some (BENCODE_LIST vs) \<Rightarrow> first_peer vs found | _ \<Rightarrow> found),
           (case dict_string r ''pk'' of Some k \<Rightarrow> if length k = 32 then Some k else pub | None \<Rightarrow> pub)))"

primrec gp_recv :: "mainline_state \<Rightarrow> bytes \<Rightarrow> bool \<Rightarrow> datagram list \<Rightarrow> peer_search \<Rightarrow> peer_search" where
  "gp_recv s info_hash announce [] st = st"
| "gp_recv s info_hash announce (d # ds) st =
     (if fst (snd (gp_reply s info_hash d st)) \<noteq> None \<and> \<not> announce then gp_reply s info_hash d st
      else gp_recv s info_hash announce ds (gp_reply s info_hash d st))"

primrec gp_rounds :: "mainline_state \<Rightarrow> bytes \<Rightarrow> bool \<Rightarrow> int \<Rightarrow> look_net \<Rightarrow> peer_search \<Rightarrow> peer_search \<times> datagram list" where
  "gp_rounds s info_hash announce timeout [] st = (st, [])"
| "gp_rounds s info_hash announce timeout (r # rs) st =
     (if fst r \<ge> timeout \<or> (fst (snd st) \<noteq> None \<and> \<not> announce) then (st, [])
      else case look_pick LOOK_ALPHA (fst st) of (ps, cand) \<Rightarrow>
        if ps = [] then (st, [])
        else case gp_rounds s info_hash announce timeout rs (gp_recv s info_hash announce (snd r) (cand, snd st)) of
          (st', ds) \<Rightarrow> (st', map (\<lambda>c. (lc_ip c, lc_port c, look_build_get_peers s info_hash)) ps @ ds))"

definition announce_to :: "look_cand list \<Rightarrow> look_cand list" where
  "announce_to cand = take LOOK_K (filter (\<lambda>c. lc_token c \<noteq> None) cand)"

definition mainline_lookup_ex ::
  "mainline_state \<Rightarrow> bytes \<Rightarrow> bool \<Rightarrow> u16 \<Rightarrow> int \<Rightarrow> look_net \<Rightarrow> int \<times> (u32 \<times> u16) option \<times> bytes option \<times> datagram list" where
  "mainline_lookup_ex s info_hash announce announce_port timeout rs =
     (case (if announce then None else serve_lookup_local s info_hash) of
        Some e \<Rightarrow> (1, Some e, serve_pubkey s info_hash, [])
      | None \<Rightarrow>
          let cand = look_start s info_hash in
          if cand = [] then (0, None, None, [])
          else case gp_rounds s info_hash announce timeout rs (cand, None, None) of
            ((cand', found, pub), ds) \<Rightarrow>
              let as = (if announce then announce_to cand' else []) in
              (if found \<noteq> None then 1 else if announce then int (length as) else 0, found, pub,
               ds @ map (\<lambda>c. (lc_ip c, lc_port c, look_build_announce s info_hash announce_port (the (lc_token c)))) as))"

section \<open>Stored items\<close>

type_synonym item_search = "look_cand list \<times> bytes option \<times> bool \<times> recstore"

text \<open>The arguments of a lookup that the replies are checked against.\<close>

record item_query =
  iq_target :: bytes
  iq_k :: "bytes option"
  iq_salt :: bytes
  iq_immutable :: bool
  iq_vcap :: "nat option"

definition copy_value :: "nat \<Rightarrow> bytes \<Rightarrow> bytes" where
  "copy_value vcap v = take (if length v < vcap then length v else vcap - 1) v"

definition mg_immutable :: "item_query \<Rightarrow> bencode_value \<Rightarrow> item_search \<Rightarrow> item_search" where
  "mg_immutable q r st =
     (case st of (cand, val, got, rst) \<Rightarrow>
      case (iq_vcap q, dict_string r ''v'') of
        (Some vcap, Some v) \<Rightarrow>
          if iq_immutable q \<and> \<not> got \<and> v \<noteq> [] \<and> bep44_immutable_target v = Some (iq_target q)
          then (cand, Some (copy_value vcap v), True, rst) else st
      | _ \<Rightarrow> st)"

definition mg_signed :: "sodium \<Rightarrow> int \<Rightarrow> item_query \<Rightarrow> bencode_value \<Rightarrow> item_search \<Rightarrow> item_search" where
  "mg_signed sd now q r st =
     (case st of (cand, val, got, rst) \<Rightarrow>
      case (dict_string r ''k'', dict_string r ''sig'', bencode_dict_get r (str ''seq''), dict_string r ''v'') of
        (Some k, Some sig, Some (BENCODE_INT n), Some v) \<Rightarrow>
          if \<not> iq_immutable q \<and> length k = 32 \<and> length sig = 64 \<and> v \<noteq> [] then
            (case iq_vcap q of
               Some vcap \<Rightarrow>
                 (case bep44_signbuf_salted (iq_salt q) (word_of_int n) (take 1024 v) (64 + 1024) of
                    Some sb \<Rightarrow> if iq_k q = Some k \<and> bf_verify sd sig sb k = 0 then (cand, Some (copy_value vcap v), True, rst) else st
                  | None \<Rightarrow> st)
             | None \<Rightarrow>
                 (case recstore_accept sd now k (word_of_int n) v sig rst of
                    (rc, rst') \<Rightarrow> (cand, val, got \<or> rc \<noteq> 0, rst')))
          else st
      | _ \<Rightarrow> st)"

definition mg_reply :: "sodium \<Rightarrow> int \<Rightarrow> mainline_state \<Rightarrow> item_query \<Rightarrow> datagram \<Rightarrow> item_search \<Rightarrow> item_search" where
  "mg_reply sd now s q d st =
     (case (d, st) of ((ip, port, buf), (cand, oth)) \<Rightarrow>
      case reply_dict buf of
        None \<Rightarrow> st
      | Some r \<Rightarrow>
          (case mg_signed sd now q r (mg_immutable q r (take_token ip port r cand, oth)) of
             (cand', oth') \<Rightarrow> (take_nodes s (iq_target q) r cand', oth')))"

primrec mg_rounds ::
  "sodium \<Rightarrow> int \<Rightarrow> mainline_state \<Rightarrow> item_query \<Rightarrow> int \<Rightarrow> look_net \<Rightarrow> item_search \<Rightarrow> item_search \<times> datagram list" where
  "mg_rounds sd now s q timeout [] st = (st, [])"
| "mg_rounds sd now s q timeout (r # rs) st =
     (if fst r \<ge> timeout then (st, [])
      else case look_pick LOOK_ALPHA (fst st) of (ps, cand) \<Rightarrow>
        if ps = [] then (st, [])
        else case mg_rounds sd now s q timeout rs (foldl (\<lambda>st d. mg_reply sd now s q d st) (cand, snd st) (snd r)) of
          (st', ds) \<Rightarrow> (st', map (\<lambda>c. (lc_ip c, lc_port c, look_build_get_mutable s (iq_target q))) ps @ ds))"

declare mg_rounds.simps(2) [simp del] gp_rounds.simps(2) [simp del]

text \<open>What is put: sequence number, value and signature.\<close>

definition mainline_lookup_mutable ::
  "sodium \<Rightarrow> int \<Rightarrow> mainline_state \<Rightarrow> item_query \<Rightarrow> bool \<Rightarrow> u32 \<Rightarrow> bytes \<Rightarrow> bytes option \<Rightarrow> int \<Rightarrow> look_net \<Rightarrow> recstore \<Rightarrow>
     int \<times> bytes option \<times> datagram list \<times> recstore" where
  "mainline_lookup_mutable sd now s q do_put seq v sig timeout rs rst =
     (let cand = look_start s (iq_target q) in
      if cand = [] then (0, None, [], rst)
      else case mg_rounds sd now s q timeout rs (cand, None, False, rst) of
        ((cand', val, got, rst'), ds) \<Rightarrow>
          let as = (if do_put \<and> iq_k q \<noteq> None \<and> sig \<noteq> None then announce_to cand' else []) in
          (if do_put then int (length as) else if got then 1 else 0, val,
           ds @ map (\<lambda>c. (lc_ip c, lc_port c, look_build_put_mutable s (the (iq_k q)) seq (the sig) v (iq_salt q) (the (lc_token c)))) as, rst'))"

section \<open>Resolving a node\<close>

type_synonym node_search = "look_cand list \<times> (u32 \<times> u16) option \<times> (u32 \<times> u16) option"

text \<open>The contact is noted once, unless it is address 0.\<close>

definition fn_reply :: "mainline_state \<Rightarrow> bytes \<Rightarrow> datagram \<Rightarrow> node_search \<Rightarrow> node_search" where
  "fn_reply s node_id d st =
     (case (d, st) of ((ip, port, buf), (cand, direct, contact)) \<Rightarrow>
      case reply_dict buf of
        None \<Rightarrow> st
      | Some r \<Rightarrow>
          (take_nodes s node_id r cand,
           (case dict_string r ''id'' of Some i \<Rightarrow> if length i \<ge> 20 \<and> take 20 i = node_id then Some (ip, port) else direct | None \<Rightarrow> direct),
           (case dict_string r ''nodes'' of
              Some b \<Rightarrow> foldl (\<lambda>c (nid, nip, nport). if nid = node_id \<and> (case c of None \<Rightarrow> True | Some e \<Rightarrow> fst e = 0) then Some (nip, ntohs nport) else c)
                          contact (compact_nodes b)
            | None \<Rightarrow> contact)))"

text \<open>The source address of a datagram is not 0, so having a direct answer is having its address.\<close>

primrec fn_recv :: "mainline_state \<Rightarrow> bytes \<Rightarrow> datagram list \<Rightarrow> node_search \<Rightarrow> node_search" where
  "fn_recv s node_id [] st = st"
| "fn_recv s node_id (d # ds) st =
     (if fst (snd (fn_reply s node_id d st)) \<noteq> None then fn_reply s node_id d st else fn_recv s node_id ds (fn_reply s node_id d st))"

primrec fn_rounds :: "mainline_state \<Rightarrow> bytes \<Rightarrow> int \<Rightarrow> look_net \<Rightarrow> node_search \<Rightarrow> node_search \<times> datagram list" where
  "fn_rounds s node_id timeout [] st = (st, [])"
| "fn_rounds s node_id timeout (r # rs) st =
     (if fst r \<ge> timeout \<or> fst (snd st) \<noteq> None then (st, [])
      else case look_pick LOOK_ALPHA (fst st) of (ps, cand) \<Rightarrow>
        if ps = [] then (st, [])
        else case fn_rounds s node_id timeout rs (fn_recv s node_id (snd r) (cand, snd st)) of
          (st', ds) \<Rightarrow> (st', map (\<lambda>c. (lc_ip c, lc_port c, look_build_find_node s node_id)) ps @ ds))"

declare fn_rounds.simps(2) [simp del]

text \<open>The endpoint, whether the node itself answered, and the datagrams sent.\<close>

definition mainline_resolve_node :: "mainline_state \<Rightarrow> bytes \<Rightarrow> int \<Rightarrow> look_net \<Rightarrow> (u32 \<times> u16) option \<times> bool \<times> datagram list" where
  "mainline_resolve_node s node_id timeout rs =
     (let cand = look_start s node_id in
      if cand = [] then (None, False, [])
      else case fn_rounds s node_id timeout rs (cand, None, None) of
        ((cand', direct, contact), ds) \<Rightarrow>
          (case direct of
             Some e \<Rightarrow> (Some e, True, ds)
           | None \<Rightarrow> (case contact of Some e \<Rightarrow> (if fst e \<noteq> 0 then Some e else None, False, ds) | None \<Rightarrow> (None, False, ds))))"

section \<open>Library calls\<close>

text \<open>The calls that publish and announce look up with a time limit of 0.\<close>

definition norn_put_mutable_salt ::
  "sodium \<Rightarrow> int \<Rightarrow> mainline_state \<Rightarrow> bytes \<Rightarrow> bytes \<Rightarrow> bytes \<Rightarrow> u32 \<Rightarrow> bytes \<Rightarrow> look_net \<Rightarrow> recstore \<Rightarrow> int \<times> datagram list \<times> recstore" where
  "norn_put_mutable_salt sd now s pubkey secret val seq salt rs rst =
     (if length val > 1000 then (-1, [], rst)
      else let target = (if salt \<noteq> [] then bep44_target_salted pubkey salt else bep44_target_for_pubkey pubkey) in
      case bep44_signbuf seq val 2048 of
        None \<Rightarrow> (-1, [], rst)
      | Some buf \<Rightarrow>
          (case mainline_lookup_mutable sd now s
                  \<lparr>iq_target = target, iq_k = Some pubkey, iq_salt = salt, iq_immutable = False, iq_vcap = None\<rparr>
                  True seq val (Some (sig_sign sd buf secret)) 0 rs rst of
             (rc, v, ds, rst') \<Rightarrow> (rc, ds, rst')))"

definition norn_put_immutable :: "sodium \<Rightarrow> int \<Rightarrow> mainline_state \<Rightarrow> bytes \<Rightarrow> look_net \<Rightarrow> recstore \<Rightarrow> int \<times> datagram list \<times> recstore" where
  "norn_put_immutable sd now s val rs rst =
     (if length val > 1000 then (-1, [], rst)
      else case bep44_immutable_target val of
        None \<Rightarrow> (-1, [], rst)
      | Some target \<Rightarrow>
          (case mainline_lookup_mutable sd now s
                  \<lparr>iq_target = target, iq_k = None, iq_salt = [], iq_immutable = True, iq_vcap = None\<rparr> True 0 val None 0 rs rst of
             (rc, v, ds, rst') \<Rightarrow> (rc, ds, rst')))"

definition norn_announce :: "mainline_state \<Rightarrow> bytes \<Rightarrow> u16 \<Rightarrow> look_net \<Rightarrow> int \<times> datagram list" where
  "norn_announce s info_hash port rs =
     (case mainline_lookup_ex s info_hash True port 0 rs of (rc, e, k, ds) \<Rightarrow> (rc, ds))"

definition norn_resolve_node :: "mainline_state \<Rightarrow> bytes \<Rightarrow> int \<Rightarrow> look_net \<Rightarrow> int \<times> (u32 \<times> u16) option \<times> bytes option \<times> datagram list" where
  "norn_resolve_node s node_id timeout rs = mainline_lookup_ex s node_id False 0 timeout rs"

definition norn_routing_lookup :: "mainline_state \<Rightarrow> bytes \<Rightarrow> (u32 \<times> u16) option" where
  "norn_routing_lookup s node_id =
     (case find_idx (\<lambda>n. mn_id n = node_id) (ml_nodes s) of
        Some i \<Rightarrow> Some (mn_ip (ml_nodes s ! i), ntohs (mn_port (ml_nodes s ! i)))
      | None \<Rightarrow> None)"

definition norn_dht_get_mutable ::
  "sodium \<Rightarrow> int \<Rightarrow> mainline_state \<Rightarrow> bytes \<Rightarrow> bytes \<Rightarrow> bytes \<Rightarrow> nat \<Rightarrow> int \<Rightarrow> look_net \<Rightarrow> recstore \<Rightarrow> int \<times> bytes option \<times> datagram list \<times> recstore" where
  "norn_dht_get_mutable sd now s target pubkey salt vcap timeout rs rst =
     (if vcap = 0 then (-1, None, [], rst)
      else mainline_lookup_mutable sd now s
             \<lparr>iq_target = target, iq_k = Some pubkey, iq_salt = salt, iq_immutable = False, iq_vcap = Some vcap\<rparr> False 0 [] None timeout rs rst)"

definition norn_dht_get_immutable ::
  "sodium \<Rightarrow> int \<Rightarrow> mainline_state \<Rightarrow> bytes \<Rightarrow> nat \<Rightarrow> int \<Rightarrow> look_net \<Rightarrow> recstore \<Rightarrow> int \<times> bytes option \<times> datagram list \<times> recstore" where
  "norn_dht_get_immutable sd now s key vcap timeout rs rst =
     (if vcap = 0 then (-1, None, [], rst)
      else mainline_lookup_mutable sd now s
             \<lparr>iq_target = key, iq_k = None, iq_salt = [], iq_immutable = True, iq_vcap = Some vcap\<rparr> False 0 [] None timeout rs rst)"

section \<open>Distance\<close>

lemma look_closer_metric:
  "length t = n \<Longrightarrow> length a = n \<Longrightarrow> length b = n \<Longrightarrow>
     (look_closer t a b < 0 \<longleftrightarrow> xor_metric t a < xor_metric t b) \<and> (look_closer t a b = 0 \<longleftrightarrow> a = b)"
proof (induction t a b arbitrary: n rule: look_closer.induct)
  case (1 t ts a as b bs)
  have len: "length ts = length as" "length as = length bs" using "1.prems" by auto
  have m: "xor_metric (t # ts) (x # xs) = bytes_nat ((x XOR t) # map2 (\<lambda>x y. x XOR y) ts xs)" for x xs
    by (simp add: xor_metric_def xor.commute)
  have inj: "a XOR t = b XOR t \<longleftrightarrow> a = b" 
  proof
    assume "a XOR t = b XOR t"
    then have "(a XOR t) XOR t = (b XOR t) XOR t" by simp
    then show "a = b" by (simp add: xor.assoc)
  qed simp
  show ?case
  proof (cases "a XOR t = b XOR t")
    case True
    then have "look_closer (t # ts) (a # as) (b # bs) = look_closer ts as bs" by simp
    moreover have "xor_metric (t # ts) (a # as) < xor_metric (t # ts) (b # bs) \<longleftrightarrow> xor_metric ts as < xor_metric ts bs"
      using True len by (simp add: m) (simp add: xor_metric_def)
    moreover have "(look_closer ts as bs < 0 \<longleftrightarrow> xor_metric ts as < xor_metric ts bs) \<and> (look_closer ts as bs = 0 \<longleftrightarrow> as = bs)"
      by (rule "1.IH" [OF refl refl, of "length ts"]) (use True len in simp_all)
    ultimately show ?thesis using True inj by simp
  next
    case False
    have "uint (a XOR t) < uint (b XOR t) \<longleftrightarrow> a XOR t < b XOR t" by (simp add: word_less_def)
    then have "look_closer (t # ts) (a # as) (b # bs) < 0 \<longleftrightarrow> a XOR t < b XOR t" "look_closer (t # ts) (a # as) (b # bs) \<noteq> 0"
      using False by (simp_all add: Let_def word_uint_eq_iff)
    moreover have "xor_metric (t # ts) (a # as) < xor_metric (t # ts) (b # bs) \<longleftrightarrow> a XOR t < b XOR t"
    proof (cases "a XOR t < b XOR t")
      case True
      then show ?thesis using bytes_nat_lead [of "map2 (\<lambda>x y. x XOR y) ts as" "map2 (\<lambda>x y. x XOR y) ts bs"] len unfolding m by simp
    next
      case nl: False
      then have "b XOR t < a XOR t" using False by (simp add: order.not_eq_order_implies_strict)
      then have "bytes_nat ((b XOR t) # map2 (\<lambda>x y. x XOR y) ts bs) < bytes_nat ((a XOR t) # map2 (\<lambda>x y. x XOR y) ts as)"
        using bytes_nat_lead [of "map2 (\<lambda>x y. x XOR y) ts bs" "map2 (\<lambda>x y. x XOR y) ts as"] len by simp
      then show ?thesis using nl unfolding m by simp
    qed
    ultimately show ?thesis using False inj by simp
  qed
qed (auto simp: xor_metric_def)

section \<open>The order of the candidates\<close>

definition farther :: "bytes \<Rightarrow> look_cand \<Rightarrow> look_cand \<Rightarrow> bool" where
  "farther target a b \<longleftrightarrow> xor_metric target (lc_id a) > xor_metric target (lc_id b)"

definition cand_inv :: "bytes \<Rightarrow> look_cand list \<Rightarrow> bool" where
  "cand_inv target cs \<longleftrightarrow> sorted_wrt (farther target) cs \<and> length cs \<le> LOOK_MAX_CAND \<and> (\<forall>c \<in> set cs. length (lc_id c) = length target)"

definition place_by_distance :: "bytes \<Rightarrow> look_cand \<Rightarrow> look_cand list \<Rightarrow> look_cand list" where
  "place_by_distance target x cs = filter (\<lambda>c. farther target c x) cs @ [x] @ filter (\<lambda>c. farther target x c) cs"

lemma sorted_snoc_far: "sorted_wrt (farther target) (cs @ [c]) \<Longrightarrow> farther target c x \<Longrightarrow> \<forall>d \<in> set (cs @ [c]). farther target d x"
  by (auto simp: sorted_wrt_append farther_def)

lemma place_last:
  "sorted_wrt (farther target) (cs @ [c]) \<Longrightarrow> farther target c x \<Longrightarrow> place_by_distance target x (cs @ [c]) = (cs @ [c]) @ [x]"
proof -
  assume a: "sorted_wrt (farther target) (cs @ [c])" "farther target c x"
  have "\<forall>d \<in> set (cs @ [c]). farther target d x" by (rule sorted_snoc_far [OF a])
  moreover from this have "\<forall>d \<in> set (cs @ [c]). \<not> farther target x d" by (auto simp: farther_def)
  ultimately show ?thesis unfolding place_by_distance_def by simp
qed

lemma look_place_spec:
  assumes "sorted_wrt (farther target) (take n arr)" "\<forall>c \<in> set (take n arr). length (lc_id c) = length target \<and> lc_id c \<noteq> nid"
    "length nid = length target" "n < length arr" "lc_id x = nid"
  shows "\<exists>pos arr'. look_place target nid pref n arr = (Some pos, arr') \<and> pos \<le> n \<and> length arr' = length arr \<and> drop (Suc n) arr' = drop (Suc n) arr \<and>
    take (Suc n) (arr'[pos := x]) = place_by_distance target x (take n arr)"
  using assms(1,2,4)
proof (induction n arbitrary: arr)
  case 0
  then show ?case by (cases arr) (simp_all add: place_by_distance_def)
next
  case (Suc p)
  let ?c = "arr ! p"
  have split: "take (Suc p) arr = take p arr @ [?c]" using Suc.prems(3) by (simp add: take_Suc_conv_app_nth)
  have c: "length (lc_id ?c) = length target" "lc_id ?c \<noteq> nid" using Suc.prems(2) by (simp_all add: split)
  have lc: "look_closer target nid (lc_id ?c) < 0 \<longleftrightarrow> farther target ?c x" "look_closer target nid (lc_id ?c) \<noteq> 0"
    using look_closer_metric [of target "length target" nid "lc_id ?c"] assms(3,5) c by (auto simp: farther_def)
  show ?case
  proof (cases "farther target ?c x")
    case True
    have "take (Suc (Suc p)) (arr[Suc p := x]) = take (Suc p) arr @ [x]" using Suc.prems(3) by (simp add: take_Suc_conv_app_nth [of "Suc p"])
    moreover have "place_by_distance target x (take (Suc p) arr) = take (Suc p) arr @ [x]"
      using place_last [OF Suc.prems(1) [unfolded split] True] by (simp add: split)
    ultimately show ?thesis using True lc by (intro exI [of _ "Suc p"] exI [of _ arr]) simp
  next
    case False
    let ?a = "arr[Suc p := ?c]"
    have near: "farther target x ?c"
      using False c assms(3,5) xor_metric_inj [of "lc_id ?c" target nid] by (auto simp: farther_def)
    have step: "look_place target nid pref (Suc p) arr = look_place target nid pref p ?a" using False lc by simp
    have tk: "take p ?a = take p arr" by simp
    obtain pos arr' where IH: "look_place target nid pref p ?a = (Some pos, arr')" "pos \<le> p" "length arr' = length ?a" "drop (Suc p) arr' = drop (Suc p) ?a"
      "take (Suc p) (arr'[pos := x]) = place_by_distance target x (take p arr)"
      using Suc.IH [of ?a] Suc.prems unfolding tk split by (auto simp: sorted_wrt_append)
    have "arr' ! Suc p = ?c" using IH(3,4) Suc.prems(3) by (metis hd_drop_conv_nth length_list_update nth_list_update_eq)
    then have t: "take (Suc (Suc p)) (arr'[pos := x]) = place_by_distance target x (take p arr) @ [?c]"
      using IH(2,3,5) Suc.prems(3) by (simp add: take_Suc_conv_app_nth [of "Suc p"])
    have "place_by_distance target x (take (Suc p) arr) = place_by_distance target x (take p arr) @ [?c]"
      using False near by (simp add: place_by_distance_def split)
    moreover have "drop (Suc (Suc p)) arr' = drop (Suc (Suc p)) arr"
      using arg_cong [OF IH(4), of "drop 1"] by simp
    ultimately show ?thesis using step IH(1-3) t by (intro exI [of _ pos] exI [of _ arr']) simp
  qed
qed

lemma look_insert_at_spec:
  assumes "sorted_wrt (farther target) (take n arr)" "\<forall>c \<in> set (take n arr). length (lc_id c) = length target \<and> lc_id c \<noteq> nid"
    "length nid = length target" "n < length arr"
  shows "look_insert_at target nid ip port pref n arr = place_by_distance target (new_cand nid ip port pref) (take n arr)"
  using look_place_spec [OF assms, of "new_cand nid ip port pref" pref] by (auto simp: look_insert_at_def new_cand_def)

text \<open>
  Insertion in closed form: a known id changes nothing; with room the list stays ordered, the
  farthest candidate first; a full list gives up its last candidate, which is the nearest.
\<close>

lemma look_insert_spec:
  fixes s :: mainline_state
  assumes "cand_inv target cs" "length nid = length target" "ip \<noteq> 0" "port \<noteq> 0" "nid \<notin> lc_id ` set cs"
  defines "x \<equiv> new_cand nid ip port (look_preferred s nid)"
  shows "look_insert s target nid ip port cs =
    (if length cs < LOOK_MAX_CAND then place_by_distance target x cs
     else if farther target (last cs) x \<or> look_preferred s nid \<and> \<not> lc_preferred (last cs) then place_by_distance target x (butlast cs) else cs)"
proof -
  have new: "find_idx (\<lambda>c. lc_id c = nid) cs = None" using assms(5) by auto
  have ids: "\<forall>c \<in> set cs. length (lc_id c) = length target \<and> lc_id c \<noteq> nid" using assms(1,5) by (auto simp: cand_inv_def)
  have so: "sorted_wrt (farther target) cs" using assms(1) by (simp add: cand_inv_def)
  show ?thesis
  proof (cases "length cs < LOOK_MAX_CAND")
    case True
    then show ?thesis
      using new assms(3,4) look_insert_at_spec [of target "length cs" "cs @ [new_cand [] 0 0 False]" nid ip port "look_preferred s nid"] so ids assms(2)
      by (simp add: look_insert_def Let_def x_def del: find_idx_None_iff)
  next
    case False
    then have ne: "cs \<noteq> []" by (auto simp: LOOK_MAX_CAND_def)
    have last: "cs ! (length cs - 1) = last cs" using ne by (simp add: last_conv_nth)
    have lc: "look_closer target nid (lc_id (last cs)) \<ge> 0 \<longleftrightarrow> \<not> farther target (last cs) x"
      using look_closer_metric [of target "length target" nid "lc_id (last cs)"] ids ne assms(2) by (auto simp: farther_def x_def new_cand_def)
    have bl: "take (length cs - 1) cs = butlast cs" by (simp add: butlast_conv_take)
    have sb: "sorted_wrt (farther target) (butlast cs)" using so by (cases cs rule: rev_cases) (simp_all add: sorted_wrt_append)
    have "look_insert_at target nid ip port (look_preferred s nid) (length cs - 1) cs = place_by_distance target x (butlast cs)"
    proof -
      have "\<forall>c \<in> set (butlast cs). length (lc_id c) = length target \<and> lc_id c \<noteq> nid" using ids by (auto dest: in_set_butlastD)
      then show ?thesis
        using look_insert_at_spec [of target "length cs - 1" cs nid ip port "look_preferred s nid", unfolded bl] sb ne assms(2)
        by (simp add: x_def)
    qed
    then show ?thesis using new assms(3,4) False lc last by (auto simp: look_insert_def Let_def simp del: find_idx_None_iff)
  qed
qed

lemma look_insert_known: "ip = 0 \<or> port = 0 \<or> nid \<in> lc_id ` set cs \<Longrightarrow> look_insert s target nid ip port cs = cs"
proof -
  assume a: "ip = 0 \<or> port = 0 \<or> nid \<in> lc_id ` set cs"
  have "find_idx (\<lambda>c. lc_id c = nid) cs \<noteq> None" if "nid \<in> lc_id ` set cs" using that by auto
  then show ?thesis using a by (auto simp only: look_insert_def if_True simp_thms split: if_split)
qed

lemma place_inv:
  assumes "sorted_wrt (farther target) cs" "\<forall>c \<in> set cs. length (lc_id c) = length target" "length (lc_id x) = length target"
  shows "sorted_wrt (farther target) (place_by_distance target x cs)" "length (place_by_distance target x cs) \<le> Suc (length cs)"
    "set (place_by_distance target x cs) \<subseteq> insert x (set cs)"
proof -
  show "sorted_wrt (farther target) (place_by_distance target x cs)"
    using assms(1) by (auto simp: place_by_distance_def sorted_wrt_append sorted_wrt_filter farther_def)
  show "set (place_by_distance target x cs) \<subseteq> insert x (set cs)" by (auto simp: place_by_distance_def)
  show "length (place_by_distance target x cs) \<le> Suc (length cs)"
    by (induction cs) (auto simp: place_by_distance_def farther_def)
qed

lemma look_insert_inv:
  assumes "cand_inv target cs" "length nid = length target"
  shows "cand_inv target (look_insert s target nid ip port cs)"
proof (cases "ip = 0 \<or> port = 0 \<or> nid \<in> lc_id ` set cs")
  case True
  then show ?thesis using assms(1) by (simp add: look_insert_known)
next
  case False
  let ?x = "new_cand nid ip port (look_preferred s nid)"
  have x: "length (lc_id ?x) = length target" using assms(2) by (simp add: new_cand_def)
  have so: "sorted_wrt (farther target) cs" "\<forall>c \<in> set cs. length (lc_id c) = length target" using assms(1) by (auto simp: cand_inv_def)
  have sb: "sorted_wrt (farther target) (butlast cs)" "\<forall>c \<in> set (butlast cs). length (lc_id c) = length target"
    using so by (cases cs rule: rev_cases; simp add: sorted_wrt_append)+
  note p = place_inv [OF so x] place_inv [OF sb x]
  have i1: "cand_inv target (place_by_distance target ?x cs)" if "length cs < LOOK_MAX_CAND"
    using p(1-3) that so(2) x unfolding cand_inv_def by fastforce
  have i2: "cand_inv target (place_by_distance target ?x (butlast cs))" if "\<not> length cs < LOOK_MAX_CAND"
    using p(4-6) that so(2) sb(2) x assms(1) unfolding cand_inv_def LOOK_MAX_CAND_def by fastforce
  show ?thesis using look_insert_spec [OF assms, of ip port s] False assms(1) i1 i2 by simp
qed

lemma cand_inv_map:
  assumes "cand_inv target cs" "map lc_id cs' = map lc_id cs"
  shows "cand_inv target cs'"
proof -
  have l: "length cs' = length cs" using assms(2) by (rule map_eq_imp_length_eq)
  have n: "lc_id (cs' ! i) = lc_id (cs ! i)" if "i < length cs" for i using arg_cong [OF assms(2), of "\<lambda>xs. xs ! i"] that l by simp
  have "length (lc_id c) = length target" if c: "c \<in> set cs'" for c
  proof -
    obtain i where "i < length cs" "c = cs' ! i" using c l by (auto simp: in_set_conv_nth)
    then show ?thesis using assms(1) n nth_mem by (simp add: cand_inv_def)
  qed
  moreover have "sorted_wrt (farther target) cs'"
    using assms(1) n l by (auto simp: cand_inv_def sorted_wrt_iff_nth_less farther_def)
  ultimately show ?thesis using assms(1) l by (simp add: cand_inv_def)
qed

lemma take_token_ids: "map lc_id (take_token ip port r cs) = map lc_id cs"
  by (auto simp: take_token_def map_update list_update_same_conv dest: find_idx_less simp del: find_idx_None_iff split: option.split)

lemma look_pick_ids: "look_pick n cs = (ps, cs') \<Longrightarrow> map lc_id cs' = map lc_id cs"
  by (induction n cs arbitrary: ps cs' rule: look_pick.induct) (auto split: if_splits prod.splits)

lemma compact_nodes_ids: "(nid, ip, port) \<in> set (compact_nodes b) \<Longrightarrow> length nid = 20"
  by (induction b rule: compact_nodes.induct) (subst (asm) compact_nodes.simps, auto split: if_splits)

lemma inserts_inv:
  "cand_inv target cs \<Longrightarrow> (\<And>nid ip port. (nid, ip, port) \<in> set es \<Longrightarrow> length nid = length target) \<Longrightarrow>
     cand_inv target (foldl (\<lambda>c (nid, ip, port). look_insert s target nid ip (ntohs port) c) cs es)"
proof (induction es arbitrary: cs)
  case (Cons e es)
  obtain nid ip port where e: "e = (nid, ip, port)" by (cases e)
  have "cand_inv target (look_insert s target nid ip (ntohs port) cs)"
    by (rule look_insert_inv [OF Cons.prems(1)]) (use Cons.prems(2) e in auto)
  moreover have "length nid = length target" if h: "(nid, ip, port) \<in> set es" for nid ip port
    by (rule Cons.prems(2) [of nid ip port]) (simp add: h)
  ultimately have "cand_inv target (foldl (\<lambda>c (nid, ip, port). look_insert s target nid ip (ntohs port) c) (look_insert s target nid ip (ntohs port) cs) es)"
    by (rule Cons.IH)
  then show ?case by (simp add: e)
qed simp

lemma take_nodes_inv: "cand_inv target cs \<Longrightarrow> length target = 20 \<Longrightarrow> cand_inv target (take_nodes s target r cs)"
  using inserts_inv [of target cs] compact_nodes_ids by (auto simp: take_nodes_def split: option.split)

lemma look_start_inv:
  assumes "length target = 20" "\<forall>n \<in> set (ml_nodes s). length (mn_id n) = 20"
  shows "cand_inv target (look_start s target)"
proof -
  have "cand_inv target []" by (simp add: cand_inv_def)
  then have "cand_inv target (foldl (\<lambda>c (nid, ip, port). look_insert s target nid ip (ntohs port) c) [] (map (\<lambda>n. (mn_id n, mn_ip n, mn_port n)) (ml_nodes s)))"
    by (rule inserts_inv) (use assms in auto)
  then show ?thesis by (simp add: look_start_def foldl_map)
qed

lemma gp_reply_inv: "cand_inv info_hash (fst st) \<Longrightarrow> length info_hash = 20 \<Longrightarrow> cand_inv info_hash (fst (gp_reply s info_hash d st))"
  using cand_inv_map [OF _ take_token_ids] take_nodes_inv
  by (auto simp: gp_reply_def split: prod.splits option.splits)

lemma gp_recv_inv: "cand_inv info_hash (fst st) \<Longrightarrow> length info_hash = 20 \<Longrightarrow> cand_inv info_hash (fst (gp_recv s info_hash ann ds st))"
  by (induction ds arbitrary: st) (simp_all add: gp_reply_inv)

lemma gp_rounds_inv:
  "gp_rounds s info_hash ann timeout rs st = (st', ds) \<Longrightarrow> cand_inv info_hash (fst st) \<Longrightarrow> length info_hash = 20 \<Longrightarrow> cand_inv info_hash (fst st')"
proof (induction rs arbitrary: st ds)
  case (Cons r rs)
  obtain ps cand where p: "look_pick LOOK_ALPHA (fst st) = (ps, cand)" by fastforce
  have "cand_inv info_hash cand" using cand_inv_map [OF Cons.prems(2) look_pick_ids [OF p]] .
  then have "cand_inv info_hash (fst (gp_recv s info_hash ann (snd r) (cand, snd st)))" using gp_recv_inv [of info_hash "(cand, snd st)"] Cons.prems(3) by simp
  then show ?case
    using Cons.prems Cons.IH [of "gp_recv s info_hash ann (snd r) (cand, snd st)"] p
    by (auto simp: gp_rounds.simps(2) split: if_splits prod.splits)
qed simp

text \<open>The first candidates of the list are farther than the ones behind them.\<close>

lemma take_farther:
  assumes "sorted_wrt (farther target) cs" "c \<in> set (take k (filter P cs))" "d \<in> set cs" "P d" "d \<notin> set (take k (filter P cs))"
  shows "farther target c d"
proof -
  have s: "sorted_wrt (farther target) (take k (filter P cs) @ drop k (filter P cs))" using assms(1) by (simp add: sorted_wrt_filter)
  have "d \<in> set (take k (filter P cs) @ drop k (filter P cs))" using assms(3,4) by simp
  then have "d \<in> set (drop k (filter P cs))" using assms(5) by (simp only: set_append Un_iff simp_thms)
  then show ?thesis using s assms(2) by (auto simp only: sorted_wrt_append)
qed

text \<open>With a time limit of 0 no round is entered.\<close>

lemma rounds_no_time:
  "\<forall>r \<in> set rs. fst r \<ge> 0 \<Longrightarrow> gp_rounds s ih ann 0 rs st = (st, [])"
  "\<forall>r \<in> set rs. fst r \<ge> 0 \<Longrightarrow> mg_rounds sd now s q 0 rs ist = (ist, [])"
  by (cases rs; simp add: gp_rounds.simps(2) mg_rounds.simps(2))+

lemma look_insert_subset:
  assumes "cand_inv target cs" "length nid = length target"
  shows "set (look_insert s target nid ip port cs) \<subseteq> insert (new_cand nid ip port (look_preferred s nid)) (set cs)"
proof (cases "ip = 0 \<or> port = 0 \<or> nid \<in> lc_id ` set cs")
  case True
  then show ?thesis by (simp add: look_insert_known subset_insertI)
next
  case False
  then show ?thesis
    using look_insert_spec [OF assms, of ip port s] by (auto simp: place_by_distance_def dest: in_set_butlastD)
qed

lemma look_start_all:
  assumes "length target = 20" "\<forall>n \<in> set (ml_nodes s). length (mn_id n) = 20" "\<And>nid ip port pref. P (new_cand nid ip port pref)"
  shows "\<forall>c \<in> set (look_start s target). P c"
proof -
  have "\<forall>c \<in> set (foldl (\<lambda>c n. look_insert s target (mn_id n) (mn_ip n) (ntohs (mn_port n)) c) cs ns). P c"
    if "cand_inv target cs" "\<forall>c \<in> set cs. P c" "\<forall>n \<in> set ns. length (mn_id n) = 20" for cs ns
    using that
  proof (induction ns arbitrary: cs)
    case (Cons n ns)
    have l: "length (mn_id n) = length target" using Cons.prems(3) assms(1) by simp
    have "\<forall>c \<in> set (look_insert s target (mn_id n) (mn_ip n) (ntohs (mn_port n)) cs). P c"
      using look_insert_subset [OF Cons.prems(1) l, of s "mn_ip n" "ntohs (mn_port n)"] Cons.prems(2) assms(3) by auto
    then show ?case using Cons.IH [OF look_insert_inv [OF Cons.prems(1) l]] Cons.prems(3) by simp
  qed simp
  from this [of "[]" "ml_nodes s"] show ?thesis using assms(2) by (simp add: look_start_def cand_inv_def)
qed

lemma look_start_fresh:
  assumes "length target = 20" "\<forall>n \<in> set (ml_nodes s). length (mn_id n) = 20"
  shows "\<forall>c \<in> set (look_start s target). lc_token c = None \<and> \<not> lc_queried c"
  by (rule look_start_all [OF assms]) (simp add: new_cand_def)

lemma announce_to_start:
  assumes "length target = 20" "\<forall>n \<in> set (ml_nodes s). length (mn_id n) = 20"
  shows "announce_to (look_start s target) = []"
proof -
  have "filter (\<lambda>c. lc_token c \<noteq> None) (look_start s target) = []" using look_start_fresh [OF assms] by (simp add: filter_empty_conv)
  then show ?thesis by (simp add: announce_to_def)
qed

section \<open>A concrete table\<close>

lemma look_start_sorted:
  assumes "length target = 20" "sorted_wrt (\<lambda>a b. xor_metric target (mn_id a) > xor_metric target (mn_id b)) (ml_nodes s)"
    "length (ml_nodes s) \<le> LOOK_MAX_CAND" "\<forall>n \<in> set (ml_nodes s). length (mn_id n) = 20 \<and> mn_ip n \<noteq> 0 \<and> ntohs (mn_port n) \<noteq> 0"
  shows "look_start s target = map (\<lambda>n. new_cand (mn_id n) (mn_ip n) (ntohs (mn_port n)) (look_preferred s (mn_id n))) (ml_nodes s)"
proof -
  let ?c = "\<lambda>n. new_cand (mn_id n) (mn_ip n) (ntohs (mn_port n)) (look_preferred s (mn_id n))"
  have "foldl (\<lambda>c n. look_insert s target (mn_id n) (mn_ip n) (ntohs (mn_port n)) c) [] ns = map ?c ns"
    if "sorted_wrt (\<lambda>a b. xor_metric target (mn_id a) > xor_metric target (mn_id b)) ns" "length ns \<le> LOOK_MAX_CAND"
      "\<forall>n \<in> set ns. length (mn_id n) = 20 \<and> mn_ip n \<noteq> 0 \<and> ntohs (mn_port n) \<noteq> 0" for ns
    using that
  proof (induction ns rule: rev_induct)
    case (snoc n ns)
    have IH: "foldl (\<lambda>c n. look_insert s target (mn_id n) (mn_ip n) (ntohs (mn_port n)) c) [] ns = map ?c ns"
      using snoc by (simp add: sorted_wrt_append)
    have inv: "cand_inv target (map ?c ns)"
      using snoc.prems assms(1) by (auto simp: cand_inv_def sorted_wrt_append sorted_wrt_map farther_def new_cand_def)
    have far: "\<forall>c \<in> set (map ?c ns). farther target c (?c n)" using snoc.prems(1) by (auto simp: sorted_wrt_append farther_def new_cand_def)
    then have "\<forall>c \<in> set (map ?c ns). \<not> farther target (?c n) c" by (meson farther_def less_asym)
    then have "place_by_distance target (?c n) (map ?c ns) = map ?c ns @ [?c n]"
      using far unfolding place_by_distance_def by (simp only: filter_True filter_False append_Nil2)
    moreover have "mn_id n \<notin> lc_id ` set (map ?c ns)" using far by (auto simp: farther_def new_cand_def)
    ultimately have "look_insert s target (mn_id n) (mn_ip n) (ntohs (mn_port n)) (map ?c ns) = map ?c ns @ [?c n]"
      using look_insert_spec [OF inv, of "mn_id n" "mn_ip n" "ntohs (mn_port n)" s] snoc.prems assms(1) by simp
    then show ?case by (simp only: foldl_append foldl.simps IH map_append list.map)
  qed simp
  from this [OF assms(2-4)] show ?thesis by (simp add: look_start_def)
qed

lemma bytes_nat_zeros [simp]: "bytes_nat (replicate k 0) = 0"
  by (induction k) simp_all

lemma xor_metric_zero: "length b = n \<Longrightarrow> xor_metric (replicate n 0) b = bytes_nat b"
  by (induction b arbitrary: n) (auto simp: xor_metric_def)

text \<open>Ids that differ in their first byte only, looked up from the id of zeros.\<close>

definition demo_id :: "nat \<Rightarrow> bytes" where "demo_id i = word_of_nat i # replicate 19 0"

lemma length_demo_id [simp]: "length (demo_id i) = 20"
  by (simp add: demo_id_def)

lemma demo_id_metric: "i < 256 \<Longrightarrow> xor_metric (replicate 20 0) (demo_id i) = i * 256 ^ 19"
proof -
  assume "i < 256"
  then have "unat (word_of_nat i :: byte) = i" by (simp add: unsigned_of_nat take_bit_eq_mod)
  then show ?thesis by (simp add: xor_metric_zero demo_id_def del: power_numeral)
qed

text \<open>A reply that holds a token and nothing else.\<close>

definition token_reply :: "bytes \<Rightarrow> bytes" where
  "token_reply t = bencode_encode (BENCODE_DICT [(str ''r'', BENCODE_DICT [(str ''token'', BENCODE_STRING t)]), (str ''y'', BENCODE_STRING (str ''r''))])"

lemma token_reply_dict:
  assumes "length t < 2 ^ 63"
  shows "reply_dict (token_reply t) = Some (BENCODE_DICT [(str ''token'', BENCODE_STRING t)])"
proof -
  let ?v = "BENCODE_DICT [(str ''r'', BENCODE_DICT [(str ''token'', BENCODE_STRING t)]), (str ''y'', BENCODE_STRING (str ''r''))]"
  have "bwf 0 ?v" using assms by (simp add: c_string_str no_nul_def BENCODE_MAX_DEPTH_def)
  then have "bencode_decode (token_reply t) = Some (?v, [])" using bencode_round_trip [of ?v "[]"] by (simp add: token_reply_def)
  then show ?thesis by (simp add: reply_dict_def c_string_str no_nul_def) (simp add: str_def)
qed

lemma gp_reply_token:
  assumes "length t \<le> 64"
  shows "gp_reply s ih (ip, port, token_reply t) (cand, st) =
    ((case find_idx (\<lambda>c. lc_ip c = ip \<and> lc_port c = port) cand of None \<Rightarrow> cand | Some i \<Rightarrow> cand[i := (cand ! i)\<lparr>lc_token := Some t\<rparr>]), st)"
proof -
  let ?d = "BENCODE_DICT [(str ''token'', BENCODE_STRING t)]"
  have d: "dict_string ?d ''token'' = Some t" "dict_string ?d ''nodes'' = None" "dict_string ?d ''pk'' = None" "bencode_dict_get ?d (str ''values'') = None"
    by (simp_all add: dict_string_def c_string_str no_nul_def)
  show ?thesis
    using assms
    by (cases st; cases "find_idx (\<lambda>c. lc_ip c = ip \<and> lc_port c = port) cand")
      (simp_all add: gp_reply_def token_reply_dict take_token_def take_nodes_def d del: find_idx_None_iff)
qed

definition demo_far :: mainline_state where
  "demo_far = (mainline_init net_zero (replicate 20 255) [] 3)
     \<lparr>ml_nodes := map (\<lambda>i. new_node 0 (demo_id i) (word_of_nat i) (htons 80)) [9, 8, 7, 6, 5, 4, 3, 2, 1]\<rparr>"

definition demo_cands :: "(nat \<Rightarrow> bytes option) \<Rightarrow> (nat \<Rightarrow> bool) \<Rightarrow> nat list \<Rightarrow> look_cand list" where
  "demo_cands tok q is = map (\<lambda>i. \<lparr>lc_id = demo_id i, lc_ip = word_of_nat i, lc_port = 80, lc_token = tok i, lc_queried = q i, lc_preferred = False\<rparr>) is"

lemma demo_far_start: "look_start demo_far (replicate 20 0) = demo_cands (\<lambda>_. None) (\<lambda>_. False) [9, 8, 7, 6, 5, 4, 3, 2, 1]"
proof -
  have ns: "ml_nodes demo_far = map (\<lambda>i. new_node 0 (demo_id i) (word_of_nat i) (htons 80)) [9, 8, 7, 6, 5, 4, 3, 2, 1]"
    by (simp add: demo_far_def)
  have p: "look_preferred demo_far i = False" for i
    by (simp add: look_preferred_def ns new_node_def split: option.split)
  have "look_start demo_far (replicate 20 0) =
    map (\<lambda>n. new_cand (mn_id n) (mn_ip n) (ntohs (mn_port n)) (look_preferred demo_far (mn_id n))) (ml_nodes demo_far)"
    by (rule look_start_sorted) (simp_all add: ns new_node_def demo_id_metric LOOK_MAX_CAND_def del: power_numeral)
  then show ?thesis by (simp add: ns p new_node_def new_cand_def demo_cands_def)
qed

lemma demo_far_rounds:
  "gp_rounds demo_far (replicate 20 0) True 100
     [(0, map (\<lambda>i. (word_of_nat i, 80, token_reply [1])) [9, 8, 7, 6, 5, 4]), (1, map (\<lambda>i. (word_of_nat i, 80, token_reply [1])) [3, 2, 1])]
     (look_start demo_far (replicate 20 0), None, None) =
   ((demo_cands (\<lambda>_. Some [1]) (\<lambda>_. True) [9, 8, 7, 6, 5, 4, 3, 2, 1], None, None),
    map (\<lambda>i. (word_of_nat i, 80, look_build_get_peers demo_far (replicate 20 0))) [9, 8, 7, 6, 5, 4, 3, 2, 1])"
  by (simp add: demo_far_start demo_cands_def gp_rounds.simps(2) LOOK_ALPHA_def gp_reply_token)

lemma demo_cands_inv:
  assumes "sorted_wrt (>) is" "\<forall>i \<in> set is. i < 256" "length is \<le> LOOK_MAX_CAND"
  shows "cand_inv (replicate 20 0) (demo_cands tok q is)"
proof -
  have "sorted_wrt (\<lambda>i j. xor_metric (replicate 20 0) (demo_id i) > xor_metric (replicate 20 0) (demo_id j)) is"
    by (rule sorted_wrt_mono_rel [OF _ assms(1)]) (use assms(2) in \<open>simp add: demo_id_metric del: power_numeral\<close>)
  then show ?thesis using assms(3) by (simp add: cand_inv_def demo_cands_def sorted_wrt_map farther_def)
qed

section \<open>What a lookup returns\<close>

definition mutable_ok :: "sodium \<Rightarrow> item_query \<Rightarrow> bytes \<Rightarrow> bool" where
  "mutable_ok sd q val \<longleftrightarrow>
     (\<exists>vcap k v seq sig sb. iq_vcap q = Some vcap \<and> iq_k q = Some k \<and> \<not> iq_immutable q \<and> val = copy_value vcap v \<and>
        bep44_signbuf_salted (iq_salt q) seq (take 1024 v) 1088 = Some sb \<and> sig_verify sd sig sb k)"

definition immutable_ok :: "item_query \<Rightarrow> bytes \<Rightarrow> bool" where
  "immutable_ok q val \<longleftrightarrow>
     (\<exists>vcap v. iq_vcap q = Some vcap \<and> iq_immutable q \<and> val = copy_value vcap v \<and> bep44_immutable_target v = Some (iq_target q))"

definition found_ok :: "sodium \<Rightarrow> item_query \<Rightarrow> item_search \<Rightarrow> bool" where
  "found_ok sd q st \<longleftrightarrow> (case fst (snd st) of None \<Rightarrow> True | Some val \<Rightarrow> mutable_ok sd q val \<or> immutable_ok q val)"

lemma mg_immutable_ok: "found_ok sd q st \<Longrightarrow> found_ok sd q (mg_immutable q r st)"
  by (auto simp: mg_immutable_def found_ok_def immutable_ok_def split: prod.splits option.splits)

lemma mg_signed_ok: "found_ok sd q st \<Longrightarrow> found_ok sd q (mg_signed sd now q r st)"
  unfolding mg_signed_def found_ok_def mutable_ok_def
  by (fastforce simp: bf_verify_def split: prod.splits option.splits bencode_value.splits if_splits)

lemma mg_reply_ok:
  assumes "found_ok sd q st"
  shows "found_ok sd q (mg_reply sd now s q d st)"
proof -
  obtain ip port buf cand oth where d: "d = (ip, port, buf)" "st = (cand, oth)" by (cases d; cases st)
  show ?thesis
  proof (cases "reply_dict buf")
    case (Some r)
    have "found_ok sd q (take_token ip port r cand, oth)" using assms by (simp add: d found_ok_def)
    then have "found_ok sd q (mg_signed sd now q r (mg_immutable q r (take_token ip port r cand, oth)))" by (intro mg_signed_ok mg_immutable_ok)
    then show ?thesis by (simp add: d mg_reply_def Some case_prod_beta found_ok_def)
  qed (use assms in \<open>simp add: d mg_reply_def\<close>)
qed

lemma mg_rounds_ok: "mg_rounds sd now s q timeout rs st = (st', ds) \<Longrightarrow> found_ok sd q st \<Longrightarrow> found_ok sd q st'"
proof (induction rs arbitrary: st ds)
  case (Cons r rs)
  have f: "found_ok sd q st \<Longrightarrow> found_ok sd q (foldl (\<lambda>st d. mg_reply sd now s q d st) st xs)" for xs st
    by (induction xs arbitrary: st) (simp_all add: mg_reply_ok)
  obtain ps cand where p: "look_pick LOOK_ALPHA (fst st) = (ps, cand)" by fastforce
  have "found_ok sd q (cand, snd st)" using Cons.prems(2) by (simp add: found_ok_def)
  then show ?case
    using Cons.prems Cons.IH [of "foldl (\<lambda>st d. mg_reply sd now s q d st) (cand, snd st) (snd r)"] f p
    by (auto simp: mg_rounds.simps(2) split: if_splits prod.splits)
qed simp

lemma lookup_mutable_ok:
  "mainline_lookup_mutable sd now s q do_put seq v sig timeout rs rst = (rc, Some val, ds, rst') \<Longrightarrow> mutable_ok sd q val \<or> immutable_ok q val"
  using mg_rounds_ok [of sd now s q timeout rs "(look_start s (iq_target q), None, False, rst)"]
  by (auto simp: mainline_lookup_mutable_def Let_def found_ok_def split: if_splits prod.splits)

section \<open>Properties\<close>

text \<open>The candidates of a lookup are kept in the order of decreasing distance, the farthest first,
  although the code calls the last one the farthest: when the list is full, a candidate nearer to
  the target than all others takes the place of the nearest one so far, and the farthest stay.\<close>

theorem look_insert_drops_nearest:
  assumes "cand_inv target cs" "length cs = LOOK_MAX_CAND" "length nid = length target" "ip \<noteq> 0" "port \<noteq> 0"
    "\<forall>c \<in> set cs. xor_metric target nid < xor_metric target (lc_id c)"
  shows "look_insert s target nid ip port cs = butlast cs @ [new_cand nid ip port (look_preferred s nid)] \<and>
    (\<forall>c \<in> set (butlast cs). xor_metric target (lc_id c) > xor_metric target (lc_id (last cs)))"
proof -
  let ?x = "new_cand nid ip port (look_preferred s nid)"
  have ne: "cs \<noteq> []" using assms(2) by (auto simp: LOOK_MAX_CAND_def)
  have far: "\<forall>c \<in> set cs. farther target c ?x" using assms(6) by (simp add: farther_def new_cand_def)
  then have "\<forall>c \<in> set (butlast cs). farther target c ?x" by (auto dest: in_set_butlastD)
  moreover from this have "\<forall>c \<in> set (butlast cs). \<not> farther target ?x c" by (meson farther_def less_asym)
  ultimately have "place_by_distance target ?x (butlast cs) = butlast cs @ [?x]" by (simp add: place_by_distance_def)
  moreover have "nid \<notin> lc_id ` set cs" using assms(6) by auto
  ultimately have "look_insert s target nid ip port cs = butlast cs @ [?x]"
    using look_insert_spec [OF assms(1,3-5), of s] far ne assms(2) by simp
  moreover have "sorted_wrt (farther target) (butlast cs @ [last cs])" using assms(1) ne by (simp add: cand_inv_def)
  ultimately show ?thesis by (auto simp: sorted_wrt_append farther_def)
qed

theorem look_insert_drops_nearest_witness:
  "look_insert demo_far (replicate 20 0) (demo_id 1) 1 80 (demo_cands (\<lambda>_. None) (\<lambda>_. False) (rev [2..<66])) =
     butlast (demo_cands (\<lambda>_. None) (\<lambda>_. False) (rev [2..<66])) @ [new_cand (demo_id 1) 1 80 (look_preferred demo_far (demo_id 1))]"
proof -
  let ?cs = "demo_cands (\<lambda>_. None) (\<lambda>_. False) (rev [2..<66])"
  have ci: "cand_inv (replicate 20 0) ?cs" by (rule demo_cands_inv) (simp_all add: sorted_wrt_rev LOOK_MAX_CAND_def del: upt_rec_numeral)
  have m: "\<forall>c \<in> set ?cs. xor_metric (replicate 20 0) (demo_id 1) < xor_metric (replicate 20 0) (lc_id c)"
    by (auto simp: demo_cands_def demo_id_metric simp del: power_numeral upt_rec_numeral)
  show ?thesis
    by (rule look_insert_drops_nearest [OF ci _ _ _ _ m, THEN conjunct1])
      (simp_all add: demo_cands_def LOOK_MAX_CAND_def del: upt_rec_numeral)
qed

text \<open>C37: An announcement goes to the wrong end of the list: every candidate it is sent to is farther from
  the info hash than every other candidate that gave a token.\<close>

theorem announce_to_farthest:
  assumes "length info_hash = 20" "\<forall>n \<in> set (ml_nodes s). length (mn_id n) = 20"
    "gp_rounds s info_hash True timeout rs (look_start s info_hash, None, None) = ((cand, found, pub), ds)"
    "c \<in> set (announce_to cand)" "d \<in> set cand" "lc_token d \<noteq> None" "d \<notin> set (announce_to cand)"
  shows "xor_metric info_hash (lc_id d) < xor_metric info_hash (lc_id c)"
proof -
  have "cand_inv info_hash (look_start s info_hash)" by (rule look_start_inv [OF assms(1,2)])
  then have "cand_inv info_hash cand" using gp_rounds_inv [OF assms(3)] assms(1) by simp
  then have "sorted_wrt (farther info_hash) cand" by (simp add: cand_inv_def)
  then have "farther info_hash c d"
    using take_farther [of info_hash cand c LOOK_K "\<lambda>c. lc_token c \<noteq> None" d] assms(4-7) by (simp add: announce_to_def)
  then show ?thesis by (simp add: farther_def)
qed

theorem announce_to_farthest_witness:
  "let cand = demo_cands (\<lambda>_. Some [1]) (\<lambda>_. True) [9, 8, 7, 6, 5, 4, 3, 2, 1] in
   last cand \<notin> set (announce_to cand) \<and> xor_metric (replicate 20 0) (lc_id (last cand)) < xor_metric (replicate 20 0) (lc_id (hd cand))"
proof -
  let ?cand = "demo_cands (\<lambda>_. Some [1]) (\<lambda>_. True) [9, 8, 7, 6, 5, 4, 3, 2, 1]"
  have a: "announce_to ?cand = demo_cands (\<lambda>_. Some [1]) (\<lambda>_. True) [9, 8, 7, 6, 5, 4, 3, 2]"
    by (simp add: announce_to_def demo_cands_def LOOK_K_def)
  have n: "last ?cand \<notin> set (announce_to ?cand)" unfolding a by (simp add: demo_cands_def)
  have l: "length (replicate 20 (0 :: byte)) = 20" by simp
  have t: "\<forall>n \<in> set (ml_nodes demo_far). length (mn_id n) = 20" by (simp add: demo_far_def new_node_def)
  have m: "hd ?cand \<in> set (announce_to ?cand)" "last ?cand \<in> set ?cand" "lc_token (last ?cand) \<noteq> None"
    unfolding a by (simp_all add: demo_cands_def)
  show ?thesis unfolding Let_def using n announce_to_farthest [OF l t demo_far_rounds m n] by blast
qed

text \<open>C38: The calls that publish a record, signed or content-addressed, and the call that announces the
  node send nothing at all, whatever the routing table holds: their lookup has a time limit of
  0, ends before its first query, and so knows no node that gave a token.\<close>

theorem publish_sends_nothing:
  assumes "\<forall>n \<in> set (ml_nodes s). length (mn_id n) = 20" "\<forall>r \<in> set rs. fst r \<ge> 0" "length info_hash = 20"
  shows "fst (snd (norn_put_mutable_salt sd now s pubkey secret val seq salt rs rst)) = [] \<and>
    fst (snd (norn_put_immutable sd now s val rs rst)) = [] \<and> snd (norn_announce s info_hash port rs) = []"
proof (intro conjI)
  have m: "fst (snd (snd (mainline_lookup_mutable sd now s q do_put seq v sig 0 rs rst))) = []" if "length (iq_target q) = 20" for q do_put seq v sig
    using announce_to_start [OF that assms(1)] rounds_no_time(2) [OF assms(2)] by (simp add: mainline_lookup_mutable_def Let_def)
  have t: "length (bep44_target_salted k sl) = 20" "length (bep44_target_for_pubkey k) = 20" for k sl
    by (simp_all add: bep44_target_salted_def bep44_target_for_pubkey_def)
  show "fst (snd (norn_put_mutable_salt sd now s pubkey secret val seq salt rs rst)) = []"
    by (simp add: norn_put_mutable_salt_def Let_def case_prod_beta m t split: option.split)
  show "fst (snd (norn_put_immutable sd now s val rs rst)) = []"
    by (simp add: norn_put_immutable_def bep44_immutable_target_def Let_def case_prod_beta m)
  show "snd (norn_announce s info_hash port rs) = []"
    using announce_to_start [OF assms(3,1)] rounds_no_time(1) [OF assms(2)]
    by (simp add: norn_announce_def mainline_lookup_ex_def Let_def)
qed

definition demo_recs :: recstore where
  "demo_recs = \<lparr>rs_slots = [], rs_count = 0, rs_path = [], rs_file = None, rs_writable = False\<rparr>"

theorem publish_sends_nothing_witness:
  "fst (snd (norn_put_mutable_salt toy_sodium 0 demo_far [1] [2] [3] 4 [5] [(0, []), (7, [])] demo_recs)) = [] \<and>
   fst (snd (norn_put_immutable toy_sodium 0 demo_far [3] [(0, []), (7, [])] demo_recs)) = [] \<and>
   snd (norn_announce demo_far (replicate 20 0) 80 [(0, []), (7, [])]) = []"
  by (rule publish_sends_nothing) (simp_all add: demo_far_def new_node_def)

text \<open>The value is cut to the caller's buffer after the check of its first 1024 bytes.\<close>

lemma copy_value_cut:
  "copy_value vcap v = copy_value vcap (take 1024 v) \<or>
   1025 < vcap \<and> length (take 1024 v) = 1024 \<and> take 1024 (copy_value vcap v) = take 1024 v"
proof -
  consider "length v \<le> 1024" | "1024 < length v" "vcap \<le> 1024" | "1024 < length v" "vcap = 1025" | "1024 < length v" "1025 < vcap"
    by linarith
  then show ?thesis by cases (auto simp: copy_value_def min_def)
qed

text \<open>C23: Whatever replies arrive, a value that a lookup of stored items returns is authentic: for a
  content-addressed item the target is the hash of the bytes that are returned, cut to the
  caller's buffer; for a signed item there are bytes that carry a signature of the key that was
  asked for under the salt that was asked for, and these are returned, cut to the caller's
  buffer. The exception is a buffer of more than 1025 bytes: then what is returned may go on
  after 1024 signed bytes.\<close>

theorem lookup_value_authentic:
  assumes "mainline_lookup_mutable sd now s q do_put seq v sig timeout rs rst = (rc, Some val, ds, rst')"
  shows "\<exists>vcap m. iq_vcap q = Some vcap \<and>
    (if iq_immutable q then bep44_immutable_target m = Some (iq_target q) \<and> val = copy_value vcap m
     else (\<exists>k seq sig sb. iq_k q = Some k \<and> bep44_signbuf_salted (iq_salt q) seq m 1088 = Some sb \<and> sig_verify sd sig sb k) \<and>
       (val = copy_value vcap m \<or> 1025 < vcap \<and> length m = 1024 \<and> take 1024 val = m))"
proof (cases "iq_immutable q")
  case True
  then show ?thesis using lookup_mutable_ok [OF assms] unfolding mutable_ok_def immutable_ok_def by auto
next
  case False
  then obtain vcap k full seq sig sb where "iq_vcap q = Some vcap" "iq_k q = Some k" "val = copy_value vcap full"
    "bep44_signbuf_salted (iq_salt q) seq (take 1024 full) 1088 = Some sb" "sig_verify sd sig sb k"
    using lookup_mutable_ok [OF assms] unfolding mutable_ok_def immutable_ok_def by blast
  then show ?thesis using False copy_value_cut [of vcap full] by (intro exI [of _ vcap] exI [of _ "take 1024 full"]) auto
qed

text \<open>The reply of a node that holds a signed item, and a lookup that receives it.\<close>

definition signed_reply :: "bytes \<Rightarrow> u32 \<Rightarrow> bytes \<Rightarrow> bytes \<Rightarrow> bytes" where
  "signed_reply k seq sig v = bencode_encode (BENCODE_DICT
     [(str ''r'', BENCODE_DICT [(str ''k'', BENCODE_STRING k), (str ''seq'', BENCODE_INT (uint seq)), (str ''sig'', BENCODE_STRING sig),
        (str ''v'', BENCODE_STRING v)]),
      (str ''y'', BENCODE_STRING (str ''r''))])"

lemma signed_reply_dict:
  assumes "length k < 2 ^ 63" "length sig < 2 ^ 63" "length v < 2 ^ 63"
  shows "\<exists>r. reply_dict (signed_reply k seq sig v) = Some r \<and> dict_string r ''token'' = None \<and> dict_string r ''nodes'' = None \<and>
    dict_string r ''k'' = Some k \<and> dict_string r ''sig'' = Some sig \<and> bencode_dict_get r (str ''seq'') = Some (BENCODE_INT (uint seq)) \<and>
    dict_string r ''v'' = Some v"
proof -
  let ?d = "BENCODE_DICT [(str ''k'', BENCODE_STRING k), (str ''seq'', BENCODE_INT (uint seq)), (str ''sig'', BENCODE_STRING sig),
        (str ''v'', BENCODE_STRING v)]"
  let ?v = "BENCODE_DICT [(str ''r'', ?d), (str ''y'', BENCODE_STRING (str ''r''))]"
  have "uint seq < 2 ^ 32" "- 9223372036854775808 \<le> uint seq" using uint_lt2p [of seq] uint_nonnegative [of seq] by (simp, linarith)
  then have "bwf 0 ?v" using assms by (simp add: c_string_str no_nul_def BENCODE_MAX_DEPTH_def)
  then have "bencode_decode (signed_reply k seq sig v) = Some (?v, [])" using bencode_round_trip [of ?v "[]"] by (simp add: signed_reply_def)
  then have "reply_dict (signed_reply k seq sig v) = Some ?d" by (simp add: reply_dict_def c_string_str no_nul_def) (simp add: str_def)
  then show ?thesis by (intro exI [of _ ?d]) (simp add: dict_string_def c_string_str no_nul_def)
qed

lemma signed_reply_len:
  assumes "length k = 32" "length sig = 64" "length v < 10000"
  shows "length (signed_reply k seq sig v) \<le> length v + 160"
proof -
  have "unat seq < 10 ^ 10" using unsigned_less [of seq, where ?'a = nat] by simp
  then have n: "length (nat_dec (nat (uint seq))) \<le> 10" "length (nat_dec (length v)) \<le> 4"
    using assms(3) by (intro length_nat_dec; simp)+
  have i: "length (int_dec (uint seq)) \<le> 10" using n(1) by (simp add: int_dec_def)
  have c: "length (nat_dec 1) \<le> 1" "length (nat_dec (Suc (Suc (Suc 0)))) \<le> 1" "length (nat_dec 32) \<le> 2" "length (nat_dec 64) \<le> 2"
    by (intro length_nat_dec; simp)+
  show ?thesis using n(2) i c assms
    by (simp add: signed_reply_def bencode_encode_def encode_string_def encode_int_def c_string_str no_nul_def)
qed

lemma lookup_signed_reply:
  assumes "length (iq_target q) = 20" "\<forall>n \<in> set (ml_nodes s). length (mn_id n) = 20" "look_start s (iq_target q) \<noteq> []" "t < timeout"
    and "iq_k q = Some k" "\<not> iq_immutable q" "iq_vcap q = Some vcap" "length k = 32" "length sg = 64" "v \<noteq> []" "length v < 2 ^ 63"
    and "bep44_signbuf_salted (iq_salt q) sq (take 1024 v) 1088 = Some sb" "sig_verify sd sg sb k"
  shows "\<exists>ds. mainline_lookup_mutable sd now s q False 0 [] None timeout [(t, [(ip, port, signed_reply k sq sg v)])] rst =
    (1, Some (copy_value vcap v), ds, rst)"
proof -
  obtain r where r: "reply_dict (signed_reply k sq sg v) = Some r" "dict_string r ''token'' = None" "dict_string r ''nodes'' = None"
    "dict_string r ''k'' = Some k" "dict_string r ''sig'' = Some sg" "bencode_dict_get r (str ''seq'') = Some (BENCODE_INT (uint sq))"
    "dict_string r ''v'' = Some v" using signed_reply_dict [of k sg v sq] assms(8,9,11) by auto
  have rep: "mg_reply sd now s q (ip, port, signed_reply k sq sg v) (cand, None, False, rst) = (cand, Some (copy_value vcap v), True, rst)" for cand
    using assms(5-13) r by (simp add: mg_reply_def mg_immutable_def mg_signed_def take_nodes_def take_token_def bf_verify_def split: option.split)
  obtain c cs where c: "look_start s (iq_target q) = c # cs" "\<not> lc_queried c"
    using assms(3) look_start_fresh [OF assms(1,2)] by (cases "look_start s (iq_target q)") auto
  obtain ps cand where p: "look_pick LOOK_ALPHA (c # cs) = (ps, cand)" "ps \<noteq> []"
    using c(2) by (cases "look_pick (LOOK_ALPHA - 1) cs") (simp add: LOOK_ALPHA_def)
  show ?thesis using assms(4) c(1) p by (simp add: mainline_lookup_mutable_def mg_rounds.simps(2) rep Let_def)
qed

text \<open>C24: A node can append bytes of its own to a signed value of 1024 bytes: a reply that carries the
  value with any tail, and fits the receive buffer of 2048 bytes, is accepted by a read of that
  name, and the value is returned together with the tail when the caller's buffer has room, as
  the daemon's has.\<close>

theorem lookup_unsigned_tail:
  assumes "length target = 20" "\<forall>n \<in> set (ml_nodes s). length (mn_id n) = 20" "look_start s target \<noteq> []" "t < timeout"
    and "length pk = 32" "length sg = 64" "length m = 1024" "bep44_signbuf_salted salt sq m 1088 = Some sb" "sig_verify sd sg sb pk"
    and "length (signed_reply pk sq sg (m @ tail)) \<le> 2048" "1024 + length tail < vcap"
  shows "\<exists>ds. norn_dht_get_mutable sd now s target pk salt vcap timeout [(t, [(ip, port, signed_reply pk sq sg (m @ tail))])] rst =
    (1, Some (m @ tail), ds, rst)"
proof -
  have "length (m @ tail) \<le> length (signed_reply pk sq sg (m @ tail))"
    by (simp add: signed_reply_def bencode_encode_def encode_string_def)
  then have l: "length (m @ tail) < 2 ^ 63" using assms(10) by simp
  let ?q = "\<lparr>iq_target = target, iq_k = Some pk, iq_salt = salt, iq_immutable = False, iq_vcap = Some vcap\<rparr>"
  have "\<exists>ds. mainline_lookup_mutable sd now s ?q False 0 [] None timeout [(t, [(ip, port, signed_reply pk sq sg (m @ tail))])] rst =
      (1, Some (copy_value vcap (m @ tail)), ds, rst)"
    by (rule lookup_signed_reply [where sb = sb]) (use assms l in auto)
  then show ?thesis using assms(7,11) by (auto simp: norn_dht_get_mutable_def copy_value_def)
qed

definition demo_item :: item_query where
  "demo_item = \<lparr>iq_target = sha1 [49, 58, 7], iq_k = None, iq_salt = [], iq_immutable = True, iq_vcap = Some 100\<rparr>"

definition value_reply :: "bytes \<Rightarrow> bytes" where
  "value_reply v = bencode_encode (BENCODE_DICT [(str ''r'', BENCODE_DICT [(str ''v'', BENCODE_STRING v)]), (str ''y'', BENCODE_STRING (str ''r''))])"

lemma demo_start:
  assumes "length target = 20"
  shows "look_start demo_mainline target = [new_cand (replicate 20 7) 9 (ntohs 80) (look_preferred demo_mainline (replicate 20 7))]"
  using assms by (subst look_start_sorted) (simp_all add: demo_mainline_fields new_node_def LOOK_MAX_CAND_def ntohs_0)

lemma demo_lookup_immutable:
  "\<exists>rc ds rst'. mainline_lookup_mutable toy_sodium 0 demo_mainline demo_item False 0 [] None 100 [(0, [(9, 5, value_reply [7])])] demo_recs =
    (rc, Some [7], ds, rst')"
proof -
  let ?d = "BENCODE_DICT [(str ''v'', BENCODE_STRING [7])]"
  let ?v = "BENCODE_DICT [(str ''r'', ?d), (str ''y'', BENCODE_STRING (str ''r''))]"
  have "bwf 0 ?v" by (simp add: c_string_str no_nul_def BENCODE_MAX_DEPTH_def)
  then have "bencode_decode (value_reply [7]) = Some (?v, [])" using bencode_round_trip [of ?v "[]"] by (simp add: value_reply_def)
  then have r: "reply_dict (value_reply [7]) = Some ?d" by (simp add: reply_dict_def c_string_str no_nul_def) (simp add: str_def)
  have d: "dict_string ?d ''token'' = None" "dict_string ?d ''nodes'' = None" "dict_string ?d ''v'' = Some [7]" "dict_string ?d ''k'' = None"
    by (simp_all add: dict_string_def c_string_str no_nul_def)
  have t: "bep44_immutable_target [7] = Some (sha1 [49, 58, 7])" by (simp add: bep44_immutable_target_def nat_dec.simps)
  have st: "look_start demo_mainline (iq_target demo_item) = [new_cand (replicate 20 7) 9 (ntohs 80) (look_preferred demo_mainline (replicate 20 7))]"
    by (rule demo_start) (simp add: demo_item_def)
  have rep: "mg_reply toy_sodium 0 demo_mainline demo_item (9, 5, value_reply [7]) (cand, None, False, rst) = (cand, Some [7], True, rst)" for cand rst
    by (simp add: mg_reply_def r mg_signed_def mg_immutable_def d take_nodes_def demo_item_def t copy_value_def take_token_def split: option.split)
  show ?thesis by (simp add: mainline_lookup_mutable_def st mg_rounds.simps(2) LOOK_ALPHA_def rep Let_def new_cand_def)
qed

text \<open>A value signed by the stand-in library, the buffer the signature covers and the signature.\<close>

definition demo_named :: item_query where
  "demo_named = \<lparr>iq_target = replicate 20 3, iq_k = Some (sig_pub toy_sodium [7]), iq_salt = [97], iq_immutable = False, iq_vcap = Some 100\<rparr>"

definition demo_signbuf :: "bytes \<Rightarrow> bytes" where
  "demo_signbuf v = the (bep44_signbuf_salted [97] 4 v 1088)"

definition demo_sig :: "bytes \<Rightarrow> bytes" where
  "demo_sig v = sig_sign toy_sodium (demo_signbuf v) [7]"

lemma demo_signed:
  assumes "length v \<le> 1024"
  shows "bep44_signbuf_salted [97] 4 v 1088 = Some (demo_signbuf v)" "sig_verify toy_sodium (demo_sig v) (demo_signbuf v) (sig_pub toy_sodium [7])"
    "length (demo_sig v) = 64" "length (sig_pub toy_sodium [7]) = 32"
proof -
  have "length (nat_dec (length v)) \<le> 4" "length (nat_dec 4) \<le> 1" "length (nat_dec (Suc 0)) \<le> 1" using assms by (intro length_nat_dec; simp)+
  then have "bep44_signbuf_salted [97] 4 v 1088 \<noteq> None"
    using assms by (simp add: bep44_signbuf_salted_def Let_def seq_head_def salt_head_def)
  then show "bep44_signbuf_salted [97] 4 v 1088 = Some (demo_signbuf v)" by (auto simp: demo_signbuf_def)
  show "sig_verify toy_sodium (demo_sig v) (demo_signbuf v) (sig_pub toy_sodium [7])" "length (demo_sig v) = 64"
    using sodium_okD [OF toy_ok] by (simp_all add: demo_sig_def)
qed (rule toy_len)

lemma demo_lookup_signed:
  "\<exists>ds. mainline_lookup_mutable toy_sodium 0 demo_mainline demo_named False 0 [] None 100
    [(0, [(9, 5, signed_reply (sig_pub toy_sodium [7]) 4 (demo_sig [8]) [8])])] demo_recs = (1, Some [8], ds, demo_recs)"
proof -
  have "\<exists>ds. mainline_lookup_mutable toy_sodium 0 demo_mainline demo_named False 0 [] None 100
      [(0, [(9, 5, signed_reply (sig_pub toy_sodium [7]) 4 (demo_sig [8]) [8])])] demo_recs = (1, Some (copy_value 100 [8]), ds, demo_recs)"
    by (rule lookup_signed_reply [where sb = "demo_signbuf [8]"])
      (use demo_signed [of "[8]"] in \<open>simp_all add: demo_named_def demo_start demo_mainline_fields new_node_def\<close>)
  then show ?thesis by (simp add: copy_value_def)
qed

theorem lookup_value_authentic_witness:
  "fst (snd (mainline_lookup_mutable toy_sodium 0 demo_mainline demo_item False 0 [] None 100 [(0, [(9, 5, value_reply [7])])] demo_recs)) = Some [7] \<and>
   (\<exists>m. bep44_immutable_target m = Some (sha1 [49, 58, 7]) \<and> [7] = copy_value 100 m) \<and>
   fst (snd (mainline_lookup_mutable toy_sodium 0 demo_mainline demo_named False 0 [] None 100
     [(0, [(9, 5, signed_reply (sig_pub toy_sodium [7]) 4 (demo_sig [8]) [8])])] demo_recs)) = Some [8] \<and>
   (\<exists>m seq sig sb. bep44_signbuf_salted [97] seq m 1088 = Some sb \<and> sig_verify toy_sodium sig sb (sig_pub toy_sodium [7]) \<and> [8] = copy_value 100 m)"
proof -
  obtain rc ds rst' where i: "mainline_lookup_mutable toy_sodium 0 demo_mainline demo_item False 0 [] None 100 [(0, [(9, 5, value_reply [7])])] demo_recs =
    (rc, Some [7], ds, rst')" using demo_lookup_immutable by blast
  obtain ds' where s: "mainline_lookup_mutable toy_sodium 0 demo_mainline demo_named False 0 [] None 100
      [(0, [(9, 5, signed_reply (sig_pub toy_sodium [7]) 4 (demo_sig [8]) [8])])] demo_recs = (1, Some [8], ds', demo_recs)"
    using demo_lookup_signed by blast
  have "\<exists>m. bep44_immutable_target m = Some (sha1 [49, 58, 7]) \<and> [7] = copy_value 100 m"
    using lookup_value_authentic [OF i] by (simp add: demo_item_def)
  moreover have "\<exists>m seq sig sb. bep44_signbuf_salted [97] seq m 1088 = Some sb \<and> sig_verify toy_sodium sig sb (sig_pub toy_sodium [7]) \<and> [8] = copy_value 100 m"
    using lookup_value_authentic [OF s] by (simp add: demo_named_def) blast
  ultimately show ?thesis by (simp only: i s fst_conv snd_conv simp_thms)
qed

theorem lookup_unsigned_tail_witness:
  "(let m = replicate 1024 1; pk = sig_pub toy_sodium [7] in
    \<exists>ds. norn_dht_get_mutable toy_sodium 0 demo_mainline (replicate 20 3) pk [97] 65536 100
      [(0, [(9, 5, signed_reply pk 4 (demo_sig m) (m @ [2, 3]))])] demo_recs = (1, Some (m @ [2, 3]), ds, demo_recs))"
proof -
  let ?m = "replicate 1024 1 :: bytes" and ?pk = "sig_pub toy_sodium [7]"
  have g: "length ?m \<le> 1024" "length ?m = 1024" "length (replicate 20 3 :: bytes) = 20" by simp_all
  have n: "\<forall>n \<in> set (ml_nodes demo_mainline). length (mn_id n) = 20" by (simp add: demo_mainline_fields new_node_def)
  have l: "length (signed_reply ?pk 4 (demo_sig ?m) (?m @ [2, 3])) \<le> 2048"
    using signed_reply_len [OF demo_signed(4,3) [OF g(1)], of "?m @ [2, 3]" 4] by simp
  show ?thesis unfolding Let_def
    by (rule lookup_unsigned_tail [OF g(3) n _ _ demo_signed(4,3) [OF g(1)] g(2) demo_signed(1,2) [OF g(1)] l])
      (simp_all add: demo_start)
qed

end
