(* ===== verification/Norn_Serve.thy ===== *)
theory Norn_Serve
  imports Norn_Lookup
begin

text \<open>
  The server side of the mainline node, \<open>mainline_process_packet\<close> of \<open>src/libnorn/norn.c\<close> with
  the functions it calls: write tokens, announced peers, the closest nodes, and the answers to
  the six queries. The keyed hash of the tokens is a parameter; the item store is part of the
  state, and datagrams sent are returned. Steps of the node and its invariant are at the end.
\<close>

section \<open>Tokens\<close>

definition TOKEN_EPOCH :: int where "TOKEN_EPOCH = 300"

text \<open>The keyed hash takes the message and the key.\<close>

type_synonym keyed_hash = "bytes \<Rightarrow> bytes \<Rightarrow> bytes"

definition serve_token_ep :: "keyed_hash \<Rightarrow> mainline_state \<Rightarrow> u32 \<Rightarrow> u64 \<Rightarrow> bytes" where
  "serve_token_ep gh s ip epoch = take 4 (gh (mem32 ip @ le_bytes 8 (unat epoch)) (ml_token_secret s))"

definition serve_token :: "keyed_hash \<Rightarrow> int \<Rightarrow> mainline_state \<Rightarrow> u32 \<Rightarrow> bytes" where
  "serve_token gh now s ip = serve_token_ep gh s ip (word_of_int (now div TOKEN_EPOCH))"

definition serve_token_valid :: "keyed_hash \<Rightarrow> int \<Rightarrow> mainline_state \<Rightarrow> u32 \<Rightarrow> bytes \<Rightarrow> bool" where
  "serve_token_valid gh now s ip tok =
     (let epoch = word_of_int (now div TOKEN_EPOCH) in
      length tok \<ge> 4 \<and> (serve_token_ep gh s ip epoch = take 4 tok \<or> serve_token_ep gh s ip (epoch - 1) = take 4 tok))"

section \<open>Announced peers\<close>

definition store_peer_at :: "u32 \<Rightarrow> u16 \<Rightarrow> bytes option \<Rightarrow> served_hash \<Rightarrow> served_hash" where
  "store_peer_at ip port pubkey h =
     (let h1 = (case pubkey of Some k \<Rightarrow> h\<lparr>sh_pubkey := Some k\<rparr> | None \<Rightarrow> h) in
      if (ip, port) \<in> set (sh_peers h1) then h1
      else if length (sh_peers h1) < MAINLINE_SERVE_PEERS then h1\<lparr>sh_peers := sh_peers h1 @ [(ip, port)]\<rparr>
      else h1\<lparr>sh_peers := tl (sh_peers h1) @ [(ip, port)]\<rparr>)"

definition serve_store_peer :: "bytes \<Rightarrow> u32 \<Rightarrow> u16 \<Rightarrow> bytes option \<Rightarrow> mainline_state \<Rightarrow> mainline_state" where
  "serve_store_peer info_hash ip port pubkey s =
     (if ip = 0 \<or> port = 0 then s
      else let blank = \<lparr>sh_info_hash = info_hash, sh_peers = [], sh_pubkey = None\<rparr>;
               (idx, hs) = (case find_idx (\<lambda>h. sh_info_hash h = info_hash) (ml_served s) of
                              Some i \<Rightarrow> (i, ml_served s)
                            | None \<Rightarrow> if length (ml_served s) < MAINLINE_SERVE_HASHES then (length (ml_served s), ml_served s @ [blank])
                                      else (0, (ml_served s)[0 := blank]))
      in s\<lparr>ml_served := hs[idx := store_peer_at ip port pubkey (hs ! idx)]\<rparr>)"

definition compact_peer :: "u32 \<times> u16 \<Rightarrow> bytes" where
  "compact_peer e = mem32 (fst e) @ mem16 (htons (snd e))"

definition serve_values :: "mainline_state \<Rightarrow> bytes \<Rightarrow> bencode_value option" where
  "serve_values s info_hash =
     (let own = (if ml_self_account s = Some info_hash
                 then (case net_get_external_endpoint (ml_net s) of Some (ip, port) \<Rightarrow> if ip \<noteq> 0 \<and> port \<noteq> 0 then [(ip, port)] else [] | None \<Rightarrow> [])
                 else []);
          peers = (case find_idx (\<lambda>h. sh_info_hash h = info_hash \<and> sh_peers h \<noteq> []) (ml_served s) of
                     Some i \<Rightarrow> sh_peers (ml_served s ! i) | None \<Rightarrow> [])
      in if own @ peers = [] then None else Some (BENCODE_LIST (map (\<lambda>e. bencode_string_new (compact_peer e)) (own @ peers))))"

section \<open>Closest nodes\<close>

text \<open>The inner loop: the place of the nearest entry from \<open>best\<close> on.\<close>

definition select_best :: "bytes \<Rightarrow> mainline_node list \<Rightarrow> nat list \<Rightarrow> nat \<Rightarrow> nat" where
  "select_best target ns idx a =
     fold (\<lambda>b best. if look_closer target (mn_id (ns ! (idx ! b))) (mn_id (ns ! (idx ! best))) < 0 then b else best) [Suc a..<length idx] a"

primrec select_from :: "bytes \<Rightarrow> mainline_node list \<Rightarrow> nat \<Rightarrow> nat \<Rightarrow> nat list \<Rightarrow> nat list" where
  "select_from target ns 0 a idx = idx"
| "select_from target ns (Suc k) a idx =
     (let best = select_best target ns idx a in select_from target ns k (Suc a) (idx[a := idx ! best, best := idx ! a]))"

definition serve_compact_closest :: "mainline_state \<Rightarrow> bytes \<Rightarrow> nat \<Rightarrow> bytes" where
  "serve_compact_closest s target mx =
     (let n = length (ml_nodes s); m = (if mx > n then n else mx)
      in concat (map (\<lambda>i. mn_id (ml_nodes s ! i) @ mem32 (mn_ip (ml_nodes s ! i)) @ mem16 (mn_port (ml_nodes s ! i)))
           (take m (select_from target (ml_nodes s) m 0 [0..<n]))))"

section \<open>Packets\<close>

text \<open>A short text field of a message, or nothing; and what is learned of the sender.\<close>

definition short_field :: "nat \<Rightarrow> bencode_value \<Rightarrow> string \<Rightarrow> bytes option" where
  "short_field cap d k = (case dict_string d k of Some v \<Rightarrow> if 0 < length v \<and> length v < cap then Some v else None | None \<Rightarrow> None)"

definition learn_sender :: "int \<Rightarrow> u32 \<Rightarrow> u16 \<Rightarrow> bencode_value \<Rightarrow> bencode_value \<Rightarrow> mainline_state \<Rightarrow> mainline_state" where
  "learn_sender now ip port msg d s =
     (case dict_string d ''id'' of
        None \<Rightarrow> s
      | Some nid \<Rightarrow>
          if length nid < 20 then s
          else let s1 = snd (mainline_add_node now (take 20 nid) ip (htons port) s);
                   pv = (case short_field 8 d ''pv'' of Some v \<Rightarrow> v | None \<Rightarrow> []);
                   app = (case short_field 24 msg ''v'' of Some v \<Rightarrow> v
                          | None \<Rightarrow> (case short_field 24 d ''app'' of Some v \<Rightarrow> v | None \<Rightarrow> []));
                   pk = (case dict_string d ''pk'' of Some k \<Rightarrow> if length k = 32 then Some k else None | None \<Rightarrow> None)
               in if c_string pv \<noteq> [] \<or> c_string app \<noteq> [] \<or> pk \<noteq> None
                  then snd (mainline_update_node_info (take 20 nid) pv app pk s1) else s1)"

text \<open>A reply: only one that matches a transaction is taken, and the transaction is used up.\<close>

definition accept_reply :: "int \<Rightarrow> u32 \<Rightarrow> u16 \<Rightarrow> bool \<Rightarrow> bencode_value \<Rightarrow> bencode_value \<Rightarrow> mainline_state \<Rightarrow> mainline_state" where
  "accept_reply now ip port ro msg r s =
     (let s1 = (if ro then s else learn_sender now ip port msg r s);
          s2 = (case dict_string msg ''ip'' of
                  Some b \<Rightarrow> if length b \<ge> 6 then s1\<lparr>ml_net := net_update_external_ip (un_mem32 b) (ntohs (un_mem16 (drop 4 b))) (ml_net s1)\<rparr> else s1
                | None \<Rightarrow> s1)
      in case dict_string r ''nodes'' of
           Some b \<Rightarrow> foldl (\<lambda>s (nid, nip, nport). snd (mainline_add_node now nid nip nport s)) s2 (compact_nodes b)
         | None \<Rightarrow> s2)"

definition process_reply :: "int \<Rightarrow> u32 \<Rightarrow> u16 \<Rightarrow> bool \<Rightarrow> bencode_value \<Rightarrow> mainline_state \<Rightarrow> int \<times> mainline_state" where
  "process_reply now ip port ro msg s =
     (case dict_string msg ''t'' of
        None \<Rightarrow> (-1, s)
      | Some t \<Rightarrow>
          (case find_idx (\<lambda>x. mt_id x = decode_transaction_id t) (ml_transactions s) of
             None \<Rightarrow> (-1, s)
           | Some i \<Rightarrow>
               let s1 = s\<lparr>ml_transactions := take i (ml_transactions s) @ drop (Suc i) (ml_transactions s)\<rparr> in
               (case bencode_dict_get msg (str ''r'') of
                  Some (BENCODE_DICT kvs) \<Rightarrow> (0, accept_reply now ip port ro msg (BENCODE_DICT kvs) s1)
                | _ \<Rightarrow> (-1, s1))))"

text \<open>
  The answers: the entries added to the reply after the id, and the state. The state of the
  server is the node with the item store.
\<close>

type_synonym answer = "(string \<times> bencode_value) list"

definition answer_ping :: "mainline_state \<Rightarrow> answer" where
  "answer_ping s =
     (case ml_self_version s of Some v \<Rightarrow> [(''nv'', bencode_string_new v)] | None \<Rightarrow> []) @ tag_pv s @ tag_pk s"

definition closest_entry :: "mainline_state \<Rightarrow> bytes \<Rightarrow> string \<times> bencode_value" where
  "closest_entry s target = (''nodes'', bencode_string_new (serve_compact_closest s target 8))"

definition answer_find_node :: "bencode_value \<Rightarrow> mainline_state \<Rightarrow> answer" where
  "answer_find_node a s =
     [closest_entry s (case dict_string a ''target'' of Some t \<Rightarrow> if length t \<ge> 20 then take 20 t else ml_self_id s | None \<Rightarrow> ml_self_id s)]"

definition answer_get_peers :: "keyed_hash \<Rightarrow> int \<Rightarrow> u32 \<Rightarrow> bencode_value \<Rightarrow> mainline_state \<Rightarrow> answer" where
  "answer_get_peers gh now ip a s =
     (''token'', bencode_string_new (serve_token gh now s ip)) #
     (case dict_string a ''info_hash'' of
        Some b \<Rightarrow>
          if length b \<ge> 20
          then let ih = take 20 b
               in (case serve_values s ih of Some vs \<Rightarrow> (''values'', vs) | None \<Rightarrow> closest_entry s ih) #
                  (case serve_pubkey s ih of Some k \<Rightarrow> [(''pk'', bencode_string_new k)] | None \<Rightarrow> [])
          else []
      | None \<Rightarrow> [])"

definition announce_port :: "u16 \<Rightarrow> bencode_value \<Rightarrow> u16" where
  "announce_port from_port a =
     (if (case bencode_dict_get a (str ''implied_port'') of Some (BENCODE_INT n) \<Rightarrow> n \<noteq> 0 | _ \<Rightarrow> False) then from_port
      else case bencode_dict_get a (str ''port'') of
             Some (BENCODE_INT n) \<Rightarrow> if n > 0 \<and> n \<le> 65535 then word_of_int n else from_port
           | _ \<Rightarrow> from_port)"

definition answer_announce :: "keyed_hash \<Rightarrow> int \<Rightarrow> u32 \<Rightarrow> u16 \<Rightarrow> bencode_value \<Rightarrow> mainline_state \<Rightarrow> mainline_state" where
  "answer_announce gh now ip port a s =
     (case (dict_string a ''info_hash'', dict_string a ''token'') of
        (Some ih, Some tok) \<Rightarrow>
          if length ih \<ge> 20 \<and> serve_token_valid gh now s ip tok
          then serve_store_peer (take 20 ih) ip (announce_port port a)
                 (case dict_string a ''pk'' of Some k \<Rightarrow> if length k = 32 then Some k else None | None \<Rightarrow> None) s
          else s
      | _ \<Rightarrow> s)"

definition answer_get :: "keyed_hash \<Rightarrow> int \<Rightarrow> u32 \<Rightarrow> bencode_value \<Rightarrow> mainline_state \<Rightarrow> dhtstore \<Rightarrow> answer \<times> dhtstore" where
  "answer_get gh now ip a s d =
     (let tok = (''token'', bencode_string_new (serve_token gh now s ip)) in
      case dict_string a ''target'' of
        Some t \<Rightarrow>
          if length t \<ge> 20
          then (case dhtstore_get_ex now (take 20 t) DHTSTORE_VMAX d of
                  (Some (k, seq, v, sig, imm), d1) \<Rightarrow>
                    (tok # (if imm then [(''v'', bencode_string_new v)]
                            else [(''k'', bencode_string_new k), (''seq'', bencode_int_new (uint seq)), (''sig'', bencode_string_new sig),
                                  (''v'', bencode_string_new v)]), d1)
                | (None, d1) \<Rightarrow> ([tok, closest_entry s (take 20 t)], d1))
          else ([tok], d)
      | None \<Rightarrow> ([tok], d))"

definition answer_put :: "sodium \<Rightarrow> keyed_hash \<Rightarrow> int \<Rightarrow> u32 \<Rightarrow> bencode_value \<Rightarrow> mainline_state \<Rightarrow> dhtstore \<Rightarrow> dhtstore" where
  "answer_put sd gh now ip a s d =
     (case (dict_string a ''v'', dict_string a ''token'') of
        (Some v, Some tok) \<Rightarrow>
          if v \<noteq> [] \<and> serve_token_valid gh now s ip tok then
            (case (dict_string a ''k'', dict_string a ''sig'', bencode_dict_get a (str ''seq'')) of
               (Some k, Some sig, Some (BENCODE_INT n)) \<Rightarrow>
                 if length k = 32 \<and> length sig = 64
                 then let salt = (case dict_string a ''salt'' of Some sl \<Rightarrow> if length sl \<le> 64 then sl else [] | None \<Rightarrow> [])
                      in snd (dhtstore_put sd now (if salt \<noteq> [] then bep44_target_salted k salt else bep44_target k) k (word_of_int n) v sig salt ip d)
                 else d
             | _ \<Rightarrow> if bencode_dict_get a (str ''k'') = None \<and> bencode_dict_get a (str ''target'') = None
                    then snd (dhtstore_put_immutable now v ip d) else d)
          else d
      | _ \<Rightarrow> d)"

definition answer_query ::
  "sodium \<Rightarrow> keyed_hash \<Rightarrow> int \<Rightarrow> u32 \<Rightarrow> u16 \<Rightarrow> bytes \<Rightarrow> bencode_value \<Rightarrow> mainline_state \<times> dhtstore \<Rightarrow> answer \<times> mainline_state \<times> dhtstore" where
  "answer_query sd gh now ip port q a st =
     (case st of (s, d) \<Rightarrow>
      if q = str ''ping'' then (answer_ping s, s, d)
      else if q = str ''find_node'' then (answer_find_node a s, s, d)
      else if q = str ''get_peers'' then (answer_get_peers gh now ip a s, s, d)
      else if q = str ''announce_peer'' then ([], answer_announce gh now ip port a s, d)
      else if q = str ''get'' then (case answer_get gh now ip a s d of (kvs, d1) \<Rightarrow> (kvs, s, d1))
      else if q = str ''put'' then ([], s, answer_put sd gh now ip a s d)
      else ([], s, d))"

definition reply_message :: "mainline_state \<Rightarrow> u32 \<Rightarrow> u16 \<Rightarrow> bytes \<Rightarrow> answer \<Rightarrow> bencode_value" where
  "reply_message s ip port t kvs =
     dict_of ([(''t'', bencode_string_new t), (''y'', bencode_string_new (str ''r'')),
               (''r'', dict_of ((''id'', bencode_string_new (ml_self_id s)) # kvs))] @ mainline_tag_v s @
              [(''ip'', bencode_string_new (compact_peer (ip, port)))])"

definition process_query ::
  "sodium \<Rightarrow> keyed_hash \<Rightarrow> int \<Rightarrow> u32 \<Rightarrow> u16 \<Rightarrow> bool \<Rightarrow> bencode_value \<Rightarrow> mainline_state \<times> dhtstore \<Rightarrow> int \<times> datagram list \<times> mainline_state \<times> dhtstore" where
  "process_query sd gh now ip port ro msg st =
     (case st of (s, d) \<Rightarrow>
      if ml_read_only s then (0, [], s, d)
      else case (dict_string msg ''q'', bencode_dict_get msg (str ''a'')) of
        (Some q, Some (BENCODE_DICT kvs)) \<Rightarrow>
          let a = BENCODE_DICT kvs; s1 = (if ro then s else learn_sender now ip port msg a s) in
          (case dict_string msg ''t'' of
             None \<Rightarrow> (-1, [], s1, d)
           | Some t \<Rightarrow>
               (case answer_query sd gh now ip port q a (s1, d) of
                  (ans, s2, d2) \<Rightarrow> (0, [(ip, port, bencode_encode (reply_message s2 ip port t ans))], s2, d2)))
      | _ \<Rightarrow> (-1, [], s, d))"

definition msg_read_only :: "bencode_value \<Rightarrow> bool" where
  "msg_read_only msg = (case bencode_dict_get msg (str ''ro'') of Some (BENCODE_INT n) \<Rightarrow> n \<noteq> 0 | _ \<Rightarrow> False)"

definition mainline_process_packet ::
  "sodium \<Rightarrow> keyed_hash \<Rightarrow> int \<Rightarrow> datagram \<Rightarrow> mainline_state \<times> dhtstore \<Rightarrow> int \<times> datagram list \<times> mainline_state \<times> dhtstore" where
  "mainline_process_packet sd gh now p st =
     (case (p, st) of ((ip, port, data), (s, d)) \<Rightarrow>
      if data = [] then (-1, [], s, d)
      else case bencode_decode data of
        None \<Rightarrow> (-1, [], s, d)
      | Some (msg, rest) \<Rightarrow>
          (case dict_string msg ''y'' of
             None \<Rightarrow> (-1, [], s, d)
           | Some y \<Rightarrow>
               if c_string y = str ''r'' then (case process_reply now ip port (msg_read_only msg) msg s of (rc, s1) \<Rightarrow> (rc, [], s1, d))
               else if c_string y = str ''q'' then process_query sd gh now ip port (msg_read_only msg) msg (s, d)
               else (0, [], s, d)))"

section \<open>The closest nodes are served\<close>

definition node_dist :: "bytes \<Rightarrow> mainline_node \<Rightarrow> nat" where
  "node_dist target n = xor_metric target (mn_id n)"

lemma select_best_min:
  assumes "\<forall>i \<in> set idx. length (mn_id (ns ! i)) = length target" "a < length idx"
  shows "a \<le> select_best target ns idx a \<and> select_best target ns idx a < length idx \<and>
    (\<forall>b. a \<le> b \<and> b < length idx \<longrightarrow> node_dist target (ns ! (idx ! select_best target ns idx a)) \<le> node_dist target (ns ! (idx ! b)))"
proof -
  let ?f = "\<lambda>b best. if look_closer target (mn_id (ns ! (idx ! b))) (mn_id (ns ! (idx ! best))) < 0 then b else best"
  have "a \<le> fold ?f [Suc a..<n] a \<and> fold ?f [Suc a..<n] a < n \<and>
    (\<forall>b. a \<le> b \<and> b < n \<longrightarrow> node_dist target (ns ! (idx ! fold ?f [Suc a..<n] a)) \<le> node_dist target (ns ! (idx ! b)))"
    if "a < n" "n \<le> length idx" for n
    using that
  proof (induction n)
    case (Suc n)
    show ?case
    proof (cases "a < n")
      case True
      let ?m = "fold ?f [Suc a..<n] a"
      have IH: "a \<le> ?m" "?m < n" "\<forall>b. a \<le> b \<and> b < n \<longrightarrow> node_dist target (ns ! (idx ! ?m)) \<le> node_dist target (ns ! (idx ! b))"
        using Suc.IH True Suc.prems by auto
      have l: "length (mn_id (ns ! (idx ! n))) = length target" "length (mn_id (ns ! (idx ! ?m))) = length target"
        using assms(1) IH(2) Suc.prems(2) by (simp_all add: nth_mem)
      have c: "look_closer target (mn_id (ns ! (idx ! n))) (mn_id (ns ! (idx ! ?m))) < 0 \<longleftrightarrow> node_dist target (ns ! (idx ! n)) < node_dist target (ns ! (idx ! ?m))"
        using look_closer_metric [OF refl l] by (simp add: node_dist_def)
      have f: "fold ?f [Suc a..<Suc n] a = (if node_dist target (ns ! (idx ! n)) < node_dist target (ns ! (idx ! ?m)) then n else ?m)"
        using True c by simp
      show ?thesis unfolding f using IH Suc.prems by (auto simp: less_Suc_eq)
    next
      case False
      then have "a = n" using Suc.prems(1) by simp
      then show ?thesis by (auto simp: le_less_Suc_eq)
    qed
  qed simp
  from this [OF assms(2) order_refl] show ?thesis by (simp add: select_best_def)
qed

definition selected :: "(nat \<Rightarrow> nat) \<Rightarrow> nat \<Rightarrow> nat list \<Rightarrow> bool" where
  "selected key a idx \<longleftrightarrow> (\<forall>i j. i < a \<and> i < j \<and> j < length idx \<longrightarrow> key (idx ! i) \<le> key (idx ! j))"

lemma selected_swap:
  assumes "selected key a idx" "a \<le> best" "best < length idx" "\<forall>b. a \<le> b \<and> b < length idx \<longrightarrow> key (idx ! best) \<le> key (idx ! b)"
  shows "selected key (Suc a) (idx[a := idx ! best, best := idx ! a])"
proof -
  let ?x = "idx[a := idx ! best, best := idx ! a]"
  have n: "?x ! i = (if i = best then idx ! a else if i = a then idx ! best else idx ! i)" if "i < length idx" for i
    using that assms(2,3) by (auto simp: nth_list_update)
  have s: "key (idx ! i) \<le> key (idx ! j)" if "i < a" "i < j" "j < length idx" for i j using assms(1) that by (auto simp: selected_def)
  have "key (?x ! i) \<le> key (?x ! j)" if ij: "i < Suc a" "i < j" "j < length idx" for i j
  proof (cases "i = a")
    case True
    then have "?x ! i = idx ! best" using n ij assms(2) by auto
    moreover obtain b where "?x ! j = idx ! b" "a \<le> b" "b < length idx" using n [OF ij(3)] ij True assms(2,3) by (auto split: if_splits intro: that)
    ultimately show ?thesis using assms(4) by simp
  next
    case False
    then have i: "i < a" "?x ! i = idx ! i" using n ij assms(2) by auto
    obtain b where "?x ! j = idx ! b" "i < b" "b < length idx" using n [OF ij(3)] ij i(1) assms(2,3) by (auto split: if_splits intro: that)
    then show ?thesis using s i by simp
  qed
  then show ?thesis by (simp add: selected_def)
qed

lemma select_from_spec:
  assumes "\<forall>i \<in> set idx. length (mn_id (ns ! i)) = length target" "selected (\<lambda>i. node_dist target (ns ! i)) a idx" "a + k \<le> length idx"
  shows "mset (select_from target ns k a idx) = mset idx \<and> selected (\<lambda>i. node_dist target (ns ! i)) (a + k) (select_from target ns k a idx)"
  using assms
proof (induction k arbitrary: a idx)
  case (Suc k)
  let ?b = "select_best target ns idx a"
  let ?x = "idx[a := idx ! ?b, ?b := idx ! a]"
  have b: "a \<le> ?b" "?b < length idx" "\<forall>b. a \<le> b \<and> b < length idx \<longrightarrow> node_dist target (ns ! (idx ! ?b)) \<le> node_dist target (ns ! (idx ! b))"
    using select_best_min [OF Suc.prems(1)] Suc.prems(3) by auto
  have m: "mset ?x = mset idx" using b Suc.prems(3) by (simp add: mset_swap)
  have "selected (\<lambda>i. node_dist target (ns ! i)) (Suc a) ?x" by (rule selected_swap [OF Suc.prems(2) b])
  moreover have "set ?x = set idx" using m by (rule mset_eq_setD)
  ultimately show ?case using Suc.IH [of ?x "Suc a"] Suc.prems m by (simp add: Let_def)
qed simp

lemma compact_nodes_concat:
  "\<forall>n \<in> set ns. length (mn_id n) = 20 \<Longrightarrow>
     compact_nodes (concat (map (\<lambda>n. mn_id n @ mem32 (mn_ip n) @ mem16 (mn_port n)) ns)) = map (\<lambda>n. (mn_id n, mn_ip n, mn_port n)) ns"
proof (induction ns)
  case (Cons n ns)
  then show ?case by (subst compact_nodes.simps) simp
qed (subst compact_nodes.simps, simp)

lemma closest_spec:
  assumes "\<forall>n \<in> set (ml_nodes s). length (mn_id n) = 20" "length target = 20"
  obtains near far where "mset (ml_nodes s) = mset near + mset far" "length near = min mx (length (ml_nodes s))"
    "sorted (map (node_dist target) near)" "\<forall>n \<in> set near. \<forall>m \<in> set far. node_dist target n \<le> node_dist target m"
    "serve_compact_closest s target mx = concat (map (\<lambda>n. mn_id n @ mem32 (mn_ip n) @ mem16 (mn_port n)) near)"
proof -
  let ?ns = "ml_nodes s" and ?m = "if mx > length (ml_nodes s) then length (ml_nodes s) else mx"
  let ?idx = "select_from target ?ns ?m 0 [0..<length ?ns]"
  have sp: "mset ?idx = mset [0..<length ?ns]" "selected (\<lambda>i. node_dist target (?ns ! i)) ?m ?idx"
    using select_from_spec [of "[0..<length ?ns]" ?ns target 0 ?m] assms by (auto simp: selected_def)
  have len: "length ?idx = length ?ns" using arg_cong [OF sp(1), of size] by simp
  let ?near = "map ((!) ?ns) (take ?m ?idx)" and ?far = "map ((!) ?ns) (drop ?m ?idx)"
  have "mset (map ((!) ?ns) ?idx) = mset (map ((!) ?ns) [0..<length ?ns])" using sp(1) by (simp only: mset_map)
  also have "\<dots> = mset ?ns" by (simp only: map_nth)
  finally have "mset ?near + mset ?far = mset ?ns" by (simp only: append_take_drop_id flip: mset_append map_append)
  moreover have "length ?near = min mx (length ?ns)" using len by simp
  moreover have "sorted (map (node_dist target) ?near)"
    using sp(2) len unfolding sorted_iff_nth_mono_less by (auto simp: selected_def)
  moreover have "\<forall>n \<in> set ?near. \<forall>m \<in> set ?far. node_dist target n \<le> node_dist target m"
  proof (intro ballI)
    fix n m assume "n \<in> set ?near" "m \<in> set ?far"
    then obtain i j where "i < ?m" "i < length ?idx" "n = ?ns ! (?idx ! i)" "?m + j < length ?idx" "m = ?ns ! (?idx ! (?m + j))"
      by (auto simp: in_set_conv_nth less_diff_conv add.commute)
    then show "node_dist target n \<le> node_dist target m" using sp(2) unfolding selected_def by (metis trans_less_add1)
  qed
  moreover have "serve_compact_closest s target mx = concat (map (\<lambda>n. mn_id n @ mem32 (mn_ip n) @ mem16 (mn_port n)) ?near)"
    by (simp add: serve_compact_closest_def Let_def o_def)
  ultimately show ?thesis using that [of ?near ?far] by (simp add: add.commute)
qed

section \<open>Invariant\<close>

definition peers_ok :: "served_hash \<Rightarrow> bool" where
  "peers_ok h \<longleftrightarrow> length (sh_info_hash h) = 20 \<and> length (sh_peers h) \<le> MAINLINE_SERVE_PEERS \<and> distinct (sh_peers h) \<and>
     (\<forall>(ip, port) \<in> set (sh_peers h). ip \<noteq> 0 \<and> port \<noteq> 0)"

definition announced_inv :: "served_hash list \<Rightarrow> bool" where
  "announced_inv hs \<longleftrightarrow> length hs \<le> MAINLINE_SERVE_HASHES \<and> distinct (map sh_info_hash hs) \<and> (\<forall>h \<in> set hs. peers_ok h)"

definition dhtnode_inv :: "mainline_state \<Rightarrow> bool" where
  "dhtnode_inv s \<longleftrightarrow> table_inv (ml_self_id s) (ml_nodes s) \<and> length (ml_self_id s) = 20 \<and>
     length (ml_transactions s) \<le> MAINLINE_MAX_TRANSACTIONS \<and> announced_inv (ml_served s) \<and> votes_inv (ml_net s)"

lemma store_peer_at_ok: "peers_ok h \<Longrightarrow> ip \<noteq> 0 \<Longrightarrow> port \<noteq> 0 \<Longrightarrow> peers_ok (store_peer_at ip port k h)"
proof -
  assume h: "peers_ok h" "ip \<noteq> 0" "port \<noteq> 0"
  have t: "set (tl (sh_peers h)) \<subseteq> set (sh_peers h)" "distinct (sh_peers h) \<Longrightarrow> distinct (tl (sh_peers h))" for h
    by (cases "sh_peers h"; auto)+
  show ?thesis
    using h t [of h] by (auto simp: peers_ok_def store_peer_at_def Let_def MAINLINE_SERVE_PEERS_def split: option.split)
qed

lemma store_peer_at_hash [simp]: "sh_info_hash (store_peer_at ip port k h) = sh_info_hash h"
  by (simp add: store_peer_at_def Let_def split: option.split)

lemma store_peer_at_mem: "(ip, port) \<in> set (sh_peers (store_peer_at ip port k h))"
  by (simp add: store_peer_at_def Let_def split: option.split)

text \<open>The slot of an info hash, made if needed.\<close>

definition hash_slot :: "bytes \<Rightarrow> served_hash list \<Rightarrow> nat \<times> served_hash list" where
  "hash_slot ih hs =
     (let blank = \<lparr>sh_info_hash = ih, sh_peers = [], sh_pubkey = None\<rparr> in
      case find_idx (\<lambda>h. sh_info_hash h = ih) hs of
        Some i \<Rightarrow> (i, hs)
      | None \<Rightarrow> if length hs < MAINLINE_SERVE_HASHES then (length hs, hs @ [blank]) else (0, hs[0 := blank]))"

lemma serve_store_peer_slot:
  "ip \<noteq> 0 \<Longrightarrow> port \<noteq> 0 \<Longrightarrow> hash_slot ih (ml_served s) = (i, hs) \<Longrightarrow>
     serve_store_peer ih ip port k s = s\<lparr>ml_served := hs[i := store_peer_at ip port k (hs ! i)]\<rparr>"
  by (simp add: serve_store_peer_def hash_slot_def Let_def split: option.splits if_splits)

lemma hash_slot_inv:
  assumes "announced_inv hs" "length ih = 20" "hash_slot ih hs = (i, hs')"
  shows "announced_inv hs' \<and> i < length hs' \<and> sh_info_hash (hs' ! i) = ih"
proof (cases "find_idx (\<lambda>h. sh_info_hash h = ih) hs")
  case (Some j)
  then show ?thesis
    using assms find_idx_less [OF Some] find_idx_holds [OF Some] by (simp add: hash_slot_def)
next
  case None
  then have new: "ih \<notin> sh_info_hash ` set hs" by auto
  let ?b = "\<lparr>sh_info_hash = ih, sh_peers = [], sh_pubkey = None\<rparr>"
  have b: "peers_ok ?b" using assms(2) by (simp add: peers_ok_def)
  show ?thesis
  proof (cases "length hs < MAINLINE_SERVE_HASHES")
    case True
    then have "hs' = hs @ [?b]" "i = length hs" using assms(3) None by (simp_all add: hash_slot_def Let_def del: find_idx_None_iff)
    then show ?thesis using assms(1) new b True by (auto simp: announced_inv_def)
  next
    case False
    then have e: "hs' = hs[0 := ?b]" "i = 0" using assms(3) None by (simp_all add: hash_slot_def Let_def del: find_idx_None_iff)
    have l: "0 < length hs" using False by (auto simp: MAINLINE_SERVE_HASHES_def)
    have "distinct (map sh_info_hash hs')" using assms(1) new by (auto simp: e map_update announced_inv_def intro!: distinct_list_update)
    moreover have "\<forall>h \<in> set hs'. peers_ok h" using assms(1) b by (auto simp: e announced_inv_def dest!: set_update_subset_insert [THEN subsetD])
    ultimately show ?thesis using assms(1) l by (simp add: e announced_inv_def)
  qed
qed

lemma serve_store_peer_inv:
  assumes "announced_inv (ml_served s)" "length ih = 20"
  shows "announced_inv (ml_served (serve_store_peer ih ip port k s)) \<and> serve_store_peer ih ip port k s = s\<lparr>ml_served := ml_served (serve_store_peer ih ip port k s)\<rparr>"
proof (cases "ip = 0 \<or> port = 0")
  case False
  obtain i hs where h: "hash_slot ih (ml_served s) = (i, hs)" by fastforce
  note hi = hash_slot_inv [OF assms h]
  have e: "serve_store_peer ih ip port k s = s\<lparr>ml_served := hs[i := store_peer_at ip port k (hs ! i)]\<rparr>"
    using False h by (intro serve_store_peer_slot) auto
  have "map sh_info_hash (hs[i := store_peer_at ip port k (hs ! i)]) = map sh_info_hash hs"
    using hi by (simp add: map_update list_update_same_conv)
  moreover have "\<forall>x \<in> set (hs[i := store_peer_at ip port k (hs ! i)]). peers_ok x"
    using hi False by (auto simp: announced_inv_def store_peer_at_ok dest!: set_update_subset_insert [THEN subsetD])
  ultimately show ?thesis using hi unfolding e announced_inv_def by simp
qed (use assms in \<open>simp add: serve_store_peer_def\<close>)

lemma dhtnode_inv_nodes: "dhtnode_inv s \<Longrightarrow> s' = s\<lparr>ml_nodes := ml_nodes s'\<rparr> \<Longrightarrow> table_inv (ml_self_id s) (ml_nodes s') \<Longrightarrow> dhtnode_inv s'"
proof -
  assume s: "dhtnode_inv s" "table_inv (ml_self_id s) (ml_nodes s')" and e: "s' = s\<lparr>ml_nodes := ml_nodes s'\<rparr>"
  have "dhtnode_inv (s\<lparr>ml_nodes := ml_nodes s'\<rparr>)" using s by (simp add: dhtnode_inv_def)
  then show "dhtnode_inv s'" by (subst e)
qed

lemma add_node_inv:
  assumes "dhtnode_inv s" "length nid = 20"
  shows "dhtnode_inv (snd (mainline_add_node now nid ip port s))"
proof -
  obtain rc s' where a: "mainline_add_node now nid ip port s = (rc, s')" by fastforce
  show ?thesis using dhtnode_inv_nodes [OF assms(1) mainline_add_node_frame [OF a]] table_inv_add [OF a] assms by (simp add: a dhtnode_inv_def)
qed

lemma update_info_inv:
  assumes "dhtnode_inv s"
  shows "dhtnode_inv (snd (mainline_update_node_info nid pv app k s))"
proof -
  obtain rc s' where u: "mainline_update_node_info nid pv app k s = (rc, s')" by fastforce
  show ?thesis
    using dhtnode_inv_nodes [OF assms] mainline_update_node_info_nodes [OF u, of "ml_self_id s"] assms by (simp add: u dhtnode_inv_def)
qed

lemma learn_sender_inv: "dhtnode_inv s \<Longrightarrow> dhtnode_inv (learn_sender now ip port msg d s)"
  using add_node_inv update_info_inv by (auto simp: learn_sender_def Let_def split: option.split)

lemma add_nodes_inv:
  "dhtnode_inv s \<Longrightarrow> (\<And>nid ip port. (nid, ip, port) \<in> set es \<Longrightarrow> length nid = 20) \<Longrightarrow>
     dhtnode_inv (foldl (\<lambda>s (nid, nip, nport). snd (mainline_add_node now nid nip nport s)) s es)"
proof (induction es arbitrary: s)
  case (Cons e es)
  obtain nid ip port where e: "e = (nid, ip, port)" by (cases e)
  have "dhtnode_inv (snd (mainline_add_node now nid ip port s))"
    by (rule add_node_inv [OF Cons.prems(1)], rule Cons.prems(2) [of nid ip port]) (simp add: e)
  moreover have "length nid = 20" if h: "(nid, ip, port) \<in> set es" for nid ip port
    by (rule Cons.prems(2) [of nid ip port]) (simp add: h)
  ultimately show ?case using Cons.IH by (simp add: e)
qed simp

lemma dhtnode_inv_less_tx: "dhtnode_inv s \<Longrightarrow> length ts \<le> length (ml_transactions s) \<Longrightarrow> dhtnode_inv (s\<lparr>ml_transactions := ts\<rparr>)"
  by (simp add: dhtnode_inv_def)

lemma vote_dhtnode_inv: "dhtnode_inv s \<Longrightarrow> dhtnode_inv (s\<lparr>ml_net := net_update_external_ip a b (ml_net s)\<rparr>)"
  using votes_inv_vote by (simp add: dhtnode_inv_def)

lemma add_compact_inv:
  assumes "dhtnode_inv s"
  shows "dhtnode_inv (foldl (\<lambda>s (nid, nip, nport). snd (mainline_add_node now nid nip nport s)) s (compact_nodes b))"
  by (rule add_nodes_inv [OF assms]) (rule compact_nodes_ids)

lemma accept_reply_inv:
  assumes "dhtnode_inv s"
  shows "dhtnode_inv (accept_reply now ip port ro msg r s)"
proof -
  define s1 where "s1 = (if ro then s else learn_sender now ip port msg r s)"
  define s2 where "s2 = (case dict_string msg ''ip'' of
      Some b \<Rightarrow> if length b \<ge> 6 then s1\<lparr>ml_net := net_update_external_ip (un_mem32 b) (ntohs (un_mem16 (drop 4 b))) (ml_net s1)\<rparr> else s1
    | None \<Rightarrow> s1)"
  have "dhtnode_inv s1" using assms learn_sender_inv by (simp add: s1_def)
  then have "dhtnode_inv s2" using vote_dhtnode_inv [of s1] by (simp add: s2_def split: option.split)
  then show ?thesis
    unfolding accept_reply_def Let_def s1_def [symmetric] s2_def [symmetric] using add_compact_inv by (simp split: option.split)
qed

lemma process_reply_inv:
  assumes "dhtnode_inv s"
  shows "dhtnode_inv (snd (process_reply now ip port ro msg s))"
proof -
  have "dhtnode_inv (s\<lparr>ml_transactions := take i (ml_transactions s) @ drop (Suc i) (ml_transactions s)\<rparr>)" for i
    by (rule dhtnode_inv_less_tx [OF assms]) simp
  then show ?thesis
    unfolding process_reply_def Let_def using assms accept_reply_inv
    by (simp del: find_idx_None_iff split: option.split bencode_value.split)
qed

lemma answer_announce_inv:
  assumes "dhtnode_inv s"
  shows "dhtnode_inv (answer_announce gh now ip port a s)"
proof -
  have "dhtnode_inv (serve_store_peer ih ip' port' k s)" if "length ih = 20" for ih ip' port' k
  proof -
    have e: "announced_inv (ml_served (serve_store_peer ih ip' port' k s))"
      "serve_store_peer ih ip' port' k s = s\<lparr>ml_served := ml_served (serve_store_peer ih ip' port' k s)\<rparr>"
      using serve_store_peer_inv [OF _ that, of s ip' port' k] assms by (auto simp: dhtnode_inv_def)
    have "dhtnode_inv (s\<lparr>ml_served := ml_served (serve_store_peer ih ip' port' k s)\<rparr>)" using assms e(1) by (simp add: dhtnode_inv_def)
    then show ?thesis by (subst e(2))
  qed
  then show ?thesis using assms by (simp add: answer_announce_def split: option.split)
qed

lemma get_ex_inv: "dht_inv sd d \<Longrightarrow> dht_inv sd (snd (dhtstore_get_ex now t vcap d))"
  using dht_step_inv [of sd d "DGet now t vcap"] by simp

lemma answer_get_inv:
  assumes "dht_inv sd d"
  shows "dht_inv sd (snd (answer_get gh now ip a s d))"
proof (cases "dict_string a ''target''")
  case (Some t)
  obtain r d1 where g: "dhtstore_get_ex now (take 20 t) DHTSTORE_VMAX d = (r, d1)" by fastforce
  have "dht_inv sd d1" using get_ex_inv [OF assms, of now "take 20 t" DHTSTORE_VMAX] by (simp add: g)
  then show ?thesis using assms Some g by (cases r) (auto simp: answer_get_def Let_def)
qed (use assms in \<open>simp add: answer_get_def\<close>)

lemma answer_put_inv: "dht_inv sd d \<Longrightarrow> dht_inv sd (answer_put sd gh now ip a s d)"
  using dht_step_inv [of sd d "DPut _ _ _ _ _ _ _ _"] dht_step_inv [of sd d "DPutImmutable _ _ _"]
  by (simp add: answer_put_def Let_def split: option.split bencode_value.split)

definition both_inv :: "sodium \<Rightarrow> mainline_state \<times> dhtstore \<Rightarrow> bool" where
  "both_inv sd st \<longleftrightarrow> dhtnode_inv (fst st) \<and> dht_inv sd (snd st)"

lemma answer_query_inv: "both_inv sd st \<Longrightarrow> both_inv sd (snd (answer_query sd gh now ip port q a st))"
  by (cases st) (simp add: both_inv_def answer_query_def case_prod_beta answer_announce_inv answer_get_inv answer_put_inv)

lemma process_query_inv:
  assumes "both_inv sd st"
  shows "both_inv sd (snd (snd (process_query sd gh now ip port ro msg st)))"
proof -
  have l: "both_inv sd (learn_sender now ip port msg a (fst st), snd st)" for a
    using assms learn_sender_inv by (simp add: both_inv_def)
  show ?thesis
    using assms l answer_query_inv [OF l] answer_query_inv [OF assms]
    by (cases ro) (simp_all add: process_query_def Let_def case_prod_beta split: option.split bencode_value.split)
qed

lemma process_packet_inv:
  assumes "both_inv sd st"
  shows "both_inv sd (snd (snd (mainline_process_packet sd gh now p st)))"
proof -
  have "both_inv sd (snd (process_reply now ip port ro msg (fst st)), snd st)" for ip port ro msg
    using assms process_reply_inv by (simp add: both_inv_def)
  then show ?thesis
    using assms process_query_inv [OF assms] by (simp add: mainline_process_packet_def Let_def case_prod_beta split: option.split)
qed

section \<open>Runs of a node\<close>

text \<open>The events of a node after its start: packets, queries, timers, files and settings.\<close>

datatype dhtnode_event =
    Packet int datagram
  | Find int bytes u32 u16 bool
  | Crawl int bool
  | Bootstrap int bool
  | Expire int
  | Evict int int
  | Load int bytes
  | Private bool
  | Read_only bool
  | Add_bootstrap u32 u16

inductive dhtnode_step ::
  "sodium \<Rightarrow> keyed_hash \<Rightarrow> (string \<Rightarrow> u32) \<Rightarrow> mainline_state \<times> dhtstore \<Rightarrow> dhtnode_event \<Rightarrow> mainline_state \<times> dhtstore \<Rightarrow> bool"
  for sd gh res where
  packet: "mainline_process_packet sd gh now p (s, d) = (rc, out, s', d') \<Longrightarrow> dhtnode_step sd gh res (s, d) (Packet now p) (s', d')"
| find: "mainline_find_node (\<lambda>_. ok) now target ip port s = (rc, q, s') \<Longrightarrow> dhtnode_step sd gh res (s, d) (Find now target ip port ok) (s', d)"
| crawl: "mainline_crawl_network (\<lambda>_. ok) now s = (qs, s') \<Longrightarrow> dhtnode_step sd gh res (s, d) (Crawl now ok) (s', d)"
| bootstrap: "mainline_bootstrap (\<lambda>_. ok) res now s = (rc, qs, s') \<Longrightarrow> dhtnode_step sd gh res (s, d) (Bootstrap now ok) (s', d)"
| expire_tx: "dhtnode_step sd gh res (s, d) (Expire now) (mainline_process_transactions now s, d)"
| evict: "mainline_evict_stale now max_age s = (k, s') \<Longrightarrow> dhtnode_step sd gh res (s, d) (Evict now max_age) (s', d)"
| load: "mainline_load_nodes now b s = (rc, s') \<Longrightarrow> dhtnode_step sd gh res (s, d) (Load now b) (s', d)"
| go_private: "dhtnode_step sd gh res (s, d) (Private b) (mainline_set_private b s, d)"
| go_read_only: "dhtnode_step sd gh res (s, d) (Read_only b) (mainline_set_read_only b s, d)"
| add_bootstrap: "dhtnode_step sd gh res (s, d) (Add_bootstrap ip port) (mainline_add_bootstrap ip port s, d)"

inductive dhtnode_run ::
  "sodium \<Rightarrow> keyed_hash \<Rightarrow> (string \<Rightarrow> u32) \<Rightarrow> bytes \<Rightarrow> dhtnode_event list \<Rightarrow> mainline_state \<times> dhtstore \<Rightarrow> bool"
  for sd gh res self where
  start: "dhtnode_run sd gh res self [] (mainline_init net_zero self secret rnd, dhtstore_init ram mb client)"
| step: "dhtnode_run sd gh res self es st \<Longrightarrow> dhtnode_step sd gh res st e st' \<Longrightarrow> dhtnode_run sd gh res self (es @ [e]) st'"

inductive_simps dhtnode_step_packet: "dhtnode_step sd gh res st (Packet now p) st'"
inductive_simps dhtnode_step_find: "dhtnode_step sd gh res st (Find now target ip port ok) st'"

lemma dhtnode_inv_tx:
  assumes "dhtnode_inv s" "s' = s\<lparr>ml_transactions := ml_transactions s', ml_next_tid := ml_next_tid s'\<rparr>" "length (ml_transactions s') \<le> MAINLINE_MAX_TRANSACTIONS"
  shows "dhtnode_inv s'"
proof -
  have "dhtnode_inv (s\<lparr>ml_transactions := ml_transactions s', ml_next_tid := ml_next_tid s'\<rparr>)" using assms(1,3) by (simp add: dhtnode_inv_def)
  then show ?thesis by (subst assms(2))
qed

lemma dhtnode_inv_find: "dhtnode_inv s \<Longrightarrow> mainline_find_node sent now target ip port s = (rc, q, s') \<Longrightarrow> dhtnode_inv s'"
  using find_node_frame [of sent now target ip port s rc q s'] dhtnode_inv_tx [of s s'] by (simp add: dhtnode_inv_def)

lemma dhtnode_inv_find_all: "dhtnode_inv s \<Longrightarrow> find_self_all sent now es s = (qs, s') \<Longrightarrow> dhtnode_inv s'"
  using find_self_all_frame [of sent now es s qs s'] dhtnode_inv_tx [of s s'] by (simp add: dhtnode_inv_def)

lemma dhtnode_step_inv:
  assumes "dhtnode_step sd gh res st e st'" "both_inv sd st"
  shows "both_inv sd st'"
  using assms(1)
proof (cases rule: dhtnode_step.cases)
  case (packet now p s d rc out s' d')
  then show ?thesis using process_packet_inv [OF assms(2), of gh now p] by simp
next
  case (find ok now target ip port s rc q s' d)
  then show ?thesis using assms(2) dhtnode_inv_find [OF _ find(4)] by (simp add: both_inv_def)
next
  case (crawl ok now s qs s' d)
  then show ?thesis using assms(2) dhtnode_inv_find_all [OF _ crawl(4) [unfolded mainline_crawl_network_def]] by (simp add: both_inv_def)
next
  case (bootstrap ok now s rc qs s' d)
  then obtain es s1 where f: "find_self_all (\<lambda>_. ok) now es s = (qs, s1)" "s' = s1\<lparr>ml_last_bootstrap := now\<rparr>"
    by (auto simp: mainline_bootstrap_def split: prod.splits)
  have "dhtnode_inv s1" using dhtnode_inv_find_all [OF _ f(1)] bootstrap assms(2) by (simp add: both_inv_def)
  then have "dhtnode_inv s'" by (simp add: f(2) dhtnode_inv_def)
  then show ?thesis using bootstrap assms(2) by (simp add: both_inv_def)
next
  case (expire_tx s d now)
  then show ?thesis using assms(2) dhtnode_inv_less_tx [of s] by (simp add: process_transactions_eq both_inv_def)
next
  case (evict now max_age s k s' d)
  have "dhtnode_inv s" using evict assms(2) by (simp add: both_inv_def)
  then have "dhtnode_inv s'"
    using dhtnode_inv_nodes [OF _ evict_stale_spec(1) [OF evict(4)]] table_inv_subseq [OF evict_stale_spec(2) [OF evict(4)]] by (simp add: dhtnode_inv_def)
  then show ?thesis using evict assms(2) by (simp add: both_inv_def)
next
  case (load now b s rc s' d)
  have "dhtnode_inv s" using load assms(2) by (simp add: both_inv_def)
  then have "dhtnode_inv s'" using dhtnode_inv_nodes [of s s'] mainline_load_nodes_inv [OF load(4)] by (simp add: dhtnode_inv_def)
  then show ?thesis using load assms(2) by (simp add: both_inv_def)
qed (use assms(2) in \<open>auto simp: both_inv_def dhtnode_inv_def mainline_set_private_def mainline_set_read_only_def mainline_add_bootstrap_def\<close>)

lemma dhtnode_run_inv: "dhtnode_run sd gh res self es st \<Longrightarrow> length self \<ge> 20 \<Longrightarrow> both_inv sd st"
proof (induction rule: dhtnode_run.induct)
  case (start secret rnd ram mb client)
  then show ?case by (simp add: both_inv_def dhtnode_inv_def mainline_init_def table_inv_def announced_inv_def votes_inv_zero dht_init_inv)
next
  case (step es st e st')
  then show ?case using dhtnode_step_inv by blast
qed

section \<open>Replies, tokens and announced peers\<close>

lemma decode_Nil: "bencode_decode [] = None"
  by (simp add: bencode_decode_def)

lemma process_packet_reply:
  assumes "bencode_decode data = Some (msg, rest)" "dict_string msg ''y'' = Some y" "c_string y = str ''r''"
  shows "mainline_process_packet sd gh now (ip, port, data) (s, d) =
    (case process_reply now ip port (msg_read_only msg) msg s of (rc, s1) \<Rightarrow> (rc, [], s1, d))"
  using assms decode_Nil by (auto simp: mainline_process_packet_def)

lemma process_packet_query:
  assumes "bencode_decode data = Some (msg, rest)" "dict_string msg ''y'' = Some y" "c_string y = str ''q''"
  shows "mainline_process_packet sd gh now (ip, port, data) (s, d) = process_query sd gh now ip port (msg_read_only msg) msg (s, d)"
  using assms decode_Nil by (auto simp: mainline_process_packet_def)

text \<open>A query of a node that serves: the sender is learned first, then the query answered.\<close>

lemma process_query_eq:
  assumes "dict_string msg ''q'' = Some q" "bencode_dict_get msg (str ''a'') = Some (BENCODE_DICT kvs)" "\<not> ml_read_only s"
    "s1 = (if ro then s else learn_sender now ip port msg (BENCODE_DICT kvs) s)"
  shows "process_query sd gh now ip port ro msg (s, d) =
    (case dict_string msg ''t'' of None \<Rightarrow> (-1, [], s1, d)
     | Some t \<Rightarrow> (case answer_query sd gh now ip port q (BENCODE_DICT kvs) (s1, d) of
         (ans, s2, d2) \<Rightarrow> (0, [(ip, port, bencode_encode (reply_message s2 ip port t ans))], s2, d2)))"
  unfolding assms(4) using assms(1-3) by (simp add: process_query_def Let_def)

lemma snd_add_node_frame: "snd (mainline_add_node now nid ip port s) = s\<lparr>ml_nodes := ml_nodes (snd (mainline_add_node now nid ip port s))\<rparr>"
  using mainline_add_node_frame [of now nid ip port s] by (cases "mainline_add_node now nid ip port s") simp

lemma snd_update_info_frame:
  "snd (mainline_update_node_info nid pv app k s) = s\<lparr>ml_nodes := ml_nodes (snd (mainline_update_node_info nid pv app k s))\<rparr>"
  using mainline_update_node_info_nodes [of nid pv app k s] by (cases "mainline_update_node_info nid pv app k s") simp

definition same_but_nodes :: "mainline_state \<Rightarrow> mainline_state \<Rightarrow> bool" where
  "same_but_nodes s s' \<longleftrightarrow> s' = s\<lparr>ml_nodes := ml_nodes s'\<rparr>"

lemma same_but_nodes_refl: "same_but_nodes s s"
  by (simp add: same_but_nodes_def)

lemma same_but_nodes_trans: "same_but_nodes s s' \<Longrightarrow> same_but_nodes s' s'' \<Longrightarrow> same_but_nodes s s''"
  by (cases s, cases s', cases s'') (simp add: same_but_nodes_def)

lemma same_but_nodes_add: "same_but_nodes s (snd (mainline_add_node now nid ip port s))"
  unfolding same_but_nodes_def by (rule snd_add_node_frame)

lemma same_but_nodes_info: "same_but_nodes s (snd (mainline_update_node_info nid pv app k s))"
  unfolding same_but_nodes_def by (rule snd_update_info_frame)

lemma same_but_nodes_fields:
  assumes "same_but_nodes s s'"
  shows "ml_transactions s' = ml_transactions s" "ml_served s' = ml_served s" "ml_token_secret s' = ml_token_secret s" "ml_net s' = ml_net s"
  using assms by (cases s, cases s', simp add: same_but_nodes_def)+

lemma same_but_nodes_learn: "same_but_nodes s (learn_sender now ip port msg d s)"
  using same_but_nodes_refl same_but_nodes_add same_but_nodes_trans [OF same_but_nodes_add same_but_nodes_info]
  by (simp add: learn_sender_def Let_def split: option.split)

lemma same_but_nodes_adds: "same_but_nodes s (foldl (\<lambda>s (nid, nip, nport). snd (mainline_add_node now nid nip nport s)) s es)"
proof (induction es arbitrary: s)
  case (Cons e es)
  obtain nid ip port where e: "e = (nid, ip, port)" by (cases e)
  show ?case using same_but_nodes_trans [OF same_but_nodes_add Cons.IH] by (simp add: e)
qed (simp add: same_but_nodes_refl)

lemma accept_reply_tx [simp]: "ml_transactions (accept_reply now ip port ro msg r s) = ml_transactions s"
  using same_but_nodes_fields(1) [OF same_but_nodes_adds] same_but_nodes_fields(1) [OF same_but_nodes_learn]
  by (simp add: accept_reply_def Let_def split: option.split)

text \<open>A packet casts at most one vote on the node's address, and nothing else does.\<close>

definition one_vote :: "mainline_state \<Rightarrow> mainline_state \<Rightarrow> bool" where
  "one_vote s s' \<longleftrightarrow> ml_net s' = ml_net s \<or> (\<exists>ip port. ml_net s' = net_update_external_ip ip port (ml_net s))"

lemma accept_reply_vote: "one_vote s (accept_reply now ip port ro msg r s)"
  using same_but_nodes_fields(4) [OF same_but_nodes_adds] same_but_nodes_fields(4) [OF same_but_nodes_learn]
  by (auto simp: one_vote_def accept_reply_def Let_def split: option.split)

lemma process_reply_vote: "one_vote s (snd (process_reply now ip port ro msg s))"
proof -
  have "one_vote s (accept_reply now ip port ro msg r (s\<lparr>ml_transactions := ts\<rparr>))" for r ts
    using accept_reply_vote [of "s\<lparr>ml_transactions := ts\<rparr>"] by (simp add: one_vote_def)
  moreover have "one_vote s (s\<lparr>ml_transactions := ts\<rparr>)" "one_vote s s" for ts by (simp_all add: one_vote_def)
  ultimately show ?thesis
    by (simp add: process_reply_def Let_def del: find_idx_None_iff split: option.split bencode_value.split)
qed

lemma answer_query_net: "ml_net (fst (snd (answer_query sd gh now ip port q a st))) = ml_net (fst st)"
proof -
  have "ml_net (serve_store_peer ih ip' port' k s) = ml_net s" for ih ip' port' k s
    by (simp add: serve_store_peer_def case_prod_beta Let_def)
  then have "ml_net (answer_announce gh now ip port a s) = ml_net s" for s by (simp add: answer_announce_def split: option.split)
  then show ?thesis by (cases st) (simp add: answer_query_def case_prod_beta)
qed

lemma process_query_net: "ml_net (fst (snd (snd (process_query sd gh now ip port ro msg st)))) = ml_net (fst st)"
  using same_but_nodes_fields(4) [OF same_but_nodes_learn] answer_query_net
  by (cases st) (simp add: process_query_def Let_def case_prod_beta split: option.split bencode_value.split)

lemma process_packet_vote:
  assumes "mainline_process_packet sd gh now p (s, d) = (rc, out, s', d')"
  shows "one_vote s s'"
proof -
  have q: "one_vote s (fst (snd (snd (process_query sd gh now ip port ro msg (s, d)))))" for ip port ro msg
    using process_query_net [of sd gh now ip port ro msg "(s, d)"] by (simp add: one_vote_def)
  have "one_vote s (fst (snd (snd (mainline_process_packet sd gh now p (s, d)))))"
    using q process_reply_vote
    by (simp add: mainline_process_packet_def Let_def case_prod_beta one_vote_def [of s s] split: option.split)
  then show ?thesis by (simp add: assms)
qed

lemma dhtnode_step_vote:
  assumes "dhtnode_step sd gh res st e st'"
  shows "one_vote (fst st) (fst st')"
  using assms
proof (cases rule: dhtnode_step.cases)
  case (packet now p s d rc out s' d')
  then show ?thesis using process_packet_vote by simp
next
  case (find ok now target ip port s rc q s' d)
  then show ?thesis using find_node_frame [OF find(4)] by (cases s, cases s') (simp add: one_vote_def)
next
  case (crawl ok now s qs s' d)
  then show ?thesis using find_self_all_frame [OF crawl(4) [unfolded mainline_crawl_network_def]] by (cases s, cases s') (simp add: one_vote_def)
next
  case (bootstrap ok now s rc qs s' d)
  then obtain es s1 where f: "find_self_all (\<lambda>_. ok) now es s = (qs, s1)" "s' = s1\<lparr>ml_last_bootstrap := now\<rparr>"
    by (auto simp: mainline_bootstrap_def split: prod.splits)
  have "ml_net s1 = ml_net s" using find_self_all_frame [OF f(1)] by (cases s, cases s1) simp
  then show ?thesis using bootstrap f(2) by (simp add: one_vote_def)
next
  case (evict now max_age s k s' d)
  then show ?thesis using evict_stale_spec(1) [OF evict(4)] by (cases s, cases s') (simp add: one_vote_def)
next
  case (load now b s rc s' d)
  then show ?thesis using mainline_load_nodes_inv [OF load(4)] by (cases s, cases s') (simp add: one_vote_def)
qed (auto simp: one_vote_def mainline_set_private_def mainline_set_read_only_def mainline_add_bootstrap_def process_transactions_eq)

lemma dhtnode_run_fault:
  "dhtnode_run sd gh res self es st \<Longrightarrow> tally (ml_net (fst st)) \<le> length es \<and> (length es \<le> INT_MAX \<longrightarrow> \<not> net_fault (ml_net (fst st)))"
proof (induction rule: dhtnode_run.induct)
  case (start secret rnd ram mb client)
  then show ?case by (simp add: mainline_init_def tally_def net_zero_def)
next
  case (step es st e st')
  let ?n = "ml_net (fst st)" and ?n' = "ml_net (fst st')"
  have IH: "tally ?n \<le> length es" "length es \<le> INT_MAX \<Longrightarrow> \<not> net_fault ?n" using step.IH by blast+
  show ?case
  proof (cases "?n' = ?n")
    case True
    then show ?thesis using IH by simp
  next
    case False
    then obtain ip port where v: "?n' = net_update_external_ip ip port ?n" using dhtnode_step_vote [OF step(2)] by (auto simp: one_vote_def)
    have "tally ?n' \<le> Suc (length es)" using net_update_tally [of ip port ?n] IH(1) unfolding v by linarith
    moreover have "\<not> net_fault ?n'" if "Suc (length es) \<le> INT_MAX"
      using net_update_fault [of ip port ?n] IH that unfolding v by auto
    ultimately show ?thesis by simp
  qed
qed

lemma process_reply_used:
  assumes "dict_string msg ''t'' = Some t" "distinct (map mt_id (ml_transactions s))"
  shows "decode_transaction_id t \<notin> mt_id ` set (ml_transactions (snd (process_reply now ip port ro msg s)))"
proof (cases "find_idx (\<lambda>x. mt_id x = decode_transaction_id t) (ml_transactions s)")
  case None
  then have "decode_transaction_id t \<notin> mt_id ` set (ml_transactions s)" by auto
  then show ?thesis using assms(1) None by (simp add: process_reply_def del: find_idx_None_iff)
next
  case (Some i)
  let ?ts = "ml_transactions s"
  have i: "i < length ?ts" "mt_id (?ts ! i) = decode_transaction_id t" using find_idx_SomeD [OF Some] by auto
  have "distinct (map mt_id (take i ?ts @ ?ts ! i # drop (Suc i) ?ts))" using assms(2) i(1) by (simp only: id_take_nth_drop [symmetric])
  then have "mt_id (?ts ! i) \<notin> mt_id ` set (take i ?ts @ drop (Suc i) ?ts)" by auto
  then show ?thesis using assms(1) Some i(2) by (simp add: process_reply_def Let_def split: option.split bencode_value.split)
qed

lemma process_reply_unknown:
  "dict_string msg ''t'' = Some t \<Longrightarrow> decode_transaction_id t \<notin> mt_id ` set (ml_transactions s) \<Longrightarrow> process_reply now ip port ro msg s = (-1, s)"
proof -
  assume t: "dict_string msg ''t'' = Some t" "decode_transaction_id t \<notin> mt_id ` set (ml_transactions s)"
  then have "find_idx (\<lambda>x. mt_id x = decode_transaction_id t) (ml_transactions s) = None" by (auto simp: image_iff)
  then show ?thesis using t(1) by (simp add: process_reply_def del: find_idx_None_iff)
qed

lemma serve_token_accepted:
  assumes "\<forall>m k. length (gh m k) = 16" "ml_token_secret s' = ml_token_secret s"
    "now div TOKEN_EPOCH = t0 div TOKEN_EPOCH \<or> now div TOKEN_EPOCH = t0 div TOKEN_EPOCH + 1"
  shows "serve_token_valid gh now s' ip (serve_token gh t0 s ip)"
  using assms by (auto simp: serve_token_valid_def serve_token_def serve_token_ep_def Let_def)

lemma announce_port_nonzero: "port \<noteq> 0 \<Longrightarrow> announce_port port a \<noteq> 0"
proof -
  assume p: "port \<noteq> 0"
  have "(word_of_int n :: u16) \<noteq> 0" if "0 < n" "n \<le> 65535" for n
  proof
    assume "(word_of_int n :: u16) = 0"
    then have "uint (word_of_int n :: u16) = 0" by simp
    then show False using that by (simp add: uint_word_of_int)
  qed
  then show ?thesis using p by (simp add: announce_port_def split: option.split bencode_value.split)
qed

lemma serve_values_stored:
  assumes "announced_inv (ml_served s)" "length ih = 20" "ip \<noteq> 0" "port \<noteq> 0"
  shows "\<exists>vs. serve_values (serve_store_peer ih ip port k s) ih = Some (BENCODE_LIST vs) \<and> bencode_string_new (compact_peer (ip, port)) \<in> set vs"
proof -
  obtain i hs where h: "hash_slot ih (ml_served s) = (i, hs)" by fastforce
  note hi = hash_slot_inv [OF assms(1,2) h]
  define s' where "s' = serve_store_peer ih ip port k s"
  define hs' where "hs' = hs[i := store_peer_at ip port k (hs ! i)]"
  have s': "ml_served s' = hs'" using serve_store_peer_slot [OF assms(3,4) h] by (simp add: s'_def hs'_def)
  have d: "distinct (map sh_info_hash hs')" using hi by (auto simp: hs'_def map_update list_update_same_conv [THEN iffD2] announced_inv_def)
  have at: "i < length hs'" "sh_info_hash (hs' ! i) = ih" "(ip, port) \<in> set (sh_peers (hs' ! i))"
    using hi store_peer_at_mem by (auto simp: hs'_def)
  obtain j where j: "find_idx (\<lambda>h. sh_info_hash h = ih \<and> sh_peers h \<noteq> []) hs' = Some j"
    using find_idx_exists [of "hs' ! i" hs' "\<lambda>h. sh_info_hash h = ih \<and> sh_peers h \<noteq> []"] at by (metis empty_iff empty_set nth_mem)
  have "map sh_info_hash hs' ! j = map sh_info_hash hs' ! i" using find_idx_SomeD [OF j] at by simp
  then have ji: "j = i" using nth_eq_iff_index_eq [OF d, of j i] at(1) find_idx_less [OF j] by simp
  have j': "find_idx (\<lambda>h. sh_info_hash h = ih \<and> sh_peers h \<noteq> []) hs' = Some i" using j by (simp only: ji)
  have "\<exists>own. serve_values s' ih = (if own @ sh_peers (hs' ! i) = [] then None
      else Some (BENCODE_LIST (map (\<lambda>e. bencode_string_new (compact_peer e)) (own @ sh_peers (hs' ! i)))))"
    unfolding serve_values_def Let_def s' j' option.case by (rule exI, rule refl)
  then obtain own where v: "serve_values s' ih = (if own @ sh_peers (hs' ! i) = [] then None
      else Some (BENCODE_LIST (map (\<lambda>e. bencode_string_new (compact_peer e)) (own @ sh_peers (hs' ! i)))))" by blast
  have "own @ sh_peers (hs' ! i) \<noteq> []" using at(3) by auto
  then show ?thesis using at(3) v unfolding s'_def by auto
qed

section \<open>Properties\<close>

text \<open>C18: Whatever packets arrive and whatever the node does between them, from its start on: its
  routing table has at most its capacity of nodes, with distinct ids of 20 bytes that are not its own
  and usable addresses; the outstanding transactions, the announced peers and the votes on its
  address stay within their bounds, with distinct info hashes and peers; and the item store keeps its
  own invariant, so every item it serves is still authentic. No vote counter overflows in the first
  2147483647 of these events.\<close>

theorem mainline_node_invariant:
  assumes "dhtnode_run sd gh res self es (s, d)" "length self \<ge> 20"
  shows "dhtnode_inv s \<and> dht_inv sd d \<and> (length es < 2 ^ 31 \<longrightarrow> \<not> net_fault (ml_net s))"
  using dhtnode_run_inv [OF assms] dhtnode_run_fault [OF assms(1)] by (simp add: both_inv_def INT_MAX_def)

text \<open>A node that has sent a query and receives the reply: it learns the sender and counts a vote.\<close>

definition demo_hello :: bencode_value where
  "demo_hello = BENCODE_DICT [(str ''ip'', BENCODE_STRING [1, 2, 3, 4, 0, 80]), (str ''r'', BENCODE_DICT [(str ''id'', BENCODE_STRING (replicate 20 7))]),
     (str ''t'', BENCODE_STRING [0, 0, 0, 5]), (str ''y'', BENCODE_STRING (str ''r''))]"

lemma demo_hello_facts:
  "bencode_decode (bencode_encode demo_hello) = Some (demo_hello, [])"
  "dict_string demo_hello ''y'' = Some (str ''r'')" "c_string (str ''r'') = str ''r''" "dict_string demo_hello ''t'' = Some [0, 0, 0, 5]"
  "dict_string demo_hello ''ip'' = Some [1, 2, 3, 4, 0, 80]" "msg_read_only demo_hello = False" "dict_string demo_hello ''v'' = None"
  "bencode_dict_get demo_hello (str ''r'') = Some (BENCODE_DICT [(str ''id'', BENCODE_STRING (replicate 20 7))])"
  using bencode_round_trip [of demo_hello "[]"]
  by (simp_all add: demo_hello_def dict_string_def c_string_str no_nul_def BENCODE_MAX_DEPTH_def msg_read_only_def)

theorem mainline_node_invariant_witness:
  "\<exists>s d. dhtnode_run toy_sodium (\<lambda>_ _. []) (\<lambda>_. 0) (replicate 20 1)
      [Find 1 (replicate 20 0) 9 80 True, Packet 2 (9, 80, bencode_encode demo_hello)] (s, d) \<and>
    map mn_id (ml_nodes s) = [replicate 20 7] \<and> length (ext_votes (ml_net s)) = 1 \<and> dhtnode_inv s \<and> dht_inv toy_sodium d \<and> \<not> net_fault (ml_net s)"
proof -
  let ?d = "dhtstore_init 0 0 False" and ?s0 = "mainline_init net_zero (replicate 20 1) [] 5"
  let ?s1 = "?s0\<lparr>ml_transactions := [\<lparr>mt_id = 5, mt_created = 1, mt_target = replicate 20 0 @ replicate 12 0\<rparr>], ml_next_tid := 6\<rparr>"
  let ?r = "BENCODE_DICT [(str ''id'', BENCODE_STRING (replicate 20 7))]"
  define s2 where "s2 = accept_reply 2 9 80 False demo_hello ?r (?s1\<lparr>ml_transactions := []\<rparr>)"
  note f = demo_hello_facts
  have r: "dict_string ?r ''id'' = Some (replicate 20 7)" "dict_string ?r ''nodes'' = None" "dict_string ?r ''pv'' = None" "dict_string ?r ''app'' = None"
    "dict_string ?r ''pk'' = None" by (simp_all add: dict_string_def c_string_str no_nul_def)
  have "mainline_find_node (\<lambda>_. True) 1 (replicate 20 0) 9 80 ?s0 = (0, (9, 80, find_node_query (replicate 20 0) ?s0), ?s1)"
    by (simp add: mainline_find_node_def mainline_init_def MAINLINE_MAX_TRANSACTIONS_def Let_def)
  note run1 = dhtnode_run.step [OF dhtnode_run.start dhtnode_step.find [OF this]]
  have "mainline_process_packet toy_sodium (\<lambda>_ _. []) 2 (9, 80, bencode_encode demo_hello) (?s1, ?d) = (0, [], s2, ?d)"
    unfolding process_packet_reply [OF f(1-3)] by (simp add: process_reply_def f decode_transaction_id_def un_be32_def s2_def Let_def)
  then have run: "dhtnode_run toy_sodium (\<lambda>_ _. []) (\<lambda>_. 0) (replicate 20 1)
      [Find 1 (replicate 20 0) 9 80 True, Packet 2 (9, 80, bencode_encode demo_hello)] (s2, ?d)"
    using dhtnode_run.step [OF run1 dhtnode_step.packet] by fastforce
  have h: "htons 80 \<noteq> 0" by (simp add: htons_def un_mem16_def be16_def)
  have "learn_sender 2 9 80 demo_hello ?r (?s1\<lparr>ml_transactions := []\<rparr>) =
      ?s1\<lparr>ml_transactions := [], ml_nodes := [new_node 2 (replicate 20 7) 9 (htons 80)]\<rparr>"
    by (simp add: learn_sender_def r f short_field_def c_string_def Let_def h mainline_add_node_append mainline_init_def subnet_count_def
        MAINLINE_MAX_PER_SUBNET_def MAINLINE_MAX_NODES_def)
  moreover have "(un_mem32 [1, 2, 3, 4, 0, 80] :: u32) \<noteq> 0" by (simp add: un_mem32_def)
  ultimately have "ml_nodes s2 = [new_node 2 (replicate 20 7) 9 (htons 80)]" "length (ext_votes (ml_net s2)) = 1"
    unfolding s2_def accept_reply_def by (simp_all add: r f Let_def mainline_init_def net_zero_def vote_add_def EXT_MAX_VOTES_def)
  then show ?thesis using run mainline_node_invariant [OF run] by (intro exI [of _ s2] exI [of _ ?d]) (simp add: new_node_def)
qed

text \<open>C19: A find_node query is answered with the nearest known nodes: as many as eight or the whole
  table, nearest first by XOR distance to the target, none of the nodes left out nearer than one of
  those sent; and what the receiver parses from the compact form is their ids, addresses and ports.\<close>

theorem find_node_answer_nearest:
  assumes "table_inv (ml_self_id s) (ml_nodes s)" "dict_string a ''target'' = Some t" "length t = 20"
  shows "\<exists>near far b. answer_find_node a s = [(''nodes'', BENCODE_STRING b)] \<and>
     compact_nodes b = map (\<lambda>n. (mn_id n, mn_ip n, mn_port n)) near \<and>
     mset (ml_nodes s) = mset near + mset far \<and> length near = min 8 (length (ml_nodes s)) \<and>
     sorted (map (node_dist t) near) \<and> (\<forall>n \<in> set near. \<forall>m \<in> set far. node_dist t n \<le> node_dist t m)"
proof -
  have ids: "\<forall>n \<in> set (ml_nodes s). length (mn_id n) = 20" using assms(1) by (simp add: table_inv_def)
  obtain near far where c: "mset (ml_nodes s) = mset near + mset far" "length near = min 8 (length (ml_nodes s))"
    "sorted (map (node_dist t) near)" "\<forall>n \<in> set near. \<forall>m \<in> set far. node_dist t n \<le> node_dist t m"
    "serve_compact_closest s t 8 = concat (map (\<lambda>n. mn_id n @ mem32 (mn_ip n) @ mem16 (mn_port n)) near)"
    using closest_spec [OF ids assms(3), where mx = 8] by blast
  have "set near \<subseteq> set (ml_nodes s)" using mset_eq_setD [of "ml_nodes s" "near @ far"] c(1) by auto
  then have "compact_nodes (serve_compact_closest s t 8) = map (\<lambda>n. (mn_id n, mn_ip n, mn_port n)) near"
    unfolding c(5) using ids by (intro compact_nodes_concat) auto
  moreover have "answer_find_node a s = [(''nodes'', BENCODE_STRING (serve_compact_closest s t 8))]"
    using assms(2,3) by (simp add: answer_find_node_def closest_entry_def bencode_string_new_def)
  ultimately show ?thesis using c by blast
qed

definition demo_target :: bencode_value where
  "demo_target = BENCODE_DICT [(str ''target'', BENCODE_STRING (replicate 20 0))]"

theorem find_node_answer_nearest_witness:
  "\<exists>b. answer_find_node demo_target demo_mainline = [(''nodes'', BENCODE_STRING b)] \<and> compact_nodes b = [(replicate 20 7, 9, 80)]"
proof -
  have t: "table_inv (ml_self_id demo_mainline) (ml_nodes demo_mainline)"
    unfolding demo_mainline_fields by (simp add: table_inv_def new_node_def MAINLINE_MAX_NODES_def)
  have d: "dict_string demo_target ''target'' = Some (replicate 20 0)"
    by (simp add: demo_target_def dict_string_def c_string_str no_nul_def)
  obtain near far b where n: "answer_find_node demo_target demo_mainline = [(''nodes'', BENCODE_STRING b)]"
    "compact_nodes b = map (\<lambda>n. (mn_id n, mn_ip n, mn_port n)) near" "mset (ml_nodes demo_mainline) = mset near + mset far"
    "length near = min 8 (length (ml_nodes demo_mainline))"
    using find_node_answer_nearest [OF t d] by auto
  have m: "mset (near @ far) = {#new_node 5 (replicate 20 7) 9 80#}" using n(3) by (simp add: demo_mainline_fields)
  have "near @ far = [new_node 5 (replicate 20 7) 9 80]" using m by (simp only: mset_single_iff)
  moreover have "length near = 1" using n(4) by (simp add: demo_mainline_fields)
  ultimately have "near = [new_node 5 (replicate 20 7) 9 80]" by (cases near) auto
  then show ?thesis using n(1,2) by (auto simp: new_node_def)
qed

text \<open>C22: A reply is acted on only while its transaction is outstanding, and only once: with distinct
  transaction ids, a reply whose id is unknown is refused and changes neither the node nor the item
  store, and after any reply was handled the same packet, from any sender at any time, is refused and
  changes nothing. No datagram is sent for a reply.\<close>

theorem reply_taken_once:
  assumes "bencode_decode data = Some (msg, rest)" "dict_string msg ''y'' = Some y" "c_string y = str ''r''"
    "dict_string msg ''t'' = Some t" "distinct (map mt_id (ml_transactions s))"
    "mainline_process_packet sd gh now (ip, port, data) (s, d) = (rc, out, s', d')"
  shows "out = [] \<and> d' = d \<and> mainline_process_packet sd gh now' (ip', port', data) (s', d'') = (-1, [], s', d'') \<and>
    (decode_transaction_id t \<notin> mt_id ` set (ml_transactions s) \<longrightarrow> rc = -1 \<and> s' = s)"
proof -
  note p = process_packet_reply [OF assms(1-3)]
  obtain rc1 s1 where r: "process_reply now ip port (msg_read_only msg) msg s = (rc1, s1)" by fastforce
  then have e: "rc = rc1" "out = []" "s' = s1" "d' = d" using p [of sd gh now ip port s d] assms(6) by simp_all
  have "decode_transaction_id t \<notin> mt_id ` set (ml_transactions s')"
    using process_reply_used [OF assms(4,5), of now ip port "msg_read_only msg"] by (simp add: r e)
  then have "process_reply now' ip' port' (msg_read_only msg) msg s' = (-1, s')" by (rule process_reply_unknown [OF assms(4)])
  then show ?thesis using p [of sd gh now' ip' port' s' d''] process_reply_unknown [OF assms(4)] r e by auto
qed

definition demo_reply :: bencode_value where
  "demo_reply = BENCODE_DICT [(str ''r'', BENCODE_DICT []), (str ''t'', BENCODE_STRING [0, 0, 0, 5]), (str ''y'', BENCODE_STRING (str ''r''))]"

definition demo_waiting :: mainline_state where
  "demo_waiting = demo_mainline\<lparr>ml_transactions := [\<lparr>mt_id = 5, mt_created = 1, mt_target = replicate 20 0\<rparr>]\<rparr>"

theorem reply_taken_once_witness:
  "fst (mainline_process_packet toy_sodium (\<lambda>_ _. []) 9 (3, 80, bencode_encode demo_reply) (demo_waiting, dhtstore_init 0 0 False)) = 0 \<and>
   mainline_process_packet toy_sodium (\<lambda>_ _. []) 9 (4, 81, bencode_encode demo_reply) (demo_waiting\<lparr>ml_transactions := []\<rparr>, dhtstore_init 0 0 False) =
     (-1, [], demo_waiting\<lparr>ml_transactions := []\<rparr>, dhtstore_init 0 0 False)"
proof -
  have d: "bencode_decode (bencode_encode demo_reply) = Some (demo_reply, [])"
    using bencode_round_trip [of demo_reply "[]"] by (simp add: demo_reply_def c_string_str no_nul_def BENCODE_MAX_DEPTH_def)
  have f: "dict_string demo_reply ''y'' = Some (str ''r'')" "c_string (str ''r'') = str ''r''" "dict_string demo_reply ''t'' = Some [0, 0, 0, 5]"
    "bencode_dict_get demo_reply (str ''r'') = Some (BENCODE_DICT [])" "dict_string demo_reply ''ip'' = None"
    "dict_string (BENCODE_DICT []) ''id'' = None" "dict_string (BENCODE_DICT []) ''nodes'' = None"
    by (simp_all add: demo_reply_def dict_string_def c_string_str no_nul_def)
  have w: "distinct (map mt_id (ml_transactions demo_waiting))" by (simp add: demo_waiting_def)
  have i: "decode_transaction_id [0, 0, 0, 5] = 5" by (simp add: decode_transaction_id_def un_be32_def)
  have p: "mainline_process_packet toy_sodium (\<lambda>_ _. []) 9 (3, 80, bencode_encode demo_reply) (demo_waiting, dhtstore_init 0 0 False) =
      (0, [], demo_waiting\<lparr>ml_transactions := []\<rparr>, dhtstore_init 0 0 False)"
    unfolding process_packet_reply [OF d f(1,2)] by (simp add: process_reply_def f i demo_waiting_def accept_reply_def learn_sender_def Let_def)
  show ?thesis using reply_taken_once [OF d f(1,2,3) w p] by (simp add: p)
qed

definition demo_announce :: bencode_value where
  "demo_announce = BENCODE_DICT
     [(str ''a'', BENCODE_DICT [(str ''info_hash'', BENCODE_STRING (replicate 20 6)), (str ''port'', BENCODE_INT 81), (str ''token'', BENCODE_STRING [0, 0, 0, 0])]),
      (str ''q'', BENCODE_STRING (str ''announce_peer'')), (str ''t'', BENCODE_STRING [1, 2]), (str ''y'', BENCODE_STRING (str ''q''))]"

lemma demo_announce_facts:
  "bencode_decode (bencode_encode demo_announce) = Some (demo_announce, [])"
  "dict_string demo_announce ''y'' = Some (str ''q'')" "c_string (str ''q'') = str ''q''"
  "dict_string demo_announce ''q'' = Some (str ''announce_peer'')" "dict_string demo_announce ''t'' = Some [1, 2]"
  "bencode_dict_get demo_announce (str ''a'') = Some (BENCODE_DICT
     [(str ''info_hash'', BENCODE_STRING (replicate 20 6)), (str ''port'', BENCODE_INT 81), (str ''token'', BENCODE_STRING [0, 0, 0, 0])])"
  using bencode_round_trip [of demo_announce "[]"]
  by (simp_all add: demo_announce_def dict_string_def c_string_str no_nul_def BENCODE_MAX_DEPTH_def)

lemma demo_mainline_rest:
  "ml_served demo_mainline = []" "ml_read_only demo_mainline = False" "ml_token_secret demo_mainline = replicate 16 2"
  by (simp_all add: demo_mainline_def mainline_init_def mainline_add_node_append subnet_count_def MAINLINE_MAX_PER_SUBNET_def MAINLINE_MAX_NODES_def)

text \<open>C21: A node writes nothing for a sender that does not show its token: an announce_peer or a put
  query, from whatever address, whose token is missing or is not one made for that address in this or
  the previous epoch leaves the announced peers and the item store as they were, although the query
  is answered.\<close>

theorem write_needs_token:
  assumes "bencode_decode data = Some (msg, rest)" "dict_string msg ''y'' = Some y" "c_string y = str ''q''"
    "dict_string msg ''q'' = Some q" "q = str ''announce_peer'' \<or> q = str ''put''"
    "bencode_dict_get msg (str ''a'') = Some (BENCODE_DICT kvs)"
    "case dict_string (BENCODE_DICT kvs) ''token'' of None \<Rightarrow> True | Some tok \<Rightarrow> \<not> serve_token_valid gh now s ip tok"
    "mainline_process_packet sd gh now (ip, port, data) (s, d) = (rc, out, s', d')"
  shows "ml_served s' = ml_served s \<and> d' = d"
proof -
  let ?a = "BENCODE_DICT kvs"
  define s1 where "s1 = (if msg_read_only msg then s else learn_sender now ip port msg ?a s)"
  have f: "ml_served s1 = ml_served s" "ml_token_secret s1 = ml_token_secret s"
    using same_but_nodes_fields [OF same_but_nodes_learn] by (simp_all add: s1_def)
  have v: "serve_token_valid gh now s1 ip tok = serve_token_valid gh now s ip tok" for tok
    by (simp add: serve_token_valid_def serve_token_ep_def f)
  have "answer_announce gh now ip port ?a s1 = s1" "answer_put sd gh now ip ?a s1 d = d"
    using assms(7) by (simp_all add: answer_announce_def answer_put_def v split: option.split option.split_asm)
  then have "answer_query sd gh now ip port q ?a (s1, d) = ([], s1, d)" using assms(5) by (auto simp: answer_query_def str_def)
  then have "ml_served s' = ml_served s1 \<and> d' = d" if "\<not> ml_read_only s"
    using assms(8) unfolding process_packet_query [OF assms(1-3)] process_query_eq [OF assms(4,6) that s1_def]
    by (simp split: option.splits)
  moreover have "s' = s \<and> d' = d" if "ml_read_only s"
    using assms(8) that unfolding process_packet_query [OF assms(1-3)] by (simp add: process_query_def)
  ultimately show ?thesis using f by (cases "ml_read_only s") auto
qed

theorem write_needs_token_witness:
  "ml_served (fst (snd (snd (mainline_process_packet toy_sodium (\<lambda>_ _. replicate 16 1) 9 (3, 80, bencode_encode demo_announce)
     (demo_mainline, dhtstore_init 0 0 False))))) = []"
proof -
  obtain rc out s' d' where p: "mainline_process_packet toy_sodium (\<lambda>_ _. replicate 16 1) 9 (3, 80, bencode_encode demo_announce)
      (demo_mainline, dhtstore_init 0 0 False) = (rc, out, s', d')" by (rule prod_cases4)
  note f = demo_announce_facts
  show ?thesis
    unfolding p using write_needs_token [OF f(1-4) _ f(6) _ p]
    by (simp add: demo_mainline_rest dict_string_def c_string_str no_nul_def serve_token_valid_def serve_token_ep_def Let_def numeral_eq_Suc)
qed

text \<open>C20: A peer that announces itself with the token it was given is served: for a node that answers
  queries, an announce_peer query carrying the token made for its address in the same or the previous
  epoch is accepted, and from then on the answer to a get_peers query for that info hash, from anyone,
  lists the announced address and port among its values. The keyed hash is one of 16 bytes.\<close>

theorem announced_peer_served:
  assumes "\<forall>m k. length (gh m k) = 16" "announced_inv (ml_served s)" "\<not> ml_read_only s" "ip \<noteq> 0" "port \<noteq> 0"
    and msg: "bencode_decode data = Some (msg, rest)" "dict_string msg ''y'' = Some y" "c_string y = str ''q''"
    and q: "dict_string msg ''q'' = Some (str ''announce_peer'')" "bencode_dict_get msg (str ''a'') = Some (BENCODE_DICT kvs)"
    and t: "dict_string msg ''t'' = Some t"
    and args: "dict_string (BENCODE_DICT kvs) ''info_hash'' = Some ih" "length ih = 20"
      "dict_string (BENCODE_DICT kvs) ''token'' = Some (serve_token gh t0 s ip)"
    and epoch: "now div TOKEN_EPOCH = t0 div TOKEN_EPOCH \<or> now div TOKEN_EPOCH = t0 div TOKEN_EPOCH + 1"
    and step: "mainline_process_packet sd gh now (ip, port, data) (s, d) = (rc, out, s', d')"
    and ask: "dict_string a2 ''info_hash'' = Some ih"
  shows "rc = 0 \<and> (\<exists>vs. (''values'', BENCODE_LIST vs) \<in> set (answer_get_peers gh now2 ip2 a2 s') \<and>
    bencode_string_new (compact_peer (ip, announce_port port (BENCODE_DICT kvs))) \<in> set vs)"
proof -
  let ?a = "BENCODE_DICT kvs" and ?p = "announce_port port (BENCODE_DICT kvs)"
  define s1 where "s1 = (if msg_read_only msg then s else learn_sender now ip port msg ?a s)"
  have f: "ml_served s1 = ml_served s" "ml_token_secret s1 = ml_token_secret s"
    using same_but_nodes_fields [OF same_but_nodes_learn] by (simp_all add: s1_def)
  obtain k where a: "answer_announce gh now ip port ?a s1 = serve_store_peer ih ip ?p k s1"
    using args serve_token_accepted [OF assms(1) f(2) epoch, of ip] by (simp add: answer_announce_def)
  have "answer_query sd gh now ip port (str ''announce_peer'') ?a (s1, d) = ([], serve_store_peer ih ip ?p k s1, d)"
    using a by (simp add: answer_query_def str_def)
  then have "rc = 0" "s' = serve_store_peer ih ip ?p k s1"
    using step t unfolding process_packet_query [OF msg] process_query_eq [OF q assms(3) s1_def] by simp_all
  moreover obtain vs where "serve_values (serve_store_peer ih ip ?p k s1) ih = Some (BENCODE_LIST vs)" "bencode_string_new (compact_peer (ip, ?p)) \<in> set vs"
    using serve_values_stored [OF _ args(2) assms(4) announce_port_nonzero [OF assms(5)], of s1 ?a k] assms(2) f(1) by auto
  ultimately show ?thesis using ask args(2) by (auto simp: answer_get_peers_def Let_def)
qed

definition demo_ask :: bencode_value where
  "demo_ask = BENCODE_DICT [(str ''info_hash'', BENCODE_STRING (replicate 20 6))]"

theorem announced_peer_served_witness:
  "\<exists>vs. (''values'', BENCODE_LIST vs) \<in> set (answer_get_peers (\<lambda>_ _. replicate 16 0) 900 8 demo_ask
       (fst (snd (snd (mainline_process_packet toy_sodium (\<lambda>_ _. replicate 16 0) 301 (3, 80, bencode_encode demo_announce)
         (demo_mainline, dhtstore_init 0 0 False)))))) \<and>
     bencode_string_new (compact_peer (3, 81)) \<in> set vs"
proof -
  obtain rc out s' d' where p: "mainline_process_packet toy_sodium (\<lambda>_ _. replicate 16 0) 301 (3, 80, bencode_encode demo_announce)
      (demo_mainline, dhtstore_init 0 0 False) = (rc, out, s', d')" by (rule prod_cases4)
  let ?kvs = "[(str ''info_hash'', BENCODE_STRING (replicate 20 6)), (str ''port'', BENCODE_INT 81), (str ''token'', BENCODE_STRING [0, 0, 0, 0])]"
  note f = demo_announce_facts
  have h: "\<forall>m k. length ((\<lambda>_ _. replicate 16 (0 :: byte)) m k) = 16" by simp
  have a: "dict_string (BENCODE_DICT ?kvs) ''info_hash'' = Some (replicate 20 6)" "length (replicate 20 (6 :: byte)) = 20"
    "dict_string (BENCODE_DICT ?kvs) ''token'' = Some (serve_token (\<lambda>_ _. replicate 16 0) 299 demo_mainline 3)"
    "announce_port 80 (BENCODE_DICT ?kvs) = 81" "dict_string demo_ask ''info_hash'' = Some (replicate 20 6)"
    by (simp_all add: dict_string_def demo_ask_def c_string_str no_nul_def serve_token_def serve_token_ep_def announce_port_def numeral_eq_Suc)
  have s: "announced_inv (ml_served demo_mainline)" "\<not> ml_read_only demo_mainline" "(3 :: u32) \<noteq> 0" "(80 :: u16) \<noteq> 0"
    by (simp_all add: demo_mainline_rest announced_inv_def)
  have e: "301 div TOKEN_EPOCH = 299 div TOKEN_EPOCH \<or> 301 div TOKEN_EPOCH = 299 div TOKEN_EPOCH + 1" by (simp add: TOKEN_EPOCH_def)
  show ?thesis
    using announced_peer_served [OF h s f(1-4) f(6) f(5) a(1-3) e p a(5), of 900 8] by (simp add: p a(4))
qed

end
