(* ===== verification/Spec2Isabelle.thy ===== *)
theory Spec2Isabelle
  imports Norn_Cluster Norn_Bencode Norn_Stream_Runs Norn_Channel Norn_Kad Norn_Bep44 Norn_Dhtstore Norn_Recstore
    Norn_Caches Norn_Txn Norn_Daemon Norn_Persist Norn_Serve
begin

text \<open>
  A verification development for norn, a peer-to-peer node in C: a library (\<open>src/libnorn\<close>) with
  a distributed hash table, encrypted channels, reliable streams and a replicated key-value store,
  and a daemon (\<open>src/nornd\<close>) that serves local clients over a socket. The theories follow the
  source files. Every definition that translates code is a function on values: a structure is a
  record, a fixed array a list of its length or of its used part, a C integer a word of its width
  (an \<open>int\<close> that only carries a return code is an \<open>int\<close>, one that only counts up a natural number
  with its largest value written out where it can be reached), a buffer a list of bytes. Operations
  return the new state with their return code; callbacks, datagrams and file contents are returned
  as values; the clock, random numbers and what the network delivers are arguments. Where the C code
  has undefined behaviour that can be reached (a read of an unset length, an access out of
  bounds, an overflow), the definition has no result or sets a fault flag, and a theorem says
  whether this happens. Failing memory
  allocation, freeing, wiping and logging are left out everywhere.

  \<^bold>\<open>Shared vocabulary.\<close> \<open>Norn_Prelude\<close>: machine types, big-endian encoders, search in a slot array,
  removal by swapping with the last entry. \<open>Norn_Memory\<close>: integers as a little-endian host keeps
  them in memory and the \<open>htons\<close> family; the development assumes such a host wherever the code
  copies an integer with \<open>memcpy\<close> or writes it with \<open>fwrite\<close>. \<open>Norn_Slots\<close>: the locale
  \<open>slot_table\<close>, the contract of a table of slots with a used flag, interpreted for the key-value
  store, the mux, the endpoint cache, the attributes, the local store and the publish log.

  \<^bold>\<open>Replicated store.\<close> \<open>Norn_Kvstore\<close> (\<open>norn_kvstore.c\<close>): commands, watches, snapshots; applying a
  command refines a bounded map, a restored snapshot equals the store it was taken of.
  \<open>Norn_Raft\<close> (\<open>norn_raft.c\<close>): every handler, timer, membership and proposal operation, with the
  calls of the I/O table as effects. \<open>Norn_Raft_Log\<close>, \<open>Norn_Raft_Safety\<close>, \<open>Norn_Raft_Props\<close>: the
  merge loop equals a function on lists, the invariant of a node over every sequence of
  operations, one vote per term, the commit rule over the acknowledgements received, application in
  order, absence of undefined behaviour while the node is its own member; that late PreVote replies
  count as votes and that a full log acknowledges what it drops; the locale \<open>quorum_system\<close> is interpreted on the voters. \<open>Norn_Raft_Net\<close>: a cluster of
  nodes over a network that loses, repeats and reorders messages, as a step relation; the invariant
  of all its runs, and a run in which two leaders of one term apply different entries, because
  replies of the PreVote round are counted as votes. \<open>Norn_Cluster\<close>
  (\<open>norn_cluster.c\<close>): the wire codec of the messages, members, and the key-value calls on top.

  \<^bold>\<open>Streams and channels.\<close> \<open>Norn_Stream\<close> and \<open>Norn_Stream_Ring\<close>, \<open>_Flow\<close>, \<open>_Props\<close>, \<open>_Bounds\<close>,
  \<open>_Live\<close>, \<open>_Runs\<close> (\<open>stream.c\<close>): one endpoint with its rings, windows and congestion control; two
  endpoints over an unreliable network deliver a prefix of what was written, in order; bounds that
  hold for any input; recovery after a timeout, and a case in which nothing is sent before a
  datagram arrives. Sequence
  numbers are 32 bits and compared as signed differences, so the delivery theorems are for
  streams of fewer than \<open>2 ^ 31\<close> segments. The rings meet the locale \<open>byte_fifo\<close>.
  \<open>Norn_Streammux\<close> (\<open>streammux.c\<close>): each logical stream of a mux is a stream of its own.
  \<open>Norn_Channel\<close> (\<open>channel.c\<close>, \<open>replaycache.c\<close>): handshake, sealing, resumption. libsodium is the
  record \<open>sodium\<close> of functions; what the theorems need of it (a signature made verifies, opening
  what was sealed) are their named hypotheses, and \<open>toy_sodium\<close> shows that they can hold.

  \<^bold>\<open>Distributed hash table.\<close> \<open>Norn_Bencode\<close> (\<open>bencode.c\<close>): decoder with its depth limit, encoder,
  round trip. \<open>Norn_Kad\<close> (\<open>norn_kad.c\<close>, \<open>kademlia.c\<close>, parts of \<open>crypto.c\<close>): both routing tables
  through the locale \<open>bucket_index\<close>, and the closest nodes, for ids up to the 264 bytes that
  fit the buffers of the sort. \<open>Norn_Bep44\<close> (\<open>sha1.c\<close>, \<open>bep44.c\<close>):
  SHA-1, targets, signed buffers, records. \<open>Norn_Dhtstore\<close> (\<open>dhtstore.c\<close>) and \<open>Norn_Recstore\<close>
  (\<open>recstore.c\<close>): the stores of items and records hold only authentic entries. \<open>Norn_Caches\<close>,
  \<open>Norn_Txn\<close> (\<open>norn_endpoint_cache.c\<close>, \<open>norn_transaction.c\<close>, \<open>attr.c\<close>): small tables.
  \<open>Norn_Net\<close> (\<open>net.c\<close>): the votes on the public address. \<open>Norn_Mainline\<close> (first part of
  \<open>norn.c\<close>): the node's routing table, eviction, transactions, queries and files. \<open>Norn_Lookup\<close>
  (second part, and calls of \<open>norn_impl.c\<close>): the iterative lookups; what the socket of a lookup
  sees is a list of rounds, each with the time elapsed and the datagrams received, and a lookup
  whose list is exhausted has run out of time. Values returned are authentic whatever arrives, up
  to the 1024 bytes of a signed value that are verified, and a tail behind them is not; the
  candidates are kept farthest first, so announcements go to the farthest nodes, and the
  publishing calls send nothing. \<open>Norn_Serve\<close> (third part): every packet a node handles,
  with tokens, announced peers and the answers to queries; steps and runs of a node, with the
  invariant of table, transactions, peers, votes and item store. The keyed hash of the tokens is a
  parameter.

  \<^bold>\<open>Daemon.\<close> \<open>Norn_Ipc\<close> (\<open>ipc.c\<close>): request and response frames. \<open>Norn_Dispatch\<close> (\<open>dispatch.c\<close> and
  the cluster backend and subscriptions of \<open>main.c\<close>): the locale \<open>kv_backend\<close> is the contract of the
  store behind the dispatcher, interpreted for the cluster and for the daemon's own store.
  \<open>Norn_Served\<close> (\<open>localstore.c\<close>, \<open>store.c\<close>, \<open>served_proto.c\<close>, \<open>served.c\<close>, \<open>served_conn.c\<close>):
  content served to peers; the locale \<open>byte_sink\<close> is the writer it fills. \<open>Norn_Publish\<close>
  (\<open>publog.c\<close>, \<open>pubqueue.c\<close>): the publish log, the queue and the calls a pass of the main loop
  makes for it. \<open>Norn_Daemon\<close> (\<open>main.c\<close>): the requests
  the daemon answers itself. \<open>Norn_Persist\<close> (\<open>dht_persist.c\<close>): the file kept across restarts.

  \<^bold>\<open>Loops and bounds.\<close> Loops are structural recursion or functions with a termination proof. The
  decoder of bencode counts its depth with fuel that the length of the input bounds; the loops over
  a fixed array recurse on it. Constants are those of the sources.

  \<^bold>\<open>Not modelled.\<close> Sockets, threads, timers and processes: the transports, sessions
  (\<open>norn_session.c\<close>, \<open>norn_session_udp.c\<close>), the main loop of the daemon, peer files, key files and
  the ssh agent, UPnP, Bonjour and NAT-PMP exchanges, and the command line tools are calls to the
  operating system around the parts above. The rest of \<open>norn_impl.c\<close> joins those parts to one client
  object. libsodium itself is a parameter.
\<close>

end
